(* ===== verification/CPrelude.thy ===== *)
theory CPrelude
  imports Main "HOL-Library.Word" "HOL-Library.Signed_Division" "HOL-Library.Monad_Syntax"
    "HOL-Library.Multiset"
begin

text \<open>
  The conventions every component shares: the operators of C that the sources use, and the
  lemmas about them and about lists and maps that several components need.

  An aborting C expression (a failed \<open>assert\<close>, \<open>abort()\<close>, an access outside the object, a
  loop that never ends) is \<open>None\<close>; the option monad sequences such expressions. A 32-bit
  \<open>int\<close> whose bits matter is a \<open>32 word\<close>; an \<open>int\<close> used as a count or an index is an
  unbounded \<open>int\<close>, and the array accesses check its range.
\<close>

unbundle bit_operations_syntax

section \<open>C operators\<close>

type_synonym c_int = "32 word"

text \<open>\<open>!x\<close>, \<open>x << n\<close> and the arithmetic \<open>x >> n\<close> of a 32-bit signed \<open>int\<close>.\<close>

definition lnot :: "c_int \<Rightarrow> c_int" where
  "lnot x = (if x = 0 then 1 else 0)"

definition shl :: "c_int \<Rightarrow> nat \<Rightarrow> c_int" where
  "shl x n = push_bit n x"

definition shr :: "c_int \<Rightarrow> nat \<Rightarrow> c_int" where
  "shr x n = signed_drop_bit n x"

text \<open>A C condition as an \<open>int\<close>.\<close>

definition of_cond :: "bool \<Rightarrow> c_int" where
  "of_cond b = (if b then 1 else 0)"

text \<open>\<open>assert(c)\<close>.\<close>

definition c_assert :: "bool \<Rightarrow> unit option" where
  "c_assert b = (if b then Some () else None)"

text \<open>Reading and writing an array element; \<open>None\<close> outside the array.\<close>

definition aget :: "'a list \<Rightarrow> int \<Rightarrow> 'a option" where
  "aget xs i = (if 0 \<le> i \<and> i < int (length xs) then Some (xs ! nat i) else None)"

definition aset :: "'a list \<Rightarrow> int \<Rightarrow> 'a \<Rightarrow> 'a list option" where
  "aset xs i v = (if 0 \<le> i \<and> i < int (length xs) then Some (xs[nat i := v]) else None)"

text \<open>C division truncates; on non-negative operands it is \<open>div\<close> and \<open>mod\<close>.\<close>

lemma sdiv_nonneg: "0 \<le> a \<Longrightarrow> 0 \<le> b \<Longrightarrow> a sdiv b = a div (b :: int)"
  by (cases "a = 0 \<or> b = 0") (auto simp: signed_divide_int_def sgn_if)

lemma smod_nonneg: "0 \<le> a \<Longrightarrow> 0 \<le> b \<Longrightarrow> a smod b = a mod (b :: int)"
  by (cases "a = 0") (auto simp: signed_modulo_int_def sgn_if)

text \<open>\<open>for (i = lo; i < hi; i++)\<close>, the body a step on the variables the loop changes.\<close>

function c_for :: "int \<Rightarrow> int \<Rightarrow> (int \<Rightarrow> 's \<Rightarrow> 's option) \<Rightarrow> 's \<Rightarrow> 's option" where
  "c_for lo hi body s =
     (if lo < hi then do { s' \<leftarrow> body lo s; c_for (lo + 1) hi body s' } else Some s)"
  by pat_completeness auto

termination by (relation "measure (\<lambda>(lo, hi, _, _). nat (hi - lo))") auto

declare c_for.simps [simp del]

lemma c_for_done [simp]: "hi \<le> lo \<Longrightarrow> c_for lo hi body s = Some s"
  by (subst c_for.simps) simp

lemma c_for_step: "lo < hi \<Longrightarrow> c_for lo hi body s = Option.bind (body lo s) (c_for (lo + 1) hi body)"
  by (subst c_for.simps) (simp add: fun_eq_iff)

lemma c_for_invariant:
  assumes "I lo s" "lo \<le> hi"
    and "\<And>i s. lo \<le> i \<Longrightarrow> i < hi \<Longrightarrow> I i s \<Longrightarrow> \<exists>s'. body i s = Some s' \<and> I (i + 1) s'"
  shows "\<exists>s'. c_for lo hi body s = Some s' \<and> I hi s'"
  using assms
proof (induction "nat (hi - lo)" arbitrary: lo s)
  case 0
  then show ?case by simp
next
  case (Suc n)
  then have lt: "lo < hi" by simp
  obtain s1 where s1: "body lo s = Some s1" "I (lo + 1) s1"
    using Suc.prems(3) [of lo s] Suc.prems(1) lt by auto
  have "\<exists>s'. c_for (lo + 1) hi body s1 = Some s' \<and> I hi s'"
    by (rule Suc.hyps(1)) (use Suc.hyps(2) Suc.prems(3) s1(2) lt in auto)
  then show ?case using s1(1) lt by (simp add: c_for_step)
qed

named_theorems c_defs \<open>definitions of the C operators\<close>

declare lnot_def [c_defs] shl_def [c_defs] shr_def [c_defs] of_cond_def [c_defs]

lemma c_assert_Some [simp]: "c_assert b = Some u \<longleftrightarrow> b"
  by (simp add: c_assert_def)

lemma c_assert_True [simp]: "c_assert True = Some ()"
  by (simp add: c_assert_def)

lemma c_assert_False [simp]: "c_assert False = None"
  by (simp add: c_assert_def)

lemma aget_nat [simp]: "i < length xs \<Longrightarrow> aget xs (int i) = Some (xs ! i)"
  by (simp add: aget_def)

lemma aget_Some_iff: "aget xs i = Some v \<longleftrightarrow> 0 \<le> i \<and> i < int (length xs) \<and> v = xs ! nat i"
  by (auto simp: aget_def)

lemma aget_None_iff: "aget xs i = None \<longleftrightarrow> i < 0 \<or> int (length xs) \<le> i"
  by (auto simp: aget_def)

lemma aset_nat [simp]: "i < length xs \<Longrightarrow> aset xs (int i) v = Some (xs[i := v])"
  by (simp add: aset_def)

lemma aset_Some_iff:
  "aset xs i v = Some ys \<longleftrightarrow> 0 \<le> i \<and> i < int (length xs) \<and> ys = xs[nat i := v]"
  by (auto simp: aset_def)

section \<open>Strings and numbers\<close>

text \<open>\<open>isspace\<close>, \<open>isdigit\<close>, \<open>atoi\<close> (on a value that fits an \<open>int\<close>) and the conversion \<open>%i\<close> of
the standard library.\<close>

definition isspace :: "char \<Rightarrow> bool" where
  "isspace c \<longleftrightarrow> c = CHR '' '' \<or> c \<in> {CHR 0x09, CHR 0x0A, CHR 0x0B, CHR 0x0C, CHR 0x0D}"

definition isdigit :: "char \<Rightarrow> bool" where
  "isdigit c \<longleftrightarrow> 48 \<le> (of_char c :: nat) \<and> (of_char c :: nat) \<le> 57"

definition atoi :: "string \<Rightarrow> int" where
  "atoi s =
     (let s = dropWhile isspace s;
          neg = (s \<noteq> [] \<and> hd s = CHR ''-'');
          s = (if s \<noteq> [] \<and> hd s \<in> {CHR ''-'', CHR ''+''} then tl s else s);
          v = foldl (\<lambda>r c. r * 10 + (of_char c - 48)) 0 (takeWhile isdigit s)
      in if neg then - v else v)"

fun print_nat :: "nat \<Rightarrow> string" where
  "print_nat n = (if n < 10 then [char_of (n + 48)] else print_nat (n div 10) @ [char_of (n mod 10 + 48)])"

definition print_int :: "int \<Rightarrow> string" where
  "print_int i = (if i < 0 then CHR ''-'' # print_nat (nat (- i)) else print_nat (nat i))"

declare print_nat.simps [simp del]

section \<open>Signed words\<close>

lemma sint_bounds32: "- 2147483648 \<le> sint (x :: c_int) \<and> sint x < 2147483648"
  using sint_greater_eq [of x] sint_lt [of x] by simp

text \<open>The sign of a word, as \<open>x >> 31\<close> gives it.\<close>

lemma shr_31: "shr x 31 = (if sint x < 0 then - 1 else 0)"
proof (rule signed_word_eqI)
  have b: "- 2147483648 \<le> sint x" "sint x < 2147483648" using sint_bounds32 [of x] by auto
  show "sint (shr x 31) = sint (if sint x < 0 then - 1 else 0 :: c_int)"
    using b by (auto simp: shr_def sint_signed_drop_bit_eq drop_bit_eq_div div_eq_minus1)
qed

lemma sint_shr: "sint (shr x n) = sint x div 2 ^ n"
  by (simp add: shr_def sint_signed_drop_bit_eq drop_bit_eq_div)

text \<open>Wrap-around into 32 signed bits, for a value that left the range at most once.\<close>

lemma signed_take_bit32:
  fixes k :: int
  assumes "- 4294967296 \<le> k" "k < 4294967296"
  shows "signed_take_bit 31 k =
    (if k < - 2147483648 then k + 4294967296
     else if k < 2147483648 then k else k - 4294967296)"
proof -
  have shift: "signed_take_bit 31 k = (k + 2147483648) mod 4294967296 - 2147483648"
    by (simp add: signed_take_bit_eq_take_bit_shift take_bit_eq_mod)
  consider "k < - 2147483648" | "- 2147483648 \<le> k" "k < 2147483648" | "2147483648 \<le> k"
    by linarith
  then show ?thesis
  proof cases
    case 1
    then have "(k + 2147483648) mod 4294967296 = k + 2147483648 + 4294967296"
      using assms by (intro int_mod_pos_eq [where q = "- 1"]) auto
    with 1 shift show ?thesis by simp
  next
    case 2
    then have "(k + 2147483648) mod 4294967296 = k + 2147483648"
      using assms by (intro int_mod_pos_eq [where q = 0]) auto
    with 2 shift show ?thesis by simp
  next
    case 3
    then have "(k + 2147483648) mod 4294967296 = k + 2147483648 - 4294967296"
      using assms by (intro int_mod_pos_eq [where q = 1]) auto
    with 3 shift show ?thesis by simp
  qed
qed

lemma sint_add32: "sint (x + y) = signed_take_bit 31 (sint x + sint (y :: c_int))"
  by (simp only: sint_word_add) simp

lemma sint_minus32: "sint (- x) = signed_take_bit 31 (- sint (x :: c_int))"
  by (simp only: sint_word_minus) simp

lemma sint_of_int32: "sint (word_of_int k :: c_int) = signed_take_bit 31 k"
  by (simp only: sint_sbintrunc') simp

lemma sint_neg_iff_bit31: "sint (x :: c_int) < 0 \<longleftrightarrow> bit x 31"
  using bit_last_iff [of x] by simp

end
