(* ===== verification/MmDefs.thy ===== *)
theory MmDefs
  imports CPrelude
begin

text \<open>
  The storage allocator of \<open>systems/cs033/malloc\<close>: the simulated \<open>sbrk\<close> of \<open>memlib.c\<close>, the
  block and free-list primitives of \<open>mminline.h\<close> and the allocator of \<open>mm.c\<close>.

  Addresses and \<open>size_t\<close> values are natural numbers; the arithmetic on \<open>size_t\<close> that can leave
  64 bits is written with its wrap-around (\<open>u64\<close>). The memory \<open>cells\<close> maps the address of each
  8-byte word to the \<open>size_t\<close> stored there: every access of the allocator is to an aligned
  word, and an access outside the region that \<open>mem_init\<close> obtained is \<open>None\<close>, as a failed
  \<open>assert\<close> is. The contents of fresh memory are whatever \<open>cells\<close> says.
\<close>

section \<open>memlib.c\<close>

record mm =
  cells :: "nat \<Rightarrow> nat"
  mem_start_brk :: nat
  mem_brk :: nat
  mem_max_addr :: nat
  flist_first :: nat

definition MAX_HEAP :: nat where "MAX_HEAP = 20 * 2 ^ 20"

definition u64 :: "nat \<Rightarrow> nat" where "u64 n = n mod 2 ^ 64"

text \<open>Subtraction of \<open>size_t\<close> values.\<close>

definition u64_sub :: "nat \<Rightarrow> nat \<Rightarrow> nat" where
  "u64_sub a b = (if b \<le> a then a - b else a + 2 ^ 64 - b)"

text \<open>The conversion of a \<open>size_t\<close> argument to the \<open>int\<close> parameter of \<open>mem_sbrk\<close>.\<close>

definition to_int32 :: "nat \<Rightarrow> int" where
  "to_int32 n = signed_take_bit 31 (int n)"

text \<open>\<open>storage\<close> is what \<open>malloc(MAX_HEAP)\<close> returned; a failure there exits. The variable \<open>flist_first\<close> of \<open>mm.c\<close>
keeps the value \<open>flist\<close> it has.\<close>

definition mem_init :: "nat \<Rightarrow> (nat \<Rightarrow> nat) \<Rightarrow> nat \<Rightarrow> mm option" where
  "mem_init storage contents flist =
     (if storage = 0 then None
      else Some \<lparr>cells = contents, mem_start_brk = storage, mem_brk = storage,
                 mem_max_addr = storage + MAX_HEAP, flist_first = flist\<rparr>)"

definition mem_reset_brk :: "mm \<Rightarrow> mm" where
  "mem_reset_brk s = s\<lparr>mem_brk := mem_start_brk s\<rparr>"

definition sbrk_failed :: nat where "sbrk_failed = 2 ^ 64 - 1"

definition mem_sbrk :: "mm \<Rightarrow> int \<Rightarrow> nat \<times> mm" where
  "mem_sbrk s incr =
     (let old_brk = mem_brk s
      in if incr < 0 \<or> int (mem_brk s) + incr > int (mem_max_addr s) then (sbrk_failed, s)
         else (old_brk, s\<lparr>mem_brk := nat (int (mem_brk s) + incr)\<rparr>))"

definition mem_heap_lo :: "mm \<Rightarrow> nat" where "mem_heap_lo s = mem_start_brk s"

definition mem_heap_hi :: "mm \<Rightarrow> nat" where "mem_heap_hi s = mem_brk s - 1"

definition mem_heapsize :: "mm \<Rightarrow> nat" where "mem_heapsize s = mem_brk s - mem_start_brk s"

text \<open>A read and a write of one word.\<close>

definition in_region :: "mm \<Rightarrow> nat \<Rightarrow> bool" where
  "in_region s a \<longleftrightarrow> mem_start_brk s \<le> a \<and> a + 8 \<le> mem_max_addr s \<and> a mod 8 = 0"

definition ld :: "mm \<Rightarrow> nat \<Rightarrow> nat option" where
  "ld s a = (if in_region s a then Some (cells s a) else None)"

definition st :: "mm \<Rightarrow> nat \<Rightarrow> nat \<Rightarrow> mm option" where
  "st s a v = (if in_region s a then Some (s\<lparr>cells := (cells s)(a := v)\<rparr>) else None)"

section \<open>mm.h and mminline.h\<close>

definition WORD_SIZE :: nat where "WORD_SIZE = 8"
definition TAGS_SIZE :: nat where "TAGS_SIZE = 2 * WORD_SIZE"
definition MINBLOCKSIZE :: nat where "MINBLOCKSIZE = 4 * WORD_SIZE"
definition ENDPOINT :: nat where "ENDPOINT = 9"

text \<open>\<open>v & 1\<close>, \<open>v & -2\<close> and \<open>v | 1\<close>.\<close>

definition bit0 :: "nat \<Rightarrow> nat" where "bit0 v = v mod 2"
definition clear0 :: "nat \<Rightarrow> nat" where "clear0 v = 2 * (v div 2)"
definition set0 :: "nat \<Rightarrow> nat" where "set0 v = 2 * (v div 2) + 1"

definition block_end_tag :: "mm \<Rightarrow> nat \<Rightarrow> nat option" where
  "block_end_tag s b = do {
     size0 \<leftarrow> ld s b;
     c_assert (2 * WORD_SIZE \<le> size0);
     Some (b + WORD_SIZE + WORD_SIZE * (size0 div WORD_SIZE - 2)) }"

definition block_allocated :: "mm \<Rightarrow> nat \<Rightarrow> nat option" where
  "block_allocated s b = do { size0 \<leftarrow> ld s b; Some (bit0 size0) }"

definition block_end_allocated :: "mm \<Rightarrow> nat \<Rightarrow> nat option" where
  "block_end_allocated s b = do { t \<leftarrow> block_end_tag s b; v \<leftarrow> ld s t; Some (bit0 v) }"

definition block_size :: "mm \<Rightarrow> nat \<Rightarrow> nat option" where
  "block_size s b = do { size0 \<leftarrow> ld s b; Some (clear0 size0) }"

definition block_end_size :: "mm \<Rightarrow> nat \<Rightarrow> nat option" where
  "block_end_size s b = do { t \<leftarrow> block_end_tag s b; v \<leftarrow> ld s t; Some (clear0 v) }"

text \<open>\<open>size |= block_allocated(b)\<close> adds the flag, since the assertion made \<open>size\<close> even.\<close>

definition block_set_size :: "mm \<Rightarrow> nat \<Rightarrow> nat \<Rightarrow> mm option" where
  "block_set_size s b size0 = do {
     c_assert (size0 mod 8 = 0);
     a \<leftarrow> block_allocated s b;
     s1 \<leftarrow> st s b (size0 + a);
     t \<leftarrow> block_end_tag s1 b;
     st s1 t (size0 + a) }"

definition block_set_allocated :: "mm \<Rightarrow> nat \<Rightarrow> nat \<Rightarrow> mm option" where
  "block_set_allocated s b allocated = do {
     c_assert (allocated = 0 \<or> allocated = 1);
     let f = (if allocated \<noteq> 0 then set0 else clear0);
     size0 \<leftarrow> ld s b;
     s1 \<leftarrow> st s b (f size0);
     t \<leftarrow> block_end_tag s1 b;
     v \<leftarrow> ld s1 t;
     st s1 t (f v) }"

definition block_set_size_and_allocated :: "mm \<Rightarrow> nat \<Rightarrow> nat \<Rightarrow> nat \<Rightarrow> mm option" where
  "block_set_size_and_allocated s b size0 allocated = do {
     s1 \<leftarrow> block_set_size s b size0;
     block_set_allocated s1 b allocated }"

definition block_prev_allocated :: "mm \<Rightarrow> nat \<Rightarrow> nat option" where
  "block_prev_allocated s b = do { v \<leftarrow> ld s (b - 8); Some (bit0 v) }"

definition block_prev_size :: "mm \<Rightarrow> nat \<Rightarrow> nat option" where
  "block_prev_size s b = do { v \<leftarrow> ld s (b - 8); Some (clear0 v) }"

definition block_prev :: "mm \<Rightarrow> nat \<Rightarrow> nat option" where
  "block_prev s b = do { n \<leftarrow> block_prev_size s b; Some (b - n) }"

definition block_next :: "mm \<Rightarrow> nat \<Rightarrow> nat option" where
  "block_next s b = do { n \<leftarrow> block_size s b; Some (b + n) }"

definition block_next_allocated :: "mm \<Rightarrow> nat \<Rightarrow> nat option" where
  "block_next_allocated s b = do { n \<leftarrow> block_next s b; block_allocated s n }"

definition block_next_size :: "mm \<Rightarrow> nat \<Rightarrow> nat option" where
  "block_next_size s b = do { n \<leftarrow> block_next s b; block_size s n }"

definition payload_to_block :: "nat \<Rightarrow> nat" where
  "payload_to_block payload = payload - 8"

definition assert_free :: "mm \<Rightarrow> nat \<Rightarrow> unit option" where
  "assert_free s b = do { a \<leftarrow> block_allocated s b; c_assert (a = 0) }"

definition block_next_free :: "mm \<Rightarrow> nat \<Rightarrow> nat option" where
  "block_next_free s b = do { assert_free s b; ld s (b + 8) }"

definition block_set_next_free :: "mm \<Rightarrow> nat \<Rightarrow> nat \<Rightarrow> mm option" where
  "block_set_next_free s b nxt = do {
     assert_free s b; assert_free s nxt; st s (b + 8) nxt }"

definition block_prev_free :: "mm \<Rightarrow> nat \<Rightarrow> nat option" where
  "block_prev_free s b = do { assert_free s b; ld s (b + 16) }"

definition block_set_prev_free :: "mm \<Rightarrow> nat \<Rightarrow> nat \<Rightarrow> mm option" where
  "block_set_prev_free s b prev = do {
     assert_free s b; assert_free s prev; st s (b + 16) prev }"

definition pull_unlink :: "mm \<Rightarrow> nat \<Rightarrow> mm option" where
  "pull_unlink s fb = do {
     p \<leftarrow> block_prev_free s fb;
     n \<leftarrow> block_next_free s fb;
     s1 \<leftarrow> block_set_next_free s p n;
     n1 \<leftarrow> block_next_free s1 fb;
     p1 \<leftarrow> block_prev_free s1 fb;
     block_set_prev_free s1 n1 p1 }"

definition pull_free_block :: "mm \<Rightarrow> nat \<Rightarrow> mm option" where
  "pull_free_block s fb = do {
     assert_free s fb;
     if flist_first s = fb then do {
       n \<leftarrow> block_next_free s fb;
       let s1 = s\<lparr>flist_first := n\<rparr>;
       if n = fb then Some (s1\<lparr>flist_first := 0\<rparr>)
       else pull_unlink s1 fb }
     else pull_unlink s fb }"

definition insert_free_block :: "mm \<Rightarrow> nat \<Rightarrow> mm option" where
  "insert_free_block s fb = do {
     assert_free s fb;
     s1 \<leftarrow> (if flist_first s \<noteq> 0 then do {
               last \<leftarrow> block_prev_free s (flist_first s);
               t1 \<leftarrow> block_set_next_free s fb (flist_first s);
               t2 \<leftarrow> block_set_prev_free t1 fb last;
               t3 \<leftarrow> block_set_next_free t2 last fb;
               block_set_prev_free t3 (flist_first t3) fb }
             else do {
               t1 \<leftarrow> block_set_next_free s fb fb;
               block_set_prev_free t1 fb fb });
     Some (s1\<lparr>flist_first := fb\<rparr>) }"

section \<open>mm.c\<close>

definition align :: "nat \<Rightarrow> nat" where
  "align size0 = u64 (size0 + (WORD_SIZE - 1)) div WORD_SIZE * WORD_SIZE"

definition mm_init :: "mm \<Rightarrow> mm option" where
  "mm_init s = do {
     let s0 = s\<lparr>flist_first := 0\<rparr>;
     let (prologue_p, s1) = mem_sbrk s0 (int TAGS_SIZE);
     s2 \<leftarrow> st s1 prologue_p ENDPOINT;
     epilogue_p \<leftarrow> block_next s2 prologue_p;
     st s2 epilogue_p ENDPOINT }"

text \<open>What \<open>check_flist\<close> does with the block it settles on.\<close>

definition take_block :: "mm \<Rightarrow> nat \<Rightarrow> nat \<Rightarrow> nat \<Rightarrow> mm option" where
  "take_block s aligned initial initial_size = do {
     s1 \<leftarrow> pull_free_block s initial;
     if MINBLOCKSIZE \<le> u64_sub initial_size (u64 (aligned + TAGS_SIZE)) then do {
       s2 \<leftarrow> block_set_size_and_allocated s1 initial (u64 (aligned + TAGS_SIZE)) 1;
       let remainder = u64_sub initial_size (u64 (aligned + TAGS_SIZE));
       reinsert \<leftarrow> block_next s2 initial;
       s3 \<leftarrow> block_set_size_and_allocated s2 reinsert remainder 0;
       insert_free_block s3 reinsert }
     else block_set_size_and_allocated s1 initial initial_size 1 }"

partial_function (option) check_flist_loop :: "mm \<Rightarrow> nat \<Rightarrow> nat \<Rightarrow> (nat \<times> mm) option" where
  "check_flist_loop s aligned initial = do {
     initial_size \<leftarrow> block_size s initial;
     if u64 (aligned + TAGS_SIZE) \<le> initial_size then do {
       s1 \<leftarrow> take_block s aligned initial initial_size;
       Some (initial + 8, s1) }
     else do {
       nxt \<leftarrow> block_next_free s initial;
       if nxt \<noteq> flist_first s then check_flist_loop s aligned nxt
       else Some (0, s) } }"

definition check_flist :: "mm \<Rightarrow> nat \<Rightarrow> (nat \<times> mm) option" where
  "check_flist s size0 =
     (if flist_first s \<noteq> 0 then check_flist_loop s (align size0) (flist_first s)
      else Some (0, s))"

definition extend_heap :: "mm \<Rightarrow> nat \<Rightarrow> (nat \<times> mm) option" where
  "extend_heap s size0 = do {
     let updated_size = align size0;
     let (updated, s1) = mem_sbrk s (to_int32 (u64 (updated_size + WORD_SIZE)));
     b \<leftarrow> block_prev s1 updated;
     s2 \<leftarrow> block_set_size_and_allocated s1 b (u64 (updated_size + TAGS_SIZE)) 1;
     let (epilogue_p, s3) = mem_sbrk s2 (int WORD_SIZE);
     s4 \<leftarrow> st s3 epilogue_p ENDPOINT;
     Some (b + 8, s4) }"

definition mm_malloc :: "mm \<Rightarrow> nat \<Rightarrow> (nat \<times> mm) option" where
  "mm_malloc s size0 = do {
     (block, s1) \<leftarrow> check_flist s size0;
     if block \<noteq> 0 then Some (block, s1) else extend_heap s1 size0 }"

partial_function (option) coalesce_prev :: "mm \<Rightarrow> nat \<Rightarrow> nat \<Rightarrow> nat \<Rightarrow> (nat \<times> mm) option" where
  "coalesce_prev s b sz p = do {
     a \<leftarrow> block_allocated s p;
     if a \<noteq> 0 then Some (b, s)
     else do {
       s1 \<leftarrow> pull_free_block s p;
       psz \<leftarrow> block_size s1 p;
       s2 \<leftarrow> block_set_size_and_allocated s1 p (u64 (psz + sz)) 0;
       sz' \<leftarrow> block_size s2 p;
       p' \<leftarrow> block_prev s2 p;
       coalesce_prev s2 p sz' p' } }"

partial_function (option) coalesce_next :: "mm \<Rightarrow> nat \<Rightarrow> nat \<Rightarrow> nat \<Rightarrow> mm option" where
  "coalesce_next s b sz p = do {
     a \<leftarrow> block_allocated s p;
     if a \<noteq> 0 then Some s
     else do {
       s1 \<leftarrow> pull_free_block s p;
       psz \<leftarrow> block_size s1 p;
       s2 \<leftarrow> block_set_size_and_allocated s1 b (u64 (psz + sz)) 0;
       sz' \<leftarrow> block_size s2 b;
       p' \<leftarrow> block_next s2 b;
       coalesce_next s2 b sz' p' } }"

definition mm_free :: "mm \<Rightarrow> nat \<Rightarrow> mm option" where
  "mm_free s ptr =
     (if ptr = 0 then Some s
      else do {
        let b = payload_to_block ptr;
        sz \<leftarrow> block_size s b;
        s1 \<leftarrow> block_set_allocated s b 0;
        p \<leftarrow> block_prev s1 b;
        (b', s2) \<leftarrow> coalesce_prev s1 b sz p;
        p' \<leftarrow> block_next s2 b';
        sz' \<leftarrow> block_size s2 b';
        s3 \<leftarrow> coalesce_next s2 b' sz' p';
        insert_free_block s3 b' })"

text \<open>\<open>memmove\<close> of \<open>n\<close> words: the source is read in full before the destination is written. The local array
\<open>buffer\<close> of \<open>mm_realloc\<close> is the list of the words read; \<open>stack\<close> is the number of bytes for which the stack has room.\<close>

fun load_words :: "mm \<Rightarrow> nat \<Rightarrow> nat \<Rightarrow> nat list option" where
  "load_words s a 0 = Some []"
| "load_words s a (Suc n) = do { v \<leftarrow> ld s a; vs \<leftarrow> load_words s (a + 8) n; Some (v # vs) }"

fun store_words :: "mm \<Rightarrow> nat \<Rightarrow> nat list \<Rightarrow> mm option" where
  "store_words s a [] = Some s"
| "store_words s a (v # vs) = do { s1 \<leftarrow> st s a v; store_words s1 (a + 8) vs }"

definition mm_realloc :: "nat \<Rightarrow> mm \<Rightarrow> nat \<Rightarrow> nat \<Rightarrow> (nat \<times> mm) option" where
  "mm_realloc stack s ptr size0 =
     (if ptr = 0 then mm_malloc s size0
      else if size0 = 0 then do { s1 \<leftarrow> mm_free s ptr; Some (0, s1) }
      else do {
        let realloc = payload_to_block ptr;
        realloc_sz \<leftarrow> block_size s realloc;
        if realloc_sz = u64_sub size0 TAGS_SIZE then Some (realloc + 8, s)
        else if u64_sub realloc_sz TAGS_SIZE \<le> size0 then do {
          c_assert (realloc_sz \<le> stack);
          buffer \<leftarrow> load_words s realloc (realloc_sz div 8);
          s1 \<leftarrow> mm_free s (realloc + 8);
          (q, s2) \<leftarrow> mm_malloc s1 size0;
          let grown = payload_to_block q;
          grown_size \<leftarrow> block_size s2 grown;
          s3 \<leftarrow> store_words s2 grown buffer;
          s4 \<leftarrow> block_set_size_and_allocated s3 grown grown_size 1;
          Some (grown + 8, s4) }
        else do {
          let aligned = align size0;
          if aligned \<le> u64_sub (u64_sub realloc_sz TAGS_SIZE) MINBLOCKSIZE then do {
            s1 \<leftarrow> block_set_size_and_allocated s realloc (u64 (aligned + TAGS_SIZE)) 1;
            insert \<leftarrow> block_next s1 realloc;
            s2 \<leftarrow> block_set_size_and_allocated s1 insert
                     (u64_sub (u64_sub realloc_sz aligned) TAGS_SIZE) 1;
            s3 \<leftarrow> mm_free s2 (insert + 8);
            Some (realloc + 8, s3) }
          else do {
            (q, s1) \<leftarrow> mm_malloc s size0;
            let shrink = payload_to_block q;
            shrink_size \<leftarrow> block_size s1 shrink;
            buffer \<leftarrow> load_words s1 realloc (shrink_size div 8);
            s2 \<leftarrow> store_words s1 shrink buffer;
            s3 \<leftarrow> block_set_size_and_allocated s2 shrink shrink_size 1;
            s4 \<leftarrow> mm_free s3 (realloc + 8);
            Some (shrink + 8, s4) } } })"

section \<open>mm_check_heap\<close>

text \<open>The lines printed: address, size, and for a free block the next one in the list.\<close>

partial_function (option) print_heap_info ::
    "mm \<Rightarrow> nat \<Rightarrow> nat \<Rightarrow> (nat \<times> nat \<times> nat option) list option" where
  "print_heap_info s first top_p =
     (if first \<noteq> top_p then do {
        a \<leftarrow> block_allocated s first;
        n \<leftarrow> block_size s first;
        line \<leftarrow> (if a \<noteq> 0 then Some (first, n, None)
                else do { nxt \<leftarrow> block_next_free s first; Some (first, n, Some nxt) });
        p \<leftarrow> block_next s first;
        lines \<leftarrow> print_heap_info s p top_p;
        Some (line # lines) }
      else Some [])"

partial_function (option) check_free_list_loop :: "mm \<Rightarrow> nat \<Rightarrow> nat option" where
  "check_free_list_loop s list = do {
     a \<leftarrow> block_allocated s list;
     if a \<noteq> 0 then Some 1
     else do {
       nxt \<leftarrow> block_next_free s list;
       if nxt \<noteq> flist_first s then check_free_list_loop s nxt else Some 0 } }"

definition check_free_list :: "mm \<Rightarrow> nat option" where
  "check_free_list s =
     (if flist_first s \<noteq> 0 then check_free_list_loop s (flist_first s) else Some 0)"

partial_function (option) find_in_list_loop :: "mm \<Rightarrow> nat \<Rightarrow> nat \<Rightarrow> nat option" where
  "find_in_list_loop s block initial =
     (if block = initial then Some 0
      else do {
        nxt \<leftarrow> block_next_free s initial;
        if nxt \<noteq> flist_first s then find_in_list_loop s block nxt else Some 1 })"

definition find_in_list :: "mm \<Rightarrow> nat \<Rightarrow> nat option" where
  "find_in_list s block = find_in_list_loop s block (flist_first s)"

partial_function (option) check_free_heap :: "mm \<Rightarrow> nat \<Rightarrow> nat \<Rightarrow> nat option" where
  "check_free_heap s block top_p =
     (if block \<noteq> top_p then do {
        a \<leftarrow> block_allocated s block;
        f \<leftarrow> (if a = 0 then find_in_list s block else Some 0);
        if f \<noteq> 0 then Some 1
        else do { nxt \<leftarrow> block_next s block; check_free_heap s nxt top_p } }
      else Some 0)"

declare check_flist_loop.simps [code] coalesce_prev.simps [code] coalesce_next.simps [code]
  check_free_list_loop.simps [code] find_in_list_loop.simps [code] print_heap_info.simps [code] check_free_heap.simps [code]

text \<open>\<open>|\<close> evaluates both operands; both are 0 or 1.\<close>

definition mm_check_heap :: "mm \<Rightarrow> nat option" where
  "mm_check_heap s = do {
     let bottom = mem_heap_lo s;
     first \<leftarrow> block_next s bottom;
     let top_p = mem_heap_hi s - WORD_SIZE + 1;
     _ \<leftarrow> print_heap_info s first top_p;
     a \<leftarrow> check_free_list s;
     b \<leftarrow> check_free_heap s first top_p;
     Some (if a \<noteq> 0 \<or> b \<noteq> 0 then 1 else 0) }"

end
