(* ===== verification/MmDriver.thy ===== *)
theory MmDriver
  imports MmDefs
begin

text \<open>
  The trace driver of the allocator, \<open>systems/cs033/malloc/mdriver.c\<close>: the list of payload ranges,
  the test of a trace and the measurement of its utilisation.

  The driver reads and writes single bytes of the simulated memory, here bytes of the little-endian
  words of \<open>MmDefs\<close>. The list of ranges lives in the memory of \<open>libc\<close> and is modelled by its contents,
  a request that the trace does not hold cannot occur, and the messages are recorded by their kind.
\<close>

section \<open>Bytes\<close>

definition set_byte :: "nat \<Rightarrow> nat \<Rightarrow> nat \<Rightarrow> nat" where
  "set_byte v j b = v - (v div 256 ^ j mod 256) * 256 ^ j + b * 256 ^ j"

definition ld_byte :: "mm \<Rightarrow> nat \<Rightarrow> nat option" where
  "ld_byte s a = do { v \<leftarrow> ld s (a - a mod 8); Some (v div 256 ^ (a mod 8) mod 256) }"

definition st_byte :: "mm \<Rightarrow> nat \<Rightarrow> nat \<Rightarrow> mm option" where
  "st_byte s a b = do { v \<leftarrow> ld s (a - a mod 8); st s (a - a mod 8) (set_byte v (a mod 8) b) }"

fun memset :: "mm \<Rightarrow> nat \<Rightarrow> nat \<Rightarrow> nat \<Rightarrow> mm option" where
  "memset s p c 0 = Some s"
| "memset s p c (Suc n) = do { s \<leftarrow> st_byte s p c; memset s (p + 1) c n }"

text \<open>A \<open>char\<close> is signed.\<close>

definition signed_char :: "nat \<Rightarrow> int" where
  "signed_char b = (if b < 128 then int b else int b - 256)"

text \<open>The conversion of an \<open>int\<close> to \<open>size_t\<close>.\<close>

definition int_to_size :: "int \<Rightarrow> nat" where
  "int_to_size n = nat (n mod 2 ^ 64)"

section \<open>Traces\<close>

datatype request = ALLOC | FREE | REALLOC

record traceop =
  op_type :: request
  op_index :: int
  op_size :: int

datatype driver_error =
  Not_aligned | Outside_heap | Overlaps | Malloc_failed | Realloc_failed | Data_not_preserved

record driver =
  heap :: mm
  ranges :: "(nat \<times> nat) list"
  block_ptrs :: "nat list"
  block_sizes :: "nat list"
  reported :: "(nat \<times> driver_error) list"

definition malloc_error :: "nat \<Rightarrow> driver_error \<Rightarrow> driver \<Rightarrow> driver" where
  "malloc_error opnum e d = d\<lparr>reported := reported d @ [(opnum, e)]\<rparr>"

section \<open>Ranges\<close>

definition ALIGNMENT :: nat where "ALIGNMENT = 8"

fun overlaps :: "nat \<Rightarrow> nat \<Rightarrow> (nat \<times> nat) list \<Rightarrow> bool" where
  "overlaps l h [] = False"
| "overlaps l h (p # ps) =
     (if l \<ge> fst p \<and> l \<le> snd p \<or> h \<ge> fst p \<and> h \<le> snd p then True else overlaps l h ps)"

definition add_range :: "nat \<Rightarrow> int \<Rightarrow> nat \<Rightarrow> driver \<Rightarrow> (bool \<times> driver) option" where
  "add_range l size0 opnum d = do {
     let h = nat (int l + size0 - 1);
     c_assert (size0 > 0);
     if l mod ALIGNMENT \<noteq> 0 then Some (False, malloc_error opnum Not_aligned d)
     else if l < mem_heap_lo (heap d) \<or> l > mem_heap_hi (heap d) \<or>
             h < mem_heap_lo (heap d) \<or> h > mem_heap_hi (heap d)
     then Some (False, malloc_error opnum Outside_heap d)
     else if overlaps l h (ranges d) then Some (False, malloc_error opnum Overlaps d)
     else Some (True, d\<lparr>ranges := (l, h) # ranges d\<rparr>)
   }"

fun remove_range :: "nat \<Rightarrow> (nat \<times> nat) list \<Rightarrow> (nat \<times> nat) list" where
  "remove_range l [] = []"
| "remove_range l (p # ps) = (if fst p = l then ps else p # remove_range l ps)"

section \<open>\<open>eval_mm_valid\<close>\<close>

function data_kept :: "mm \<Rightarrow> nat \<Rightarrow> int \<Rightarrow> int \<Rightarrow> int \<Rightarrow> bool option" where
  "data_kept s newp c oldsize j =
     (if j < oldsize then do {
        b \<leftarrow> ld_byte s (newp + nat j);
        if signed_char b \<noteq> c then Some False else data_kept s newp c oldsize (j + 1)
      }
      else Some True)"
  by pat_completeness auto

termination by (relation "measure (\<lambda>(s, p, c, n, j). nat (n - j))") auto

declare data_kept.simps [simp del]

text \<open>\<open>memset\<close> and the two arrays of the trace.\<close>

definition fill_and_remember :: "nat \<Rightarrow> int \<Rightarrow> int \<Rightarrow> driver \<Rightarrow> driver option" where
  "fill_and_remember p index size0 d = do {
     h \<leftarrow> memset (heap d) p (nat (index mod 256)) (int_to_size size0);
     bl \<leftarrow> aset (block_ptrs d) index p;
     sz \<leftarrow> aset (block_sizes d) index (int_to_size size0);
     Some (d\<lparr>heap := h, block_ptrs := bl, block_sizes := sz\<rparr>)
   }"

definition valid_op :: "nat \<Rightarrow> nat \<Rightarrow> traceop \<Rightarrow> driver \<Rightarrow> (bool \<times> driver) option" where
  "valid_op stack i op d =
     (let index = op_index op; size0 = op_size op
      in case op_type op of
         ALLOC \<Rightarrow> do {
           (p, h) \<leftarrow> mm_malloc (heap d) (int_to_size size0);
           let d = d\<lparr>heap := h\<rparr>;
           if p = 0 then Some (False, malloc_error i Malloc_failed d)
           else do {
             (ok, d) \<leftarrow> add_range p size0 i d;
             if \<not> ok then Some (False, d)
             else do { d \<leftarrow> fill_and_remember p index size0 d; Some (True, d) }
           }
         }
       | REALLOC \<Rightarrow> do {
           oldp \<leftarrow> aget (block_ptrs d) index;
           (newp, h) \<leftarrow> mm_realloc stack (heap d) oldp (int_to_size size0);
           let d = d\<lparr>heap := h\<rparr>;
           if newp = 0 then Some (False, malloc_error i Realloc_failed d)
           else do {
             let d = d\<lparr>ranges := remove_range oldp (ranges d)\<rparr>;
             (ok, d) \<leftarrow> add_range newp size0 i d;
             if \<not> ok then Some (False, d)
             else do {
               oldsize \<leftarrow> aget (block_sizes d) index;
               let oldsize = (if size0 < to_int32 oldsize then size0 else to_int32 oldsize);
               kept \<leftarrow> data_kept (heap d) newp (index mod 256) oldsize 0;
               if \<not> kept then Some (False, malloc_error i Data_not_preserved d)
               else do { d \<leftarrow> fill_and_remember newp index size0 d; Some (True, d) }
             }
           }
         }
       | FREE \<Rightarrow> do {
           p \<leftarrow> aget (block_ptrs d) index;
           let d = d\<lparr>ranges := remove_range p (ranges d)\<rparr>;
           h \<leftarrow> mm_free (heap d) p;
           Some (True, d\<lparr>heap := h\<rparr>)
         })"

text \<open>The loop over the requests from number \<open>i\<close> on, and the whole test; \<open>mm_init\<close> returns 0.\<close>

fun valid_loop :: "nat \<Rightarrow> nat \<Rightarrow> traceop list \<Rightarrow> driver \<Rightarrow> (int \<times> driver) option" where
  "valid_loop stack i [] d = Some (1, d)"
| "valid_loop stack i (op # ops) d = do {
     (ok, d) \<leftarrow> valid_op stack i op d;
     if ok then valid_loop stack (i + 1) ops d else Some (0, d)
   }"

definition eval_mm_valid :: "nat \<Rightarrow> traceop list \<Rightarrow> driver \<Rightarrow> (int \<times> driver) option" where
  "eval_mm_valid stack ops d = do {
     let d = d\<lparr>heap := mem_reset_brk (heap d), ranges := []\<rparr>;
     h \<leftarrow> mm_init (heap d);
     valid_loop stack 0 ops (d\<lparr>heap := h\<rparr>)
   }"

section \<open>\<open>eval_mm_util\<close>\<close>

text \<open>A step returns \<open>None\<close> in place of the sizes when \<open>add_range\<close> fails, and \<open>app_error\<close> exits. The
sizes are the current total and its maximum.\<close>

definition util_op ::
  "nat \<Rightarrow> nat \<Rightarrow> traceop \<Rightarrow> driver \<Rightarrow> int \<times> int \<Rightarrow> ((int \<times> int) option \<times> driver) option" where
  "util_op stack i op d sums =
     (let index = op_index op; size0 = op_size op; total_size = fst sums; max_total_size = snd sums
      in case op_type op of
         ALLOC \<Rightarrow> do {
           (p, h) \<leftarrow> mm_malloc (heap d) (int_to_size size0);
           c_assert (p \<noteq> 0);
           (ok, d) \<leftarrow> add_range p size0 i (d\<lparr>heap := h\<rparr>);
           if \<not> ok then Some (None, d)
           else do {
             d \<leftarrow> fill_and_remember p index size0 d;
             let total_size = total_size + size0;
             Some (Some (total_size, if total_size > max_total_size then total_size else max_total_size), d)
           }
         }
       | REALLOC \<Rightarrow> do {
           oldp \<leftarrow> aget (block_ptrs d) index;
           oldsize \<leftarrow> aget (block_sizes d) index;
           (newp, h) \<leftarrow> mm_realloc stack (heap d) oldp (int_to_size size0);
           c_assert (newp \<noteq> 0);
           (ok, d) \<leftarrow> add_range newp size0 i (d\<lparr>heap := h, ranges := remove_range oldp (ranges d)\<rparr>);
           if \<not> ok then Some (None, d)
           else do {
             d \<leftarrow> fill_and_remember newp index size0 d;
             let total_size = total_size + (size0 - to_int32 oldsize);
             Some (Some (total_size, if total_size > max_total_size then total_size else max_total_size), d)
           }
         }
       | FREE \<Rightarrow> do {
           size0 \<leftarrow> aget (block_sizes d) index;
           p \<leftarrow> aget (block_ptrs d) index;
           h \<leftarrow> mm_free (heap d) p;
           Some (Some (total_size - to_int32 size0, max_total_size),
             d\<lparr>ranges := remove_range p (ranges d), heap := h\<rparr>)
         })"

fun util_loop :: "nat \<Rightarrow> nat \<Rightarrow> traceop list \<Rightarrow> driver \<Rightarrow> int \<times> int \<Rightarrow> ((int \<times> int) option \<times> driver) option" where
  "util_loop stack i [] d sums = Some (Some sums, d)"
| "util_loop stack i (op # ops) d sums = do {
     (r, d) \<leftarrow> util_op stack i op d sums;
     (case r of None \<Rightarrow> Some (None, d) | Some sums \<Rightarrow> util_loop stack (i + 1) ops d sums)
   }"

text \<open>The result is the quotient of the two numbers.\<close>

definition eval_mm_util :: "nat \<Rightarrow> traceop list \<Rightarrow> driver \<Rightarrow> ((int \<times> nat) option \<times> driver) option" where
  "eval_mm_util stack ops d = do {
     let d = d\<lparr>heap := mem_reset_brk (heap d), ranges := []\<rparr>;
     h \<leftarrow> mm_init (heap d);
     (r, d) \<leftarrow> util_loop stack 0 ops (d\<lparr>heap := h\<rparr>) (0, 0);
     Some (map_option (\<lambda>sums. (snd sums, mem_heapsize (heap d))) r, d)
   }"

end
