(* ===== verification/DList.thy ===== *)
theory DList
  imports CPrelude
begin

text \<open>
  Circular doubly linked lists. Two components of the program chain objects through a pair of
  pointers kept inside the objects: the allocator its free blocks, the thread library its
  threads (\<open>list.h\<close>). \<open>ring\<close> says that the next and previous pointers form one cycle through a
  list of nodes; the locale \<open>link_store\<close> is what a memory has to provide, and in it the two
  pointer updates both components are built from, unlinking a node and linking one in
  front of another, are proved once.
\<close>

section \<open>Chains and rings\<close>

fun chain :: "('a \<Rightarrow> 'a) \<Rightarrow> ('a \<Rightarrow> 'a) \<Rightarrow> 'a list \<Rightarrow> bool" where
  "chain n p [] = True"
| "chain n p [x] = True"
| "chain n p (x # y # zs) = (n x = y \<and> p y = x \<and> chain n p (y # zs))"

definition ring :: "('a \<Rightarrow> 'a) \<Rightarrow> ('a \<Rightarrow> 'a) \<Rightarrow> 'a list \<Rightarrow> bool" where
  "ring n p xs = (case xs of [] \<Rightarrow> True | x # _ \<Rightarrow> chain n p (xs @ [x]))"

lemma ring_Nil [simp]: "ring n p []"
  by (simp add: ring_def)

lemma ring_Cons: "ring n p (x # xs) = chain n p (x # xs @ [x])"
  by (simp add: ring_def)

lemma chain_append: "chain n p (xs @ a # ys) = (chain n p (xs @ [a]) \<and> chain n p (a # ys))"
proof (induction xs)
  case Nil
  then show ?case by simp
next
  case (Cons x xs)
  then show ?case by (cases xs) auto
qed

lemma chain_snoc: "chain n p (xs @ [a, b]) = (chain n p (xs @ [a]) \<and> n a = b \<and> p b = a)"
  using chain_append [of n p xs a "[b]"] by simp

lemma chain_ConsD: "chain n p (x # xs) \<Longrightarrow> chain n p xs"
  by (cases xs) auto

lemma chain_snocD: "chain n p (xs @ [a]) \<Longrightarrow> chain n p xs"
proof (cases xs rule: rev_cases)
  case (snoc ys y)
  then show "chain n p (xs @ [a]) \<Longrightarrow> chain n p xs" by (simp add: chain_snoc)
qed simp

lemma chain_cong:
  assumes "\<And>x. x \<in> set (butlast xs) \<Longrightarrow> n' x = n x"
    and "\<And>x. x \<in> set (tl xs) \<Longrightarrow> p' x = p x"
  shows "chain n' p' xs = chain n p xs"
  using assms
proof (induction n p xs rule: chain.induct)
  case (3 n p x y zs)
  have "chain n' p' (y # zs) = chain n p (y # zs)"
    using "3.prems" by (intro "3.IH") (auto split: if_splits)
  then show ?case using "3.prems" by simp
qed auto

lemma chain_cong_ends:
  assumes d: "distinct xs"
    and n: "\<And>b. b \<in> set xs \<Longrightarrow> b \<noteq> last xs \<Longrightarrow> n' b = n b"
    and p: "\<And>b. b \<in> set xs \<Longrightarrow> b \<noteq> hd xs \<Longrightarrow> p' b = p b"
  shows "chain n' p' xs = chain n p xs"
proof (cases "xs = []")
  case False
  have "distinct (butlast xs @ [last xs])" using d False by simp
  then have l: "last xs \<notin> set (butlast xs)" by simp
  have h: "hd xs \<notin> set (tl xs)" using d False by (cases xs) auto
  show ?thesis
    using l h by (intro chain_cong n p) (auto dest: in_set_butlastD simp: list.set_sel(2) False)
qed simp

lemma ring_rotate1: "ring n p (xs @ [x]) = ring n p (x # xs)"
proof (cases xs)
  case (Cons y ys)
  have "chain n p ((y # ys) @ [x, y]) = (chain n p ((y # ys) @ [x]) \<and> n x = y \<and> p y = x)"
    by (rule chain_snoc)
  then show ?thesis by (auto simp: Cons ring_Cons)
qed simp

lemma ring_append_commute: "ring n p (xs @ ys) = ring n p (ys @ xs)"
proof (induction ys arbitrary: xs)
  case Nil
  then show ?case by simp
next
  case (Cons y ys)
  have "ring n p (xs @ y # ys) = ring n p ((xs @ [y]) @ ys)" by simp
  also have "\<dots> = ring n p ((ys @ xs) @ [y])" using Cons [of "xs @ [y]"] by simp
  also have "\<dots> = ring n p (y # ys @ xs)" by (rule ring_rotate1)
  finally show ?case by simp
qed

lemma ring_to_front: "ring n p (xs @ x # ys) = ring n p (x # ys @ xs)"
  using ring_append_commute [of n p xs "x # ys"] by simp

lemma ring_next_in: "ring n p xs \<Longrightarrow> x \<in> set xs \<Longrightarrow> n x \<in> set xs"
proof -
  assume r: "ring n p xs" and "x \<in> set xs"
  then obtain ys zs where xs: "xs = ys @ x # zs" by (auto simp: in_set_conv_decomp)
  with r have "chain n p (x # zs @ ys @ [x])" by (simp add: ring_to_front ring_Cons)
  then show ?thesis by (cases "zs @ ys") (auto simp: xs Cons_eq_append_conv append_eq_Cons_conv)
qed

lemma ring_prev_in: "ring n p xs \<Longrightarrow> x \<in> set xs \<Longrightarrow> p x \<in> set xs"
proof -
  assume r: "ring n p xs" and "x \<in> set xs"
  then obtain ys zs where xs: "xs = ys @ x # zs" by (auto simp: in_set_conv_decomp)
  with r have c: "chain n p ((x # zs @ ys) @ [x])" by (simp add: ring_to_front ring_Cons)
  obtain us u where us: "x # zs @ ys = us @ [u]" by (metis list.distinct(1) rev_exhaust)
  with c have "chain n p (us @ [u, x])" by simp
  then have "p x = u" by (simp add: chain_snoc)
  moreover have "u \<in> set (x # zs @ ys)" using us by simp
  ultimately show ?thesis by (auto simp: xs)
qed

lemma ring_next_hd: "ring n p (x # y # ys) \<Longrightarrow> n x = y \<and> p y = x"
  by (simp add: ring_Cons)

lemma ring_prev_hd: "ring n p (x # xs) \<Longrightarrow> p x = last (x # xs) \<and> n (last (x # xs)) = x"
proof -
  assume r: "ring n p (x # xs)"
  have "butlast (x # xs) @ [last (x # xs)] = x # xs"
    by (rule append_butlast_last_id) simp
  then have "(butlast (x # xs) @ [last (x # xs)]) @ [x] = x # xs @ [x]" by (simp only: append_Cons)
  then have "x # xs @ [x] = butlast (x # xs) @ [last (x # xs), x]" by simp
  with r have "chain n p (butlast (x # xs) @ [last (x # xs), x])" by (simp only: ring_Cons)
  then show ?thesis by (simp only: chain_snoc)
qed

lemma ring_cong:
  assumes "\<And>x. x \<in> set xs \<Longrightarrow> n' x = n x" "\<And>x. x \<in> set xs \<Longrightarrow> p' x = p x"
  shows "ring n' p' xs = ring n p xs"
proof (cases xs)
  case (Cons y ys)
  have "chain n' p' (xs @ [y]) = chain n p (xs @ [y])"
    by (rule chain_cong) (use assms Cons in \<open>auto dest: in_set_butlastD\<close>)
  then show ?thesis by (simp add: ring_Cons Cons)
qed simp

section \<open>The interface and the two updates\<close>

locale link_store =
  fixes nxt :: "'s \<Rightarrow> 'a \<Rightarrow> 'a" and prv :: "'s \<Rightarrow> 'a \<Rightarrow> 'a"
    and set_nxt :: "'s \<Rightarrow> 'a \<Rightarrow> 'a \<Rightarrow> 's" and set_prv :: "'s \<Rightarrow> 'a \<Rightarrow> 'a \<Rightarrow> 's"
    and apart :: "'a \<Rightarrow> 'a \<Rightarrow> bool"
  assumes nxt_set_nxt: "nxt (set_nxt s a v) a = v"
    and nxt_set_nxt_apart: "apart a b \<Longrightarrow> nxt (set_nxt s a v) b = nxt s b"
    and nxt_set_prv: "nxt (set_prv s a v) a = nxt s a"
    and nxt_set_prv_apart: "apart a b \<Longrightarrow> nxt (set_prv s a v) b = nxt s b"
    and prv_set_prv: "prv (set_prv s a v) a = v"
    and prv_set_prv_apart: "apart a b \<Longrightarrow> prv (set_prv s a v) b = prv s b"
    and prv_set_nxt: "prv (set_nxt s a v) a = prv s a"
    and prv_set_nxt_apart: "apart a b \<Longrightarrow> prv (set_nxt s a v) b = prv s b"
begin

lemma nxt_set_nxt_in:
  "\<forall>x\<in>S. \<forall>y\<in>S. x \<noteq> y \<longrightarrow> apart x y \<Longrightarrow> a \<in> S \<Longrightarrow> b \<in> S \<Longrightarrow>
   nxt (set_nxt s a v) b = (if b = a then v else nxt s b)"
  by (auto simp: nxt_set_nxt nxt_set_nxt_apart)

lemma nxt_set_prv_in:
  "\<forall>x\<in>S. \<forall>y\<in>S. x \<noteq> y \<longrightarrow> apart x y \<Longrightarrow> a \<in> S \<Longrightarrow> b \<in> S \<Longrightarrow>
   nxt (set_prv s a v) b = nxt s b"
  by (cases "a = b") (auto simp: nxt_set_prv nxt_set_prv_apart)

lemma prv_set_prv_in:
  "\<forall>x\<in>S. \<forall>y\<in>S. x \<noteq> y \<longrightarrow> apart x y \<Longrightarrow> a \<in> S \<Longrightarrow> b \<in> S \<Longrightarrow>
   prv (set_prv s a v) b = (if b = a then v else prv s b)"
  by (auto simp: prv_set_prv prv_set_prv_apart)

lemma prv_set_nxt_in:
  "\<forall>x\<in>S. \<forall>y\<in>S. x \<noteq> y \<longrightarrow> apart x y \<Longrightarrow> a \<in> S \<Longrightarrow> b \<in> S \<Longrightarrow>
   prv (set_nxt s a v) b = prv s b"
  by (cases "a = b") (auto simp: prv_set_nxt prv_set_nxt_apart)

lemmas links_in = nxt_set_nxt_in nxt_set_prv_in prv_set_prv_in prv_set_nxt_in

lemma unlink_ring:
  assumes r: "ring (nxt s) (prv s) (x # xs)" and d: "distinct (x # xs)" and ne: "xs \<noteq> []"
    and sep: "\<forall>a\<in>set (x # xs). \<forall>b\<in>set (x # xs). a \<noteq> b \<longrightarrow> apart a b"
  shows "ring (nxt (set_prv (set_nxt s (prv s x) (nxt s x)) (nxt s x) (prv s x)))
           (prv (set_prv (set_nxt s (prv s x) (nxt s x)) (nxt s x) (prv s x))) xs"
    (is "ring ?n ?p xs")
proof -
  obtain y ys where xs: "xs = y # ys" using ne by (cases xs) auto
  define l where "l = last xs"
  have nx: "nxt s x = y" using ring_next_hd [OF r [unfolded xs]] by simp
  have px: "prv s x = l" using ring_prev_hd [OF r] ne by (simp add: l_def)
  define S where "S = set (x # xs)"
  have mem: "y \<in> S" "l \<in> S" using xs l_def by (auto simp: S_def)
  have sub: "b \<in> S" if "b \<in> set xs" for b using that by (simp add: S_def)
  note upd = links_in [OF sep [folded S_def]]
  have n: "?n b = (if b = l then y else nxt s b)" if "b \<in> set xs" for b
    using mem sub [OF that] by (simp add: nx px upd)
  have p: "?p b = (if b = y then l else prv s b)" if "b \<in> set xs" for b
    using mem sub [OF that] by (simp add: nx px upd)
  have c: "chain (nxt s) (prv s) xs"
    using r by (auto simp: ring_Cons dest: chain_ConsD chain_snocD)
  have bl: "butlast xs @ [l] = xs" using ne by (simp add: l_def)
  have "chain ?n ?p xs = chain (nxt s) (prv s) xs"
    using d by (intro chain_cong_ends) (simp_all add: n p xs l_def)
  with c have "chain ?n ?p (butlast xs @ [l])" using bl by simp
  moreover have "?n l = y" "?p y = l" using n [of l] p [of y] by (auto simp: xs l_def)
  ultimately have "chain ?n ?p (butlast xs @ [l, y])" by (simp add: chain_snoc)
  moreover have "butlast xs @ [l, y] = xs @ [y]" using arg_cong [OF bl, of "\<lambda>zs. zs @ [y]"] by simp
  ultimately have "chain ?n ?p (xs @ [y])" by (simp only:)
  then show ?thesis by (simp add: ring_Cons xs)
qed

lemma link_ring:
  assumes r: "ring (nxt s) (prv s) (f # fs)" and d: "distinct (x # f # fs)"
    and sep: "\<forall>a\<in>set (x # f # fs). \<forall>b\<in>set (x # f # fs). a \<noteq> b \<longrightarrow> apart a b"
  defines "l \<equiv> prv s f"
  defines "t \<equiv> set_prv (set_nxt (set_prv (set_nxt s x f) x l) l x) f x"
  shows "ring (nxt t) (prv t) (x # f # fs)"
proof -
  let ?xs = "f # fs"
  have l: "l = last ?xs" using ring_prev_hd [OF r] by (simp add: l_def)
  then have l_in: "l \<in> set ?xs" by simp
  define S where "S = set (x # ?xs)"
  have mem: "f \<in> S" "l \<in> S" "x \<in> S" using l_in by (auto simp: S_def)
  have sub: "b \<in> S" if "b \<in> set ?xs" for b using that by (auto simp: S_def)
  note upd = links_in [OF sep [folded S_def]]
  have n: "nxt t b = (if b = l then x else if b = x then f else nxt s b)" if "b \<in> S" for b
    using that mem by (simp add: t_def upd)
  have p: "prv t b = (if b = f then x else if b = x then l else prv s b)" if "b \<in> S" for b
    using that mem by (simp add: t_def upd)
  have bl: "butlast ?xs @ [l] = ?xs" unfolding l by (rule append_butlast_last_id) simp
  have "chain (nxt t) (prv t) ?xs = chain (nxt s) (prv s) ?xs"
  proof (rule chain_cong_ends)
    show "distinct ?xs" using d by simp
    show "nxt t b = nxt s b" if "b \<in> set ?xs" "b \<noteq> last ?xs" for b
      using that d l n [OF sub [OF that(1)]] by auto
    show "prv t b = prv s b" if "b \<in> set ?xs" "b \<noteq> hd ?xs" for b
      using that d p [OF sub [OF that(1)]] by auto
  qed
  moreover have "chain (nxt s) (prv s) ?xs"
    using r by (auto simp: ring_Cons dest: chain_snocD [of _ _ "f # fs" f, simplified])
  ultimately have "chain (nxt t) (prv t) (butlast ?xs @ [l])" using bl by simp
  moreover have "nxt t l = x" "prv t x = l" "nxt t x = f" "prv t f = x"
    using n [of l] p [of x] n [of x] p [of f] mem d l_in by auto
  ultimately have "chain (nxt t) (prv t) (butlast ?xs @ [l, x])" by (simp add: chain_snoc)
  moreover have "butlast ?xs @ [l, x] = ?xs @ [x]"
    using arg_cong [OF bl, of "\<lambda>zs. zs @ [x]"] by simp
  ultimately have "chain (nxt t) (prv t) (?xs @ [x])" by (simp only:)
  with \<open>nxt t x = f\<close> \<open>prv t f = x\<close> show ?thesis by (simp add: ring_Cons)
qed

lemma link_alone:
  "ring (nxt (set_prv (set_nxt s x x) x x)) (prv (set_prv (set_nxt s x x) x x)) [x]"
  by (simp add: ring_Cons nxt_set_prv nxt_set_nxt prv_set_prv)

end

end
