(* ===== verification/MmInv.thy ===== *)
theory MmInv
  imports MmDefs DList
begin

text \<open>
  The heap invariant of the allocator and the lemmas about it: how the words of memory tile
  into blocks (\<open>tiles\<close>), how the free list runs through the free ones (\<open>free_ring\<close>), and what the
  primitives of \<open>mminline.h\<close> do to both.
\<close>

section \<open>The free list as a ring\<close>

definition free_nxt :: "(nat \<Rightarrow> nat) \<Rightarrow> nat \<Rightarrow> nat" where "free_nxt c b = c (b + 8)"
definition free_prv :: "(nat \<Rightarrow> nat) \<Rightarrow> nat \<Rightarrow> nat" where "free_prv c b = c (b + 16)"
definition set_free_nxt :: "(nat \<Rightarrow> nat) \<Rightarrow> nat \<Rightarrow> nat \<Rightarrow> nat \<Rightarrow> nat" where
  "set_free_nxt c b v = c(b + 8 := v)"
definition set_free_prv :: "(nat \<Rightarrow> nat) \<Rightarrow> nat \<Rightarrow> nat \<Rightarrow> nat \<Rightarrow> nat" where
  "set_free_prv c b v = c(b + 16 := v)"
definition blocks_apart :: "nat \<Rightarrow> nat \<Rightarrow> bool" where
  "blocks_apart a b \<longleftrightarrow> a + 32 \<le> b \<or> b + 32 \<le> a"

interpretation free_links: link_store free_nxt free_prv set_free_nxt set_free_prv blocks_apart
  by unfold_locales
    (auto simp: free_nxt_def free_prv_def set_free_nxt_def set_free_prv_def blocks_apart_def)

lemmas free_link_defs = free_nxt_def free_prv_def set_free_nxt_def set_free_prv_def

section \<open>Tiling\<close>

fun tiles :: "(nat \<Rightarrow> nat) \<Rightarrow> nat \<Rightarrow> (nat \<times> bool) list \<Rightarrow> nat \<Rightarrow> bool" where
  "tiles c a [] e = (a = e)"
| "tiles c a ((sz, al) # bs) e =
     (c a = sz + of_bool al \<and> c (a + sz - 8) = sz + of_bool al \<and> 8 dvd sz \<and> 32 \<le> sz
      \<and> tiles c (a + sz) bs e)"

fun blocks :: "nat \<Rightarrow> (nat \<times> bool) list \<Rightarrow> (nat \<times> nat \<times> bool) list" where
  "blocks a [] = []"
| "blocks a ((sz, al) # bs) = (a, sz, al) # blocks (a + sz) bs"

definition width :: "(nat \<times> bool) list \<Rightarrow> nat" where
  "width bs = sum_list (map fst bs)"

definition free_blocks :: "nat \<Rightarrow> (nat \<times> bool) list \<Rightarrow> nat set" where
  "free_blocks a bs = {b. \<exists>sz. (b, sz, False) \<in> set (blocks a bs)}"

definition used_blocks :: "nat \<Rightarrow> (nat \<times> bool) list \<Rightarrow> (nat \<times> nat) set" where
  "used_blocks a bs = {(b, sz). (b, sz, True) \<in> set (blocks a bs)}"

definition no_adjacent_free :: "(nat \<times> bool) list \<Rightarrow> bool" where
  "no_adjacent_free bs \<longleftrightarrow> successively (\<lambda>x y. snd x \<or> snd y) bs"

lemma width_simps [simp]:
  "width [] = 0" "width (x # xs) = fst x + width xs" "width (xs @ ys) = width xs + width ys"
  by (simp_all add: width_def)

lemma blocks_append [simp]: "blocks a (xs @ ys) = blocks a xs @ blocks (a + width xs) ys"
  by (induction a xs rule: blocks.induct) (auto simp: add.assoc)

lemma free_blocks_simps [simp]:
  "free_blocks a [] = {}"
  "free_blocks a ((sz, al) # bs) = (if al then {} else {a}) \<union> free_blocks (a + sz) bs"
  "free_blocks a (xs @ ys) = free_blocks a xs \<union> free_blocks (a + width xs) ys"
  by (auto simp: free_blocks_def)

lemma used_blocks_simps [simp]:
  "used_blocks a [] = {}"
  "used_blocks a ((sz, al) # bs) = (if al then {(a, sz)} else {}) \<union> used_blocks (a + sz) bs"
  "used_blocks a (xs @ ys) = used_blocks a xs \<union> used_blocks (a + width xs) ys"
  by (auto simp: used_blocks_def)

lemma tiles_end: "tiles c a bs e \<Longrightarrow> e = a + width bs"
  by (induction c a bs e rule: tiles.induct) auto

lemma tiles_append:
  "tiles c a (xs @ ys) e = (tiles c a xs (a + width xs) \<and> tiles c (a + width xs) ys e)"
  by (induction c a xs e rule: tiles.induct) (auto simp: add.assoc)

lemma tiles_width: "tiles c a bs e \<Longrightarrow> 8 dvd width bs"
  by (induction c a bs e rule: tiles.induct) auto

lemma tiles_cong_range:
  "tiles c a bs e \<Longrightarrow> (\<And>x. a \<le> x \<Longrightarrow> x < e \<Longrightarrow> c' x = c x) \<Longrightarrow> tiles c' a bs e"
proof (induction c a bs e rule: tiles.induct)
  case (2 c a sz al bs e)
  then have "e = a + sz + width bs" by (auto dest: tiles_end)
  then show ?case using 2 by auto
qed auto

lemma block_split:
  "(b, sz, al) \<in> set (blocks a bs) \<Longrightarrow> \<exists>xs ys. bs = xs @ (sz, al) # ys \<and> b = a + width xs"
proof (induction a bs rule: blocks.induct)
  case (2 a n l bs)
  show ?case
  proof (cases "(b, sz, al) = (a, n, l)")
    case True
    then show ?thesis by - (rule exI [of _ "[]"], rule exI [of _ bs], auto)
  next
    case False
    with 2 obtain xs ys where "bs = xs @ (sz, al) # ys" "b = a + n + width xs" by auto
    then show ?thesis by - (rule exI [of _ "(n, l) # xs"], rule exI [of _ ys], auto)
  qed
qed simp

lemma block_bounds:
  "tiles c a bs e \<Longrightarrow> (b, sz, al) \<in> set (blocks a bs) \<Longrightarrow>
   a \<le> b \<and> b + sz \<le> e \<and> 32 \<le> sz \<and> 8 dvd sz \<and> 8 dvd (b - a) \<and> c b = sz + of_bool al"
proof -
  assume t: "tiles c a bs e" and "(b, sz, al) \<in> set (blocks a bs)"
  then obtain xs ys where *: "bs = xs @ (sz, al) # ys" "b = a + width xs"
    using block_split by blast
  with t have "tiles c a xs b" "tiles c b ((sz, al) # ys) e" by (auto simp: tiles_append)
  then show ?thesis using *(2) by (auto dest: tiles_end tiles_width)
qed

lemma blocks_disjoint:
  assumes "tiles c a bs e" "(b, sz, al) \<in> set (blocks a bs)" "(b', sz', al') \<in> set (blocks a bs)"
    and "b \<noteq> b'"
  shows "b + sz \<le> b' \<or> b' + sz' \<le> b"
  using assms
proof (induction c a bs e rule: tiles.induct)
  case (2 c a n l bs e)
  then show ?case by (auto dest: block_bounds)
qed simp

lemma block_unique:
  assumes "tiles c a bs e" "(b, sz, al) \<in> set (blocks a bs)" "(b, sz', al') \<in> set (blocks a bs)"
  shows "sz' = sz \<and> al' = al"
  using assms
proof (induction c a bs e rule: tiles.induct)
  case (2 c a n l bs e)
  then show ?case by (auto dest: block_bounds)
qed simp

text \<open>Writing a word inside a block, away from its tags, does not disturb the tiling.\<close>

lemma tiles_upd_inside:
  assumes "tiles c a bs e" "(b, sz, al) \<in> set (blocks a bs)" "b < x" "x + 8 < b + sz"
  shows "tiles (c(x := v)) a bs e"
proof -
  obtain xs ys where *: "bs = xs @ (sz, al) # ys" "b = a + width xs"
    using assms(2) block_split by blast
  then have t: "tiles c a xs b" "tiles c b ((sz, al) # ys) e"
    using assms(1) by (auto simp: tiles_append)
  have "tiles (c(x := v)) a xs b" using t(1) assms by (auto intro: tiles_cong_range)
  moreover have "tiles (c(x := v)) (b + sz) ys e"
    using t(2) assms by (auto intro: tiles_cong_range)
  ultimately show ?thesis using t(2) assms * by (auto simp: tiles_append)
qed

lemma free_apart:
  assumes "tiles c a bs e" "x \<in> free_blocks a bs" "y \<in> free_blocks a bs" "x \<noteq> y"
  shows "blocks_apart x y"
  using assms blocks_disjoint [OF assms(1), of x _ False y _ False]
  by (fastforce simp: free_blocks_def blocks_apart_def dest: block_bounds)

section \<open>The layout of the heap\<close>

abbreviation heap_base :: "mm \<Rightarrow> nat" where "heap_base s \<equiv> mem_start_brk s + 8"

definition layout :: "mm \<Rightarrow> (nat \<times> bool) list \<Rightarrow> bool" where
  "layout s bs \<longleftrightarrow>
     0 < mem_start_brk s \<and> 8 dvd mem_start_brk s \<and>
     mem_max_addr s = mem_start_brk s + MAX_HEAP \<and>
     mem_brk s \<le> mem_max_addr s \<and> 16 \<le> mem_brk s \<and>
     cells s (mem_start_brk s) = 9 \<and> cells s (mem_brk s - 8) = 9 \<and>
     tiles (cells s) (heap_base s) bs (mem_brk s - 8)"

definition free_ring :: "mm \<Rightarrow> nat list \<Rightarrow> bool" where
  "free_ring s fl \<longleftrightarrow>
     distinct fl \<and> ring (free_nxt (cells s)) (free_prv (cells s)) fl \<and>
     flist_first s = (if fl = [] then 0 else hd fl)"

definition heap_ok :: "mm \<Rightarrow> (nat \<times> bool) list \<Rightarrow> nat list \<Rightarrow> bool" where
  "heap_ok s bs fl \<longleftrightarrow>
     layout s bs \<and> free_ring s fl \<and> set fl = free_blocks (heap_base s) bs \<and> no_adjacent_free bs"

lemma layout_brk: "layout s bs \<Longrightarrow> mem_brk s = heap_base s + width bs + 8"
  by (auto simp: layout_def dest!: tiles_end)

lemma layout_region:
  assumes "layout s bs" "heap_base s \<le> b + 8" "b + 8 \<le> mem_brk s" "8 dvd b"
  shows "in_region s b"
  using assms by (auto simp: in_region_def layout_def)

lemma layout_dvd: "layout s bs \<Longrightarrow> 8 dvd heap_base s"
  by (auto simp: layout_def)

lemma layout_block:
  assumes l: "layout s bs" and b: "(b, sz, al) \<in> set (blocks (heap_base s) bs)"
  shows "heap_base s \<le> b" "b + sz + 8 \<le> mem_brk s" "32 \<le> sz" "8 dvd sz" "8 dvd b"
    "cells s b = sz + of_bool al" "sz \<le> MAX_HEAP"
proof -
  have t: "tiles (cells s) (heap_base s) bs (mem_brk s - 8)" using l by (simp add: layout_def)
  note bb = block_bounds [OF t b]
  show "heap_base s \<le> b" "32 \<le> sz" "8 dvd sz" "cells s b = sz + of_bool al" using bb by auto
  show "b + sz + 8 \<le> mem_brk s" using bb l by (auto simp: layout_def)
  then show "sz \<le> MAX_HEAP" using bb l by (auto simp: layout_def)
  have "8 dvd heap_base s + (b - heap_base s)" using bb l layout_dvd by (intro dvd_add) auto
  then show "8 dvd b" using bb by simp
qed

section \<open>The primitives on a region\<close>

lemma ld_region [simp]: "in_region s a \<Longrightarrow> ld s a = Some (cells s a)"
  by (simp add: ld_def)

lemma st_region [simp]: "in_region s a \<Longrightarrow> st s a v = Some (s\<lparr>cells := (cells s)(a := v)\<rparr>)"
  by (simp add: st_def)

lemma in_region_upd [simp]:
  "in_region (s\<lparr>cells := c\<rparr>) = in_region s" "in_region (s\<lparr>flist_first := f\<rparr>) = in_region s"
  "in_region (s\<lparr>mem_brk := k\<rparr>) = in_region s"
  by (auto simp: in_region_def fun_eq_iff)

lemma flag_simps [simp]:
  "clear0 (n + of_bool al) = n" "clear0 n = n" "clear0 (Suc n) = n" "set0 (n + of_bool al) = Suc n"
  "set0 n = Suc n" "set0 (Suc n) = Suc n" "bit0 (n + of_bool al) = of_bool al" "bit0 n = 0" "bit0 (Suc n) = 1"
  if "8 dvd n" for n :: nat
  using that by (auto simp: clear0_def set0_def bit0_def elim!: dvdE) presburger+

lemma bit0_cases: "bit0 v = 0 \<or> bit0 v = 1"
  by (auto simp: bit0_def)

lemma end_tag_index:
  fixes n :: nat
  assumes "8 dvd n" "16 \<le> n" "f < 8"
  shows "b + 8 + 8 * ((n + f) div 8 - 2) = b + n - 8"
proof -
  obtain k where k: "n = 8 * k" using assms(1) by blast
  then have "(n + f) div 8 = k" using assms(3) by simp
  then show ?thesis using assms(2) k by simp
qed

lemma set_size_and_allocated:
  assumes "in_region s b" "in_region s (b + n - 8)" "8 dvd n" "16 \<le> n" "al = 0 \<or> al = 1"
  shows "block_set_size_and_allocated s b n al =
    Some (s\<lparr>cells := (cells s)(b := n + al, b + n - 8 := n + al)\<rparr>)"
proof -
  have ne: "b \<noteq> b + n - 8" using assms by simp
  have m: "n mod 8 = 0" using assms by auto
  obtain f where f: "f = bit0 (cells s b)" "f = 0 \<or> f = 1" using bit0_cases by blast
  have tag: "b + 8 + 8 * ((n + f) div 8 - 2) = b + n - 8" "b + 8 + 8 * ((n + al) div 8 - 2) = b + n - 8"
    using assms f by (auto intro: end_tag_index)
  have fl: "clear0 (n + f) = n" "set0 (n + f) = n + 1" using f(2) assms(3) by auto
  show ?thesis
    using assms ne m f tag fl
    by (auto simp: block_set_size_and_allocated_def block_set_size_def block_set_allocated_def
        block_allocated_def block_end_tag_def WORD_SIZE_def Let_def fun_upd_def fun_eq_iff)
qed

end
