(* ===== verification/MmList.thy ===== *)
theory MmList
  imports MmInv
begin

text \<open>
  The free-list operations of \<open>mminline.h\<close> on a heap that satisfies the layout: each succeeds,
  keeps the layout, and acts on the ring as removal of an element and insertion at its head.
\<close>

lemma layout_free:
  assumes "layout s bs" "b \<in> free_blocks (heap_base s) bs"
  shows "in_region s b" "in_region s (b + 8)" "in_region s (b + 16)"
    "\<exists>sz. 8 dvd sz \<and> 32 \<le> sz \<and> cells s b = sz \<and> (b, sz, False) \<in> set (blocks (heap_base s) bs)"
proof -
  obtain sz where b: "(b, sz, False) \<in> set (blocks (heap_base s) bs)"
    using assms(2) by (auto simp: free_blocks_def)
  note lb = layout_block [OF assms(1) b]
  show "in_region s b" "in_region s (b + 8)" "in_region s (b + 16)"
    using lb by (auto intro!: layout_region [OF assms(1)] dvd_add)
  show "\<exists>sz. 8 dvd sz \<and> 32 \<le> sz \<and> cells s b = sz \<and> (b, sz, False) \<in> set (blocks (heap_base s) bs)"
    using lb b by auto
qed

lemma free_reads:
  assumes "layout s bs" "b \<in> free_blocks (heap_base s) bs"
  shows "assert_free s b = Some ()" "block_next_free s b = Some (free_nxt (cells s) b)"
    "block_prev_free s b = Some (free_prv (cells s) b)" "block_allocated s b = Some 0"
  using layout_free [OF assms]
  by (auto simp: assert_free_def block_next_free_def block_prev_free_def block_allocated_def
      free_link_defs)

lemma layout_links:
  assumes l: "layout s bs" and b: "b \<in> free_blocks (heap_base s) bs"
  shows "layout (s\<lparr>cells := set_free_nxt (cells s) b v\<rparr>) bs"
    "layout (s\<lparr>cells := set_free_prv (cells s) b v\<rparr>) bs"
proof -
  obtain sz where s: "(b, sz, False) \<in> set (blocks (heap_base s) bs)"
    using b by (auto simp: free_blocks_def)
  note lb = layout_block [OF l s]
  have "tiles (cells s) (heap_base s) bs (mem_brk s - 8)" using l by (simp add: layout_def)
  from tiles_upd_inside [OF this s] lb
  show "layout (s\<lparr>cells := set_free_nxt (cells s) b v\<rparr>) bs"
    "layout (s\<lparr>cells := set_free_prv (cells s) b v\<rparr>) bs"
    using l by (auto simp: layout_def free_link_defs)
qed

lemma layout_flist [simp]: "layout (s\<lparr>flist_first := f\<rparr>) bs = layout s bs"
  by (simp add: layout_def)

lemma set_links:
  assumes "layout s bs" "b \<in> free_blocks (heap_base s) bs" "v \<in> free_blocks (heap_base s) bs"
  shows "block_set_next_free s b v = Some (s\<lparr>cells := set_free_nxt (cells s) b v\<rparr>)"
    "block_set_prev_free s b v = Some (s\<lparr>cells := set_free_prv (cells s) b v\<rparr>)"
  using layout_free [OF assms(1,2)] free_reads [OF assms(1,2)] free_reads [OF assms(1,3)]
  by (auto simp: block_set_next_free_def block_set_prev_free_def free_link_defs)

lemma layout_free_apart:
  assumes "layout s bs" "set fl \<subseteq> free_blocks (heap_base s) bs"
  shows "\<forall>a\<in>set fl. \<forall>b\<in>set fl. a \<noteq> b \<longrightarrow> blocks_apart a b"
  using assms by (auto simp: layout_def intro!: free_apart)

lemma apart_links:
  "blocks_apart a b \<Longrightarrow> free_nxt (set_free_nxt c a v) b = free_nxt c b"
  "blocks_apart a b \<Longrightarrow> free_prv (set_free_nxt c a v) b = free_prv c b"
  by (rule free_links.nxt_set_nxt_apart free_links.prv_set_nxt_apart, assumption)+

text \<open>The words a free-list operation may write: the links of the blocks in the list.\<close>

definition link_words :: "nat list \<Rightarrow> nat set" where
  "link_words fl = {a. \<exists>b\<in>set fl. a = b + 8 \<or> a = b + 16}"

lemma pull_unlink_ok:
  assumes l: "layout s bs" and sub: "set (x # xs) \<subseteq> free_blocks (heap_base s) bs"
    and r: "ring (free_nxt (cells s)) (free_prv (cells s)) (x # xs)"
    and d: "distinct (x # xs)" and ne: "xs \<noteq> []"
  obtains c where "pull_unlink s x = Some (s\<lparr>cells := c\<rparr>)" "layout (s\<lparr>cells := c\<rparr>) bs"
    "ring (free_nxt c) (free_prv c) xs" "\<And>a. a \<notin> link_words (x # xs) \<Longrightarrow> c a = cells s a"
proof -
  define n where "n = free_nxt (cells s) x"
  define p where "p = free_prv (cells s) x"
  define c1 where "c1 = set_free_nxt (cells s) p n"
  define c where "c = set_free_prv c1 n p"
  let ?F = "free_blocks (heap_base s) bs"
  have px: "p = last xs" using ring_prev_hd [OF r] ne by (simp add: p_def)
  then have pin: "p \<in> set xs" using ne by simp
  obtain y ys where xs: "xs = y # ys" using ne by (cases xs) auto
  have nin: "n \<in> set xs" using ring_next_hd [OF r [unfolded xs]] by (simp add: n_def xs)
  have F: "x \<in> ?F" "p \<in> ?F" "n \<in> ?F" using sub pin nin by auto
  have ap: "blocks_apart p x"
    using layout_free_apart [OF l sub] pin d by (auto simp: Ball_def)
  have l1: "layout (s\<lparr>cells := c1\<rparr>) bs" using layout_links [OF l F(2)] by (simp add: c1_def)
  have l2: "layout (s\<lparr>cells := c\<rparr>) bs"
    using layout_links(2) [OF l1, of n p] F by (simp add: c_def)
  have same: "free_nxt c1 x = n" "free_prv c1 x = p"
    using apart_links [OF ap] by (simp_all add: c1_def n_def p_def)
  have "pull_unlink s x = Some (s\<lparr>cells := c\<rparr>)"
    using free_reads [OF l F(1)] set_links [OF l F(2,3)] F
      free_reads [OF l1, of x] set_links [OF l1, of n p]
    by (simp add: pull_unlink_def n_def [symmetric] p_def [symmetric] c1_def [symmetric] same
        c_def [symmetric])
  moreover have "ring (free_nxt c) (free_prv c) xs"
    unfolding c_def c1_def n_def p_def
    by (rule free_links.unlink_ring [OF r d ne layout_free_apart [OF l sub]])
  moreover have "c a = cells s a" if "a \<notin> link_words (x # xs)" for a
    using that pin nin by (auto simp: c_def c1_def set_free_nxt_def set_free_prv_def link_words_def)
  ultimately show thesis using l2 that by blast
qed

lemma pull_free_block_ok:
  assumes l: "layout s bs" and sub: "set fl \<subseteq> free_blocks (heap_base s) bs"
    and fr: "free_ring s fl" and x: "x \<in> set fl"
  obtains c f where "pull_free_block s x = Some (s\<lparr>cells := c, flist_first := f\<rparr>)"
    "layout (s\<lparr>cells := c, flist_first := f\<rparr>) bs"
    "free_ring (s\<lparr>cells := c, flist_first := f\<rparr>) (remove1 x fl)"
    "\<And>a. a \<notin> link_words fl \<Longrightarrow> c a = cells s a"
proof -
  obtain as zs where fl: "fl = as @ x # zs" "x \<notin> set as" using x split_list_first by metis
  let ?r = "ring (free_nxt (cells s)) (free_prv (cells s))"
  have d: "distinct fl" and r: "?r fl" and ff: "flist_first s = hd fl"
    using fr x by (auto simp: free_ring_def)
  have rot: "?r (x # zs @ as)" using r by (simp add: fl ring_to_front)
  have rem: "remove1 x fl = as @ zs" using fl by (simp add: remove1_append)
  have words: "link_words (x # zs @ as) = link_words fl" by (auto simp: link_words_def fl)
  have sub': "set (x # zs @ as) \<subseteq> free_blocks (heap_base s) bs" using sub by (auto simp: fl)
  have d': "distinct (x # zs @ as)" using d by (auto simp: fl)
  have af: "assert_free s x = Some ()" "block_next_free s x = Some (free_nxt (cells s) x)"
    using free_reads [OF l, of x] sub x by auto
  show thesis
  proof (cases "zs @ as = []")
    case True
    then have "free_nxt (cells s) x = x" using rot by (simp add: ring_Cons)
    then have "pull_free_block s x = Some (s\<lparr>cells := cells s, flist_first := 0\<rparr>)"
      using af ff True fl by (simp add: pull_free_block_def)
    moreover have "free_ring (s\<lparr>cells := cells s, flist_first := 0\<rparr>) (remove1 x fl)"
      using True by (simp add: free_ring_def rem)
    ultimately show thesis using that [of 0 "cells s"] l by simp
  next
    case False
    define f where "f = (if as = [] then hd zs else flist_first s)"
    have l': "layout (s\<lparr>flist_first := f\<rparr>) bs" using l by simp
    obtain c where c: "pull_unlink (s\<lparr>flist_first := f\<rparr>) x = Some (s\<lparr>flist_first := f, cells := c\<rparr>)"
        "layout (s\<lparr>flist_first := f, cells := c\<rparr>) bs" "ring (free_nxt c) (free_prv c) (zs @ as)"
        "\<And>a. a \<notin> link_words fl \<Longrightarrow> c a = cells s a"
      using pull_unlink_ok [OF l', of x "zs @ as"] sub' rot d' False words by auto
    have eq: "s\<lparr>cells := c, flist_first := f\<rparr> = s\<lparr>flist_first := f, cells := c\<rparr>" by simp
    have nx: "free_nxt (cells s) x = hd (zs @ as)" using rot False by (cases "zs @ as") (auto simp: ring_Cons)
    have "pull_free_block s x = Some (s\<lparr>cells := c, flist_first := f\<rparr>)"
    proof (cases as)
      case Nil
      then have "flist_first s = x" "zs \<noteq> []" "hd zs \<noteq> x" "free_nxt (cells s) x = f"
        using ff fl False d' nx by (cases zs; auto simp: f_def)+
      then show ?thesis using af c(1) Nil eq by (simp add: pull_free_block_def f_def)
    next
      case (Cons a as')
      then have "flist_first s \<noteq> x" "s\<lparr>flist_first := f\<rparr> = s" using ff fl by (auto simp: f_def)
      then show ?thesis using af c(1) eq by (simp add: pull_free_block_def)
    qed
    moreover have "free_ring (s\<lparr>cells := c, flist_first := f\<rparr>) (remove1 x fl)"
    proof -
      have "flist_first s = hd as" if "as \<noteq> []" using that ff fl by simp
      then show ?thesis
        using c(3) d' False
        unfolding rem by (auto simp: free_ring_def f_def ring_append_commute [of _ _ as])
    qed
    ultimately show thesis using that c eq by metis
  qed
qed

lemma insert_free_block_ok:
  assumes l: "layout s bs" and sub: "set (x # fl) \<subseteq> free_blocks (heap_base s) bs"
    and fr: "free_ring s fl" and x: "x \<notin> set fl"
  obtains c where "insert_free_block s x = Some (s\<lparr>cells := c, flist_first := x\<rparr>)"
    "layout (s\<lparr>cells := c, flist_first := x\<rparr>) bs"
    "free_ring (s\<lparr>cells := c, flist_first := x\<rparr>) (x # fl)"
    "\<And>a. a \<notin> link_words (x # fl) \<Longrightarrow> c a = cells s a"
proof (cases fl)
  case Nil
  define c1 where "c1 = set_free_nxt (cells s) x x"
  define c where "c = set_free_prv c1 x x"
  have F: "x \<in> free_blocks (heap_base s) bs" using sub by simp
  have l1: "layout (s\<lparr>cells := c1\<rparr>) bs" using layout_links [OF l F] by (simp add: c1_def)
  have l2: "layout (s\<lparr>cells := c\<rparr>) bs" using layout_links(2) [OF l1, of x x] F by (simp add: c_def)
  have "flist_first s = 0" using fr Nil by (simp add: free_ring_def)
  then have "insert_free_block s x = Some (s\<lparr>cells := c, flist_first := x\<rparr>)"
    using free_reads [OF l F] set_links [OF l F F] set_links [OF l1, of x x] F
    by (simp add: insert_free_block_def c_def c1_def)
  moreover have "free_ring (s\<lparr>cells := c, flist_first := x\<rparr>) (x # fl)"
    using free_links.link_alone [of "cells s" x] by (simp add: free_ring_def Nil c_def c1_def)
  moreover have "c a = cells s a" if "a \<notin> link_words (x # fl)" for a
    using that by (auto simp: c_def c1_def set_free_nxt_def set_free_prv_def link_words_def)
  ultimately show thesis using that l2 by simp
next
  case (Cons f fs)
  let ?F = "free_blocks (heap_base s) bs"
  define p where "p = free_prv (cells s) f"
  define c1 where "c1 = set_free_nxt (cells s) x f"
  define c2 where "c2 = set_free_prv c1 x p"
  define c3 where "c3 = set_free_nxt c2 p x"
  define c where "c = set_free_prv c3 f x"
  have r: "ring (free_nxt (cells s)) (free_prv (cells s)) (f # fs)" and d: "distinct (x # f # fs)"
    and ff: "flist_first s = f"
    using fr x by (auto simp: free_ring_def Cons)
  have pin: "p \<in> set fl" using ring_prev_in [OF r, of f] by (simp add: p_def Cons)
  have F: "x \<in> ?F" "f \<in> ?F" "p \<in> ?F" using sub pin by (auto simp: Cons)
  have l1: "layout (s\<lparr>cells := c1\<rparr>) bs" using layout_links [OF l F(1)] by (simp add: c1_def)
  have l2: "layout (s\<lparr>cells := c2\<rparr>) bs" using layout_links(2) [OF l1, of x p] F by (simp add: c2_def)
  have l3: "layout (s\<lparr>cells := c3\<rparr>) bs" using layout_links(1) [OF l2, of p x] F by (simp add: c3_def)
  have l4: "layout (s\<lparr>cells := c\<rparr>) bs" using layout_links(2) [OF l3, of f x] F by (simp add: c_def)
  have "f \<noteq> 0" using layout_free(4) [OF l F(2)] layout_block(1) [OF l] by fastforce
  then have "insert_free_block s x = Some (s\<lparr>cells := c, flist_first := x\<rparr>)"
    using free_reads [OF l F(1)] free_reads [OF l F(2)] set_links [OF l F(1,2)]
      set_links [OF l1, of x p] set_links [OF l2, of p x] set_links [OF l3, of f x] F
    by (simp add: insert_free_block_def ff p_def [symmetric] c1_def [symmetric] c2_def [symmetric]
        c3_def [symmetric] c_def [symmetric])
  moreover have "ring (free_nxt c) (free_prv c) (x # f # fs)"
    unfolding c_def c3_def c2_def c1_def p_def
    by (rule free_links.link_ring [OF r d]) (use layout_free_apart [OF l sub] Cons in auto)
  moreover have "c a = cells s a" if "a \<notin> link_words (x # fl)" for a
    using that pin
    by (auto simp: c_def c3_def c2_def c1_def set_free_nxt_def set_free_prv_def link_words_def Cons)
  ultimately show thesis using that l4 d by (simp add: free_ring_def Cons)
qed

end
