(* ===== verification/MmAlloc.thy ===== *)
theory MmAlloc
  imports MmList
begin

text \<open>
  \<open>mm_init\<close>, \<open>mm_malloc\<close> and \<open>mm_free\<close> keep the heap invariant, never touch the blocks in use,
  and allocate and release exactly the block they are asked to.
\<close>

section \<open>Frames\<close>

text \<open>The blocks in use hold in \<open>t\<close> what they hold in \<open>s\<close>, tags and payload.\<close>

definition used_same :: "mm \<Rightarrow> mm \<Rightarrow> (nat \<times> nat) set \<Rightarrow> bool" where
  "used_same s t U \<longleftrightarrow> (\<forall>u k x. (u, k) \<in> U \<and> u \<le> x \<and> x < u + k \<longrightarrow> cells t x = cells s x)"

lemma used_same_trans: "used_same s t U \<Longrightarrow> used_same t r U \<Longrightarrow> used_same s r U"
  by (simp add: used_same_def)

lemma layout_tiles: "layout s bs \<Longrightarrow> tiles (cells s) (heap_base s) bs (mem_brk s - 8)"
  by (simp add: layout_def)

lemma link_word_outside:
  assumes l: "layout s bs" and sub: "set fl \<subseteq> free_blocks (heap_base s) bs"
    and u: "(u, k) \<in> used_blocks (heap_base s) bs" and x: "u \<le> x" "x < u + k"
  shows "x \<notin> link_words fl"
proof
  assume "x \<in> link_words fl"
  then obtain b where b: "b \<in> set fl" "x = b + 8 \<or> x = b + 16" by (auto simp: link_words_def)
  then obtain sz where bs: "(b, sz, False) \<in> set (blocks (heap_base s) bs)"
    using sub by (auto simp: free_blocks_def)
  have us: "(u, k, True) \<in> set (blocks (heap_base s) bs)" using u by (simp add: used_blocks_def)
  note t = layout_tiles [OF l]
  have "b \<noteq> u" using block_unique [OF t bs] us by auto
  then have "b + sz \<le> u \<or> u + k \<le> b" using blocks_disjoint [OF t bs us] by simp
  moreover have "32 \<le> sz" using layout_block [OF l bs] by simp
  ultimately show False using x b by auto
qed

lemma layout_retile:
  assumes l: "layout s (xs @ zs @ ys)"
    and m: "tiles c (heap_base s + width xs) ms (heap_base s + width xs + width zs)"
    and out: "\<And>x. x < heap_base s + width xs \<or> heap_base s + width xs + width zs \<le> x \<Longrightarrow>
      c x = cells s x"
  shows "layout (s\<lparr>cells := c\<rparr>) (xs @ ms @ ys)"
proof -
  let ?b = "heap_base s + width xs"
  have t: "tiles (cells s) (heap_base s) xs ?b" "tiles (cells s) ?b zs (?b + width zs)"
      "tiles (cells s) (?b + width zs) ys (mem_brk s - 8)"
    using layout_tiles [OF l] by (auto simp: tiles_append)
  have "tiles c (heap_base s) xs ?b" using t(1) by (rule tiles_cong_range) (auto intro: out)
  moreover have "tiles c (?b + width zs) ys (mem_brk s - 8)"
    using t(3) by (rule tiles_cong_range) (auto intro: out)
  moreover have "?b + width ms = ?b + width zs" using tiles_end [OF m] by simp
  moreover have "c (mem_start_brk s) = 9" "c (mem_brk s - 8) = 9"
    using l out tiles_end [OF t(3)] by (auto simp: layout_def)
  ultimately show ?thesis using l m by (auto simp: layout_def tiles_append)
qed

lemma free_ring_frame:
  assumes "free_ring s fl" "\<And>a. a \<in> link_words fl \<Longrightarrow> c a = cells s a"
  shows "free_ring (s\<lparr>cells := c\<rparr>) fl"
proof -
  have "ring (free_nxt c) (free_prv c) fl = ring (free_nxt (cells s)) (free_prv (cells s)) fl"
    by (rule ring_cong) (use assms(2) in \<open>auto simp: free_link_defs link_words_def\<close>)
  then show ?thesis using assms(1) by (simp add: free_ring_def)
qed

text \<open>The links of free blocks lie outside every other block.\<close>

lemma link_words_apart:
  assumes l: "layout s bs" and sub: "set fl \<subseteq> free_blocks (heap_base s) bs"
    and b: "(b, sz, al) \<in> set (blocks (heap_base s) bs)" "b \<notin> set fl" and x: "x \<in> link_words fl"
  shows "x < b \<or> b + sz \<le> x"
proof -
  obtain f where f: "f \<in> set fl" "x = f + 8 \<or> x = f + 16" using x by (auto simp: link_words_def)
  then obtain k where k: "(f, k, False) \<in> set (blocks (heap_base s) bs)"
    using sub by (auto simp: free_blocks_def)
  have "b + sz \<le> f \<or> f + k \<le> b"
    using blocks_disjoint [OF layout_tiles [OF l] b(1) k] f b(2) by auto
  moreover have "32 \<le> k" using layout_block [OF l k] by simp
  ultimately show ?thesis using f(2) by auto
qed

lemma no_adjacent_append:
  "no_adjacent_free (xs @ y # ys) \<longleftrightarrow>
   no_adjacent_free xs \<and> no_adjacent_free (y # ys) \<and> (xs \<noteq> [] \<longrightarrow> snd (last xs) \<or> snd y)"
  by (auto simp: no_adjacent_free_def successively_append_iff)

lemma no_adjacent_Cons [simp]:
  "no_adjacent_free []"
  "no_adjacent_free (x # ys) = ((ys \<noteq> [] \<longrightarrow> snd x \<or> snd (hd ys)) \<and> no_adjacent_free ys)"
  by (cases ys; simp add: no_adjacent_free_def)+

section \<open>Requests\<close>

lemma align_rounds: "n \<le> MAX_HEAP \<Longrightarrow> align n = (n + 7) div 8 * 8"
  by (simp add: align_def WORD_SIZE_def u64_def MAX_HEAP_def)

lemma align_props:
  assumes "n \<le> MAX_HEAP"
  shows "8 dvd align n" "n \<le> align n" "align n < n + 8"
proof -
  have "u64 (n + 7) = n + 7" using assms by (simp add: u64_def MAX_HEAP_def)
  then have a: "align n = (n + 7) div 8 * 8" by (simp add: align_def WORD_SIZE_def)
  show "8 dvd align n" by (simp add: align_def WORD_SIZE_def)
  show "n \<le> align n" "align n < n + 8" using a by linarith+
qed

lemma small_u64 [simp]: "n \<le> 2 * MAX_HEAP \<Longrightarrow> u64 n = n"
  by (simp add: u64_def MAX_HEAP_def)

lemma small_to_int32 [simp]: "n \<le> 2 * MAX_HEAP \<Longrightarrow> to_int32 n = int n"
  by (simp add: to_int32_def signed_take_bit32 MAX_HEAP_def)

lemma u64_sub_le [simp]: "b \<le> a \<Longrightarrow> u64_sub a b = a - b"
  by (simp add: u64_sub_def)

section \<open>mm_init\<close>

lemma mm_init_ok:
  assumes "mem_init storage contents flist = Some s" "8 dvd storage"
  shows "\<exists>t. mm_init s = Some t \<and> heap_ok t [] [] \<and> mem_brk t = storage + 16"
proof -
  have s: "s = \<lparr>cells = contents, mem_start_brk = storage, mem_brk = storage,
      mem_max_addr = storage + MAX_HEAP, flist_first = flist\<rparr>" and pos: "0 < storage"
    using assms(1) by (auto simp: mem_init_def split: if_splits)
  have m: "32 \<le> MAX_HEAP" by (simp add: MAX_HEAP_def)
  define t where "t = s\<lparr>flist_first := 0, mem_brk := storage + 16, cells := contents(storage := 9, storage + 8 := 9)\<rparr>"
  have reg: "in_region s storage" "in_region s (storage + 8)"
    using assms(2) m by (auto simp: s in_region_def)
  have c9: "clear0 9 = 8" by (simp add: clear0_def)
  have sb: "mem_sbrk (s\<lparr>flist_first := 0\<rparr>) 16 = (storage, s\<lparr>flist_first := 0, mem_brk := storage + 16\<rparr>)"
    using m by (simp add: mem_sbrk_def s)
  have "mm_init s = Some t"
    using reg c9 sb
    by (simp add: mm_init_def TAGS_SIZE_def WORD_SIZE_def ENDPOINT_def block_next_def
        block_size_def t_def ld_def st_def in_region_def s)
  moreover have "heap_ok t [] []"
    using assms(2) pos m by (simp add: heap_ok_def layout_def free_ring_def t_def s)
  moreover have "mem_brk t = storage + 16" by (simp add: t_def)
  ultimately show ?thesis by blast
qed

lemma mm_init_reset:
  assumes "0 < mem_start_brk s" "8 dvd mem_start_brk s" "mem_max_addr s = mem_start_brk s + MAX_HEAP"
  shows "\<exists>t. mm_init (mem_reset_brk s) = Some t \<and> heap_ok t [] [] \<and>
    mem_start_brk t = mem_start_brk s \<and> mem_brk t = mem_start_brk s + 16"
proof -
  have "mem_init (mem_start_brk s) (cells s) (flist_first s) = Some (mem_reset_brk s)"
    using assms by (simp add: mem_init_def mem_reset_brk_def)
  then obtain t where t: "mm_init (mem_reset_brk s) = Some t" "heap_ok t [] []" "mem_brk t = mem_start_brk s + 16"
    using mm_init_ok assms(2) by blast
  then show ?thesis using layout_brk [of t "[]"] by (simp add: heap_ok_def)
qed

section \<open>mm_malloc\<close>

lemma take_block_whole:
  assumes l: "layout s (xs @ (sz, False) # ys)" and fr: "free_ring s fl"
    and sub: "set fl \<subseteq> free_blocks (heap_base s) (xs @ (sz, False) # ys) - {b}"
    and b: "b = heap_base s + width xs"
  shows "\<exists>c. block_set_size_and_allocated s b sz 1 = Some (s\<lparr>cells := c\<rparr>) \<and>
    layout (s\<lparr>cells := c\<rparr>) (xs @ (sz, True) # ys) \<and> free_ring (s\<lparr>cells := c\<rparr>) fl \<and>
    (\<forall>x. x < b \<or> b + sz \<le> x \<longrightarrow> c x = cells s x)"
proof -
  let ?bs = "xs @ (sz, False) # ys"
  have bb: "(b, sz, False) \<in> set (blocks (heap_base s) ?bs)" using b by simp
  note lb = layout_block [OF l bb]
  define c where "c = (cells s)(b := sz + 1, b + sz - 8 := sz + 1)"
  have out: "c x = cells s x" if "x < b \<or> b + sz \<le> x" for x
    using that lb by (auto simp: c_def)
  have reg: "in_region s b" "in_region s (b + sz - 8)"
    using lb by (auto intro!: layout_region [OF l] dvd_diff_nat)
  have "block_set_size_and_allocated s b sz 1 = Some (s\<lparr>cells := c\<rparr>)"
    using reg lb by (subst set_size_and_allocated) (auto simp: c_def)
  moreover have "layout (s\<lparr>cells := c\<rparr>) (xs @ [(sz, True)] @ ys)"
    by (rule layout_retile [where zs = "[(sz, False)]"]) (use l lb b out in \<open>auto simp: c_def\<close>)
  moreover have "free_ring (s\<lparr>cells := c\<rparr>) fl"
    by (rule free_ring_frame [OF fr], rule out)
      (use link_words_apart [OF l _ bb, of fl] sub in auto)
  ultimately show ?thesis using out by auto
qed

lemma set_size_split:
  assumes l: "layout s (xs @ (sz, False) # ys)" and fr: "free_ring s fl"
    and sub: "set fl \<subseteq> free_blocks (heap_base s) (xs @ (sz, False) # ys) - {b}"
    and b: "b = heap_base s + width xs" and m: "8 dvd m" "32 \<le> m" "m + 32 \<le> sz"
  obtains c c1 where
    "block_set_size_and_allocated s b m 1 = Some (s\<lparr>cells := c1\<rparr>)"
    "block_next (s\<lparr>cells := c1\<rparr>) b = Some (b + m)"
    "block_set_size_and_allocated (s\<lparr>cells := c1\<rparr>) (b + m) (sz - m) 0 = Some (s\<lparr>cells := c\<rparr>)"
    "layout (s\<lparr>cells := c\<rparr>) (xs @ (m, True) # (sz - m, False) # ys)"
    "free_ring (s\<lparr>cells := c\<rparr>) fl" "\<And>x. x < b \<or> b + sz \<le> x \<Longrightarrow> c x = cells s x"
proof -
  let ?bs = "xs @ (sz, False) # ys"
  have bb: "(b, sz, False) \<in> set (blocks (heap_base s) ?bs)" using b by simp
  note lb = layout_block [OF l bb]
  define c1 where "c1 = (cells s)(b := m + 1, b + m - 8 := m + 1)"
  define c where "c = c1(b + m := sz - m, b + sz - 8 := sz - m)"
  have out: "c x = cells s x" if "x < b \<or> b + sz \<le> x" for x
    using that lb m by (auto simp: c_def c1_def)
  have reg: "in_region s b" "in_region s (b + m - 8)" "in_region s (b + m)" "in_region s (b + sz - 8)"
    using lb m by (auto intro!: layout_region [OF l] dvd_diff_nat dvd_add)
  have d: "8 dvd sz - m" using lb m by (simp add: dvd_diff_nat)
  have e: "b + m + (sz - m) - 8 = b + sz - 8" using m by simp
  have s1: "block_set_size_and_allocated s b m 1 = Some (s\<lparr>cells := c1\<rparr>)"
    using reg m by (subst set_size_and_allocated) (auto simp: c1_def)
  have s2: "block_next (s\<lparr>cells := c1\<rparr>) b = Some (b + m)"
    using reg m by (simp add: block_next_def block_size_def c1_def)
  have s3: "block_set_size_and_allocated (s\<lparr>cells := c1\<rparr>) (b + m) (sz - m) 0 = Some (s\<lparr>cells := c\<rparr>)"
    using reg m d by (subst set_size_and_allocated) (auto simp: c_def e)
  have "layout (s\<lparr>cells := c\<rparr>) (xs @ [(m, True), (sz - m, False)] @ ys)"
    by (rule layout_retile [where zs = "[(sz, False)]"])
      (use l lb b out m d e in \<open>auto simp: c_def c1_def\<close>)
  moreover have "free_ring (s\<lparr>cells := c\<rparr>) fl"
    by (rule free_ring_frame [OF fr], rule out)
      (use link_words_apart [OF l _ bb, of fl] sub in auto)
  ultimately show thesis using that s1 s2 s3 out by auto
qed


lemma used_outside_free:
  assumes l: "layout s bs" and b: "(b, sz, False) \<in> set (blocks (heap_base s) bs)"
    and u: "(u, k) \<in> used_blocks (heap_base s) bs" and x: "u \<le> x" "x < u + k"
  shows "x < b \<or> b + sz \<le> x"
proof -
  have us: "(u, k, True) \<in> set (blocks (heap_base s) bs)" using u by (simp add: used_blocks_def)
  have "b \<noteq> u" using block_unique [OF layout_tiles [OF l] b] us by auto
  then show ?thesis using blocks_disjoint [OF layout_tiles [OF l] b us] x by auto
qed

lemma used_same_links:
  assumes "layout s bs" "set fl \<subseteq> free_blocks (heap_base s) bs"
    and "\<And>a. a \<notin> link_words fl \<Longrightarrow> cells t a = cells s a"
    and "U \<subseteq> used_blocks (heap_base s) bs"
  shows "used_same s t U"
  using assms link_word_outside [OF assms(1,2)] by (auto simp: used_same_def)

lemma used_same_block:
  assumes "layout s bs" "(b, sz, False) \<in> set (blocks (heap_base s) bs)"
    and "\<And>x. x < b \<or> b + sz \<le> x \<Longrightarrow> cells t x = cells s x"
    and "U \<subseteq> used_blocks (heap_base s) bs"
  shows "used_same s t U"
  using assms used_outside_free [OF assms(1,2)] unfolding used_same_def by blast

lemma used_block_addr:
  assumes "layout s bs" "(b, sz, False) \<in> set (blocks (heap_base s) bs)"
  shows "(b, k) \<notin> used_blocks (heap_base s) bs"
  using block_unique [OF layout_tiles [OF assms(1)] assms(2)] by (auto simp: used_blocks_def)

lemma free_addr_once:
  assumes "layout s (xs @ (sz, False) # ys)" "b = heap_base s + width xs"
  shows "b \<notin> free_blocks (heap_base s) xs \<union> free_blocks (b + sz) ys"
proof -
  have t: "tiles (cells s) (heap_base s) xs b" "tiles (cells s) (b + sz) ys (mem_brk s - 8)" "32 \<le> sz"
    using layout_tiles [OF assms(1)] assms(2) by (auto simp: tiles_append)
  then show ?thesis by (fastforce simp: free_blocks_def dest: block_bounds)
qed

lemma used_addr_once:
  assumes "layout s (xs @ (k, al) # ys)" "u = heap_base s + width xs"
  shows "(u, j) \<notin> used_blocks (heap_base s) xs \<union> used_blocks (u + k) ys"
proof -
  have t: "tiles (cells s) (heap_base s) xs u" "tiles (cells s) (u + k) ys (mem_brk s - 8)" "32 \<le> k"
    using layout_tiles [OF assms(1)] assms(2) by (auto simp: tiles_append)
  then show ?thesis by (fastforce simp: used_blocks_def dest: block_bounds)
qed

text \<open>A request is served: \<open>t\<close> is \<open>s\<close> with one more block in use, of at least \<open>m\<close> bytes and less
than a minimal block more; the heap has grown by no more than that.\<close>

definition served :: "mm \<Rightarrow> (nat \<times> bool) list \<Rightarrow> nat \<Rightarrow> nat \<Rightarrow> mm \<Rightarrow> (nat \<times> bool) list \<Rightarrow> nat list \<Rightarrow> bool" where
  "served s bs m b t bs' fl' \<longleftrightarrow>
     heap_ok t bs' fl' \<and> mem_start_brk t = mem_start_brk s \<and>
     mem_brk s \<le> mem_brk t \<and> mem_brk t \<le> mem_brk s + m \<and>
     used_same s t (used_blocks (heap_base s) bs) \<and>
     (\<exists>k. m \<le> k \<and> k < m + 32 \<and> (b, k) \<notin> used_blocks (heap_base s) bs \<and>
        used_blocks (heap_base s) bs' = insert (b, k) (used_blocks (heap_base s) bs))"

lemma take_block_ok:
  assumes h: "heap_ok s (xs @ (sz, False) # ys) fl" and b: "b = heap_base s + width xs"
    and a: "8 dvd a" "16 \<le> a" "a + 16 \<le> sz"
  shows "\<exists>t bs' fl'. take_block s a b sz = Some t \<and> served s (xs @ (sz, False) # ys) (a + 16) b t bs' fl'"
proof -
  let ?bs = "xs @ (sz, False) # ys" and ?m = "a + 16" and ?fl = "remove1 b fl"
  have l: "layout s ?bs" and fr: "free_ring s fl" and fl: "set fl = free_blocks (heap_base s) ?bs"
    and na: "no_adjacent_free ?bs"
    using h unfolding heap_ok_def by blast+
  have sub: "set fl \<subseteq> free_blocks (heap_base s) ?bs" using fl by blast
  have bb: "(b, sz, False) \<in> set (blocks (heap_base s) ?bs)" using b by simp
  note lb = layout_block [OF l bb]
  have bin: "b \<in> set fl" unfolding fl using b by simp
  have d: "distinct fl" using fr by (simp add: free_ring_def)
  have once: "b \<notin> free_blocks (heap_base s) xs \<union> free_blocks (b + sz) ys"
    using free_addr_once [OF l b] .
  have fl': "set ?fl = free_blocks (heap_base s) ?bs - {b}" using d fl by simp
  then have fl'': "set ?fl = free_blocks (heap_base s) xs \<union> free_blocks (b + sz) ys"
    using once b by auto
  have fresh: "(b, k) \<notin> used_blocks (heap_base s) ?bs" for k using used_block_addr [OF l bb] .
  obtain c0 f0 where p: "pull_free_block s b = Some (s\<lparr>cells := c0, flist_first := f0\<rparr>)"
      "layout (s\<lparr>cells := c0, flist_first := f0\<rparr>) ?bs"
      "free_ring (s\<lparr>cells := c0, flist_first := f0\<rparr>) ?fl"
      "\<And>x. x \<notin> link_words fl \<Longrightarrow> c0 x = cells s x"
    using pull_free_block_ok [OF l sub fr bin] by blast
  define s1 where "s1 = s\<lparr>cells := c0, flist_first := f0\<rparr>"
  have p': "pull_free_block s b = Some s1" "layout s1 ?bs" "free_ring s1 ?fl"
    using p by (simp_all add: s1_def)
  have hb: "mem_start_brk s1 = mem_start_brk s" by (simp add: s1_def)
  have u1: "used_same s s1 (used_blocks (heap_base s) ?bs)"
    by (rule used_same_links [OF l sub]) (use p(4) in \<open>auto simp: s1_def\<close>)
  have m: "u64 (a + TAGS_SIZE) = ?m" "u64_sub sz ?m = sz - ?m"
    using a lb by (simp_all add: TAGS_SIZE_def WORD_SIZE_def)
  have sub1: "set ?fl \<subseteq> free_blocks (heap_base s1) ?bs - {b}" unfolding fl' hb by blast
  have b1: "b = heap_base s1 + width xs" using b hb by simp
  show ?thesis
  proof (cases "32 \<le> sz - ?m")
    case True
    let ?bs' = "xs @ (?m, True) # (sz - ?m, False) # ys"
    have mm: "8 dvd ?m" "32 \<le> ?m" "?m + 32 \<le> sz" using a True by auto
    obtain c c1 where sp: "block_set_size_and_allocated s1 b ?m 1 = Some (s1\<lparr>cells := c1\<rparr>)"
        "block_next (s1\<lparr>cells := c1\<rparr>) b = Some (b + ?m)"
        "block_set_size_and_allocated (s1\<lparr>cells := c1\<rparr>) (b + ?m) (sz - ?m) 0 = Some (s1\<lparr>cells := c\<rparr>)"
        "layout (s1\<lparr>cells := c\<rparr>) ?bs'" "free_ring (s1\<lparr>cells := c\<rparr>) ?fl"
        "\<And>x. x < b \<or> b + sz \<le> x \<Longrightarrow> c x = cells s1 x"
      using set_size_split [OF p'(2,3) sub1 b1 mm] by blast
    define s2 where "s2 = s1\<lparr>cells := c\<rparr>"
    have hb2: "mem_start_brk s2 = mem_start_brk s" by (simp add: s2_def hb)
    have l2: "layout s2 ?bs'" and fr2: "free_ring s2 ?fl" using sp(4,5) by (simp_all add: s2_def)
    have nw: "b + ?m = heap_base s2 + width (xs @ [(?m, True)])" using b hb2 by simp
    have e: "b + ?m + (sz - ?m) = b + sz" using mm by simp
    have fb2: "free_blocks (heap_base s2) ?bs' = insert (b + ?m) (set ?fl)"
      unfolding fl'' hb2 free_blocks_simps b [symmetric] e by auto
    have new: "b + ?m \<notin> set ?fl"
      using free_addr_once [of s2 "xs @ [(?m, True)]" "sz - ?m" ys "b + ?m"] l2 nw
      unfolding fl'' hb2 free_blocks_simps e by simp
    have sub2: "set ((b + ?m) # ?fl) \<subseteq> free_blocks (heap_base s2) ?bs'" unfolding fb2 by simp
    obtain c2 where ins: "insert_free_block s2 (b + ?m) = Some (s2\<lparr>cells := c2, flist_first := b + ?m\<rparr>)"
        "layout (s2\<lparr>cells := c2, flist_first := b + ?m\<rparr>) ?bs'"
        "free_ring (s2\<lparr>cells := c2, flist_first := b + ?m\<rparr>) ((b + ?m) # ?fl)"
        "\<And>x. x \<notin> link_words ((b + ?m) # ?fl) \<Longrightarrow> c2 x = cells s2 x"
      using insert_free_block_ok [OF l2 sub2 fr2 new] by blast
    define t where "t = s2\<lparr>cells := c2, flist_first := b + ?m\<rparr>"
    have hbt: "mem_start_brk t = mem_start_brk s" by (simp add: t_def hb2)
    have brkt: "mem_brk s \<le> mem_brk t" "mem_brk t \<le> mem_brk s + ?m" by (simp_all add: t_def s2_def s1_def)
    have ub: "used_blocks (heap_base s) ?bs' = insert (b, ?m) (used_blocks (heap_base s) ?bs)"
      unfolding used_blocks_simps b [symmetric] e by auto
    have "take_block s a b sz = Some t"
      using p'(1) sp(1-3) ins(1) True mm
      by (simp add: take_block_def m MINBLOCKSIZE_def WORD_SIZE_def s2_def t_def)
    moreover have "heap_ok t ?bs' ((b + ?m) # ?fl)"
      unfolding heap_ok_def hbt
      using ins(2,3) na unfolding fb2 [unfolded hb2]
      by (auto simp: t_def no_adjacent_append)
    moreover have "used_same s1 s2 (used_blocks (heap_base s) ?bs)"
      by (rule used_same_block [OF p'(2), of b sz]) (use b1 sp(6) in \<open>auto simp: hb s2_def\<close>)
    moreover have "used_same s2 t (used_blocks (heap_base s) ?bs)"
      by (rule used_same_links [OF l2 sub2]) (use ins(4) ub in \<open>auto simp: t_def hb2\<close>)
    ultimately show ?thesis
      using u1 fresh hbt brkt ub unfolding served_def
      by (intro exI [of _ t] exI [of _ ?bs'] exI [of _ "(b + ?m) # ?fl"] conjI exI [of _ ?m])
        (auto intro: used_same_trans)
  next
    case False
    let ?bs' = "xs @ (sz, True) # ys"
    obtain c where w: "block_set_size_and_allocated s1 b sz 1 = Some (s1\<lparr>cells := c\<rparr>)"
        "layout (s1\<lparr>cells := c\<rparr>) ?bs'" "free_ring (s1\<lparr>cells := c\<rparr>) ?fl"
        "\<forall>x. x < b \<or> b + sz \<le> x \<longrightarrow> c x = cells s1 x"
      using take_block_whole [OF p'(2,3) sub1 b1] by blast
    define t where "t = s1\<lparr>cells := c\<rparr>"
    have hbt: "mem_start_brk t = mem_start_brk s" by (simp add: t_def hb)
    have brkt: "mem_brk s \<le> mem_brk t" "mem_brk t \<le> mem_brk s + ?m" by (simp_all add: t_def s1_def)
    have ub: "used_blocks (heap_base s) ?bs' = insert (b, sz) (used_blocks (heap_base s) ?bs)"
      using b by auto
    have "take_block s a b sz = Some t"
      using p'(1) w(1) False
      by (simp add: take_block_def m MINBLOCKSIZE_def WORD_SIZE_def t_def)
    moreover have "heap_ok t ?bs' ?fl"
      unfolding heap_ok_def hbt
      using w(2,3) na fl'' b by (cases ys) (auto simp: t_def no_adjacent_append)
    moreover have "used_same s1 t (used_blocks (heap_base s) ?bs)"
      by (rule used_same_block [OF p'(2), of b sz]) (use b1 w(4) in \<open>auto simp: hb t_def\<close>)
    moreover have "?m \<le> sz" "sz < ?m + 32" using a False by simp_all
    ultimately show ?thesis
      using u1 fresh hbt brkt ub unfolding served_def by (blast intro: used_same_trans)
  qed
qed

end
