(* ===== verification/MmMalloc.thy ===== *)
theory MmMalloc
  imports MmAlloc
begin

text \<open>
  \<open>mm_malloc\<close>: the first-fit search of \<open>check_flist\<close>, the growth of the heap in \<open>extend_heap\<close>,
  and the contract of the whole operation.
\<close>

section \<open>The search\<close>

lemma free_ring_next:
  assumes fr: "free_ring s fl" and fl: "fl = pre @ b # post"
  shows "free_nxt (cells s) b = (if post = [] then flist_first s else hd post)"
    "post \<noteq> [] \<Longrightarrow> hd post \<noteq> flist_first s"
proof -
  have r: "ring (free_nxt (cells s)) (free_prv (cells s)) (b # post @ pre)"
    and ff: "flist_first s = hd fl" and d: "distinct fl"
    using fr fl by (auto simp: free_ring_def ring_to_front)
  show "free_nxt (cells s) b = (if post = [] then flist_first s else hd post)"
    using r ff fl by (cases post; cases pre) (auto simp: ring_Cons)
  show "post \<noteq> [] \<Longrightarrow> hd post \<noteq> flist_first s"
    using d ff fl by (cases post; cases pre) auto
qed

lemma heap_ok_free:
  assumes "heap_ok s bs fl" "b \<in> set fl"
  shows "b \<in> free_blocks (heap_base s) bs" "block_size s b = Some (cells s b)"
    "block_next_free s b = Some (free_nxt (cells s) b)" "cells s b \<le> MAX_HEAP" "b \<noteq> 0"
    "assert_free s b = Some ()" "block_allocated s b = Some 0"
    "(b, cells s b, False) \<in> set (blocks (heap_base s) bs)"
proof -
  have l: "layout s bs" and f: "b \<in> free_blocks (heap_base s) bs"
    using assms by (auto simp: heap_ok_def)
  obtain sz where sz: "8 dvd sz" "cells s b = sz" "(b, sz, False) \<in> set (blocks (heap_base s) bs)"
    "in_region s b"
    using layout_free [OF l f] by blast
  show "b \<in> free_blocks (heap_base s) bs" by (rule f)
  show "block_size s b = Some (cells s b)" using sz by (simp add: block_size_def)
  show "block_next_free s b = Some (free_nxt (cells s) b)" "assert_free s b = Some ()"
    "block_allocated s b = Some 0" using free_reads [OF l f] by simp_all
  show "cells s b \<le> MAX_HEAP" "(b, cells s b, False) \<in> set (blocks (heap_base s) bs)"
    using layout_block [OF l sz(3)] sz by auto
  show "b \<noteq> 0" using layout_block(1) [OF l sz(3)] by simp
qed

text \<open>The first block of the free list that is large enough, if there is one, is taken.\<close>

lemma check_flist_loop_ok:
  assumes h: "heap_ok s bs fl" and a: "a \<le> MAX_HEAP"
  shows "fl = pre @ b # post \<Longrightarrow>
    check_flist_loop s a b =
      (case find (\<lambda>f. a + 16 \<le> cells s f) (b # post) of
         None \<Rightarrow> Some (0, s)
       | Some f \<Rightarrow> map_option (\<lambda>t. (f + 8, t)) (take_block s a f (cells s f)))"
proof (induction post arbitrary: pre b)
  case (Cons x xs)
  have m: "u64 (a + TAGS_SIZE) = a + 16" using a by (simp add: TAGS_SIZE_def WORD_SIZE_def MAX_HEAP_def)
  have "check_flist_loop s a x = (case find (\<lambda>f. a + 16 \<le> cells s f) (x # xs) of
         None \<Rightarrow> Some (0, s)
       | Some f \<Rightarrow> map_option (\<lambda>t. (f + 8, t)) (take_block s a f (cells s f)))"
    by (rule Cons.IH [of "pre @ [b]"]) (simp add: Cons.prems)
  moreover have "free_ring s fl" using h by (simp add: heap_ok_def)
  note nx = free_ring_next [OF this Cons.prems]
  ultimately show ?case
    using heap_ok_free [OF h, of b] Cons.prems nx m
    by (subst check_flist_loop.simps)
      (auto simp: map_option_case Option.bind_def split: option.splits)
next
  case Nil
  have m: "u64 (a + TAGS_SIZE) = a + 16" using a by (simp add: TAGS_SIZE_def WORD_SIZE_def MAX_HEAP_def)
  have "free_ring s fl" using h by (simp add: heap_ok_def)
  note nx = free_ring_next [OF this Nil]
  show ?case
    using heap_ok_free [OF h, of b] Nil nx m
    by (subst check_flist_loop.simps)
      (auto simp: map_option_case Option.bind_def split: option.splits)
qed

lemma check_flist_ok:
  assumes h: "heap_ok s bs fl" and n: "n \<le> MAX_HEAP - 8"
  shows "check_flist s n =
      (case find (\<lambda>f. align n + 16 \<le> cells s f) fl of
         None \<Rightarrow> Some (0, s)
       | Some f \<Rightarrow> map_option (\<lambda>t. (f + 8, t)) (take_block s (align n) f (cells s f)))"
proof (cases fl)
  case Nil
  then have "flist_first s = 0" using h by (simp add: heap_ok_def free_ring_def)
  then show ?thesis by (simp add: check_flist_def Nil)
next
  case (Cons b post)
  have "flist_first s = b" "b \<noteq> 0"
    using h Cons heap_ok_free(5) [OF h, of b] by (auto simp: heap_ok_def free_ring_def)
  moreover have "align n \<le> MAX_HEAP" using align_props [of n] n by (auto simp: MAX_HEAP_def elim!: dvdE)
  ultimately show ?thesis
    using check_flist_loop_ok [OF h, of "align n" "[]" b post] Cons by (simp add: check_flist_def)
qed

section \<open>Growing the heap\<close>

definition extended :: "mm \<Rightarrow> nat \<Rightarrow> mm" where
  "extended s a = s\<lparr>mem_brk := mem_brk s + a + 16,
     cells := (cells s)(mem_brk s - 8 := a + 17, mem_brk s + a := a + 17, mem_brk s + a + 8 := 9)\<rparr>"

lemma extend_heap_step:
  assumes l: "layout s bs" and n: "1 \<le> n" "n \<le> MAX_HEAP"
    and room: "mem_brk s + align n + 16 \<le> mem_max_addr s"
  shows "extend_heap s n = Some (mem_brk s, extended s (align n))"
proof -
  let ?a = "align n" and ?b = "mem_brk s - 8"
  define c1 where "c1 = (cells s)(?b := ?a + 17, mem_brk s + ?a := ?a + 17)"
  note ap = align_props [OF n(2)]
  have brk: "mem_brk s = heap_base s + width bs + 8" by (rule layout_brk [OF l])
  have d: "8 dvd mem_start_brk s" "8 dvd width bs"
    using l tiles_width [OF layout_tiles [OF l]] by (auto simp: layout_def)
  have mx: "mem_max_addr s = mem_start_brk s + MAX_HEAP" using l by (simp add: layout_def)
  have amax: "?a \<le> MAX_HEAP" using room brk mx by simp
  have db: "8 dvd mem_brk s" "8 dvd ?b" using d brk by (auto elim!: dvdE)
  have regs: "in_region s ?b" "in_region s (mem_brk s + ?a)" "in_region s (mem_brk s + ?a + 8)"
    using db ap d brk room mx by (auto simp: in_region_def elim!: dvdE)
  have sb1: "mem_sbrk s (int (?a + 8)) = (mem_brk s, s\<lparr>mem_brk := mem_brk s + ?a + 8\<rparr>)"
    using room by (simp add: mem_sbrk_def nat_add_distrib)
  have sb2: "mem_sbrk (s\<lparr>mem_brk := mem_brk s + ?a + 8, cells := c1\<rparr>) 8 =
      (mem_brk s + ?a + 8, s\<lparr>mem_brk := mem_brk s + ?a + 16, cells := c1\<rparr>)"
    using room by (simp add: mem_sbrk_def)
  have c9: "cells s ?b = 9" using l by (simp add: layout_def)
  have i: "to_int32 (u64 (?a + 8)) = int (?a + 8)" "u64 (?a + 16) = ?a + 16"
    using amax by (simp_all add: MAX_HEAP_def)
  have bp: "block_prev (s\<lparr>mem_brk := k\<rparr>) (mem_brk s) = Some ?b" for k
    using regs(1) c9 by (simp add: block_prev_def block_prev_size_def clear0_def)
  have e: "?b + (?a + 16) - 8 = mem_brk s + ?a" "?a + 16 + 1 = ?a + 17" using brk by simp_all
  have ss: "block_set_size_and_allocated (s\<lparr>mem_brk := k\<rparr>) ?b (?a + 16) 1 =
      Some (s\<lparr>mem_brk := k, cells := c1\<rparr>)" for k
    by (subst set_size_and_allocated) (use regs ap in \<open>simp_all only: e in_region_upd c1_def\<close>, simp_all)
  show ?thesis
    using sb1 sb2 bp ss regs brk
    by (simp add: extend_heap_def Let_def i TAGS_SIZE_def WORD_SIZE_def ENDPOINT_def c1_def
        extended_def)
qed

lemma extended_served:
  assumes h: "heap_ok s bs fl" and a: "16 \<le> a" "8 dvd a"
    and room: "mem_brk s + a + 16 \<le> mem_max_addr s"
  shows "served s bs (a + 16) (mem_brk s - 8) (extended s a) (bs @ [(a + 16, True)]) fl"
proof -
  let ?b = "mem_brk s - 8" and ?bs' = "bs @ [(a + 16, True)]" and ?t = "extended s a"
  define c where "c = (cells s)(?b := a + 17, mem_brk s + a := a + 17, mem_brk s + a + 8 := 9)"
  have t: "?t = s\<lparr>mem_brk := mem_brk s + a + 16, cells := c\<rparr>" by (simp add: extended_def c_def)
  have l: "layout s bs" using h by (simp add: heap_ok_def)
  have brk: "mem_brk s = heap_base s + width bs + 8" by (rule layout_brk [OF l])
  have same: "c x = cells s x" if "x < ?b" for x using that by (auto simp: c_def)
  have "layout ?t ?bs'"
  proof -
    have "tiles c (heap_base s) bs ?b"
      using layout_tiles [OF l] by (rule tiles_cong_range) (rule same)
    moreover have "c ?b = a + 17" "c (mem_brk s + a) = a + 17" and c9': "c (mem_start_brk s) = 9"
      using brk a l same [of "mem_start_brk s"] by (auto simp: c_def layout_def)
    moreover have e: "heap_base s + width bs = ?b" "?b + (a + 16) - 8 = mem_brk s + a"
        "?b + (a + 16) = mem_brk s + a + 8"
      using brk by simp_all
    ultimately have "tiles c (heap_base s) ?bs' (mem_brk s + a + 8)"
      using a by (simp add: tiles_append)
    moreover have "c (mem_brk s + a + 8) = 9" by (simp add: c_def)
    ultimately show ?thesis
      using l a room c9' by (simp add: layout_def t add.commute add.left_commute)
  qed
  moreover have "free_ring ?t fl"
  proof -
    have "free_ring (s\<lparr>cells := c\<rparr>) fl"
    proof (rule free_ring_frame, use h in \<open>simp add: heap_ok_def\<close>, rule same)
      fix x assume "x \<in> link_words fl"
      then obtain f where f: "f \<in> set fl" "x = f + 8 \<or> x = f + 16" by (auto simp: link_words_def)
      have "f + cells s f + 8 \<le> mem_brk s" "32 \<le> cells s f"
        using layout_block [OF l heap_ok_free(8) [OF h f(1)]] by auto
      then show "x < ?b" using f(2) by auto
    qed
    then show ?thesis by (simp add: free_ring_def t)
  qed
  moreover have below: "u + k \<le> ?b" if "(u, k) \<in> used_blocks (heap_base s) bs" for u k
    using that block_bounds [OF layout_tiles [OF l]] by (auto simp: used_blocks_def)
  then have "used_same s ?t (used_blocks (heap_base s) bs)"
    using same by (fastforce simp: used_same_def t)
  moreover have "no_adjacent_free ?bs'" using h by (auto simp: heap_ok_def no_adjacent_append)
  moreover have "(?b, k) \<notin> used_blocks (heap_base s) bs" for k
    using below [of ?b k] block_bounds [OF layout_tiles [OF l], of ?b k True]
    by (fastforce simp: used_blocks_def)
  ultimately show ?thesis
    using h brk by (auto simp: served_def heap_ok_def t)
qed

lemma extend_heap_ok:
  assumes h: "heap_ok s bs fl" and n: "9 \<le> n" "n \<le> MAX_HEAP"
    and room: "mem_brk s + align n + 16 \<le> mem_max_addr s"
  shows "\<exists>t. extend_heap s n = Some (mem_brk s, t) \<and>
    served s bs (align n + 16) (mem_brk s - 8) t (bs @ [(align n + 16, True)]) fl"
proof -
  have a: "16 \<le> align n" "8 dvd align n" using align_props [OF n(2)] n by (auto elim!: dvdE)
  have "layout s bs" using h by (simp add: heap_ok_def)
  then show ?thesis
    using extend_heap_step [of s bs n] extended_served [OF h a room] n room by auto
qed

text \<open>A request of at most one word gets a block below the minimal size, with no room for the
links that \<open>mm_free\<close> will write into it.\<close>

lemma extend_heap_tiny:
  assumes h: "heap_ok s bs fl" and n: "1 \<le> n" "n \<le> 8" and room: "mem_brk s + 24 \<le> mem_max_addr s"
  shows "\<exists>t. extend_heap s n = Some (mem_brk s, t) \<and> block_size t (mem_brk s - 8) = Some 24"
proof -
  have l: "layout s bs" using h by (simp add: heap_ok_def)
  have mx: "n \<le> MAX_HEAP" using n by (simp add: MAX_HEAP_def)
  have "0 < align n" "align n < 16" "8 dvd align n" using align_props [OF mx] n by auto
  then have a: "align n = 8" by (auto elim!: dvdE)
  have brk: "mem_brk s = heap_base s + width bs + 8" by (rule layout_brk [OF l])
  have "8 dvd mem_start_brk s" "8 dvd width bs"
    using l tiles_width [OF layout_tiles [OF l]] by (auto simp: layout_def)
  then have "in_region s (mem_brk s - 8)"
    using brk room by (intro layout_region [OF l]) (auto elim!: dvdE)
  then have "in_region (extended s 8) (mem_brk s - 8)" by (simp add: extended_def in_region_def)
  then have "block_size (extended s 8) (mem_brk s - 8) = Some 24"
    using brk by (simp add: block_size_def extended_def clear0_def)
  then show ?thesis using extend_heap_step [OF l n(1) mx] room a by simp
qed

text \<open>Without room for the block and the new epilogue, \<open>mem_sbrk\<close> returns \<open>(void *)-1\<close>, which
\<open>extend_heap\<close> goes on to dereference.\<close>

lemma sbrk_failed_access: "ld s (sbrk_failed - 8) = None" "st s sbrk_failed v = None"
  by (simp_all add: ld_def st_def in_region_def sbrk_failed_def)

definition same_bounds :: "mm \<Rightarrow> mm \<Rightarrow> bool" where
  "same_bounds s t \<longleftrightarrow> mem_brk t = mem_brk s \<and> mem_max_addr t = mem_max_addr s \<and>
     mem_start_brk t = mem_start_brk s \<and> flist_first t = flist_first s"

lemma st_bounds: "st s a v = Some t \<Longrightarrow> same_bounds s t"
  by (auto simp: st_def same_bounds_def split: if_splits)

lemma same_bounds_trans: "same_bounds s t \<Longrightarrow> same_bounds t r \<Longrightarrow> same_bounds s r"
  by (simp add: same_bounds_def)

lemma set_bounds:
  "block_set_size s b n = Some t \<Longrightarrow> same_bounds s t"
  "block_set_allocated s b al = Some t \<Longrightarrow> same_bounds s t"
  by (auto simp: block_set_size_def block_set_allocated_def Let_def bind_eq_Some_conv
      dest!: st_bounds intro: same_bounds_trans)

lemma set_size_frame:
  "block_set_size_and_allocated r b m al = Some t \<Longrightarrow> same_bounds r t"
  by (auto simp: block_set_size_and_allocated_def bind_eq_Some_conv
      dest!: set_bounds intro: same_bounds_trans)

lemma extend_heap_fails:
  assumes h: "heap_ok s bs fl" and n: "n \<le> MAX_HEAP - 8"
    and room: "mem_max_addr s < mem_brk s + align n + 16"
  shows "extend_heap s n = None"
proof -
  let ?a = "align n"
  have a: "?a \<le> MAX_HEAP" using align_props [of n] n by (auto simp: MAX_HEAP_def elim!: dvdE)
  have i: "to_int32 (u64 (?a + 8)) = int (?a + 8)"
    using a by (simp add: MAX_HEAP_def)
  show ?thesis
  proof (cases "mem_brk s + ?a + 8 \<le> mem_max_addr s")
    case False
    then have "mem_sbrk s (int (?a + 8)) = (sbrk_failed, s)" by (simp add: mem_sbrk_def)
    then show ?thesis
      by (simp add: extend_heap_def Let_def i WORD_SIZE_def block_prev_def block_prev_size_def
          sbrk_failed_access)
  next
    case True
    then have sb: "mem_sbrk s (int (?a + 8)) = (mem_brk s, s\<lparr>mem_brk := mem_brk s + ?a + 8\<rparr>)"
      by (simp add: mem_sbrk_def nat_add_distrib)
    have f: "mem_sbrk t 8 = (sbrk_failed, t)"
      if "block_set_size_and_allocated (s\<lparr>mem_brk := mem_brk s + ?a + 8\<rparr>) b m al = Some t" for b m al t
      using set_size_frame [OF that] room by (simp add: mem_sbrk_def same_bounds_def)
    show ?thesis
      using sb f
      by (auto simp: extend_heap_def Let_def i WORD_SIZE_def sbrk_failed_access
          split: Option.bind_split)
  qed
qed

section \<open>The contract of mm_malloc\<close>

lemma mm_malloc_found:
  assumes h: "heap_ok s bs fl" and n: "9 \<le> n" "n \<le> MAX_HEAP - 8"
    and f: "find (\<lambda>f. align n + 16 \<le> cells s f) fl = Some f"
  shows "\<exists>t bs' fl'. mm_malloc s n = Some (f + 8, t) \<and> served s bs (align n + 16) f t bs' fl'"
proof -
  have fin: "f \<in> set fl" "align n + 16 \<le> cells s f" using f by (auto simp: find_Some_iff)
  have "n \<le> MAX_HEAP" using n by simp
  note ap = align_props [OF this]
  have a: "8 dvd align n" "16 \<le> align n" using ap n by (auto elim!: dvdE)
  obtain xs ys where xs: "bs = xs @ (cells s f, False) # ys" "f = heap_base s + width xs"
    using block_split heap_ok_free(8) [OF h fin(1)] by blast
  obtain t bs' fl' where t: "take_block s (align n) f (cells s f) = Some t"
      "served s bs (align n + 16) f t bs' fl'"
    using take_block_ok [OF h [unfolded xs(1)] xs(2) a fin(2)] xs(1) by blast
  have "mm_malloc s n = Some (f + 8, t)"
    using check_flist_ok [OF h n(2)] f t by (simp add: mm_malloc_def)
  then show ?thesis using t(2) by blast
qed

lemma mm_malloc_extended:
  assumes h: "heap_ok s bs fl" and n: "9 \<le> n" "n \<le> MAX_HEAP - 8"
    and f: "find (\<lambda>f. align n + 16 \<le> cells s f) fl = None"
    and room: "mem_brk s + align n + 16 \<le> mem_max_addr s"
  shows "\<exists>t. mm_malloc s n = Some (mem_brk s, t) \<and>
    served s bs (align n + 16) (mem_brk s - 8) t (bs @ [(align n + 16, True)]) fl"
  using extend_heap_ok [OF h n(1) _ room] n check_flist_ok [OF h n(2)] f
  by (simp add: mm_malloc_def)

lemma mm_malloc_exhausted:
  assumes "heap_ok s bs fl" "n \<le> MAX_HEAP - 8"
    and "find (\<lambda>f. align n + 16 \<le> cells s f) fl = None"
    and "mem_max_addr s < mem_brk s + align n + 16"
  shows "mm_malloc s n = None"
  using extend_heap_fails [OF assms(1,2,4)] check_flist_ok [OF assms(1,2)] assms(3)
  by (simp add: mm_malloc_def)

lemma mm_malloc_served:
  assumes h: "heap_ok s bs fl" and n: "9 \<le> n" "n \<le> MAX_HEAP - 8"
    and room: "mem_brk s + align n + 16 \<le> mem_max_addr s"
  shows "\<exists>q t bs' fl'. mm_malloc s n = Some (q + 8, t) \<and> served s bs (align n + 16) q t bs' fl'"
proof (cases "find (\<lambda>f. align n + 16 \<le> cells s f) fl")
  case (Some f)
  then show ?thesis using mm_malloc_found [OF h n] by blast
next
  case None
  have "mem_brk s = mem_brk s - 8 + 8" using h by (simp add: heap_ok_def layout_def)
  then show ?thesis using mm_malloc_extended [OF h n None room] by metis
qed

lemma used_reads:
  assumes h: "heap_ok s bs fl" and u: "(u, k) \<in> used_blocks (heap_base s) bs"
  shows "block_size s u = Some k" "32 \<le> k" "8 dvd k" "8 dvd u" "k \<le> MAX_HEAP"
    "heap_base s \<le> u" "u + k + 8 \<le> mem_brk s" "mem_brk s \<le> mem_max_addr s"
proof -
  have l: "layout s bs" using h by (simp add: heap_ok_def)
  have "(u, k, True) \<in> set (blocks (heap_base s) bs)" using u by (simp add: used_blocks_def)
  note lb = layout_block [OF l this]
  have "in_region s u" using lb by (intro layout_region [OF l]) auto
  then show "block_size s u = Some k" using lb by (simp add: block_size_def)
  show "32 \<le> k" "8 dvd k" "8 dvd u" "k \<le> MAX_HEAP" "heap_base s \<le> u" "u + k + 8 \<le> mem_brk s"
    using lb by simp_all
  show "mem_brk s \<le> mem_max_addr s" using l by (simp add: layout_def)
qed

end
