(* ===== verification/MmFree.thy ===== *)
theory MmFree
  imports MmMalloc
begin

text \<open>
  \<open>mm_free\<close>: the block given back is merged with a free neighbour on either side and put at the
  head of the free list. While it is being merged the block is \<open>floating\<close>: it is marked free but
  not in the list.
\<close>

section \<open>Neighbours\<close>

lemma prev_reads:
  assumes l: "layout s (xs @ (k, al) # ys)" and u: "u = heap_base s + width xs"
  shows "xs = [] \<Longrightarrow> block_prev s u = Some (mem_start_brk s) \<and> block_allocated s (mem_start_brk s) = Some 1"
    "xs = zs @ [(j, a)] \<Longrightarrow> block_prev s u = Some (heap_base s + width zs) \<and>
       block_allocated s (heap_base s + width zs) = Some (of_bool a) \<and>
       block_size s (heap_base s + width zs) = Some j"
proof -
  have lu: "heap_base s \<le> u" "u + k + 8 \<le> mem_brk s" "8 dvd u" "8 dvd mem_start_brk s"
    using layout_block [OF l, of u k al] u l by (auto simp: layout_def)
  have r: "in_region s (u - 8)" "in_region s (mem_start_brk s)"
    using lu l by (auto intro!: layout_region [OF l])
  show "xs = [] \<Longrightarrow> block_prev s u = Some (mem_start_brk s) \<and> block_allocated s (mem_start_brk s) = Some 1"
    using l r u
    by (simp add: block_prev_def block_prev_size_def block_allocated_def layout_def clear0_def bit0_def)
  assume xs: "xs = zs @ [(j, a)]"
  let ?p = "heap_base s + width zs"
  have t: "cells s ?p = j + of_bool a" "cells s (?p + j - 8) = j + of_bool a" "8 dvd j" "32 \<le> j"
    "8 dvd ?p"
    using layout_tiles [OF l] layout_block(5) [OF l, of ?p j a] by (auto simp: xs tiles_append)
  moreover have "u = ?p + j" using u by (simp add: xs)
  moreover have "in_region s ?p" using lu t \<open>u = ?p + j\<close> by (intro layout_region [OF l]) auto
  ultimately show "block_prev s u = Some ?p \<and> block_allocated s ?p = Some (of_bool a) \<and> block_size s ?p = Some j"
    using r by (simp add: block_prev_def block_prev_size_def block_allocated_def block_size_def)
qed

lemma next_reads:
  assumes l: "layout s (xs @ (k, al) # ys)" and u: "u = heap_base s + width xs"
  shows "block_next s u = Some (u + k)" "block_size s u = Some k"
    "ys = [] \<Longrightarrow> block_allocated s (u + k) = Some 1"
    "ys = (j, a) # zs \<Longrightarrow> block_allocated s (u + k) = Some (of_bool a) \<and> block_size s (u + k) = Some j"
proof -
  have lu: "heap_base s \<le> u" "u + k + 8 \<le> mem_brk s" "8 dvd u" "8 dvd k" "cells s u = k + of_bool al"
    using layout_block [OF l, of u k al] u l by (auto simp: layout_def)
  have r: "in_region s u" "in_region s (u + k)"
    using lu l by (auto intro!: layout_region [OF l])
  show "block_next s u = Some (u + k)" "block_size s u = Some k"
    using r lu by (simp_all add: block_next_def block_size_def)
  show "ys = [] \<Longrightarrow> block_allocated s (u + k) = Some 1"
  proof -
    assume "ys = []"
    then have "mem_brk s - 8 = u + k" using u layout_brk [OF l] by simp
    then have "cells s (u + k) = 9" using l by (simp add: layout_def)
    then show "block_allocated s (u + k) = Some 1" using r by (simp add: block_allocated_def bit0_def)
  qed
  assume ys: "ys = (j, a) # zs"
  then have "cells s (u + k) = j + of_bool a" "8 dvd j"
    using layout_tiles [OF l] u by (auto simp: tiles_append)
  then show "block_allocated s (u + k) = Some (of_bool a) \<and> block_size s (u + k) = Some j"
    using r by (simp add: block_allocated_def block_size_def)
qed

section \<open>Merging two free blocks\<close>

lemma merge_blocks:
  assumes l: "layout s (xs @ (j, False) # (k, False) # ys)" and fr: "free_ring s fl"
    and sub: "set fl \<subseteq> free_blocks (heap_base s) (xs @ (j, False) # (k, False) # ys)"
    and b: "b = heap_base s + width xs" and x: "x \<in> set fl"
    and out: "b \<notin> set (remove1 x fl)" "b + j \<notin> set (remove1 x fl)"
  obtains s1 t where "pull_free_block s x = Some s1"
    "block_size s1 b = Some j" "block_size s1 (b + j) = Some k"
    "block_set_size_and_allocated s1 b (j + k) 0 = Some t"
    "layout t (xs @ (j + k, False) # ys)" "free_ring t (remove1 x fl)"
    "mem_start_brk t = mem_start_brk s \<and> mem_brk t = mem_brk s"
    "used_same s t (used_blocks (heap_base s) (xs @ (j, False) # (k, False) # ys))"
proof -
  let ?bs = "xs @ (j, False) # (k, False) # ys" and ?fl = "remove1 x fl"
  obtain c0 f0 where p: "pull_free_block s x = Some (s\<lparr>cells := c0, flist_first := f0\<rparr>)"
      "layout (s\<lparr>cells := c0, flist_first := f0\<rparr>) ?bs"
      "free_ring (s\<lparr>cells := c0, flist_first := f0\<rparr>) ?fl"
      "\<And>x. x \<notin> link_words fl \<Longrightarrow> c0 x = cells s x"
    using pull_free_block_ok [OF l sub fr x] by blast
  define s1 where "s1 = s\<lparr>cells := c0, flist_first := f0\<rparr>"
  have p': "pull_free_block s x = Some s1" "layout s1 ?bs" "free_ring s1 ?fl"
    using p by (simp_all add: s1_def)
  have hb: "mem_start_brk s1 = mem_start_brk s" and mb: "mem_brk s1 = mem_brk s" by (simp_all add: s1_def)
  have b1: "b = heap_base s1 + width xs" using b hb by simp
  have u1: "used_same s s1 (used_blocks (heap_base s) ?bs)"
    by (rule used_same_links [OF l sub]) (use p(4) in \<open>auto simp: s1_def\<close>)
  have bb: "(b, j, False) \<in> set (blocks (heap_base s1) ?bs)" "(b + j, k, False) \<in> set (blocks (heap_base s1) ?bs)"
    using b1 by simp_all
  note lb = layout_block [OF p'(2) bb(1)] and lk = layout_block [OF p'(2) bb(2)]
  define c where "c = (cells s1)(b := j + k, b + (j + k) - 8 := j + k)"
  define t where "t = s1\<lparr>cells := c\<rparr>"
  have same: "c y = cells s1 y" if "y < b \<or> b + j + k \<le> y" for y
    using that lb lk by (auto simp: c_def)
  have reg: "in_region s1 b" "in_region s1 (b + (j + k) - 8)"
    using lb lk by (auto intro!: layout_region [OF p'(2)] dvd_diff_nat)
  have "block_set_size_and_allocated s1 b (j + k) 0 = Some t"
    using reg lb lk by (subst set_size_and_allocated) (auto simp: c_def t_def)
  moreover have "layout t (xs @ [(j + k, False)] @ ys)"
    unfolding t_def
    by (rule layout_retile [where zs = "[(j, False), (k, False)]"])
      (use p'(2) lb lk b1 same in \<open>auto simp: c_def add.assoc\<close>)
  moreover have sub1: "set ?fl \<subseteq> free_blocks (heap_base s1) ?bs"
    using sub set_remove1_subset [of x fl] hb by auto
  have "free_ring t ?fl"
    unfolding t_def
  proof (rule free_ring_frame [OF p'(3)], rule same)
    fix y assume "y \<in> link_words ?fl"
    with link_words_apart [OF p'(2) sub1 bb(1) out(1)] link_words_apart [OF p'(2) sub1 bb(2) out(2)]
    show "y < b \<or> b + j + k \<le> y" by force
  qed
  moreover have "used_same s1 t (used_blocks (heap_base s) ?bs)"
  proof -
    have "cells t y = cells s1 y" if "(u, n) \<in> used_blocks (heap_base s1) ?bs" "u \<le> y" "y < u + n" for u n y
      using used_outside_free [OF p'(2) bb(1) that] used_outside_free [OF p'(2) bb(2) that] same [of y]
      by (auto simp: t_def)
    then show ?thesis by (auto simp: used_same_def hb)
  qed
  moreover have "block_size s1 b = Some j" "block_size s1 (b + j) = Some k"
    using next_reads(2,4) [OF p'(2) b1] by auto
  ultimately show thesis
    using that [of s1 t] p'(1) u1 used_same_trans by (auto simp: t_def hb mb)
qed

section \<open>Coalescing\<close>

definition floating :: "mm \<Rightarrow> (nat \<times> bool) list \<Rightarrow> nat \<Rightarrow> (nat \<times> bool) list \<Rightarrow> nat list \<Rightarrow> bool" where
  "floating s xs k ys fl \<longleftrightarrow>
     layout s (xs @ (k, False) # ys) \<and> free_ring s fl \<and>
     set fl = free_blocks (heap_base s) xs \<union> free_blocks (heap_base s + width xs + k) ys \<and>
     no_adjacent_free xs \<and> no_adjacent_free ys"

definition prev_is_used :: "(nat \<times> bool) list \<Rightarrow> bool" where
  "prev_is_used xs \<longleftrightarrow> (xs \<noteq> [] \<longrightarrow> snd (last xs))"

definition next_is_used :: "(nat \<times> bool) list \<Rightarrow> bool" where
  "next_is_used ys \<longleftrightarrow> (ys \<noteq> [] \<longrightarrow> snd (hd ys))"

lemma coalesce_prev_stops:
  assumes "layout s (xs @ (k, al) # ys)" "prev_is_used xs"
  shows "block_prev s (heap_base s + width xs) = Some p \<Longrightarrow> coalesce_prev s b n p = Some (b, s)"
proof (cases xs rule: rev_cases)
  case Nil
  then show "block_prev s (heap_base s + width xs) = Some p \<Longrightarrow> ?thesis"
    using prev_reads(1) [OF assms(1) refl] by (subst coalesce_prev.simps) auto
next
  case (snoc zs z)
  then show "block_prev s (heap_base s + width xs) = Some p \<Longrightarrow> ?thesis"
    using prev_reads(2) [OF assms(1) refl, of zs "fst z" "snd z"] assms(2)
    by (subst coalesce_prev.simps) (auto simp: prev_is_used_def)
qed

lemma coalesce_next_stops:
  assumes "layout s (xs @ (k, al) # ys)" "next_is_used ys" "p = heap_base s + width xs + k"
  shows "coalesce_next s b n p = Some s"
proof (cases ys)
  case Nil
  then show ?thesis
    using next_reads(3) [OF assms(1) refl] assms(3) by (subst coalesce_next.simps) auto
next
  case (Cons z zs)
  then show ?thesis
    using next_reads(4) [OF assms(1) refl, of "fst z" "snd z" zs] assms(2,3)
    by (subst coalesce_next.simps) (auto simp: next_is_used_def)
qed

lemma coalesce_prev_ok:
  assumes f: "floating s xs k ys fl" and u: "u = heap_base s + width xs"
    and p: "block_prev s u = Some p"
  shows "\<exists>t xs' k' fl'. coalesce_prev s u k p = Some (heap_base s + width xs', t) \<and>
    floating t xs' k' ys fl' \<and> prev_is_used xs' \<and> mem_start_brk t = mem_start_brk s \<and> mem_brk t = mem_brk s \<and>
    width xs' + k' = width xs + k \<and> used_blocks (heap_base s) xs' = used_blocks (heap_base s) xs \<and>
    used_same s t (used_blocks (heap_base s) (xs @ (k, False) # ys))"
proof (cases "prev_is_used xs")
  case True
  have l: "layout s (xs @ (k, False) # ys)" using f by (simp add: floating_def)
  have "coalesce_prev s u k p = Some (u, s)" using coalesce_prev_stops [OF l True] p u by simp
  then show ?thesis using True f u by (auto simp: used_same_def)
next
  case False
  then obtain zs j where xs: "xs = zs @ [(j, False)]"
    by (cases xs rule: rev_cases) (auto simp: prev_is_used_def)
  let ?b = "heap_base s + width zs"
  have l: "layout s (zs @ (j, False) # (k, False) # ys)" and fr: "free_ring s fl"
    and fl: "set fl = insert ?b (free_blocks (heap_base s) zs \<union> free_blocks (?b + j + k) ys)"
    and na: "no_adjacent_free zs" "prev_is_used zs" "no_adjacent_free ys"
    using f by (auto simp: floating_def xs no_adjacent_append prev_is_used_def add.assoc)
  have b: "?b \<in> set fl" using fl by simp
  have d: "distinct fl" using fr by (simp add: free_ring_def)
  have o1: "?b \<notin> free_blocks (heap_base s) zs \<union> free_blocks (?b + j) ((k, False) # ys)"
    by (rule free_addr_once [OF l refl])
  have o2: "?b + j \<notin> free_blocks (heap_base s) (zs @ [(j, False)]) \<union> free_blocks (?b + j + k) ys"
    using free_addr_once [of s "zs @ [(j, False)]" k ys "?b + j"] l by (simp add: add.assoc)
  have fl': "set (remove1 ?b fl) = free_blocks (heap_base s) zs \<union> free_blocks (?b + j + k) ys"
    using d fl o1 by auto
  have sub: "set fl \<subseteq> free_blocks (heap_base s) (zs @ (j, False) # (k, False) # ys)"
    unfolding fl by auto
  obtain s1 t where m: "pull_free_block s ?b = Some s1" "block_size s1 ?b = Some j"
      "block_set_size_and_allocated s1 ?b (j + k) 0 = Some t"
      "layout t (zs @ (j + k, False) # ys)" "free_ring t (remove1 ?b fl)"
      "mem_start_brk t = mem_start_brk s \<and> mem_brk t = mem_brk s"
      "used_same s t (used_blocks (heap_base s) (zs @ (j, False) # (k, False) # ys))"
    by (rule merge_blocks [OF l fr sub refl b]) (use fl' o1 o2 in auto)
  have fa: "block_allocated s ?b = Some 0" "p = ?b"
    using prev_reads(2) [of s xs k False ys u zs j False] l p u xs by auto
  have jk: "j + k \<le> MAX_HEAP" using layout_block(7) [OF m(4), of ?b "j + k" False] m(6) by simp
  obtain p' where p': "block_prev t ?b = Some p'"
    using prev_reads [OF m(4) refl] m(6) by (cases zs rule: rev_cases) auto
  have "coalesce_prev t ?b (j + k) p' = Some (?b, t)"
    using coalesce_prev_stops [OF m(4) na(2)] p' m(6) by simp
  moreover have "block_size t ?b = Some (j + k)" using next_reads(2) [OF m(4) refl] m(6) by simp
  ultimately have "coalesce_prev s u k p = Some (?b, t)"
    using m(1-3) fa p' jk by (subst coalesce_prev.simps) simp
  moreover have "floating t zs (j + k) ys (remove1 ?b fl)"
    using m(4,5,6) fl' na by (simp add: floating_def add.assoc)
  ultimately show ?thesis
    using m(6,7) na(2) by (intro exI [of _ t] exI [of _ zs] exI [of _ "j + k"]) (auto simp: xs)
qed

lemma coalesce_next_ok:
  assumes f: "floating s xs k ys fl" and u: "u = heap_base s + width xs"
  shows "\<exists>t ys' k' fl'. coalesce_next s u k (u + k) = Some t \<and>
    floating t xs k' ys' fl' \<and> next_is_used ys' \<and> mem_start_brk t = mem_start_brk s \<and> mem_brk t = mem_brk s \<and>
    used_blocks (u + k') ys' = used_blocks (u + k) ys \<and>
    used_same s t (used_blocks (heap_base s) (xs @ (k, False) # ys))"
proof (cases "next_is_used ys")
  case True
  have l: "layout s (xs @ (k, False) # ys)" using f by (simp add: floating_def)
  have "coalesce_next s u k (u + k) = Some s" using coalesce_next_stops [OF l True] u by simp
  then show ?thesis using True f u by (auto simp: used_same_def)
next
  case False
  then obtain zs j where ys: "ys = (j, False) # zs"
    by (cases ys) (auto simp: next_is_used_def)
  have l: "layout s (xs @ (k, False) # (j, False) # zs)" and fr: "free_ring s fl"
    and fl: "set fl = insert (u + k) (free_blocks (heap_base s) xs \<union> free_blocks (u + k + j) zs)"
    and na: "no_adjacent_free xs" "next_is_used zs" "no_adjacent_free zs"
    using f u by (auto simp: floating_def ys next_is_used_def)
  have b: "u + k \<in> set fl" using fl by simp
  have d: "distinct fl" using fr by (simp add: free_ring_def)
  have o1: "u \<notin> free_blocks (heap_base s) xs \<union> free_blocks (u + k) ((j, False) # zs)"
    by (rule free_addr_once [OF l u])
  have o2: "u + k \<notin> free_blocks (heap_base s) (xs @ [(k, False)]) \<union> free_blocks (u + k + j) zs"
    using free_addr_once [of s "xs @ [(k, False)]" j zs "u + k"] l u by (simp add: add.assoc)
  have fl': "set (remove1 (u + k) fl) = free_blocks (heap_base s) xs \<union> free_blocks (u + k + j) zs"
    using d fl o2 by auto
  have sub: "set fl \<subseteq> free_blocks (heap_base s) (xs @ (k, False) # (j, False) # zs)"
    unfolding fl using u by auto
  obtain s1 t where m: "pull_free_block s (u + k) = Some s1" "block_size s1 (u + k) = Some j"
      "block_set_size_and_allocated s1 u (k + j) 0 = Some t"
      "layout t (xs @ (k + j, False) # zs)" "free_ring t (remove1 (u + k) fl)"
      "mem_start_brk t = mem_start_brk s \<and> mem_brk t = mem_brk s"
      "used_same s t (used_blocks (heap_base s) (xs @ (k, False) # (j, False) # zs))"
    by (rule merge_blocks [OF l fr sub u b]) (use fl' o1 o2 in auto)
  have ut: "u = heap_base t + width xs" using u m(6) by simp
  have fa: "block_allocated s (u + k) = Some 0"
    using next_reads(4) [OF l u] by auto
  have jk: "k + j \<le> MAX_HEAP" using layout_block(7) [OF m(4), of u "k + j" False] ut by simp
  have "coalesce_next t u (k + j) (u + (k + j)) = Some t"
    using coalesce_next_stops [OF m(4) na(2)] ut by simp
  then have "coalesce_next s u k (u + k) = Some t"
    using m(1-3) fa jk next_reads(1,2) [OF m(4) ut]
    by (subst coalesce_next.simps) (simp add: add.commute [of j])
  moreover have "floating t xs (k + j) zs (remove1 (u + k) fl)"
    using m(4,5,6) fl' na u by (simp add: floating_def add.assoc)
  ultimately show ?thesis
    using m(6,7) na(2)
    by (intro exI [of _ t] exI [of _ zs] exI [of _ "k + j"]) (auto simp: ys add.assoc)
qed

section \<open>The contract of mm_free\<close>

lemma clear_allocated:
  assumes l: "layout s (xs @ (k, True) # ys)" and u: "u = heap_base s + width xs"
    and fr: "free_ring s fl" and sub: "set fl \<subseteq> free_blocks (heap_base s) (xs @ (k, True) # ys)"
  obtains t where "block_set_allocated s u 0 = Some t" "layout t (xs @ (k, False) # ys)"
    "free_ring t fl" "mem_start_brk t = mem_start_brk s \<and> mem_brk t = mem_brk s"
    "\<And>x. x < u \<or> u + k \<le> x \<Longrightarrow> cells t x = cells s x"
proof -
  let ?bs = "xs @ (k, True) # ys"
  have bb: "(u, k, True) \<in> set (blocks (heap_base s) ?bs)" using u by simp
  note lb = layout_block [OF l bb]
  have endc: "cells s (u + k - 8) = k + 1" using layout_tiles [OF l] u by (simp add: tiles_append)
  define c where "c = (cells s)(u := k, u + k - 8 := k)"
  define t where "t = s\<lparr>cells := c\<rparr>"
  have same: "c y = cells s y" if "y < u \<or> u + k \<le> y" for y
    using that lb by (auto simp: c_def)
  have reg: "in_region s u" "in_region s (u + k - 8)"
    using lb by (auto intro!: layout_region [OF l] dvd_diff_nat)
  have tag: "u + 8 + 8 * (k div 8 - 2) = u + k - 8" using end_tag_index [of k 0 u] lb by simp
  have ne: "u + k - 8 \<noteq> u" using lb by simp
  have "block_set_allocated s u 0 = Some t"
    using reg lb tag endc ne
    by (simp add: block_set_allocated_def block_end_tag_def WORD_SIZE_def c_def t_def Let_def)
  moreover have "layout t (xs @ [(k, False)] @ ys)"
    unfolding t_def
    by (rule layout_retile [where zs = "[(k, True)]"]) (use l lb u same in \<open>auto simp: c_def\<close>)
  moreover have "free_ring t fl"
    unfolding t_def
  proof (rule free_ring_frame [OF fr], rule same)
    have "u \<notin> set fl"
    proof
      assume "u \<in> set fl"
      then obtain n where "(u, n, False) \<in> set (blocks (heap_base s) ?bs)"
        using sub unfolding free_blocks_def by blast
      then show False using block_unique [OF layout_tiles [OF l] bb] by blast
    qed
    then show "y < u \<or> u + k \<le> y" if "y \<in> link_words fl" for y
      using link_words_apart [OF l sub bb _ that] by blast
  qed
  ultimately show thesis using that same by (simp add: t_def)
qed

lemma insert_floating:
  assumes f: "floating s xs k ys fl" and u: "u = heap_base s + width xs"
    and p: "prev_is_used xs" "next_is_used ys"
  obtains t where "insert_free_block s u = Some t" "heap_ok t (xs @ (k, False) # ys) (u # fl)"
    "mem_start_brk t = mem_start_brk s \<and> mem_brk t = mem_brk s"
    "used_same s t (used_blocks (heap_base s) (xs @ (k, False) # ys))"
proof -
  let ?bs = "xs @ (k, False) # ys"
  have l: "layout s ?bs" and fr: "free_ring s fl"
    and fl: "set fl = free_blocks (heap_base s) xs \<union> free_blocks (u + k) ys"
    and na: "no_adjacent_free xs" "no_adjacent_free ys"
    using f u by (auto simp: floating_def)
  have new: "u \<notin> set fl" using free_addr_once [OF l u] fl by simp
  have sub: "set (u # fl) \<subseteq> free_blocks (heap_base s) ?bs" using fl u by auto
  obtain c where ins: "insert_free_block s u = Some (s\<lparr>cells := c, flist_first := u\<rparr>)"
      "layout (s\<lparr>cells := c, flist_first := u\<rparr>) ?bs"
      "free_ring (s\<lparr>cells := c, flist_first := u\<rparr>) (u # fl)"
      "\<And>a. a \<notin> link_words (u # fl) \<Longrightarrow> c a = cells s a"
    using insert_free_block_ok [OF l sub fr new] by blast
  define t where "t = s\<lparr>cells := c, flist_first := u\<rparr>"
  have hbt: "mem_start_brk t = mem_start_brk s" and mbt: "mem_brk t = mem_brk s" by (simp_all add: t_def)
  have "set (u # fl) = free_blocks (heap_base s) ?bs" using fl u by auto
  then have "heap_ok t ?bs (u # fl)"
    using ins(2,3) na p unfolding heap_ok_def hbt
    by (auto simp: t_def no_adjacent_append prev_is_used_def next_is_used_def)
  moreover have "used_same s t (used_blocks (heap_base s) ?bs)"
    by (rule used_same_links [OF l sub]) (use ins(4) in \<open>auto simp: t_def\<close>)
  ultimately show thesis using that ins(1) hbt mbt by (simp add: t_def)
qed

text \<open>A block is released: \<open>t\<close> is \<open>s\<close> with the block \<open>(u, k)\<close> no longer in use.\<close>

definition released :: "mm \<Rightarrow> (nat \<times> bool) list \<Rightarrow> nat \<Rightarrow> nat \<Rightarrow> mm \<Rightarrow> (nat \<times> bool) list \<Rightarrow> nat list \<Rightarrow> bool" where
  "released s bs u k t bs' fl' \<longleftrightarrow>
     heap_ok t bs' fl' \<and> mem_start_brk t = mem_start_brk s \<and> mem_brk t = mem_brk s \<and>
     used_same s t (used_blocks (heap_base s) bs - {(u, k)}) \<and>
     used_blocks (heap_base s) bs' = used_blocks (heap_base s) bs - {(u, k)}"

lemma used_same_mono: "used_same s t U \<Longrightarrow> V \<subseteq> U \<Longrightarrow> used_same s t V"
  by (auto simp: used_same_def)

lemma mm_free_released:
  assumes h: "heap_ok s bs fl" and uk: "(u, k) \<in> used_blocks (heap_base s) bs"
  shows "\<exists>t bs' fl'. mm_free s (u + 8) = Some t \<and> released s bs u k t bs' fl'"
proof -
  have l: "layout s bs" and fr: "free_ring s fl" and fl: "set fl = free_blocks (heap_base s) bs"
    and na: "no_adjacent_free bs"
    using h unfolding heap_ok_def by blast+
  have us: "(u, k, True) \<in> set (blocks (heap_base s) bs)" using uk by (simp add: used_blocks_def)
  obtain xs ys where xs: "bs = xs @ (k, True) # ys" and u: "u = heap_base s + width xs"
    using block_split [OF us] by blast
  note l' = l [unfolded xs]
  have sub: "set fl \<subseteq> free_blocks (heap_base s) (xs @ (k, True) # ys)" using fl xs by blast
  obtain s1 where c: "block_set_allocated s u 0 = Some s1" "layout s1 (xs @ (k, False) # ys)"
      "free_ring s1 fl" "mem_start_brk s1 = mem_start_brk s \<and> mem_brk s1 = mem_brk s"
      "\<And>x. x < u \<or> u + k \<le> x \<Longrightarrow> cells s1 x = cells s x"
    using clear_allocated [OF l' u fr sub] by blast
  have u1: "u = heap_base s1 + width xs" using u c(4) by simp
  have f1: "floating s1 xs k ys fl"
    using c na fl unfolding floating_def xs c(4) by (auto simp: no_adjacent_append)
  let ?U = "used_blocks (heap_base s) xs \<union> used_blocks (u + k) ys"
  have "(u, k) \<notin> ?U" by (rule used_addr_once [OF l' u])
  then have U: "used_blocks (heap_base s) bs - {(u, k)} = ?U" using u by (auto simp: xs)
  have "used_same s s1 ?U"
  proof -
    have "cells s1 y = cells s y" if "(v, n) \<in> used_blocks (heap_base s1) (xs @ (k, False) # ys)" "v \<le> y" "y < v + n" for v n y
      using used_outside_free [OF c(2) _ that, of u k] u1 c(5) [of y] by auto
    then show ?thesis using u1 c(4) by (auto simp: used_same_def)
  qed
  obtain p where p: "block_prev s1 u = Some p"
    using prev_reads [OF c(2) u1] by (cases xs rule: rev_cases) auto
  obtain s2 xs' k' fl' where c2: "coalesce_prev s1 u k p = Some (heap_base s1 + width xs', s2)"
      "floating s2 xs' k' ys fl'" "prev_is_used xs'" "mem_start_brk s2 = mem_start_brk s1 \<and> mem_brk s2 = mem_brk s1"
      "width xs' + k' = width xs + k" "used_blocks (heap_base s1) xs' = used_blocks (heap_base s1) xs"
      "used_same s1 s2 (used_blocks (heap_base s1) (xs @ (k, False) # ys))"
    using coalesce_prev_ok [OF f1 u1 p] by blast
  define b where "b = heap_base s2 + width xs'"
  have bk: "b + k' = u + k" using c2(4,5) u1 by (simp add: b_def)
  have l2: "layout s2 (xs' @ (k', False) # ys)" using c2(2) by (simp add: floating_def)
  obtain s3 ys' k'' fl'' where c3: "coalesce_next s2 b k' (b + k') = Some s3"
      "floating s3 xs' k'' ys' fl''" "next_is_used ys'" "mem_start_brk s3 = mem_start_brk s2 \<and> mem_brk s3 = mem_brk s2"
      "used_blocks (b + k'') ys' = used_blocks (b + k') ys"
      "used_same s2 s3 (used_blocks (heap_base s2) (xs' @ (k', False) # ys))"
    using coalesce_next_ok [OF c2(2) b_def] by blast
  have b3: "b = heap_base s3 + width xs'" using c3(4) by (simp add: b_def)
  obtain t where i: "insert_free_block s3 b = Some t" "heap_ok t (xs' @ (k'', False) # ys') (b # fl'')"
    "mem_start_brk t = mem_start_brk s3 \<and> mem_brk t = mem_brk s3"
    "used_same s3 t (used_blocks (heap_base s3) (xs' @ (k'', False) # ys'))"
    by (rule insert_floating [OF c3(2) b3 c2(3) c3(3)])
  have "mm_free s (u + 8) = Some t"
    using next_reads(2) [OF l' u] c(1) p c2(1,4) next_reads(1,2) [OF l2 b_def] c3(1) i(1)
    by (simp add: mm_free_def payload_to_block_def b_def)
  moreover have eqs: "used_blocks (heap_base s1) (xs @ (k, False) # ys) = ?U"
      "used_blocks (heap_base s2) (xs' @ (k', False) # ys) = ?U"
      "used_blocks (heap_base s3) (xs' @ (k'', False) # ys') = ?U"
    using c2(4,6) c3(4,5) c(4) bk u1 b3 by (auto simp: add.assoc b_def)
  moreover have "used_same s t ?U"
    using \<open>used_same s s1 ?U\<close> c2(7) c3(6) i(4) unfolding eqs by (meson used_same_trans)
  ultimately show ?thesis
    using i(2,3) U c3(4) c2(4) c(4) unfolding released_def by (intro exI conjI) (assumption | simp)+
qed

end
