(* ===== verification/MmRealloc.thy ===== *)
theory MmRealloc
  imports MmCheck
begin

text \<open>
  \<open>mm_realloc\<close>: the cases in which it keeps the contract of \<open>realloc\<close> (the block moves or
  stays, its payload is preserved up to the smaller size, every other block is untouched), and
  the two ranges of sizes in which it does not.
\<close>

lemma dvd8_le: "8 dvd a \<Longrightarrow> 8 dvd b \<Longrightarrow> a < b + 8 \<Longrightarrow> a \<le> b" for a b :: nat
  by (elim dvdE) simp

section \<open>Copying words\<close>

lemma load_words_map:
  "\<forall>i<n. in_region s (a + 8 * i) \<Longrightarrow>
   load_words s a n = Some (map (\<lambda>i. cells s (a + 8 * i)) [0..<n])"
proof (induction n arbitrary: a)
  case (Suc n)
  have "in_region s (a + 8 + 8 * i)" if "i < n" for i
    using Suc.prems that by (metis Suc_mono add.assoc mult_Suc_right)
  then have "load_words s (a + 8) n = Some (map (\<lambda>i. cells s (a + 8 + 8 * i)) [0..<n])"
    by (intro Suc.IH) simp
  moreover have "map (\<lambda>i. cells s (a + 8 * i)) [0..<Suc n] =
      cells s a # map (\<lambda>i. cells s (a + 8 + 8 * i)) [0..<n]"
    by (simp only: upt_conv_Cons [OF zero_less_Suc] map_Suc_upt [symmetric] list.map map_map) (simp add: comp_def add.assoc)
  ultimately show ?case using Suc.prems by auto
qed simp

lemma store_words_ok:
  "\<forall>i<length vs. in_region s (a + 8 * i) \<Longrightarrow>
   \<exists>c. store_words s a vs = Some (s\<lparr>cells := c\<rparr>) \<and>
     (\<forall>i<length vs. c (a + 8 * i) = vs ! i) \<and>
     (\<forall>x. x < a \<or> a + 8 * length vs \<le> x \<longrightarrow> c x = cells s x)"
proof (induction vs arbitrary: s a)
  case Nil
  show ?case by (intro exI [of _ "cells s"]) simp
next
  case (Cons v vs)
  let ?s1 = "s\<lparr>cells := (cells s)(a := v)\<rparr>"
  have "in_region ?s1 (a + 8 + 8 * i)" if "i < length vs" for i
    using Cons.prems that by (auto dest: spec [of _ "Suc i"] simp: add.assoc)
  then obtain c where c: "store_words ?s1 (a + 8) vs = Some (?s1\<lparr>cells := c\<rparr>)"
      "\<forall>i<length vs. c (a + 8 + 8 * i) = vs ! i"
      "\<forall>x. x < a + 8 \<or> a + 8 + 8 * length vs \<le> x \<longrightarrow> c x = cells ?s1 x"
    using Cons.IH [of ?s1 "a + 8"] by blast
  have "in_region s a" using Cons.prems by (auto dest: spec [of _ 0])
  moreover have "c (a + 8 * i) = (v # vs) ! i" if "i < length (v # vs)" for i
    using c(2,3) that by (cases i) (auto simp: add.assoc)
  ultimately show ?case using c(1,3) by (intro exI [of _ c]) auto
qed

text \<open>Overwriting a block in use, then restoring its tags.\<close>

lemma refill_used:
  assumes h: "heap_ok s bs fl" and g: "(g, m) \<in> used_blocks (heap_base s) bs"
    and len: "8 * length vs \<le> m"
  obtains s1 c where "store_words s g vs = Some s1"
    "block_set_size_and_allocated s1 g m 1 = Some (s\<lparr>cells := c\<rparr>)" "heap_ok (s\<lparr>cells := c\<rparr>) bs fl"
    "\<And>i. 0 < i \<Longrightarrow> i < length vs \<Longrightarrow> 8 * i + 8 < m \<Longrightarrow> c (g + 8 * i) = vs ! i"
    "\<And>x. x < g \<or> g + m \<le> x \<Longrightarrow> c x = cells s x"
proof -
  have l: "layout s bs" and fr: "free_ring s fl" and fl: "set fl = free_blocks (heap_base s) bs"
    and na: "no_adjacent_free bs"
    using h unfolding heap_ok_def by blast+
  have gb: "(g, m, True) \<in> set (blocks (heap_base s) bs)" using g by (simp add: used_blocks_def)
  obtain xs ys where xs: "bs = xs @ (m, True) # ys" and gx: "g = heap_base s + width xs"
    using block_split [OF gb] by blast
  note lb = layout_block [OF l gb]
  have "in_region s (g + 8 * i)" if "i < length vs" for i
    using lb len that by (intro layout_region [OF l]) auto
  then obtain c1 where c1: "store_words s g vs = Some (s\<lparr>cells := c1\<rparr>)"
      "\<forall>i<length vs. c1 (g + 8 * i) = vs ! i"
      "\<forall>x. x < g \<or> g + 8 * length vs \<le> x \<longrightarrow> c1 x = cells s x"
    using store_words_ok [of vs s g] by blast
  define c where "c = c1(g := m + 1, g + m - 8 := m + 1)"
  have same: "c y = cells s y" if "y < g \<or> g + m \<le> y" for y
    using that lb c1(3) len by (auto simp: c_def)
  have reg: "in_region s g" "in_region s (g + m - 8)"
    using lb by (auto intro!: layout_region [OF l] dvd_diff_nat)
  have "block_set_size_and_allocated (s\<lparr>cells := c1\<rparr>) g m 1 = Some (s\<lparr>cells := c\<rparr>)"
    using reg lb by (subst set_size_and_allocated) (auto simp: c_def)
  moreover have "layout (s\<lparr>cells := c\<rparr>) (xs @ [(m, True)] @ ys)"
    by (rule layout_retile [where zs = "[(m, True)]"]) (use l xs lb gx same in \<open>auto simp: c_def\<close>)
  moreover have "free_ring (s\<lparr>cells := c\<rparr>) fl"
  proof (rule free_ring_frame [OF fr], rule same)
    have "g \<notin> set fl"
      unfolding fl free_blocks_def using block_unique [OF layout_tiles [OF l] gb] by blast
    then show "y < g \<or> g + m \<le> y" if "y \<in> link_words fl" for y
      using link_words_apart [OF l _ gb _ that] fl by blast
  qed
  ultimately have "heap_ok (s\<lparr>cells := c\<rparr>) bs fl"
    using fl na xs by (simp add: heap_ok_def)
  moreover have "c (g + 8 * i) = vs ! i" if "0 < i" "i < length vs" "8 * i + 8 < m" for i
    using that c1(2) by (auto simp: c_def)
  ultimately show thesis
    using that c1(1) \<open>block_set_size_and_allocated (s\<lparr>cells := c1\<rparr>) g m 1 = Some (s\<lparr>cells := c\<rparr>)\<close> same
    by blast
qed

section \<open>The contract of mm_realloc\<close>

text \<open>\<open>(u, k)\<close> gave way to \<open>(q, m)\<close>, which holds \<open>n\<close> bytes and the words of the old payload that fit.\<close>

definition reallocated ::
  "mm \<Rightarrow> (nat \<times> bool) list \<Rightarrow> nat \<Rightarrow> nat \<Rightarrow> nat \<Rightarrow> nat \<Rightarrow> mm \<Rightarrow> (nat \<times> bool) list \<Rightarrow> nat list \<Rightarrow> bool" where
  "reallocated s bs u k n q t bs' fl' \<longleftrightarrow>
     heap_ok t bs' fl' \<and> mem_start_brk t = mem_start_brk s \<and>
     mem_brk s \<le> mem_brk t \<and> mem_brk t \<le> mem_brk s + align n + 16 \<and>
     used_same s t (used_blocks (heap_base s) bs - {(u, k)}) \<and>
     (\<exists>m. n + 16 \<le> m \<and> m < n + 56 \<and> (q, m) \<notin> used_blocks (heap_base s) bs - {(u, k)} \<and>
        used_blocks (heap_base s) bs' = insert (q, m) (used_blocks (heap_base s) bs - {(u, k)}) \<and>
        (\<forall>i. 0 < i \<and> 8 * i + 8 < k \<and> 8 * i + 8 < m \<longrightarrow> cells t (q + 8 * i) = cells s (u + 8 * i)))"

lemma load_block:
  assumes "heap_ok s bs fl" "heap_base s \<le> u" "8 dvd u" "u + 8 * n \<le> mem_max_addr s"
  shows "load_words s u n = Some (map (\<lambda>i. cells s (u + 8 * i)) [0..<n])"
  using assms by (intro load_words_map) (auto simp: in_region_def heap_ok_def layout_def)

lemma used_apart:
  assumes "heap_ok s bs fl" "(u, k) \<in> used_blocks (heap_base s) bs" "(v, j) \<in> used_blocks (heap_base s) bs"
    and "(u, k) \<noteq> (v, j)"
  shows "u + k \<le> v \<or> v + j \<le> u"
proof -
  have t: "tiles (cells s) (heap_base s) bs (mem_brk s - 8)"
    using assms(1) by (simp add: heap_ok_def layout_def)
  then show ?thesis
    using blocks_disjoint [OF t, of u k True v j True] block_unique [OF t, of u k True j True] assms(2-4)
    by (auto simp: used_blocks_def)
qed

lemma used_same_outside:
  assumes h: "heap_ok s bs fl" and g: "(g, m) \<in> used_blocks (heap_base s) bs"
    and same: "\<And>x. x < g \<or> g + m \<le> x \<Longrightarrow> cells t x = cells s x"
    and U: "U \<subseteq> used_blocks (heap_base s) bs - {(g, m)}"
  shows "used_same s t U"
  unfolding used_same_def
proof (intro allI impI)
  fix v j x assume a: "(v, j) \<in> U \<and> v \<le> x \<and> x < v + j"
  then have "v + j \<le> g \<or> g + m \<le> v" using used_apart [OF h _ g, of v j] U by auto
  then show "cells t x = cells s x" using a by (intro same) auto
qed

lemma realloc_grow:
  assumes h: "heap_ok s bs fl" and uk: "(u, k) \<in> used_blocks (heap_base s) bs"
    and n: "9 \<le> n" "n \<le> MAX_HEAP - 8" and big: "k \<le> n + 16" "k \<le> stack" and ne: "n \<noteq> k + 16"
    and room: "mem_brk s + align n + 16 \<le> mem_max_addr s"
  shows "\<exists>q t bs' fl'. mm_realloc stack s (u + 8) n = Some (q + 8, t) \<and> reallocated s bs u k n q t bs' fl'"
proof -
  let ?U = "used_blocks (heap_base s) bs - {(u, k)}"
  note ur = used_reads [OF h uk]
  let ?w = "map (\<lambda>i. cells s (u + 8 * i)) [0..<k div 8]"
  have w: "load_words s u (k div 8) = Some ?w" by (rule load_block [OF h]) (use ur in auto)
  obtain s1 bs1 fl1 where f: "mm_free s (u + 8) = Some s1" "released s bs u k s1 bs1 fl1"
    using mm_free_released [OF h uk] by blast
  have f1: "heap_ok s1 bs1 fl1" "mem_start_brk s1 = mem_start_brk s" "mem_brk s1 = mem_brk s"
      "used_same s s1 ?U" "used_blocks (heap_base s1) bs1 = ?U"
    using f(2) by (auto simp: released_def)
  have "mem_brk s1 + align n + 16 \<le> mem_max_addr s1"
    using room f1 h by (simp add: heap_ok_def layout_def)
  then obtain q s2 bs2 fl2 where ml: "mm_malloc s1 n = Some (q + 8, s2)"
      "served s1 bs1 (align n + 16) q s2 bs2 fl2"
    using mm_malloc_served [OF f1(1) n] by blast
  then obtain m where m: "align n + 16 \<le> m" "(q, m) \<notin> ?U"
      "m < align n + 48"
      "used_blocks (heap_base s2) bs2 = insert (q, m) ?U" and s2: "heap_ok s2 bs2 fl2"
      "mem_start_brk s2 = mem_start_brk s" "used_same s1 s2 ?U" "mem_brk s \<le> mem_brk s2" "mem_brk s2 \<le> mem_brk s + align n + 16"
    unfolding served_def f1(5) using f1(2,3,5) by auto
  have nn: "n \<le> align n" "align n < n + 8" using align_props [of n] n by simp_all
  have qm: "(q, m) \<in> used_blocks (heap_base s2) bs2" using m by simp
  have sz: "block_size s2 q = Some m" using used_reads(1) [OF s2(1) qm] .
  have "8 * length ?w \<le> m" using ur big m(1) nn by simp
  then obtain s3 c where r: "store_words s2 q ?w = Some s3"
    "block_set_size_and_allocated s3 q m 1 = Some (s2\<lparr>cells := c\<rparr>)" "heap_ok (s2\<lparr>cells := c\<rparr>) bs2 fl2"
    "\<And>i. 0 < i \<Longrightarrow> i < length ?w \<Longrightarrow> 8 * i + 8 < m \<Longrightarrow> c (q + 8 * i) = ?w ! i"
    "\<And>x. x < q \<or> q + m \<le> x \<Longrightarrow> c x = cells s2 x"
    using refill_used [OF s2(1) qm] by blast
  let ?t = "s2\<lparr>cells := c\<rparr>"
  have "k \<noteq> u64_sub n TAGS_SIZE"
    using ne ur n by (auto simp: u64_sub_def TAGS_SIZE_def WORD_SIZE_def MAX_HEAP_def)
  moreover have "u64_sub k TAGS_SIZE \<le> n" using big ur by (simp add: TAGS_SIZE_def WORD_SIZE_def)
  ultimately have "mm_realloc stack s (u + 8) n = Some (q + 8, ?t)"
    using ur(1) w f(1) ml(1) sz r(1,2) n big(2)
    by (simp add: mm_realloc_def payload_to_block_def Let_def)
  moreover have "used_same s2 ?t ?U"
    by (rule used_same_outside [OF s2(1) qm]) (use r(5) m in auto)
  moreover have "c (q + 8 * i) = cells s (u + 8 * i)" if "0 < i" "8 * i + 8 < k" "8 * i + 8 < m" for i
    using r(4) [of i] that by auto
  moreover have "n + 16 \<le> m" "m < n + 56" using nn m(1,3) by simp_all
  moreover have "used_same s ?t ?U"
    using f1(4) s2(3) \<open>used_same s2 ?t ?U\<close> by (meson used_same_trans)
  ultimately show ?thesis
    using r(3) m(2,4) s2 unfolding reallocated_def
    by (intro exI [of _ q] exI [of _ ?t] exI [of _ bs2] exI [of _ fl2] conjI exI [of _ m]) simp_all
qed

lemma split_used:
  assumes h: "heap_ok s (xs @ (k, True) # ys) fl" and u: "u = heap_base s + width xs"
    and m: "8 dvd m" "32 \<le> m" "m + 32 \<le> k"
  obtains c c1 where
    "block_set_size_and_allocated s u m 1 = Some (s\<lparr>cells := c1\<rparr>)"
    "block_next (s\<lparr>cells := c1\<rparr>) u = Some (u + m)"
    "block_set_size_and_allocated (s\<lparr>cells := c1\<rparr>) (u + m) (k - m) 1 = Some (s\<lparr>cells := c\<rparr>)"
    "heap_ok (s\<lparr>cells := c\<rparr>) (xs @ (m, True) # (k - m, True) # ys) fl"
    "\<And>x. x < u \<or> u + k \<le> x \<or> u < x \<and> x + 8 < u + m \<Longrightarrow> c x = cells s x"
proof -
  let ?bs = "xs @ (k, True) # ys" and ?bs' = "xs @ (m, True) # (k - m, True) # ys"
  have l: "layout s ?bs" and fr: "free_ring s fl" and fl: "set fl = free_blocks (heap_base s) ?bs"
    and na: "no_adjacent_free ?bs"
    using h unfolding heap_ok_def by blast+
  have bb: "(u, k, True) \<in> set (blocks (heap_base s) ?bs)" using u by simp
  note lb = layout_block [OF l bb]
  define c1 where "c1 = (cells s)(u := m + 1, u + m - 8 := m + 1)"
  define c where "c = c1(u + m := k - m + 1, u + k - 8 := k - m + 1)"
  have out: "c x = cells s x" if "x < u \<or> u + k \<le> x \<or> u < x \<and> x + 8 < u + m" for x
    using that lb m by (auto simp: c_def c1_def)
  have reg: "in_region s u" "in_region s (u + m - 8)" "in_region s (u + m)" "in_region s (u + k - 8)"
    using lb m by (auto intro!: layout_region [OF l] dvd_diff_nat dvd_add)
  have d: "8 dvd k - m" using lb m by (simp add: dvd_diff_nat)
  have e: "u + m + (k - m) - 8 = u + k - 8" "u + m + (k - m) = u + k" using m by simp_all
  have s1: "block_set_size_and_allocated s u m 1 = Some (s\<lparr>cells := c1\<rparr>)"
    using reg m by (subst set_size_and_allocated) (auto simp: c1_def)
  have s2: "block_next (s\<lparr>cells := c1\<rparr>) u = Some (u + m)"
    using reg m by (simp add: block_next_def block_size_def c1_def)
  have s3: "block_set_size_and_allocated (s\<lparr>cells := c1\<rparr>) (u + m) (k - m) 1 = Some (s\<lparr>cells := c\<rparr>)"
    using reg m d by (subst set_size_and_allocated) (auto simp: c_def e)
  have "layout (s\<lparr>cells := c\<rparr>) (xs @ [(m, True), (k - m, True)] @ ys)"
    by (rule layout_retile [where zs = "[(k, True)]"])
      (use l lb u out m d e in \<open>auto simp: c_def c1_def\<close>)
  moreover have "free_ring (s\<lparr>cells := c\<rparr>) fl"
  proof (rule free_ring_frame [OF fr], rule out)
    have "u \<notin> set fl"
      unfolding fl free_blocks_def using block_unique [OF layout_tiles [OF l] bb] by blast
    then show "y < u \<or> u + k \<le> y \<or> u < y \<and> y + 8 < u + m" if "y \<in> link_words fl" for y
      using link_words_apart [OF l _ bb _ that] fl by blast
  qed
  moreover have "free_blocks (heap_base s) ?bs' = free_blocks (heap_base s) ?bs"
    unfolding free_blocks_simps u [symmetric] e by simp
  moreover have "no_adjacent_free ?bs'" using na by (auto simp: no_adjacent_append)
  ultimately have "heap_ok (s\<lparr>cells := c\<rparr>) ?bs' fl" using fl by (simp add: heap_ok_def)
  then show thesis using that s1 s2 s3 out by blast
qed

lemma realloc_shrink_split:
  assumes h: "heap_ok s bs fl" and uk: "(u, k) \<in> used_blocks (heap_base s) bs"
    and n: "9 \<le> n" "n \<le> MAX_HEAP - 8" and small: "align n + 48 \<le> k"
  shows "\<exists>t bs' fl'. mm_realloc stack s (u + 8) n = Some (u + 8, t) \<and> reallocated s bs u k n u t bs' fl'"
proof -
  let ?U = "used_blocks (heap_base s) bs - {(u, k)}" and ?m = "align n + 16"
  note ur = used_reads [OF h uk]
  have "(u, k, True) \<in> set (blocks (heap_base s) bs)" using uk by (simp add: used_blocks_def)
  then obtain xs ys where xs: "bs = xs @ (k, True) # ys" and ux: "u = heap_base s + width xs"
    using block_split by blast
  have nn: "n \<le> align n" "8 dvd align n" "align n < n + 8" using align_props [of n] n by simp_all
  have m: "8 dvd ?m" "32 \<le> ?m" "?m + 32 \<le> k" using nn n small by (auto elim!: dvdE)
  obtain c c1 where sp: "block_set_size_and_allocated s u ?m 1 = Some (s\<lparr>cells := c1\<rparr>)"
    "block_next (s\<lparr>cells := c1\<rparr>) u = Some (u + ?m)"
    "block_set_size_and_allocated (s\<lparr>cells := c1\<rparr>) (u + ?m) (k - ?m) 1 = Some (s\<lparr>cells := c\<rparr>)"
    "heap_ok (s\<lparr>cells := c\<rparr>) (xs @ (?m, True) # (k - ?m, True) # ys) fl"
    "\<And>x. x < u \<or> u + k \<le> x \<or> u < x \<and> x + 8 < u + ?m \<Longrightarrow> c x = cells s x"
    using split_used [OF h [unfolded xs] ux m] by blast
  let ?s2 = "s\<lparr>cells := c\<rparr>" and ?bs2 = "xs @ (?m, True) # (k - ?m, True) # ys"
  let ?V = "used_blocks (heap_base s) ?bs2"
  have e: "u + ?m + (k - ?m) = u + k" using m by simp
  have V: "?V = insert (u, ?m) (insert (u + ?m, k - ?m) ?U)"
  proof -
    have "used_blocks (heap_base s) bs = insert (u, k) (used_blocks (heap_base s) xs \<union> used_blocks (u + k) ys)"
      unfolding xs used_blocks_simps ux [symmetric] by auto
    moreover have "(u, k) \<notin> used_blocks (heap_base s) xs \<union> used_blocks (u + k) ys"
      using h used_addr_once [of s xs k True ys u k] ux by (simp add: heap_ok_def xs)
    ultimately show ?thesis unfolding used_blocks_simps ux [symmetric] e by auto
  qed
  have part: "(u + ?m, k - ?m) \<in> used_blocks (heap_base ?s2) ?bs2" using V by simp
  obtain t bs' fl' where f: "mm_free ?s2 (u + ?m + 8) = Some t"
      "released ?s2 ?bs2 (u + ?m) (k - ?m) t bs' fl'"
    using mm_free_released [OF sp(4) part] by blast
  have apart: "(u, j) \<notin> ?U" "(u + ?m, j) \<notin> ?U" for j
    using used_apart [OF h uk, of _ j] used_reads(2) [OF h, of _ j] m by fastforce+
  have V': "?V - {(u + ?m, k - ?m)} = insert (u, ?m) ?U"
    using V apart m by auto
  have f': "heap_ok t bs' fl'" "mem_start_brk t = mem_start_brk s"
      "used_same ?s2 t (insert (u, ?m) ?U)" "used_blocks (heap_base s) bs' = insert (u, ?m) ?U"
      "mem_brk t = mem_brk s"
    using f(2) V' by (auto simp: released_def)
  have al: "u64 (align n + TAGS_SIZE) = ?m" "u64_sub (u64_sub k (align n)) TAGS_SIZE = k - ?m"
      "u64_sub (u64_sub k TAGS_SIZE) MINBLOCKSIZE = k - 48"
      "u64_sub k TAGS_SIZE = k - 16"
    using ur m by (simp_all add: TAGS_SIZE_def MINBLOCKSIZE_def WORD_SIZE_def)
  have ne: "k \<noteq> u64_sub n TAGS_SIZE"
    using m nn ur by (auto simp: u64_sub_def TAGS_SIZE_def WORD_SIZE_def MAX_HEAP_def)
  have "\<not> k - 16 \<le> n" "align n \<le> k - 48" using m nn by auto
  with ne have "mm_realloc stack s (u + 8) n = Some (u + 8, t)"
    using ur(1) sp(1-3) f(1) n al
    by (simp add: mm_realloc_def payload_to_block_def Let_def)
  moreover have "used_same s ?s2 ?U"
    by (rule used_same_outside [OF h uk]) (use sp(5) in auto)
  moreover have "cells t (u + 8 * i) = cells s (u + 8 * i)" if "0 < i" "8 * i + 8 < ?m" for i
  proof -
    have "cells t (u + 8 * i) = cells ?s2 (u + 8 * i)"
      using that by (intro f'(3) [unfolded used_same_def, rule_format, of u ?m]) simp
    then show ?thesis using sp(5) [of "u + 8 * i"] that by simp
  qed
  moreover have "used_same ?s2 t ?U" by (rule used_same_mono [OF f'(3)]) blast
  ultimately show ?thesis
    using f'(1,2,4,5) apart(1) nn used_same_trans [of s ?s2 ?U t] unfolding reallocated_def
    by (intro exI [of _ t] exI [of _ bs'] exI [of _ fl'] conjI exI [of _ ?m]) simp_all
qed

lemma realloc_shrink_copy:
  assumes h: "heap_ok s bs fl" and uk: "(u, k) \<in> used_blocks (heap_base s) bs"
    and n: "9 \<le> n" "n \<le> MAX_HEAP - 8" and small: "n + 16 < k" "k < align n + 48" "48 \<le> k"
    and room: "mem_brk s + align n + 16 \<le> mem_max_addr s"
  shows "\<exists>q t bs' fl'. mm_realloc stack s (u + 8) n = Some (q + 8, t) \<and> reallocated s bs u k n q t bs' fl'"
proof -
  let ?V = "used_blocks (heap_base s) bs" and ?U = "used_blocks (heap_base s) bs - {(u, k)}"
  note ur = used_reads [OF h uk]
  have nn: "n \<le> align n" "8 dvd align n" "align n < n + 8" using align_props [of n] n by simp_all
  obtain q s1 bs1 fl1 where ml: "mm_malloc s n = Some (q + 8, s1)"
      "served s bs (align n + 16) q s1 bs1 fl1"
    using mm_malloc_served [OF h n room] by blast
  then obtain m where m: "align n + 16 \<le> m" "m < align n + 48" "(q, m) \<notin> ?V"
      "used_blocks (heap_base s1) bs1 = insert (q, m) ?V" and s1: "heap_ok s1 bs1 fl1"
      "mem_start_brk s1 = mem_start_brk s" "used_same s s1 ?V" "mem_brk s \<le> mem_brk s1" "mem_brk s1 \<le> mem_brk s + align n + 16"
    unfolding served_def by auto
  have qm: "(q, m) \<in> used_blocks (heap_base s1) bs1" and uk1: "(u, k) \<in> used_blocks (heap_base s1) bs1"
    using m(4) uk by simp_all
  note qr = used_reads [OF s1(1) qm]
  let ?w = "map (\<lambda>i. cells s1 (u + 8 * i)) [0..<m div 8]"
  have mx: "mem_max_addr s1 = mem_max_addr s"
    using s1(1,2) h by (simp add: heap_ok_def layout_def)
  have "align n + 16 \<le> k" using nn small(1) ur(3) by (intro dvd8_le) auto
  then have "m \<le> k + 24" using m(2) qr(3) ur(3) by (intro dvd8_le) auto
  then have "u + 8 * (m div 8) \<le> mem_max_addr s1"
    using ur(7) room nn n qr(3) unfolding mx by auto
  then have w: "load_words s1 u (m div 8) = Some ?w"
    by (intro load_block [OF s1(1)]) (use ur s1(2) in auto)
  have "8 * length ?w \<le> m" by simp
  then obtain s2 c where r: "store_words s1 q ?w = Some s2"
    "block_set_size_and_allocated s2 q m 1 = Some (s1\<lparr>cells := c\<rparr>)" "heap_ok (s1\<lparr>cells := c\<rparr>) bs1 fl1"
    "\<And>i. 0 < i \<Longrightarrow> i < length ?w \<Longrightarrow> 8 * i + 8 < m \<Longrightarrow> c (q + 8 * i) = ?w ! i"
    "\<And>x. x < q \<or> q + m \<le> x \<Longrightarrow> c x = cells s1 x"
    using refill_used [OF s1(1) qm] by blast
  let ?s3 = "s1\<lparr>cells := c\<rparr>"
  obtain t bs' fl' where f: "mm_free ?s3 (u + 8) = Some t" "released ?s3 bs1 u k t bs' fl'"
    using mm_free_released [OF r(3), of u k] uk1 by auto
  have qu: "(q, m) \<noteq> (u, k)" using m(3) uk by blast
  then have V': "insert (q, m) ?V - {(u, k)} = insert (q, m) ?U" by auto
  have f': "heap_ok t bs' fl'" "mem_start_brk t = mem_start_brk s"
      "used_same ?s3 t (insert (q, m) ?U)" "used_blocks (heap_base s) bs' = insert (q, m) ?U"
      "mem_brk s \<le> mem_brk t" "mem_brk t \<le> mem_brk s + align n + 16"
    using f(2) V' m(4) s1(2,4,5) by (auto simp: released_def)
  have ne: "k \<noteq> u64_sub n TAGS_SIZE"
    using small nn ur by (auto simp: u64_sub_def TAGS_SIZE_def WORD_SIZE_def MAX_HEAP_def)
  have al: "u64_sub (u64_sub k TAGS_SIZE) MINBLOCKSIZE = k - 48" "u64_sub k TAGS_SIZE = k - 16"
    using ur small by (simp_all add: TAGS_SIZE_def MINBLOCKSIZE_def WORD_SIZE_def)
  have "\<not> k - 16 \<le> n" "\<not> align n \<le> k - 48" using small nn by auto
  with ne have "mm_realloc stack s (u + 8) n = Some (q + 8, t)"
    using ur(1) ml(1) qr(1) w r(1,2) f(1) n al
    by (simp add: mm_realloc_def payload_to_block_def Let_def)
  moreover have "used_same s1 ?s3 ?U"
    by (rule used_same_outside [OF s1(1) qm]) (use r(5) m in auto)
  moreover have "used_same s s1 ?U" "used_same ?s3 t ?U"
    by (rule used_same_mono [OF s1(3)], blast) (rule used_same_mono [OF f'(3)], blast)
  moreover have "cells t (q + 8 * i) = cells s (u + 8 * i)" if "0 < i" "8 * i + 8 < k" "8 * i + 8 < m" for i
  proof -
    have "cells t (q + 8 * i) = c (q + 8 * i)"
      using that f'(3) [unfolded used_same_def, rule_format, of q m "q + 8 * i"] by simp
    also have "\<dots> = cells s1 (u + 8 * i)" using r(4) [of i] that by auto
    also have "\<dots> = cells s (u + 8 * i)"
      using that uk s1(3) [unfolded used_same_def, rule_format, of u k "u + 8 * i"] by simp
    finally show ?thesis .
  qed
  moreover have "n + 16 \<le> m" "m < n + 56" using nn m(1,2) by simp_all
  moreover have "(q, m) \<notin> ?U" using m(3) by simp
  moreover have "used_same s t ?U"
    using \<open>used_same s s1 ?U\<close> \<open>used_same s1 ?s3 ?U\<close> \<open>used_same ?s3 t ?U\<close> by (meson used_same_trans)
  ultimately show ?thesis
    using f'(1,2,4,5,6) unfolding reallocated_def
    by (intro exI [of _ q] exI [of _ t] exI [of _ bs'] exI [of _ fl'] conjI exI [of _ m]) simp_all
qed

lemma realloc_ok:
  assumes h: "heap_ok s bs fl" and uk: "(u, k) \<in> used_blocks (heap_base s) bs"
    and n: "9 \<le> n" "n \<le> MAX_HEAP - 8" and ne: "n \<noteq> k + 16" and small: "k < 48 \<Longrightarrow> k \<le> n + 16" "k \<le> stack"
    and room: "mem_brk s + align n + 16 \<le> mem_max_addr s"
  shows "\<exists>q t bs' fl'. mm_realloc stack s (u + 8) n = Some (q + 8, t) \<and> reallocated s bs u k n q t bs' fl'"
proof -
  consider "k \<le> n + 16" | "n + 16 < k" "align n + 48 \<le> k" | "n + 16 < k" "k < align n + 48" "48 \<le> k"
    using small(1) by linarith
  then show ?thesis
  proof cases
    case 1
    then show ?thesis using realloc_grow [OF h uk n _ small(2) ne room] by blast
  next
    case 2
    then show ?thesis using realloc_shrink_split [OF h uk n] by blast
  next
    case 3
    then show ?thesis using realloc_shrink_copy [OF h uk n 3 room] by blast
  qed
qed

section \<open>Where the contract fails\<close>

lemma realloc_not_grown:
  assumes h: "heap_ok s bs fl" and uk: "(u, k) \<in> used_blocks (heap_base s) bs"
  shows "mm_realloc stack s (u + 8) (k + 16) = Some (u + 8, s)"
  using used_reads [OF h uk]
  by (simp add: mm_realloc_def payload_to_block_def TAGS_SIZE_def WORD_SIZE_def)

lemma set_size_too_small:
  assumes "n < 16"
  shows "block_set_size_and_allocated s b n al = None"
proof -
  have "block_end_tag (s\<lparr>cells := (cells s)(b := n + a)\<rparr>) b = None" if "n mod 8 = 0" "a \<le> 1" for a
  proof -
    have "n + a < 16" using assms that by presburger
    then show ?thesis by (auto simp: block_end_tag_def ld_def WORD_SIZE_def)
  qed
  moreover have "bit0 v \<le> 1" for v by (simp add: bit0_def)
  ultimately have "block_set_size s b n = None"
    by (auto simp: block_set_size_def block_allocated_def ld_def st_def c_assert_def)
  then show ?thesis by (simp add: block_set_size_and_allocated_def)
qed

lemma realloc_small_aborts:
  assumes h: "heap_ok s bs fl" and uk: "(u, k) \<in> used_blocks (heap_base s) bs"
    and k: "k < 48" and n: "9 \<le> n" "n + 16 < k"
  shows "mm_realloc stack s (u + 8) n = None"
proof -
  note ur = used_reads [OF h uk]
  have mx: "n \<le> MAX_HEAP" using n k by (simp add: MAX_HEAP_def)
  note nn = align_props [OF mx]
  have "16 \<le> align n" using nn n by (intro dvd8_le) auto
  moreover have "align n + 16 \<le> k" using nn n ur(3) by (intro dvd8_le) auto
  ultimately have a: "16 \<le> align n" "align n + 16 \<le> k" by simp_all
  have al: "u64_sub (u64_sub k TAGS_SIZE) MINBLOCKSIZE = k - 16 + 2 ^ 64 - 32" "u64_sub k TAGS_SIZE = k - 16"
      "u64_sub (u64_sub k (align n)) TAGS_SIZE = k - align n - 16"
    using ur k a by (simp_all add: TAGS_SIZE_def MINBLOCKSIZE_def WORD_SIZE_def u64_sub_def)
  have "k \<noteq> u64_sub n TAGS_SIZE"
    using n k by (auto simp: u64_sub_def TAGS_SIZE_def WORD_SIZE_def)
  moreover have "\<not> k - 16 \<le> n" "align n \<le> k - 16 + 2 ^ 64 - 32" using n a by auto
  moreover have "k - align n - 16 < 16" using a k by simp
  ultimately show ?thesis
    using ur(1) n al set_size_too_small
    by (simp add: mm_realloc_def payload_to_block_def Let_def bind_eq_None_conv)
qed

end
