(* ===== verification/MmSpec.thy ===== *)
theory MmSpec
  imports MmRealloc
begin

text \<open>
  The contract of the allocator: the properties of \<open>mm_init\<close>, \<open>mm_malloc\<close>, \<open>mm_free\<close>,
  \<open>mm_realloc\<close> and \<open>mm_check_heap\<close> in terms of the heap invariant \<open>heap_ok\<close>, each applied to the
  concrete heap \<open>sample_heap\<close>.
\<close>

section \<open>A concrete heap\<close>

text \<open>Three blocks: 32 bytes in use, 64 free, 48 in use.\<close>

definition sample_heap :: mm where
  "sample_heap = \<lparr>cells = (\<lambda>_. 0)(8 := 9, 16 := 33, 40 := 33, 48 := 64, 56 := 48, 64 := 48,
      104 := 64, 112 := 49, 152 := 49, 160 := 9),
    mem_start_brk = 8, mem_brk = 168, mem_max_addr = 8 + MAX_HEAP, flist_first = 48\<rparr>"

definition sample_blocks :: "(nat \<times> bool) list" where
  "sample_blocks = [(32, True), (64, False), (48, True)]"

lemma sample_ok: "heap_ok sample_heap sample_blocks [48]"
  by (simp add: heap_ok_def layout_def free_ring_def sample_heap_def sample_blocks_def
      MAX_HEAP_def ring_def free_nxt_def free_prv_def)

lemma sample_used:
  "used_blocks (heap_base sample_heap) sample_blocks = {(16, 32), (112, 48)}"
  by (auto simp: sample_heap_def sample_blocks_def)

lemma sample_room: "n \<le> 1000 \<Longrightarrow> mem_brk sample_heap + align n + 16 \<le> mem_max_addr sample_heap"
  using align_props(3) [of n] by (simp add: sample_heap_def MAX_HEAP_def)

section \<open>Properties\<close>

text \<open>C1. \<open>mm_malloc\<close>, on a heap that satisfies the invariant and for a request of 9 to \<open>MAX_HEAP - 8\<close> bytes for
which the heap can still grow, returns the payload of a block that was not in use; the block holds the request rounded
up to a multiple of 8 and its two tags, and exceeds this by less than a minimal block (32 bytes), so a
remainder that could be a block of its own is split off. The invariant is kept, and no other block in use is
moved, resized or written to. (A request of at most 8 bytes may make a block smaller than a minimal one,
\<open>extend_heap_tiny\<close>.)\<close>

theorem mm_malloc_correct:
  assumes "heap_ok s bs fl" "9 \<le> n" "n \<le> MAX_HEAP - 8"
    and "mem_brk s + align n + 16 \<le> mem_max_addr s"
  shows "\<exists>q t bs' fl' k. mm_malloc s n = Some (q + 8, t) \<and> heap_ok t bs' fl' \<and>
    (n + 7) div 8 * 8 + 16 \<le> k \<and> k < (n + 7) div 8 * 8 + 16 + MINBLOCKSIZE \<and>
    (q, k) \<notin> used_blocks (heap_base s) bs \<and>
    used_blocks (heap_base t) bs' = insert (q, k) (used_blocks (heap_base s) bs) \<and>
    used_same s t (used_blocks (heap_base s) bs)"
proof -
  have "n \<le> MAX_HEAP" using assms(3) by simp
  note al = align_rounds [OF this]
  obtain q t bs' fl' where m: "mm_malloc s n = Some (q + 8, t)" "served s bs (align n + 16) q t bs' fl'"
    using mm_malloc_served [OF assms] by blast
  then obtain k where "align n + 16 \<le> k" "k < align n + 48"
      "(q, k) \<notin> used_blocks (heap_base s) bs" "heap_ok t bs' fl'"
      "used_blocks (heap_base t) bs' = insert (q, k) (used_blocks (heap_base s) bs)"
      "used_same s t (used_blocks (heap_base s) bs)"
    by (auto simp: served_def)
  then show ?thesis
    using m(1) al
    by (intro exI [of _ q] exI [of _ t] exI [of _ bs'] exI [of _ fl'] exI [of _ k]) (simp add: MINBLOCKSIZE_def WORD_SIZE_def)
qed

theorem mm_malloc_correct_witness:
  "\<exists>q t bs' fl' k. mm_malloc sample_heap 20 = Some (q + 8, t) \<and> heap_ok t bs' fl' \<and>
    (20 + 7) div 8 * 8 + 16 \<le> k \<and> k < (20 + 7) div 8 * 8 + 16 + MINBLOCKSIZE \<and> (q, k) \<notin> used_blocks (heap_base sample_heap) sample_blocks \<and>
    used_blocks (heap_base t) bs' = insert (q, k) (used_blocks (heap_base sample_heap) sample_blocks) \<and>
    used_same sample_heap t (used_blocks (heap_base sample_heap) sample_blocks)"
  by (rule mm_malloc_correct [OF sample_ok]) (use sample_room [of 20] in \<open>simp_all add: MAX_HEAP_def\<close>)

text \<open>C2. \<open>mm_free\<close> on the payload of a block in use returns, gives exactly that block back, keeps
the invariant (in particular no two adjacent blocks stay free, so both neighbours were merged when
they could be) and writes to no other block in use.\<close>

theorem mm_free_correct:
  assumes "heap_ok s bs fl" "(u, k) \<in> used_blocks (heap_base s) bs"
  shows "\<exists>t bs' fl'. mm_free s (u + 8) = Some t \<and> heap_ok t bs' fl' \<and> mem_brk t = mem_brk s \<and>
    used_blocks (heap_base t) bs' = used_blocks (heap_base s) bs - {(u, k)} \<and>
    used_same s t (used_blocks (heap_base s) bs - {(u, k)})"
proof -
  obtain t bs' fl' where "mm_free s (u + 8) = Some t" "released s bs u k t bs' fl'"
    using mm_free_released [OF assms] by blast
  then show ?thesis
    by (intro exI [of _ t] exI [of _ bs'] exI [of _ fl']) (simp add: released_def)
qed

theorem mm_free_correct_witness:
  "\<exists>t bs' fl'. mm_free sample_heap (112 + 8) = Some t \<and> heap_ok t bs' fl' \<and>
    mem_brk t = mem_brk sample_heap \<and>
    used_blocks (heap_base t) bs' = used_blocks (heap_base sample_heap) sample_blocks - {(112, 48)} \<and>
    used_same sample_heap t (used_blocks (heap_base sample_heap) sample_blocks - {(112, 48)})"
  by (rule mm_free_correct [OF sample_ok]) (simp add: sample_used)

text \<open>C3. \<open>mm_realloc\<close> of a block in use to a size of 9 to \<open>MAX_HEAP - 8\<close> bytes, on a heap that could grow by
the new size and with space for the old block on the stack, except growing a block of \<open>k\<close> bytes to \<open>k + 16\<close> (\<open>mm_realloc_not_grown\<close>) and shrinking a block of
less than 48 bytes (\<open>mm_realloc_shrink_small_aborts\<close>), returns a block that holds
the new size, contains every payload word of the old block that fits in both, and replaces the old
block; the invariant is kept and no other block in use changes.\<close>

theorem mm_realloc_correct:
  assumes "heap_ok s bs fl" "(u, k) \<in> used_blocks (heap_base s) bs" "9 \<le> n" "n \<le> MAX_HEAP - 8"
    and "n \<noteq> k + 16" "k < 48 \<Longrightarrow> k \<le> n + 16" "k \<le> stack" "mem_brk s + align n + 16 \<le> mem_max_addr s"
  shows "\<exists>q t bs' fl' m. mm_realloc stack s (u + 8) n = Some (q + 8, t) \<and> heap_ok t bs' fl' \<and> n + 16 \<le> m \<and>
    used_blocks (heap_base t) bs' = insert (q, m) (used_blocks (heap_base s) bs - {(u, k)}) \<and>
    used_same s t (used_blocks (heap_base s) bs - {(u, k)}) \<and>
    (\<forall>i. 0 < i \<and> 8 * i + 8 < k \<and> 8 * i + 8 < m \<longrightarrow> cells t (q + 8 * i) = cells s (u + 8 * i))"
proof -
  obtain q t bs' fl' where "mm_realloc stack s (u + 8) n = Some (q + 8, t)" "reallocated s bs u k n q t bs' fl'"
    using realloc_ok [OF assms] by blast
  then obtain m where "mm_realloc stack s (u + 8) n = Some (q + 8, t)" "heap_ok t bs' fl'" "n + 16 \<le> m"
      "used_blocks (heap_base t) bs' = insert (q, m) (used_blocks (heap_base s) bs - {(u, k)})"
      "used_same s t (used_blocks (heap_base s) bs - {(u, k)})"
      "\<forall>i. 0 < i \<and> 8 * i + 8 < k \<and> 8 * i + 8 < m \<longrightarrow> cells t (q + 8 * i) = cells s (u + 8 * i)"
    by (auto simp: reallocated_def)
  then show ?thesis by blast
qed

theorem mm_realloc_correct_witness:
  "\<exists>q t bs' fl' m. mm_realloc 4096 sample_heap (112 + 8) 20 = Some (q + 8, t) \<and> heap_ok t bs' fl' \<and> 20 + 16 \<le> m \<and>
    used_blocks (heap_base t) bs' = insert (q, m) (used_blocks (heap_base sample_heap) sample_blocks - {(112, 48)}) \<and>
    used_same sample_heap t (used_blocks (heap_base sample_heap) sample_blocks - {(112, 48)}) \<and>
    (\<forall>i. 0 < i \<and> 8 * i + 8 < 48 \<and> 8 * i + 8 < m \<longrightarrow>
      cells t (q + 8 * i) = cells sample_heap (112 + 8 * i))"
  by (rule mm_realloc_correct [OF sample_ok])
    (use sample_room [of 20] in \<open>simp_all add: sample_used MAX_HEAP_def\<close>)

text \<open>C4. \<open>mm_init\<close> makes an empty heap whatever was there before: on a region freshly obtained, with any contents and
any old value of \<open>flist_first\<close>, and after \<open>mem_reset_brk\<close> on a heap with any blocks and any free list, it returns,
establishes the invariant of the heap without blocks and without a free list, takes 16 bytes of the
region, and the checker accepts the heap.\<close>

theorem mm_init_correct:
  assumes "mem_init storage contents flist = Some s" "8 dvd storage" "heap_ok u bs fl"
  shows "(\<exists>t. mm_init s = Some t \<and> heap_ok t [] [] \<and> mem_brk t = storage + 16 \<and> mm_check_heap t = Some 0) \<and>
    (\<exists>t. mm_init (mem_reset_brk u) = Some t \<and> heap_ok t [] [] \<and> mem_brk t = mem_start_brk u + 16 \<and> mm_check_heap t = Some 0)"
proof -
  have "layout u bs" using assms(3) by (simp add: heap_ok_def)
  then have "0 < mem_start_brk u" "8 dvd mem_start_brk u" "mem_max_addr u = mem_start_brk u + MAX_HEAP"
    by (simp_all add: layout_def)
  then show ?thesis using mm_init_ok [OF assms(1,2)] mm_init_reset [of u] mm_check_heap_zero by blast
qed

theorem mm_init_correct_witness:
  "(\<exists>s t. mem_init 8 (\<lambda>_. 77) 56 = Some s \<and> mm_init s = Some t \<and> heap_ok t [] []) \<and>
   (\<exists>t. mm_init (mem_reset_brk sample_heap) = Some t \<and> heap_ok t [] [])"
proof -
  obtain s where s: "mem_init 8 (\<lambda>_. 77) 56 = Some s" by (simp add: mem_init_def)
  then show ?thesis using mm_init_correct [OF s _ sample_ok] by auto
qed

text \<open>C5. The checker of the debug build, \<open>mm_check_heap\<close>, terminates and accepts every heap that
satisfies the invariant.\<close>

theorem mm_check_heap_accepts:
  assumes "heap_ok s bs fl"
  shows "mm_check_heap s = Some 0"
  by (rule mm_check_heap_zero [OF assms])

theorem mm_check_heap_accepts_witness: "mm_check_heap sample_heap = Some 0"
  by (rule mm_check_heap_accepts [OF sample_ok])

text \<open>Shrinking a block of less than 48 bytes aborts: the space left over is computed with a
\<open>size_t\<close> subtraction that wraps, so a remainder of less than two tags is marked as a block.\<close>

theorem mm_realloc_shrink_small_aborts:
  assumes "heap_ok s bs fl" "(u, k) \<in> used_blocks (heap_base s) bs" "k < 48" "9 \<le> n" "n + 16 < k"
  shows "mm_realloc stack s (u + 8) n = None"
  by (rule realloc_small_aborts [OF assms])

theorem mm_realloc_shrink_small_aborts_witness: "mm_realloc stack sample_heap (16 + 8) 9 = None"
  by (rule mm_realloc_shrink_small_aborts [OF sample_ok, where k = 32]) (simp_all add: sample_used)

text \<open>Growing a block of \<open>k\<close> bytes to a payload of \<open>k + 16\<close> bytes returns the same block with the
heap unchanged: the test for a request that fits exactly subtracts the tags where it should add them.\<close>

theorem mm_realloc_not_grown:
  assumes "heap_ok s bs fl" "(u, k) \<in> used_blocks (heap_base s) bs"
  shows "mm_realloc stack s (u + 8) (k + 16) = Some (u + 8, s)"
  by (rule realloc_not_grown [OF assms])

theorem mm_realloc_not_grown_witness: "mm_realloc stack sample_heap (16 + 8) (32 + 16) = Some (16 + 8, sample_heap)"
  by (rule mm_realloc_not_grown [OF sample_ok]) (simp add: sample_used)

end
