(* ===== verification/MmBytes.thy ===== *)
theory MmBytes
  imports MmDriver MmSpec
begin

text \<open>Single bytes of the heap, and writing the payload of a block in use: the invariant does not depend
on payloads.\<close>

section \<open>Bytes of a word\<close>

lemma digit_split:
  fixes v :: nat
  shows "v = (v div 256 ^ Suc j * 256 + v div 256 ^ j mod 256) * 256 ^ j + v mod 256 ^ j"
proof -
  have "v div 256 ^ Suc j * 256 + v div 256 ^ j mod 256 = v div 256 ^ j"
    using div_mult2_eq [of v "256 ^ j" 256] by (simp add: mult.commute [of 256])
  then show ?thesis by (simp only: div_mult_mod_eq)
qed

lemma set_byte_split: "set_byte v j b = (v div 256 ^ Suc j * 256 + b) * 256 ^ j + v mod 256 ^ j"
proof -
  let ?h = "v div 256 ^ Suc j * 256 * 256 ^ j" and ?d = "v div 256 ^ j mod 256 * 256 ^ j" and ?l = "v mod 256 ^ j"
  have v: "v = ?h + ?d + ?l" using digit_split [of v j] by (simp only: add_mult_distrib)
  then have "v - ?d = ?h + ?l" by linarith
  then show ?thesis by (simp add: set_byte_def add_mult_distrib)
qed

lemma digit_of_split:
  fixes h d l :: nat
  assumes "l < 256 ^ j" "d < 256"
  shows "((h * 256 + d) * 256 ^ j + l) div 256 ^ i mod 256 =
    (if i < j then l div 256 ^ i mod 256 else if i = j then d else h div 256 ^ (i - j - 1) mod 256)"
proof -
  consider "i < j" | "i = j" | "j < i" by linarith
  then show ?thesis
  proof cases
    case 1
    then obtain e where e: "j = i + Suc e" using less_iff_Suc_add by (metis add_Suc_right)
    have "(h * 256 + d) * 256 ^ j + l = l + ((h * 256 + d) * 256 ^ e * 256) * 256 ^ i" by (simp add: e power_add)
    then have "((h * 256 + d) * 256 ^ j + l) div 256 ^ i = (h * 256 + d) * 256 ^ e * 256 + l div 256 ^ i"
      by (simp only: div_mult_self1 power_not_zero zero_neq_numeral not_False_eq_True)
    then show ?thesis using 1 by simp
  next
    case 2
    then show ?thesis using assms by simp
  next
    case 3
    then obtain e where e: "i = j + Suc e" using less_iff_Suc_add by (metis add_Suc_right)
    have "((h * 256 + d) * 256 ^ j + l) div 256 ^ i = ((h * 256 + d) * 256 ^ j + l) div 256 ^ j div 256 div 256 ^ e"
      by (simp only: e power_add power_Suc div_mult2_eq)
    also have "((h * 256 + d) * 256 ^ j + l) div 256 ^ j = h * 256 + d" using assms(1) by simp
    also have "(h * 256 + d) div 256 = h" using assms(2) by simp
    finally show ?thesis using 3 e by simp
  qed
qed

lemma set_byte_digits:
  assumes "b < 256"
  shows "set_byte v j b div 256 ^ i mod 256 = (if i = j then b else v div 256 ^ i mod 256)"
proof -
  have l: "v mod 256 ^ j < 256 ^ j" by simp
  have "v div 256 ^ i mod 256 = (if i < j then v mod 256 ^ j div 256 ^ i mod 256
      else if i = j then v div 256 ^ j mod 256 else v div 256 ^ Suc j div 256 ^ (i - j - 1) mod 256)"
    using digit_of_split [OF l, of "v div 256 ^ j mod 256" "v div 256 ^ Suc j" i] digit_split [of v j]
    by (metis mod_less_divisor zero_less_numeral)
  then show ?thesis
    unfolding set_byte_split using digit_of_split [OF l assms, of "v div 256 ^ Suc j" i] by simp
qed

section \<open>Bytes of the heap\<close>

definition byte :: "mm \<Rightarrow> nat \<Rightarrow> nat" where
  "byte s a = cells s (a - a mod 8) div 256 ^ (a mod 8) mod 256"

lemma ld_byte_ok: "in_region s (a - a mod 8) \<Longrightarrow> ld_byte s a = Some (byte s a)"
  by (simp add: ld_byte_def ld_def byte_def)

text \<open>A word inside the payload of a block in use can be overwritten.\<close>

lemma payload_write:
  assumes h: "heap_ok s bs fl" and g: "(q, k) \<in> used_blocks (heap_base s) bs"
    and w: "q + 8 \<le> w" "w + 16 \<le> q + k" "8 dvd w"
  shows "in_region s w" "heap_ok (s\<lparr>cells := (cells s)(w := v)\<rparr>) bs fl"
proof -
  have l: "layout s bs" and fr: "free_ring s fl" and fl: "set fl = free_blocks (heap_base s) bs"
    and na: "no_adjacent_free bs"
    using h unfolding heap_ok_def by blast+
  have gb: "(q, k, True) \<in> set (MmInv.blocks (heap_base s) bs)" using g by (simp add: used_blocks_def)
  obtain xs ys where xs: "bs = xs @ (k, True) # ys" and gx: "q = heap_base s + width xs"
    using block_split [OF gb] by blast
  note lb = layout_block [OF l gb]
  show "in_region s w" using lb w by (intro layout_region [OF l]) auto
  define c where "c = (cells s)(w := v)"
  have same: "c y = cells s y" if "y < q \<or> q + k \<le> y" for y using that w by (auto simp: c_def)
  have tags: "c q = k + 1" "c (q + k - 8) = k + 1"
  proof -
    have "tiles (cells s) (heap_base s) bs (mem_brk s - 8)" using l by (simp add: layout_def)
    then have "cells s q = k + 1 \<and> cells s (q + k - 8) = k + 1"
      unfolding xs gx by (auto simp: tiles_append)
    then show "c q = k + 1" "c (q + k - 8) = k + 1" using w by (auto simp: c_def)
  qed
  have "layout (s\<lparr>cells := c\<rparr>) (xs @ [(k, True)] @ ys)"
    by (rule layout_retile [where zs = "[(k, True)]"]) (use l xs lb gx same tags in auto)
  moreover have "free_ring (s\<lparr>cells := c\<rparr>) fl"
  proof (rule free_ring_frame [OF fr], rule same)
    have "q \<notin> set fl"
      unfolding fl free_blocks_def using block_unique [OF layout_tiles [OF l] gb] by blast
    then show "y < q \<or> q + k \<le> y" if "y \<in> link_words fl" for y
      using link_words_apart [OF l _ gb _ that] fl by blast
  qed
  ultimately show "heap_ok (s\<lparr>cells := (cells s)(w := v)\<rparr>) bs fl"
    using fl na xs by (simp add: heap_ok_def c_def)
qed

text \<open>The word of an address in the payload.\<close>

lemma payload_word:
  assumes "heap_ok s bs fl" "(q, k) \<in> used_blocks (heap_base s) bs" "q + 8 \<le> a" "a + 8 < q + k"
  shows "q + 8 \<le> a - a mod 8" "a - a mod 8 + 16 \<le> q + k" "8 dvd a - a mod 8"
proof -
  note u = used_reads [OF assms(1,2)]
  obtain y where y: "q = 8 * y" using u(4) by (rule dvdE)
  obtain z where z: "k = 8 * z" using u(3) by (rule dvdE)
  have w: "a - a mod 8 = 8 * (a div 8)" by (simp only: minus_mod_eq_mult_div)
  have "y + 1 \<le> a div 8" "a div 8 + 1 < y + z" using assms(3,4) unfolding y z by linarith+
  then show "q + 8 \<le> a - a mod 8" "a - a mod 8 + 16 \<le> q + k" unfolding w y z by linarith+
  show "8 dvd a - a mod 8" unfolding w by (rule dvd_triv_left)
qed

text \<open>What writing the payload of \<open>(q, k)\<close> leaves.\<close>

definition payload_written :: "mm \<Rightarrow> mm \<Rightarrow> nat \<Rightarrow> nat \<Rightarrow> bool" where
  "payload_written s t q k \<longleftrightarrow> (\<exists>c. t = s\<lparr>cells := c\<rparr> \<and> (\<forall>x. x < q \<or> q + k \<le> x \<longrightarrow> c x = cells s x))"

lemma payload_written_refl: "payload_written s s q k"
  unfolding payload_written_def by (rule exI [of _ "cells s"]) simp

lemma payload_written_trans: "payload_written s t q k \<Longrightarrow> payload_written t r q k \<Longrightarrow> payload_written s r q k"
  by (auto simp: payload_written_def)

lemma payload_written_bounds:
  "payload_written s t q k \<Longrightarrow> mem_start_brk t = mem_start_brk s \<and> mem_brk t = mem_brk s"
  by (auto simp: payload_written_def)

lemma st_byte_ok:
  assumes h: "heap_ok s bs fl" and g: "(q, k) \<in> used_blocks (heap_base s) bs"
    and a: "q + 8 \<le> a" "a + 8 < q + k" and b: "b < 256"
  shows "\<exists>t. st_byte s a b = Some t \<and> heap_ok t bs fl \<and> payload_written s t q k \<and>
    (\<forall>x. byte t x = (if x = a then b else byte s x))"
proof -
  let ?w = "a - a mod 8"
  note w = payload_word [OF h g a]
  let ?t = "s\<lparr>cells := (cells s)(?w := set_byte (cells s ?w) (a mod 8) b)\<rparr>"
  have run: "st_byte s a b = Some ?t" using payload_write(1) [OF h g w] by (simp add: st_byte_def ld_def st_def)
  have "byte ?t x = (if x = a then b else byte s x)" for x
  proof (cases "x - x mod 8 = ?w")
    case True
    then have "x mod 8 = a mod 8 \<longleftrightarrow> x = a" by (metis mod_less_eq_dividend le_add_diff_inverse2)
    then show ?thesis using True set_byte_digits [OF b, of "cells s ?w" "a mod 8" "x mod 8"] by (simp add: byte_def)
  next
    case False
    then show ?thesis by (auto simp: byte_def)
  qed
  moreover have "payload_written s ?t q k"
    unfolding payload_written_def
    by (rule exI [of _ "(cells s)(?w := set_byte (cells s ?w) (a mod 8) b)"]) (use w in auto)
  ultimately show ?thesis using run payload_write(2) [OF h g w] by blast
qed

lemma memset_ok:
  assumes "heap_ok s bs fl" "(q, k) \<in> used_blocks (heap_base s) bs" "q + 8 \<le> p" "p + n + 8 \<le> q + k" "c < 256"
  shows "\<exists>t. memset s p c n = Some t \<and> heap_ok t bs fl \<and> payload_written s t q k \<and>
    (\<forall>x. byte t x = (if p \<le> x \<and> x < p + n then c else byte s x))"
  using assms
proof (induction n arbitrary: s p)
  case 0
  then show ?case by (simp add: payload_written_refl)
next
  case (Suc n)
  have "p + 8 < q + k" using Suc.prems(4) by simp
  then obtain s1 where s1: "st_byte s p c = Some s1" "heap_ok s1 bs fl" "payload_written s s1 q k"
    "\<forall>x. byte s1 x = (if x = p then c else byte s x)"
    using st_byte_ok [OF Suc.prems(1-3) _ Suc.prems(5)] by blast
  have "(q, k) \<in> used_blocks (heap_base s1) bs" using Suc.prems(2) payload_written_bounds [OF s1(3)] by simp
  then obtain t where t: "memset s1 (p + 1) c n = Some t" "heap_ok t bs fl" "payload_written s1 t q k"
    "\<forall>x. byte t x = (if p + 1 \<le> x \<and> x < p + 1 + n then c else byte s1 x)"
    using Suc.IH [OF s1(2), of "p + 1"] Suc.prems(3-5) by auto
  have "byte t x = (if p \<le> x \<and> x < p + Suc n then c else byte s x)" for x using t(4) s1(4) by auto
  then show ?case using s1(1) t(1,2) payload_written_trans [OF s1(3) t(3)] by auto
qed

text \<open>The bytes of blocks that did not change.\<close>

lemma byte_same:
  assumes "heap_ok s bs fl" "(q, k) \<in> used_blocks (heap_base s) bs" "q + 8 \<le> a" "a + 8 < q + k"
    and "\<forall>x. q \<le> x \<and> x < q + k \<longrightarrow> cells t x = cells s x"
  shows "byte t a = byte s a"
  using payload_word [OF assms(1-4)] assms(5) by (simp add: byte_def)

end
