(* ===== verification/MmValid.thy ===== *)
theory MmValid
  imports MmBytes
begin

text \<open>The allocator under its driver: an invariant that relates the heap, the blocks the trace holds and
the list of ranges, and the theorem that the driver accepts the allocator.\<close>

section \<open>The invariant of the driver\<close>

text \<open>The trace holds a block of \<open>n\<close> bytes under the index \<open>i\<close>, filled with the low byte of \<open>i\<close>.\<close>

definition held :: "mm \<Rightarrow> (nat \<times> bool) list \<Rightarrow> nat list \<Rightarrow> nat list \<Rightarrow> int \<Rightarrow> nat \<Rightarrow> bool" where
  "held h bs ptrs sizes i n \<longleftrightarrow>
     0 \<le> i \<and> nat i < length ptrs \<and> nat i < length sizes \<and> sizes ! nat i = n \<and> 9 \<le> n \<and> n \<le> MAX_HEAP - 8 \<and>
     (\<exists>q k. ptrs ! nat i = q + 8 \<and> (q, k) \<in> used_blocks (heap_base h) bs \<and> n + 16 \<le> k \<and> k < n + 56 \<and>
        (\<forall>x. q + 8 \<le> x \<and> x < q + 8 + n \<longrightarrow> byte h x = nat (i mod 256)))"

definition driver_ok :: "driver \<Rightarrow> (nat \<times> bool) list \<Rightarrow> nat list \<Rightarrow> (int \<rightharpoonup> nat) \<Rightarrow> bool" where
  "driver_ok d bs fl live \<longleftrightarrow>
     heap_ok (heap d) bs fl \<and> length (block_sizes d) = length (block_ptrs d) \<and>
     (\<forall>i n. live i = Some n \<longrightarrow> held (heap d) bs (block_ptrs d) (block_sizes d) i n) \<and>
     (\<forall>i j. i \<in> dom live \<longrightarrow> j \<in> dom live \<longrightarrow> block_ptrs d ! nat i = block_ptrs d ! nat j \<longrightarrow> i = j) \<and>
     (\<forall>p\<in>set (ranges d). \<exists>i n. live i = Some n \<and> p = (block_ptrs d ! nat i, block_ptrs d ! nat i + n - 1)) \<and>
     distinct (map fst (ranges d))"

lemma driver_okD:
  assumes "driver_ok d bs fl live"
  shows "heap_ok (heap d) bs fl" "length (block_sizes d) = length (block_ptrs d)"
    "live i = Some n \<Longrightarrow> held (heap d) bs (block_ptrs d) (block_sizes d) i n"
    "live i = Some n \<Longrightarrow> live j = Some m \<Longrightarrow> block_ptrs d ! nat i = block_ptrs d ! nat j \<Longrightarrow> i = j"
    "p \<in> set (ranges d) \<Longrightarrow> \<exists>i n. live i = Some n \<and> p = (block_ptrs d ! nat i, block_ptrs d ! nat i + n - 1)"
    "distinct (map fst (ranges d))"
  using assms unfolding driver_ok_def by (blast+)

text \<open>Changing the heap outside the live blocks.\<close>

lemma driver_ok_heap:
  assumes d: "driver_ok d bs fl live" and h: "heap_ok h bs' fl'" "mem_start_brk h = mem_start_brk (heap d)"
    and U: "U \<subseteq> used_blocks (heap_base (heap d)) bs" "U \<subseteq> used_blocks (heap_base (heap d)) bs'"
    and same: "used_same (heap d) h U"
    and live: "\<And>i n q k. live i = Some n \<Longrightarrow> block_ptrs d ! nat i = q + 8 \<Longrightarrow>
      (q, k) \<in> used_blocks (heap_base (heap d)) bs \<Longrightarrow> (q, k) \<in> U"
  shows "driver_ok (d\<lparr>heap := h\<rparr>) bs' fl' live"
proof -
  have "held h bs' (block_ptrs d) (block_sizes d) i n" if i: "live i = Some n" for i n
  proof -
    have "held (heap d) bs (block_ptrs d) (block_sizes d) i n" using driver_okD(3) [OF d i] .
    then obtain q k where q: "block_ptrs d ! nat i = q + 8" "(q, k) \<in> used_blocks (heap_base (heap d)) bs"
        "n + 16 \<le> k" "k < n + 56" "\<forall>x. q + 8 \<le> x \<and> x < q + 8 + n \<longrightarrow> byte (heap d) x = nat (i mod 256)"
      and o: "0 \<le> i" "nat i < length (block_ptrs d)" "nat i < length (block_sizes d)" "block_sizes d ! nat i = n"
        "9 \<le> n" "n \<le> MAX_HEAP - 8"
      unfolding held_def by blast
    have qU: "(q, k) \<in> U" by (rule live [OF i q(1,2)])
    have "byte h x = nat (i mod 256)" if "q + 8 \<le> x \<and> x < q + 8 + n" for x
    proof -
      have "byte h x = byte (heap d) x"
        by (rule byte_same [OF driver_okD(1) [OF d] q(2)])
          (use that q(3) same qU in \<open>auto simp: used_same_def\<close>)
      then show ?thesis using q(5) that by simp
    qed
    moreover have "(q, k) \<in> used_blocks (heap_base h) bs'" using qU U(2) h(2) by auto
    ultimately show ?thesis unfolding held_def using o q(1,3,4) by blast
  qed
  then show ?thesis using d h(1) unfolding driver_ok_def by simp
qed

text \<open>Forgetting an index.\<close>

lemma remove_range_set: "distinct (map fst ps) \<Longrightarrow> set (remove_range l ps) = {p \<in> set ps. fst p \<noteq> l}"
  by (induction ps) (auto simp: image_iff)

lemma remove_range_distinct: "distinct (map fst ps) \<Longrightarrow> distinct (map fst (remove_range l ps))"
  by (induction ps) (auto simp: remove_range_set)

lemma driver_ok_forget:
  assumes d: "driver_ok d bs fl live" and i: "live i = Some n"
  shows "driver_ok (d\<lparr>ranges := remove_range (block_ptrs d ! nat i) (ranges d)\<rparr>) bs fl (live(i := None))"
proof -
  have "\<exists>j m. (live(i := None)) j = Some m \<and> p = (block_ptrs d ! nat j, block_ptrs d ! nat j + m - 1)"
    if p: "p \<in> set (remove_range (block_ptrs d ! nat i) (ranges d))" for p
  proof -
    have "p \<in> set (ranges d)" "fst p \<noteq> block_ptrs d ! nat i"
      using p remove_range_set [OF driver_okD(6) [OF d]] by auto
    then obtain j m where "live j = Some m" "p = (block_ptrs d ! nat j, block_ptrs d ! nat j + m - 1)"
      using driver_okD(5) [OF d] by blast
    then show ?thesis using \<open>fst p \<noteq> block_ptrs d ! nat i\<close> by (intro exI [of _ j] exI [of _ m]) auto
  qed
  moreover have "distinct (map fst (remove_range (block_ptrs d ! nat i) (ranges d)))"
    by (rule remove_range_distinct [OF driver_okD(6) [OF d]])
  moreover have "held (heap d) bs (block_ptrs d) (block_sizes d) j m" if "(live(i := None)) j = Some m" for j m
    using that driver_okD(3) [OF d] by (auto split: if_splits)
  moreover have "j = l" if "j \<in> dom (live(i := None))" "l \<in> dom (live(i := None))"
      "block_ptrs d ! nat j = block_ptrs d ! nat l" for j l
    using that driver_okD(4) [OF d, of j _ l] by (auto split: if_splits)
  ultimately show ?thesis
    using driver_okD(1,2) [OF d] unfolding driver_ok_def by simp
qed

section \<open>A new block\<close>

lemma overlaps_iff: "overlaps l h ps \<longleftrightarrow> (\<exists>p\<in>set ps. l \<ge> fst p \<and> l \<le> snd p \<or> h \<ge> fst p \<and> h \<le> snd p)"
  by (induction ps) auto

text \<open>A block in use that no index holds.\<close>

definition new_block :: "driver \<Rightarrow> (nat \<times> bool) list \<Rightarrow> (int \<rightharpoonup> nat) \<Rightarrow> nat \<Rightarrow> nat \<Rightarrow> nat \<Rightarrow> bool" where
  "new_block d bs live q k n \<longleftrightarrow> (q, k) \<in> used_blocks (heap_base (heap d)) bs \<and> n + 16 \<le> k \<and> k < n + 56 \<and>
     9 \<le> n \<and> n \<le> MAX_HEAP - 8 \<and> (\<forall>i m. live i = Some m \<longrightarrow> block_ptrs d ! nat i \<noteq> q + 8)"

lemma add_range_ok:
  assumes d: "driver_ok d bs fl live" and q: "new_block d bs live q k n"
  shows "add_range (q + 8) (int n) opnum d = Some (True, d\<lparr>ranges := (q + 8, q + 8 + n - 1) # ranges d\<rparr>)"
proof -
  have qk: "(q, k) \<in> used_blocks (heap_base (heap d)) bs" "n + 16 \<le> k" "k < n + 56" "9 \<le> n"
    using q by (auto simp: new_block_def)
  note u = used_reads [OF driver_okD(1) [OF d] qk(1)]
  have hi: "nat (int (q + 8) + int n - 1) = q + 8 + n - 1" using qk by simp
  have "\<not> overlaps (q + 8) (q + 8 + n - 1) (ranges d)"
  proof
    assume "overlaps (q + 8) (q + 8 + n - 1) (ranges d)"
    then obtain i m where i: "live i = Some m"
      and o: "(let a = block_ptrs d ! nat i in q + 8 \<ge> a \<and> q + 8 \<le> a + m - 1 \<or> q + 8 + n - 1 \<ge> a \<and> q + 8 + n - 1 \<le> a + m - 1)"
      using driver_okD(5) [OF d] unfolding overlaps_iff by (fastforce simp: Let_def)
    have hld: "held (heap d) bs (block_ptrs d) (block_sizes d) i m" by (rule driver_okD(3) [OF d i])
    obtain v j where v: "block_ptrs d ! nat i = v + 8" "(v, j) \<in> used_blocks (heap_base (heap d)) bs" "m + 16 \<le> j" "9 \<le> m"
      using hld unfolding held_def by blast
    have "(q, k) \<noteq> (v, j)" using q i v(1) by (auto simp: new_block_def)
    then have "q + k \<le> v \<or> v + j \<le> q" by (rule used_apart [OF driver_okD(1) [OF d] qk(1) v(2)])
    then show False using o v qk by (auto simp: Let_def)
  qed
  moreover have "(q + 8) mod ALIGNMENT = 0" using u(4) by (simp add: ALIGNMENT_def)
  moreover have "mem_heap_lo (heap d) \<le> q + 8" "q + 8 + n - 1 \<le> mem_heap_hi (heap d)"
    using u qk by (simp_all add: mem_heap_lo_def mem_heap_hi_def)
  ultimately show ?thesis using qk(4) unfolding add_range_def Let_def hi by simp
qed

lemma fill_ok:
  assumes d: "driver_ok d bs fl live" and q: "new_block d bs live q k n" and i: "0 \<le> i" "nat i < length (block_ptrs d)" "live i = None"
    and d1: "d1 = d\<lparr>ranges := (q + 8, q + 8 + n - 1) # ranges d\<rparr>"
  shows "\<exists>d'. fill_and_remember (q + 8) i (int n) d1 = Some d' \<and> driver_ok d' bs fl (live(i \<mapsto> n)) \<and>
    mem_start_brk (heap d') = mem_start_brk (heap d) \<and> mem_brk (heap d') = mem_brk (heap d) \<and>
    length (block_ptrs d') = length (block_ptrs d) \<and> reported d' = reported d"
proof -
  have qk: "(q, k) \<in> used_blocks (heap_base (heap d)) bs" "n + 16 \<le> k" "k < n + 56" "9 \<le> n" "n \<le> MAX_HEAP - 8"
    and fresh: "\<And>j m. live j = Some m \<Longrightarrow> block_ptrs d ! nat j \<noteq> q + 8"
    using q by (auto simp: new_block_def)
  note ok = driver_okD [OF d]
  have b: "nat (i mod 256) < 256" by simp
  have sz: "int_to_size (int n) = n" using qk(5) by (simp add: int_to_size_def MAX_HEAP_def nat_mod_as_int)
  obtain h where h: "memset (heap d) (q + 8) (nat (i mod 256)) n = Some h" "heap_ok h bs fl" "payload_written (heap d) h q k"
    "\<forall>x. byte h x = (if q + 8 \<le> x \<and> x < q + 8 + n then nat (i mod 256) else byte (heap d) x)"
    using memset_ok [OF ok(1) qk(1) _ _ b, of "q + 8" n] qk(2) by auto
  note hb = payload_written_bounds [OF h(3)]
  have lens: "nat i < length (block_sizes d)" using i(2) ok(2) by simp
  let ?ptrs = "(block_ptrs d)[nat i := q + 8]" and ?sizes = "(block_sizes d)[nat i := n]"
  let ?d = "d1\<lparr>heap := h, block_ptrs := ?ptrs, block_sizes := ?sizes\<rparr>"
  have run: "fill_and_remember (q + 8) i (int n) d1 = Some ?d"
  proof -
    have "aset (block_ptrs d) i (q + 8) = Some ?ptrs" "aset (block_sizes d) i n = Some ?sizes"
      using aset_nat [OF i(2)] aset_nat [OF lens] i(1) by simp_all
    then show ?thesis using h(1) by (simp add: fill_and_remember_def d1 sz)
  qed
  have other: "nat j \<noteq> nat i" if "live j = Some m" for j m
  proof -
    have "0 \<le> j" using ok(3) [OF that] by (simp add: held_def)
    moreover have "j \<noteq> i" using that i(3) by auto
    ultimately show ?thesis using i(1) by (simp add: nat_eq_iff)
  qed
  have held': "held h bs ?ptrs ?sizes j m" if "(live(i \<mapsto> n)) j = Some m" for j m
  proof (cases "j = i")
    case True
    then have "m = n" using that by simp
    moreover have "(q, k) \<in> used_blocks (heap_base h) bs" using qk(1) hb by simp
    ultimately show ?thesis
      unfolding held_def using True i qk lens h(4)
      by (intro conjI exI [of _ q] exI [of _ k]) auto
  next
    case False
    then have j: "live j = Some m" using that by simp
    obtain v l where v: "block_ptrs d ! nat j = v + 8" "(v, l) \<in> used_blocks (heap_base (heap d)) bs" "m + 16 \<le> l"
        "l < m + 56" "\<forall>x. v + 8 \<le> x \<and> x < v + 8 + m \<longrightarrow> byte (heap d) x = nat (j mod 256)"
      and o: "0 \<le> j" "nat j < length (block_ptrs d)" "nat j < length (block_sizes d)" "block_sizes d ! nat j = m"
        "9 \<le> m" "m \<le> MAX_HEAP - 8"
      using ok(3) [OF j] unfolding held_def by blast
    have "(q, k) \<noteq> (v, l)" using fresh [OF j] v(1) by auto
    then have apart: "q + k \<le> v \<or> v + l \<le> q" by (rule used_apart [OF ok(1) qk(1) v(2)])
    have "byte h x = nat (j mod 256)" if x: "v + 8 \<le> x \<and> x < v + 8 + m" for x
    proof -
      have "\<not> (q + 8 \<le> x \<and> x < q + 8 + n)" using apart x v(3) qk(2) by auto
      then have "byte h x = byte (heap d) x" using h(4) [rule_format, of x] by auto
      then show ?thesis using v(5) x by simp
    qed
    moreover have "(v, l) \<in> used_blocks (heap_base h) bs" using v(2) hb by simp
    moreover have "?ptrs ! nat j = v + 8" "?sizes ! nat j = m" using other [OF j] v(1) o(4) by simp_all
    ultimately show ?thesis unfolding held_def using o v(3,4) by auto
  qed
  have inj: "j = l" if jl: "j \<in> dom (live(i \<mapsto> n))" "l \<in> dom (live(i \<mapsto> n))" "?ptrs ! nat j = ?ptrs ! nat l" for j l
  proof -
    have at: "?ptrs ! nat i = q + 8" using i(2) by simp
    have ne: "?ptrs ! nat x \<noteq> q + 8" "?ptrs ! nat x = block_ptrs d ! nat x" if "live x = Some m" for x m
      using other [OF that] fresh [OF that] by simp_all
    consider "j = i" "l = i" | b where "j = i" "live l = Some b" | a where "live j = Some a" "l = i"
      | a b where "live j = Some a" "live l = Some b"
      using jl(1,2) by (auto split: if_splits)
    then show ?thesis
    proof cases
      case 1
      then show ?thesis by simp
    next
      case 2
      then show ?thesis using jl(3) ne(1) [OF 2(2)] at by simp
    next
      case 3
      then show ?thesis using jl(3) ne(1) [OF 3(1)] at by simp
    next
      case (4 a b)
      then show ?thesis using jl(3) ne(2) [OF 4(1)] ne(2) [OF 4(2)] ok(4) [OF 4] by simp
    qed
  qed
  have rng: "\<exists>j m. (live(i \<mapsto> n)) j = Some m \<and> p = (?ptrs ! nat j, ?ptrs ! nat j + m - 1)"
    if p: "p \<in> set ((q + 8, q + 8 + n - 1) # ranges d)" for p
  proof (cases "p = (q + 8, q + 8 + n - 1)")
    case True
    then show ?thesis using i(2) by (intro exI [of _ i] exI [of _ n]) simp
  next
    case False
    then have "p \<in> set (ranges d)" using p by simp
    then obtain j m where j: "live j = Some m" "p = (block_ptrs d ! nat j, block_ptrs d ! nat j + m - 1)"
      using ok(5) [of p] by blast
    have "j \<noteq> i" using j(1) i(3) by auto
    then show ?thesis using j other [OF j(1)] by (intro exI [of _ j] exI [of _ m]) simp
  qed
  have "fst p \<noteq> q + 8" if "p \<in> set (ranges d)" for p using ok(5) [OF that] fresh by auto
  then have "q + 8 \<notin> set (map fst (ranges d))" by (metis imageE list.set_map)
  then have dist: "distinct (map fst ((q + 8, q + 8 + n - 1) # ranges d))" using ok(6) by simp
  have "driver_ok ?d bs fl (live(i \<mapsto> n))"
    unfolding driver_ok_def using h(2) ok(2) held' inj rng dist by (simp add: d1)
  then show ?thesis using run hb by (intro exI [of _ ?d]) (simp add: d1)
qed

section \<open>The requests\<close>

text \<open>What a request may add to the heap.\<close>

definition cost :: "traceop \<Rightarrow> nat" where
  "cost op = (if op_type op = FREE then 0 else align (nat (op_size op)) + 16)"

text \<open>The driver after a request: the invariant for the new live indices, the heap grown by at most the
cost.\<close>

definition after_op :: "driver \<Rightarrow> traceop \<Rightarrow> (int \<rightharpoonup> nat) \<Rightarrow> driver \<Rightarrow> bool" where
  "after_op d op live' d' \<longleftrightarrow> (\<exists>bs fl. driver_ok d' bs fl live') \<and>
     mem_start_brk (heap d') = mem_start_brk (heap d) \<and>
     mem_brk (heap d) \<le> mem_brk (heap d') \<and> mem_brk (heap d') \<le> mem_brk (heap d) + cost op \<and>
     length (block_ptrs d') = length (block_ptrs d) \<and> reported d' = reported d"

lemma int_to_size_nat: "0 \<le> n \<Longrightarrow> nat n \<le> MAX_HEAP \<Longrightarrow> int_to_size n = nat n"
  by (simp add: int_to_size_def MAX_HEAP_def)

lemma heap_max: "heap_ok s bs fl \<Longrightarrow> mem_max_addr s = mem_start_brk s + MAX_HEAP"
  by (simp add: heap_ok_def layout_def)

lemma new_start:
  assumes h: "heap_ok h bs fl" and U: "used_blocks (heap_base h) bs = insert (q, k) U" and q: "(q, k) \<notin> U"
  shows "(q, j) \<notin> U"
proof
  assume j: "(q, j) \<in> U"
  then have u: "(q, j) \<in> used_blocks (heap_base h) bs" "(q, k) \<in> used_blocks (heap_base h) bs" using U by simp_all
  have "32 \<le> j" "32 \<le> k" using used_reads(2) [OF h] u by auto
  moreover have "(q, k) \<noteq> (q, j)" using j q by auto
  ultimately show False using used_apart [OF h u(2,1)] by auto
qed

lemma alloc_ok:
  assumes d: "driver_ok d bs fl live" and op: "op_type op = ALLOC" "op_index op = i" "op_size op = int n"
    and i: "0 \<le> i" "nat i < length (block_ptrs d)" "live i = None" and n: "9 \<le> n" "n \<le> MAX_HEAP - 8"
    and room: "mem_brk (heap d) + cost op \<le> mem_start_brk (heap d) + MAX_HEAP"
  shows "\<exists>d'. valid_op stack num op d = Some (True, d') \<and> after_op d op (live(i \<mapsto> n)) d'"
proof -
  note ok = driver_okD [OF d]
  have cost: "cost op = align n + 16" using op by (simp add: cost_def)
  have room': "mem_brk (heap d) + align n + 16 \<le> mem_max_addr (heap d)"
    using room unfolding cost heap_max [OF ok(1)] by simp
  let ?U = "used_blocks (heap_base (heap d)) bs"
  obtain q h bs' fl' where m: "mm_malloc (heap d) n = Some (q + 8, h)" "served (heap d) bs (align n + 16) q h bs' fl'"
    using mm_malloc_served [OF ok(1) n room'] by blast
  then obtain k where k: "heap_ok h bs' fl'" "mem_start_brk h = mem_start_brk (heap d)"
      "mem_brk h \<le> mem_brk (heap d) + (align n + 16)" "used_same (heap d) h ?U"
      "align n + 16 \<le> k" "k < align n + 16 + 32" "(q, k) \<notin> ?U"
      "used_blocks (heap_base (heap d)) bs' = insert (q, k) ?U" "mem_brk (heap d) \<le> mem_brk h"
    unfolding served_def by blast
  let ?d = "d\<lparr>heap := h\<rparr>"
  have d': "driver_ok ?d bs' fl' live"
    by (rule driver_ok_heap [OF d k(1,2) _ _ k(4)]) (use k(8) in auto)
  have nn: "n \<le> align n" "align n < n + 8" using align_props [of n] n by simp_all
  have "block_ptrs ?d ! nat j \<noteq> q + 8" if j: "live j = Some l" for j l
    using ok(3) [OF j] new_start [OF k(1) _ k(7)] k(2,8) by (fastforce simp: held_def)
  then have new: "new_block ?d bs' live q k n" using k nn n by (auto simp: new_block_def)
  obtain d2 where d2: "fill_and_remember (q + 8) i (int n) (?d\<lparr>ranges := (q + 8, q + 8 + n - 1) # ranges ?d\<rparr>) = Some d2"
    "driver_ok d2 bs' fl' (live(i \<mapsto> n))" "mem_start_brk (heap d2) = mem_start_brk h" "mem_brk (heap d2) = mem_brk h"
    "length (block_ptrs d2) = length (block_ptrs d)" "reported d2 = reported d"
    using fill_ok [OF d' new _ _ _ refl, of i] i by auto
  have "int_to_size (int n) = n" using int_to_size_nat [of "int n"] n by simp
  then have "valid_op stack num op d = Some (True, d2)"
    using op m(1) add_range_ok [OF d' new, of num] d2(1) by (simp add: valid_op_def Let_def)
  moreover have "after_op d op (live(i \<mapsto> n)) d2"
    unfolding after_op_def cost using d2 k(2,3,9) by auto
  ultimately show ?thesis by blast
qed

lemma free_ok:
  assumes d: "driver_ok d bs fl live" and op: "op_type op = FREE" "op_index op = i" and i: "live i = Some n"
  shows "\<exists>d'. valid_op stack num op d = Some (True, d') \<and> after_op d op (live(i := None)) d'"
proof -
  note ok = driver_okD [OF d]
  let ?U = "used_blocks (heap_base (heap d)) bs"
  obtain q k where q: "0 \<le> i" "nat i < length (block_ptrs d)" "block_ptrs d ! nat i = q + 8" "(q, k) \<in> ?U"
    using ok(3) [OF i] unfolding held_def by blast
  let ?d = "d\<lparr>ranges := remove_range (q + 8) (ranges d)\<rparr>"
  have d1: "driver_ok ?d bs fl (live(i := None))" using driver_ok_forget [OF d i] q(3) by simp
  obtain h bs' fl' where f: "mm_free (heap d) (q + 8) = Some h" "released (heap d) bs q k h bs' fl'"
    using mm_free_released [OF ok(1) q(4)] by blast
  have r: "heap_ok h bs' fl'" "mem_start_brk h = mem_start_brk (heap d)" "mem_brk h = mem_brk (heap d)"
    "used_same (heap ?d) h (?U - {(q, k)})" "used_blocks (heap_base (heap d)) bs' = ?U - {(q, k)}"
    using f(2) by (simp_all add: released_def)
  have "driver_ok (?d\<lparr>heap := h\<rparr>) bs' fl' (live(i := None))"
  proof (rule driver_ok_heap [OF d1 r(1) _ _ _ r(4)])
    fix j m v l assume j: "(live(i := None)) j = Some m" "block_ptrs ?d ! nat j = v + 8" "(v, l) \<in> used_blocks (heap_base (heap ?d)) bs"
    then have "j \<noteq> i" "live j = Some m" by (auto split: if_splits)
    then have "v \<noteq> q" using ok(4) [of j m i n] i q(3) j(2) by auto
    then show "(v, l) \<in> ?U - {(q, k)}" using j(3) by simp
  qed (use r in auto)
  moreover have "valid_op stack num op d = Some (True, ?d\<lparr>heap := h\<rparr>)"
  proof -
    have "aget (block_ptrs d) i = Some (q + 8)" using aget_nat [OF q(2)] q(1,3) by simp
    then show ?thesis using op f(1) by (simp add: valid_op_def Let_def)
  qed
  moreover have "cost op = 0" using op by (simp add: cost_def)
  ultimately show ?thesis unfolding after_op_def using r(2,3) by (intro exI [of _ "?d\<lparr>heap := h\<rparr>"]) auto
qed

text \<open>The words \<open>mm_realloc\<close> copied hold the bytes of the old block.\<close>

lemma driver_updates: "d\<lparr>ranges := r, heap := h\<rparr> = d\<lparr>heap := h, ranges := r\<rparr>"
  by simp

lemma copied_bytes:
  assumes eq: "\<forall>i. 0 < i \<and> 8 * i + 8 < k \<and> 8 * i + 8 < m \<longrightarrow> cells t (q + 8 * i) = cells s (u + 8 * i)"
    and al: "8 dvd q" "8 dvd u" and j: "j + 16 < k" "j + 16 < m"
  shows "byte t (q + 8 + j) = byte s (u + 8 + j)"
proof -
  have word: "x + 8 + j - j mod 8 = x + 8 * Suc (j div 8)" "(x + 8 + j) mod 8 = j mod 8" if x: "8 dvd x" for x
  proof -
    obtain y where y: "x = 8 * y" using x by (elim dvdE)
    show "(x + 8 + j) mod 8 = j mod 8" using mod_mult_self2 [of j 8 "Suc y"] by (simp add: y algebra_simps)
    show "x + 8 + j - j mod 8 = x + 8 * Suc (j div 8)"
      using div_mult_mod_eq [of j 8] by (simp add: minus_mod_eq_mult_div [symmetric])
  qed
  have "8 * (j div 8) \<le> j" by simp
  then have "cells t (q + 8 * Suc (j div 8)) = cells s (u + 8 * Suc (j div 8))" using j by (intro eq [rule_format]) auto
  then show ?thesis by (simp only: byte_def word [OF al(1)] word [OF al(2)])
qed

lemma data_kept_ok:
  assumes h: "heap_ok s bs fl" and g: "(q, k) \<in> used_blocks (heap_base s) bs"
    and old: "0 \<le> j" "old + 16 \<le> int k" and c: "0 \<le> c" "c < 128"
    and b: "\<forall>l. int l < old \<longrightarrow> byte s (q + 8 + l) = nat c"
  shows "data_kept s (q + 8) c old j = Some True"
  using old(1)
proof (induction "nat (old - j)" arbitrary: j)
  case 0
  then show ?case by (simp add: data_kept.simps)
next
  case (Suc n)
  have j: "j < old" and n: "n = nat (old - (j + 1))" using Suc.hyps(2) by simp_all
  have jk: "nat j + 16 < k" using j old(2) Suc.prems by simp
  have "in_region s (q + 8 + nat j - (q + 8 + nat j) mod 8)"
    using payload_write(1) [OF h g payload_word [OF h g]] jk by simp
  then have "ld_byte s (q + 8 + nat j) = Some (nat c)"
    using ld_byte_ok b [rule_format, of "nat j"] j Suc.prems by simp
  then show ?case using Suc.hyps(1) [OF n] Suc.prems j c by (simp add: data_kept.simps [of s _ c old j] signed_char_def)
qed

lemma realloc_step:
  assumes d: "driver_ok d bs fl live" and op: "op_type op = REALLOC" "op_index op = i" "op_size op = int n"
    and i: "live i = Some old" "i mod 256 < 128" and n: "24 \<le> n" "n \<le> MAX_HEAP - 8"
    and ne: "\<not> (8 dvd n \<and> old + 32 \<le> n \<and> n < old + 72)"
    and room: "mem_brk (heap d) + cost op \<le> mem_start_brk (heap d) + MAX_HEAP"
      "mem_brk (heap d) + cost op \<le> mem_start_brk (heap d) + stack"
  shows "\<exists>d'. valid_op stack num op d = Some (True, d') \<and> after_op d op (live(i \<mapsto> n)) d'"
proof -
  note ok = driver_okD [OF d]
  let ?U = "used_blocks (heap_base (heap d)) bs"
  obtain u k where u: "0 \<le> i" "nat i < length (block_ptrs d)" "block_ptrs d ! nat i = u + 8" "(u, k) \<in> ?U"
      "block_sizes d ! nat i = old" "nat i < length (block_sizes d)" "9 \<le> old" "old \<le> MAX_HEAP - 8"
      "old + 16 \<le> k" "k < old + 56" "\<forall>x. u + 8 \<le> x \<and> x < u + 8 + old \<longrightarrow> byte (heap d) x = nat (i mod 256)"
    using ok(3) [OF i(1)] unfolding held_def by blast
  note rd = used_reads [OF ok(1) u(4)]
  have cost: "cost op = align n + 16" using op by (simp add: cost_def)
  have room': "mem_brk (heap d) + align n + 16 \<le> mem_max_addr (heap d)"
    using room(1) unfolding cost heap_max [OF ok(1)] by simp
  have "n \<noteq> k + 16"
  proof
    assume k: "n = k + 16"
    have "8 dvd n" unfolding k using rd(3) by (rule dvd_add) simp
    then show False using ne k u(9,10) by auto
  qed
  moreover have "k \<le> n + 16" if "k < 48" using that rd(3) n(1) by (auto elim!: dvdE)
  moreover have "9 \<le> n" using n(1) by simp
  moreover have "k \<le> stack" using rd(6,7) room(2) by simp
  ultimately obtain q h bs' fl' where m: "mm_realloc stack (heap d) (u + 8) n = Some (q + 8, h)"
      "reallocated (heap d) bs u k n q h bs' fl'"
    using realloc_ok [OF ok(1) u(4) _ n(2) _ _ _ room'] by blast
  then obtain l where r: "heap_ok h bs' fl'" "mem_start_brk h = mem_start_brk (heap d)"
      "mem_brk h \<le> mem_brk (heap d) + align n + 16" "used_same (heap d) h (?U - {(u, k)})"
      "n + 16 \<le> l" "l < n + 56" "(q, l) \<notin> ?U - {(u, k)}"
      "used_blocks (heap_base (heap d)) bs' = insert (q, l) (?U - {(u, k)})"
      "\<forall>i. 0 < i \<and> 8 * i + 8 < k \<and> 8 * i + 8 < l \<longrightarrow> cells h (q + 8 * i) = cells (heap d) (u + 8 * i)"
      "mem_brk (heap d) \<le> mem_brk h"
    unfolding reallocated_def by blast
  let ?live = "live(i := None)" and ?U' = "?U - {(u, k)}"
  let ?d = "d\<lparr>ranges := remove_range (u + 8) (ranges d)\<rparr>"
  let ?d1 = "?d\<lparr>heap := h\<rparr>"
  have d0: "driver_ok ?d bs fl ?live" using driver_ok_forget [OF d i(1)] u(3) by simp
  have others: "(v, j) \<in> ?U'" if "?live a = Some b" "block_ptrs ?d ! nat a = v + 8" "(v, j) \<in> ?U" for a b v j
  proof -
    have "a \<noteq> i" "live a = Some b" using that(1) by (auto split: if_splits)
    then have "v \<noteq> u" using ok(4) [of a b i old] i(1) u(3) that(2) by auto
    then show ?thesis using that(3) by simp
  qed
  have same: "used_same (heap ?d) h ?U'" using r(4) by simp
  have d1: "driver_ok ?d1 bs' fl' ?live"
  proof (rule driver_ok_heap [OF d0 r(1) _ _ _ same])
    show "(v, j) \<in> ?U'" if "?live a = Some b" "block_ptrs ?d ! nat a = v + 8"
        "(v, j) \<in> used_blocks (heap_base (heap ?d)) bs" for a b v j
      using others [OF that(1,2)] that(3) by simp
  qed (use r(2,8) in auto)
  have "block_ptrs ?d1 ! nat a \<noteq> q + 8" if a: "?live a = Some b" for a b
  proof
    assume eq: "block_ptrs ?d1 ! nat a = q + 8"
    obtain v j where v: "block_ptrs ?d ! nat a = v + 8" "(v, j) \<in> used_blocks (heap_base (heap ?d)) bs"
      using driver_okD(3) [OF d0 a] unfolding held_def by blast
    have "(v, j) \<in> ?U'" using others [OF a v(1)] v(2) by simp
    moreover have "v = q" using eq v(1) by simp
    moreover have "used_blocks (heap_base h) bs' = insert (q, l) ?U'" using r(2,8) by simp
    ultimately show False using new_start [OF r(1) _ r(7)] by blast
  qed
  then have new: "new_block ?d1 bs' ?live q l n"
    using r(2,5,6,8) n by (auto simp: new_block_def)
  let ?d2 = "?d1\<lparr>ranges := (q + 8, q + 8 + n - 1) # ranges ?d1\<rparr>"
  obtain d3 where d3: "fill_and_remember (q + 8) i (int n) ?d2 = Some d3"
    "driver_ok d3 bs' fl' (?live(i \<mapsto> n))" "mem_start_brk (heap d3) = mem_start_brk h" "mem_brk (heap d3) = mem_brk h"
    "length (block_ptrs d3) = length (block_ptrs d)" "reported d3 = reported d"
    using fill_ok [OF d1 new u(1) _ _ refl] u(2) by auto
  have mem: "(q, l) \<in> used_blocks (heap_base h) bs'" using r(2,8) by simp
  have kept: "data_kept h (q + 8) (i mod 256) (min (int n) (int old)) 0 = Some True"
  proof (rule data_kept_ok [OF r(1) mem])
    show "\<forall>j. int j < min (int n) (int old) \<longrightarrow> byte h (q + 8 + j) = nat (i mod 256)"
    proof (intro allI impI)
      fix j assume j: "int j < min (int n) (int old)"
      have "byte h (q + 8 + j) = byte (heap d) (u + 8 + j)"
        by (rule copied_bytes [OF r(9) used_reads(4) [OF r(1) mem] rd(4)]) (use j r(5) u(9) in auto)
      then show "byte h (q + 8 + j) = nat (i mod 256)" using u(11) j by auto
    qed
  qed (use i(2) r(5) in auto)
  have "n < old \<Longrightarrow> data_kept h (q + 8) (i mod 256) (int n) 0 = Some True"
    "\<not> n < old \<Longrightarrow> data_kept h (q + 8) (i mod 256) (int old) 0 = Some True"
    using kept by (simp_all add: min_def split: if_splits)
  moreover have "to_int32 old = int old" using u(8) by simp
  moreover have "aget (block_ptrs d) i = Some (u + 8)" "aget (block_sizes d) i = Some old"
    using aget_nat [OF u(2)] aget_nat [OF u(6)] u(1,3,5) by simp_all
  moreover have "int_to_size (int n) = n" using int_to_size_nat [of "int n"] n by simp
  ultimately have "valid_op stack num op d = Some (True, d3)"
    using op m(1) add_range_ok [OF d1 new, of num] d3(1)
    by (simp add: valid_op_def Let_def driver_updates)
  moreover have "after_op d op (live(i \<mapsto> n)) d3"
    unfolding after_op_def cost using d3 r(2,3,10) by auto
  ultimately show ?thesis by blast
qed

section \<open>Whole traces\<close>

text \<open>The traces the driver is meant for: an index is allocated when it holds no block and freed or
reallocated when it holds one, every request is of at least 9 bytes, and a reallocation avoids the
sizes \<open>mm_realloc\<close> does not serve. The low byte of a reallocated index is below 128.\<close>

fun good_trace :: "nat \<Rightarrow> (int \<Rightarrow> nat option) \<Rightarrow> traceop list \<Rightarrow> bool" where
  "good_trace ids live [] = True"
| "good_trace ids live (op # ops) =
     (let i = op_index op; n = nat (op_size op)
      in case op_type op of
         ALLOC \<Rightarrow> 0 \<le> i \<and> nat i < ids \<and> live i = None \<and> 9 \<le> n \<and> n \<le> MAX_HEAP - 8 \<and>
           good_trace ids (live(i := Some n)) ops
       | FREE \<Rightarrow> live i \<noteq> None \<and> good_trace ids (live(i := None)) ops
       | REALLOC \<Rightarrow> 24 \<le> n \<and> n \<le> MAX_HEAP - 8 \<and> i mod 256 < 128 \<and>
           (case live i of None \<Rightarrow> False | Some old \<Rightarrow> \<not> (8 dvd n \<and> old + 32 \<le> n \<and> n < old + 72)) \<and>
           good_trace ids (live(i := Some n)) ops)"

definition demand :: "traceop list \<Rightarrow> nat" where
  "demand ops = sum_list (map cost ops)"

definition live_after :: "(int \<Rightarrow> nat option) \<Rightarrow> traceop \<Rightarrow> int \<Rightarrow> nat option" where
  "live_after live op = live(op_index op := (if op_type op = FREE then None else Some (nat (op_size op))))"

lemma good_trace_step:
  assumes "good_trace ids live (op # ops)"
  shows "good_trace ids (live_after live op) ops"
    "op_type op = ALLOC \<Longrightarrow> live (op_index op) = None"
    "op_type op \<noteq> ALLOC \<Longrightarrow> \<exists>old. live (op_index op) = Some old"
    "op_type op \<noteq> FREE \<Longrightarrow> 9 \<le> nat (op_size op) \<and> nat (op_size op) \<le> MAX_HEAP - 8"
  using assms by (auto simp: live_after_def Let_def split: request.splits option.splits)

text \<open>The three requests together.\<close>

lemma good_step:
  assumes d: "driver_ok d bs fl live" and good: "good_trace (length (block_ptrs d)) live (op # ops)"
    and room: "mem_brk (heap d) + cost op \<le> mem_start_brk (heap d) + MAX_HEAP"
      "mem_brk (heap d) + cost op \<le> mem_start_brk (heap d) + stack"
  shows "\<exists>d'. valid_op stack num op d = Some (True, d') \<and> after_op d op (live_after live op) d'"
proof (cases "op_type op")
  case ALLOC
  define n where "n = nat (op_size op)"
  have g: "0 \<le> op_index op" "nat (op_index op) < length (block_ptrs d)" "live (op_index op) = None" "9 \<le> n" "n \<le> MAX_HEAP - 8"
    using good ALLOC by (auto simp: n_def Let_def)
  have "op_size op = int n" using g(4) by (simp add: n_def)
  then show ?thesis using alloc_ok [OF d ALLOC refl _ g room(1)] ALLOC by (simp add: live_after_def)
next
  case FREE
  obtain n where "live (op_index op) = Some n" using good FREE by (auto simp: Let_def)
  then show ?thesis using free_ok [OF d FREE refl] FREE by (simp add: live_after_def)
next
  case REALLOC
  define n where "n = nat (op_size op)"
  have g: "24 \<le> n" "n \<le> MAX_HEAP - 8" "op_index op mod 256 < 128" using good REALLOC by (auto simp: n_def Let_def)
  obtain old where old: "live (op_index op) = Some old" "\<not> (8 dvd n \<and> old + 32 \<le> n \<and> n < old + 72)"
    using good REALLOC by (auto simp: n_def Let_def split: option.splits)
  have "op_size op = int n" using g(1) by (simp add: n_def)
  then show ?thesis using realloc_step [OF d REALLOC refl _ old(1) g(3,1,2) old(2) room] REALLOC by (simp add: live_after_def)
qed

lemma demand_step:
  assumes "after_op d op live' d'" "mem_brk (heap d) + demand (op # ops) \<le> mem_start_brk (heap d) + limit"
  shows "mem_brk (heap d') + demand ops \<le> mem_start_brk (heap d') + limit"
  using assms by (auto simp: after_op_def demand_def)

lemma valid_loop_ok:
  assumes "driver_ok d bs fl live" "good_trace (length (block_ptrs d)) live ops"
    and "mem_brk (heap d) + demand ops \<le> mem_start_brk (heap d) + MAX_HEAP"
      "mem_brk (heap d) + demand ops \<le> mem_start_brk (heap d) + stack"
  shows "\<exists>d'. valid_loop stack i ops d = Some (1, d') \<and> reported d' = reported d"
  using assms
proof (induction ops arbitrary: i d bs fl live)
  case Nil
  then show ?case by simp
next
  case (Cons op ops)
  have "mem_brk (heap d) + cost op \<le> mem_start_brk (heap d) + MAX_HEAP" "mem_brk (heap d) + cost op \<le> mem_start_brk (heap d) + stack"
    using Cons.prems(3,4) by (simp_all add: demand_def)
  then obtain d1 where v: "valid_op stack i op d = Some (True, d1)" and a: "after_op d op (live_after live op) d1"
    using good_step [OF Cons.prems(1,2)] by blast
  obtain bs1 fl1 where d1: "driver_ok d1 bs1 fl1 (live_after live op)" "length (block_ptrs d1) = length (block_ptrs d)"
    "reported d1 = reported d" using a by (auto simp: after_op_def)
  have "\<exists>d'. valid_loop stack (i + 1) ops d1 = Some (1, d') \<and> reported d' = reported d1"
    by (rule Cons.IH [OF d1(1) _ demand_step [OF a Cons.prems(3)] demand_step [OF a Cons.prems(4)]])
      (use good_trace_step(1) [OF Cons.prems(2)] d1(2) in simp)
  then show ?case using v d1(3) by auto
qed

text \<open>The region the driver obtained from the operating system.\<close>

definition heap_region :: "mm \<Rightarrow> bool" where
  "heap_region s \<longleftrightarrow> 0 < mem_start_brk s \<and> 8 dvd mem_start_brk s \<and> mem_max_addr s = mem_start_brk s + MAX_HEAP"

lemma driver_start:
  assumes "heap_region (heap d)" "length (block_sizes d) = length (block_ptrs d)"
  shows "\<exists>h. mm_init (mem_reset_brk (heap d)) = Some h \<and>
    driver_ok (d\<lparr>heap := h, ranges := []\<rparr>) [] [] Map.empty \<and> mem_brk h = mem_start_brk h + 16"
  using mm_init_reset [of "heap d"] assms by (auto simp: driver_ok_def heap_region_def)

text \<open>C6. On the traces of \<open>good_trace\<close> the driver accepts the allocator: \<open>eval_mm_valid\<close> returns 1
and reports no error, so every block is aligned, inside the heap and apart from all others, and a
reallocation preserves every byte the driver wrote. Such a trace allocates an index in the range of the driver's
arrays only while it holds no block, frees and reallocates it only while it holds one; it allocates at least 9
bytes and reallocates to at least 24, at most \<open>MAX_HEAP - 8\<close> each; it does not reallocate to a multiple of 8 which is
32 to 71 bytes more than the old size, nor under an index whose low byte is 128 or more, where the driver
reports an error whatever the allocator does (\<open>data_kept_high\<close>); and the sum of all its requests, with their tags,
fits the heap, and the stack, on which a reallocation copies the old block.\<close>

theorem driver_accepts:
  assumes "heap_region (heap d)" "length (block_sizes d) = length (block_ptrs d)"
    and "good_trace (length (block_ptrs d)) Map.empty ops" "demand ops + 16 \<le> MAX_HEAP" "demand ops + 16 \<le> stack"
  shows "\<exists>d'. eval_mm_valid stack ops d = Some (1, d') \<and> reported d' = reported d"
proof -
  obtain h where h: "mm_init (mem_reset_brk (heap d)) = Some h"
    "driver_ok (d\<lparr>heap := h, ranges := []\<rparr>) [] [] Map.empty" "mem_brk h = mem_start_brk h + 16"
    using driver_start [OF assms(1,2)] by blast
  have "\<exists>d'. valid_loop stack 0 ops (d\<lparr>heap := h, ranges := []\<rparr>) = Some (1, d') \<and> reported d' = reported d"
    using valid_loop_ok [OF h(2), of ops stack 0] assms(3-5) h(3) by fastforce
  then show ?thesis using h(1) by (simp add: eval_mm_valid_def Let_def driver_updates)
qed

definition sample_driver :: driver where
  "sample_driver = \<lparr>heap = \<lparr>cells = (\<lambda>_. 0), mem_start_brk = 8, mem_brk = 8, mem_max_addr = 8 + MAX_HEAP,
      flist_first = 0\<rparr>, ranges = [], block_ptrs = [0, 0], block_sizes = [0, 0], reported = []\<rparr>"

definition sample_trace :: "traceop list" where
  "sample_trace = [\<lparr>op_type = ALLOC, op_index = 0, op_size = 100\<rparr>, \<lparr>op_type = ALLOC, op_index = 1, op_size = 40\<rparr>,
     \<lparr>op_type = REALLOC, op_index = 0, op_size = 300\<rparr>, \<lparr>op_type = FREE, op_index = 1, op_size = 0\<rparr>]"

lemma sample_demand: "demand sample_trace + 16 \<le> MAX_HEAP" "demand sample_trace + 16 \<le> 4096"
  using align_props(3) [of 100] align_props(3) [of 40] align_props(3) [of 300]
  by (simp_all add: demand_def sample_trace_def cost_def MAX_HEAP_def)

theorem driver_accepts_witness:
  "\<exists>d'. eval_mm_valid 4096 sample_trace sample_driver = Some (1, d') \<and> reported d' = []"
  using driver_accepts [OF _ _ _ sample_demand, of sample_driver]
  by (simp add: sample_driver_def sample_trace_def heap_region_def MAX_HEAP_def Let_def)

section \<open>Where the driver is wrong\<close>

text \<open>A \<open>char\<close> is signed and never equals a low byte of 128 or more, so a reallocation under such an
index is reported whatever the allocator did.\<close>

lemma data_kept_high:
  assumes "ld_byte s p = Some b" "b < 256" "128 \<le> c" "0 < old"
  shows "data_kept s p c old 0 = Some False"
  using assms by (simp add: data_kept.simps [of s p c old 0] signed_char_def)

text \<open>A payload that contains another one is not seen to overlap it.\<close>

lemma overlap_missed: "\<not> overlaps 8 40 [(16, 24)] \<and> overlaps 16 24 [(8, 40)]"
  by simp

end
