(* ===== verification/MmUtil.thy ===== *)
theory MmUtil
  imports MmValid
begin

text \<open>The utilisation the driver measures: the most bytes the trace ever held, which the heap can
hold, and the same run as the test of validity.\<close>

definition live_bytes :: "(int \<Rightarrow> nat option) \<Rightarrow> nat" where
  "live_bytes live = (\<Sum>i\<in>dom live. the (live i))"

text \<open>The most bytes a trace holds at any time.\<close>

fun peak :: "(int \<Rightarrow> nat option) \<Rightarrow> traceop list \<Rightarrow> nat" where
  "peak live [] = live_bytes live"
| "peak live (op # ops) = max (live_bytes live) (peak (live_after live op) ops)"

lemma live_finite:
  assumes "driver_ok d bs fl live"
  shows "finite (dom live)"
proof (rule finite_subset)
  show "dom live \<subseteq> {0..int (length (block_ptrs d))}" using driver_okD(3) [OF assms] by (fastforce simp: held_def)
qed simp

lemma live_bytes_put:
  assumes "finite (dom live)"
  shows "live_bytes (live(i := Some n)) = n + live_bytes (live(i := None))"
proof -
  have "(\<Sum>j\<in>dom live - {i}. the ((live(i := Some n)) j)) = (\<Sum>j\<in>dom live - {i}. the ((live(i := None)) j))"
    by (rule sum.cong) auto
  then show ?thesis using assms by (simp add: live_bytes_def sum.insert_remove)
qed

lemma live_bytes_forget:
  assumes "finite (dom live)" "live i = Some n"
  shows "live_bytes live = n + live_bytes (live(i := None))"
  using live_bytes_put [OF assms(1), of i n] assms(2) by (simp add: fun_upd_idem)

lemma live_fits:
  assumes d: "driver_ok d bs fl live"
  shows "live_bytes live \<le> mem_heapsize (heap d)"
proof -
  let ?I = "\<lambda>i. {block_ptrs d ! nat i..<block_ptrs d ! nat i + the (live i)}"
  note ok = driver_okD [OF d]
  have used: "\<exists>q k. block_ptrs d ! nat i = q + 8 \<and> (q, k) \<in> used_blocks (heap_base (heap d)) bs \<and> n + 16 \<le> k"
    if "live i = Some n" for i n
    using ok(3) [OF that] unfolding held_def by blast
  have "?I i \<inter> ?I j = {}" if ij: "i \<in> dom live" "j \<in> dom live" "i \<noteq> j" for i j
  proof -
    obtain n m where l: "live i = Some n" "live j = Some m" using ij(1,2) by auto
    obtain q k v w where q: "block_ptrs d ! nat i = q + 8" "(q, k) \<in> used_blocks (heap_base (heap d)) bs" "n + 16 \<le> k"
      and v: "block_ptrs d ! nat j = v + 8" "(v, w) \<in> used_blocks (heap_base (heap d)) bs" "m + 16 \<le> w"
      using used [OF l(1)] used [OF l(2)] by blast
    have "(q, k) \<noteq> (v, w)" using ok(4) [OF l] ij(3) q(1) v(1) by auto
    then have "q + k \<le> v \<or> v + w \<le> q" by (rule used_apart [OF ok(1) q(2) v(2)])
    then show ?thesis using q(1,3) v(1,3) l by auto
  qed
  then have "card (\<Union>i\<in>dom live. ?I i) = (\<Sum>i\<in>dom live. card (?I i))"
    by (intro card_UN_disjoint live_finite [OF d]) auto
  then have "live_bytes live = card (\<Union>i\<in>dom live. ?I i)" by (simp add: live_bytes_def)
  also have "\<dots> \<le> card {mem_start_brk (heap d)..<mem_brk (heap d)}"
  proof (rule card_mono)
    show "(\<Union>i\<in>dom live. ?I i) \<subseteq> {mem_start_brk (heap d)..<mem_brk (heap d)}"
    proof
      fix x assume "x \<in> (\<Union>i\<in>dom live. ?I i)"
      then obtain i n where i: "live i = Some n" "x \<in> ?I i" by auto
      obtain q k where q: "block_ptrs d ! nat i = q + 8" "(q, k) \<in> used_blocks (heap_base (heap d)) bs" "n + 16 \<le> k"
        using used [OF i(1)] by blast
      show "x \<in> {mem_start_brk (heap d)..<mem_brk (heap d)}" using used_reads(6,7) [OF ok(1) q(2)] q(1,3) i by auto
    qed
  qed simp
  finally show ?thesis by (simp add: mem_heapsize_def)
qed

lemma held_size:
  assumes "held h bs ptrs sizes i n"
  shows "aget sizes i = Some n" "n \<le> MAX_HEAP"
proof -
  have n: "0 \<le> i" "nat i < length sizes" "sizes ! nat i = n" "n \<le> MAX_HEAP - 8" using assms by (auto simp: held_def)
  then show "aget sizes i = Some n" by (simp add: aget_def)
  show "n \<le> MAX_HEAP" using n(4) by linarith
qed

text \<open>A request the test of validity accepts runs in the same way here.\<close>

lemma util_op_ok:
  assumes d: "driver_ok d bs fl live" and good: "good_trace ids live (op # ops)"
    and v: "valid_op stack num op d = Some (True, d')" and m: "int (live_bytes live) \<le> m"
  shows "util_op stack num op d (int (live_bytes live), m) =
    Some (Some (int (live_bytes (live_after live op)), max m (int (live_bytes (live_after live op)))), d')"
proof (cases "op_type op")
  case ALLOC
  have "live (op_index op) = None" "9 \<le> nat (op_size op)" using good_trace_step(2,4) [OF good] ALLOC by auto
  then have "int (live_bytes (live_after live op)) = int (live_bytes live) + op_size op"
    using live_bytes_put [OF live_finite [OF d], of "op_index op" "nat (op_size op)"] ALLOC by (simp add: live_after_def fun_upd_idem)
  then show ?thesis using v ALLOC
    by (auto simp: valid_op_def util_op_def Let_def bind_eq_Some_conv c_assert_def max_def split: if_splits)
next
  case FREE
  obtain old where old: "live (op_index op) = Some old" using good_trace_step(3) [OF good] FREE by auto
  note held_size [OF driver_okD(3) [OF d old]]
  moreover have "int (live_bytes (live_after live op)) = int (live_bytes live) - int old" 
    using live_bytes_forget [OF live_finite [OF d] old] FREE by (simp add: live_after_def)
  ultimately show ?thesis using v FREE m
    by (auto simp: valid_op_def util_op_def Let_def bind_eq_Some_conv max_def)
next
  case REALLOC
  obtain old where old: "live (op_index op) = Some old" using good_trace_step(3) [OF good] REALLOC by auto
  note held_size [OF driver_okD(3) [OF d old]]
  moreover have "9 \<le> nat (op_size op)" using good_trace_step(4) [OF good] REALLOC by auto
  then have "int (live_bytes (live_after live op)) = int (live_bytes live) + (op_size op - int old)"
    using live_bytes_forget [OF live_finite [OF d] old] live_bytes_put [OF live_finite [OF d], of "op_index op" "nat (op_size op)"] REALLOC
    by (simp add: live_after_def)
  ultimately show ?thesis using v REALLOC
    by (auto simp: valid_op_def util_op_def Let_def bind_eq_Some_conv c_assert_def max_def split: if_splits)
qed

lemma peak_ge: "live_bytes live \<le> peak live ops"
  by (cases ops) simp_all

lemma util_loop_ok:
  assumes "driver_ok d bs fl live" "good_trace (length (block_ptrs d)) live ops"
    and "mem_brk (heap d) + demand ops \<le> mem_start_brk (heap d) + MAX_HEAP"
      "mem_brk (heap d) + demand ops \<le> mem_start_brk (heap d) + stack"
    and "live_bytes live \<le> m" "m \<le> mem_heapsize (heap d)"
  shows "\<exists>t d'. util_loop stack i ops d (int (live_bytes live), int m) = Some (Some (t, int (max m (peak live ops))), d') \<and>
    max m (peak live ops) \<le> mem_heapsize (heap d') \<and> valid_loop stack i ops d = Some (1, d')"
  using assms
proof (induction ops arbitrary: i d bs fl live m)
  case Nil
  then show ?case by (auto simp: max_def)
next
  case (Cons op ops)
  let ?live = "live_after live op" and ?m = "max m (live_bytes (live_after live op))"
  have "mem_brk (heap d) + cost op \<le> mem_start_brk (heap d) + MAX_HEAP" "mem_brk (heap d) + cost op \<le> mem_start_brk (heap d) + stack"
    using Cons.prems(3,4) by (simp_all add: demand_def)
  then obtain d1 where v: "valid_op stack i op d = Some (True, d1)" and a: "after_op d op ?live d1"
    using good_step [OF Cons.prems(1,2)] by blast
  obtain bs1 fl1 where d1: "driver_ok d1 bs1 fl1 ?live" "length (block_ptrs d1) = length (block_ptrs d)"
      "mem_start_brk (heap d1) = mem_start_brk (heap d)" "mem_brk (heap d) \<le> mem_brk (heap d1)"
    using a by (auto simp: after_op_def)
  have u: "util_op stack i op d (int (live_bytes live), int m) = Some (Some (int (live_bytes ?live), int ?m), d1)"
    using util_op_ok [OF Cons.prems(1,2) v, of "int m"] Cons.prems(5) by (simp add: of_nat_max)
  have g: "good_trace (length (block_ptrs d1)) ?live ops"
    using good_trace_step(1) [OF Cons.prems(2)] d1(2) by simp
  have fits: "?m \<le> mem_heapsize (heap d1)"
    using live_fits [OF d1(1)] Cons.prems(6) d1(3,4) by (simp add: mem_heapsize_def)
  obtain t d' where t: "util_loop stack (i + 1) ops d1 (int (live_bytes ?live), int ?m) = Some (Some (t, int (max ?m (peak ?live ops))), d')"
    "max ?m (peak ?live ops) \<le> mem_heapsize (heap d')" "valid_loop stack (i + 1) ops d1 = Some (1, d')"
    using Cons.IH [OF d1(1) g demand_step [OF a Cons.prems(3)] demand_step [OF a Cons.prems(4)] max.cobounded2 fits, of "i + 1"] by blast
  have m: "max ?m (peak ?live ops) = max m (peak live (op # ops))"
    using peak_ge [of ?live ops] Cons.prems(5) by (simp add: max_def)
  have "util_loop stack i (op # ops) d (int (live_bytes live), int m) = Some (Some (t, int (max m (peak live (op # ops)))), d')"
    using t(1) unfolding m by (simp only: util_loop.simps u bind.bind_lunit case_prod_conv option.case)
  moreover have "valid_loop stack i (op # ops) d = Some (1, d')" using v t(3) by simp
  ultimately show ?case using t(2) unfolding m by blast
qed

text \<open>C7. On the traces of \<open>driver_accepts\<close> (well formed, of at least 9 bytes for an allocation and 24 for a
reallocation, outside the sizes and indices listed there, the sum of all requests fitting the heap and the
stack), \<open>eval_mm_util\<close> takes the allocator through the same states as
\<open>eval_mm_valid\<close> and returns the most bytes the trace ever held together with the size of the heap,
which is at least as large: the utilisation is at most 1.\<close>

theorem utilisation_is_peak:
  assumes "heap_region (heap d)" "length (block_sizes d) = length (block_ptrs d)"
    and "good_trace (length (block_ptrs d)) Map.empty ops" "demand ops + 16 \<le> MAX_HEAP" "demand ops + 16 \<le> stack"
  shows "\<exists>hs d'. eval_mm_util stack ops d = Some (Some (int (peak Map.empty ops), hs), d') \<and>
    peak Map.empty ops \<le> hs \<and> hs = mem_heapsize (heap d') \<and> eval_mm_valid stack ops d = Some (1, d')"
proof -
  obtain h where h: "mm_init (mem_reset_brk (heap d)) = Some h"
    "driver_ok (d\<lparr>heap := h, ranges := []\<rparr>) [] [] Map.empty" "mem_brk h = mem_start_brk h + 16"
    using driver_start [OF assms(1,2)] by blast
  let ?d = "d\<lparr>heap := h, ranges := []\<rparr>"
  have "live_bytes Map.empty = 0" by (simp add: live_bytes_def)
  then obtain t d' where "util_loop stack 0 ops ?d (0, 0) = Some (Some (t, int (peak Map.empty ops)), d')"
      "peak Map.empty ops \<le> mem_heapsize (heap d')" "valid_loop stack 0 ops ?d = Some (1, d')"
    using util_loop_ok [OF h(2), of ops stack 0 0] assms(3-5) h(3) by auto
  then show ?thesis using h(1)
    by (simp add: eval_mm_util_def eval_mm_valid_def Let_def driver_updates)
qed

theorem utilisation_is_peak_witness:
  "\<exists>hs d'. eval_mm_util 4096 sample_trace sample_driver = Some (Some (int (peak Map.empty sample_trace), hs), d') \<and>
    peak Map.empty sample_trace \<le> hs \<and> hs = mem_heapsize (heap d') \<and>
    eval_mm_valid 4096 sample_trace sample_driver = Some (1, d')"
  by (rule utilisation_is_peak [OF _ _ _ sample_demand])
    (simp_all add: sample_driver_def sample_trace_def heap_region_def MAX_HEAP_def Let_def)

end
