(* ===== verification/Bits.thy ===== *)
theory Bits
  imports CPrelude
begin

text \<open>
  The bit puzzles of \<open>systems/cs033/data/data\<close>: the solutions of \<open>bits.c\<close>, written with
  \<open>! ~ & ^ | + << >>\<close> only, and the reference functions of \<open>tests.c\<close> that \<open>btest.c\<close> compares
  them with. Both are functions on 32-bit words, so that each puzzle is an equation between
  the two for every input the comments of \<open>bits.c\<close> allow.
\<close>

section \<open>The solutions of bits.c\<close>

definition bit_and :: "c_int \<Rightarrow> c_int \<Rightarrow> c_int" where
  "bit_and x y = NOT (NOT x OR NOT y)"

definition negate :: "c_int \<Rightarrow> c_int" where
  "negate x = NOT x + 1"

definition is_equal :: "c_int \<Rightarrow> c_int \<Rightarrow> c_int" where
  "is_equal x y = lnot (x XOR y)"

definition div_pwr_2 :: "c_int \<Rightarrow> nat \<Rightarrow> c_int" where
  "div_pwr_2 x n =
     (let negative = shr x 31 AND 1;
          less_than_2n = NOT (shl (NOT 0) n);
          remainder = lnot (lnot (x AND less_than_2n))
      in shr x n + (negative AND remainder AND lnot (lnot (of_nat n))))"

definition conditional :: "c_int \<Rightarrow> c_int \<Rightarrow> c_int \<Rightarrow> c_int" where
  "conditional x y z =
     (let true_c = shr (shl (lnot (lnot x)) 31) 31;
          false_c = shr (shl (lnot x) 31) 31
      in (true_c AND y) OR (false_c AND z))"

definition replaceByte :: "c_int \<Rightarrow> nat \<Rightarrow> c_int \<Rightarrow> c_int" where
  "replaceByte x n c =
     (let byte_mask = 0xFF;
          all_ones = NOT 0;
          jump = push_bit 3 n
      in (x AND (all_ones XOR shl byte_mask jump)) OR shl c jump)"

definition add_ok :: "c_int \<Rightarrow> c_int \<Rightarrow> c_int" where
  "add_ok x y =
     (let same_sign = (shr x 31 XOR shr y 31) XOR 1
      in lnot (same_sign AND ((shr (x + y) 31 AND 1) XOR (shr x 31 AND 1))))"

definition abs_val :: "c_int \<Rightarrow> c_int" where
  "abs_val x =
     (let last_bit = shr x 31;
          negate = x XOR last_bit
      in negate + (shr x 31 AND 1))"

definition bang :: "c_int \<Rightarrow> c_int" where
  "bang x =
     (let one = shr x 31 AND 1;
          negate_one = shr (NOT x + 1) 31 AND 1
      in (one OR negate_one) XOR 1)"

section \<open>The reference functions of tests.c\<close>

definition test_bit_and :: "c_int \<Rightarrow> c_int \<Rightarrow> c_int" where
  "test_bit_and x y = x AND y"

definition test_negate :: "c_int \<Rightarrow> c_int" where
  "test_negate x = - x"

definition test_is_equal :: "c_int \<Rightarrow> c_int \<Rightarrow> c_int" where
  "test_is_equal x y = of_cond (x = y)"

definition test_div_pwr_2 :: "c_int \<Rightarrow> nat \<Rightarrow> c_int" where
  "test_div_pwr_2 x n = (let p2n = shl 1 n in word_of_int (sint x sdiv sint p2n))"

definition test_conditional :: "c_int \<Rightarrow> c_int \<Rightarrow> c_int \<Rightarrow> c_int" where
  "test_conditional x y z = (if x \<noteq> 0 then y else z)"

definition test_replaceByte :: "c_int \<Rightarrow> nat \<Rightarrow> c_int \<Rightarrow> c_int" where
  "test_replaceByte x n c =
     (if n = 0 then (x AND 0xFFFFFF00) OR c
      else if n = 1 then (x AND 0xFFFF00FF) OR shl c 8
      else if n = 2 then (x AND 0xFF00FFFF) OR shl c 16
      else (x AND 0x00FFFFFF) OR shl c 24)"

text \<open>The sum is taken in \<open>long long\<close> and compared with its own cast to \<open>int\<close>.\<close>

definition test_add_ok :: "c_int \<Rightarrow> c_int \<Rightarrow> c_int" where
  "test_add_ok x y =
     (let lsum = sint x + sint y in of_cond (lsum = sint (word_of_int lsum :: c_int)))"

definition test_abs_val :: "c_int \<Rightarrow> c_int" where
  "test_abs_val x = (if sint x < 0 then - x else x)"

definition test_bang :: "c_int \<Rightarrow> c_int" where
  "test_bang x = lnot x"

section \<open>Each solution meets its reference\<close>

lemma bit_and_ok: "bit_and x y = test_bit_and x y"
  by (simp add: bit_and_def test_bit_and_def)

lemma negate_ok: "negate x = test_negate x"
  by (simp add: negate_def test_negate_def minus_eq_not_plus_1)

lemma is_equal_ok: "is_equal x y = test_is_equal x y"
proof -
  have "x XOR y = 0 \<longleftrightarrow> x = y"
    by (metis xor.left_neutral xor.assoc xor_self_eq)
  then show ?thesis by (simp add: is_equal_def test_is_equal_def c_defs)
qed

lemma conditional_ok: "conditional x y z = test_conditional x y z"
  by (simp add: conditional_def test_conditional_def shr_31 lnot_def shl_def)

lemma abs_val_ok: "abs_val x = test_abs_val x"
proof (cases "sint x < 0")
  case True
  then show ?thesis
    by (simp add: abs_val_def test_abs_val_def shr_31 minus_eq_not_plus_1 [of x])
next
  case False
  then show ?thesis by (simp add: abs_val_def test_abs_val_def shr_31)
qed

lemma bang_ok: "bang x = test_bang x"
proof -
  have "NOT x + 1 = - x" by (simp add: not_eq_complement)
  moreover have "sint (- x) < 0 \<longleftrightarrow> 0 < sint x \<or> sint x = - 2147483648"
    using sint_bounds32 [of x] by (simp add: sint_minus32 signed_take_bit32)
  moreover have "sint x = 0 \<longleftrightarrow> x = 0" by (simp add: signed_eq_0_iff)
  ultimately show ?thesis
    by (auto simp: bang_def test_bang_def shr_31 lnot_def simp del: minus_add_distrib)
qed

lemma add_ok_ok: "add_ok x y = test_add_ok x y"
  using sint_bounds32 [of x] sint_bounds32 [of y]
  by (simp add: add_ok_def test_add_ok_def Let_def shr_31 lnot_def of_cond_def
      sint_add32 sint_of_int32 signed_take_bit32)

lemma mask_numerals:
  "(4294967040 :: c_int) = - 256" "(4294902015 :: c_int) = - 65281"
  "(4278255615 :: c_int) = - 16711681" "(16777215 :: c_int) = - 4278190081"
  by (simp_all add: word_uint_eq_iff)

lemma replaceByte_ok: "n \<le> 3 \<Longrightarrow> replaceByte x n c = test_replaceByte x n c"
proof -
  assume "n \<le> 3"
  then consider "n = 0" | "n = 1" | "n = 2" | "n = 3" by linarith
  then show ?thesis
    by cases (simp_all add: replaceByte_def test_replaceByte_def shl_def mask_numerals)
qed

lemma sdiv_pow2:
  fixes a :: int
  shows "a sdiv 2 ^ n = a div 2 ^ n + (if a < 0 \<and> \<not> 2 ^ n dvd a then 1 else 0)"
  by (auto simp: signed_divide_int_eq_divide_int sgn_if)

lemma low_bits_zero_iff:
  "n \<le> 30 \<Longrightarrow> x AND NOT (shl (NOT 0) n) = 0 \<longleftrightarrow> 2 ^ n dvd sint (x :: c_int)"
proof -
  assume n: "n \<le> 30"
  have "x AND NOT (shl (NOT 0) n) = take_bit n x"
    by (simp add: shl_def take_bit_eq_mask mask_eq_exp_minus_1 push_bit_minus_one not_eq_complement)
  moreover have "uint (take_bit n x) = take_bit n (sint x)"
    using n by (simp add: unsigned_take_bit_eq sint_uint take_bit_signed_take_bit)
  moreover have "take_bit n (sint x) = 0 \<longleftrightarrow> 2 ^ n dvd sint x"
    by (rule take_bit_eq_0_iff)
  ultimately show ?thesis by (metis unsigned_eq_0_iff)
qed

lemma sint_shl_1:
  assumes n: "n \<le> 30"
  shows "sint (shl 1 n :: c_int) = 2 ^ n"
proof -
  have le: "(2 :: int) ^ n \<le> 2 ^ 30" using n by (intro power_increasing) auto
  have "shl 1 n = (word_of_int (2 ^ n) :: c_int)"
    by (simp add: shl_def push_bit_eq_mult)
  then have "sint (shl 1 n :: c_int) = signed_take_bit 31 (2 ^ n)"
    by (simp only: sint_of_int32)
  also have "\<dots> = 2 ^ n"
  proof (rule signed_take_bit_int_eq_self)
    have "- (2 ^ 31) \<le> (0 :: int)" by simp
    also have "0 \<le> (2 :: int) ^ n" by simp
    finally show "- (2 ^ 31) \<le> (2 :: int) ^ n" .
    show "(2 :: int) ^ n < 2 ^ 31" using le by simp
  qed
  finally show ?thesis .
qed

lemma div_pwr_2_ok:
  assumes n: "n \<le> 30"
  shows "div_pwr_2 x n = test_div_pwr_2 x n"
proof -
  have of_n: "of_nat n = (0 :: c_int) \<longleftrightarrow> n = 0"
    using n by (auto simp: word_of_nat_eq_0_iff dest: dvd_imp_le)
  have shr_x: "shr x n = word_of_int (sint x div 2 ^ n)"
    by (simp flip: sint_shr)
  have "test_div_pwr_2 x n = word_of_int (sint x sdiv 2 ^ n)"
    by (simp add: test_div_pwr_2_def sint_shl_1 [OF n])
  then show ?thesis
    by (auto simp: div_pwr_2_def sdiv_pow2 shr_31 low_bits_zero_iff [OF n, simplified] lnot_def of_n shr_x)
qed

lemma sdiv_pow2_bounds:
  fixes a :: int
  assumes "- 2147483648 \<le> a" "a < 2147483648"
  shows "- 2147483648 \<le> a sdiv 2 ^ n" "a sdiv 2 ^ n < 2147483648"
proof -
  have p: "(1 :: int) \<le> 2 ^ n" by simp
  have "a \<le> a div 2 ^ n \<and> a div 2 ^ n < 0" if "a < 0"
    using zdiv_mono2_neg [OF that _ p] div_neg_pos_less0 [OF that] by simp
  moreover have "a div 2 ^ n \<le> a \<and> 0 \<le> a div 2 ^ n" if "0 \<le> a"
    using zdiv_mono2 [OF that _ p] that by (simp add: pos_imp_zdiv_nonneg_iff)
  ultimately show "- 2147483648 \<le> a sdiv 2 ^ n" "a sdiv 2 ^ n < 2147483648"
    using assms by (cases "a < 0"; auto simp: sdiv_pow2)+
qed

lemma sint_test_div_pwr_2:
  assumes n: "n \<le> 30"
  shows "sint (test_div_pwr_2 x n) = sint x sdiv 2 ^ n"
  using sdiv_pow2_bounds [of "sint x" n] sint_bounds32 [of x]
  by (simp add: test_div_pwr_2_def sint_shl_1 [OF n] sint_of_int32 signed_take_bit32)

lemma bit_255: "bit (255 :: c_int) i \<longleftrightarrow> i < 8"
proof -
  have "(255 :: c_int) = mask 8" by (simp add: mask_eq_exp_minus_1)
  then show ?thesis by (simp only: bit_mask_iff) auto
qed

section \<open>Properties\<close>

text \<open>C21. \<open>div_pwr_2(x, n)\<close> is the quotient of \<open>x\<close> by \<open>2^n\<close> rounded toward zero, for every \<open>x\<close> and
\<open>0 <= n <= 30\<close>, and agrees with its reference in \<open>tests.c\<close>.\<close>

theorem div_pwr_2_rounds_to_zero:
  assumes "n \<le> 30"
  shows "div_pwr_2 x n = test_div_pwr_2 x n \<and> sint (div_pwr_2 x n) = sint x sdiv 2 ^ n"
  using div_pwr_2_ok [OF assms] sint_test_div_pwr_2 [OF assms] by simp

theorem div_pwr_2_rounds_to_zero_witness:
  "div_pwr_2 (- 33) 4 = test_div_pwr_2 (- 33) 4 \<and> sint (div_pwr_2 (- 33) 4) = sint (- 33 :: c_int) sdiv 2 ^ 4"
  by (rule div_pwr_2_rounds_to_zero) simp

text \<open>C22. \<open>add_ok(x, y)\<close> is 1 exactly when the sum of \<open>x\<close> and \<open>y\<close> as unbounded integers is
representable in 32 signed bits, and 0 when it overflows.\<close>

theorem add_ok_iff_no_overflow:
  "add_ok x y = (if - (2 ^ 31) \<le> sint x + sint y \<and> sint x + sint y < 2 ^ 31 then 1 else 0)"
  using sint_bounds32 [of x] sint_bounds32 [of y]
  by (simp add: add_ok_ok test_add_ok_def Let_def of_cond_def sint_of_int32 signed_take_bit32)

text \<open>\<open>replaceByte(x, n, c)\<close>, for a byte \<open>c\<close> and \<open>0 <= n <= 3\<close>, has \<open>c\<close> as its \<open>n\<close>-th byte and
the bits of \<open>x\<close> everywhere else.\<close>

theorem replaceByte_bits:
  assumes "n \<le> 3" "c = take_bit 8 c" "i < 32"
  shows "bit (replaceByte x n c) i =
    (if 8 * n \<le> i \<and> i < 8 * n + 8 then bit c (i - 8 * n) else bit x i)"
proof -
  have "bit c (i - 8 * n) \<longrightarrow> i - 8 * n < 8" using assms(2) by (metis bit_take_bit_iff)
  moreover have "push_bit 3 n = 8 * n" by (simp add: push_bit_eq_mult)
  ultimately show ?thesis
    using assms(1,3) bit_255 [of "i - 8 * n"]
    by (auto simp: replaceByte_def shl_def Let_def bit_simps)
qed

theorem replaceByte_bits_witness:
  "bit (replaceByte 0x12345678 1 0xab) 9 =
    (if 8 * 1 \<le> (9 :: nat) \<and> 9 < 8 * 1 + (8 :: nat) then bit (0xab :: c_int) (9 - 8 * 1)
     else bit (0x12345678 :: c_int) 9)"
  by (rule replaceByte_bits) simp_all

text \<open>C23. The other puzzles compute, for every argument, what their references in \<open>tests.c\<close> compute
with the operators the puzzles may not use.\<close>

theorem puzzles_meet_references:
  "bit_and x y = test_bit_and x y \<and> negate x = test_negate x \<and> is_equal x y = test_is_equal x y \<and>
   conditional x y z = test_conditional x y z \<and> abs_val x = test_abs_val x \<and> bang x = test_bang x"
  by (intro conjI bit_and_ok negate_ok is_equal_ok conditional_ok abs_val_ok bang_ok)

end
