(* ===== verification/Life.thy ===== *)
theory Life
  imports CPrelude
begin

text \<open>
  \<open>systems/cs033/lab01/life.c\<close>: Conway's Game of Life on a board stored as a one-dimensional
  array. A failed \<open>assert\<close> and an access outside the array are \<open>None\<close>. What the program prints is
  the list of \<open>printf\<close> calls.
\<close>

section \<open>The program\<close>

definition get_index :: "int \<Rightarrow> int \<Rightarrow> int \<Rightarrow> int" where
  "get_index row col num_cols = row * num_cols + col"

definition is_in_range :: "int \<Rightarrow> int \<Rightarrow> int \<Rightarrow> int \<Rightarrow> int" where
  "is_in_range rows cols row col =
     (if row < 0 \<or> row \<ge> rows \<or> col < 0 \<or> col \<ge> cols then 0 else 1)"

definition is_alive :: "int \<Rightarrow> int \<Rightarrow> int list \<Rightarrow> int \<Rightarrow> int \<Rightarrow> int option" where
  "is_alive rows cols array row col =
     (if is_in_range rows cols row col \<noteq> 0 then aget array (get_index row col cols) else Some 0)"

definition count_alive_neighbors :: "int \<Rightarrow> int \<Rightarrow> int list \<Rightarrow> int \<Rightarrow> int \<Rightarrow> int option" where
  "count_alive_neighbors rows cols array row col = do {
     c_assert (is_in_range rows cols row col \<noteq> 0);
     let row_pos = [row - 1, row, row + 1];
     let col_pos = [col - 1, col, col + 1];
     c_for 0 3 (\<lambda>i. c_for 0 3 (\<lambda>k number_alive. do {
         r \<leftarrow> aget row_pos i;
         c \<leftarrow> aget col_pos k;
         if r = row \<and> c = col then Some number_alive
         else do { a \<leftarrow> is_alive rows cols array r c; Some (number_alive + a) } })) 0 }"

definition get_next_state :: "int \<Rightarrow> int \<Rightarrow> int list \<Rightarrow> int \<Rightarrow> int \<Rightarrow> int option" where
  "get_next_state rows cols array row col = do {
     c_assert (is_in_range rows cols row col \<noteq> 0);
     neighbors \<leftarrow> count_alive_neighbors rows cols array row col;
     alive \<leftarrow> is_alive rows cols array row col;
     Some (if (alive \<noteq> 0 \<and> (neighbors = 2 \<or> neighbors = 3)) \<or> (alive = 0 \<and> neighbors = 3)
           then 1 else 0) }"

definition set_alive :: "int \<Rightarrow> int \<Rightarrow> int list \<Rightarrow> int \<Rightarrow> int \<Rightarrow> int list option" where
  "set_alive rows cols array row col = do {
     c_assert (is_in_range rows cols row col \<noteq> 0);
     aset array (get_index row col cols) 1 }"

definition set_dead :: "int \<Rightarrow> int \<Rightarrow> int list \<Rightarrow> int \<Rightarrow> int \<Rightarrow> int list option" where
  "set_dead rows cols array row col = do {
     c_assert (is_in_range rows cols row col \<noteq> 0);
     aset array (get_index row col cols) 0 }"

definition life_update :: "int \<Rightarrow> int \<Rightarrow> int list \<Rightarrow> int list \<Rightarrow> int list option" where
  "life_update rows cols old_array new_array =
     c_for 0 (rows * cols) (\<lambda>i new_array. do {
       let r = i sdiv cols;
       let c = i smod cols;
       state \<leftarrow> get_next_state rows cols old_array r c;
       if state \<noteq> 0 then set_alive rows cols new_array r c
       else set_dead rows cols new_array r c }) new_array"

text \<open>\<open>printf("%i ", n)\<close> and \<open>printf("\n")\<close>.\<close>

datatype life_out = Cell int | Newline

definition print_array :: "int \<Rightarrow> int \<Rightarrow> int list \<Rightarrow> life_out list \<Rightarrow> life_out list option" where
  "print_array rows cols array out =
     c_for 0 rows (\<lambda>i out. do {
       out \<leftarrow> c_for 0 cols (\<lambda>k out. do {
         a \<leftarrow> is_alive rows cols array i k; Some (out @ [Cell a]) }) out;
       Some (out @ [Newline]) }) out"

text \<open>\<open>spare\<close> is uninitialised in the code; its initial contents are a parameter.\<close>

definition do_life :: "int \<Rightarrow> int \<Rightarrow> int list \<Rightarrow> int list \<Rightarrow> int \<Rightarrow> life_out list option" where
  "do_life rows cols array spare steps = do {
     (arr1, arr2, out) \<leftarrow> c_for 0 steps (\<lambda>i (arr1, arr2, out). do {
       out \<leftarrow> print_array rows cols arr1 out;
       arr2 \<leftarrow> life_update rows cols arr1 arr2;
       Some (arr2, arr1, out @ [Newline]) }) (array, spare, []);
     print_array rows cols arr1 out }"

section \<open>The rules of the game\<close>

text \<open>A generation is the set of the live positions of a board.\<close>

definition board :: "int \<Rightarrow> int \<Rightarrow> (int \<times> int) set" where
  "board rows cols = {0..<rows} \<times> {0..<cols}"

definition neighbours :: "int \<times> int \<Rightarrow> (int \<times> int) set" where
  "neighbours p = (\<lambda>(dr, dc). (fst p + dr, snd p + dc)) ` ({- 1, 0, 1} \<times> {- 1, 0, 1} - {(0, 0)})"

definition next_generation :: "int \<Rightarrow> int \<Rightarrow> (int \<times> int) set \<Rightarrow> (int \<times> int) set" where
  "next_generation rows cols A =
     {p \<in> board rows cols. card (neighbours p \<inter> A) = 3 \<or> p \<in> A \<and> card (neighbours p \<inter> A) = 2}"

definition is_board :: "int \<Rightarrow> int \<Rightarrow> int list \<Rightarrow> bool" where
  "is_board rows cols b \<longleftrightarrow> int (length b) = rows * cols \<and> set b \<subseteq> {0, 1}"

definition generation :: "int \<Rightarrow> int \<Rightarrow> int list \<Rightarrow> (int \<times> int) set" where
  "generation rows cols b = {(r, c) \<in> board rows cols. b ! nat (r * cols + c) = 1}"

definition render :: "int \<Rightarrow> int \<Rightarrow> (int \<times> int) set \<Rightarrow> life_out list" where
  "render rows cols A =
     concat (map (\<lambda>r. map (\<lambda>c. Cell (of_bool ((r, c) \<in> A))) [0..cols - 1] @ [Newline]) [0..rows - 1])"

section \<open>Lemmas\<close>

lemma index_range:
  assumes "(r, c) \<in> board rows cols"
  shows "0 \<le> r * cols + c" "r * cols + c < rows * cols"
proof -
  have rc: "0 \<le> r" "r < rows" "0 \<le> c" "c < cols" using assms by (auto simp: board_def)
  then show "0 \<le> r * cols + c" by simp
  have "(r + 1) * cols \<le> rows * cols" using rc by (intro mult_right_mono) auto
  then show "r * cols + c < rows * cols" using rc by (simp add: algebra_simps)
qed

lemma in_range_iff: "is_in_range rows cols r c \<noteq> 0 \<longleftrightarrow> (r, c) \<in> board rows cols"
  by (auto simp: is_in_range_def board_def)

lemma is_alive_ok:
  assumes "is_board rows cols b"
  shows "is_alive rows cols b r c = Some (of_bool ((r, c) \<in> generation rows cols b))"
proof (cases "(r, c) \<in> board rows cols")
  case True
  note ir = index_range [OF True]
  then have "nat (r * cols + c) < length b" using assms by (auto simp: is_board_def)
  then have "b ! nat (r * cols + c) \<in> {0, 1}" using assms nth_mem by (fastforce simp: is_board_def)
  then show ?thesis
    using True ir assms
    by (auto simp: is_alive_def in_range_iff aget_def get_index_def is_board_def generation_def)
qed (auto simp: is_alive_def in_range_iff generation_def)

lemma neighbours_explicit:
  "neighbours (r, c) = set [(r - 1, c - 1), (r - 1, c), (r - 1, c + 1), (r, c - 1), (r, c + 1),
     (r + 1, c - 1), (r + 1, c), (r + 1, c + 1)]"
proof -
  have "{- 1, 0, 1} \<times> {- 1, 0, 1 :: int} - {(0 :: int, 0)} =
      {(- 1, - 1), (- 1, 0), (- 1, 1), (0, - 1), (0, 1), (1, - 1), (1, 0), (1, 1)}"
    by auto
  then show ?thesis by (simp add: neighbours_def)
qed

lemma card_filter: "distinct xs \<Longrightarrow> int (card (set xs \<inter> A)) = sum_list (map (\<lambda>x. of_bool (x \<in> A)) xs)"
  by (induction xs) auto

lemma c_for_3: "c_for 0 3 body s = do { s \<leftarrow> body 0 s; s \<leftarrow> body 1 s; body 2 s }"
  by (simp add: c_for_step cong: Option.bind_cong)

lemma count_alive_ok:
  assumes b: "is_board rows cols b" and rc: "(r, c) \<in> board rows cols"
  shows "count_alive_neighbors rows cols b r c =
    Some (int (card (neighbours (r, c) \<inter> generation rows cols b)))"
proof -
  define a :: "int \<times> int \<Rightarrow> int" where "a p = of_bool (p \<in> generation rows cols b)" for p
  have al: "is_alive rows cols b x y = Some (a (x, y))" for x y
    using is_alive_ok [OF b] by (simp add: a_def)
  have "int (card (neighbours (r, c) \<inter> generation rows cols b)) =
     a (r - 1, c - 1) + a (r - 1, c) + a (r - 1, c + 1) + a (r, c - 1) + a (r, c + 1) +
     a (r + 1, c - 1) + a (r + 1, c) + a (r + 1, c + 1)"
    unfolding neighbours_explicit a_def by (subst card_filter) simp_all
  moreover have "count_alive_neighbors rows cols b r c = Some (
     a (r - 1, c - 1) + a (r - 1, c) + a (r - 1, c + 1) + a (r, c - 1) + a (r, c + 1) +
     a (r + 1, c - 1) + a (r + 1, c) + a (r + 1, c + 1))"
    using rc by (simp add: count_alive_neighbors_def in_range_iff c_for_3 aget_def al)
  ultimately show ?thesis by simp
qed

lemma next_state_ok:
  assumes "is_board rows cols b" "(r, c) \<in> board rows cols"
  shows "get_next_state rows cols b r c =
    Some (of_bool ((r, c) \<in> next_generation rows cols (generation rows cols b)))"
  using assms
  by (auto simp: get_next_state_def in_range_iff count_alive_ok is_alive_ok next_generation_def)

text \<open>Rows, columns and indices.\<close>

lemma position_of_index:
  assumes "0 \<le> i" "i < rows * cols" "0 < cols"
  shows "(i sdiv cols, i smod cols) \<in> board rows cols" "get_index (i sdiv cols) (i smod cols) cols = i"
proof -
  have s: "i sdiv cols = i div cols" "i smod cols = i mod cols"
    using assms by (simp_all add: sdiv_nonneg smod_nonneg)
  have "i div cols * cols \<le> i" using assms by (simp add: minus_mod_eq_div_mult [symmetric])
  then have "i div cols < rows"
    using assms by (meson le_less_trans mult_right_less_imp_less less_imp_le)
  then show "(i sdiv cols, i smod cols) \<in> board rows cols"
    using assms by (simp add: s board_def pos_imp_zdiv_nonneg_iff)
  show "get_index (i sdiv cols) (i smod cols) cols = i"
    by (simp add: s get_index_def div_mult_mod_eq)
qed

lemma index_of_position:
  assumes "(r, c) \<in> board rows cols"
  shows "(r * cols + c) sdiv cols = r" "(r * cols + c) smod cols = c"
proof -
  have rc: "0 \<le> r" "0 \<le> c" "c < cols" using assms by (auto simp: board_def)
  then show "(r * cols + c) sdiv cols = r" "(r * cols + c) smod cols = c"
    using index_range [OF assms] by (simp_all add: sdiv_nonneg smod_nonneg)
qed

lemma life_update_ok:
  assumes b: "is_board rows cols b" and n: "int (length new) = rows * cols" and c: "0 < cols"
    and r: "0 \<le> rows"
  shows "\<exists>b'. life_update rows cols b new = Some b' \<and> is_board rows cols b' \<and>
    generation rows cols b' = next_generation rows cols (generation rows cols b)"
proof -
  let ?A = "next_generation rows cols (generation rows cols b)"
  let ?v = "\<lambda>j. of_bool ((int j sdiv cols, int j smod cols) \<in> ?A) :: int"
  define I where "I i new \<longleftrightarrow> int (length new) = rows * cols \<and> (\<forall>j. int j < i \<longrightarrow> new ! j = ?v j)" for i and new :: "int list"
  have "\<exists>b'. life_update rows cols b new = Some b' \<and> I (rows * cols) b'"
    unfolding life_update_def
  proof (rule c_for_invariant)
    show "I 0 new" using n by (simp add: I_def)
    show "0 \<le> rows * cols" using r c by simp
    fix i and new :: "int list" assume i: "0 \<le> i" "i < rows * cols" and I: "I i new"
    note pos = position_of_index [OF i c]
    have step: "I (i + 1) (new[nat i := ?v (nat i)])"
      using I i by (auto simp: I_def nth_list_update nat_eq_iff)
    have "nat i < length new" using I i by (simp add: I_def nat_less_iff)
    then show "\<exists>s'. (let r = i sdiv cols; c = i smod cols in do {
       state \<leftarrow> get_next_state rows cols b r c;
       if state \<noteq> 0 then set_alive rows cols new r c else set_dead rows cols new r c }) = Some s' \<and> I (i + 1) s'"
      using step i pos
      by (auto simp: Let_def next_state_ok [OF b] set_alive_def set_dead_def in_range_iff aset_def nat_less_iff)
  qed
  then obtain b' where b': "life_update rows cols b new = Some b'" "I (rows * cols) b'" by blast
  then have v: "b' ! j = ?v j" if "j < length b'" for j using that by (auto simp: I_def)
  have len: "int (length b') = rows * cols" using b' by (simp add: I_def)
  have "is_board rows cols b'" using len v by (auto simp: is_board_def in_set_conv_nth)
  moreover have "generation rows cols b' = ?A"
  proof -
    have "b' ! nat (x * cols + y) = of_bool ((x, y) \<in> ?A)" if "(x, y) \<in> board rows cols" for x y
      using v [of "nat (x * cols + y)"] index_range [OF that] index_of_position [OF that] len by simp
    then show ?thesis by (fastforce simp: generation_def next_generation_def)
  qed
  ultimately show ?thesis using b'(1) by blast
qed

lemma print_array_ok:
  assumes b: "is_board rows cols b"
  shows "print_array rows cols b out = Some (out @ render rows cols (generation rows cols b))"
proof -
  let ?A = "generation rows cols b"
  have cells: "c_for lo cols (\<lambda>k out. do { a \<leftarrow> is_alive rows cols b i k; Some (out @ [Cell a]) }) out =
      Some (out @ map (\<lambda>c. Cell (of_bool ((i, c) \<in> ?A))) [lo..cols - 1])" for i lo out
  proof (induction "nat (cols - lo)" arbitrary: lo out)
    case (Suc n)
    then have "[lo..cols - 1] = lo # [lo + 1..cols - 1]" by (simp add: upto_rec1)
    then show ?case using Suc by (simp add: c_for_step is_alive_ok [OF b])
  qed simp
  have "c_for lo rows (\<lambda>i out. do {
       out \<leftarrow> c_for 0 cols (\<lambda>k out. do {
         a \<leftarrow> is_alive rows cols b i k; Some (out @ [Cell a]) }) out;
       Some (out @ [Newline]) }) out =
     Some (out @ concat (map (\<lambda>r. map (\<lambda>c. Cell (of_bool ((r, c) \<in> ?A))) [0..cols - 1] @ [Newline]) [lo..rows - 1]))"
    for lo out
  proof (induction "nat (rows - lo)" arbitrary: lo out)
    case (Suc n)
    then have "[lo..rows - 1] = lo # [lo + 1..rows - 1]" by (simp add: upto_rec1)
    then show ?case using Suc by (simp add: c_for_step cells)
  qed simp
  then show ?thesis by (simp add: print_array_def render_def)
qed

text \<open>The text printed for \<open>n\<close> further generations from \<open>A\<close>.\<close>

fun game :: "int \<Rightarrow> int \<Rightarrow> nat \<Rightarrow> (int \<times> int) set \<Rightarrow> life_out list" where
  "game rows cols 0 A = render rows cols A"
| "game rows cols (Suc n) A =
     render rows cols A @ [Newline] @ game rows cols n (next_generation rows cols A)"

lemma do_life_ok:
  assumes b: "is_board rows cols b" and sp: "int (length spare) = rows * cols"
    and c: "0 < cols" and r: "0 \<le> rows"
  shows "do_life rows cols b spare (int n) = Some (game rows cols n (generation rows cols b))"
proof -
  define step where "step = (\<lambda>(_ :: int) (arr1, arr2, out). do {
       out \<leftarrow> print_array rows cols arr1 out;
       arr2 \<leftarrow> life_update rows cols arr1 arr2;
       Some (arr2, arr1, out @ [Newline]) })"
  have "(do { (arr1, arr2, out) \<leftarrow> c_for lo (lo + int n) step (b, spare, out);
      print_array rows cols arr1 out }) = Some (out @ game rows cols n (generation rows cols b))" for lo out
    using b sp
  proof (induction n arbitrary: lo b spare out)
    case 0
    then show ?case by (simp add: print_array_ok)
  next
    case (Suc n)
    obtain b' where b': "life_update rows cols b spare = Some b'" "is_board rows cols b'"
      "generation rows cols b' = next_generation rows cols (generation rows cols b)"
      using life_update_ok [OF Suc.prems c r] by blast
    have s: "step lo (b, spare, out) =
        Some (b', b, out @ render rows cols (generation rows cols b) @ [Newline])"
      using Suc.prems b' by (simp add: step_def print_array_ok)
    have e: "lo + int (Suc n) = lo + 1 + int n" by simp
    have "int (length b) = rows * cols" using Suc.prems(1) by (simp add: is_board_def)
    then show ?case
      using Suc.IH [OF b'(2), of b "lo + 1"] b'(3) s unfolding e by (simp add: c_for_step)
  qed
  from this [of 0 "[]"] show ?thesis by (simp add: do_life_def step_def)
qed

section \<open>Properties\<close>

text \<open>C18. \<open>update\<close> stops and leaves in \<open>new_array\<close>, whatever it held, the board whose live cells are
those of the next generation by Conway's rules: a position of the board is live if three of its
neighbours were, or if it was live and two of them were; cells off the board are dead.\<close>

theorem update_next_generation:
  assumes "is_board rows cols old" "int (length new) = rows * cols" "0 < cols" "0 \<le> rows"
  shows "\<exists>b. life_update rows cols old new = Some b \<and> is_board rows cols b \<and>
    generation rows cols b = next_generation rows cols (generation rows cols old)"
  by (rule life_update_ok [OF assms])

theorem update_next_generation_witness:
  "\<exists>b. life_update 3 3 [0, 1, 0, 0, 1, 0, 0, 1, 0] [7, 7, 7, 7, 7, 7, 7, 7, 7] = Some b \<and> is_board 3 3 b \<and>
    generation 3 3 b = next_generation 3 3 (generation 3 3 [0, 1, 0, 0, 1, 0, 0, 1, 0])"
  by (rule update_next_generation) (simp_all add: is_board_def)

text \<open>\<open>do_life\<close> stops and prints the given board and its next \<open>steps\<close> generations in order, each
row by row and separated by an empty line, whatever the spare array held.\<close>

theorem do_life_prints_generations:
  assumes "is_board rows cols b" "int (length spare) = rows * cols" "0 < cols" "0 \<le> rows"
  shows "do_life rows cols b spare (int n) = Some (game rows cols n (generation rows cols b))"
  by (rule do_life_ok [OF assms])

theorem do_life_prints_generations_witness:
  "do_life 3 3 [0, 1, 0, 0, 1, 0, 0, 1, 0] [7, 7, 7, 7, 7, 7, 7, 7, 7] (int 10) =
    Some (game 3 3 10 (generation 3 3 [0, 1, 0, 0, 1, 0, 0, 1, 0]))"
  by (rule do_life_prints_generations) (simp_all add: is_board_def)

end
