(* ===== verification/PtrList.thy ===== *)
theory PtrList
  imports CPrelude
begin

text \<open>
  Singly linked lists in a heap of nodes. Several programs of the repository build them by
  hand with \<open>malloc\<close> and \<open>free\<close>; this theory holds the heap they share (addresses are natural
  numbers, 0 is \<open>NULL\<close>, an access through a pointer that is not allocated is \<open>None\<close>) and the lemmas
  about paths through it.

  \<open>malloc\<close> returns an address that was never used before; it does not fail. The fields of a new
  node hold whatever the maps say at that address.
\<close>

section \<open>The heap of nodes\<close>

record 'v nodes =
  nxt :: "nat \<Rightarrow> nat"
  dat :: "nat \<Rightarrow> 'v"
  live :: "nat \<Rightarrow> bool"
  fresh :: nat

definition get_next :: "('v, 'z) nodes_scheme \<Rightarrow> nat \<Rightarrow> nat option" where
  "get_next h p = (if live h p then Some (nxt h p) else None)"

definition get_val :: "('v, 'z) nodes_scheme \<Rightarrow> nat \<Rightarrow> 'v option" where
  "get_val h p = (if live h p then Some (dat h p) else None)"

definition set_next :: "('v, 'z) nodes_scheme \<Rightarrow> nat \<Rightarrow> nat \<Rightarrow> ('v, 'z) nodes_scheme option" where
  "set_next h p q = (if live h p then Some (h\<lparr>nxt := (nxt h)(p := q)\<rparr>) else None)"

definition set_val :: "('v, 'z) nodes_scheme \<Rightarrow> nat \<Rightarrow> 'v \<Rightarrow> ('v, 'z) nodes_scheme option" where
  "set_val h p v = (if live h p then Some (h\<lparr>dat := (dat h)(p := v)\<rparr>) else None)"

definition malloc_node :: "('v, 'z) nodes_scheme \<Rightarrow> nat \<times> ('v, 'z) nodes_scheme" where
  "malloc_node h = (fresh h, h\<lparr>live := (live h)(fresh h := True), fresh := fresh h + 1\<rparr>)"

definition free_node :: "('v, 'z) nodes_scheme \<Rightarrow> nat \<Rightarrow> ('v, 'z) nodes_scheme option" where
  "free_node h p = (if live h p then Some (h\<lparr>live := (live h)(p := False)\<rparr>) else None)"

definition nodes_ok :: "('v, 'z) nodes_scheme \<Rightarrow> bool" where
  "nodes_ok h \<longleftrightarrow> \<not> live h 0 \<and> (\<forall>p. live h p \<longrightarrow> p < fresh h) \<and> 0 < fresh h"

section \<open>Paths\<close>

text \<open>\<open>seg n p xs q\<close>: following \<open>n\<close> from \<open>p\<close> visits the nodes \<open>xs\<close> and arrives at \<open>q\<close>.\<close>

fun seg :: "(nat \<Rightarrow> nat) \<Rightarrow> nat \<Rightarrow> nat list \<Rightarrow> nat \<Rightarrow> bool" where
  "seg n p [] q = (p = q)"
| "seg n p (x # xs) q = (p = x \<and> x \<noteq> 0 \<and> seg n (n x) xs q)"

abbreviation path :: "(nat \<Rightarrow> nat) \<Rightarrow> nat \<Rightarrow> nat list \<Rightarrow> bool" where
  "path n p xs \<equiv> seg n p xs 0"

lemma seg_append: "seg n p (xs @ ys) q \<longleftrightarrow> (\<exists>r. seg n p xs r \<and> seg n r ys q)"
  by (induction xs arbitrary: p) auto

lemma seg_cong: "(\<And>x. x \<in> set xs \<Longrightarrow> m x = n x) \<Longrightarrow> seg m p xs q = seg n p xs q"
  by (induction xs arbitrary: p) auto

lemma seg_upd_other [simp]: "a \<notin> set xs \<Longrightarrow> seg (n(a := v)) p xs q = seg n p xs q"
  by (rule seg_cong) auto

lemma path_null [simp]: "path n 0 xs \<longleftrightarrow> xs = []"
  by (cases xs) auto

lemma path_nonnull: "p \<noteq> 0 \<Longrightarrow> path n p xs \<Longrightarrow> \<exists>ys. xs = p # ys \<and> path n (n p) ys"
  by (cases xs) auto

lemma path_unique: "path n p xs \<Longrightarrow> path n p ys \<Longrightarrow> xs = ys"
proof (induction xs arbitrary: p ys)
  case (Cons x xs)
  then show ?case by (cases ys) auto
qed simp

lemma path_suffix: "path n p (xs @ x # ys) \<Longrightarrow> path n x (x # ys)"
  by (auto simp: seg_append)

lemma path_distinct: "path n p xs \<Longrightarrow> distinct xs"
proof (induction xs arbitrary: p)
  case (Cons x xs)
  have "x \<notin> set xs"
  proof
    assume "x \<in> set xs"
    then obtain as bs where "xs = as @ x # bs" by (auto simp: in_set_conv_decomp)
    with Cons.prems have "path n x (x # bs)" "path n x (x # as @ x # bs)"
      by (auto simp: seg_append)
    then have "x # bs = x # as @ x # bs" by (rule path_unique)
    then show False by simp
  qed
  then show ?case using Cons by auto
qed simp

lemma seg_zero: "seg n p xs q \<Longrightarrow> 0 \<notin> set xs"
  by (induction xs arbitrary: p) auto

text \<open>Redirecting the last node of a segment.\<close>

lemma seg_redirect:
  "seg n p (xs @ [x]) q \<Longrightarrow> x \<notin> set xs \<Longrightarrow> seg (n(x := r)) p (xs @ [x]) r"
  by (auto simp: seg_append)

section \<open>Lists of allocated nodes\<close>

definition llist :: "('v, 'z) nodes_scheme \<Rightarrow> nat \<Rightarrow> nat list \<Rightarrow> bool" where
  "llist h p xs \<longleftrightarrow> path (nxt h) p xs \<and> (\<forall>x\<in>set xs. live h x)"

lemma llist_Nil [simp]: "llist h p [] \<longleftrightarrow> p = 0"
  by (simp add: llist_def)

lemma llist_null [simp]: "llist h 0 xs \<longleftrightarrow> xs = []"
  by (auto simp: llist_def)

lemma llist_Cons [simp]:
  "llist h p (x # xs) \<longleftrightarrow> p = x \<and> x \<noteq> 0 \<and> live h x \<and> llist h (nxt h x) xs"
  by (auto simp: llist_def)

lemma llist_nonnull: "p \<noteq> 0 \<Longrightarrow> llist h p xs \<Longrightarrow> \<exists>ys. xs = p # ys \<and> live h p \<and> llist h (nxt h p) ys"
  by (cases xs) auto

lemma llist_distinct: "llist h p xs \<Longrightarrow> distinct xs"
  by (auto simp: llist_def dest: path_distinct)

lemma llist_frame:
  assumes "llist h p xs" "\<And>x. x \<in> set xs \<Longrightarrow> nxt h' x = nxt h x" "\<And>x. x \<in> set xs \<Longrightarrow> live h' x"
  shows "llist h' p xs"
  using assms seg_cong [of xs "nxt h'" "nxt h" p 0] by (auto simp: llist_def)

lemma llist_append:
  "llist h p (xs @ ys) \<longleftrightarrow> (\<exists>r. seg (nxt h) p xs r \<and> (\<forall>x\<in>set xs. live h x) \<and> llist h r ys)"
  by (auto simp: llist_def seg_append)

lemma access_live [simp]:
  "live h p \<Longrightarrow> get_next h p = Some (nxt h p)" "live h p \<Longrightarrow> get_val h p = Some (dat h p)"
  "live h p \<Longrightarrow> set_next h p q = Some (h\<lparr>nxt := (nxt h)(p := q)\<rparr>)"
  "live h p \<Longrightarrow> set_val h p v = Some (h\<lparr>dat := (dat h)(p := v)\<rparr>)"
  "live h p \<Longrightarrow> free_node h p = Some (h\<lparr>live := (live h)(p := False)\<rparr>)"
  by (simp_all add: get_next_def get_val_def set_next_def set_val_def free_node_def)

lemma fresh_not_live: "nodes_ok h \<Longrightarrow> \<not> live h (fresh h)" "nodes_ok h \<Longrightarrow> fresh h \<noteq> 0"
  by (auto simp: nodes_ok_def)

lemma fresh_not_in: "nodes_ok h \<Longrightarrow> llist h p xs \<Longrightarrow> fresh h \<notin> set xs"
  using fresh_not_live by (auto simp: llist_def)

lemma nodes_ok_upd [simp]:
  "nodes_ok (h\<lparr>nxt := f\<rparr>) = nodes_ok h" "nodes_ok (h\<lparr>dat := g\<rparr>) = nodes_ok h"
  "nodes_ok h \<Longrightarrow> nodes_ok (h\<lparr>live := (live h)(p := False)\<rparr>)"
  "nodes_ok h \<Longrightarrow> nodes_ok (h\<lparr>live := (live h)(fresh h := True), fresh := Suc (fresh h)\<rparr>)"
  by (auto simp: nodes_ok_def less_Suc_eq)

text \<open>Taking a node out of a list.\<close>

lemma llist_unlink:
  assumes "llist h p (pre @ x # post)"
    and "nxt h' = (if pre = [] then nxt h else (nxt h)(last pre := nxt h x))" "live h' = (live h)(x := False)"
  shows "llist h' (if pre = [] then nxt h x else p) (pre @ post)"
proof -
  have d: "distinct (pre @ x # post)" by (rule llist_distinct [OF assms(1)])
  have x: "llist h (nxt h x) post" using assms(1) by (auto simp: llist_append)
  show ?thesis
  proof (cases pre rule: rev_cases)
    case Nil
    then show ?thesis using x assms(2,3) d by (auto intro!: llist_frame [OF x] simp: llist_def)
  next
    case (snoc as a)
    have sg: "seg (nxt h) p (as @ [a]) x" and live: "\<forall>y\<in>set (as @ [a]). live h y"
      using assms(1) snoc by (auto simp: llist_append seg_append)
    have "seg (nxt h') p (as @ [a]) (nxt h x)" using seg_redirect [OF sg] d snoc assms(2) by simp
    moreover have "llist h' (nxt h x) post"
      by (rule llist_frame [OF x]) (use d snoc assms(2,3) x in \<open>auto simp: llist_def\<close>)
    moreover have "\<forall>y\<in>set (as @ [a]). live h' y" using live d snoc assms(3) by auto
    ultimately have "llist h' p ((as @ [a]) @ post)" unfolding llist_append by blast
    then show ?thesis using snoc by simp
  qed
qed

text \<open>Adding a new node at the end of a list.\<close>

lemma llist_extend:
  assumes "nodes_ok h" "llist h p (xs @ [y])"
    and "nxt h' = (nxt h)(y := fresh h, fresh h := 0)" "live h' = (live h)(fresh h := True)"
  shows "llist h' p (xs @ [y, fresh h])"
proof -
  have f: "fresh h \<noteq> 0" "fresh h \<notin> set (xs @ [y])"
    using fresh_not_live [OF assms(1)] fresh_not_in [OF assms(1,2)] by auto
  have d: "distinct (xs @ [y])" by (rule llist_distinct [OF assms(2)])
  have "seg (nxt h) p (xs @ [y]) 0" using assms(2) by (simp add: llist_def)
  then have "seg ((nxt h)(y := fresh h)) p (xs @ [y]) (fresh h)" using d by (intro seg_redirect) auto
  then show ?thesis using f assms(2-4) by (auto simp: llist_def seg_append)
qed

end
