(* ===== verification/LinkedList.thy ===== *)
theory LinkedList
  imports PtrList
begin

text \<open>
  \<open>systems/cs033/lab08/linkedlist.c\<close>: a generic linked list with the functions on its elements
  (\<open>equals\<close>, \<open>copy\<close>) passed in; the calls of \<open>delete\<close> on elements are logged. The list refines a
  HOL list of its element copies.
\<close>

section \<open>The program\<close>

record 'v linkedlist = "'v nodes" +
  head :: nat
  lsize :: int
  deleted :: "'v list"

definition linkedlist_new :: "'v nodes \<Rightarrow> 'v linkedlist" where
  "linkedlist_new h = \<lparr>nxt = nxt h, dat = dat h, live = live h, fresh = fresh h,
     head = 0, lsize = 0, deleted = []\<rparr>"

partial_function (option) delete_helper :: "'v linkedlist \<Rightarrow> nat \<Rightarrow> 'v linkedlist option" where
  "delete_helper s l = do {
     n \<leftarrow> get_next s l;
     v \<leftarrow> get_val s l;
     s1 \<leftarrow> free_node (s\<lparr>deleted := deleted s @ [v]\<rparr>) l;
     if n = 0 then Some s1 else delete_helper s1 n }"

definition linkedlist_delete :: "'v linkedlist \<Rightarrow> 'v linkedlist option" where
  "linkedlist_delete s = (if head s \<noteq> 0 then delete_helper s (head s) else Some s)"

partial_function (option) append_walk :: "'v linkedlist \<Rightarrow> nat \<Rightarrow> nat \<Rightarrow> nat option" where
  "append_walk s temp ll =
     (if ll \<noteq> 0 then do { n \<leftarrow> get_next s ll; append_walk s ll n } else Some temp)"

text \<open>\<open>room\<close> says whether \<open>malloc\<close> succeeds: the code writes through its result unless it is \<open>linkedlist_insert\<close>
behind the first node, which tests it.\<close>

definition linkedlist_append :: "bool \<Rightarrow> ('v \<Rightarrow> 'v) \<Rightarrow> 'v linkedlist \<Rightarrow> 'v \<Rightarrow> 'v linkedlist option" where
  "linkedlist_append room copy s element =
     (if head s = 0 then do {
        c_assert room;
        let (new_node, s1) = malloc_node s;
        s2 \<leftarrow> set_val s1 new_node (copy element);
        s3 \<leftarrow> set_next s2 new_node 0;
        Some (s3\<lparr>head := new_node, lsize := lsize s3 + 1\<rparr>) }
      else do {
        temp \<leftarrow> append_walk s 0 (head s);
        c_assert room;
        let (new_node, s1) = malloc_node s;
        s2 \<leftarrow> set_val s1 new_node (copy element);
        s3 \<leftarrow> set_next s2 temp new_node;
        s4 \<leftarrow> set_next s3 new_node 0;
        Some (s4\<lparr>lsize := lsize s4 + 1\<rparr>) })"

text \<open>The loop of \<open>linkedlist_insert\<close>; the inner \<open>None\<close> is its \<open>return 0\<close>.\<close>

function insert_walk :: "'v linkedlist \<Rightarrow> int \<Rightarrow> int \<Rightarrow> nat \<Rightarrow> nat \<Rightarrow> (nat \<times> nat) option option" where
  "insert_walk s i index temp ll =
     (if i < index then
        if ll = 0 then Some None
        else do { n \<leftarrow> get_next s ll; insert_walk s (i + 1) index ll n }
      else Some (Some (temp, ll)))"
  by pat_completeness auto

termination by (relation "measure (\<lambda>(s, i, index, _, _). nat (index - i))") auto

declare insert_walk.simps [simp del]

definition linkedlist_insert :: "bool \<Rightarrow> ('v \<Rightarrow> 'v) \<Rightarrow> 'v linkedlist \<Rightarrow> 'v \<Rightarrow> int \<Rightarrow> (int \<times> 'v linkedlist) option" where
  "linkedlist_insert room copy s element index =
     (if index = lsize s \<or> index = 0 then do {
        c_assert room;
        let s0 = s\<lparr>lsize := lsize s + 1\<rparr>;
        let (new_node, s1) = malloc_node s0;
        s2 \<leftarrow> set_val s1 new_node (copy element);
        s3 \<leftarrow> set_next s2 new_node (head s2);
        Some (1, s3\<lparr>head := new_node\<rparr>) }
      else do {
        w \<leftarrow> insert_walk s 0 index 0 (head s);
        case w of None \<Rightarrow> Some (0, s)
        | Some (temp, ll) \<Rightarrow> if \<not> room then Some (0, s) else do {
            let (new_node, s1) = malloc_node s;
            s2 \<leftarrow> set_next s1 new_node ll;
            s3 \<leftarrow> set_val s2 new_node (copy element);
            s4 \<leftarrow> set_next s3 temp new_node;
            Some (1, s4\<lparr>lsize := lsize s4 + 1\<rparr>) } })"

partial_function (option) contains_loop ::
    "('v \<Rightarrow> 'v \<Rightarrow> bool) \<Rightarrow> 'v linkedlist \<Rightarrow> 'v \<Rightarrow> nat \<Rightarrow> int option" where
  "contains_loop equals s element current =
     (if current \<noteq> 0 then do {
        v \<leftarrow> get_val s current;
        if equals v element then Some 1
        else do { n \<leftarrow> get_next s current; contains_loop equals s element n } }
      else Some 0)"

definition linkedlist_contains :: "('v \<Rightarrow> 'v \<Rightarrow> bool) \<Rightarrow> 'v linkedlist \<Rightarrow> 'v \<Rightarrow> int option" where
  "linkedlist_contains equals s element = contains_loop equals s element (head s)"

partial_function (option) remove_loop ::
    "('v \<Rightarrow> 'v \<Rightarrow> bool) \<Rightarrow> 'v linkedlist \<Rightarrow> 'v \<Rightarrow> nat \<Rightarrow> nat \<Rightarrow> (int \<times> 'v linkedlist) option" where
  "remove_loop equals s element temp ll =
     (if ll \<noteq> 0 then do {
        v \<leftarrow> get_val s ll;
        n \<leftarrow> get_next s ll;
        if equals v element then
          if temp \<noteq> 0 then do {
            s1 \<leftarrow> set_next s temp n;
            s2 \<leftarrow> free_node (s1\<lparr>deleted := deleted s1 @ [v]\<rparr>) ll;
            Some (1, s2\<lparr>lsize := lsize s2 - 1\<rparr>) }
          else do {
            let s1 = s\<lparr>head := n\<rparr>;
            s2 \<leftarrow> free_node (s1\<lparr>deleted := deleted s1 @ [v]\<rparr>) ll;
            Some (1, s2\<lparr>lsize := lsize s2 - 1\<rparr>) }
        else remove_loop equals s element ll n }
      else Some (0, s))"

definition linkedlist_remove ::
    "('v \<Rightarrow> 'v \<Rightarrow> bool) \<Rightarrow> 'v linkedlist \<Rightarrow> 'v \<Rightarrow> (int \<times> 'v linkedlist) option" where
  "linkedlist_remove equals s element = remove_loop equals s element 0 (head s)"

definition linkedlist_size :: "'v linkedlist \<Rightarrow> int" where
  "linkedlist_size s = lsize s"

text \<open>The output calls of \<open>linkedlist_print\<close>.\<close>

datatype 'v ll_out = Size int | Open | Element 'v | Comma | Close

partial_function (option) print_loop :: "'v linkedlist \<Rightarrow> nat \<Rightarrow> 'v ll_out list \<Rightarrow> 'v ll_out list option" where
  "print_loop s bn out =
     (if bn \<noteq> 0 then do {
        v \<leftarrow> get_val s bn;
        n \<leftarrow> get_next s bn;
        print_loop s n (out @ [Element v] @ (if n \<noteq> 0 then [Comma] else [])) }
      else Some (out @ [Close]))"

definition linkedlist_print :: "'v linkedlist \<Rightarrow> 'v ll_out list option" where
  "linkedlist_print s = print_loop s (head s) [Size (lsize s), Open]"

declare delete_helper.simps [code] append_walk.simps [code] contains_loop.simps [code]
  remove_loop.simps [code] print_loop.simps [code]

section \<open>Refinement of a HOL list\<close>

definition ll_nodes :: "'v linkedlist \<Rightarrow> nat list \<Rightarrow> bool" where
  "ll_nodes s xs \<longleftrightarrow> nodes_ok s \<and> llist s (head s) xs \<and> lsize s = int (length xs)"

definition ll_rep :: "'v linkedlist \<Rightarrow> 'v list \<Rightarrow> bool" where
  "ll_rep s vs \<longleftrightarrow> (\<exists>xs. ll_nodes s xs \<and> vs = map (dat s) xs)"

lemma ll_rep_new: "nodes_ok h \<Longrightarrow> ll_rep (linkedlist_new h) []"
  by (auto simp: ll_rep_def ll_nodes_def linkedlist_new_def nodes_ok_def)

lemma append_walk_ok: "llist s ll (xs @ [x]) \<Longrightarrow> append_walk s temp ll = Some x"
proof (induction xs arbitrary: temp ll)
  case Nil
  then show ?case by (simp add: append_walk.simps)
next
  case (Cons a xs)
  then show ?case by (subst append_walk.simps) auto
qed

lemma ll_append_ok:
  assumes "ll_rep s vs"
  shows "\<exists>s'. linkedlist_append True copy s e = Some s' \<and> ll_rep s' (vs @ [copy e])"
proof -
  obtain xs where xs: "nodes_ok s" "llist s (head s) xs" "lsize s = int (length xs)" "vs = map (dat s) xs"
    using assms by (auto simp: ll_rep_def ll_nodes_def)
  let ?p = "fresh s"
  note f = fresh_not_live [OF xs(1)] fresh_not_in [OF xs(1,2)]
  show ?thesis
  proof (cases xs rule: rev_cases)
    case Nil
    then have "head s = 0" using xs by simp
    then show ?thesis
      using xs f Nil
      by (auto simp: linkedlist_append_def malloc_node_def ll_rep_def ll_nodes_def nodes_ok_def less_Suc_eq
          intro!: exI [of _ "[?p]"])
  next
    case (snoc ys y)
    have d: "distinct (ys @ [y])" using llist_distinct xs(2) snoc by blast
    have h: "head s \<noteq> 0" using xs(2) snoc by (cases "head s = 0") auto
    have y: "live s y" "y \<noteq> ?p" using xs(2) snoc f by (auto simp: llist_def)
    let ?s = "s\<lparr>live := (live s)(?p := True), fresh := Suc ?p, dat := (dat s)(?p := copy e),
      nxt := (nxt s)(y := ?p, ?p := 0), lsize := lsize s + 1\<rparr>"
    have "linkedlist_append True copy s e = Some ?s"
      using h append_walk_ok [of s "head s" ys y 0] xs(2) y snoc
      by (simp add: linkedlist_append_def malloc_node_def)
    moreover have "llist ?s (head s) (xs @ [?p])"
    proof -
      have "seg (nxt s) (head s) (ys @ [y]) 0" using xs(2) snoc by (simp add: llist_def)
      then have "seg ((nxt s)(y := ?p)) (head s) (ys @ [y]) ?p" using d by (intro seg_redirect) auto
      then show ?thesis
        using f xs(2) snoc by (auto simp: llist_def seg_append)
    qed
    moreover have "map (dat ?s) (xs @ [?p]) = vs @ [copy e]" using xs(4) f by simp
    ultimately show ?thesis
      using xs unfolding ll_rep_def ll_nodes_def
      by (intro exI [of _ ?s] conjI exI [of _ "xs @ [?p]"]) (auto simp: nodes_ok_def less_Suc_eq)
  qed
qed

text \<open>Walking \<open>index\<close> nodes from the start of the list.\<close>

lemma insert_walk_ok:
  "llist s ll xs \<Longrightarrow>
   insert_walk s i (i + int n) temp ll =
     (if length xs < n then Some None
      else Some (Some (if n = 0 then temp else xs ! (n - 1), if length xs = n then 0 else xs ! n)))"
proof (induction n arbitrary: i temp ll xs)
  case 0
  then show ?case by (cases xs) (auto simp: insert_walk.simps)
next
  case (Suc n)
  have e: "i + int (Suc n) = i + 1 + int n" by simp
  show ?case
  proof (cases xs)
    case Nil
    then show ?thesis using Suc.prems by (subst insert_walk.simps) auto
  next
    case (Cons x ys)
    then show ?thesis
      using Suc.IH [of "nxt s x" ys "i + 1" x] Suc.prems unfolding e
      by (subst insert_walk.simps) (auto simp: nth_Cons')
  qed
qed

lemma llist_split:
  assumes "llist s p xs" "n < length xs"
  shows "seg (nxt s) p (take n xs) (xs ! n)" "llist s (xs ! n) (drop n xs)"
proof -
  have "xs = take n xs @ drop n xs" by simp
  then obtain r where r: "seg (nxt s) p (take n xs) r" "llist s r (drop n xs)"
    using assms(1) llist_append by metis
  have "drop n xs = xs ! n # drop (Suc n) xs" using assms(2) by (simp add: Cons_nth_drop_Suc)
  then have "r = xs ! n" using r(2) by simp
  then show "seg (nxt s) p (take n xs) (xs ! n)" "llist s (xs ! n) (drop n xs)" using r by simp_all
qed

lemma ll_insert_front:
  assumes "ll_rep s vs" "index = int (length vs) \<or> index = 0"
  shows "\<exists>s'. linkedlist_insert True copy s e index = Some (1, s') \<and> ll_rep s' (copy e # vs)"
proof -
  obtain xs where xs: "nodes_ok s" "llist s (head s) xs" "lsize s = int (length xs)" "vs = map (dat s) xs"
    using assms by (auto simp: ll_rep_def ll_nodes_def)
  let ?p = "fresh s"
  note f = fresh_not_live [OF xs(1)] fresh_not_in [OF xs(1,2)]
  let ?s = "s\<lparr>lsize := lsize s + 1, live := (live s)(?p := True), fresh := Suc ?p,
      dat := (dat s)(?p := copy e), nxt := (nxt s)(?p := head s), head := ?p\<rparr>"
  have "linkedlist_insert True copy s e index = Some (1, ?s)"
    using assms(2) xs by (auto simp: linkedlist_insert_def malloc_node_def)
  moreover have "llist ?s (head s) xs" by (rule llist_frame [OF xs(2)]) (use f xs(2) in \<open>auto simp: llist_def\<close>)
  then have "llist ?s ?p (?p # xs)" using f by simp
  moreover have "map (dat ?s) (?p # xs) = copy e # vs" using xs(4) f by simp
  ultimately show ?thesis
    using xs unfolding ll_rep_def ll_nodes_def
    by (intro exI [of _ ?s] conjI exI [of _ "?p # xs"]) (auto simp: nodes_ok_def less_Suc_eq)
qed

lemma ll_insert_middle:
  assumes "ll_rep s vs" "0 < n" "n < length vs"
  shows "\<exists>s'. linkedlist_insert True copy s e (int n) = Some (1, s') \<and>
    ll_rep s' (take n vs @ copy e # drop n vs)"
proof -
  obtain xs where xs: "nodes_ok s" "llist s (head s) xs" "lsize s = int (length xs)" "vs = map (dat s) xs"
    using assms by (auto simp: ll_rep_def ll_nodes_def)
  let ?p = "fresh s"
  note f = fresh_not_live [OF xs(1)] fresh_not_in [OF xs(1,2)]
  have n: "n < length xs" using assms xs(4) by simp
  obtain m where m: "n = Suc m" using assms(2) by (cases n) auto
  let ?t = "xs ! m" and ?l = "xs ! n"
  have ts: "take n xs = take m xs @ [?t]" using n m by (simp add: take_Suc_conv_app_nth)
  have d: "distinct xs" using xs(2) by (rule llist_distinct)
  have tnot: "?t \<notin> set (take m xs)" "?t \<notin> set (drop n xs)"
    using d n m by (auto simp: in_set_conv_nth nth_eq_iff_index_eq)
  have "?t \<in> set xs" using n m by simp
  then have live: "live s ?t" "?t \<noteq> ?p" using xs(2) f by (auto simp: llist_def)
  let ?s = "s\<lparr>live := (live s)(?p := True), fresh := Suc ?p, nxt := (nxt s)(?p := ?l, ?t := ?p),
      dat := (dat s)(?p := copy e), lsize := lsize s + 1\<rparr>"
  have w: "insert_walk s 0 (int n) 0 (head s) = Some (Some (?t, ?l))"
    using insert_walk_ok [OF xs(2), of 0 n 0] n m by simp
  have "linkedlist_insert True copy s e (int n) = Some (1, ?s)"
    using w n xs(3) assms(2) live by (simp add: linkedlist_insert_def malloc_node_def)
  moreover have "llist ?s (head s) (take n xs @ ?p # drop n xs)"
  proof -
    have "seg (nxt s) (head s) (take m xs @ [?t]) ?l" using llist_split [OF xs(2) n] ts by simp
    then have "seg ((nxt s)(?t := ?p)) (head s) (take m xs @ [?t]) ?p" using tnot by (intro seg_redirect)
    then have "seg ((nxt s)(?p := ?l, ?t := ?p)) (head s) (take n xs) ?p"
      using f by (subst seg_cong [where n = "(nxt s)(?t := ?p)"]) (auto simp: ts dest: in_set_takeD)
    moreover have "llist ?s ?l (drop n xs)"
      by (rule llist_frame [OF llist_split(2) [OF xs(2) n]])
        (use f tnot xs(2) in \<open>auto simp: llist_def dest: in_set_dropD\<close>)
    moreover have "\<forall>x\<in>set (take n xs). live ?s x" using xs(2) by (auto simp: llist_def dest: in_set_takeD)
    ultimately show ?thesis using f live(2) by (auto simp: llist_append)
  qed
  moreover have "map (dat ?s) (take n xs @ ?p # drop n xs) = take n vs @ copy e # drop n vs"
    using f(3) by (auto simp: xs(4) take_map drop_map dest: in_set_takeD in_set_dropD)
  ultimately show ?thesis
    using xs n unfolding ll_rep_def ll_nodes_def
    by (intro exI [of _ ?s] conjI exI [of _ "take n xs @ ?p # drop n xs"]) (auto simp: nodes_ok_def less_Suc_eq)
qed

lemma ll_insert_invalid:
  assumes "ll_rep s vs" "int (length vs) < index"
  shows "linkedlist_insert room copy s e index = Some (0, s)"
proof -
  obtain xs where xs: "llist s (head s) xs" "lsize s = int (length xs)" "vs = map (dat s) xs"
    using assms by (auto simp: ll_rep_def ll_nodes_def)
  have "insert_walk s 0 index 0 (head s) = Some None"
    using insert_walk_ok [OF xs(1), of 0 "nat index" 0] assms(2) xs by simp
  then show ?thesis using assms(2) xs by (simp add: linkedlist_insert_def)
qed

lemma ll_insert_no_room:
  assumes "ll_rep s vs" "0 < n" "n < length vs"
  shows "linkedlist_insert False copy s e (int n) = Some (0, s)"
proof -
  obtain xs where xs: "llist s (head s) xs" "lsize s = int (length xs)" "vs = map (dat s) xs"
    using assms by (auto simp: ll_rep_def ll_nodes_def)
  show ?thesis using insert_walk_ok [OF xs(1), of 0 n 0] assms(2,3) xs by (simp add: linkedlist_insert_def)
qed

lemma contains_loop_ok:
  "llist s p xs \<Longrightarrow> contains_loop equals s e p = Some (of_bool (\<exists>x\<in>set xs. equals (dat s x) e))"
proof (induction xs arbitrary: p)
  case Nil
  then show ?case by (subst contains_loop.simps) auto
next
  case (Cons x xs)
  then show ?case by (subst contains_loop.simps) auto
qed

text \<open>The node found by \<open>linkedlist_remove\<close> is unlinked, freed and its element deleted.\<close>

lemma remove_found:
  assumes ok: "nodes_ok s" and l: "llist s (head s) (pre @ x # post)"
    and t: "temp = (if pre = [] then 0 else last pre)" and e: "equals (dat s x) e"
  shows "\<exists>s'. remove_loop equals s e temp x = Some (1, s') \<and> nodes_ok s' \<and>
    llist s' (head s') (pre @ post) \<and> lsize s' = lsize s - 1 \<and> dat s' = dat s \<and>
    deleted s' = deleted s @ [dat s x] \<and> \<not> live s' x"
proof (cases pre rule: rev_cases)
  case Nil
  let ?s = "s\<lparr>head := nxt s x, deleted := deleted s @ [dat s x], live := (live s)(x := False), lsize := lsize s - 1\<rparr>"
  have lx: "head s = x" "live s x" "x \<noteq> 0" "llist s (nxt s x) post" using l Nil by auto
  have "x \<notin> set post" using llist_distinct [OF l] by simp
  then have "llist ?s (nxt s x) post" using lx(4) by (intro llist_frame [OF lx(4)]) (auto simp: llist_def)
  moreover have "remove_loop equals s e temp x = Some (1, ?s)"
    using lx e t Nil by (subst remove_loop.simps) simp
  ultimately show ?thesis using ok Nil by (intro exI [of _ ?s]) (auto simp: nodes_ok_def)
next
  case (snoc as a)
  let ?s = "s\<lparr>nxt := (nxt s)(a := nxt s x), deleted := deleted s @ [dat s x], live := (live s)(x := False), lsize := lsize s - 1\<rparr>"
  have d: "distinct (as @ a # x # post)" using llist_distinct [OF l] snoc by simp
  have sg: "seg (nxt s) (head s) (as @ [a]) x" and lx: "llist s x (x # post)"
    and live: "\<forall>y\<in>set (as @ [a]). live s y"
    using l snoc by (auto simp: llist_append seg_append)
  have a0: "a \<noteq> 0" using sg by (auto simp: seg_append)
  have "remove_loop equals s e temp x = Some (1, ?s)"
    using lx live e t snoc a0 by (subst remove_loop.simps) simp
  moreover have "seg (nxt ?s) (head s) (as @ [a]) (nxt s x)"
    using seg_redirect [OF sg, of "nxt s x"] d by simp
  moreover have "llist ?s (nxt s x) post"
    by (rule llist_frame [where h = s]) (use lx d in \<open>auto simp: llist_def\<close>)
  moreover have "\<forall>y\<in>set (as @ [a]). live ?s y" using live d by auto
  ultimately have "llist ?s (head ?s) (pre @ post) \<and> remove_loop equals s e temp x = Some (1, ?s)"
    unfolding snoc llist_append by (intro conjI exI [of _ "nxt s x"]) simp_all
  then show ?thesis
    using ok by (intro exI [of _ ?s] conjI) (auto simp: nodes_ok_def)
qed

lemma remove_loop_ok:
  assumes ok: "nodes_ok s"
  shows "llist s (head s) (pre @ post) \<Longrightarrow> p = (if post = [] then 0 else hd post) \<Longrightarrow>
    temp = (if pre = [] then 0 else last pre) \<Longrightarrow>
    (if \<forall>x\<in>set post. \<not> equals (dat s x) e then remove_loop equals s e temp p = Some (0, s)
     else \<exists>bad x good s'. post = bad @ x # good \<and> equals (dat s x) e \<and>
       (\<forall>y\<in>set bad. \<not> equals (dat s y) e) \<and>
       remove_loop equals s e temp p = Some (1, s') \<and> nodes_ok s' \<and>
       llist s' (head s') (pre @ bad @ good) \<and> lsize s' = lsize s - 1 \<and> dat s' = dat s \<and>
       deleted s' = deleted s @ [dat s x] \<and> \<not> live s' x)"
proof (induction post arbitrary: pre p temp)
  case Nil
  then show ?case by (subst remove_loop.simps) simp
next
  case (Cons x post)
  have lx: "live s x" "x \<noteq> 0" "llist s (nxt s x) post"
    using Cons.prems(1) by (auto simp: llist_append)
  show ?case
  proof (cases "equals (dat s x) e")
    case True
    then show ?thesis
      using remove_found [OF ok Cons.prems(1,3), of equals e] Cons.prems(2)
      by (auto intro!: exI [of _ "[]"])
  next
    case False
    have nx: "nxt s x = (if post = [] then 0 else hd post)" using lx(3) by (cases post) auto
    have step: "remove_loop equals s e temp p = remove_loop equals s e x (nxt s x)"
      using False lx Cons.prems(2) by (subst remove_loop.simps) simp
    have IH: "if \<forall>x\<in>set post. \<not> equals (dat s x) e then remove_loop equals s e x (nxt s x) = Some (0, s)
     else \<exists>bad z good s'. post = bad @ z # good \<and> equals (dat s z) e \<and>
       (\<forall>y\<in>set bad. \<not> equals (dat s y) e) \<and>
       remove_loop equals s e x (nxt s x) = Some (1, s') \<and> nodes_ok s' \<and>
       llist s' (head s') ((pre @ [x]) @ bad @ good) \<and> lsize s' = lsize s - 1 \<and> dat s' = dat s \<and>
       deleted s' = deleted s @ [dat s z] \<and> \<not> live s' z"
      by (rule Cons.IH) (use Cons.prems nx in auto)
    show ?thesis
    proof (cases "\<forall>x\<in>set post. \<not> equals (dat s x) e")
      case True
      then show ?thesis using IH step False by simp
    next
      case none: False
      then obtain bad z good s' where "post = bad @ z # good" "equals (dat s z) e"
        "\<forall>y\<in>set bad. \<not> equals (dat s y) e" "remove_loop equals s e x (nxt s x) = Some (1, s')"
        "nodes_ok s'" "llist s' (head s') ((pre @ [x]) @ bad @ good)" "lsize s' = lsize s - 1"
        "dat s' = dat s" "deleted s' = deleted s @ [dat s z]" "\<not> live s' z"
        using IH [unfolded if_not_P [OF none]] by blast
      moreover from this have "\<not> (\<forall>y\<in>set (x # post). \<not> equals (dat s y) e)" by auto
      ultimately show ?thesis
        using step False unfolding if_not_P [OF \<open>\<not> (\<forall>y\<in>set (x # post). \<not> equals (dat s y) e)\<close>]
        by (intro exI [of _ "x # bad"] exI [of _ z] exI [of _ good] exI [of _ s']) auto
    qed
  qed
qed

lemma ll_remove_ok:
  assumes "ll_rep s vs"
  shows "if \<exists>v\<in>set vs. equals v e
    then \<exists>us v ws s'. vs = us @ v # ws \<and> equals v e \<and> (\<forall>u\<in>set us. \<not> equals u e) \<and>
      linkedlist_remove equals s e = Some (1, s') \<and> ll_rep s' (us @ ws) \<and> deleted s' = deleted s @ [v]
    else linkedlist_remove equals s e = Some (0, s)"
proof -
  obtain xs where xs: "nodes_ok s" "llist s (head s) xs" "lsize s = int (length xs)" "vs = map (dat s) xs"
    using assms by (auto simp: ll_rep_def ll_nodes_def)
  have h: "head s = (if xs = [] then 0 else hd xs)" using xs(2) by (cases xs) auto
  note r = remove_loop_ok [OF xs(1), of "[]" xs "head s" 0 equals e]
  show ?thesis
  proof (cases "\<forall>x\<in>set xs. \<not> equals (dat s x) e")
    case True
    then show ?thesis using r xs(2,4) h by (auto simp: linkedlist_remove_def)
  next
    case False
    then obtain bad x good s' where s': "xs = bad @ x # good" "equals (dat s x) e"
      "\<forall>y\<in>set bad. \<not> equals (dat s y) e" "remove_loop equals s e 0 (head s) = Some (1, s')"
      "nodes_ok s'" "llist s' (head s') (bad @ good)" "lsize s' = lsize s - 1" "dat s' = dat s"
      "deleted s' = deleted s @ [dat s x]"
      using r [unfolded if_not_P [OF False]] xs(2) h by auto
    then have "ll_rep s' (map (dat s) bad @ map (dat s) good)"
      using xs(3) unfolding ll_rep_def ll_nodes_def by (intro exI [of _ "bad @ good"]) auto
    moreover have "\<exists>v\<in>set vs. equals v e" using s' xs(4) by auto
    ultimately show ?thesis
      using s' xs(4) unfolding linkedlist_remove_def
      by (simp only: if_True, intro exI [of _ "map (dat s) bad"] exI [of _ "dat s x"]
          exI [of _ "map (dat s) good"] exI [of _ s'] conjI) auto
  qed
qed

lemma delete_helper_ok:
  "llist s p (x # xs) \<Longrightarrow> \<exists>s'. delete_helper s p = Some s' \<and>
     deleted s' = deleted s @ map (dat s) (x # xs) \<and>
     live s' = (\<lambda>y. live s y \<and> y \<notin> set (x # xs))"
proof (induction xs arbitrary: s p x)
  case Nil
  then show ?case by (subst delete_helper.simps) (auto simp: fun_eq_iff)
next
  case (Cons y ys)
  let ?s = "s\<lparr>deleted := deleted s @ [dat s x], live := (live s)(x := False)\<rparr>"
  have d: "x \<notin> set (y # ys)" using llist_distinct [OF Cons.prems] by simp
  have ly: "llist s (nxt s x) (y # ys)" using Cons.prems by simp
  have "llist ?s (nxt s x) (y # ys)"
    by (rule llist_frame [OF ly]) (use d ly in \<open>auto simp: llist_def\<close>)
  from Cons.IH [OF this] obtain s' where "delete_helper ?s (nxt s x) = Some s'"
    "deleted s' = deleted ?s @ map (dat ?s) (y # ys)"
    "live s' = (\<lambda>z. live ?s z \<and> z \<notin> set (y # ys))" by blast
  then show ?case
    using Cons.prems by (subst delete_helper.simps) (auto simp: fun_eq_iff)
qed

fun printed_elements :: "'v list \<Rightarrow> 'v ll_out list" where
  "printed_elements [] = [Close]"
| "printed_elements [v] = [Element v, Close]"
| "printed_elements (v # w # vs) = Element v # Comma # printed_elements (w # vs)"

lemma print_loop_ok:
  "llist s p xs \<Longrightarrow> print_loop s p out = Some (out @ printed_elements (map (dat s) xs))"
proof (induction xs arbitrary: p out)
  case Nil
  then show ?case by (subst print_loop.simps) simp
next
  case (Cons x xs)
  have "nxt s x = 0 \<longleftrightarrow> xs = []" using Cons.prems by (cases xs) auto
  then show ?case
    using Cons by (subst print_loop.simps) (cases xs; auto)
qed

section \<open>Properties\<close>

text \<open>A list of three elements, for the witnesses.\<close>

definition sample_list :: "int linkedlist" where
  "sample_list = \<lparr>nxt = (\<lambda>_. 0)(1 := 2, 2 := 3), dat = (\<lambda>_. 0)(1 := 10, 2 := 20, 3 := 30),
     live = (\<lambda>p. p = 1 \<or> p = 2 \<or> p = 3), fresh = 4, head = 1, lsize = 3, deleted = []\<rparr>"

lemma sample_list_nodes: "ll_nodes sample_list [1, 2, 3]"
  by (auto simp: ll_nodes_def sample_list_def nodes_ok_def)

lemma sample_list_rep: "ll_rep sample_list [10, 20, 30]"
  using sample_list_nodes unfolding ll_rep_def
  by (intro exI [of _ "[1, 2, 3]"]) (simp add: sample_list_def)

definition remove_first :: "('v \<Rightarrow> bool) \<Rightarrow> 'v list \<Rightarrow> 'v list" where
  "remove_first P vs = takeWhile (\<lambda>v. \<not> P v) vs @ tl (dropWhile (\<lambda>v. \<not> P v) vs)"

text \<open>C13. \<open>linkedlist_append\<close> adds a copy of the element at the tail; \<open>linkedlist_insert\<close> with the index of an element
puts a copy in front of that element, which gets the index, and returns 1; without memory for a node behind
the first, and with an index beyond the size, it returns 0 and changes nothing. (For the size itself see
\<open>linkedlist_insert_at_size\<close>.)\<close>

theorem linkedlist_growth:
  assumes "ll_rep s vs"
  shows "(\<exists>s'. linkedlist_append True copy s e = Some s' \<and> ll_rep s' (vs @ [copy e])) \<and>
    (n < length vs \<longrightarrow>
      (\<exists>s'. linkedlist_insert True copy s e (int n) = Some (1, s') \<and> ll_rep s' (take n vs @ copy e # drop n vs))) \<and>
    (0 < n \<and> n < length vs \<longrightarrow> linkedlist_insert False copy s e (int n) = Some (0, s)) \<and>
    (length vs < n \<longrightarrow> linkedlist_insert room copy s e (int n) = Some (0, s))"
  using ll_append_ok [OF assms] ll_insert_front [OF assms, of 0]
    ll_insert_middle [OF assms, of n] ll_insert_no_room [OF assms, of n] ll_insert_invalid [OF assms, of "int n"]
  by (cases "n = 0") auto

theorem linkedlist_growth_witness:
  "(\<exists>s'. linkedlist_append True (\<lambda>v. v) sample_list 40 = Some s' \<and> ll_rep s' [10, 20, 30, 40]) \<and>
    (\<exists>s'. linkedlist_insert True (\<lambda>v. v) sample_list 40 2 = Some (1, s') \<and> ll_rep s' [10, 20, 40, 30]) \<and>
    linkedlist_insert False (\<lambda>v. v) sample_list 40 2 = Some (0, sample_list) \<and>
    linkedlist_insert True (\<lambda>v. v) sample_list 40 7 = Some (0, sample_list)"
  using linkedlist_growth [OF sample_list_rep, of "\<lambda>v. v" 40 2]
    linkedlist_growth [OF sample_list_rep, of "\<lambda>v. v" 40 7 True] by simp

text \<open>The comment promises that inserting at the size of the list appends; the code inserts there in front of
the first element.\<close>

lemma linkedlist_insert_at_size:
  assumes "ll_rep s vs"
  shows "\<exists>s'. linkedlist_insert True copy s e (int (length vs)) = Some (1, s') \<and> ll_rep s' (copy e # vs)"
  by (rule ll_insert_front [OF assms]) simp

text \<open>C14. \<open>linkedlist_remove\<close> returns 1 exactly when some element equals the given one, and then
removes the first such element from the list, calls \<open>delete\<close> on it and on nothing else; otherwise it
returns 0 and changes nothing.\<close>

theorem linkedlist_remove_first:
  assumes "ll_rep s vs"
  shows "\<exists>s'. linkedlist_remove equals s e = Some (of_bool (\<exists>v\<in>set vs. equals v e), s') \<and>
    ll_rep s' (remove_first (\<lambda>v. equals v e) vs) \<and>
    deleted s' = deleted s @ take 1 (dropWhile (\<lambda>v. \<not> equals v e) vs)"
proof (cases "\<exists>v\<in>set vs. equals v e")
  case True
  then obtain us v ws s' where "vs = us @ v # ws" "equals v e" "\<forall>u\<in>set us. \<not> equals u e"
      "linkedlist_remove equals s e = Some (1, s')" "ll_rep s' (us @ ws)" "deleted s' = deleted s @ [v]"
    using ll_remove_ok [OF assms, of equals e] by auto
  then show ?thesis using True by (auto simp: remove_first_def takeWhile_append dropWhile_append)
next
  case False
  then have dw: "dropWhile (\<lambda>v. \<not> equals v e) vs = []" and "takeWhile (\<lambda>v. \<not> equals v e) vs = vs" by auto
  then have "remove_first (\<lambda>v. equals v e) vs = vs" unfolding remove_first_def by (simp only: list.sel append_Nil2)
  moreover have "linkedlist_remove equals s e = Some (0, s)"
    using False ll_remove_ok [OF assms, of equals e] by simp
  ultimately show ?thesis using False assms unfolding dw by simp
qed

theorem linkedlist_remove_first_witness:
  "\<exists>s'. linkedlist_remove (=) sample_list 20 = Some (of_bool (\<exists>v\<in>set [10, 20, 30]. v = (20 :: int)), s') \<and>
    ll_rep s' (remove_first (\<lambda>v. v = 20) [10, 20, 30]) \<and>
    deleted s' = deleted sample_list @ take 1 (dropWhile (\<lambda>v. \<not> v = 20) [10, 20, 30])"
  by (rule linkedlist_remove_first [OF sample_list_rep])

text \<open>\<open>linkedlist_contains\<close>, \<open>linkedlist_size\<close> and \<open>linkedlist_print\<close> answer from the represented
list, and \<open>linkedlist_delete\<close> calls \<open>delete\<close> once on each element in order and frees exactly the nodes
of the list.\<close>

theorem linkedlist_observed_and_deleted:
  assumes "ll_nodes s xs" "vs = map (dat s) xs"
  shows "linkedlist_contains equals s e = Some (of_bool (\<exists>v\<in>set vs. equals v e)) \<and>
    linkedlist_size s = int (length vs) \<and>
    linkedlist_print s = Some (Size (int (length vs)) # Open # printed_elements vs) \<and>
    (\<exists>s'. linkedlist_delete s = Some s' \<and> deleted s' = deleted s @ vs \<and>
      live s' = (\<lambda>p. live s p \<and> p \<notin> set xs))"
proof -
  have l: "llist s (head s) xs" and n: "lsize s = int (length xs)" using assms by (auto simp: ll_nodes_def)
  have "\<exists>s'. linkedlist_delete s = Some s' \<and> deleted s' = deleted s @ vs \<and>
      live s' = (\<lambda>p. live s p \<and> p \<notin> set xs)"
  proof (cases xs)
    case (Cons x ys)
    then have "head s \<noteq> 0" "llist s (head s) (x # ys)" using l by auto
    then show ?thesis
      using delete_helper_ok [of s "head s" x ys] assms(2) Cons by (auto simp: linkedlist_delete_def)
  qed (use l assms(2) in \<open>auto simp: linkedlist_delete_def\<close>)
  moreover have "linkedlist_contains equals s e = Some (of_bool (\<exists>v\<in>set vs. equals v e))"
    using contains_loop_ok [OF l] assms(2) by (simp add: linkedlist_contains_def)
  ultimately show ?thesis
    using print_loop_ok [OF l] n assms(2) by (simp add: linkedlist_size_def linkedlist_print_def)
qed

theorem linkedlist_observed_and_deleted_witness:
  "linkedlist_contains (=) sample_list 20 = Some (of_bool (\<exists>v\<in>set [10, 20, 30]. v = (20 :: int))) \<and>
    linkedlist_size sample_list = int (length [10, 20, 30 :: int]) \<and>
    linkedlist_print sample_list = Some (Size (int (length [10, 20, 30 :: int])) # Open # printed_elements [10, 20, 30]) \<and>
    (\<exists>s'. linkedlist_delete sample_list = Some s' \<and> deleted s' = deleted sample_list @ [10, 20, 30] \<and>
      live s' = (\<lambda>p. live sample_list p \<and> p \<notin> set [1, 2, 3]))"
  by (rule linkedlist_observed_and_deleted [OF sample_list_nodes]) (simp add: sample_list_def)

end
