(* ===== verification/NodeAlgos.thy ===== *)
theory NodeAlgos
  imports PtrList
begin

text \<open>
  The exercises on linked lists in \<open>algos/006/2\<close>: recursive reversal (\<open>reverse.c\<close>), merging of
  sorted lists without new nodes (\<open>mergek.c\<close>) and addition of numbers given by their digits
  (\<open>addtwo.c\<close>).
\<close>

section \<open>reverse.c\<close>

text \<open>\<open>*new_head\<close> is passed in and returned.\<close>

partial_function (option) reverse :: "int nodes \<Rightarrow> nat \<Rightarrow> nat \<Rightarrow> nat \<Rightarrow> (nat \<times> int nodes) option" where
  "reverse h head pointer new_head =
     (if head = 0 then Some (new_head, h)
      else do {
        n \<leftarrow> get_next h head;
        if n = 0 then do { h1 \<leftarrow> set_next h head pointer; Some (head, h1) }
        else do {
          n \<leftarrow> get_next h head;
          (new_head, h1) \<leftarrow> reverse h n head new_head;
          h2 \<leftarrow> set_next h1 head pointer;
          Some (new_head, h2) } })"

partial_function (option) print_ll :: "int nodes \<Rightarrow> nat \<Rightarrow> int list option" where
  "print_ll h head =
     (if head \<noteq> 0 then do {
        v \<leftarrow> get_val h head; n \<leftarrow> get_next h head; vs \<leftarrow> print_ll h n; Some (v # vs) }
      else Some [])"

section \<open>mergek.c\<close>

partial_function (option) insert_loop :: "int nodes \<Rightarrow> nat \<Rightarrow> nat \<Rightarrow> int nodes option" where
  "insert_loop h head thead =
     (if head \<noteq> 0 then do {
        tv \<leftarrow> get_val h thead;
        n \<leftarrow> get_next h head;
        nv \<leftarrow> get_val h n;
        if tv < nv then do {
          h1 \<leftarrow> set_next h thead n;
          set_next h1 head thead }
        else insert_loop h n thead }
      else Some h)"

definition insert_into_list :: "int nodes \<Rightarrow> nat \<Rightarrow> nat \<Rightarrow> nat \<Rightarrow> (nat \<times> int nodes) option" where
  "insert_into_list h head lhead thead = do {
     tv \<leftarrow> get_val h thead;
     hv \<leftarrow> get_val h head;
     if tv < hv then do { h1 \<leftarrow> set_next h thead head; Some (thead, h1) }
     else do {
       n \<leftarrow> get_next h head;
       if n = 0 then do {
         h1 \<leftarrow> set_next h head thead;
         h2 \<leftarrow> set_next h1 thead 0;
         Some (lhead, h2) }
       else do { h1 \<leftarrow> insert_loop h head thead; Some (lhead, h1) } } }"

partial_function (option) merge_list :: "int nodes \<Rightarrow> nat \<Rightarrow> nat \<Rightarrow> (nat \<times> int nodes) option" where
  "merge_list h lists0 head =
     (if head \<noteq> 0 then do {
        n \<leftarrow> get_next h head;
        (lists0, h1) \<leftarrow> insert_into_list h lists0 lists0 head;
        merge_list h1 lists0 n }
      else Some (lists0, h))"

definition mergeKLists :: "int nodes \<Rightarrow> nat list \<Rightarrow> (nat \<times> int nodes) option" where
  "mergeKLists h heads = do {
     (heads, h) \<leftarrow> c_for 1 (int (length heads)) (\<lambda>i (heads, h). do {
       head \<leftarrow> aget heads i;
       lists0 \<leftarrow> aget heads 0;
       (lists0, h) \<leftarrow> merge_list h lists0 head;
       heads \<leftarrow> aset heads 0 lists0;
       Some (heads, h) }) (heads, h);
     lists0 \<leftarrow> aget heads 0;
     Some (lists0, h) }"

section \<open>addtwo.c\<close>

text \<open>\<open>update\<close>: the new node becomes the result, or the successor of the last one.\<close>

definition update_result :: "int nodes \<Rightarrow> nat \<Rightarrow> nat \<Rightarrow> nat \<Rightarrow> (nat \<times> nat \<times> int nodes) option" where
  "update_result h result result_head node =
     (if result = 0 then Some (node, node, h)
      else do {
        h1 \<leftarrow> set_next h result node;
        r \<leftarrow> get_next h1 result;
        Some (r, result_head, h1) })"

text \<open>The values are non-negative, so C's \<open>/\<close> and \<open>%\<close> are \<open>div\<close> and \<open>mod\<close>. The fourth branch of
the source cannot be reached, since the loop condition excludes it.\<close>

partial_function (option) addtwo_loop ::
    "int nodes \<Rightarrow> nat \<Rightarrow> nat \<Rightarrow> int \<Rightarrow> nat \<Rightarrow> nat \<Rightarrow> (nat \<times> int nodes) option" where
  "addtwo_loop h ptr_one ptr_two remainder result result_head =
     (if ptr_one \<noteq> 0 \<or> ptr_two \<noteq> 0 then do {
        let (node, h1) = malloc_node h;
        v1 \<leftarrow> (if ptr_one \<noteq> 0 then get_val h1 ptr_one else Some 0);
        v2 \<leftarrow> (if ptr_two \<noteq> 0 then get_val h1 ptr_two else Some 0);
        h2 \<leftarrow> set_val h1 node ((v1 + v2 + remainder) smod 10);
        let remainder = (v1 + v2 + remainder) sdiv 10;
        ptr_one \<leftarrow> (if ptr_one \<noteq> 0 then get_next h2 ptr_one else Some 0);
        ptr_two \<leftarrow> (if ptr_two \<noteq> 0 then get_next h2 ptr_two else Some 0);
        (result, result_head, h3) \<leftarrow> update_result h2 result result_head node;
        addtwo_loop h3 ptr_one ptr_two remainder result result_head }
      else Some (result_head, h))"

definition addtwo :: "int nodes \<Rightarrow> nat \<Rightarrow> nat \<Rightarrow> (nat \<times> int nodes) option" where
  "addtwo h l1 l2 = addtwo_loop h l1 l2 0 0 0"

declare reverse.simps [code] print_ll.simps [code] insert_loop.simps [code] merge_list.simps [code]
  addtwo_loop.simps [code]

section \<open>Reversal\<close>

lemma print_ll_ok: "llist h p xs \<Longrightarrow> print_ll h p = Some (map (dat h) xs)"
proof (induction xs arbitrary: p)
  case Nil
  then show ?case by (subst print_ll.simps) simp
next
  case (Cons x xs)
  then show ?case by (subst print_ll.simps) simp
qed

lemma reverse_seg:
  "llist h p (x # xs) \<Longrightarrow> \<exists>h'. reverse h p q nh = Some (last (x # xs), h') \<and>
     seg (nxt h') (last (x # xs)) (rev (x # xs)) q \<and> dat h' = dat h \<and> live h' = live h \<and>
     fresh h' = fresh h \<and> (\<forall>y. y \<notin> set (x # xs) \<longrightarrow> nxt h' y = nxt h y)"
proof (induction xs arbitrary: p q x)
  case Nil
  then show ?case by (subst reverse.simps) auto
next
  case (Cons y ys)
  have l: "llist h (nxt h x) (y # ys)" "live h x" "p = x" "x \<noteq> 0" "nxt h x \<noteq> 0" using Cons.prems by auto
  have d: "x \<notin> set (y # ys)" using llist_distinct [OF Cons.prems] by simp
  obtain h1 where h1: "reverse h (nxt h x) x nh = Some (last (y # ys), h1)"
    "seg (nxt h1) (last (y # ys)) (rev (y # ys)) x" "dat h1 = dat h" "live h1 = live h" "fresh h1 = fresh h"
    "\<forall>z. z \<notin> set (y # ys) \<longrightarrow> nxt h1 z = nxt h z"
    using Cons.IH [OF l(1), of x] by blast
  let ?h = "h1\<lparr>nxt := (nxt h1)(x := q)\<rparr>"
  have "reverse h p q nh = Some (last (x # y # ys), ?h)"
    using l h1 by (subst reverse.simps) simp
  moreover have "seg (nxt ?h) (last (x # y # ys)) (rev (x # y # ys)) q"
  proof -
    have "seg ((nxt h1)(x := q)) (last (y # ys)) (rev (y # ys)) x" using h1(2) d by simp
    moreover have "seg ((nxt h1)(x := q)) x [x] q" using l(4) by simp
    ultimately have "seg ((nxt h1)(x := q)) (last (y # ys)) (rev (y # ys) @ [x]) q"
      unfolding seg_append by blast
    then show ?thesis by simp
  qed
  moreover have "\<forall>z. z \<notin> set (x # y # ys) \<longrightarrow> nxt ?h z = nxt h z" using h1(6) by simp
  moreover have "dat ?h = dat h" "live ?h = live h" "fresh ?h = fresh h" using h1(3-5) by simp_all
  ultimately show ?case by blast
qed

lemma reverse_ok:
  assumes "llist h p xs"
  shows "\<exists>p' h'. reverse h p 0 p = Some (p', h') \<and> llist h' p' (rev xs) \<and> dat h' = dat h"
proof (cases xs)
  case Nil
  then show ?thesis using assms by (subst reverse.simps) auto
next
  case (Cons x ys)
  then obtain h' where "reverse h p 0 p = Some (last xs, h')" "seg (nxt h') (last xs) (rev xs) 0"
      "dat h' = dat h" "live h' = live h"
    using reverse_seg [of h p x ys 0 p] assms by blast
  then show ?thesis using assms by (auto simp: llist_def)
qed

section \<open>Merging\<close>

text \<open>The node \<open>t\<close> is placed after the nodes whose value is at most its own.\<close>

definition ins_nodes :: "int nodes \<Rightarrow> nat \<Rightarrow> nat list \<Rightarrow> nat list" where
  "ins_nodes h t xs =
     takeWhile (\<lambda>x. dat h x \<le> dat h t) xs @ t # dropWhile (\<lambda>x. dat h x \<le> dat h t) xs"

lemma insert_loop_ok:
  assumes t: "live h t" "t \<noteq> 0" and z: "\<not> live h 0"
  shows "llist h x (x # xs) \<Longrightarrow> t \<notin> set (x # xs) \<Longrightarrow> distinct (x # xs) \<Longrightarrow>
    (if \<forall>y\<in>set xs. dat h y \<le> dat h t then insert_loop h x t = None
     else \<exists>h'. insert_loop h x t = Some h' \<and> llist h' x (x # ins_nodes h t xs) \<and>
       dat h' = dat h \<and> live h' = live h \<and> (\<forall>y. y \<notin> set (t # x # xs) \<longrightarrow> nxt h' y = nxt h y))"
proof (induction xs arbitrary: x)
  case Nil
  then show ?case using t z by (subst insert_loop.simps) (simp add: get_val_def)
next
  case (Cons y ys)
  have l: "live h x" "x \<noteq> 0" "nxt h x = y" "live h y" "y \<noteq> 0" "llist h y (y # ys)" "llist h (nxt h y) ys"
    using Cons.prems(1) by auto
  show ?case
  proof (cases "dat h t < dat h y")
    case True
    let ?h = "h\<lparr>nxt := (nxt h)(t := y, x := t)\<rparr>"
    have "insert_loop h x t = Some ?h" using l t True by (subst insert_loop.simps) simp
    moreover have "llist ?h y (y # ys)"
      by (rule llist_frame [OF l(6)]) (use l(6) Cons.prems in \<open>auto simp: llist_def\<close>)
    then have "llist ?h x (x # t # y # ys)" using l t Cons.prems(2) by auto
    ultimately show ?thesis using True by (auto simp: ins_nodes_def)
  next
    case False
    have step: "insert_loop h x t = insert_loop h y t"
      using l t False by (subst insert_loop.simps) simp
    have IH: "if \<forall>y\<in>set ys. dat h y \<le> dat h t then insert_loop h y t = None
     else \<exists>h'. insert_loop h y t = Some h' \<and> llist h' y (y # ins_nodes h t ys) \<and>
       dat h' = dat h \<and> live h' = live h \<and> (\<forall>z. z \<notin> set (t # y # ys) \<longrightarrow> nxt h' z = nxt h z)"
      by (rule Cons.IH) (use l Cons.prems in auto)
    show ?thesis
    proof (cases "\<forall>y\<in>set ys. dat h y \<le> dat h t")
      case True
      then show ?thesis using IH step False by auto
    next
      case some: False
      then obtain h' where h': "insert_loop h y t = Some h'" "llist h' y (y # ins_nodes h t ys)"
          "dat h' = dat h" "live h' = live h" "\<forall>z. z \<notin> set (t # y # ys) \<longrightarrow> nxt h' z = nxt h z"
        using IH [unfolded if_not_P [OF some]] by blast
      have "nxt h' x = y" using h'(5) l(3) Cons.prems(2,3) by auto
      then have "llist h' x (x # ins_nodes h t (y # ys))"
        using h'(2,4) l False by (simp add: ins_nodes_def)
      moreover have "\<not> (\<forall>y\<in>set (y # ys). dat h y \<le> dat h t)" using some by auto
      ultimately show ?thesis using h' step by auto
    qed
  qed
qed

lemma insert_into_list_ok:
  assumes l: "llist h p xs" and ne: "xs \<noteq> []" and t: "live h t" "t \<noteq> 0" "t \<notin> set xs" and z: "\<not> live h 0"
  shows "if length xs = 1 \<or> (\<exists>x\<in>set xs. dat h t < dat h x)
    then \<exists>p' h'. insert_into_list h p p t = Some (p', h') \<and> llist h' p' (ins_nodes h t xs) \<and>
       dat h' = dat h \<and> live h' = live h \<and> (\<forall>y. y \<notin> set (t # xs) \<longrightarrow> nxt h' y = nxt h y)
    else insert_into_list h p p t = None"
proof -
  obtain x ys where xs: "xs = x # ys" using ne by (cases xs) auto
  have lx: "p = x" "x \<noteq> 0" "live h x" "llist h (nxt h x) ys" "llist h x (x # ys)" using l xs by auto
  have d: "distinct xs" using l by (rule llist_distinct)
  show ?thesis
  proof (cases "dat h t < dat h x")
    case True
    let ?h = "h\<lparr>nxt := (nxt h)(t := x)\<rparr>"
    have "insert_into_list h p p t = Some (t, ?h)"
      using True lx(1,3) t(1) by (simp add: insert_into_list_def)
    moreover have "llist ?h x xs"
      unfolding xs by (rule llist_frame [OF lx(5)]) (use t(3) lx(5) xs in \<open>auto simp: llist_def\<close>)
    then have "llist ?h t (ins_nodes h t xs)" using True t xs by (simp add: ins_nodes_def)
    moreover have "length xs = 1 \<or> (\<exists>x\<in>set xs. dat h t < dat h x)" using True xs by simp
    ultimately show ?thesis by (simp only: if_True) (rule exI [of _ t], rule exI [of _ ?h], simp)
  next
    case False
    show ?thesis
    proof (cases ys)
      case Nil
      let ?h = "h\<lparr>nxt := (nxt h)(x := t, t := 0)\<rparr>"
      have "insert_into_list h p p t = Some (p, ?h)" using False lx t Nil by (simp add: insert_into_list_def)
      moreover have "llist ?h p (ins_nodes h t xs)" using False xs Nil lx t by (auto simp: ins_nodes_def)
      moreover have "length xs = 1" using xs Nil by simp
      ultimately show ?thesis using xs
        by (simp only: if_True simp_thms) (rule exI [of _ p], rule exI [of _ ?h], simp)
    next
      case (Cons y zs)
      then have "nxt h x \<noteq> 0" using lx(4) by auto
      then have "insert_into_list h p p t = map_option (\<lambda>h'. (p, h')) (insert_loop h x t)"
        using False lx t by (simp add: insert_into_list_def map_option_case Option.bind_def split: option.split)
      then show ?thesis
        using insert_loop_ok [OF t(1,2) z lx(5)] t(3) d False xs Cons lx(1)
        by (auto simp: ins_nodes_def split: if_splits)
    qed
  qed
qed

lemma mset_ins_nodes [simp]: "mset (ins_nodes h t xs) = add_mset t (mset xs)"
proof -
  have "mset (takeWhile P xs) + mset (dropWhile P xs) = mset xs" for P
    by (metis mset_append takeWhile_dropWhile_id)
  then show ?thesis by (simp add: ins_nodes_def)
qed

lemma set_ins_nodes: "set (ins_nodes h t xs) = insert t (set xs)"
proof -
  have "set_mset (mset (ins_nodes h t xs)) = insert t (set xs)" by (simp only: mset_ins_nodes) simp
  then show ?thesis by (simp only: set_mset_mset)
qed

lemma sorted_ins_nodes: "sorted (map (dat h) xs) \<Longrightarrow> sorted (map (dat h) (ins_nodes h t xs))"
proof (induction xs)
  case Nil
  then show ?case by (simp add: ins_nodes_def)
next
  case (Cons x xs)
  show ?case
  proof (cases "dat h x \<le> dat h t")
    case True
    then have "ins_nodes h t (x # xs) = x # ins_nodes h t xs" by (simp add: ins_nodes_def)
    then show ?thesis using Cons True by (auto simp: set_ins_nodes)
  next
    case False
    then have "ins_nodes h t (x # xs) = t # x # xs" by (simp add: ins_nodes_def)
    then show ?thesis using Cons.prems False by auto
  qed
qed

lemma ins_nodes_cong: "dat h' = dat h \<Longrightarrow> ins_nodes h' t xs = ins_nodes h t xs"
  by (simp add: ins_nodes_def)

lemma merge_list_ok:
  "llist h p xs \<Longrightarrow> xs \<noteq> [] \<Longrightarrow> llist h q ys \<Longrightarrow> distinct (xs @ ys) \<Longrightarrow> \<not> live h 0 \<Longrightarrow>
   sorted (map (dat h) xs) \<Longrightarrow> \<forall>y\<in>set ys. \<exists>x\<in>set xs. dat h y < dat h x \<Longrightarrow>
   \<exists>p' h' zs. merge_list h p q = Some (p', h') \<and> llist h' p' zs \<and> mset zs = mset (xs @ ys) \<and>
     sorted (map (dat h) zs) \<and> dat h' = dat h \<and> live h' = live h \<and>
     (\<forall>z. z \<notin> set (xs @ ys) \<longrightarrow> nxt h' z = nxt h z)"
proof (induction ys arbitrary: h p q xs)
  case Nil
  then show ?case by (subst merge_list.simps) auto
next
  case (Cons y ys)
  have y: "q = y" "live h y" "y \<noteq> 0" "y \<notin> set xs" "llist h (nxt h y) ys" using Cons.prems by auto
  obtain x where "x \<in> set xs" "dat h y < dat h x" using Cons.prems(7) by auto
  then have "length xs = 1 \<or> (\<exists>x\<in>set xs. dat h y < dat h x)" by blast
  then obtain p1 h1 where i: "insert_into_list h p p y = Some (p1, h1)" "llist h1 p1 (ins_nodes h y xs)"
      "dat h1 = dat h" "live h1 = live h" "\<forall>z. z \<notin> set (y # xs) \<longrightarrow> nxt h1 z = nxt h z"
    using insert_into_list_ok [OF Cons.prems(1,2) y(2,3,4) Cons.prems(5)] by auto
  have "llist h1 (nxt h y) ys"
    by (rule llist_frame [OF y(5)]) (use i Cons.prems y(5) in \<open>auto simp: llist_def\<close>)
  moreover have "distinct (ins_nodes h y xs @ ys)"
  proof -
    have "distinct (ins_nodes h y xs) = distinct (y # xs)" by (rule mset_eq_imp_distinct_iff) simp
    then show ?thesis using Cons.prems(4) by (auto simp: set_ins_nodes)
  qed
  moreover have "sorted (map (dat h1) (ins_nodes h y xs))"
    using sorted_ins_nodes [OF Cons.prems(6)] i(3) by simp
  moreover have "\<forall>z\<in>set ys. \<exists>x\<in>set (ins_nodes h y xs). dat h1 z < dat h1 x"
    using Cons.prems(7) i(3) by (auto simp: set_ins_nodes)
  moreover have "ins_nodes h y xs \<noteq> []" by (simp add: ins_nodes_def)
  moreover have "\<not> live h1 0" using i(4) Cons.prems(5) by simp
  ultimately obtain p' h' zs where m: "merge_list h1 p1 (nxt h y) = Some (p', h')" "llist h' p' zs"
      "mset zs = mset (ins_nodes h y xs @ ys)" "sorted (map (dat h1) zs)" "dat h' = dat h1" "live h' = live h1"
      "\<forall>z. z \<notin> set (ins_nodes h y xs @ ys) \<longrightarrow> nxt h' z = nxt h1 z"
    using Cons.IH [OF i(2)] by blast
  have "merge_list h p q = Some (p', h')"
    using y i(1) m(1) by (subst merge_list.simps) simp
  moreover have "\<forall>z. z \<notin> set (xs @ y # ys) \<longrightarrow> nxt h' z = nxt h z"
    using m(7) i(5) by (auto simp: set_ins_nodes)
  moreover have "mset zs = mset (xs @ y # ys)" using m(3) by simp
  ultimately show ?case using m(2,4-6) i(3,4) by auto
qed

definition merge_step :: "int \<Rightarrow> nat list \<times> int nodes \<Rightarrow> (nat list \<times> int nodes) option" where
  "merge_step i = (\<lambda>(heads, h). do {
       head \<leftarrow> aget heads i;
       lists0 \<leftarrow> aget heads 0;
       (lists0, h) \<leftarrow> merge_list h lists0 head;
       heads \<leftarrow> aset heads 0 lists0;
       Some (heads, h) })"

lemma merge_for:
  "list_all2 (llist h) (drop i hs) xss \<Longrightarrow> 0 < i \<Longrightarrow> i \<le> length hs \<Longrightarrow> llist h (hs ! 0) zs \<Longrightarrow> zs \<noteq> [] \<Longrightarrow>
   distinct (zs @ concat xss) \<Longrightarrow> \<not> live h 0 \<Longrightarrow> sorted (map (dat h) zs) \<Longrightarrow>
   \<forall>y\<in>set (concat xss). \<exists>x\<in>set zs. dat h y < dat h x \<Longrightarrow>
   \<exists>p' h' zs'. c_for (int i) (int (length hs)) merge_step (hs, h) = Some (hs[0 := p'], h') \<and>
     llist h' p' zs' \<and> mset zs' = mset (zs @ concat xss) \<and> sorted (map (dat h') zs')"
proof (induction xss arbitrary: i hs h zs)
  case Nil
  then have "i = length hs" by simp
  then show ?case using Nil by (intro exI [of _ "hs ! 0"] exI [of _ h] exI [of _ zs]) simp
next
  case (Cons ys xss)
  then have i: "i < length hs" by (cases "i < length hs") auto
  then have dr: "drop i hs = hs ! i # drop (Suc i) hs" by (simp add: Cons_nth_drop_Suc)
  have l: "llist h (hs ! i) ys" "list_all2 (llist h) (drop (Suc i) hs) xss"
    using Cons.prems(1) unfolding dr by auto
  obtain p1 h1 z1 where m: "merge_list h (hs ! 0) (hs ! i) = Some (p1, h1)" "llist h1 p1 z1"
      "mset z1 = mset (zs @ ys)" "sorted (map (dat h) z1)" "dat h1 = dat h" "live h1 = live h"
      "\<forall>z. z \<notin> set (zs @ ys) \<longrightarrow> nxt h1 z = nxt h z"
  proof -
    have "distinct (zs @ ys)" "\<forall>y\<in>set ys. \<exists>x\<in>set zs. dat h y < dat h x" using Cons.prems(6,9) by auto
    then show thesis using merge_list_ok [OF Cons.prems(4,5) l(1) _ Cons.prems(7,8)] that by blast
  qed
  have set1: "set z1 = set zs \<union> set ys" using mset_eq_setD [OF m(3)] by simp
  have step: "merge_step (int i) (hs, h) = Some (hs[0 := p1], h1)"
    using i m(1) Cons.prems(2) by (cases hs) (simp_all add: merge_step_def aget_def aset_def)
  have rest: "list_all2 (llist h1) (drop (Suc i) (hs[0 := p1])) xss"
  proof -
    have "drop (Suc i) (hs[0 := p1]) = drop (Suc i) hs" by simp
    moreover have "llist h1 q ws" if "llist h q ws" "ws \<in> set xss" for q ws
    proof (rule llist_frame [OF that(1)])
      fix x assume x: "x \<in> set ws"
      then have "x \<in> set (concat xss)" using that(2) by auto
      then have "x \<notin> set (zs @ ys)" using Cons.prems(6) by auto
      then show "nxt h1 x = nxt h x" using m(7) by blast
      show "live h1 x" using x that(1) m(6) by (simp add: llist_def)
    qed
    ultimately show ?thesis
      using l(2) by (auto simp: list_all2_conv_all_nth)
  qed
  have d1: "distinct (z1 @ concat xss)"
  proof -
    have "distinct z1 = distinct (zs @ ys)" by (rule mset_eq_imp_distinct_iff [OF m(3)])
    then show ?thesis using Cons.prems(6) set1 by auto
  qed
  have "\<exists>p' h' zs'. c_for (int (Suc i)) (int (length (hs[0 := p1]))) merge_step (hs[0 := p1], h1) =
      Some ((hs[0 := p1])[0 := p'], h') \<and> llist h' p' zs' \<and> mset zs' = mset (z1 @ concat xss) \<and>
      sorted (map (dat h') zs')"
  proof (rule Cons.IH [OF rest])
    show "0 < Suc i" by simp
    show "Suc i \<le> length (hs[0 := p1])" using i by simp
    show "llist h1 (hs[0 := p1] ! 0) z1" using m(2) i by (cases hs) auto
    show "z1 \<noteq> []" using m(3) Cons.prems(5) by auto
    show "distinct (z1 @ concat xss)" by (rule d1)
    show "\<not> live h1 0" using m(6) Cons.prems(7) by simp
    show "sorted (map (dat h1) z1)" using m(4,5) by simp
    show "\<forall>y\<in>set (concat xss). \<exists>x\<in>set z1. dat h1 y < dat h1 x"
      using Cons.prems(9) set1 m(5) by auto
  qed
  moreover have "c_for (int i) (int (length hs)) merge_step (hs, h) =
      c_for (int (Suc i)) (int (length (hs[0 := p1]))) merge_step (hs[0 := p1], h1)"
    using i step by (simp add: c_for_step add.commute)
  moreover have "mset (z1 @ concat xss) = mset (zs @ concat (ys # xss))" using m(3) by simp
  ultimately show ?case by (simp only: list_update_overwrite)
qed

lemma mergeKLists_ok:
  assumes z: "\<not> live h 0" and l: "list_all2 (llist h) heads (xs # xss)" and ne: "xs \<noteq> []"
    and d: "distinct (concat (xs # xss))" and s: "sorted (map (dat h) xs)"
    and lt: "\<forall>y\<in>set (concat xss). \<exists>x\<in>set xs. dat h y < dat h x"
  shows "\<exists>p' h' zs. mergeKLists h heads = Some (p', h') \<and> llist h' p' zs \<and>
    mset zs = mset (concat (xs # xss)) \<and> sorted (map (dat h') zs)"
proof -
  obtain q qs where hs: "heads = q # qs" "llist h q xs" "list_all2 (llist h) qs xss"
    using l by (cases heads) auto
  have "\<exists>p' h' zs'. c_for (int 1) (int (length heads)) merge_step (heads, h) = Some (heads[0 := p'], h') \<and>
     llist h' p' zs' \<and> mset zs' = mset (xs @ concat xss) \<and> sorted (map (dat h') zs')"
    by (rule merge_for) (use assms hs in auto)
  then show ?thesis
    using hs(1) by (auto simp: mergeKLists_def merge_step_def [abs_def] aget_def)
qed

section \<open>Addition of digit lists\<close>

fun add_digits :: "int list \<Rightarrow> int list \<Rightarrow> int \<Rightarrow> int list" where
  "add_digits [] [] c = []"
| "add_digits (x # xs) [] c = (x + c) mod 10 # add_digits xs [] ((x + c) div 10)"
| "add_digits [] (y # ys) c = (y + c) mod 10 # add_digits [] ys ((y + c) div 10)"
| "add_digits (x # xs) (y # ys) c = (x + y + c) mod 10 # add_digits xs ys ((x + y + c) div 10)"

fun number :: "int list \<Rightarrow> int" where
  "number [] = 0"
| "number (d # ds) = d + 10 * number ds"

lemma number_step:
  fixes s m :: int
  shows "s mod 10 + 10 * ((m + s div 10) mod 10 ^ n) = (s + 10 * m) mod 10 ^ Suc n"
proof -
  have "(s + 10 * m) mod (10 * 10 ^ n) = 10 * ((s + 10 * m) div 10 mod 10 ^ n) + (s + 10 * m) mod 10"
    by (rule zmod_zmult2_eq) simp
  moreover have "(s + 10 * m) div 10 = m + s div 10" by simp
  ultimately show ?thesis by simp
qed

lemma number_add_digits:
  "number (add_digits xs ys c) = (number xs + number ys + c) mod 10 ^ max (length xs) (length ys)"
proof (induction xs ys c rule: add_digits.induct)
  case (2 x xs c)
  then show ?case using number_step [of "x + c" "number xs" "length xs"] by (simp add: algebra_simps)
next
  case (3 y ys c)
  then show ?case using number_step [of "y + c" "number ys" "length ys"] by (simp add: algebra_simps)
next
  case (4 x xs y ys c)
  then show ?case
    using number_step [of "x + y + c" "number xs + number ys" "max (length xs) (length ys)"]
    by (simp add: algebra_simps)
qed simp

text \<open>A list under construction: its last node \<open>r\<close> has no successor yet.\<close>

definition open_list :: "int nodes \<Rightarrow> nat \<Rightarrow> nat \<Rightarrow> nat list \<Rightarrow> bool" where
  "open_list h rh r rs \<longleftrightarrow> (if rs = [] then r = 0 \<and> rh = 0
     else r = last rs \<and> r \<noteq> 0 \<and> seg (nxt h) rh (butlast rs) r \<and> distinct rs \<and> (\<forall>x\<in>set rs. live h x))"

lemma open_list_extend:
  assumes ok: "nodes_ok h" and o: "open_list h rh r rs"
    and h1: "h1 = h\<lparr>live := (live h)(fresh h := True), fresh := Suc (fresh h), dat := (dat h)(fresh h := v)\<rparr>"
  shows "\<exists>h2 rh2. update_result h1 r rh (fresh h) = Some (fresh h, rh2, h2) \<and>
    open_list h2 rh2 (fresh h) (rs @ [fresh h]) \<and> nodes_ok h2 \<and> dat h2 = dat h1 \<and> live h2 = live h1 \<and>
    (\<forall>x. x \<notin> set rs \<longrightarrow> nxt h2 x = nxt h x)"
proof (cases "rs = []")
  case True
  then show ?thesis
    using o ok fresh_not_live [OF ok] h1
    by (auto simp: update_result_def open_list_def nodes_ok_def less_Suc_eq)
next
  case False
  have r: "r = last rs" "r \<noteq> 0" "seg (nxt h) rh (butlast rs) r" "distinct rs" "\<forall>x\<in>set rs. live h x"
    using o False by (auto simp: open_list_def)
  have rin: "r \<in> set rs" using r(1) False by simp
  have nf: "fresh h \<notin> set rs" "r \<noteq> fresh h" using r(5) fresh_not_live [OF ok] rin by auto
  let ?h = "h1\<lparr>nxt := (nxt h1)(r := fresh h)\<rparr>"
  have "rs = butlast rs @ [r]" using r(1) False by simp
  then have "r \<notin> set (butlast rs)" using r(4) by (metis distinct_append disjoint_insert(1) list.set(2))
  then have "seg ((nxt h)(r := fresh h)) rh (butlast rs) r" using r(3) by simp
  moreover have "nxt ?h = (nxt h)(r := fresh h)" by (simp add: h1)
  ultimately have "seg (nxt ?h) rh (butlast rs @ [r]) (fresh h)"
    unfolding seg_append using r(2) by (intro exI [of _ r]) simp
  then have "seg (nxt ?h) rh rs (fresh h)" using \<open>rs = butlast rs @ [r]\<close> by simp
  moreover have "update_result h1 r rh (fresh h) = Some (fresh h, rh, ?h)"
    using r rin h1 by (simp add: update_result_def)
  ultimately show ?thesis
    using r nf ok h1 False rin fresh_not_live [OF ok]
    by (intro exI [of _ ?h] exI [of _ rh]) (auto simp: open_list_def nodes_ok_def less_Suc_eq)
qed

lemma add_digits_step:
  assumes "xs \<noteq> [] \<or> ys \<noteq> []"
  shows "add_digits xs ys c =
    ((if xs = [] then 0 else hd xs) + (if ys = [] then 0 else hd ys) + c) mod 10 #
    add_digits (tl xs) (tl ys) (((if xs = [] then 0 else hd xs) + (if ys = [] then 0 else hd ys) + c) div 10)"
  using assms by (cases xs; cases ys) auto

lemma addtwo_loop_ok:
  "nodes_ok h \<Longrightarrow> open_list h rh r rs \<Longrightarrow> llist h p xs \<Longrightarrow> llist h q ys \<Longrightarrow>
   set rs \<inter> (set xs \<union> set ys) = {} \<Longrightarrow> 0 \<le> c \<Longrightarrow>
   (\<forall>x\<in>set xs \<union> set ys. 0 \<le> dat h x) \<Longrightarrow>
   \<exists>rh' h' ns. addtwo_loop h p q c r rh = Some (rh', h') \<and>
     open_list h' rh' (if rs @ ns = [] then 0 else last (rs @ ns)) (rs @ ns) \<and>
     map (dat h') ns = add_digits (map (dat h) xs) (map (dat h) ys) c \<and>
     (\<forall>x. live h x \<longrightarrow> dat h' x = dat h x) \<and> (\<forall>x. x \<notin> set (butlast (rs @ ns)) \<longrightarrow> nxt h' x = nxt h x)"
proof (induction "max (length xs) (length ys)" arbitrary: h rh r rs p xs q ys c)
  case 0
  then have e: "xs = []" "ys = []" "p = 0" "q = 0" by auto
  have "addtwo_loop h p q c r rh = Some (rh, h)" by (subst addtwo_loop.simps) (simp add: e)
  then show ?case
    using 0 e by (intro exI [of _ rh] exI [of _ h] exI [of _ "[]"]) (auto simp: open_list_def)
next
  case (Suc n)
  let ?f = "fresh h"
  have ne: "xs \<noteq> [] \<or> ys \<noteq> []" using Suc.hyps(2) by auto
  have pq: "p = (if xs = [] then 0 else hd xs)" "q = (if ys = [] then 0 else hd ys)"
    using Suc.prems(3,4) by (cases xs; cases ys; simp)+
  have hp: "xs \<noteq> [] \<Longrightarrow> live h p \<and> p \<noteq> 0 \<and> llist h (nxt h p) (tl xs)"
    "ys \<noteq> [] \<Longrightarrow> live h q \<and> q \<noteq> 0 \<and> llist h (nxt h q) (tl ys)"
    using Suc.prems(3,4) by (cases xs; cases ys; auto)+
  note f = fresh_not_live [OF Suc.prems(1)] fresh_not_in [OF Suc.prems(1,3)] fresh_not_in [OF Suc.prems(1,4)]
  define v1 where "v1 = (if xs = [] then 0 else dat h p)"
  define v2 where "v2 = (if ys = [] then 0 else dat h q)"
  define d where "d = (v1 + v2 + c) mod 10"
  define p2 where "p2 = (if xs = [] then 0 else nxt h p)"
  define q2 where "q2 = (if ys = [] then 0 else nxt h q)"
  have v: "0 \<le> v1 + v2 + c" using Suc.prems(6,7) pq by (auto simp: v1_def v2_def)
  define h2 where "h2 = h\<lparr>live := (live h)(?f := True), fresh := Suc ?f, dat := (dat h)(?f := d)\<rparr>"
  obtain h3 rh2 where u: "update_result h2 r rh ?f = Some (?f, rh2, h3)" "open_list h3 rh2 ?f (rs @ [?f])"
      "nodes_ok h3" "dat h3 = dat h2" "live h3 = live h2" "\<forall>x. x \<notin> set rs \<longrightarrow> nxt h3 x = nxt h x"
    using open_list_extend [OF Suc.prems(1,2) h2_def] by blast
  have step: "addtwo_loop h p q c r rh = addtwo_loop h3 p2 q2 ((v1 + v2 + c) div 10) ?f rh2"
    using ne pq hp u(1) v f
    by (subst addtwo_loop.simps)
      (auto simp: malloc_node_def h2_def v1_def v2_def d_def p2_def q2_def sdiv_nonneg smod_nonneg)
  have fr: "llist h3 r' zs" if "llist h r' zs" "set rs \<inter> set zs = {}" for r' zs
    by (rule llist_frame [OF that(1)]) (use that u(5,6) in \<open>auto simp: llist_def h2_def\<close>)
  have tl: "set (tl xs) \<subseteq> set xs" "set (tl ys) \<subseteq> set ys" by (cases xs; cases ys; auto)+
  have lx: "llist h3 p2 (tl xs)" "llist h3 q2 (tl ys)"
    using hp tl Suc.prems(5) by (auto simp: p2_def q2_def intro!: fr)
  have same: "dat h3 x = dat h x" if "live h x" for x using that f u(4) by (auto simp: h2_def)
  have "\<exists>rh' h' ns. addtwo_loop h3 p2 q2 ((v1 + v2 + c) div 10) ?f rh2 = Some (rh', h') \<and>
     open_list h' rh' (if (rs @ [?f]) @ ns = [] then 0 else last ((rs @ [?f]) @ ns)) ((rs @ [?f]) @ ns) \<and>
     map (dat h') ns = add_digits (map (dat h3) (tl xs)) (map (dat h3) (tl ys)) ((v1 + v2 + c) div 10) \<and>
     (\<forall>x. live h3 x \<longrightarrow> dat h' x = dat h3 x) \<and>
     (\<forall>x. x \<notin> set (butlast ((rs @ [?f]) @ ns)) \<longrightarrow> nxt h' x = nxt h3 x)"
  proof (rule Suc.hyps(1) [OF _ u(3,2) lx])
    show "n = max (length (tl xs)) (length (tl ys))" using Suc.hyps(2) by auto
    show "set (rs @ [?f]) \<inter> (set (tl xs) \<union> set (tl ys)) = {}" using Suc.prems(5) tl f by auto
    show "0 \<le> (v1 + v2 + c) div 10" using v by simp
    show "\<forall>x\<in>set (tl xs) \<union> set (tl ys). 0 \<le> dat h3 x"
      using Suc.prems(3,4,7) tl same by (auto simp: llist_def)
  qed
  then obtain rh' h' ns where r: "addtwo_loop h3 p2 q2 ((v1 + v2 + c) div 10) ?f rh2 = Some (rh', h')"
     "open_list h' rh' (last (rs @ ?f # ns)) (rs @ ?f # ns)"
     "map (dat h') ns = add_digits (map (dat h3) (tl xs)) (map (dat h3) (tl ys)) ((v1 + v2 + c) div 10)"
     "\<forall>x. live h3 x \<longrightarrow> dat h' x = dat h3 x"
     "\<forall>x. x \<notin> set (butlast (rs @ ?f # ns)) \<longrightarrow> nxt h' x = nxt h3 x"
    by auto
  have maps: "map (dat h3) (tl xs) = tl (map (dat h) xs)" "map (dat h3) (tl ys) = tl (map (dat h) ys)"
    using Suc.prems(3,4) tl same by (auto simp: llist_def map_tl [symmetric])
  have "dat h' ?f = d" using r(4) u(4,5) by (simp add: h2_def)
  then have "map (dat h') (?f # ns) = add_digits (map (dat h) xs) (map (dat h) ys) c"
    using r(3) ne pq unfolding maps
    by (subst add_digits_step) (auto simp: d_def v1_def v2_def hd_map)
  moreover have "\<forall>x. live h x \<longrightarrow> dat h' x = dat h x" using r(4) same u(5) by (auto simp: h2_def)
  moreover have "\<forall>x. x \<notin> set (butlast (rs @ ?f # ns)) \<longrightarrow> nxt h' x = nxt h x"
    using r(5) u(6) by (auto simp: butlast_append)
  ultimately show ?case
    using r(1,2) step by (intro exI [of _ rh'] exI [of _ h'] exI [of _ "?f # ns"]) auto
qed

section \<open>Properties\<close>

text \<open>A heap with the lists 2, 4, 3 (from node 1) and 5, 6, 4 (from node 4), and one sorted list
1, 8 (from node 7).\<close>

definition sample_nodes :: "int nodes" where
  "sample_nodes = \<lparr>nxt = (\<lambda>_. 0)(1 := 2, 2 := 3, 4 := 5, 5 := 6, 7 := 8),
     dat = (\<lambda>_. 0)(1 := 2, 2 := 4, 3 := 3, 4 := 5, 5 := 6, 6 := 4, 7 := 1, 8 := 8),
     live = (\<lambda>p. 0 < p \<and> p < 9), fresh = 9\<rparr>"

lemma sample_nodes_lists:
  "llist sample_nodes 1 [1, 2, 3]" "llist sample_nodes 4 [4, 5, 6]" "llist sample_nodes 7 [7, 8]"
  "nodes_ok sample_nodes"
  by (auto simp: sample_nodes_def nodes_ok_def)

text \<open>C19. \<open>reverse\<close> stops, and the list from the new head consists of the same nodes in reverse
order, with their values unchanged.\<close>

theorem reverse_reverses:
  assumes "llist h p xs"
  shows "\<exists>p' h'. reverse h p 0 p = Some (p', h') \<and> llist h' p' (rev xs) \<and>
    print_ll h' p' = Some (rev (map (dat h) xs))"
  using reverse_ok [OF assms] print_ll_ok by (metis rev_map)

theorem reverse_reverses_witness:
  "\<exists>p' h'. reverse sample_nodes 1 0 1 = Some (p', h') \<and> llist h' p' (rev [1, 2, 3]) \<and>
    print_ll h' p' = Some (rev (map (dat sample_nodes) [1, 2, 3]))"
  by (rule reverse_reverses [OF sample_nodes_lists(1)])

text \<open>\<open>mergeKLists\<close> of disjoint lists, the first of which is sorted and not empty and has an
element larger than every element of the others, stops and returns a sorted list of exactly the nodes
of all lists, reusing them.\<close>

theorem mergeKLists_sorts:
  assumes "\<not> live h 0" "list_all2 (llist h) heads (xs # xss)" "xs \<noteq> []" "distinct (concat (xs # xss))"
    and "sorted (map (dat h) xs)" "\<forall>y\<in>set (concat xss). \<exists>x\<in>set xs. dat h y < dat h x"
  shows "\<exists>p' h' zs. mergeKLists h heads = Some (p', h') \<and> llist h' p' zs \<and>
    mset zs = mset (concat (xs # xss)) \<and> sorted (map (dat h') zs)"
  by (rule mergeKLists_ok [OF assms])

theorem mergeKLists_sorts_witness:
  "\<exists>p' h' zs. mergeKLists sample_nodes [7, 1, 4] = Some (p', h') \<and> llist h' p' zs \<and>
    mset zs = mset (concat [[7, 8], [1, 2, 3], [4, 5, 6]]) \<and> sorted (map (dat h') zs)"
  by (rule mergeKLists_sorts) (auto simp: sample_nodes_def)

text \<open>Inserting into a sorted list of two or more nodes an element that is not below its last one
dereferences the null pointer after the last node.\<close>

theorem insert_into_list_crashes:
  assumes "llist h p xs" "2 \<le> length xs" "live h t" "t \<noteq> 0" "t \<notin> set xs" "\<not> live h 0"
    and "\<forall>x\<in>set xs. dat h x \<le> dat h t"
  shows "insert_into_list h p p t = None"
proof -
  have "xs \<noteq> []" "\<not> (length xs = 1 \<or> (\<exists>x\<in>set xs. dat h t < dat h x))" using assms(2,7) by auto
  then show ?thesis using insert_into_list_ok [OF assms(1) _ assms(3-6)] by simp
qed

theorem insert_into_list_crashes_witness: "insert_into_list sample_nodes 1 1 5 = None"
  by (rule insert_into_list_crashes [OF sample_nodes_lists(1)]) (auto simp: sample_nodes_def)

text \<open>\<open>addtwo\<close> on two digit lists, least significant digit first and not both empty, stops and
builds a list of new nodes whose digits represent the sum modulo \<open>10\<close> to the power of the longer
length: the last carry is lost. The \<open>next\<close> field of its last node is never written.\<close>

theorem addtwo_sum:
  assumes "nodes_ok h" "llist h p xs" "llist h q ys" "xs \<noteq> [] \<or> ys \<noteq> []"
    and "\<forall>x\<in>set xs \<union> set ys. 0 \<le> dat h x"
  shows "\<exists>r h' ns. addtwo h p q = Some (r, h') \<and> ns \<noteq> [] \<and> seg (nxt h') r (butlast ns) (last ns) \<and>
    length ns = max (length xs) (length ys) \<and>
    number (map (dat h') ns) =
      (number (map (dat h) xs) + number (map (dat h) ys)) mod 10 ^ max (length xs) (length ys) \<and>
    nxt h' (last ns) = nxt h (last ns)"
proof -
  have "open_list h 0 0 []" by (simp add: open_list_def)
  from addtwo_loop_ok [OF assms(1) this assms(2,3) _ _ assms(5), of 0, unfolded append_Nil]
  obtain r h' ns where r: "addtwo_loop h p q 0 0 0 = Some (r, h')"
    "open_list h' r (if ns = [] then 0 else last ns) ns"
    "map (dat h') ns = add_digits (map (dat h) xs) (map (dat h) ys) 0"
    "\<forall>x. x \<notin> set (butlast ns) \<longrightarrow> nxt h' x = nxt h x" by auto
  have len: "length (add_digits us vs c) = max (length us) (length vs)" for us vs c
    by (induction us vs c rule: add_digits.induct) auto
  have l: "length ns = max (length xs) (length ys)" using arg_cong [OF r(3), of length] len by simp
  then have ne: "ns \<noteq> []" using assms(4) by (cases ns) auto
  then have "last ns \<notin> set (butlast ns)"
    using r(2) by (metis append_butlast_last_id distinct_append disjoint_insert(1) list.set(2) open_list_def)
  then show ?thesis
    using r ne l number_add_digits [of "map (dat h) xs" "map (dat h) ys" 0]
    by (intro exI [of _ r] exI [of _ h'] exI [of _ ns]) (auto simp: addtwo_def open_list_def)
qed

theorem addtwo_sum_witness:
  "\<exists>r h' ns. addtwo sample_nodes 1 4 = Some (r, h') \<and> ns \<noteq> [] \<and> seg (nxt h') r (butlast ns) (last ns) \<and>
    length ns = max (length [1, 2, 3 :: nat]) (length [4, 5, 6 :: nat]) \<and>
    number (map (dat h') ns) =
      (number (map (dat sample_nodes) [1, 2, 3]) + number (map (dat sample_nodes) [4, 5, 6]))
        mod 10 ^ max (length [1, 2, 3 :: nat]) (length [4, 5, 6 :: nat]) \<and>
    nxt h' (last ns) = nxt sample_nodes (last ns)"
  by (rule addtwo_sum [OF sample_nodes_lists(4,1,2)]) (auto simp: sample_nodes_def)

end
