(* ===== verification/Arrays.thy ===== *)
theory Arrays
  imports CPrelude "HOL-Library.Sublist"
begin

text \<open>
  The exercises on arrays: the two insertion sorts (\<open>algos/006/2/insertion.c\<close>), the search for two
  elements of a given sum (\<open>twosum.c\<close>), the table of longest common subsequences
  (\<open>algos/157/review/dynamicsubstring.c\<close>) and the conversion of decimal strings (\<open>algos/i/myatoi.c\<close>).
\<close>

section \<open>insertion.c\<close>

definition insertion :: "int list \<Rightarrow> int \<Rightarrow> int list option" where
  "insertion array size0 =
     c_for 0 size0 (\<lambda>i. c_for 0 (i + 1) (\<lambda>k array. do {
       ai \<leftarrow> aget array i;
       ak \<leftarrow> aget array k;
       if ai \<le> ak then do {
         let temp = ak;
         array \<leftarrow> aset array k ai;
         aset array i temp }
       else Some array })) array"

text \<open>The inner loop of \<open>insertion2\<close>, which counts down and is left by \<open>break\<close>.\<close>

function insertion2_inner :: "int list \<Rightarrow> int \<Rightarrow> int \<Rightarrow> int list option" where
  "insertion2_inner array k ith =
     (if k \<ge> 0 then do {
        ai \<leftarrow> aget array ith;
        ak \<leftarrow> aget array k;
        if ai \<ge> ak then Some array
        else do {
          array \<leftarrow> aset array ith ak;
          array \<leftarrow> aset array k ai;
          insertion2_inner array (k - 1) (ith - 1) } }
      else Some array)"
  by pat_completeness auto

termination by (relation "measure (\<lambda>(_, k, _). nat (k + 1))") auto

declare insertion2_inner.simps [simp del]

definition insertion2 :: "int list \<Rightarrow> int \<Rightarrow> int list option" where
  "insertion2 array size0 = c_for 0 size0 (\<lambda>i array. insertion2_inner array (i - 1) i) array"

section \<open>twosum.c\<close>

text \<open>The two cells of \<open>return_array\<close> start with whatever \<open>malloc\<close> left in them. The \<open>break\<close> leaves
the inner loop only.\<close>

function two_sum_inner :: "int list \<Rightarrow> int \<Rightarrow> int \<Rightarrow> int \<Rightarrow> int \<Rightarrow> int \<times> int \<Rightarrow> (int \<times> int) option" where
  "two_sum_inner nums numsSize target i j ret =
     (if j < numsSize then do {
        x \<leftarrow> aget nums i;
        y \<leftarrow> aget nums j;
        if x + y = target then Some (i, j)
        else two_sum_inner nums numsSize target i (j + 1) ret }
      else Some ret)"
  by pat_completeness auto

termination by (relation "measure (\<lambda>(_, n, _, _, j, _). nat (n - j))") auto

declare two_sum_inner.simps [simp del]

definition twoSum :: "int list \<Rightarrow> int \<Rightarrow> int \<Rightarrow> int \<times> int \<Rightarrow> (int \<times> int) option" where
  "twoSum nums numsSize target garbage =
     c_for 0 (numsSize - 1) (\<lambda>i ret. two_sum_inner nums numsSize target i i ret) garbage"

section \<open>dynamicsubstring.c\<close>

definition max3 :: "int \<Rightarrow> int \<Rightarrow> int \<Rightarrow> int" where
  "max3 a b c = (if a \<ge> b \<and> a \<ge> c then a else if b \<ge> a \<and> b \<ge> c then b else c)"

definition get2 :: "int list list \<Rightarrow> int \<Rightarrow> int \<Rightarrow> int option" where
  "get2 table i j = do { row \<leftarrow> aget table i; aget row j }"

definition set2 :: "int list list \<Rightarrow> int \<Rightarrow> int \<Rightarrow> int \<Rightarrow> int list list option" where
  "set2 table i j v = do { row \<leftarrow> aget table i; row \<leftarrow> aset row j v; aset table i row }"

definition initialize :: "int \<Rightarrow> int \<Rightarrow> int list list \<Rightarrow> int list list option" where
  "initialize a b table = c_for 0 a (\<lambda>i. c_for 0 b (\<lambda>j table. set2 table i j 0)) table"

text \<open>\<open>a\<close> and \<open>b\<close> are the characters of the strings, without the terminating NUL.\<close>

definition solve :: "'c list \<Rightarrow> 'c list \<Rightarrow> int \<Rightarrow> int \<Rightarrow> int list list \<Rightarrow> int option" where
  "solve a b alen blen table = do {
     table \<leftarrow> c_for 1 alen (\<lambda>i. c_for 1 blen (\<lambda>j table. do {
       x \<leftarrow> aget a (i - 1);
       y \<leftarrow> aget b (j - 1);
       d \<leftarrow> get2 table (i - 1) (j - 1);
       l \<leftarrow> get2 table i (j - 1);
       u \<leftarrow> get2 table (i - 1) j;
       if x = y then set2 table i j (max3 (1 + d) l u)
       else set2 table i j (max3 d l u) })) table;
     get2 table (alen - 1) (blen - 1) }"

text \<open>\<open>main\<close>, on the two arguments; the table starts with arbitrary contents.\<close>

definition max_substring :: "'c list \<Rightarrow> 'c list \<Rightarrow> int list list \<Rightarrow> int option" where
  "max_substring a b table = do {
     let alen = int (length a);
     let blen = int (length b);
     table \<leftarrow> initialize (alen + 1) (blen + 1) table;
     solve a b (alen + 1) (blen + 1) table }"

section \<open>myatoi.c\<close>

text \<open>A C string is its list of characters with the terminating 0.\<close>

partial_function (option) mystrlen_loop :: "int list \<Rightarrow> int \<Rightarrow> int option" where
  "mystrlen_loop str i = do { c \<leftarrow> aget str i; if c \<noteq> 0 then mystrlen_loop str (i + 1) else Some i }"

definition mystrlen :: "int list \<Rightarrow> int option" where
  "mystrlen str = mystrlen_loop str 0"

text \<open>Overflow of an \<open>int\<close> is undefined.\<close>

definition in_int :: "int \<Rightarrow> int option" where
  "in_int x = (if - 2147483648 \<le> x \<and> x < 2147483648 then Some x else None)"

text \<open>\<open>main\<close>: \<open>Inl\<close> is the message about a character that is not a digit, \<open>Inr\<close> the number.\<close>

function atoi_loop :: "int list \<Rightarrow> int \<Rightarrow> int \<Rightarrow> int \<Rightarrow> bool \<Rightarrow> (int + int) option" where
  "atoi_loop number numlen i result neg =
     (if i < numlen then do {
        c \<leftarrow> aget number i;
        if c < 48 \<or> c > 57 then
          if i = 0 \<and> c = 45 then atoi_loop number numlen (i + 1) result True
          else Some (Inl c)
        else do {
          r \<leftarrow> in_int (result * 10);
          r \<leftarrow> in_int (r + (c - 48));
          atoi_loop number numlen (i + 1) r neg } }
      else Some (Inr (if neg then result * - 1 else result)))"
  by pat_completeness auto

termination by (relation "measure (\<lambda>(_, n, i, _, _). nat (n - i))") auto

declare atoi_loop.simps [simp del]

definition myatoi :: "int list \<Rightarrow> (int + int) option" where
  "myatoi number = do { numlen \<leftarrow> mystrlen number; atoi_loop number numlen 0 0 False }"

declare mystrlen_loop.simps [code]

section \<open>Sorting\<close>

definition sorted_upto :: "nat \<Rightarrow> int list \<Rightarrow> bool" where
  "sorted_upto n a \<longleftrightarrow> (\<forall>p q. p \<le> q \<and> q < n \<longrightarrow> a ! p \<le> a ! q)"

lemma sorted_upto_length: "sorted_upto (length a) a \<longleftrightarrow> sorted a"
  by (auto simp: sorted_upto_def sorted_iff_nth_mono)

lemma sorted_uptoD: "sorted_upto n a \<Longrightarrow> p \<le> q \<Longrightarrow> q < n \<Longrightarrow> a ! p \<le> a ! q"
  by (simp add: sorted_upto_def)

text \<open>One exchange of the inner loop of \<open>insertion\<close>: the cells before \<open>m\<close> are at most cell \<open>i\<close>.\<close>

definition insertion_inv :: "nat \<Rightarrow> nat \<Rightarrow> int list \<Rightarrow> bool" where
  "insertion_inv i m b \<longleftrightarrow> sorted_upto i b \<and> (\<forall>j<m. b ! j \<le> b ! i)"

lemma insertion_exchange:
  assumes inv: "insertion_inv i m b" and m: "m \<le> i" "i < length b"
  shows "insertion_inv i (Suc m) (if b ! i \<le> b ! m then b[m := b ! i, i := b ! m] else b)"
proof (cases "b ! i \<le> b ! m \<and> m \<noteq> i")
  case False
  then show ?thesis using inv by (auto simp: insertion_inv_def less_Suc_eq)
next
  case True
  let ?b = "b[m := b ! i, i := b ! m]"
  have mi: "m < i" using True m by simp
  have le: "b ! i \<le> b ! m" using True by simp
  have s: "sorted_upto i b" and lo: "\<And>j. j < m \<Longrightarrow> b ! j \<le> b ! i" using inv by (auto simp: insertion_inv_def)
  have at: "?b ! p = (if p = m then b ! i else b ! p)" if "p < i" for p
    using that mi m by (simp add: nth_list_update)
  have bi: "?b ! i = b ! m" using m by simp
  have "?b ! p \<le> ?b ! q" if "p \<le> q" "q < i" for p q
  proof -
    have "p < i" using that by simp
    consider "p = m" "q = m" | "p = m" "q \<noteq> m" | "p \<noteq> m" "q = m" | "p \<noteq> m" "q \<noteq> m" by blast
    then show ?thesis
    proof cases
      case 2
      then have "b ! m \<le> b ! q" using sorted_uptoD [OF s, of m q] that by simp
      then show ?thesis using 2 le at \<open>p < i\<close> that by simp
    next
      case 3
      then show ?thesis using lo [of p] at \<open>p < i\<close> that by simp
    next
      case 4
      then show ?thesis using sorted_uptoD [OF s that] at \<open>p < i\<close> that by simp
    qed simp
  qed
  moreover have "?b ! j \<le> ?b ! i" if "j < Suc m" for j
    using that mi sorted_uptoD [OF s, of j m] at [of j] bi le by (cases "j = m") auto
  ultimately show ?thesis using le by (simp add: insertion_inv_def sorted_upto_def)
qed

definition insertion_step :: "int \<Rightarrow> int \<Rightarrow> int list \<Rightarrow> int list option" where
  "insertion_step i k array = do {
       ai \<leftarrow> aget array i;
       ak \<leftarrow> aget array k;
       if ai \<le> ak then do {
         let temp = ak;
         array \<leftarrow> aset array k ai;
         aset array i temp }
       else Some array }"

lemma insertion_inner_ok:
  assumes i: "i < length a" and s: "sorted_upto i a"
  shows "\<exists>a'. c_for 0 (int i + 1) (insertion_step (int i)) a = Some a' \<and> mset a' = mset a \<and> sorted_upto (Suc i) a'"
proof -
  define J where "J k b \<longleftrightarrow> mset b = mset a \<and> insertion_inv i (nat k) b" for k b
  have "\<exists>a'. c_for 0 (int i + 1) (insertion_step (int i)) a = Some a' \<and> J (int i + 1) a'"
  proof (rule c_for_invariant)
    show "J 0 a" using s by (simp add: J_def insertion_inv_def)
    fix k b assume k: "0 \<le> k" "k < int i + 1" and J: "J k b"
    define m where "m = nat k"
    have m: "k = int m" "m \<le> i" using k by (auto simp: m_def)
    have len: "length b = length a" using J by (auto simp: J_def dest: mset_eq_length)
    let ?b = "if b ! i \<le> b ! m then b[m := b ! i, i := b ! m] else b"
    have "mset ?b = mset a" using J i m len by (simp add: J_def mset_swap)
    moreover have "insertion_inv i (Suc m) ?b"
      using J m i len by (intro insertion_exchange) (auto simp: J_def)
    moreover have "nat (k + 1) = Suc m" using m by simp
    ultimately have "J (k + 1) ?b" unfolding J_def by simp
    moreover have "insertion_step (int i) k b = Some ?b"
      using m i len by (simp add: insertion_step_def)
    ultimately show "\<exists>s'. insertion_step (int i) k b = Some s' \<and> J (k + 1) s'" by blast
  qed simp
  then obtain a' where r: "c_for 0 (int i + 1) (insertion_step (int i)) a = Some a'" "J (int i + 1) a'" by blast
  moreover have "nat (int i + 1) = Suc i" by simp
  ultimately have "mset a' = mset a" and inv: "insertion_inv i (Suc i) a'" by (simp_all add: J_def)
  have "a' ! p \<le> a' ! q" if "p \<le> q" "q < Suc i" for p q
    using that inv sorted_uptoD [of i a' p q] by (cases "q = i") (auto simp: insertion_inv_def)
  then have "sorted_upto (Suc i) a'" by (simp add: sorted_upto_def)
  then show ?thesis using r(1) \<open>mset a' = mset a\<close> by blast
qed

text \<open>Both sorts run their inner loop for every \<open>i\<close>.\<close>

lemma sort_outer:
  assumes "\<And>i b. i < length b \<Longrightarrow> sorted_upto i b \<Longrightarrow>
    \<exists>b'. body (int i) b = Some b' \<and> mset b' = mset b \<and> sorted_upto (Suc i) b'"
  shows "\<exists>a'. c_for 0 (int (length a)) body a = Some a' \<and> mset a' = mset a \<and> sorted a'"
proof -
  define I where "I k b \<longleftrightarrow> mset b = mset a \<and> sorted_upto (nat k) b" for k b
  have "\<exists>a'. c_for 0 (int (length a)) body a = Some a' \<and> I (int (length a)) a'"
  proof (rule c_for_invariant)
    show "I 0 a" by (simp add: I_def sorted_upto_def)
    fix k b assume k: "0 \<le> k" "k < int (length a)" and I: "I k b"
    have "length b = length a" using I by (auto simp: I_def dest: mset_eq_length)
    then show "\<exists>s'. body k b = Some s' \<and> I (k + 1) s'"
      using assms [of "nat k" b] I k by (auto simp: I_def nat_add_distrib)
  qed simp
  then obtain a' where a': "c_for 0 (int (length a)) body a = Some a'" "I (int (length a)) a'" by blast
  then have "length a' = length a" by (auto simp: I_def dest: mset_eq_length)
  then have "sorted a'" using a'(2) sorted_upto_length [of a'] by (simp add: I_def)
  then show ?thesis using a' by (auto simp: I_def)
qed

lemma insertion_ok: "\<exists>a'. insertion a (int (length a)) = Some a' \<and> mset a' = mset a \<and> sorted a'"
  using sort_outer [where body = "\<lambda>i. c_for 0 (i + 1) (insertion_step i)", OF insertion_inner_ok]
  by (simp add: insertion_def insertion_step_def [abs_def])

text \<open>The array while \<open>insertion2\<close> moves the element at \<open>t\<close> down: everything else is sorted.\<close>

definition insertion2_inv :: "nat \<Rightarrow> nat \<Rightarrow> int list \<Rightarrow> bool" where
  "insertion2_inv n t b \<longleftrightarrow>
     (\<forall>p q. p \<le> q \<and> q < n \<and> p \<noteq> t \<and> q \<noteq> t \<longrightarrow> b ! p \<le> b ! q) \<and> (\<forall>q. t < q \<and> q < n \<longrightarrow> b ! t \<le> b ! q)"

lemma insertion2_inner_ok:
  "insertion2_inv n t b \<Longrightarrow> t < n \<Longrightarrow> n \<le> length b \<Longrightarrow>
   \<exists>b'. insertion2_inner b (int t - 1) (int t) = Some b' \<and> mset b' = mset b \<and> sorted_upto n b'"
proof (induction t arbitrary: b)
  case 0
  have "b ! p \<le> b ! q" if "p \<le> q" "q < n" for p q
    using 0 that by (cases "p = 0"; cases "q = 0") (auto simp: insertion2_inv_def)
  then show ?case by (subst insertion2_inner.simps) (simp add: sorted_upto_def)
next
  case (Suc t)
  have len: "t < length b" "Suc t < length b" using Suc.prems by auto
  show ?case
  proof (cases "b ! t \<le> b ! Suc t")
    case True
    have "b ! p \<le> b ! q" if pq: "p \<le> q" "q < n" for p q
    proof -
      consider "p = Suc t" "q = Suc t" | "p = Suc t" "q \<noteq> Suc t" | "p \<noteq> Suc t" "q = Suc t" | "p \<noteq> Suc t" "q \<noteq> Suc t"
        by blast
      then show ?thesis
      proof cases
        case 3
        then have "b ! p \<le> b ! t" using Suc.prems(1,2) pq by (auto simp: insertion2_inv_def)
        then show ?thesis using 3 True by simp
      qed (use Suc.prems(1) pq in \<open>auto simp: insertion2_inv_def\<close>)
    qed
    then show ?thesis
      using True len by (subst insertion2_inner.simps) (simp add: sorted_upto_def aget_def nat_add_distrib)
  next
    case False
    let ?b = "b[Suc t := b ! t, t := b ! Suc t]"
    have at: "?b ! p = (if p = t then b ! Suc t else if p = Suc t then b ! t else b ! p)" for p
      using len by (auto simp: nth_list_update)
    have I: "\<And>p q. p \<le> q \<Longrightarrow> q < n \<Longrightarrow> p \<noteq> Suc t \<Longrightarrow> q \<noteq> Suc t \<Longrightarrow> b ! p \<le> b ! q"
        "\<And>q. Suc t < q \<Longrightarrow> q < n \<Longrightarrow> b ! Suc t \<le> b ! q"
      using Suc.prems(1) by (auto simp: insertion2_inv_def)
    have "insertion2_inv n t ?b"
      unfolding insertion2_inv_def
    proof (intro conjI allI impI)
      fix p q assume pq: "p \<le> q \<and> q < n \<and> p \<noteq> t \<and> q \<noteq> t"
      show "?b ! p \<le> ?b ! q"
        using pq I(1) [of p q] I(1) [of p t] I(1) [of t q] unfolding at by auto
    next
      fix q assume q: "t < q \<and> q < n"
      then show "?b ! t \<le> ?b ! q" using I(2) [of q] False unfolding at by auto
    qed
    then obtain b' where b': "insertion2_inner ?b (int t - 1) (int t) = Some b'" "mset b' = mset ?b" "sorted_upto n b'"
      using Suc.IH [of ?b] Suc.prems by auto
    have "mset ?b = mset b" using len by (simp add: mset_swap)
    then show ?thesis
      using b' False len
      by (subst insertion2_inner.simps) (simp add: aget_def aset_def nat_add_distrib)
  qed
qed

lemma insertion2_ok: "\<exists>a'. insertion2 a (int (length a)) = Some a' \<and> mset a' = mset a \<and> sorted a'"
proof -
  have "\<exists>b'. insertion2_inner b (int i - 1) (int i) = Some b' \<and> mset b' = mset b \<and> sorted_upto (Suc i) b'"
    if "i < length b" "sorted_upto i b" for i b
    using that by (intro insertion2_inner_ok) (auto simp: insertion2_inv_def sorted_upto_def less_Suc_eq)
  then show ?thesis
    unfolding insertion2_def by (intro sort_outer) auto
qed

section \<open>Two elements of a given sum\<close>

lemma two_sum_inner_ok:
  assumes "i < length nums" and "j \<le> length nums"
  shows "two_sum_inner nums (int (length nums)) target (int i) (int j) ret =
    Some (case find (\<lambda>k. nums ! i + nums ! k = target) [j..<length nums] of
      None \<Rightarrow> ret | Some k \<Rightarrow> (int i, int k))"
  using assms(2)
proof (induction "length nums - j" arbitrary: j)
  case 0
  then show ?case by (subst two_sum_inner.simps) simp
next
  case (Suc n)
  then have j: "j < length nums" by simp
  have up: "[j..<length nums] = j # [Suc j..<length nums]" using j by (rule upt_conv_Cons)
  have "two_sum_inner nums (int (length nums)) target (int i) (int j + 1) ret =
    Some (case find (\<lambda>k. nums ! i + nums ! k = target) [Suc j..<length nums] of
      None \<Rightarrow> ret | Some k \<Rightarrow> (int i, int k))"
    using Suc.hyps(1) [of "Suc j"] Suc.hyps(2) j by (simp add: add.commute)
  then show ?case using j assms(1) unfolding up by (subst two_sum_inner.simps) simp
qed

definition partner :: "int list \<Rightarrow> int \<Rightarrow> nat \<Rightarrow> nat \<Rightarrow> bool" where
  "partner nums target i j \<longleftrightarrow> i \<le> j \<and> j < length nums \<and> nums ! i + nums ! j = target"

definition last_pair :: "int list \<Rightarrow> int \<Rightarrow> nat \<Rightarrow> int \<times> int \<Rightarrow> int \<times> int \<Rightarrow> bool" where
  "last_pair nums target m garbage ret \<longleftrightarrow>
     (if \<exists>i<m. \<exists>j. partner nums target i j
      then \<exists>i j. ret = (int i, int j) \<and> i < m \<and> partner nums target i j \<and>
        (\<forall>i'. i < i' \<and> i' < m \<longrightarrow> (\<forall>j'. \<not> partner nums target i' j'))
      else ret = garbage)"

lemma last_pair_Suc:
  "last_pair nums target m garbage ret \<Longrightarrow> \<forall>j. \<not> partner nums target m j \<Longrightarrow>
   last_pair nums target (Suc m) garbage ret"
  "partner nums target m j \<Longrightarrow> last_pair nums target (Suc m) garbage (int m, int j)"
proof -
  assume l: "last_pair nums target m garbage ret" and no: "\<forall>j. \<not> partner nums target m j"
  have s: "i < Suc m \<and> partner nums target i j \<longleftrightarrow> i < m \<and> partner nums target i j" for i j
    using no by (cases "i = m") auto
  show "last_pair nums target (Suc m) garbage ret"
  proof (cases "\<exists>i<m. \<exists>j. partner nums target i j")
    case True
    then obtain i j where "ret = (int i, int j)" "i < m" "partner nums target i j"
        "\<forall>i'. i < i' \<and> i' < m \<longrightarrow> (\<forall>j'. \<not> partner nums target i' j')"
      using l unfolding last_pair_def by auto
    then show ?thesis using no unfolding last_pair_def by (auto simp: less_Suc_eq)
  next
    case False
    then have "\<not> (\<exists>i<Suc m. \<exists>j. partner nums target i j)" using s by blast
    moreover have "ret = garbage" using l False unfolding last_pair_def by auto
    ultimately show ?thesis unfolding last_pair_def by auto
  qed
next
  assume "partner nums target m j"
  then show "last_pair nums target (Suc m) garbage (int m, int j)"
    unfolding last_pair_def by auto
qed

lemma twoSum_ok:
  assumes ne: "nums \<noteq> []"
  shows "\<exists>ret. twoSum nums (int (length nums)) target garbage = Some ret \<and>
    last_pair nums target (length nums - 1) garbage ret"
proof -
  have "\<exists>ret. twoSum nums (int (length nums)) target garbage = Some ret \<and>
      last_pair nums target (nat (int (length nums) - 1)) garbage ret"
    unfolding twoSum_def
  proof (rule c_for_invariant)
    show "last_pair nums target (nat 0) garbage garbage" by (simp add: last_pair_def)
    show "0 \<le> int (length nums) - 1" using ne by (cases nums) auto
    fix k ret assume k: "0 \<le> k" "k < int (length nums) - 1" and I: "last_pair nums target (nat k) garbage ret"
    define m where "m = nat k"
    have m: "k = int m" "m < length nums" "nat (k + 1) = Suc m" using k by (auto simp: m_def)
    let ?f = "find (\<lambda>j. nums ! m + nums ! j = target) [m..<length nums]"
    have r: "two_sum_inner nums (int (length nums)) target k k ret =
        Some (case ?f of None \<Rightarrow> ret | Some j \<Rightarrow> (int m, int j))"
      unfolding m(1) by (rule two_sum_inner_ok) (use m in auto)
    have "last_pair nums target (Suc m) garbage (case ?f of None \<Rightarrow> ret | Some j \<Rightarrow> (int m, int j))"
    proof (cases ?f)
      case None
      then have "\<forall>j. \<not> partner nums target m j" by (auto simp: find_None_iff partner_def)
      then show ?thesis using last_pair_Suc(1) I None by (simp add: m_def)
    next
      case (Some j)
      then have "partner nums target m j" by (auto simp: find_Some_iff partner_def)
      then show ?thesis using last_pair_Suc(2) Some by simp
    qed
    then show "\<exists>s'. two_sum_inner nums (int (length nums)) target k k ret = Some s' \<and>
        last_pair nums target (nat (k + 1)) garbage s'"
      using r m(3) by simp
  qed
  moreover have "nat (int (length nums) - 1) = length nums - 1" by simp
  ultimately show ?thesis by simp
qed

section \<open>Longest common subsequences\<close>

definition lcs :: "'c list \<Rightarrow> 'c list \<Rightarrow> nat" where
  "lcs xs ys = Max (length ` (set (subseqs xs) \<inter> set (subseqs ys)))"

lemma lcs_upper: "subseq s xs \<Longrightarrow> subseq s ys \<Longrightarrow> length s \<le> lcs xs ys"
  unfolding lcs_def by (rule Max_ge) auto

lemma lcs_witness: "\<exists>s. subseq s xs \<and> subseq s ys \<and> length s = lcs xs ys"
proof -
  let ?S = "set (subseqs xs) \<inter> set (subseqs ys)"
  have "[] \<in> ?S" by simp
  then have "length ` ?S \<noteq> {}" by blast
  then have "Max (length ` ?S) \<in> length ` ?S" by (intro Max_in) auto
  then show ?thesis by (auto simp: lcs_def)
qed

lemma lcs_least: "(\<And>s. subseq s xs \<Longrightarrow> subseq s ys \<Longrightarrow> length s \<le> n) \<Longrightarrow> lcs xs ys \<le> n"
  using lcs_witness [of xs ys] by metis

lemma lcs_Nil [simp]: "lcs [] ys = 0" "lcs xs [] = 0"
  using lcs_witness [of "[]" ys] lcs_witness [of xs "[]"] by (auto dest: list_emb_Nil2)

lemma subseq_snoc:
  "subseq s (xs @ [x]) \<longleftrightarrow> subseq s xs \<or> (\<exists>s'. s = s' @ [x] \<and> subseq s' xs)"
proof -
  have u: "subseq u [x] \<longleftrightarrow> u = [] \<or> u = [x]" for u
    by (cases u) (auto dest: list_emb_Nil2)
  show ?thesis unfolding subseq_append_iff u by auto
qed

lemma lcs_mono: "lcs xs ys \<le> lcs (xs @ [x]) ys" "lcs xs ys \<le> lcs xs (ys @ [y])"
proof -
  obtain s where "subseq s xs" "subseq s ys" "length s = lcs xs ys" using lcs_witness by blast
  then show "lcs xs ys \<le> lcs (xs @ [x]) ys" "lcs xs ys \<le> lcs xs (ys @ [y])"
    using lcs_upper [of s "xs @ [x]" ys] lcs_upper [of s xs "ys @ [y]"] by (simp_all add: subseq_snoc)
qed

lemma lcs_snoc_same:
  "int (lcs (xs @ [x]) (ys @ [x])) = max3 (1 + int (lcs xs ys)) (int (lcs (xs @ [x]) ys)) (int (lcs xs (ys @ [x])))"
proof -
  obtain s where "subseq s xs" "subseq s ys" "length s = lcs xs ys" using lcs_witness by blast
  then have "Suc (lcs xs ys) \<le> lcs (xs @ [x]) (ys @ [x])"
    using lcs_upper [of "s @ [x]" "xs @ [x]" "ys @ [x]"] by (simp add: subseq_snoc)
  moreover have "lcs (xs @ [x]) ys \<le> lcs (xs @ [x]) (ys @ [x])" "lcs xs (ys @ [x]) \<le> lcs (xs @ [x]) (ys @ [x])"
    by (rule lcs_mono)+
  moreover have "lcs (xs @ [x]) (ys @ [x]) \<le> max (Suc (lcs xs ys)) (max (lcs (xs @ [x]) ys) (lcs xs (ys @ [x])))"
  proof (rule lcs_least)
    fix s assume a: "subseq s (xs @ [x])" "subseq s (ys @ [x])"
    then consider "subseq s xs" | "subseq s ys" | s' where "s = s' @ [x]" "subseq s' xs" "subseq s' ys"
      by (auto simp: subseq_snoc)
    then show "length s \<le> max (Suc (lcs xs ys)) (max (lcs (xs @ [x]) ys) (lcs xs (ys @ [x])))"
    proof cases
      case 1
      then show ?thesis using lcs_upper [of s xs "ys @ [x]"] a by simp
    next
      case 2
      then show ?thesis using lcs_upper [of s "xs @ [x]" ys] a by simp
    next
      case 3
      then show ?thesis using lcs_upper [of s' xs ys] by simp
    qed
  qed
  ultimately show ?thesis unfolding max3_def by auto
qed

lemma lcs_snoc_other:
  assumes "x \<noteq> y"
  shows "int (lcs (xs @ [x]) (ys @ [y])) = max3 (int (lcs xs ys)) (int (lcs (xs @ [x]) ys)) (int (lcs xs (ys @ [y])))"
proof -
  have "lcs (xs @ [x]) (ys @ [y]) \<le> max (lcs (xs @ [x]) ys) (lcs xs (ys @ [y]))"
  proof (rule lcs_least)
    fix s assume a: "subseq s (xs @ [x])" "subseq s (ys @ [y])"
    then have "subseq s xs \<or> subseq s ys" using assms by (auto simp: subseq_snoc)
    then show "length s \<le> max (lcs (xs @ [x]) ys) (lcs xs (ys @ [y]))"
      using lcs_upper [of s xs "ys @ [y]"] lcs_upper [of s "xs @ [x]" ys] a by auto
  qed
  moreover have "lcs (xs @ [x]) ys \<le> lcs (xs @ [x]) (ys @ [y])" "lcs xs (ys @ [y]) \<le> lcs (xs @ [x]) (ys @ [y])"
    "lcs xs ys \<le> lcs (xs @ [x]) ys"
    by (rule lcs_mono)+
  ultimately show ?thesis unfolding max3_def by auto
qed

text \<open>A table of \<open>m\<close> rows and \<open>n\<close> columns with the entries \<open>f\<close>.\<close>

definition is_table :: "nat \<Rightarrow> nat \<Rightarrow> (nat \<Rightarrow> nat \<Rightarrow> int) \<Rightarrow> int list list \<Rightarrow> bool" where
  "is_table m n f t \<longleftrightarrow> length t = m \<and> (\<forall>p<m. length (t ! p) = n \<and> (\<forall>q<n. t ! p ! q = f p q))"

lemma get2_table: "is_table m n f t \<Longrightarrow> p < m \<Longrightarrow> q < n \<Longrightarrow> get2 t (int p) (int q) = Some (f p q)"
  by (simp add: get2_def is_table_def)

lemma set2_table:
  assumes "is_table m n f t" "p < m" "q < n"
  shows "\<exists>t'. set2 t (int p) (int q) v = Some t' \<and> is_table m n (\<lambda>x y. if x = p \<and> y = q then v else f x y) t'"
  using assms by (auto simp: set2_def is_table_def nth_list_update)

lemma is_table_cong: "is_table m n f t \<Longrightarrow> (\<And>p q. p < m \<Longrightarrow> q < n \<Longrightarrow> f p q = g p q) \<Longrightarrow> is_table m n g t"
  by (simp add: is_table_def)

text \<open>Filling a table row by row.\<close>

lemma fill_table:
  assumes t: "is_table m n f t" and lo: "a \<le> m" "b \<le> n"
    and step: "\<And>i j t. a \<le> i \<Longrightarrow> i < m \<Longrightarrow> b \<le> j \<Longrightarrow> j < n \<Longrightarrow>
      is_table m n (\<lambda>p q. if b \<le> q \<and> a \<le> p \<and> (p < i \<or> p = i \<and> q < j) then g p q else f p q) t \<Longrightarrow>
      \<exists>t'. body (int i) (int j) t = Some t' \<and>
        is_table m n (\<lambda>p q. if p = i \<and> q = j then g i j else
          if b \<le> q \<and> a \<le> p \<and> (p < i \<or> p = i \<and> q < j) then g p q else f p q) t'"
  shows "\<exists>t'. c_for (int a) (int m) (\<lambda>i. c_for (int b) (int n) (body i)) t = Some t' \<and>
    is_table m n (\<lambda>p q. if a \<le> p \<and> b \<le> q then g p q else f p q) t'"
proof -
  define F where "F i j p q = (if b \<le> q \<and> a \<le> p \<and> (p < i \<or> p = i \<and> q < j) then g p q else f p q)" for i j p q :: nat
  have "\<exists>t'. c_for (int a) (int m) (\<lambda>i. c_for (int b) (int n) (body i)) t = Some t' \<and>
      is_table m n (F (nat (int m)) b) t'"
  proof (rule c_for_invariant [where I = "\<lambda>i. is_table m n (F (nat i) b)"])
    show "is_table m n (F (nat (int a)) b) t" by (rule is_table_cong [OF t]) (auto simp: F_def)
    show "int a \<le> int m" using lo by simp
    fix i t assume i: "int a \<le> i" "i < int m" and I: "is_table m n (F (nat i) b) t"
    define r where "r = nat i"
    have r: "i = int r" "a \<le> r" "r < m" using i by (auto simp: r_def)
    have "\<exists>t'. c_for (int b) (int n) (body i) t = Some t' \<and> is_table m n (F r (nat (int n))) t'"
    proof (rule c_for_invariant [where I = "\<lambda>j. is_table m n (F r (nat j))"])
      show "is_table m n (F r (nat (int b))) t" using I by (simp add: r_def)
      show "int b \<le> int n" using lo by simp
      fix j t assume j: "int b \<le> j" "j < int n" and J: "is_table m n (F r (nat j)) t"
      define c where "c = nat j"
      have c: "j = int c" "b \<le> c" "c < n" "nat (j + 1) = Suc c" using j by (auto simp: c_def)
      obtain t' where t': "body (int r) (int c) t = Some t'"
          "is_table m n (\<lambda>p q. if p = r \<and> q = c then g r c else F r c p q) t'"
        using step [OF r(2,3) c(2,3)] J unfolding F_def c_def [symmetric] by blast
      have "is_table m n (F r (Suc c)) t'"
        by (rule is_table_cong [OF t'(2)]) (use r c in \<open>auto simp: F_def less_Suc_eq\<close>)
      then show "\<exists>s'. body i j t = Some s' \<and> is_table m n (F r (nat (j + 1))) s'"
        using t'(1) r(1) c by simp
    qed
    then obtain t' where t': "c_for (int b) (int n) (body i) t = Some t'" "is_table m n (F r n) t'" by auto
    have "is_table m n (F (Suc r) b) t'"
      by (rule is_table_cong [OF t'(2)]) (auto simp: F_def less_Suc_eq)
    moreover have "nat (i + 1) = Suc r" using r by simp
    ultimately show "\<exists>s'. c_for (int b) (int n) (body i) t = Some s' \<and> is_table m n (F (nat (i + 1)) b) s'"
      using t'(1) by simp
  qed
  then obtain t' where t': "c_for (int a) (int m) (\<lambda>i. c_for (int b) (int n) (body i)) t = Some t'"
      "is_table m n (F m b) t'" by auto
  have "is_table m n (\<lambda>p q. if a \<le> p \<and> b \<le> q then g p q else f p q) t'"
    by (rule is_table_cong [OF t'(2)]) (auto simp: F_def)
  then show ?thesis using t'(1) by blast
qed

lemma initialize_ok:
  assumes "is_table m n f t"
  shows "\<exists>t'. initialize (int m) (int n) t = Some t' \<and> is_table m n (\<lambda>p q. 0) t'"
proof -
  have "\<exists>t'. c_for (int 0) (int m) (\<lambda>i. c_for (int 0) (int n) (\<lambda>j table. set2 table i j 0)) t = Some t' \<and>
    is_table m n (\<lambda>p q. if 0 \<le> p \<and> 0 \<le> q then 0 else f p q) t'"
    by (rule fill_table [OF assms]) (auto intro: set2_table)
  then show ?thesis by (simp add: initialize_def)
qed

lemma solve_ok:
  assumes t: "is_table (Suc (length a)) (Suc (length b)) (\<lambda>_ _. 0) t"
  shows "solve a b (int (length a) + 1) (int (length b) + 1) t = Some (int (lcs a b))"
proof -
  let ?m = "Suc (length a)" and ?n = "Suc (length b)"
  define g where "g p q = int (lcs (take p a) (take q b))" for p q
  define body where "body = (\<lambda>i j table. do {
       x \<leftarrow> aget a (i - 1);
       y \<leftarrow> aget b (j - 1);
       d \<leftarrow> get2 table (i - 1) (j - 1);
       l \<leftarrow> get2 table i (j - 1);
       u \<leftarrow> get2 table (i - 1) j;
       if x = y then set2 table i j (max3 (1 + d) l u)
       else set2 table i j (max3 d l u) })"
  have "\<exists>t'. c_for (int 1) (int ?m) (\<lambda>i. c_for (int 1) (int ?n) (body i)) t = Some t' \<and>
    is_table ?m ?n (\<lambda>p q. if 1 \<le> p \<and> 1 \<le> q then g p q else 0) t'"
  proof (rule fill_table [OF t])
    fix i j t assume ij: "1 \<le> i" "i < ?m" "1 \<le> j" "j < ?n"
      and T: "is_table ?m ?n (\<lambda>p q. if 1 \<le> q \<and> 1 \<le> p \<and> (p < i \<or> p = i \<and> q < j) then g p q else 0) t"
    obtain i' j' where s: "i = Suc i'" "j = Suc j'" using ij by (cases i; cases j) auto
    have len: "i' < length a" "j' < length b" using ij s by auto
    have tk: "take i a = take i' a @ [a ! i']" "take j b = take j' b @ [b ! j']"
      using len s by (simp_all add: take_Suc_conv_app_nth)
    have idx: "int i - 1 = int i'" "int j - 1 = int j'" using s by simp_all
    have gets: "get2 t (int i') (int j') = Some (g i' j')" "get2 t (int i) (int j') = Some (g i j')"
        "get2 t (int i') (int j) = Some (g i' j)"
      using get2_table [OF T, of i' j'] get2_table [OF T, of i j'] get2_table [OF T, of i' j] ij s
      by (auto simp: g_def Suc_le_eq)
    have "g i j = (if a ! i' = b ! j' then max3 (1 + g i' j') (g i j') (g i' j)
        else max3 (g i' j') (g i j') (g i' j))"
      unfolding g_def tk using lcs_snoc_same lcs_snoc_other by auto
    then have "body (int i) (int j) t = set2 t (int i) (int j) (g i j)"
      using len gets unfolding body_def idx by simp
    then show "\<exists>t'. body (int i) (int j) t = Some t' \<and> is_table ?m ?n (\<lambda>p q. if p = i \<and> q = j then g i j else
        if 1 \<le> q \<and> 1 \<le> p \<and> (p < i \<or> p = i \<and> q < j) then g p q else 0) t'"
      using set2_table [OF T, of i j "g i j"] ij by simp
  qed auto
  then obtain t' where t': "c_for 1 (int (length a) + 1) (\<lambda>i. c_for 1 (int (length b) + 1) (body i)) t = Some t'"
      "is_table ?m ?n (\<lambda>p q. if 1 \<le> p \<and> 1 \<le> q then g p q else 0) t'" by (auto simp: add.commute)
  have "get2 t' (int (length a)) (int (length b)) = Some (int (lcs a b))"
    using get2_table [OF t'(2), of "length a" "length b"] by (cases a; cases b) (auto simp: g_def)
  then show ?thesis using t'(1) by (simp add: solve_def body_def)
qed

section \<open>Decimal strings\<close>

definition decimal :: "int \<Rightarrow> int list \<Rightarrow> int" where
  "decimal r ds = foldl (\<lambda>r d. r * 10 + d) r ds"

lemma decimal_simps [simp]: "decimal r [] = r" "decimal r (d # ds) = decimal (r * 10 + d) ds"
  by (simp_all add: decimal_def)

lemma decimal_ge: "0 \<le> r \<Longrightarrow> \<forall>d\<in>set ds. 0 \<le> d \<Longrightarrow> r \<le> decimal r ds"
proof (induction ds arbitrary: r)
  case (Cons d ds)
  then have "r * 10 + d \<le> decimal (r * 10 + d) ds" by (intro Cons.IH) auto
  then show ?case using Cons.prems by auto
qed simp

lemma mystrlen_ok: "0 \<notin> set xs \<Longrightarrow> mystrlen (xs @ 0 # ys) = Some (int (length xs))"
proof -
  assume nz: "0 \<notin> set xs"
  have "mystrlen_loop (xs @ 0 # ys) (int (length us)) = Some (int (length xs))" if "xs = us @ vs" for us vs
    using that
  proof (induction vs arbitrary: us)
    case Nil
    then show ?case by (subst mystrlen_loop.simps) (simp add: aget_def)
  next
    case (Cons v vs)
    have "v \<noteq> 0" using nz Cons.prems by auto
    moreover have "mystrlen_loop (xs @ 0 # ys) (int (length (us @ [v]))) = Some (int (length xs))"
      by (rule Cons.IH) (simp add: Cons.prems)
    ultimately show ?case
      using Cons.prems by (subst mystrlen_loop.simps) (simp add: aget_def nth_append add.commute)
  qed
  from this [of "[]" xs] show ?thesis by (simp add: mystrlen_def)
qed

lemma atoi_digits:
  "set ds \<subseteq> {0..9} \<Longrightarrow> 0 \<le> r \<Longrightarrow> decimal r ds < 2147483648 \<Longrightarrow>
   atoi_loop (pre @ map (\<lambda>d. d + 48) ds @ [0]) (int (length pre + length ds)) (int (length pre)) r neg =
     Some (Inr (if neg then - decimal r ds else decimal r ds))"
proof (induction ds arbitrary: pre r)
  case Nil
  then show ?case by (subst atoi_loop.simps) simp
next
  case (Cons d ds)
  have d: "0 \<le> d" "d \<le> 9" using Cons.prems(1) by auto
  have "r * 10 + d \<le> decimal (r * 10 + d) ds"
    using Cons.prems d by (intro decimal_ge) auto
  then have rng: "r * 10 + d < 2147483648" using Cons.prems(3) by simp
  have "atoi_loop ((pre @ [d + 48]) @ map (\<lambda>d. d + 48) ds @ [0])
      (int (length (pre @ [d + 48]) + length ds)) (int (length (pre @ [d + 48]))) (r * 10 + d) neg =
    Some (Inr (if neg then - decimal (r * 10 + d) ds else decimal (r * 10 + d) ds))"
    using Cons.prems d by (intro Cons.IH) auto
  then have step: "atoi_loop (pre @ (d + 48) # map (\<lambda>d. d + 48) ds @ [0])
      (int (length pre + length (d # ds))) (int (length pre) + 1) (r * 10 + d) neg =
    Some (Inr (if neg then - decimal r (d # ds) else decimal r (d # ds)))" by (simp add: algebra_simps)
  have get: "aget (pre @ (d + 48) # map (\<lambda>d. d + 48) ds @ [0]) (int (length pre)) = Some (d + 48)"
    by (simp add: aget_def nth_append)
  have less: "int (length pre) < int (length pre + length (d # ds))" by simp
  show ?case
    using d rng Cons.prems(2) less step get
    by (subst atoi_loop.simps) (simp add: in_int_def)
qed

lemma myatoi_ok:
  assumes "set ds \<subseteq> {0..9}" "decimal 0 ds < 2147483648"
  shows "myatoi (map (\<lambda>d. d + 48) ds @ [0]) = Some (Inr (decimal 0 ds))"
    "myatoi (45 # map (\<lambda>d. d + 48) ds @ [0]) = Some (Inr (- decimal 0 ds))"
proof -
  have nz: "0 \<notin> set (map (\<lambda>d. d + 48) ds)" using assms(1) by auto
  show "myatoi (map (\<lambda>d. d + 48) ds @ [0]) = Some (Inr (decimal 0 ds))"
    using mystrlen_ok [OF nz, of "[]"] atoi_digits [OF assms(1) _ assms(2), of "[]" False]
    by (simp add: myatoi_def)
  have "mystrlen (45 # map (\<lambda>d. d + 48) ds @ [0]) = Some (int (length ds) + 1)"
    using mystrlen_ok [of "45 # map (\<lambda>d. d + 48) ds" "[]"] nz by simp
  moreover have "atoi_loop (45 # map (\<lambda>d. d + 48) ds @ [0]) (int (length ds) + 1) 0 0 False =
      atoi_loop (45 # map (\<lambda>d. d + 48) ds @ [0]) (int (length ds) + 1) 1 0 True"
    by (subst atoi_loop.simps) (simp add: aget_def)
  ultimately show "myatoi (45 # map (\<lambda>d. d + 48) ds @ [0]) = Some (Inr (- decimal 0 ds))"
    using atoi_digits [OF assms(1) _ assms(2), of "[45]" True]
    by (simp add: myatoi_def add.commute)
qed

section \<open>Properties\<close>

text \<open>C20. Both insertion sorts stop without leaving the array and leave a sorted permutation of it.\<close>

theorem insertion_sorts:
  "(\<exists>a'. insertion a (int (length a)) = Some a' \<and> mset a' = mset a \<and> sorted a') \<and>
   (\<exists>a'. insertion2 a (int (length a)) = Some a' \<and> mset a' = mset a \<and> sorted a')"
  using insertion_ok insertion2_ok by blast

text \<open>\<open>twoSum\<close> on a non-empty array returns a pair of indices of elements with the wanted sum, the
first index the largest possible, if some index below the last has a partner at or after itself (so an
element may be paired with itself); otherwise the two cells keep what \<open>malloc\<close> left in them.\<close>

theorem twoSum_last_pair:
  assumes "nums \<noteq> []"
  shows "\<exists>ret. twoSum nums (int (length nums)) target garbage = Some ret \<and>
    last_pair nums target (length nums - 1) garbage ret"
  by (rule twoSum_ok [OF assms])

theorem twoSum_last_pair_witness:
  "\<exists>ret. twoSum [2, 7, 11, 15, 13, 26, 3, 5] (int (length [2, 7, 11, 15, 13, 26, 3, 5 :: int])) 14 (0, 0) = Some ret \<and>
    last_pair [2, 7, 11, 15, 13, 26, 3, 5] 14 (length [2, 7, 11, 15, 13, 26, 3, 5 :: int] - 1) (0, 0) ret"
  by (rule twoSum_last_pair) simp

text \<open>The program of \<open>dynamicsubstring.c\<close> computes the length of a longest common subsequence of
its two arguments, whatever the table held before.\<close>

theorem max_substring_lcs:
  assumes "is_table (Suc (length a)) (Suc (length b)) f table"
  shows "max_substring a b table = Some (int (lcs a b))"
proof -
  obtain t where t: "initialize (int (Suc (length a))) (int (Suc (length b))) table = Some t"
      "is_table (Suc (length a)) (Suc (length b)) (\<lambda>p q. 0) t"
    using initialize_ok [OF assms] by blast
  have "initialize (int (length a) + 1) (int (length b) + 1) table = Some t"
    using t(1) by (simp only: of_nat_Suc add.commute)
  then show ?thesis using solve_ok [OF t(2)] by (simp add: max_substring_def)
qed

theorem max_substring_lcs_witness:
  "max_substring ''ab'' ''b'' [[7, 7], [7, 7], [7, 7]] = Some (int (lcs ''ab'' ''b''))"
  by (rule max_substring_lcs [where f = "\<lambda>_ _. 7"]) (auto simp: is_table_def less_Suc_eq numeral_2_eq_2)

text \<open>\<open>myatoi\<close> converts a string of decimal digits, with or without a minus sign, to its value,
when the magnitude fits in 31 bits.\<close>

theorem myatoi_value:
  assumes "set ds \<subseteq> {0..9}" "decimal 0 ds < 2147483648"
  shows "myatoi (map (\<lambda>d. d + 48) ds @ [0]) = Some (Inr (decimal 0 ds)) \<and>
    myatoi (45 # map (\<lambda>d. d + 48) ds @ [0]) = Some (Inr (- decimal 0 ds))"
  using myatoi_ok [OF assms] by simp

theorem myatoi_value_witness:
  "myatoi (map (\<lambda>d. d + 48) [4, 0, 7] @ [0]) = Some (Inr (decimal 0 [4, 0, 7])) \<and>
    myatoi (45 # map (\<lambda>d. d + 48) [4, 0, 7] @ [0]) = Some (Inr (- decimal 0 [4, 0, 7]))"
  by (rule myatoi_value) simp_all

end
