(* ===== verification/OsFile.thy ===== *)
theory OsFile
  imports CPrelude
begin

text \<open>
  An open regular file as the system calls \<open>read\<close>, \<open>write\<close> and \<open>lseek\<close> of POSIX see it: its bytes, the
  file offset of the descriptor, and whether the device fails. A failing call returns -1; otherwise
  \<open>read\<close> returns as many bytes as there are, \<open>write\<close> writes all of its bytes, and a write beyond
  the end fills the gap with zeros. \<open>memcpy\<close> on a bounded array is here too.
\<close>

type_synonym byte = "8 word"

record os_file =
  content :: "byte list"
  offset :: nat
  broken :: bool

definition put_bytes :: "byte list \<Rightarrow> nat \<Rightarrow> byte list \<Rightarrow> byte list" where
  "put_bytes c p bs = (if bs = [] then c
     else take p (c @ replicate (p - length c) 0) @ bs @ drop (p + length bs) c)"

definition lseek_set :: "os_file \<Rightarrow> int \<Rightarrow> int \<times> os_file" where
  "lseek_set s p = (if p < 0 then (-1, s) else (p, s\<lparr>offset := nat p\<rparr>))"

definition lseek_cur :: "os_file \<Rightarrow> int \<Rightarrow> int \<times> os_file" where
  "lseek_cur s d = lseek_set s (int (offset s) + d)"

definition os_read :: "os_file \<Rightarrow> nat \<Rightarrow> int \<times> byte list \<times> os_file" where
  "os_read s n = (if broken s then (-1, [], s)
     else let bs = take n (drop (offset s) (content s))
       in (int (length bs), bs, s\<lparr>offset := offset s + length bs\<rparr>))"

definition os_write :: "os_file \<Rightarrow> byte list \<Rightarrow> int \<times> os_file" where
  "os_write s bs = (if broken s then (-1, s)
     else (int (length bs), s\<lparr>content := put_bytes (content s) (offset s) bs, offset := offset s + length bs\<rparr>))"

text \<open>The conversions between signed and unsigned 64-bit sizes, and to a 32-bit \<open>int\<close>.\<close>

definition size_of_int :: "int \<Rightarrow> nat" where
  "size_of_int n = nat (n mod 2 ^ 64)"

definition size_sub :: "nat \<Rightarrow> nat \<Rightarrow> nat" where
  "size_sub a b = (if b \<le> a then a - b else 2 ^ 64 + a - b)"

definition to_int :: "nat \<Rightarrow> int" where
  "to_int n = sint (word_of_nat n :: c_int)"

text \<open>\<open>memcpy\<close> into an array at an offset, and the bytes it takes from one; \<open>None\<close> outside.\<close>

definition memcpy_to :: "'a list \<Rightarrow> nat \<Rightarrow> 'a list \<Rightarrow> 'a list option" where
  "memcpy_to dst off xs = (if off + length xs \<le> length dst
     then Some (take off dst @ xs @ drop (off + length xs) dst) else None)"

definition memcpy_from :: "'a list \<Rightarrow> nat \<Rightarrow> nat \<Rightarrow> 'a list option" where
  "memcpy_from xs off n = (if off + n \<le> length xs then Some (take n (drop off xs)) else None)"

section \<open>Facts\<close>

lemma lseek_set_nat [simp]: "lseek_set s (int p) = (int p, s\<lparr>offset := p\<rparr>)"
  by (simp add: lseek_set_def)

lemma lseek_set_add [simp]: "lseek_set s (int p + int q) = (int p + int q, s\<lparr>offset := p + q\<rparr>)"
  using lseek_set_nat [of s "p + q"] by simp

lemma size_of_int_nat [simp]: "n < 2 ^ 64 \<Longrightarrow> size_of_int (int n) = n"
  by (simp add: size_of_int_def nat_mod_distrib)

lemma size_sub_le [simp]: "b \<le> a \<Longrightarrow> size_sub a b = a - b"
  by (simp add: size_sub_def)

lemma to_int_small [simp]: "n < 2147483648 \<Longrightarrow> to_int n = int n"
  using signed_take_bit32 [of "int n"] sint_of_int32 [of "int n"] by (simp add: to_int_def)

lemma length_put_bytes:
  "length (put_bytes c p bs) = (if bs = [] then length c else max (length c) (p + length bs))"
  by (auto simp: put_bytes_def max_def)

lemma nth_put_bytes:
  assumes "q < length (put_bytes c p bs)"
  shows "put_bytes c p bs ! q = (if p \<le> q \<and> q < p + length bs then bs ! (q - p)
    else if q < length c then c ! q else 0)"
  using assms by (auto simp: put_bytes_def nth_append min_def split: if_splits)

lemma put_bytes_append: "put_bytes c (length c) bs = c @ bs"
  by (simp add: put_bytes_def)

lemma memcpy_to_Some:
  assumes "off + length xs \<le> length dst"
  obtains dst' where "memcpy_to dst off xs = Some dst'" "length dst' = length dst"
    "\<And>q. q < length dst \<Longrightarrow> dst' ! q = (if off \<le> q \<and> q < off + length xs then xs ! (q - off) else dst ! q)"
proof
  show "memcpy_to dst off xs = Some (take off dst @ xs @ drop (off + length xs) dst)"
    using assms by (simp add: memcpy_to_def)
qed (use assms in \<open>auto simp: nth_append min_def\<close>)

section \<open>A file with changes waiting to be written\<close>

text \<open>The bytes of a file \<open>c\<close> once the positions \<open>P\<close> have got the bytes \<open>g\<close>.\<close>

definition overlay :: "byte list \<Rightarrow> nat set \<Rightarrow> (nat \<Rightarrow> byte) \<Rightarrow> byte list" where
  "overlay c P g = map (\<lambda>q. if q \<in> P then g q else if q < length c then c ! q else 0)
     [0..<Max (insert (length c) (Suc ` P))]"

lemma length_overlay: "length (overlay c P g) = Max (insert (length c) (Suc ` P))"
  by (simp add: overlay_def)

lemma nth_overlay: "q < length (overlay c P g) \<Longrightarrow>
    overlay c P g ! q = (if q \<in> P then g q else if q < length c then c ! q else 0)"
  by (simp add: overlay_def)

lemma overlay_empty [simp]: "overlay c {} g = c"
  by (rule nth_equalityI) (auto simp: length_overlay nth_overlay)

lemma overlay_cong: "(\<And>q. q \<in> P \<Longrightarrow> g q = h q) \<Longrightarrow> overlay c P g = overlay c P h"
  by (simp add: overlay_def)

lemma overlay_overlay:
  assumes "finite P" "finite Q"
  shows "overlay (overlay c P g) Q h = overlay c (P \<union> Q) (\<lambda>q. if q \<in> Q then h q else g q)"
proof (rule nth_equalityI)
  have "Max (insert (length c) (Suc ` (P \<union> Q))) = Max (insert (length c) (Suc ` P) \<union> Suc ` Q)"
    by (simp add: image_Un)
  also have "\<dots> = Max (insert (Max (insert (length c) (Suc ` P))) (Suc ` Q))"
  proof (cases "Q = {}")
    case False
    then have "Max (insert (length c) (Suc ` P) \<union> Suc ` Q) =
        max (Max (insert (length c) (Suc ` P))) (Max (Suc ` Q))"
      using assms by (intro Max_Un) auto
    then show ?thesis using False assms by (simp only: Max_insert finite_imageI finite_insert image_is_empty not_False_eq_True)
  qed simp
  finally show len: "length (overlay (overlay c P g) Q h) =
      length (overlay c (P \<union> Q) (\<lambda>q. if q \<in> Q then h q else g q))"
    by (simp add: length_overlay)
  fix q assume q: "q < length (overlay (overlay c P g) Q h)"
  have "q \<in> P \<Longrightarrow> q < length (overlay c P g)"
    using assms(1) Max_ge [of "insert (length c) (Suc ` P)" "Suc q"]
    by (simp add: length_overlay Suc_le_eq del: Max_ge)
  moreover have "length c \<le> length (overlay c P g)"
    using assms(1) by (simp add: length_overlay)
  ultimately show "overlay (overlay c P g) Q h ! q = overlay c (P \<union> Q) (\<lambda>q. if q \<in> Q then h q else g q) ! q"
    using q len by (auto simp: nth_overlay)
qed

lemma Max_atLeastLessThan_Suc: "bs \<noteq> [] \<Longrightarrow> Max (insert n (Suc ` {p..<p + length bs})) = max n (p + length bs)"
proof -
  assume "bs \<noteq> []"
  then have "Max (Suc ` {p..<p + length bs}) = p + length bs"
    by (intro Max_eqI) (auto simp: image_iff Suc_le_eq intro!: bexI [of _ "p + length bs - 1"])
  with \<open>bs \<noteq> []\<close> show ?thesis by (subst Max_insert) auto
qed

lemma put_bytes_overlay: "put_bytes c p bs = overlay c {p..<p + length bs} (\<lambda>q. bs ! (q - p))"
proof (cases "bs = []")
  case False
  show ?thesis
  proof (rule nth_equalityI)
    show len: "length (put_bytes c p bs) = length (overlay c {p..<p + length bs} (\<lambda>q. bs ! (q - p)))"
      using Max_atLeastLessThan_Suc [OF False, of "length c" p] False
      by (simp add: length_put_bytes length_overlay del: image_Suc_atLeastLessThan Max_insert)
    fix q assume "q < length (put_bytes c p bs)"
    then show "put_bytes c p bs ! q = overlay c {p..<p + length bs} (\<lambda>q. bs ! (q - p)) ! q"
      using len by (simp add: nth_put_bytes nth_overlay)
  qed
qed (simp add: put_bytes_def)

end
