(* ===== verification/Io61Defs.thy ===== *)
theory Io61Defs
  imports OsFile
begin

text \<open>
  The buffered files of \<open>cache61/io61.c\<close> and the unbuffered ones of \<open>cache61/slow-io61.c\<close>, over the
  files of \<open>OsFile\<close>. A \<open>size_t\<close> is a \<open>nat\<close>, the subtractions that may wrap being \<open>size_sub\<close>; the
  bytes an operation copies into its caller's buffer are a result. An access outside an array and
  \<open>abort()\<close> are \<open>None\<close>. The file descriptor is the file itself: a field of the buffered file.
\<close>

section \<open>slow-io61.c\<close>

record slow_file =
  s_os :: os_file

definition slow_fdopen :: "os_file \<Rightarrow> slow_file" where
  "slow_fdopen fd = \<lparr>s_os = fd\<rparr>"

definition slow_readc :: "slow_file \<Rightarrow> int \<times> slow_file" where
  "slow_readc f = (let (n, bs, fd) = os_read (s_os f) 1; f = f\<lparr>s_os := fd\<rparr>
     in if n = 1 then (uint (hd bs), f) else (-1, f))"

definition slow_eof :: "slow_file \<Rightarrow> (int \<times> slow_file) option" where
  "slow_eof f = (let (n, bs, fd) = os_read (s_os f) 1 in do {
     c_assert (n \<noteq> 1);
     Some (of_bool (n = 0), f\<lparr>s_os := fd\<rparr>) })"

function slow_read_loop :: "slow_file \<Rightarrow> nat \<Rightarrow> byte list \<Rightarrow> byte list \<times> slow_file" where
  "slow_read_loop f sz buf =
     (if length buf < sz then
        let (ch, f1) = slow_readc f
        in if ch = -1 then (buf, f1) else slow_read_loop f1 sz (buf @ [word_of_int ch])
      else (buf, f))"
  by pat_completeness auto

termination by (relation "measure (\<lambda>(_, sz, buf). sz - length buf)") auto

declare slow_read_loop.simps [simp del]

definition slow_read :: "slow_file \<Rightarrow> nat \<Rightarrow> (int \<times> byte list \<times> slow_file) option" where
  "slow_read f sz = (let (buf, f) = slow_read_loop f sz []; nread = length buf
     in if nread \<noteq> 0 \<or> sz = 0 then Some (int nread, buf, f)
       else do {
         (eof, f) \<leftarrow> slow_eof f;
         if eof \<noteq> 0 then Some (int nread, buf, f) else Some (-1, buf, f) })"

definition slow_writec :: "slow_file \<Rightarrow> int \<Rightarrow> int \<times> slow_file" where
  "slow_writec f ch = (let (n, fd) = os_write (s_os f) [word_of_int ch]
     in (if n = 1 then 0 else -1, f\<lparr>s_os := fd\<rparr>))"

fun slow_write_loop :: "slow_file \<Rightarrow> byte list \<Rightarrow> nat \<Rightarrow> nat \<times> slow_file" where
  "slow_write_loop f [] nwritten = (nwritten, f)"
| "slow_write_loop f (b # buf) nwritten =
     (let (r, f1) = slow_writec f (sint b)
      in if r = -1 then (nwritten, f1) else slow_write_loop f1 buf (nwritten + 1))"

definition slow_write :: "slow_file \<Rightarrow> byte list \<Rightarrow> int \<times> slow_file" where
  "slow_write f buf = (let (nwritten, f) = slow_write_loop f buf 0
     in (if nwritten \<noteq> 0 \<or> length buf = 0 then int nwritten else -1, f))"

definition slow_flush :: "slow_file \<Rightarrow> int \<times> slow_file" where
  "slow_flush f = (0, f)"

definition slow_seek :: "slow_file \<Rightarrow> int \<Rightarrow> int \<times> slow_file" where
  "slow_seek f p = (let (r, fd) = lseek_set (s_os f) p
     in (if r = p then 0 else -1, f\<lparr>s_os := fd\<rparr>))"

text \<open>Closing leaves the underlying file.\<close>

definition slow_close :: "slow_file \<Rightarrow> os_file" where
  "slow_close f = (let (r, f) = slow_flush f in s_os f)"

section \<open>io61.c: the file\<close>

definition BLOCK :: nat where "BLOCK = 32768"
definition REVERSE :: nat where "REVERSE = 16384"

definition O_RDONLY :: nat where "O_RDONLY = 0"
definition O_WRONLY :: nat where "O_WRONLY = 1"

datatype side = Left | Right | None_side

record write_data =
  wpos :: nat
  wsz :: nat

record io61_file =
  fd :: os_file
  f_mode :: nat
  f_abs :: nat
  f_pos :: nat
  f_sz :: nat
  f_buf :: "byte list"
  f_wsz :: nat
  f_wbuf :: "write_data list"

definition no_write :: write_data where
  "no_write = \<lparr>wpos = 0, wsz = 0\<rparr>"

text \<open>What \<open>malloc\<close> left in the new structure is the argument \<open>mem\<close>.\<close>

definition io61_fdopen :: "io61_file \<Rightarrow> os_file \<Rightarrow> nat \<Rightarrow> io61_file" where
  "io61_fdopen mem s mode = mem\<lparr>fd := s, f_mode := mode\<rparr>"

section \<open>The extents waiting to be written\<close>

definition wbuf_index :: "int \<Rightarrow> int" where
  "wbuf_index a = (if a \<noteq> 0 then a - 1 else a)"

function linear_insert_loop :: "io61_file \<Rightarrow> nat \<Rightarrow> nat \<Rightarrow> nat \<Rightarrow> io61_file option" where
  "linear_insert_loop f p sz i =
     (if i < BLOCK then do {
        w \<leftarrow> aget (f_wbuf f) (int i);
        if wpos w = 0 \<and> wsz w = 0 then do {
          wb \<leftarrow> aset (f_wbuf f) (int i) \<lparr>wpos = p, wsz = sz\<rparr>;
          Some (f\<lparr>f_wbuf := wb\<rparr>) }
        else if p = wpos w + wsz w then do {
          wb \<leftarrow> aset (f_wbuf f) (int i) (w\<lparr>wsz := wsz w + sz\<rparr>);
          Some (f\<lparr>f_wbuf := wb\<rparr>) }
        else if p \<ge> wpos w \<and> p \<le> wpos w + wsz w then
          if p + sz > wpos w + wsz w then do {
            wb \<leftarrow> aset (f_wbuf f) (int i) (w\<lparr>wsz := wsz w + ((p + sz) - (wpos w + wsz w))\<rparr>);
            Some (f\<lparr>f_wbuf := wb\<rparr>) }
          else Some f
        else if p < wpos w \<and> p + sz \<ge> wpos w \<and> p + sz \<le> wpos w + wsz w then do {
          wb \<leftarrow> aset (f_wbuf f) (int i) \<lparr>wpos = p, wsz = wsz w + (wpos w - p)\<rparr>;
          Some (f\<lparr>f_wbuf := wb\<rparr>) }
        else if p < wpos w \<and> p + sz > wpos w + wsz w then do {
          wb \<leftarrow> aset (f_wbuf f) (int i) \<lparr>wpos = p, wsz = sz\<rparr>;
          Some (f\<lparr>f_wbuf := wb\<rparr>) }
        else linear_insert_loop f p sz (i + 1) }
      else Some f)"
  by pat_completeness auto

termination by (relation "measure (\<lambda>(_, _, _, i). BLOCK - i)") auto

declare linear_insert_loop.simps [simp del]

definition linear_insert :: "io61_file \<Rightarrow> nat \<Rightarrow> nat \<Rightarrow> io61_file option" where
  "linear_insert f p sz = linear_insert_loop f p sz 0"

definition bin_insert_helper :: "io61_file \<Rightarrow> nat \<Rightarrow> nat \<Rightarrow> int \<Rightarrow> side \<Rightarrow> io61_file option" where
  "bin_insert_helper f p sz first e =
     (if f_wsz f = 0 then do {
        wb \<leftarrow> aset (f_wbuf f) 0 \<lparr>wpos = p, wsz = sz\<rparr>;
        Some (f\<lparr>f_wbuf := wb\<rparr>) }
      else if e = Right \<and> first \<ge> int (f_wsz f) then do {
        wb \<leftarrow> aset (f_wbuf f) first \<lparr>wpos = p, wsz = sz\<rparr>;
        Some (f\<lparr>f_wbuf := wb\<rparr>) }
      else do {
        c_assert (0 \<le> first \<and> first \<le> int (f_wsz f));
        buffer \<leftarrow> memcpy_from (f_wbuf f) (nat first) (f_wsz f - nat first);
        wb \<leftarrow> memcpy_to (f_wbuf f) (nat first + 1) buffer;
        wb \<leftarrow> aset wb first \<lparr>wpos = p, wsz = sz\<rparr>;
        Some (f\<lparr>f_wbuf := wb\<rparr>) })"

partial_function (option) binary_insert :: "io61_file \<Rightarrow> nat \<Rightarrow> nat \<Rightarrow> int \<Rightarrow> int \<Rightarrow> side \<Rightarrow> io61_file option" where
  "binary_insert f p sz first last' e =
     (let index = (first + last') sdiv 2
      in if first > last' then do {
           f \<leftarrow> bin_insert_helper f p sz first e;
           Some (f\<lparr>f_wsz := f_wsz f + 1\<rparr>) }
         else do {
           w \<leftarrow> aget (f_wbuf f) index;
           if p \<ge> wpos w then
             if p = wpos w + wsz w then do {
               wb \<leftarrow> aset (f_wbuf f) index (w\<lparr>wsz := wsz w + sz\<rparr>);
               Some (f\<lparr>f_wbuf := wb, f_wsz := (if f_wsz f = 0 then 1 else f_wsz f)\<rparr>) }
             else if p \<le> wpos w + wsz w then
               if p + sz > wpos w + wsz w then do {
                 wb \<leftarrow> aset (f_wbuf f) index (w\<lparr>wsz := wsz w + ((p + sz) - (wpos w + wsz w))\<rparr>);
                 Some (f\<lparr>f_wbuf := wb\<rparr>) }
               else Some f
             else binary_insert f p sz (index + 1) last' Right
           else if p + sz \<ge> wpos w \<and> p + sz \<le> wpos w + wsz w then do {
             wb \<leftarrow> aset (f_wbuf f) index \<lparr>wpos = p, wsz = wsz w + (wpos w - p)\<rparr>;
             Some (f\<lparr>f_wbuf := wb\<rparr>) }
           else if p + sz > wpos w + wsz w then do {
             wb \<leftarrow> aset (f_wbuf f) index \<lparr>wpos = p, wsz = sz\<rparr>;
             binary_insert (f\<lparr>f_wbuf := wb\<rparr>) p sz first last' e }
           else binary_insert f p sz first (index - 1) Left })"

text \<open>The count \<open>nwritten\<close> and \<open>-1\<close> for a failed write.\<close>

function flush_loop :: "io61_file \<Rightarrow> nat \<Rightarrow> int \<Rightarrow> (int \<times> io61_file) option" where
  "flush_loop f i nwritten =
     (if i < BLOCK then do {
        w \<leftarrow> aget (f_wbuf f) (int i);
        if wpos w = 0 \<and> wsz w = 0 then Some (nwritten, f\<lparr>f_wsz := 0\<rparr>)
        else do {
          let (r, s) = lseek_set (fd f) (int (f_abs f + wpos w));
          bs \<leftarrow> memcpy_from (f_buf f) (wpos w) (wsz w);
          let (temp, s) = os_write s bs;
          if temp < 0 then Some (-1, f\<lparr>fd := s\<rparr>)
          else do {
            wb \<leftarrow> aset (f_wbuf f) (int i) no_write;
            flush_loop (f\<lparr>fd := s, f_wbuf := wb\<rparr>) (i + 1) (nwritten + temp) } } }
      else Some (nwritten, f\<lparr>f_wsz := 0\<rparr>))"
  by pat_completeness auto

termination by (relation "measure (\<lambda>(_, i, _). BLOCK - i)") auto

declare flush_loop.simps [simp del]

definition flush_wbuf :: "io61_file \<Rightarrow> (int \<times> io61_file) option" where
  "flush_wbuf f = flush_loop f 0 0"

section \<open>Reading\<close>

definition io61_eof :: "io61_file \<Rightarrow> (int \<times> io61_file) option" where
  "io61_eof f = (let (n, bs, s) = os_read (fd f) 1 in do {
     c_assert (n \<noteq> 1);
     Some (of_bool (n = 0), f\<lparr>fd := s\<rparr>) })"

definition next_char :: "io61_file \<Rightarrow> (int \<times> io61_file) option" where
  "next_char f = do {
     c \<leftarrow> aget (f_buf f) (int (f_pos f));
     Some (uint c, f\<lparr>f_pos := f_pos f + 1\<rparr>) }"

definition io61_readc :: "io61_file \<Rightarrow> (int \<times> io61_file) option" where
  "io61_readc f =
     (if f_pos f = f_sz f then
        if f_abs f + f_pos f \<ge> REVERSE then
          let (r, s) = lseek_cur (fd f) (- int REVERSE)
          in if r \<noteq> int (f_abs f + f_pos f - REVERSE) \<and> f_sz f = 0 then Some (-1, f\<lparr>fd := s\<rparr>)
            else let (n, bs, s) = os_read s BLOCK; nread = size_of_int n in do {
              buf \<leftarrow> memcpy_to (f_buf f) 0 bs;
              let f = f\<lparr>fd := s, f_buf := buf\<rparr>;
              if nread \<le> REVERSE then Some (-1, f)
              else next_char (f\<lparr>f_abs := f_abs f + f_pos f - REVERSE, f_pos := REVERSE, f_sz := nread\<rparr>) }
        else
          let (r, s) = lseek_cur (fd f) (- int (f_abs f + f_pos f))
          in if r \<noteq> 0 then Some (-1, f\<lparr>fd := s\<rparr>)
            else let (n, bs, s) = os_read s BLOCK; nread = size_of_int n in do {
              buf \<leftarrow> memcpy_to (f_buf f) 0 bs;
              let f = f\<lparr>fd := s, f_buf := buf\<rparr>;
              if nread \<le> f_abs f + f_pos f then Some (-1, f)
              else next_char (f\<lparr>f_abs := 0, f_pos := f_pos f + f_abs f, f_sz := nread\<rparr>) }
      else next_char f)"

text \<open>What the buffer still holds is copied, the rest is read together with the next buffer.\<close>

definition read_more :: "io61_file \<Rightarrow> nat \<Rightarrow> (nat \<times> byte list \<times> nat \<times> io61_file) option" where
  "read_more f sz = do {
     let diff = size_sub (f_sz f) (f_pos f);
     out \<leftarrow> (if diff \<noteq> 0 then memcpy_from (f_buf f) (f_pos f) diff else Some []);
     let sz = sz - diff;
     let f = f\<lparr>f_abs := f_abs f + f_sz f, f_pos := f_sz f\<rparr>;
     let (n, buffer, s) = os_read (fd f) (sz + BLOCK);
     let nread = size_of_int n;
     if nread \<le> sz then do {
       bs \<leftarrow> memcpy_from buffer 0 nread;
       Some (diff + nread, out @ bs, sz, f\<lparr>fd := s, f_pos := 0, f_sz := 0\<rparr>) }
     else do {
       bs \<leftarrow> memcpy_from buffer 0 sz;
       rest \<leftarrow> memcpy_from buffer sz (nread - sz);
       buf \<leftarrow> memcpy_to (f_buf f) 0 rest;
       Some (diff + sz, out @ bs, sz,
         f\<lparr>fd := s, f_buf := buf, f_abs := f_abs f + sz, f_pos := 0, f_sz := nread - sz\<rparr>) } }"

definition io61_read :: "io61_file \<Rightarrow> nat \<Rightarrow> (int \<times> byte list \<times> io61_file) option" where
  "io61_read f sz = do {
     (nread_total, out, sz, f) \<leftarrow>
       (if sz \<le> size_sub (f_sz f) (f_pos f) then do {
          bs \<leftarrow> memcpy_from (f_buf f) (f_pos f) sz;
          Some (sz, bs, sz, f\<lparr>f_pos := f_pos f + sz\<rparr>) }
        else read_more f sz);
     if nread_total \<noteq> 0 \<or> sz = 0 then Some (int nread_total, out, f)
     else do {
       (eof, f) \<leftarrow> io61_eof f;
       if eof \<noteq> 0 then Some (int nread_total, out, f) else Some (-1, out, f) } }"

section \<open>Writing, seeking and closing\<close>

definition io61_writec :: "io61_file \<Rightarrow> int \<Rightarrow> (int \<times> io61_file) option" where
  "io61_writec f ch =
     (if f_pos f = BLOCK then do {
        (n, f) \<leftarrow> flush_wbuf f;
        if n \<noteq> int BLOCK then Some (-1, f)
        else do {
          let f = f\<lparr>f_abs := f_abs f + BLOCK, f_pos := 0\<rparr>;
          f \<leftarrow> linear_insert f (f_pos f) 1;
          buf \<leftarrow> aset (f_buf f) (int (f_pos f)) (word_of_int ch);
          Some (0, f\<lparr>f_buf := buf, f_pos := f_pos f + 1\<rparr>) } }
      else do {
        f \<leftarrow> linear_insert f (f_pos f) 1;
        buf \<leftarrow> aset (f_buf f) (int (f_pos f)) (word_of_int ch);
        Some (0, f\<lparr>f_buf := buf, f_pos := f_pos f + 1\<rparr>) })"

definition io61_write :: "io61_file \<Rightarrow> byte list \<Rightarrow> (int \<times> io61_file) option" where
  "io61_write f bs = (let sz = length bs in do {
     (nwritten, f) \<leftarrow>
       (if sz \<le> size_sub BLOCK (f_pos f) then do {
          buf \<leftarrow> memcpy_to (f_buf f) (f_pos f) bs;
          let f = f\<lparr>f_buf := buf\<rparr>;
          f \<leftarrow> binary_insert f (f_pos f) sz 0 (wbuf_index (int (f_wsz f))) None_side;
          Some (int sz, f\<lparr>f_pos := f_pos f + sz\<rparr>) }
        else do {
          let cur_pos = to_int (f_abs f + f_pos f);
          (temp, f) \<leftarrow> flush_wbuf f;
          let (r, s) = lseek_set (fd f) cur_pos;
          let (n, s) = os_write s bs;
          Some (temp + n, f\<lparr>fd := s, f_abs := f_abs f + (sz + f_pos f), f_pos := 0\<rparr>) });
     Some (if nwritten \<noteq> 0 \<or> sz = 0 then nwritten else -1, f) })"

definition io61_flush :: "io61_file \<Rightarrow> (int \<times> io61_file) option" where
  "io61_flush f = (if f_mode f AND O_WRONLY \<noteq> 0 then do {
       (nwritten, f) \<leftarrow> flush_wbuf f;
       Some (if nwritten \<noteq> 0 then 0 else -1, f) }
     else Some (0, f))"

definition io61_seek :: "io61_file \<Rightarrow> int \<Rightarrow> (int \<times> io61_file) option" where
  "io61_seek f p = (let (r, s) = lseek_set (fd f) p; f = f\<lparr>fd := s\<rparr>
     in if r = p then do {
       let f = (if f_mode f = O_RDONLY then
           if size_of_int p \<ge> f_abs f \<and> size_of_int p \<le> f_abs f + f_sz f then
             f\<lparr>fd := snd (lseek_set (fd f) (int (f_abs f + f_sz f))), f_pos := size_of_int p - f_abs f\<rparr>
           else f\<lparr>f_abs := size_of_int p, f_pos := 0, f_sz := 0\<rparr>
         else f);
       if f_mode f AND O_WRONLY \<noteq> 0 then
         if size_of_int p \<ge> f_abs f \<and> size_of_int p \<le> f_abs f + BLOCK then Some (0, f\<lparr>f_pos := size_of_int p - f_abs f\<rparr>)
         else do {
           (n, f) \<leftarrow> flush_wbuf f;
           Some (0, f\<lparr>f_abs := size_of_int p, f_pos := 0, f_sz := 0\<rparr>) }
       else Some (0, f) }
     else Some (-1, f))"

text \<open>Closing flushes and leaves the underlying file.\<close>

definition io61_close :: "io61_file \<Rightarrow> os_file option" where
  "io61_close f = do { (r, f) \<leftarrow> io61_flush f; Some (fd f) }"

end
