(* ===== verification/Io61Read.thy ===== *)
theory Io61Read
  imports Io61Defs
begin

text \<open>
  What a program that reads a file relies on, as two locales, and the proofs that both
  implementations of \<open>io61\<close> provide it: the unbuffered one for every open file, the buffered one as
  long as the buffer mirrors the file. The buffer mirrors it from the current position on after every
  operation (\<open>buffered\<close>), and everywhere until a read has met the end of the file (\<open>mirrored\<close>).
\<close>

section \<open>The interfaces\<close>

text \<open>A source of bytes: \<open>rem r\<close> is what is still to be read.\<close>

locale byte_source =
  fixes rok :: "'r \<Rightarrow> bool"
    and rem :: "'r \<Rightarrow> byte list"
    and readc :: "'r \<Rightarrow> (int \<times> 'r) option"
    and read :: "'r \<Rightarrow> nat \<Rightarrow> (int \<times> byte list \<times> 'r) option"
  assumes readc_end: "rok r \<Longrightarrow> rem r = [] \<Longrightarrow> \<exists>r'. readc r = Some (-1, r')"
    and readc_more: "rok r \<Longrightarrow> rem r = b # bs \<Longrightarrow>
      \<exists>r'. readc r = Some (uint b, r') \<and> rok r' \<and> rem r' = bs"
    and read_block: "rok r \<Longrightarrow> \<exists>r'. read r n = Some (int (min n (length (rem r))), take n (rem r), r') \<and>
      rok r' \<and> rem r' = drop n (rem r)"

text \<open>A source that can be read from any position of \<open>whole r\<close>.\<close>

locale seekable_source = byte_source rok rem readc read
  for rok :: "'r \<Rightarrow> bool" and rem readc read +
  fixes sok :: "'r \<Rightarrow> bool"
    and whole :: "'r \<Rightarrow> byte list"
    and seek :: "'r \<Rightarrow> int \<Rightarrow> (int \<times> 'r) option"
  assumes sok_rok: "sok r \<Longrightarrow> rok r"
    and seek_to: "sok r \<Longrightarrow> 0 \<le> p \<Longrightarrow> p \<le> int (length (whole r)) \<Longrightarrow>
      \<exists>r'. seek r p = Some (0, r') \<and> sok r' \<and> whole r' = whole r \<and> rem r' = drop (nat p) (whole r)"
    and readc_keeps: "sok r \<Longrightarrow> readc r = Some (c, r') \<Longrightarrow> c \<noteq> -1 \<Longrightarrow> sok r' \<and> whole r' = whole r"
    and read_keeps: "sok r \<Longrightarrow> n < length (rem r) \<Longrightarrow> read r n = Some (k, bs, r') \<Longrightarrow>
      sok r' \<and> whole r' = whole r"

section \<open>The unbuffered files\<close>

definition slow_ok :: "slow_file \<Rightarrow> bool" where
  "slow_ok f \<longleftrightarrow> \<not> broken (s_os f) \<and> offset (s_os f) \<le> length (content (s_os f))"

definition slow_rem :: "slow_file \<Rightarrow> byte list" where
  "slow_rem f = drop (offset (s_os f)) (content (s_os f))"

definition at_byte :: "slow_file \<Rightarrow> nat \<Rightarrow> slow_file" where
  "at_byte f n = f\<lparr>s_os := (s_os f)\<lparr>offset := offset (s_os f) + n\<rparr>\<rparr>"

lemma at_byte_simps [simp]: "at_byte (at_byte f m) n = at_byte f (m + n)" "at_byte f 0 = f"
  by (simp_all add: at_byte_def add.assoc)

lemma slow_ok_at [simp]: "n \<le> length (slow_rem f) \<Longrightarrow> slow_ok f \<Longrightarrow> slow_ok (at_byte f n)"
  by (auto simp: slow_ok_def at_byte_def slow_rem_def)

lemma slow_rem_at [simp]: "slow_rem (at_byte f n) = drop n (slow_rem f)"
  by (simp add: at_byte_def slow_rem_def add.commute)

lemma uint_not_neg1 [simp]: "uint (b :: byte) \<noteq> -1"
  using uint_nonnegative [of b] by linarith

lemma slow_readc_rem: "slow_ok f \<Longrightarrow> slow_readc f =
    (case slow_rem f of [] \<Rightarrow> (-1, f) | b # bs \<Rightarrow> (uint b, at_byte f 1))"
  by (auto simp: slow_readc_def slow_ok_def slow_rem_def os_read_def at_byte_def Let_def split: list.split)

lemma slow_read_loop_rem: "slow_ok f \<Longrightarrow> slow_read_loop f sz buf =
    (buf @ take (sz - length buf) (slow_rem f), at_byte f (min (sz - length buf) (length (slow_rem f))))"
proof (induction f sz buf rule: slow_read_loop.induct)
  case (1 f sz buf)
  show ?case
  proof (cases "slow_rem f")
    case Nil
    then show ?thesis using "1.prems" by (subst slow_read_loop.simps) (simp add: slow_readc_rem)
  next
    case (Cons b bs)
    have rc: "slow_readc f = (uint b, at_byte f 1)" using "1.prems" Cons by (simp add: slow_readc_rem)
    show ?thesis
    proof (cases "length buf < sz")
      case True
      have "slow_ok (at_byte f 1)" using "1.prems" Cons by simp
      then have "slow_read_loop (at_byte f 1) sz (buf @ [word_of_int (uint b)]) =
          (buf @ take (sz - length buf) (slow_rem f), at_byte f (min (sz - length buf) (length (slow_rem f))))"
      proof -
        obtain k where k: "sz - length buf = Suc k" "sz - Suc (length buf) = k"
          using True by (cases "sz - length buf") auto
        show ?thesis using "1.IH" [OF True rc [symmetric] refl] \<open>slow_ok (at_byte f 1)\<close> Cons k by simp
      qed
      with True rc show ?thesis by (subst slow_read_loop.simps) simp
    qed (use "1.prems" in \<open>subst slow_read_loop.simps, simp\<close>)
  qed
qed

lemma slow_read_rem: "slow_ok f \<Longrightarrow> slow_read f sz =
    Some (int (min sz (length (slow_rem f))), take sz (slow_rem f), at_byte f (min sz (length (slow_rem f))))"
  by (cases "slow_rem f")
     (auto simp: slow_read_def slow_read_loop_rem slow_eof_def os_read_def slow_ok_def slow_rem_def min_def
        Let_def)

lemma slow_seek_rem: "slow_ok f \<Longrightarrow> 0 \<le> p \<Longrightarrow> p \<le> int (length (content (s_os f))) \<Longrightarrow>
    slow_seek f p = (0, f\<lparr>s_os := (s_os f)\<lparr>offset := nat p\<rparr>\<rparr>)"
  by (simp add: slow_seek_def lseek_set_def)

text \<open>The operations of \<open>slow-io61.c\<close> that cannot abort, as the interface has them.\<close>

lemma slow_at_facts: "content (s_os (at_byte f n)) = content (s_os f)"
  by (simp add: at_byte_def)

interpretation slow: seekable_source slow_ok slow_rem "\<lambda>f. Some (slow_readc f)" slow_read
  slow_ok "\<lambda>f. content (s_os f)" "\<lambda>f p. Some (slow_seek f p)"
proof unfold_locales
  fix f :: slow_file and p :: int
  assume f: "slow_ok f" "0 \<le> p" "p \<le> int (length (content (s_os f)))"
  then have "slow_ok (f\<lparr>s_os := (s_os f)\<lparr>offset := nat p\<rparr>\<rparr>)" by (auto simp: slow_ok_def)
  then show "\<exists>f'. Some (slow_seek f p) = Some (0, f') \<and> slow_ok f' \<and>
      content (s_os f') = content (s_os f) \<and> slow_rem f' = drop (nat p) (content (s_os f))"
    using slow_seek_rem [OF f] by (simp add: slow_rem_def)
qed (auto simp: slow_readc_rem slow_read_rem slow_at_facts min_def split: list.splits if_splits)

section \<open>The buffered files\<close>

definition mirrors :: "io61_file \<Rightarrow> nat \<Rightarrow> bool" where
  "mirrors f lo \<longleftrightarrow> \<not> broken (fd f) \<and> length (f_buf f) = BLOCK \<and> f_pos f \<le> f_sz f \<and> f_sz f \<le> BLOCK \<and>
     f_abs f + f_sz f \<le> length (content (fd f)) \<and> offset (fd f) = f_abs f + f_sz f \<and>
     length (content (fd f)) < 2 ^ 63 \<and>
     (\<forall>q. lo \<le> q \<and> q < f_sz f \<longrightarrow> f_buf f ! q = content (fd f) ! (f_abs f + q))"

definition buffered :: "io61_file \<Rightarrow> bool" where
  "buffered f \<longleftrightarrow> mirrors f (f_pos f)"

definition mirrored :: "io61_file \<Rightarrow> bool" where
  "mirrored f \<longleftrightarrow> f_mode f = O_RDONLY \<and> mirrors f 0"

text \<open>After a short \<open>io61_read\<close> the field \<open>f_abs\<close> is out of date.\<close>

definition exhausted :: "io61_file \<Rightarrow> bool" where
  "exhausted f \<longleftrightarrow> \<not> broken (fd f) \<and> length (f_buf f) = BLOCK \<and> f_pos f = 0 \<and> f_sz f = 0 \<and>
     offset (fd f) = length (content (fd f)) \<and> f_abs f \<le> length (content (fd f)) \<and>
     length (content (fd f)) < 2 ^ 63"

definition reading :: "io61_file \<Rightarrow> bool" where
  "reading f \<longleftrightarrow> buffered f \<or> exhausted f"

definition left :: "io61_file \<Rightarrow> byte list" where
  "left f = drop (if f_pos f = f_sz f then offset (fd f) else f_abs f + f_pos f) (content (fd f))"

lemma mirrors_mono: "mirrors f lo \<Longrightarrow> lo \<le> lo' \<Longrightarrow> mirrors f lo'"
  by (auto simp: mirrors_def)

lemma mirrored_reading: "mirrored f \<Longrightarrow> reading f"
  by (auto simp: mirrored_def reading_def buffered_def intro: mirrors_mono)

lemma left_mirrors: "mirrors f lo \<Longrightarrow> left f = drop (f_abs f + f_pos f) (content (fd f))"
  by (simp add: left_def mirrors_def)

lemma left_exhausted: "exhausted f \<Longrightarrow> left f = []"
  by (simp add: left_def exhausted_def)

lemma block_sizes: "REVERSE < BLOCK" "0 < REVERSE" "BLOCK < 2 ^ 63" "BLOCK = REVERSE + REVERSE"
  by (simp_all add: BLOCK_def REVERSE_def)

lemma memcpy_to_start: "length xs \<le> length dst \<Longrightarrow> memcpy_to dst 0 xs = Some (xs @ drop (length xs) dst)"
  by (simp add: memcpy_to_def)

text \<open>Reading a block at a position of the file refills the buffer.\<close>

lemma refill:
  assumes "\<not> broken s" "length buf = BLOCK" "offset s \<le> length (content s)"
  defines "bs \<equiv> take BLOCK (drop (offset s) (content s))"
  shows "memcpy_to buf 0 bs = Some (bs @ drop (length bs) buf)" "length (bs @ drop (length bs) buf) = BLOCK"
    "length bs = min BLOCK (length (content s) - offset s)"
    "\<And>q. q < length bs \<Longrightarrow> (bs @ drop (length bs) buf) ! q = content s ! (offset s + q)"
  using assms by (auto simp: memcpy_to_def nth_append)

lemma next_char_mirrors:
  assumes "mirrors f lo" "lo \<le> f_pos f" "f_pos f < f_sz f"
  shows "\<exists>b f'. next_char f = Some (uint b, f') \<and> left f = b # left f' \<and> mirrors f' lo \<and>
    f_mode f' = f_mode f \<and> content (fd f') = content (fd f)"
proof -
  let ?f' = "f\<lparr>f_pos := f_pos f + 1\<rparr>"
  have "f_buf f ! f_pos f = content (fd f) ! (f_abs f + f_pos f)" using assms by (simp add: mirrors_def)
  moreover have "f_abs f + f_pos f < length (content (fd f))" using assms by (simp add: mirrors_def)
  moreover have m: "mirrors ?f' lo" using assms by (simp add: mirrors_def)
  ultimately have "left f = f_buf f ! f_pos f # left ?f'"
    using left_mirrors [OF assms(1)] left_mirrors [OF m] by (simp add: Cons_nth_drop_Suc)
  moreover have "next_char f = Some (uint (f_buf f ! f_pos f), ?f')"
    using assms by (simp add: next_char_def mirrors_def)
  ultimately show ?thesis using m by (intro exI [of _ "f_buf f ! f_pos f"] exI [of _ ?f']) simp
qed


text \<open>A refill ends with the buffer mirroring the file around the position.\<close>

lemma io61_readc_empty:
  assumes b: "buffered f" and e: "f_pos f = f_sz f"
  shows "(left f = [] \<longrightarrow> (\<exists>f'. io61_readc f = Some (-1, f') \<and> buffered f' \<and>
      f_pos f' = f_pos f \<and> f_sz f' = f_sz f \<and> f_abs f' = f_abs f \<and> f_mode f' = f_mode f \<and>
      content (fd f') = content (fd f) \<and>
      (REVERSE \<le> f_abs f + f_pos f \<longrightarrow> (\<forall>q < REVERSE. f_buf f' ! q = content (fd f) ! (f_abs f + f_pos f - REVERSE + q))))) \<and>
    (left f \<noteq> [] \<longrightarrow> (\<exists>c f'. io61_readc f = Some (uint c, f') \<and> left f = c # left f' \<and> mirrors f' 0 \<and>
      f_mode f' = f_mode f \<and> content (fd f') = content (fd f)))"
proof -
  let ?p = "f_abs f + f_pos f" and ?c = "content (fd f)"
  have m: "\<not> broken (fd f)" "length (f_buf f) = BLOCK" "?p \<le> length ?c" "offset (fd f) = ?p"
      "length ?c < 2 ^ 63" "f_sz f \<le> BLOCK"
    using b e by (auto simp: buffered_def mirrors_def)
  have lf: "left f = drop ?p ?c" using e m(4) by (simp add: left_def)
  let ?start = "if REVERSE \<le> ?p then ?p - REVERSE else 0"
  let ?s = "(fd f)\<lparr>offset := ?start\<rparr>"
  define bs where "bs = take BLOCK (drop ?start ?c)"
  define buf where "buf = bs @ drop (length bs) (f_buf f)"
  define s where "s = (fd f)\<lparr>offset := ?start + length bs\<rparr>"
  have fill: "memcpy_to (f_buf f) 0 bs = Some buf" "length buf = BLOCK"
      "length bs = min BLOCK (length ?c - ?start)" "\<And>q. q < length bs \<Longrightarrow> buf ! q = ?c ! (?start + q)"
    using refill [of ?s "f_buf f"] m unfolding bs_def buf_def by auto
  have nread: "size_of_int (int (length bs)) = length bs" using fill(3) block_sizes by simp
  have rd: "os_read ?s BLOCK = (int (length bs), bs, s)"
    using m(1) by (simp add: os_read_def Let_def bs_def s_def)
  have dist: "?p = ?start + min ?p REVERSE" by auto
  have code: "io61_readc f = (if length bs \<le> min ?p REVERSE then Some (-1, f\<lparr>fd := s, f_buf := buf\<rparr>)
      else next_char (f\<lparr>fd := s, f_buf := buf, f_abs := ?start, f_pos := min ?p REVERSE, f_sz := length bs\<rparr>))"
  proof (cases "REVERSE \<le> ?p")
    case True
    then have eq: "int (offset (fd f)) + - int REVERSE = int (?p - REVERSE)" using m(4) by (simp add: of_nat_diff)
    have "lseek_cur (fd f) (- int REVERSE) = (int ?start, ?s)"
      unfolding lseek_cur_def eq using True by (simp only: lseek_set_nat if_True)
    then show ?thesis using e rd fill(1) nread True by (simp add: io61_readc_def)
  next
    case False
    have "lseek_cur (fd f) (- int ?p) = (0, ?s)" using False by (simp add: lseek_cur_def m(4) lseek_set_def)
    then show ?thesis using e rd fill(1) nread False by (simp add: io61_readc_def add.commute)
  qed
  show ?thesis
  proof (cases "left f = []")
    case True
    then have len: "length ?c = ?p" using lf m(3) by simp
    then have n: "length bs = min ?p REVERSE" using fill(3) block_sizes by auto
    then have off: "?start + length bs = ?p" using dist by simp
    have "buffered (f\<lparr>fd := s, f_buf := buf\<rparr>)"
      using m e fill(2) off by (auto simp: buffered_def mirrors_def s_def)
    then show ?thesis using code n True fill(4) by (auto simp: s_def)
  next
    case False
    then have len: "?p < length ?c" using lf by auto
    then have n: "min ?p REVERSE < length bs" "?start + length bs \<le> length ?c" "length bs \<le> BLOCK"
      using fill(3) block_sizes dist by auto
    let ?f = "f\<lparr>fd := s, f_buf := buf, f_abs := ?start, f_pos := min ?p REVERSE, f_sz := length bs\<rparr>"
    have mir: "mirrors ?f 0" using m fill n by (simp add: mirrors_def s_def)
    have "left ?f = left f" using left_mirrors [OF mir] lf dist by (simp add: s_def)
    then show ?thesis
      using next_char_mirrors [OF mir] code n(1) False by (auto simp: s_def)
  qed
qed

lemma io61_readc_buffered:
  assumes "buffered f" "left f = c # cs"
  shows "\<exists>f'. io61_readc f = Some (uint c, f') \<and> left f' = cs \<and> buffered f' \<and>
    (mirrors f 0 \<longrightarrow> mirrors f' 0) \<and> f_mode f' = f_mode f \<and> content (fd f') = content (fd f)"
proof (cases "f_pos f = f_sz f")
  case True
  then show ?thesis using io61_readc_empty [OF assms(1) True] assms(2)
    by (auto simp: buffered_def intro: mirrors_mono)
next
  case False
  have lt: "f_pos f < f_sz f" and m: "mirrors f (f_pos f)"
    using assms(1) False by (auto simp: buffered_def mirrors_def)
  have rc: "io61_readc f = next_char f" using False by (simp add: io61_readc_def)
  obtain b f' where f': "next_char f = Some (uint b, f')" "left f = b # left f'" "mirrors f' (f_pos f)"
      "f_mode f' = f_mode f" "content (fd f') = content (fd f)"
    using next_char_mirrors [OF m _ lt] by auto
  have "f_pos f \<le> f_pos f'" using f'(1) by (auto simp: next_char_def split: bind_splits)
  then have "buffered f'" using f'(3) by (auto simp: buffered_def intro: mirrors_mono)
  moreover have "mirrors f 0 \<Longrightarrow> mirrors f' 0" using next_char_mirrors [of f 0] f'(1) lt by auto
  ultimately show ?thesis using rc f' assms(2) by auto
qed

lemma io61_readc_exhausted: "exhausted f \<Longrightarrow> \<exists>f'. io61_readc f = Some (-1, f')"
proof -
  assume f: "exhausted f"
  let ?c = "content (fd f)"
  show ?thesis
  proof (cases "f_abs f = length ?c")
    case True
    then have "buffered f" using f by (simp add: exhausted_def buffered_def mirrors_def)
    then show ?thesis using io61_readc_empty [of f] f left_exhausted [OF f] by (auto simp: exhausted_def)
  next
    case False
    then have "f_abs f < length ?c" using f by (simp add: exhausted_def)
    then show ?thesis using f
      by (auto simp: exhausted_def io61_readc_def lseek_cur_def lseek_set_def Let_def)
  qed
qed


lemma memcpy_from_buf:
  assumes "mirrors f (f_pos f)" "f_pos f + k \<le> f_sz f"
  shows "memcpy_from (f_buf f) (f_pos f) k = Some (take k (left f))"
proof -
  have "take k (drop (f_pos f) (f_buf f)) = take k (drop (f_abs f + f_pos f) (content (fd f)))"
    using assms by (intro nth_equalityI) (auto simp: mirrors_def add.assoc)
  then show ?thesis using assms left_mirrors [OF assms(1)] by (simp add: memcpy_from_def mirrors_def)
qed

lemma io61_read_hit:
  assumes m: "mirrors f lo" "lo \<le> f_pos f" and n: "n \<le> f_sz f - f_pos f"
  defines "f' \<equiv> f\<lparr>f_pos := f_pos f + n\<rparr>"
  shows "io61_read f n = Some (int n, take n (left f), f')"
    "mirrors f' lo" "left f' = drop n (left f)" "n \<le> length (left f)"
proof -
  have m': "mirrors f (f_pos f)" using m mirrors_mono by blast
  have le: "f_pos f \<le> f_sz f" "f_pos f + n \<le> f_sz f" using m n by (auto simp: mirrors_def)
  show "io61_read f n = Some (int n, take n (left f), f')"
    using memcpy_from_buf [OF m' le(2)] n le by (cases "n = 0") (simp_all add: io61_read_def f'_def)
  show mf: "mirrors f' lo" using m(1) le by (simp add: mirrors_def f'_def)
  show "left f' = drop n (left f)" using left_mirrors [OF mf] left_mirrors [OF m(1)]
    by (simp add: f'_def add.commute add.left_commute)
  show "n \<le> length (left f)" using left_mirrors [OF m(1)] m(1) le by (auto simp: mirrors_def)
qed

text \<open>A read that the buffer cannot serve, from the file offset \<open>offset (fd f)\<close>.\<close>

lemma io61_read_miss:
  assumes nb: "\<not> broken (fd f)" "length (f_buf f) = BLOCK" "length (content (fd f)) < 2 ^ 63"
    and le: "f_pos f \<le> f_sz f" "f_sz f - f_pos f < n"
    and out: "f_pos f < f_sz f \<longrightarrow> memcpy_from (f_buf f) (f_pos f) (f_sz f - f_pos f) = Some out"
      "f_pos f = f_sz f \<longrightarrow> out = []" "length out = f_sz f - f_pos f"
    and le': "f_abs f + f_sz f \<le> length (content (fd f))" "offset (fd f) \<le> length (content (fd f))"
  defines "rest \<equiv> drop (offset (fd f)) (content (fd f))"
  shows "\<exists>f'. io61_read f n = Some (int (min n (length (out @ rest))), take n (out @ rest), f') \<and>
    content (fd f') = content (fd f) \<and> f_mode f' = f_mode f \<and>
    (if length out + length rest \<le> n then exhausted f'
     else f_abs f + f_sz f = offset (fd f) \<longrightarrow> mirrors f' 0 \<and> left f' = drop n (out @ rest))"
proof -
  let ?m = "n - length out" and ?c = "content (fd f)" and ?o = "offset (fd f)"
  let ?bs = "take (?m + BLOCK) rest"
  have lrest: "length rest = length ?c - ?o" by (simp add: rest_def)
  define s where "s = (fd f)\<lparr>offset := ?o + length ?bs\<rparr>"
  have rd: "os_read (fd f) (?m + BLOCK) = (int (length ?bs), ?bs, s)"
    using nb(1) by (simp add: os_read_def Let_def s_def rest_def)
  have nread: "size_of_int (int (length ?bs)) = length ?bs" using nb(3) lrest by simp
  have diff: "size_sub (f_sz f) (f_pos f) = length out" "\<not> n \<le> length out" using le out(3) by auto
  have o: "(if length out \<noteq> 0 then memcpy_from (f_buf f) (f_pos f) (length out) else Some []) = Some out"
    using out le(1) by (cases "f_pos f = f_sz f") auto
  let ?f1 = "f\<lparr>f_abs := f_abs f + f_sz f, f_pos := f_sz f\<rparr>"
  show ?thesis
  proof (cases "length ?bs \<le> ?m")
    case True
    then have all: "?bs = rest" "length rest \<le> ?m" using block_sizes by auto
    let ?f' = "?f1\<lparr>fd := s, f_pos := 0, f_sz := 0\<rparr>"
    have more: "read_more f n = Some (length out + length rest, out @ rest, ?m, ?f')"
      using o rd nread all unfolding read_more_def diff by (simp add: memcpy_from_def Let_def)
    have ex: "exhausted ?f'" using nb le' all by (auto simp: exhausted_def s_def lrest)
    have eof: "io61_eof ?f' = Some (1, ?f')"
      using nb(1) all lrest le'(2) by (simp add: io61_eof_def os_read_def Let_def s_def)
    have "io61_read f n = Some (int (length out + length rest), out @ rest, ?f')"
      unfolding io61_read_def diff(1) using diff(2) more eof by simp
    then show ?thesis using ex diff(2) all by (intro exI [of _ ?f']) (auto simp: s_def)
  next
    case False
    then have lt: "?m < length rest" by auto
    let ?rest = "drop ?m ?bs"
    have fit: "length ?rest \<le> BLOCK" by simp
    define buf where "buf = ?rest @ drop (length ?rest) (f_buf f)"
    have buf: "memcpy_to (f_buf f) 0 ?rest = Some buf" "length buf = BLOCK"
        "\<And>q. q < length ?rest \<Longrightarrow> buf ! q = ?rest ! q"
      using fit nb(2) by (auto simp: memcpy_to_start buf_def nth_append)
    let ?f' = "?f1\<lparr>fd := s, f_buf := buf, f_abs := f_abs f + f_sz f + ?m, f_pos := 0, f_sz := length ?bs - ?m\<rparr>"
    have take: "memcpy_from ?bs 0 ?m = Some (take ?m rest)"
        "memcpy_from ?bs ?m (length ?bs - ?m) = Some ?rest"
      using lt by (auto simp: memcpy_from_def min_def)
    have more: "read_more f n = Some (length out + ?m, out @ take ?m rest, ?m, ?f')"
      using o rd nread False take buf(1) unfolding read_more_def diff by (simp add: Let_def)
    have rd': "io61_read f n = Some (int n, out @ take ?m rest, ?f')"
      unfolding io61_read_def diff(1) using diff(2) more by simp
    have m: "mirrors ?f' 0" if eq: "f_abs f + f_sz f = ?o"
    proof -
      have "buf ! q = ?c ! (f_abs f + f_sz f + ?m + q)" if q: "q < length ?bs - ?m" for q
      proof -
        have "buf ! q = rest ! (?m + q)" using buf(3) [of q] q by simp
        also have "\<dots> = ?c ! (?o + (?m + q))" using le'(2) by (simp add: rest_def)
        finally show ?thesis unfolding eq by (simp only: add.assoc)
      qed
      moreover have "?o + ?m + (length ?bs - ?m) = ?o + length ?bs" "?o + length ?bs \<le> length ?c"
        using False lrest le'(2) by auto
      ultimately show ?thesis
        using nb(1,3) buf(2) fit eq unfolding mirrors_def by (simp add: s_def del: length_take)
    qed
    have "f_abs f + f_sz f = ?o \<Longrightarrow> left ?f' = drop n (out @ rest)"
      using left_mirrors [OF m] diff(2) by (simp add: s_def rest_def add.commute)
    with rd' m show ?thesis using diff(2) lt by (intro exI [of _ ?f']) (auto simp: s_def)
  qed
qed


lemma drop_split: "p \<le> k \<Longrightarrow> take (k - p) (drop (a + p) xs) @ drop (a + k) xs = drop (a + p) xs"
proof -
  assume "p \<le> k"
  then have "drop (a + k) xs = drop (k - p) (drop (a + p) xs)" by (simp add: add.commute)
  then show ?thesis by (simp only: append_take_drop_id)
qed

lemma io61_read_reading:
  assumes "reading f"
  shows "\<exists>f'. io61_read f n = Some (int (min n (length (left f))), take n (left f), f') \<and> reading f' \<and>
    left f' = drop n (left f) \<and> content (fd f') = content (fd f) \<and> f_mode f' = f_mode f \<and>
    (mirrors f 0 \<and> n < length (left f) \<longrightarrow> mirrors f' 0)"
proof (cases "buffered f \<and> n \<le> f_sz f - f_pos f")
  case True
  then have m: "mirrors f (f_pos f)" and n: "n \<le> f_sz f - f_pos f" by (auto simp: buffered_def)
  note hit = io61_read_hit [OF m order_refl n]
  have "mirrors f 0 \<Longrightarrow> mirrors (f\<lparr>f_pos := f_pos f + n\<rparr>) 0" by (rule io61_read_hit(2)) (use n in auto)
  moreover have "buffered (f\<lparr>f_pos := f_pos f + n\<rparr>)"
    using hit(2) by (auto simp: buffered_def intro: mirrors_mono)
  ultimately show ?thesis using hit by (auto simp: reading_def)
next
  case False
  show ?thesis
  proof (cases "exhausted f \<and> n = 0")
    case True
    then show ?thesis
      by (intro exI [of _ f]) (auto simp: io61_read_def exhausted_def memcpy_from_def reading_def mirrors_def left_def)
  next
    case miss: False
    define out where "out = take (f_sz f - f_pos f) (left f)"
    have le: "f_pos f \<le> f_sz f" "f_sz f - f_pos f < n" "f_abs f + f_sz f \<le> length (content (fd f))"
        "\<not> broken (fd f)" "length (f_buf f) = BLOCK" "length (content (fd f)) < 2 ^ 63"
        "offset (fd f) \<le> length (content (fd f))"
      using assms False miss by (auto simp: reading_def buffered_def exhausted_def mirrors_def)
    have o: "f_pos f < f_sz f \<longrightarrow> memcpy_from (f_buf f) (f_pos f) (f_sz f - f_pos f) = Some out"
        "f_pos f = f_sz f \<longrightarrow> out = []" "length out = f_sz f - f_pos f"
        "left f = out @ drop (offset (fd f)) (content (fd f))"
        "f_abs f + f_sz f = offset (fd f) \<or> left f = []"
      using assms le memcpy_from_buf [of f "f_sz f - f_pos f"]
      by (auto simp: reading_def buffered_def exhausted_def out_def left_def mirrors_def min_def drop_split)
    obtain f' where f': "io61_read f n = Some (int (min n (length (left f))), take n (left f), f')"
        "content (fd f') = content (fd f)" "f_mode f' = f_mode f"
        "if length (left f) \<le> n then exhausted f'
         else f_abs f + f_sz f = offset (fd f) \<longrightarrow> mirrors f' 0 \<and> left f' = drop n (left f)"
      using io61_read_miss [OF le(4,5,6) le(1,2) o(1-3) le(3) le(7)] unfolding o(4) [symmetric]
      by (metis length_append o(4))
    then show ?thesis using o(5)
      by (intro exI [of _ f']) (auto simp: reading_def left_exhausted buffered_def intro: mirrors_mono split: if_splits)
  qed
qed

lemma io61_seek_mirrored:
  assumes m: "mirrored f" and p: "0 \<le> p" "p \<le> int (length (content (fd f)))"
  shows "\<exists>f'. io61_seek f p = Some (0, f') \<and> mirrored f' \<and> content (fd f') = content (fd f) \<and>
    left f' = drop (nat p) (content (fd f))"
proof -
  obtain q where q: "p = int q" using p(1) nonneg_int_cases by blast
  have sz: "size_of_int p = q" using m p q by (simp add: mirrored_def mirrors_def)
  have mode: "f_mode f = O_RDONLY" "\<not> O_RDONLY AND O_WRONLY \<noteq> 0"
    using m by (simp_all add: mirrored_def O_RDONLY_def)
  have seek: "io61_seek f p = Some (0, if f_abs f \<le> q \<and> q \<le> f_abs f + f_sz f
       then f\<lparr>fd := (fd f)\<lparr>offset := f_abs f + f_sz f\<rparr>, f_pos := q - f_abs f\<rparr>
       else f\<lparr>fd := (fd f)\<lparr>offset := q\<rparr>, f_abs := q, f_pos := 0, f_sz := 0\<rparr>)"
    using mode sz q by (simp add: io61_seek_def Let_def)
  show ?thesis
  proof (cases "f_abs f \<le> q \<and> q \<le> f_abs f + f_sz f")
    case True
    let ?f' = "f\<lparr>fd := (fd f)\<lparr>offset := f_abs f + f_sz f\<rparr>, f_pos := q - f_abs f\<rparr>"
    have m': "mirrors ?f' 0" using m True by (auto simp: mirrored_def mirrors_def)
    then show ?thesis using seek True left_mirrors [OF m'] mode q by (simp add: mirrored_def)
  next
    case False
    let ?f' = "f\<lparr>fd := (fd f)\<lparr>offset := q\<rparr>, f_abs := q, f_pos := 0, f_sz := 0\<rparr>"
    have m': "mirrors ?f' 0" using m q p by (auto simp: mirrored_def mirrors_def)
    then show ?thesis using seek False left_mirrors [OF m'] mode q by (simp add: mirrored_def)
  qed
qed

lemma io61_readc_keeps:
  assumes "mirrored f" "io61_readc f = Some (c, f')" "c \<noteq> -1"
  shows "mirrored f' \<and> content (fd f') = content (fd f)"
proof (cases "left f")
  case Nil
  have b: "buffered f" using assms(1) by (auto simp: mirrored_def buffered_def intro: mirrors_mono)
  moreover have "f_pos f = f_sz f" using Nil assms(1)
    by (auto simp: mirrored_def mirrors_def left_def split: if_splits)
  ultimately show ?thesis using io61_readc_empty [of f] Nil assms by auto
next
  case (Cons b bs)
  have "buffered f" using assms(1) by (auto simp: mirrored_def buffered_def intro: mirrors_mono)
  from io61_readc_buffered [OF this Cons] show ?thesis using assms by (auto simp: mirrored_def)
qed

interpretation io61: seekable_source reading left io61_readc io61_read
  mirrored "\<lambda>f. content (fd f)" io61_seek
proof unfold_locales
  fix f assume f: "reading f" "left f = []"
  have "f_pos f = f_sz f" if "buffered f"
    using that f(2) by (auto simp: buffered_def mirrors_def left_def split: if_splits)
  then show "\<exists>f'. io61_readc f = Some (-1, f')"
    using f io61_readc_empty [of f] io61_readc_exhausted [of f] by (auto simp: reading_def)
next
  fix f b bs assume f: "reading f" "left f = b # bs"
  then have "buffered f" using left_exhausted by (auto simp: reading_def)
  then show "\<exists>f'. io61_readc f = Some (uint b, f') \<and> reading f' \<and> left f' = bs"
    using io61_readc_buffered [OF _ f(2)] by (auto simp: reading_def)
next
  fix f n assume "reading f"
  then show "\<exists>f'. io61_read f n = Some (int (min n (length (left f))), take n (left f), f') \<and>
      reading f' \<and> left f' = drop n (left f)"
    using io61_read_reading [of f n] by blast
next
  fix f n k bs f'
  assume "mirrored f" "n < length (left f)" "io61_read f n = Some (k, bs, f')"
  then show "mirrored f' \<and> content (fd f') = content (fd f)"
    using io61_read_reading [of f n] mirrored_reading [of f] by (auto simp: mirrored_def)
qed (auto intro: mirrored_reading io61_seek_mirrored dest: io61_readc_keeps)

end
