(* ===== verification/Io61Write.thy ===== *)
theory Io61Write
  imports Io61Defs
begin

text \<open>
  The writing half of \<open>io61\<close>: the extents \<open>wbuf\<close> always cover exactly the bytes written since the last
  flush, so that the file on the device overlaid with the buffered bytes is the file the program
  means (\<open>logical\<close>); flushing makes it the file on the device.
\<close>

section \<open>Extents\<close>

definition covered :: "write_data list \<Rightarrow> nat set" where
  "covered ws = (\<Union>w\<in>set ws. {wpos w..<wpos w + wsz w})"

definition extent_ok :: "write_data \<Rightarrow> bool" where
  "extent_ok w \<longleftrightarrow> 0 < wsz w \<and> wpos w + wsz w \<le> BLOCK"

definition extents :: "write_data list \<Rightarrow> write_data list \<Rightarrow> bool" where
  "extents wb ws \<longleftrightarrow> wb = ws @ replicate (BLOCK - length ws) no_write \<and> length ws \<le> BLOCK \<and>
     (\<forall>w\<in>set ws. extent_ok w)"

lemma covered_simps [simp]: "covered [] = {}" "covered (w # ws) = {wpos w..<wpos w + wsz w} \<union> covered ws"
    "covered (us @ vs) = covered us \<union> covered vs"
  by (auto simp: covered_def)

lemma finite_covered [simp]: "finite (covered ws)"
  by (simp add: covered_def)

lemma covered_less: "\<forall>w\<in>set ws. extent_ok w \<Longrightarrow> q \<in> covered ws \<Longrightarrow> q < BLOCK"
  by (fastforce simp: covered_def extent_ok_def)

lemma extentsD: "extents wb ws \<Longrightarrow> length wb = BLOCK" "extents wb ws \<Longrightarrow> w \<in> set ws \<Longrightarrow> extent_ok w"
  by (auto simp: extents_def)

lemma aget_middle [simp]: "aget (us @ w # vs) (int (length us)) = Some w"
  by (simp add: aget_def nth_append)

lemma aset_middle [simp]: "aset (us @ w # vs) (int (length us)) v = Some (us @ v # vs)"
  by (simp add: aset_def)

lemma extents_replace:
  assumes "extents wb (us @ w # vs)" "extent_ok v"
  shows "aget wb (int (length us)) = Some w"
    "\<exists>wb'. aset wb (int (length us)) v = Some wb' \<and> extents wb' (us @ v # vs)"
proof -
  have wb: "wb = us @ w # vs @ replicate (BLOCK - (length us + Suc (length vs))) no_write"
    using assms(1) by (simp add: extents_def)
  show "aget wb (int (length us)) = Some w" unfolding wb by simp
  show "\<exists>wb'. aset wb (int (length us)) v = Some wb' \<and> extents wb' (us @ v # vs)"
    unfolding wb using assms by (simp add: extents_def)
qed

lemma extents_extend:
  assumes "extents wb ws" "extent_ok v" "length ws < BLOCK"
  shows "aget wb (int (length ws)) = Some no_write"
    "\<exists>wb'. aset wb (int (length ws)) v = Some wb' \<and> extents wb' (ws @ [v])"
proof -
  have wb: "wb = ws @ no_write # replicate (BLOCK - Suc (length ws)) no_write"
    using assms(1,3) by (simp add: extents_def Suc_diff_Suc flip: replicate_Suc)
  show "aget wb (int (length ws)) = Some no_write" unfolding wb by simp
  show "\<exists>wb'. aset wb (int (length ws)) v = Some wb' \<and> extents wb' (ws @ [v])"
    unfolding wb using assms by (auto simp: extents_def)
qed

text \<open>Merging a write with an extent it touches.\<close>

lemma extents_merge:
  assumes wb: "extents wb (us @ w # vs)" and sz: "0 < sz" "p + sz \<le> BLOCK"
    and touch: "p \<le> wpos w + wsz w" "wpos w \<le> p + sz"
    and v: "wpos v = min p (wpos w)" "wsz v = max (p + sz) (wpos w + wsz w) - min p (wpos w)"
  shows "\<exists>wb' ws'. aset wb (int (length us)) v = Some wb' \<and> extents wb' ws' \<and>
    covered ws' = covered (us @ w # vs) \<union> {p..<p + sz} \<and> length ws' = length (us @ w # vs)"
proof -
  have "extent_ok w" using extentsD(2) [OF wb] by simp
  then have v': "extent_ok v" "{wpos v..<wpos v + wsz v} = {wpos w..<wpos w + wsz w} \<union> {p..<p + sz}"
    using sz touch v by (auto simp: extent_ok_def)
  obtain wb' where "aset wb (int (length us)) v = Some wb'" "extents wb' (us @ v # vs)"
    using extents_replace(2) [OF wb v'(1)] by blast
  then show ?thesis using v'(2) by (intro exI [of _ wb'] exI [of _ "us @ v # vs"]) auto
qed

lemma no_write_simps [simp]: "wpos no_write = 0" "wsz no_write = 0"
  by (simp_all add: no_write_def)

lemma linear_insert_loop_ok:
  assumes "extents (f_wbuf f) (us @ vs)" "0 < sz" "p + sz \<le> BLOCK" "length (us @ vs) < BLOCK"
  shows "\<exists>wb' ws'. linear_insert_loop f p sz (length us) = Some (f\<lparr>f_wbuf := wb'\<rparr>) \<and>
    extents wb' ws' \<and> covered ws' = covered (us @ vs) \<union> {p..<p + sz} \<and> length ws' \<le> length (us @ vs) + 1"
  using assms
proof (induction vs arbitrary: us)
  case Nil
  have "extent_ok \<lparr>wpos = p, wsz = sz\<rparr>" using Nil.prems by (simp add: extent_ok_def)
  from extents_extend [of "f_wbuf f" us, OF _ this] Nil.prems
  obtain wb' where "aget (f_wbuf f) (int (length us)) = Some no_write"
      "aset (f_wbuf f) (int (length us)) \<lparr>wpos = p, wsz = sz\<rparr> = Some wb'" "extents wb' (us @ [\<lparr>wpos = p, wsz = sz\<rparr>])"
    by auto
  then show ?case using Nil.prems
    by (intro exI [of _ wb'] exI [of _ "us @ [\<lparr>wpos = p, wsz = sz\<rparr>]"], subst linear_insert_loop.simps) auto
next
  case (Cons w vs)
  have ok: "extent_ok w" using extentsD(2) [OF Cons.prems(1)] by simp
  have get: "aget (f_wbuf f) (int (length us)) = Some w" by (rule extents_replace(1) [OF Cons.prems(1) ok])
  have i: "length us < BLOCK" using Cons.prems(4) by simp
  have nz: "wsz w \<noteq> 0" using ok by (simp add: extent_ok_def)
  have finish: ?case
    if a: "linear_insert_loop f p sz (length us) = Option.bind (aset (f_wbuf f) (int (length us)) v) (\<lambda>wb. Some (f\<lparr>f_wbuf := wb\<rparr>))"
      "p \<le> wpos w + wsz w" "wpos w \<le> p + sz" "wpos v = min p (wpos w)"
      "wsz v = max (p + sz) (wpos w + wsz w) - min p (wpos w)" for v
  proof -
    obtain wb' ws' where m: "aset (f_wbuf f) (int (length us)) v = Some wb'" "extents wb' ws'"
        "covered ws' = covered (us @ w # vs) \<union> {p..<p + sz}" "length ws' = length (us @ w # vs)"
      using extents_merge [OF Cons.prems(1-3) a(2-5)] by blast
    then show ?case unfolding a(1) by (intro exI [of _ wb'] exI [of _ ws']) simp
  qed
  consider "p = wpos w + wsz w" | "wpos w \<le> p" "p < wpos w + wsz w" "wpos w + wsz w < p + sz"
    | "wpos w \<le> p" "p < wpos w + wsz w" "p + sz \<le> wpos w + wsz w"
    | "p < wpos w" "wpos w \<le> p + sz" "p + sz \<le> wpos w + wsz w"
    | "p < wpos w" "wpos w + wsz w < p + sz"
    | "wpos w + wsz w < p \<or> p + sz < wpos w" by linarith
  then show ?case
  proof cases
    case 1
    let ?v = "w\<lparr>wsz := wsz w + sz\<rparr>"
    have "linear_insert_loop f p sz (length us) =
        Option.bind (aset (f_wbuf f) (int (length us)) ?v) (\<lambda>wb. Some (f\<lparr>f_wbuf := wb\<rparr>))"
      by (subst linear_insert_loop.simps) (use 1 get i nz in simp)
    then show ?thesis by (rule finish) (use 1 in auto)
  next
    case 2
    let ?v = "w\<lparr>wsz := wsz w + ((p + sz) - (wpos w + wsz w))\<rparr>"
    have "linear_insert_loop f p sz (length us) =
        Option.bind (aset (f_wbuf f) (int (length us)) ?v) (\<lambda>wb. Some (f\<lparr>f_wbuf := wb\<rparr>))"
      by (subst linear_insert_loop.simps) (use 2 get i nz in simp)
    then show ?thesis by (rule finish) (use 2 in auto)
  next
    case 3
    then have "covered (us @ w # vs) = covered (us @ w # vs) \<union> {p..<p + sz}" by auto
    moreover have "linear_insert_loop f p sz (length us) = Some f"
      by (subst linear_insert_loop.simps) (use 3 get i nz in simp)
    ultimately show ?thesis using Cons.prems(1)
      by (intro exI [of _ "f_wbuf f"] exI [of _ "us @ w # vs"]) simp
  next
    case 4
    let ?v = "\<lparr>wpos = p, wsz = wsz w + (wpos w - p)\<rparr>"
    have "linear_insert_loop f p sz (length us) =
        Option.bind (aset (f_wbuf f) (int (length us)) ?v) (\<lambda>wb. Some (f\<lparr>f_wbuf := wb\<rparr>))"
      by (subst linear_insert_loop.simps) (use 4 get i nz in simp)
    then show ?thesis by (rule finish) (use 4 in auto)
  next
    case 5
    let ?v = "\<lparr>wpos = p, wsz = sz\<rparr>"
    have "linear_insert_loop f p sz (length us) =
        Option.bind (aset (f_wbuf f) (int (length us)) ?v) (\<lambda>wb. Some (f\<lparr>f_wbuf := wb\<rparr>))"
      by (subst linear_insert_loop.simps) (use 5 get i nz in simp)
    then show ?thesis by (rule finish) (use 5 in auto)
  next
    case 6
    have "linear_insert_loop f p sz (length us) = linear_insert_loop f p sz (length (us @ [w]))"
      by (subst linear_insert_loop.simps) (use 6 get i nz in auto)
    then show ?thesis using Cons.IH [of "us @ [w]"] Cons.prems by simp
  qed
qed

lemma linear_insert_ok:
  assumes "extents (f_wbuf f) ws" "0 < sz" "p + sz \<le> BLOCK" "length ws < BLOCK"
  shows "\<exists>wb' ws'. linear_insert f p sz = Some (f\<lparr>f_wbuf := wb'\<rparr>) \<and> extents wb' ws' \<and>
    covered ws' = covered ws \<union> {p..<p + sz} \<and> length ws' \<le> length ws + 1"
  using linear_insert_loop_ok [of f "[]" ws sz p] assms by (simp add: linear_insert_def)


text \<open>The binary search: in the empty buffer, and between two positions of a buffer in use.\<close>

lemma binary_insert_empty:
  assumes "extents (f_wbuf f) []" "f_wsz f = 0" "0 < sz" "p + sz \<le> BLOCK"
  shows "\<exists>wb'. binary_insert f p sz 0 0 None_side = Some (f\<lparr>f_wbuf := wb', f_wsz := 1\<rparr>) \<and>
    extents wb' [\<lparr>wpos = p, wsz = sz\<rparr>]"
proof -
  have "extent_ok \<lparr>wpos = p, wsz = sz\<rparr>" using assms by (simp add: extent_ok_def)
  from extents_extend [OF assms(1) this] obtain wb' where wb': "aget (f_wbuf f) 0 = Some no_write"
      "aset (f_wbuf f) 0 \<lparr>wpos = p, wsz = sz\<rparr> = Some wb'" "extents wb' [\<lparr>wpos = p, wsz = sz\<rparr>]"
    using assms(4) by (auto simp: BLOCK_def)
  have "binary_insert f p sz 0 0 None_side = Some (f\<lparr>f_wbuf := wb', f_wsz := 1\<rparr>)"
  proof (cases "p = 0")
    case True
    then show ?thesis using wb' assms
      by (subst binary_insert.simps) (simp add: no_write_def)
  next
    case False
    have "binary_insert f p sz 1 0 Right = Some (f\<lparr>f_wbuf := wb', f_wsz := 1\<rparr>)"
      using wb' assms by (subst binary_insert.simps) (simp add: bin_insert_helper_def)
    then show ?thesis using wb' assms False by (subst binary_insert.simps) simp
  qed
  with wb'(3) show ?thesis by blast
qed

lemma bin_insert_helper_ok:
  assumes wb: "extents (f_wbuf f) ws" "f_wsz f = length ws" "ws \<noteq> []" "length ws < BLOCK"
    and sz: "0 < sz" "p + sz \<le> BLOCK" and first: "0 \<le> first" "first \<le> int (length ws)"
  shows "\<exists>wb' ws'. bin_insert_helper f p sz first e = Some (f\<lparr>f_wbuf := wb'\<rparr>) \<and> extents wb' ws' \<and>
    covered ws' = covered ws \<union> {p..<p + sz} \<and> length ws' = length ws + 1"
proof -
  let ?v = "\<lparr>wpos = p, wsz = sz\<rparr>"
  have v: "extent_ok ?v" using sz by (simp add: extent_ok_def)
  obtain k where k0: "first = int k" using first(1) by (rule nonneg_int_cases)
  have k: "first = int k" "k \<le> length ws" using k0 first(2) by auto
  define pad where "pad = replicate (BLOCK - Suc (length ws)) no_write"
  have wbeq: "f_wbuf f = ws @ no_write # pad"
    using wb(1,4) by (simp add: extents_def pad_def Suc_diff_Suc flip: replicate_Suc)
  let ?ws' = "take k ws @ ?v # drop k ws"
  have ex: "extents (?ws' @ pad) ?ws'"
    using wb(1,4) k v by (auto simp: extents_def pad_def min_def dest: in_set_takeD in_set_dropD)
  have cov: "covered ?ws' = covered ws \<union> {p..<p + sz}"
    using covered_simps(3) [of "take k ws" "drop k ws"] by auto
  have "bin_insert_helper f p sz first e = Some (f\<lparr>f_wbuf := ?ws' @ pad\<rparr>)"
  proof (cases "e = Right \<and> k = length ws")
    case True
    then show ?thesis using wb(2,3) k wbeq by (simp add: bin_insert_helper_def)
  next
    case False
    have source: "memcpy_from (f_wbuf f) k (length ws - k) = Some (drop k ws)"
      using k wbeq by (simp add: memcpy_from_def)
    have "take (k + 1) (f_wbuf f) = take (k + 1) (ws @ [no_write])"
      using k(2) unfolding wbeq by (cases "k = length ws") simp_all
    then have target: "memcpy_to (f_wbuf f) (k + 1) (drop k ws) = Some (take (k + 1) (ws @ [no_write]) @ drop k ws @ pad)"
      using k(2) unfolding memcpy_to_def by (simp add: wbeq)
    have "take (k + 1) (ws @ [no_write]) = take k ws @ [(ws @ [no_write]) ! k]"
      using k(2) take_Suc_conv_app_nth [of k "ws @ [no_write]"] by simp
    moreover have "length (take k ws) = k" using k(2) by simp
    ultimately have "aset (take (k + 1) (ws @ [no_write]) @ drop k ws @ pad) (int k) ?v = Some (?ws' @ pad)"
      using aset_middle [of "take k ws" _ "drop k ws @ pad" ?v] by simp
    then show ?thesis using wb(2,3) k source target False by (auto simp: bin_insert_helper_def)
  qed
  moreover have "length ?ws' = length ws + 1" using k by simp
  ultimately show ?thesis using ex cov by blast
qed


lemma half_between: "0 \<le> a \<Longrightarrow> a \<le> b \<Longrightarrow> a \<le> (a + b) sdiv 2 \<and> (a + b) sdiv 2 \<le> (b :: int)"
  by (subst (1 2) sdiv_nonneg) auto

lemma binary_insert_ok:
  assumes wb: "extents (f_wbuf f) ws" "f_wsz f = length ws" "ws \<noteq> []" "length ws < BLOCK"
    and sz: "0 < sz" "p + sz \<le> BLOCK"
    and range: "0 \<le> first" "first \<le> int (length ws)" "l < int (length ws)"
  shows "\<exists>wb' ws'. binary_insert f p sz first l e = Some (f\<lparr>f_wbuf := wb', f_wsz := length ws'\<rparr>) \<and>
    extents wb' ws' \<and> covered ws' = covered ws \<union> {p..<p + sz} \<and> length ws' \<le> length ws + 1"
  using range
proof (induction "nat (l + 1 - first)" arbitrary: first l e rule: less_induct)
  case less
  show ?case
  proof (cases "first > l")
    case True
    obtain wb' ws' where h: "bin_insert_helper f p sz first e = Some (f\<lparr>f_wbuf := wb'\<rparr>)" "extents wb' ws'"
        "covered ws' = covered ws \<union> {p..<p + sz}" "length ws' = length ws + 1"
      using bin_insert_helper_ok [OF wb sz less.prems(1,2)] by blast
    have "binary_insert f p sz first l e = Some (f\<lparr>f_wbuf := wb', f_wsz := f_wsz f + 1\<rparr>)"
      by (subst binary_insert.simps) (use True h(1) in simp)
    then show ?thesis using wb(2) h(2-4) by (intro exI [of _ wb'] exI [of _ ws']) simp
  next
    case False
    define i where "i = nat ((first + l) sdiv 2)"
    have i: "(first + l) sdiv 2 = int i" "first \<le> int i" "int i \<le> l" "i < length ws"
      using half_between [of first l] False less.prems unfolding i_def by auto
    define us w vs where "us = take i ws" and "w = ws ! i" and "vs = drop (Suc i) ws"
    have ws: "ws = us @ w # vs" and len: "length us = i"
      using i(4) id_take_nth_drop [of i ws] by (auto simp: us_def w_def vs_def)
    have ok: "extent_ok w" using extentsD(2) [OF wb(1)] ws by simp
    have get: "aget (f_wbuf f) (int i) = Some w"
      using extents_replace(1) [of "f_wbuf f" us w vs, OF _ ok] wb(1) ws len by simp
    have merge: "\<exists>wb' ws'. aset (f_wbuf f) (int i) v = Some wb' \<and> extents wb' ws' \<and>
        covered ws' = covered ws \<union> {p..<p + sz} \<and> length ws' = length ws"
      if "p \<le> wpos w + wsz w" "wpos w \<le> p + sz" "wpos v = min p (wpos w)"
        "wsz v = max (p + sz) (wpos w + wsz w) - min p (wpos w)" for v
      using extents_merge [of "f_wbuf f" us w vs sz p v] that wb(1) sz ws len by simp
    have same: "f\<lparr>f_wbuf := wb', f_wsz := length ws\<rparr> = f\<lparr>f_wbuf := wb'\<rparr>" for wb'
      using wb(2) by (cases f) simp
    have finish: ?thesis
      if "binary_insert f p sz first l e = Some (f\<lparr>f_wbuf := wb'\<rparr>)" "extents wb' ws'"
        "covered ws' = covered ws \<union> {p..<p + sz}" "length ws' = length ws" for wb' ws'
      using that wb(2) by (cases f) (auto intro!: exI [of _ wb'] exI [of _ ws'])
    consider "p = wpos w + wsz w" | "wpos w \<le> p" "p < wpos w + wsz w" "wpos w + wsz w < p + sz"
      | "wpos w \<le> p" "p < wpos w + wsz w" "p + sz \<le> wpos w + wsz w"
      | "p < wpos w" "wpos w \<le> p + sz" "p + sz \<le> wpos w + wsz w"
      | "p < wpos w" "wpos w + wsz w < p + sz"
      | "wpos w + wsz w < p" | "p + sz < wpos w" by linarith
    then show ?thesis
    proof cases
      case 1
      let ?v = "w\<lparr>wsz := wsz w + sz\<rparr>"
      have code: "binary_insert f p sz first l e =
          Option.bind (aset (f_wbuf f) (int i) ?v) (\<lambda>wb. Some (f\<lparr>f_wbuf := wb, f_wsz := length ws\<rparr>))"
        by (subst binary_insert.simps) (use 1 False get i(1) wb(2,3) in \<open>simp add: Let_def\<close>)
      obtain wb' ws' where m: "aset (f_wbuf f) (int i) ?v = Some wb'" "extents wb' ws'"
          "covered ws' = covered ws \<union> {p..<p + sz}" "length ws' = length ws"
        using merge [of ?v] 1 by auto
      show ?thesis by (rule finish [OF _ m(2-4)]) (simp only: code m(1) same Option.bind.bind_lunit)
    next
      case 2
      let ?v = "w\<lparr>wsz := wsz w + ((p + sz) - (wpos w + wsz w))\<rparr>"
      have code: "binary_insert f p sz first l e =
          Option.bind (aset (f_wbuf f) (int i) ?v) (\<lambda>wb. Some (f\<lparr>f_wbuf := wb\<rparr>))"
        by (subst binary_insert.simps) (use 2 False get i(1) in \<open>simp add: Let_def\<close>)
      obtain wb' ws' where m: "aset (f_wbuf f) (int i) ?v = Some wb'" "extents wb' ws'"
          "covered ws' = covered ws \<union> {p..<p + sz}" "length ws' = length ws"
        using merge [of ?v] 2 by auto
      show ?thesis by (rule finish [OF _ m(2-4)]) (simp only: code m(1) Option.bind.bind_lunit)
    next
      case 3
      then have "covered ws = covered ws \<union> {p..<p + sz}" using ws by auto
      moreover have "binary_insert f p sz first l e = Some f"
        by (subst binary_insert.simps) (use 3 False get i(1) in \<open>simp add: Let_def\<close>)
      ultimately show ?thesis by (intro finish [of "f_wbuf f" ws]) (use wb(1) in simp_all)
    next
      case 4
      let ?v = "\<lparr>wpos = p, wsz = wsz w + (wpos w - p)\<rparr>"
      have code: "binary_insert f p sz first l e =
          Option.bind (aset (f_wbuf f) (int i) ?v) (\<lambda>wb. Some (f\<lparr>f_wbuf := wb\<rparr>))"
        by (subst binary_insert.simps) (use 4 False get i(1) in \<open>simp add: Let_def\<close>)
      obtain wb' ws' where m: "aset (f_wbuf f) (int i) ?v = Some wb'" "extents wb' ws'"
          "covered ws' = covered ws \<union> {p..<p + sz}" "length ws' = length ws"
        using merge [of ?v] 4 by (auto simp: add.commute)
      show ?thesis by (rule finish [OF _ m(2-4)]) (simp only: code m(1) Option.bind.bind_lunit)
    next
      case 5
      let ?v = "\<lparr>wpos = p, wsz = sz\<rparr>"
      obtain wb' ws' where m: "aset (f_wbuf f) (int i) ?v = Some wb'" "extents wb' ws'"
          "covered ws' = covered ws \<union> {p..<p + sz}" "length ws' = length ws"
        using merge [of ?v] 5 by auto
      have "aget wb' (int i) = Some ?v" using m(1) by (auto simp: aset_def aget_def split: if_splits)
      then have "binary_insert (f\<lparr>f_wbuf := wb'\<rparr>) p sz first l e = Some (f\<lparr>f_wbuf := wb'\<rparr>)"
        using False i(1) sz(1) by (subst binary_insert.simps) (simp add: Let_def)
      moreover have "binary_insert f p sz first l e = binary_insert (f\<lparr>f_wbuf := wb'\<rparr>) p sz first l e"
        by (subst binary_insert.simps) (use 5 False get i(1) m(1) in \<open>simp add: Let_def\<close>)
      ultimately show ?thesis by (intro finish [OF _ m(2-4)]) simp
    next
      case 6
      have "binary_insert f p sz first l e = binary_insert f p sz (int i + 1) l Right"
        by (subst binary_insert.simps) (use 6 False get i(1) in \<open>simp add: Let_def\<close>)
      then show ?thesis using less.hyps [of l "int i + 1" Right] i less.prems False by simp
    next
      case 7
      have "binary_insert f p sz first l e = binary_insert f p sz first (int i - 1) Left"
        by (subst binary_insert.simps) (use 7 False get i(1) in \<open>simp add: Let_def\<close>)
      then show ?thesis using less.hyps [of "int i - 1" first Left] i less.prems False by simp
    qed
  qed
qed


section \<open>Flushing\<close>

lemma flush_loop_ok:
  assumes "f_wbuf f = replicate i no_write @ vs @ replicate (BLOCK - i - length vs) no_write"
    and "i + length vs \<le> BLOCK" "\<forall>w\<in>set vs. extent_ok w" "\<not> broken (fd f)" "length (f_buf f) = BLOCK"
  shows "\<exists>s. flush_loop f i n = Some (n + int (sum_list (map wsz vs)),
      f\<lparr>fd := s, f_wsz := 0, f_wbuf := replicate BLOCK no_write\<rparr>) \<and> \<not> broken s \<and>
    content s = overlay (content (fd f)) ((+) (f_abs f) ` covered vs) (\<lambda>q. f_buf f ! (q - f_abs f))"
  using assms
proof (induction vs arbitrary: f i n)
  case Nil
  have wb: "f_wbuf f = replicate BLOCK no_write"
    using Nil.prems by (simp flip: replicate_add)
  have "flush_loop f i n = Some (n, f\<lparr>f_wsz := 0\<rparr>)"
    using Nil.prems(2) wb by (subst flush_loop.simps) (simp add: aget_def)
  moreover have "f\<lparr>f_wsz := 0\<rparr> = f\<lparr>fd := fd f, f_wsz := 0, f_wbuf := replicate BLOCK no_write\<rparr>"
    using wb by (cases f) simp
  ultimately have "flush_loop f i n = Some (n, f\<lparr>fd := fd f, f_wsz := 0, f_wbuf := replicate BLOCK no_write\<rparr>)"
    by (simp only:)
  then show ?case using Nil.prems(4) by (intro exI [of _ "fd f"] conjI) simp_all
next
  case (Cons w vs)
  let ?rest = "vs @ replicate (BLOCK - i - length (w # vs)) no_write"
  have ok: "0 < wsz w" "wpos w + wsz w \<le> BLOCK" using Cons.prems(3) by (auto simp: extent_ok_def)
  have wb: "f_wbuf f = replicate i no_write @ w # ?rest" using Cons.prems(1) by simp
  have get: "aget (f_wbuf f) (int i) = Some w"
    using aget_middle [of "replicate i no_write" w ?rest] wb by simp
  let ?bs = "take (wsz w) (drop (wpos w) (f_buf f))"
  have len: "length ?bs = wsz w" using ok(2) Cons.prems(5) by simp
  define s where "s = (fd f)\<lparr>content := put_bytes (content (fd f)) (f_abs f + wpos w) ?bs,
    offset := f_abs f + wpos w + wsz w\<rparr>"
  have wr: "os_write ((fd f)\<lparr>offset := f_abs f + wpos w\<rparr>) ?bs = (int (wsz w), s)"
    using Cons.prems(4) len by (simp add: os_write_def s_def del: length_take)
  have set: "aset (f_wbuf f) (int i) no_write = Some (replicate i no_write @ no_write # ?rest)"
    using aset_middle [of "replicate i no_write" w ?rest no_write] wb by simp
  let ?f = "f\<lparr>fd := s, f_wbuf := replicate i no_write @ no_write # ?rest\<rparr>"
  have from_buf: "memcpy_from (f_buf f) (wpos w) (wsz w) = Some ?bs"
    using ok(2) Cons.prems(5) by (simp add: memcpy_from_def)
  have step: "flush_loop f i n = flush_loop ?f (i + 1) (n + int (wsz w))"
    using Cons.prems(2) ok(1) get wr set from_buf by (subst flush_loop.simps) simp
  obtain s' where s': "flush_loop ?f (i + 1) (n + int (wsz w)) = Some (n + int (wsz w) + int (sum_list (map wsz vs)),
      ?f\<lparr>fd := s', f_wsz := 0, f_wbuf := replicate BLOCK no_write\<rparr>)" "\<not> broken s'"
      "content s' = overlay (content s) ((+) (f_abs f) ` covered vs) (\<lambda>q. f_buf f ! (q - f_abs f))"
    using Cons.IH [of ?f "i + 1" "n + int (wsz w)"] Cons.prems
    by (auto simp: s_def replicate_app_Cons_same)
  have "content s = overlay (content (fd f)) ((+) (f_abs f) ` {wpos w..<wpos w + wsz w}) (\<lambda>q. f_buf f ! (q - f_abs f))"
  proof -
    have "{f_abs f + wpos w..<f_abs f + wpos w + wsz w} = (+) (f_abs f) ` {wpos w..<wpos w + wsz w}"
      by (simp add: image_add_atLeastLessThan ac_simps)
    then show ?thesis unfolding s_def using len ok(2) Cons.prems(5)
      by (auto simp: put_bytes_overlay intro!: overlay_cong)
  qed
  then have "content s' = overlay (content (fd f)) ((+) (f_abs f) ` covered (w # vs)) (\<lambda>q. f_buf f ! (q - f_abs f))"
    using s'(3) overlay_overlay [of "(+) (f_abs f) ` {wpos w..<wpos w + wsz w}" "(+) (f_abs f) ` covered vs"]
    by (simp add: image_Un del: image_add_atLeastLessThan)
  then show ?case using step s' by (intro exI [of _ s']) simp
qed


section \<open>The file a writer means\<close>

definition live :: "write_data list \<Rightarrow> write_data list" where
  "live wb = takeWhile (\<lambda>w. w \<noteq> no_write) wb"

definition writer :: "io61_file \<Rightarrow> bool" where
  "writer f \<longleftrightarrow> f_mode f = O_WRONLY \<and> \<not> broken (fd f) \<and> length (f_buf f) = BLOCK \<and> f_pos f \<le> BLOCK \<and>
     extents (f_wbuf f) (live (f_wbuf f))"

definition logical :: "io61_file \<Rightarrow> byte list" where
  "logical f = overlay (content (fd f)) ((+) (f_abs f) ` covered (live (f_wbuf f))) (\<lambda>q. f_buf f ! (q - f_abs f))"

definition unflushed :: "io61_file \<Rightarrow> nat" where
  "unflushed f = sum_list (map wsz (live (f_wbuf f)))"

lemma live_extents: "extents wb ws \<Longrightarrow> live wb = ws"
proof -
  assume wb: "extents wb ws"
  then have "\<forall>w\<in>set ws. w \<noteq> no_write" by (auto simp: extents_def extent_ok_def)
  then have "takeWhile (\<lambda>w. w \<noteq> no_write) (ws @ xs) = ws @ takeWhile (\<lambda>w. w \<noteq> no_write) xs" for xs
    by (induction ws) auto
  moreover have "takeWhile (\<lambda>w. w \<noteq> no_write) (replicate n no_write) = []" for n by (cases n) simp_all
  ultimately show ?thesis using wb by (simp add: live_def extents_def)
qed

lemma flush_wbuf_ok:
  assumes "writer f"
  shows "\<exists>s. flush_wbuf f = Some (int (unflushed f), f\<lparr>fd := s, f_wsz := 0, f_wbuf := replicate BLOCK no_write\<rparr>) \<and>
    \<not> broken s \<and> content s = logical f"
  using flush_loop_ok [of f 0 "live (f_wbuf f)" 0] assms
  by (simp add: flush_wbuf_def writer_def extents_def logical_def unflushed_def)

lemma live_none [simp]: "live (replicate n no_write) = []"
  by (cases n) (simp_all add: live_def)

lemma logical_flushed: "live (f_wbuf f) = [] \<Longrightarrow> logical f = content (fd f)"
  by (simp add: logical_def)

lemma extents_none [simp]: "extents (replicate BLOCK no_write) []"
  by (simp add: extents_def)

text \<open>Putting bytes into the buffer and their positions among the extents.\<close>

lemma logical_put:
  assumes "covered ws' = covered (live (f_wbuf f)) \<union> {p..<p + length bs}" "extents wb' ws'"
    and "\<And>q. q < BLOCK \<Longrightarrow> buf' ! q = (if p \<le> q \<and> q < p + length bs then bs ! (q - p) else f_buf f ! q)"
    and "writer f" "p + length bs \<le> BLOCK"
  shows "logical (f\<lparr>f_wbuf := wb', f_wsz := n, f_buf := buf', f_pos := k\<rparr>) = put_bytes (logical f) (f_abs f + p) bs"
proof -
  let ?a = "f_abs f" and ?P = "covered (live (f_wbuf f))"
  have new: "{?a + p..<?a + p + length bs} = (+) ?a ` {p..<p + length bs}"
    by (simp add: image_add_atLeastLessThan ac_simps)
  have "put_bytes (logical f) (?a + p) bs = overlay (content (fd f)) ((+) ?a ` ?P \<union> (+) ?a ` {p..<p + length bs})
      (\<lambda>q. if q \<in> (+) ?a ` {p..<p + length bs} then bs ! (q - (?a + p)) else f_buf f ! (q - ?a))"
    unfolding put_bytes_overlay new logical_def by (rule overlay_overlay) simp_all
  also have "\<dots> = overlay (content (fd f)) ((+) ?a ` covered ws') (\<lambda>q. buf' ! (q - ?a))"
    unfolding assms(1) image_Un
  proof (rule overlay_cong)
    fix q assume "q \<in> (+) ?a ` ?P \<union> (+) ?a ` {p..<p + length bs}"
    then obtain x where x: "q = ?a + x" "x \<in> ?P \<union> {p..<p + length bs}"
      unfolding image_Un [symmetric] by blast
    have "x < BLOCK" using x(2) covered_less [of "live (f_wbuf f)" x] assms(4,5)
      by (auto simp: writer_def extents_def)
    then show "(if q \<in> (+) ?a ` {p..<p + length bs} then bs ! (q - (?a + p)) else f_buf f ! (q - ?a)) = buf' ! (q - ?a)"
      using x(1) assms(3) [of x] by auto
  qed
  finally show ?thesis by (simp add: logical_def live_extents [OF assms(2)])
qed

text \<open>\<open>io61_writec\<close> where the buffer has room.\<close>

lemma io61_writec_room:
  assumes "writer f" "f_pos f < BLOCK" "length (live (f_wbuf f)) < BLOCK"
  shows "\<exists>f'. io61_writec f ch = Some (0, f') \<and> writer f' \<and> f_abs f' = f_abs f \<and> f_pos f' = f_pos f + 1 \<and>
    logical f' = put_bytes (logical f) (f_abs f + f_pos f) [word_of_int ch]"
proof -
  let ?p = "f_pos f" and ?c = "word_of_int ch :: byte"
  obtain wb' ws' where ins: "linear_insert f ?p 1 = Some (f\<lparr>f_wbuf := wb'\<rparr>)" "extents wb' ws'"
      "covered ws' = covered (live (f_wbuf f)) \<union> {?p..<?p + 1}"
    using linear_insert_ok [of f "live (f_wbuf f)" 1 ?p] assms by (auto simp: writer_def)
  let ?f' = "f\<lparr>f_wbuf := wb', f_wsz := f_wsz f, f_buf := (f_buf f)[?p := ?c], f_pos := ?p + 1\<rparr>"
  have "f\<lparr>f_wbuf := wb', f_buf := (f_buf f)[?p := ?c], f_pos := ?p + 1\<rparr> = ?f'" by (cases f) simp
  then have code: "io61_writec f ch = Some (0, ?f')"
    using assms ins(1) by (simp add: io61_writec_def writer_def)
  have "logical ?f' = put_bytes (logical f) (f_abs f + ?p) [?c]"
    using assms ins by (intro logical_put) (auto simp: writer_def nth_list_update)
  moreover have "writer ?f'" using assms ins(2) live_extents [OF ins(2)] by (simp add: writer_def)
  ultimately show ?thesis using code by (intro exI [of _ ?f']) simp
qed

text \<open>A full buffer is flushed first, and the call fails unless \<open>BLOCK\<close> bytes were waiting.\<close>

lemma io61_writec_flushes:
  assumes "writer f" "f_pos f = BLOCK"
  shows "if unflushed f = BLOCK
    then \<exists>g. io61_writec f ch = io61_writec g ch \<and> writer g \<and> f_abs g = f_abs f + BLOCK \<and> f_pos g = 0 \<and>
      f_wsz g = 0 \<and> live (f_wbuf g) = [] \<and> content (fd g) = logical f
    else \<exists>f'. io61_writec f ch = Some (-1, f') \<and> content (fd f') = logical f"
proof -
  obtain s where s: "flush_wbuf f = Some (int (unflushed f), f\<lparr>fd := s, f_wsz := 0, f_wbuf := replicate BLOCK no_write\<rparr>)"
      "\<not> broken s" "content s = logical f"
    using flush_wbuf_ok [OF assms(1)] by blast
  let ?g = "f\<lparr>fd := s, f_wsz := 0, f_wbuf := replicate BLOCK no_write\<rparr>"
  let ?f = "?g\<lparr>f_abs := f_abs f + BLOCK, f_pos := 0\<rparr>"
  have w: "writer ?f" using assms(1) s(2) by (simp add: writer_def)
  show ?thesis
  proof (cases "unflushed f = BLOCK")
    case True
    have "io61_writec f ch = io61_writec ?f ch"
      using assms(2) s(1) True by (simp add: io61_writec_def BLOCK_def)
    then show ?thesis using True w s(3) by (auto intro!: exI [of _ ?f])
  next
    case False
    then show ?thesis using assms(2) s by (simp add: io61_writec_def)
  qed
qed

lemma io61_writec_full:
  assumes "writer f" "f_pos f = BLOCK"
  shows "if unflushed f = BLOCK
    then \<exists>f'. io61_writec f ch = Some (0, f') \<and> writer f' \<and> f_abs f' = f_abs f + BLOCK \<and> f_pos f' = 1 \<and>
      logical f' = put_bytes (logical f) (f_abs f + BLOCK) [word_of_int ch]
    else \<exists>f'. io61_writec f ch = Some (-1, f') \<and> content (fd f') = logical f"
proof (cases "unflushed f = BLOCK")
  case True
  then obtain g where g: "io61_writec f ch = io61_writec g ch" "writer g" "f_abs g = f_abs f + BLOCK" "f_pos g = 0"
      "live (f_wbuf g) = []" "content (fd g) = logical f"
    using io61_writec_flushes [OF assms, of ch] by auto
  have "f_pos g < BLOCK" "length (live (f_wbuf g)) < BLOCK" using g(4,5) by (simp_all add: BLOCK_def)
  from io61_writec_room [OF g(2) this, of ch] show ?thesis
    using True g logical_flushed [of g] by simp
qed (use io61_writec_flushes [OF assms, of ch] in simp)

text \<open>\<open>io61_write\<close> keeps a block that fits and writes any other one through.\<close>

lemma writer_binary_insert:
  assumes "writer f" "f_wsz f = length (live (f_wbuf f))" "f_wsz f < BLOCK" "0 < sz" "p + sz \<le> BLOCK"
  shows "\<exists>wb' ws'. binary_insert f p sz 0 (wbuf_index (int (f_wsz f))) None_side =
      Some (f\<lparr>f_wbuf := wb', f_wsz := length ws'\<rparr>) \<and>
    extents wb' ws' \<and> covered ws' = covered (live (f_wbuf f)) \<union> {p..<p + sz}"
proof (cases "live (f_wbuf f) = []")
  case True
  then obtain wb' where "binary_insert f p sz 0 0 None_side = Some (f\<lparr>f_wbuf := wb', f_wsz := 1\<rparr>)"
      "extents wb' [\<lparr>wpos = p, wsz = sz\<rparr>]"
    using binary_insert_empty [of f sz p] assms by (auto simp: writer_def)
  then show ?thesis using True assms(2)
    by (intro exI [of _ wb'] exI [of _ "[\<lparr>wpos = p, wsz = sz\<rparr>]"]) (simp add: wbuf_index_def)
next
  case False
  then show ?thesis
    using binary_insert_ok [of f "live (f_wbuf f)" sz p 0 "wbuf_index (int (f_wsz f))" None_side] assms
    by (auto simp: writer_def wbuf_index_def)
qed

lemma io61_write_fits:
  assumes w: "writer f" "f_wsz f = length (live (f_wbuf f))" "f_wsz f < BLOCK"
    and bs: "bs \<noteq> []" "f_pos f + length bs \<le> BLOCK"
  shows "\<exists>f'. io61_write f bs = Some (int (length bs), f') \<and> writer f' \<and>
    f_wsz f' = length (live (f_wbuf f')) \<and> f_abs f' = f_abs f \<and> f_pos f' = f_pos f + length bs \<and>
    logical f' = put_bytes (logical f) (f_abs f + f_pos f) bs"
proof -
  let ?p = "f_pos f"
  obtain buf where buf: "memcpy_to (f_buf f) ?p bs = Some buf" "length buf = BLOCK"
      "\<And>q. q < BLOCK \<Longrightarrow> buf ! q = (if ?p \<le> q \<and> q < ?p + length bs then bs ! (q - ?p) else f_buf f ! q)"
    by (rule memcpy_to_Some [of ?p bs "f_buf f"]) (use w(1) bs in \<open>auto simp: writer_def\<close>)
  obtain wb' ws' where ins: "binary_insert (f\<lparr>f_buf := buf\<rparr>) ?p (length bs) 0 (wbuf_index (int (f_wsz f))) None_side =
      Some (f\<lparr>f_buf := buf, f_wbuf := wb', f_wsz := length ws'\<rparr>)" "extents wb' ws'"
      "covered ws' = covered (live (f_wbuf f)) \<union> {?p..<?p + length bs}"
    using writer_binary_insert [of "f\<lparr>f_buf := buf\<rparr>" "length bs" ?p] w bs buf(2) by (auto simp: writer_def)
  let ?f' = "f\<lparr>f_wbuf := wb', f_wsz := length ws', f_buf := buf, f_pos := ?p + length bs\<rparr>"
  have order: "f\<lparr>f_buf := buf, f_wbuf := wb', f_wsz := length ws', f_pos := ?p + length bs\<rparr> = ?f'"
    by (cases f) simp
  have code: "io61_write f bs = Some (int (length bs), ?f')"
    using w(1) bs buf(1) ins(1) order by (simp add: io61_write_def writer_def Let_def le_diff_conv2 add.commute)
  have "logical ?f' = put_bytes (logical f) (f_abs f + ?p) bs"
    by (rule logical_put [OF ins(3,2) buf(3) w(1) bs(2)])
  moreover have "writer ?f'" using w(1) ins(2) live_extents [OF ins(2)] buf(2) bs by (simp add: writer_def)
  ultimately show ?thesis using code live_extents [OF ins(2)] by (intro exI [of _ ?f']) simp
qed

lemma io61_write_through:
  assumes w: "writer f" and bs: "BLOCK < f_pos f + length bs" "f_abs f + f_pos f < 2 ^ 31"
  shows "\<exists>f'. io61_write f bs = Some (int (unflushed f + length bs), f') \<and> writer f' \<and>
    f_wsz f' = length (live (f_wbuf f')) \<and> f_abs f' = f_abs f + f_pos f + length bs \<and> f_pos f' = 0 \<and>
    live (f_wbuf f') = [] \<and> logical f' = put_bytes (logical f) (f_abs f + f_pos f) bs"
proof -
  obtain s where s: "flush_wbuf f = Some (int (unflushed f), f\<lparr>fd := s, f_wsz := 0, f_wbuf := replicate BLOCK no_write\<rparr>)"
      "\<not> broken s" "content s = logical f"
    using flush_wbuf_ok [OF w] by blast
  define s' where "s' = s\<lparr>content := put_bytes (logical f) (f_abs f + f_pos f) bs,
    offset := f_abs f + f_pos f + length bs\<rparr>"
  let ?f' = "f\<lparr>fd := s', f_abs := f_abs f + f_pos f + length bs, f_pos := 0, f_wsz := 0, f_wbuf := replicate BLOCK no_write\<rparr>"
  have pos: "f_pos f \<le> BLOCK" using w by (simp add: writer_def)
  have wr: "os_write (s\<lparr>offset := f_abs f + f_pos f\<rparr>) bs = (int (length bs), s')"
    using s by (simp add: os_write_def s'_def)
  have seek: "lseek_set s (to_int (f_abs f + f_pos f)) = (int (f_abs f + f_pos f), s\<lparr>offset := f_abs f + f_pos f\<rparr>)"
    using bs(2) by simp
  have big: "\<not> length bs \<le> size_sub BLOCK (f_pos f)" "length bs \<noteq> 0" using bs(1) pos by auto
  have "f\<lparr>fd := s', f_wsz := 0, f_wbuf := replicate BLOCK no_write,
      f_abs := f_abs f + (length bs + f_pos f), f_pos := 0\<rparr> = ?f'"
    by (cases f) simp
  then have "io61_write f bs = Some (int (unflushed f + length bs), ?f')"
    using big s(1) wr seek by (simp add: io61_write_def Let_def del: of_nat_add)
  moreover have "logical ?f' = put_bytes (logical f) (f_abs f + f_pos f) bs"
    by (subst logical_flushed) (simp_all add: s'_def)
  moreover have "writer ?f'" using w s(2) by (simp add: writer_def s'_def)
  ultimately show ?thesis by (intro exI [of _ ?f']) simp
qed

lemma io61_flush_writer:
  assumes "writer f"
  shows "\<exists>f'. io61_flush f = Some (if unflushed f = 0 then -1 else 0, f') \<and> writer f' \<and>
    f_abs f' = f_abs f \<and> f_pos f' = f_pos f \<and> logical f' = logical f \<and> content (fd f') = logical f"
  using flush_wbuf_ok [OF assms] assms
  by (auto simp: io61_flush_def writer_def O_WRONLY_def logical_def)

lemma io61_close_writer: "writer f \<Longrightarrow> \<exists>s. io61_close f = Some s \<and> content s = logical f"
  using io61_flush_writer [of f] by (auto simp: io61_close_def)

lemma io61_seek_writer:
  assumes "writer f" "0 \<le> p" "p < 2 ^ 64"
  shows "\<exists>f'. io61_seek f p = Some (0, f') \<and> writer f' \<and> int (f_abs f' + f_pos f') = p \<and> logical f' = logical f \<and>
    (f_wsz f = length (live (f_wbuf f)) \<longrightarrow> f_wsz f' = length (live (f_wbuf f')))"
proof -
  obtain q where q: "p = int q" using assms(2) by (rule nonneg_int_cases)
  then have sz: "size_of_int p = q" using assms(3) by simp
  let ?f = "f\<lparr>fd := (fd f)\<lparr>offset := q\<rparr>\<rparr>"
  have w: "writer ?f" and lg: "logical ?f = logical f" using assms(1) by (simp_all add: writer_def logical_def)
  have mode: "f_mode f = O_WRONLY" "O_WRONLY \<noteq> O_RDONLY" "O_WRONLY AND O_WRONLY \<noteq> 0"
    using assms(1) by (simp_all add: writer_def O_WRONLY_def O_RDONLY_def)
  show ?thesis
  proof (cases "f_abs f \<le> q \<and> q \<le> f_abs f + BLOCK")
    case True
    then have "io61_seek f p = Some (0, ?f\<lparr>f_pos := q - f_abs f\<rparr>)"
      using mode sz q by (simp add: io61_seek_def Let_def)
    moreover have "writer (?f\<lparr>f_pos := q - f_abs f\<rparr>)" using w True by (auto simp: writer_def)
    ultimately show ?thesis using True q lg by (auto simp: logical_def)
  next
    case False
    obtain s where s: "flush_wbuf ?f = Some (int (unflushed ?f), ?f\<lparr>fd := s, f_wsz := 0, f_wbuf := replicate BLOCK no_write\<rparr>)"
        "\<not> broken s" "content s = logical f"
      using flush_wbuf_ok [OF w] lg by auto
    let ?f' = "?f\<lparr>fd := s, f_wsz := 0, f_wbuf := replicate BLOCK no_write, f_abs := q, f_pos := 0, f_sz := 0\<rparr>"
    have "io61_seek f p = Some (0, ?f')"
      using mode sz q s(1) False by (auto simp: io61_seek_def Let_def)
    moreover have "writer ?f'" "f_wsz ?f' = length (live (f_wbuf ?f'))"
      using w s by (simp_all add: writer_def)
    moreover have "logical ?f' = logical f" by (subst logical_flushed) (simp_all add: s(3))
    ultimately show ?thesis using q by (intro exI [of _ ?f']) simp
  qed
qed

end
