(* ===== verification/Io61.thy ===== *)
theory Io61
  imports Io61Read Io61Write
begin

text \<open>
  The programs of \<open>cache61\<close> that copy files with \<open>io61\<close>, proved once over the interface of a source
  and of a sink of bytes, and both implementations of the library as instances; then the properties
  of the library.
\<close>

section \<open>The copying programs\<close>

text \<open>Each \<open>main\<close> from its opened files on; the operations of the library are its arguments, and the
result is the output file once closed.\<close>

fun cat61_loop :: "('r \<Rightarrow> (int \<times> 'r) option) \<Rightarrow> ('w \<Rightarrow> int \<Rightarrow> (int \<times> 'w) option) \<Rightarrow> nat \<Rightarrow> 'r \<Rightarrow> 'w \<Rightarrow> 'w option" where
  "cat61_loop readc writec 0 inp outp = Some outp"
| "cat61_loop readc writec (Suc input_size) inp outp = do {
     (ch, inp) \<leftarrow> readc inp;
     if ch = -1 then Some outp
     else do {
       (r, outp) \<leftarrow> writec outp ch;
       cat61_loop readc writec input_size inp outp } }"

definition cat61 where
  "cat61 readc writec close input_size inp outp = do {
     outp \<leftarrow> cat61_loop readc writec input_size inp outp;
     close outp }"

text \<open>The block sizes of successive reads are \<open>sizes 0\<close>, \<open>sizes 1\<close>, and so on.\<close>

partial_function (option) copy_blocks ::
    "('r \<Rightarrow> nat \<Rightarrow> (int \<times> byte list \<times> 'r) option) \<Rightarrow> ('w \<Rightarrow> byte list \<Rightarrow> (int \<times> 'w) option) \<Rightarrow>
     (nat \<Rightarrow> nat) \<Rightarrow> nat \<Rightarrow> 'r \<Rightarrow> 'w \<Rightarrow> 'w option" where
  "copy_blocks read write sizes i inp outp = do {
     (amount, buf, inp) \<leftarrow> read inp (sizes i);
     if amount \<le> 0 then Some outp
     else do {
       (r, outp) \<leftarrow> write outp buf;
       copy_blocks read write sizes (i + 1) inp outp } }"

definition blockcat61 where
  "blockcat61 read write close arg_size inp outp = do {
     let block_size = (if arg_size \<noteq> 0 then arg_size else 4096);
     outp \<leftarrow> copy_blocks read write (\<lambda>_. block_size) 0 inp outp;
     close outp }"

text \<open>\<open>random\<close> yields the numbers \<open>rand 0\<close>, \<open>rand 1\<close>, and so on.\<close>

definition randblockcat61 where
  "randblockcat61 read write close rand arg_size inp outp = do {
     let max_blocksize = (if arg_size \<noteq> 0 then arg_size else 4096);
     outp \<leftarrow> copy_blocks read write (\<lambda>i. rand i mod max_blocksize + 1) 0 inp outp;
     close outp }"

fun reverse61_loop :: "('r \<Rightarrow> int \<Rightarrow> (int \<times> 'r) option) \<Rightarrow> ('r \<Rightarrow> (int \<times> 'r) option) \<Rightarrow>
    ('w \<Rightarrow> int \<Rightarrow> (int \<times> 'w) option) \<Rightarrow> nat \<Rightarrow> 'r \<Rightarrow> 'w \<Rightarrow> 'w option" where
  "reverse61_loop seek readc writec 0 inp outp = Some outp"
| "reverse61_loop seek readc writec (Suc input_size) inp outp = do {
     (r, inp) \<leftarrow> seek inp (int input_size);
     (ch, inp) \<leftarrow> readc inp;
     (r, outp) \<leftarrow> writec outp ch;
     reverse61_loop seek readc writec input_size inp outp }"

text \<open>The size argument counts as negative from \<open>2 ^ 63\<close> on; \<open>exit(1)\<close> is \<open>None\<close>.\<close>

definition reverse61 where
  "reverse61 filesize seek readc writec close arg_size inp outp = do {
     let input_size = (if 2 ^ 63 \<le> arg_size then filesize inp else int arg_size);
     c_assert (0 \<le> input_size);
     (r, inp) \<leftarrow> seek inp 0;
     c_assert (0 \<le> r);
     outp \<leftarrow> reverse61_loop seek readc writec (nat input_size) inp outp;
     close outp }"

text \<open>The size of a regular file.\<close>

definition io61_filesize :: "io61_file \<Rightarrow> int" where
  "io61_filesize f = int (length (content (fd f)))"

section \<open>A sink of bytes, and the programs over it\<close>

text \<open>\<open>out w\<close> is what has been appended to \<open>w\<close>; files end below 2 GB.\<close>

locale byte_sink =
  fixes wok :: "'w \<Rightarrow> bool"
    and out :: "'w \<Rightarrow> byte list"
    and writec :: "'w \<Rightarrow> int \<Rightarrow> (int \<times> 'w) option"
    and wblock :: "'w \<Rightarrow> byte list \<Rightarrow> (int \<times> 'w) option"
    and close :: "'w \<Rightarrow> os_file option"
  assumes writec_byte: "wok w \<Longrightarrow> length (out w) + 1 < 2 ^ 31 \<Longrightarrow>
      \<exists>w'. writec w c = Some (0, w') \<and> wok w' \<and> out w' = out w @ [word_of_int c]"
    and write_block: "wok w \<Longrightarrow> bs \<noteq> [] \<Longrightarrow> length (out w) + length bs < 2 ^ 31 \<Longrightarrow>
      \<exists>n w'. wblock w bs = Some (n, w') \<and> wok w' \<and> out w' = out w @ bs"
    and close_sink: "wok w \<Longrightarrow> \<exists>s. close w = Some s \<and> content s = out w"

locale copying = byte_source rok rem readc read + byte_sink wok out writec wblock close
  for rok :: "'r \<Rightarrow> bool" and rem readc read and wok :: "'w \<Rightarrow> bool" and out writec wblock close
begin

lemma cat61_loop_copies:
  "rok r \<Longrightarrow> wok w \<Longrightarrow> length (out w) + length (rem r) < 2 ^ 31 \<Longrightarrow>
   \<exists>w'. cat61_loop readc writec n r w = Some w' \<and> wok w' \<and> out w' = out w @ take n (rem r)"
proof (induction n arbitrary: r w)
  case (Suc n)
  show ?case
  proof (cases "rem r")
    case Nil
    then show ?thesis using readc_end [OF Suc.prems(1) Nil] Suc.prems(2) by auto
  next
    case (Cons b bs)
    obtain r' where r': "readc r = Some (uint b, r')" "rok r'" "rem r' = bs"
      using readc_more [OF Suc.prems(1) Cons] by blast
    obtain w' where w': "writec w (uint b) = Some (0, w')" "wok w'" "out w' = out w @ [b]"
      using writec_byte [OF Suc.prems(2), of "uint b"] Suc.prems(3) Cons by auto
    show ?thesis using Suc.IH [OF r'(2) w'(2)] Suc.prems(3) Cons r' w' by simp
  qed
qed simp

lemma cat61_copies:
  assumes "rok r" "wok w" "length (out w) + length (rem r) < 2 ^ 31"
  shows "\<exists>s. cat61 readc writec close n r w = Some s \<and> content s = out w @ take n (rem r)"
proof -
  obtain w' where "cat61_loop readc writec n r w = Some w'" "wok w'" "out w' = out w @ take n (rem r)"
    using cat61_loop_copies [OF assms] by blast
  then show ?thesis using close_sink [of w'] by (auto simp: cat61_def)
qed

lemma copy_blocks_copies:
  assumes "rok r" "wok w" "length (out w) + length (rem r) < 2 ^ 31" "\<And>j. 0 < sizes j"
  shows "\<exists>w'. copy_blocks read wblock sizes i r w = Some w' \<and> wok w' \<and> out w' = out w @ rem r"
  using assms(1-3)
proof (induction "length (rem r)" arbitrary: r w i rule: less_induct)
  case less
  let ?n = "sizes i"
  obtain r' where r': "read r ?n = Some (int (min ?n (length (rem r))), take ?n (rem r), r')" "rok r'"
      "rem r' = drop ?n (rem r)"
    using read_block [OF less.prems(1)] by blast
  show ?case
  proof (cases "rem r = []")
    case True
    then show ?thesis using r' less.prems(2) by (subst copy_blocks.simps) simp
  next
    case False
    then have pos: "min ?n (length (rem r)) \<noteq> 0"  "take ?n (rem r) \<noteq> []" using assms(4) [of i] by (auto simp: min_def)
    obtain k w' where w': "wblock w (take ?n (rem r)) = Some (k, w')" "wok w'" "out w' = out w @ take ?n (rem r)"
      using write_block [OF less.prems(2) pos(2)] less.prems(3) by force
    have "copy_blocks read wblock sizes i r w = copy_blocks read wblock sizes (i + 1) r' w'"
    proof -
      obtain m where m: "min ?n (length (rem r)) = Suc m" using pos(1) by (cases "min ?n (length (rem r))") auto
      show ?thesis using r'(1) w'(1) unfolding m by (subst copy_blocks.simps) simp
    qed
    moreover have "length (rem r') < length (rem r)" using r'(3) False assms(4) [of i] by simp
    ultimately show ?thesis
      using less.hyps [of r' w' "i + 1"] r' w' less.prems(3) by simp
  qed
qed

lemma copy_and_close:
  assumes "rok r" "wok w" "length (out w) + length (rem r) < 2 ^ 31" "\<And>j. 0 < sizes j"
  shows "\<exists>s. Option.bind (copy_blocks read wblock sizes 0 r w) close = Some s \<and> content s = out w @ rem r"
proof -
  obtain w' where "copy_blocks read wblock sizes 0 r w = Some w'" "wok w'" "out w' = out w @ rem r"
    using copy_blocks_copies [OF assms(1-3), of sizes 0] assms(4) by auto
  then show ?thesis using close_sink [of w'] by auto
qed

lemma blockcat61_copies:
  assumes "rok r" "wok w" "length (out w) + length (rem r) < 2 ^ 31"
  shows "\<exists>s. blockcat61 read wblock close n r w = Some s \<and> content s = out w @ rem r"
    "\<exists>s. randblockcat61 read wblock close rand n r w = Some s \<and> content s = out w @ rem r"
  using copy_and_close [OF assms, of "\<lambda>_. if n \<noteq> 0 then n else 4096"]
    copy_and_close [OF assms, of "\<lambda>i. rand i mod (if n \<noteq> 0 then n else 4096) + 1"]
  by (auto simp: blockcat61_def randblockcat61_def Let_def)

end

locale reversing = seekable_source rok rem readc read sok whole seek + copying rok rem readc read wok out writec wblock close
  for rok :: "'r \<Rightarrow> bool" and rem readc read sok whole seek and wok :: "'w \<Rightarrow> bool" and out writec wblock close
begin

lemma reverse61_loop_reverses:
  "sok r \<Longrightarrow> wok w \<Longrightarrow> n \<le> length (whole r) \<Longrightarrow> length (out w) + n < 2 ^ 31 \<Longrightarrow>
   \<exists>w'. reverse61_loop seek readc writec n r w = Some w' \<and> wok w' \<and> out w' = out w @ rev (take n (whole r))"
proof (induction n arbitrary: r w)
  case (Suc n)
  let ?b = "whole r ! n"
  obtain r1 where r1: "seek r (int n) = Some (0, r1)" "sok r1" "whole r1 = whole r" "rem r1 = drop n (whole r)"
    using seek_to [OF Suc.prems(1), of "int n"] Suc.prems(3) by auto
  have "rem r1 = ?b # drop (Suc n) (whole r)" using r1(4) Suc.prems(3) by (simp add: Cons_nth_drop_Suc)
  then obtain r2 where r2: "readc r1 = Some (uint ?b, r2)"
    using readc_more [OF sok_rok [OF r1(2)]] by blast
  then have r2': "sok r2" "whole r2 = whole r" using readc_keeps [OF r1(2) r2] r1(3) by auto
  obtain w' where w': "writec w (uint ?b) = Some (0, w')" "wok w'" "out w' = out w @ [?b]"
    using writec_byte [OF Suc.prems(2), of "uint ?b"] Suc.prems(4) by auto
  show ?case using Suc.IH [OF r2'(1) w'(2)] Suc.prems(3,4) r1(1) r2 w' r2'(2)
    by (simp add: take_Suc_conv_app_nth)
qed simp

lemma reverse61_reverses:
  assumes "sok r" "wok w" "filesize r = int (length (whole r))" "length (out w) + length (whole r) < 2 ^ 31"
  shows "\<exists>s. reverse61 filesize seek readc writec close (2 ^ 64 - 1) r w = Some s \<and>
    content s = out w @ rev (whole r)"
proof -
  obtain r1 where r1: "seek r 0 = Some (0, r1)" "sok r1" "whole r1 = whole r"
    using seek_to [OF assms(1), of 0] by auto
  obtain w' where "reverse61_loop seek readc writec (length (whole r)) r1 w = Some w'" "wok w'"
      "out w' = out w @ rev (whole r)"
    using reverse61_loop_reverses [OF r1(2) assms(2), of "length (whole r)"] r1(3) assms(4) by auto
  then show ?thesis using close_sink [of w'] r1(1) assms(3) by (auto simp: reverse61_def)
qed

end


section \<open>Both implementations are such a sink\<close>

lemma put_bytes_end: "p = length c \<Longrightarrow> put_bytes c p bs = c @ bs"
  by (simp add: put_bytes_append)

definition slow_appending :: "slow_file \<Rightarrow> bool" where
  "slow_appending f \<longleftrightarrow> \<not> broken (s_os f) \<and> offset (s_os f) = length (content (s_os f))"

lemma slow_writec_append: "slow_appending f \<Longrightarrow> \<exists>f'. slow_writec f c = (0, f') \<and> slow_appending f' \<and>
    content (s_os f') = content (s_os f) @ [word_of_int c]"
  by (simp add: slow_writec_def slow_appending_def os_write_def put_bytes_append)

lemma slow_write_loop_append: "slow_appending f \<Longrightarrow> \<exists>f'. slow_write_loop f bs n = (n + length bs, f') \<and>
    slow_appending f' \<and> content (s_os f') = content (s_os f) @ bs"
proof (induction bs arbitrary: f n)
  case (Cons b bs)
  obtain f1 where f1: "slow_writec f (sint b) = (0, f1)" "slow_appending f1"
      "content (s_os f1) = content (s_os f) @ [b]"
    using slow_writec_append [OF Cons.prems, of "sint b"] by auto
  from Cons.IH [OF f1(2), of "n + 1"] f1 show ?case by auto
qed simp

interpretation slow: byte_sink slow_appending "\<lambda>f. content (s_os f)" "\<lambda>f c. Some (slow_writec f c)"
  "\<lambda>f bs. Some (slow_write f bs)" "\<lambda>f. Some (slow_close f)"
proof unfold_locales
  fix f c assume "slow_appending f"
  then show "\<exists>f'. Some (slow_writec f c) = Some (0, f') \<and> slow_appending f' \<and>
      content (s_os f') = content (s_os f) @ [word_of_int c]"
    using slow_writec_append [of f c] by auto
next
  fix f and bs :: "byte list" assume "slow_appending f"
  then show "\<exists>n f'. Some (slow_write f bs) = Some (n, f') \<and> slow_appending f' \<and>
      content (s_os f') = content (s_os f) @ bs"
    using slow_write_loop_append [of f bs 0] by (auto simp: slow_write_def)
qed (simp add: slow_close_def slow_flush_def)

text \<open>A buffered file that is only appended to has one extent, from the start of its buffer.\<close>

definition one_extent :: "nat \<Rightarrow> write_data list" where
  "one_extent n = (if n = 0 then [] else [\<lparr>wpos = 0, wsz = n\<rparr>])"

definition appending :: "io61_file \<Rightarrow> bool" where
  "appending f \<longleftrightarrow> writer f \<and> f_abs f = length (content (fd f)) \<and> live (f_wbuf f) = one_extent (f_pos f) \<and>
     f_wsz f \<le> 1 \<and> (f_pos f = 0 \<longrightarrow> f_wsz f = 0)"

lemma appending_logical:
  assumes "appending f"
  shows "logical f = content (fd f) @ take (f_pos f) (f_buf f)" "length (logical f) = f_abs f + f_pos f"
    "unflushed f = f_pos f"
proof -
  have f: "length (f_buf f) = BLOCK" "f_pos f \<le> BLOCK" "f_abs f = length (content (fd f))"
      "live (f_wbuf f) = one_extent (f_pos f)"
    using assms by (auto simp: appending_def writer_def)
  have "(+) (f_abs f) ` covered (one_extent (f_pos f)) = {f_abs f..<f_abs f + f_pos f}"
    by (auto simp: one_extent_def image_add_atLeastLessThan)
  then have "logical f = overlay (content (fd f)) {f_abs f..<f_abs f + length (take (f_pos f) (f_buf f))}
      (\<lambda>q. f_buf f ! (q - f_abs f))"
    using f by (simp add: logical_def)
  also have "\<dots> = put_bytes (content (fd f)) (f_abs f) (take (f_pos f) (f_buf f))"
    unfolding put_bytes_overlay by (rule overlay_cong) (use f in auto)
  finally show "logical f = content (fd f) @ take (f_pos f) (f_buf f)" using f by (simp add: put_bytes_end)
  then show "length (logical f) = f_abs f + f_pos f" using f by simp
  show "unflushed f = f_pos f" using f by (simp add: unflushed_def one_extent_def)
qed

lemma appending_extents: "appending f \<Longrightarrow> extents (f_wbuf f) (one_extent (f_pos f))"
  by (metis appending_def writer_def)

lemma appending_wbuf:
  assumes "appending f"
  shows "f_wbuf f = one_extent (f_pos f) @ replicate (BLOCK - length (one_extent (f_pos f))) no_write"
  using appending_extents [OF assms] by (simp add: extents_def)

lemma BLOCK_Suc: "BLOCK = Suc (BLOCK - 1)"
  by (simp add: BLOCK_def)

lemma insert_append:
  assumes "appending f" "0 < n"
  shows "linear_insert f (f_pos f) n = Some (f\<lparr>f_wbuf := \<lparr>wpos = 0, wsz = f_pos f + n\<rparr> # replicate (BLOCK - 1) no_write\<rparr>)"
    "binary_insert f (f_pos f) n 0 (wbuf_index (int (f_wsz f))) None_side =
      Some (f\<lparr>f_wbuf := \<lparr>wpos = 0, wsz = f_pos f + n\<rparr> # replicate (BLOCK - 1) no_write, f_wsz := 1\<rparr>)"
proof -
  have rep: "replicate BLOCK no_write = no_write # replicate (BLOCK - 1) no_write"
    by (subst BLOCK_Suc) (simp only: replicate_Suc)
  obtain w where w: "f_wbuf f = w # replicate (BLOCK - 1) no_write" "wpos w = 0" "wsz w = f_pos f"
  proof (cases "f_pos f = 0")
    case True
    then show thesis using appending_wbuf [OF assms(1)] rep by (intro that [of no_write]) (simp_all add: one_extent_def)
  next
    case False
    then show thesis using appending_wbuf [OF assms(1)]
      by (intro that [of "\<lparr>wpos = 0, wsz = f_pos f\<rparr>"]) (simp_all add: one_extent_def)
  qed
  have w': "w\<lparr>wsz := f_pos f + n\<rparr> = \<lparr>wpos = 0, wsz = f_pos f + n\<rparr>" using w(2) by (cases w) simp
  show "linear_insert f (f_pos f) n = Some (f\<lparr>f_wbuf := \<lparr>wpos = 0, wsz = f_pos f + n\<rparr> # replicate (BLOCK - 1) no_write\<rparr>)"
    unfolding linear_insert_def
    by (subst linear_insert_loop.simps) (use w w' in \<open>auto simp: aget_def aset_def BLOCK_def\<close>)
  have wi: "wbuf_index (int (f_wsz f)) = 0" "f_wsz f = 0 \<or> f_wsz f = 1"
    using assms(1) by (auto simp: appending_def wbuf_index_def)
  have "binary_insert f (f_pos f) n 0 0 None_side =
      Some (f\<lparr>f_wbuf := \<lparr>wpos = 0, wsz = f_pos f + n\<rparr> # replicate (BLOCK - 1) no_write,
        f_wsz := (if f_wsz f = 0 then 1 else f_wsz f)\<rparr>)"
    by (subst binary_insert.simps) (use w w' in \<open>simp add: aget_def aset_def Let_def\<close>)
  then show "binary_insert f (f_pos f) n 0 (wbuf_index (int (f_wsz f))) None_side =
      Some (f\<lparr>f_wbuf := \<lparr>wpos = 0, wsz = f_pos f + n\<rparr> # replicate (BLOCK - 1) no_write, f_wsz := 1\<rparr>)"
    using wi by auto
qed


lemma live_one_extent [simp]:
  "live (\<lparr>wpos = 0, wsz = n\<rparr> # replicate k no_write) = one_extent n"
  by (cases k) (auto simp: live_def one_extent_def no_write_def)

lemma appending_writec_room:
  assumes "appending f" "f_pos f < BLOCK"
  shows "\<exists>f'. io61_writec f ch = Some (0, f') \<and> appending f' \<and> logical f' = logical f @ [word_of_int ch]"
proof -
  have w: "writer f" and len: "length (live (f_wbuf f)) < BLOCK"
    using assms(1) by (auto simp: appending_def one_extent_def BLOCK_def)
  obtain f' where f': "io61_writec f ch = Some (0, f')" "writer f'" "f_abs f' = f_abs f" "f_pos f' = f_pos f + 1"
      "logical f' = put_bytes (logical f) (f_abs f + f_pos f) [word_of_int ch]"
    using io61_writec_room [OF w assms(2) len] by blast
  have "f_wbuf f' = \<lparr>wpos = 0, wsz = f_pos f + 1\<rparr> # replicate (BLOCK - 1) no_write \<and> f_wsz f' = f_wsz f \<and> fd f' = fd f"
    using f'(1) assms(2) insert_append(1) [OF assms(1), of 1] by (auto simp: io61_writec_def split: bind_splits)
  then have "appending f'" using assms(1) f' by (simp add: appending_def)
  then show ?thesis using f' put_bytes_end [of _ "logical f"] appending_logical(2) [OF assms(1)] by simp
qed

lemma appending_writec:
  assumes "appending f"
  shows "\<exists>f'. io61_writec f ch = Some (0, f') \<and> appending f' \<and> logical f' = logical f @ [word_of_int ch]"
proof (cases "f_pos f = BLOCK")
  case True
  have w: "writer f" using assms by (simp add: appending_def)
  obtain g where g: "io61_writec f ch = io61_writec g ch" "writer g" "f_abs g = f_abs f + BLOCK" "f_pos g = 0"
      "f_wsz g = 0" "live (f_wbuf g) = []" "content (fd g) = logical f"
    using io61_writec_flushes [OF w True, of ch] appending_logical(3) [OF assms] True by auto
  have "appending g" using g appending_logical(2) [OF assms] True by (simp add: appending_def one_extent_def)
  from appending_writec_room [OF this, of ch] show ?thesis
    using g logical_flushed [OF g(6)] by (simp add: BLOCK_def)
next
  case False
  then show ?thesis using appending_writec_room [OF assms] assms by (simp add: appending_def writer_def)
qed

lemma appending_write:
  assumes a: "appending f" and bs: "bs \<noteq> []" "length (logical f) + length bs < 2 ^ 31"
  shows "\<exists>n f'. io61_write f bs = Some (n, f') \<and> appending f' \<and> logical f' = logical f @ bs"
proof (cases "f_pos f + length bs \<le> BLOCK")
  case True
  have w: "writer f" using a by (simp add: appending_def)
  obtain buf where buf: "memcpy_to (f_buf f) (f_pos f) bs = Some buf" "length buf = BLOCK"
      "\<And>q. q < BLOCK \<Longrightarrow> buf ! q = (if f_pos f \<le> q \<and> q < f_pos f + length bs then bs ! (q - f_pos f) else f_buf f ! q)"
    by (rule memcpy_to_Some [of "f_pos f" bs "f_buf f"]) (use w True in \<open>auto simp: writer_def\<close>)
  let ?f1 = "f\<lparr>f_buf := buf\<rparr>" and ?n = "length bs"
  let ?wb = "\<lparr>wpos = 0, wsz = f_pos f + ?n\<rparr> # replicate (BLOCK - 1) no_write"
  let ?f' = "f\<lparr>f_wbuf := ?wb, f_wsz := 1, f_buf := buf, f_pos := f_pos f + ?n\<rparr>"
  have a1: "appending ?f1" using a buf(2) appending_extents [OF a] by (simp add: appending_def writer_def)
  have "f\<lparr>f_buf := buf, f_wbuf := ?wb, f_wsz := 1, f_pos := f_pos f + ?n\<rparr> = ?f'" by (cases f) simp
  then have code: "io61_write f bs = Some (int ?n, ?f')"
    using insert_append(2) [OF a1, of ?n] bs(1) True buf(1) w
    by (simp add: io61_write_def writer_def Let_def le_diff_conv2 add.commute)
  have ex: "extents ?wb (one_extent (f_pos f + ?n))"
    using bs(1) True by (auto simp: extents_def one_extent_def extent_ok_def BLOCK_def)
  have "logical ?f' = put_bytes (logical f) (f_abs f + f_pos f) bs"
  proof (rule logical_put [OF _ ex buf(3) w True])
    show "covered (one_extent (f_pos f + ?n)) = covered (live (f_wbuf f)) \<union> {f_pos f..<f_pos f + ?n}"
      using a bs(1) by (auto simp: appending_def one_extent_def)
  qed
  moreover have "appending ?f'"
    using a bs(1) True buf(2) ex by (simp add: appending_def writer_def)
  ultimately show ?thesis using code put_bytes_end [of _ "logical f"] appending_logical(2) [OF a] by auto
next
  case False
  have w: "writer f" using a by (simp add: appending_def)
  obtain f' where f': "io61_write f bs = Some (int (unflushed f + length bs), f')" "writer f'"
      "f_wsz f' = length (live (f_wbuf f'))" "f_abs f' = f_abs f + f_pos f + length bs" "f_pos f' = 0"
      "live (f_wbuf f') = []" "logical f' = put_bytes (logical f) (f_abs f + f_pos f) bs"
    using io61_write_through [OF w, of bs] False bs(2) appending_logical(2) [OF a] by auto
  have lg: "logical f' = logical f @ bs" using f'(7) appending_logical(2) [OF a] by (simp add: put_bytes_end)
  then have "appending f'" using f' logical_flushed [OF f'(6)] appending_logical(2) [OF a]
    by (simp add: appending_def one_extent_def)
  then show ?thesis using f'(1) lg by blast
qed

interpretation io61: byte_sink appending logical io61_writec io61_write io61_close
  by unfold_locales (use appending_writec appending_write io61_close_writer in \<open>auto simp: appending_def\<close>)

interpretation io61: reversing reading left io61_readc io61_read mirrored "\<lambda>f. content (fd f)" io61_seek
  appending logical io61_writec io61_write io61_close
  by unfold_locales

interpretation slow: reversing slow_ok slow_rem "\<lambda>f. Some (slow_readc f)" slow_read
  slow_ok "\<lambda>f. content (s_os f)" "\<lambda>f p. Some (slow_seek f p)"
  slow_appending "\<lambda>f. content (s_os f)" "\<lambda>f c. Some (slow_writec f c)"
  "\<lambda>f bs. Some (slow_write f bs)" "\<lambda>f. Some (slow_close f)"
  by unfold_locales


section \<open>Properties\<close>

text \<open>\<open>io61_fdopen\<close> sets two fields and leaves the others as \<open>malloc\<close> returned them. In memory that happens to be
zero the result is a buffered file at the start of its file.\<close>

definition zeroed :: "io61_file \<Rightarrow> bool" where
  "zeroed f \<longleftrightarrow> f_abs f = 0 \<and> f_pos f = 0 \<and> f_sz f = 0 \<and> f_wsz f = 0 \<and> length (f_buf f) = BLOCK \<and>
     f_wbuf f = replicate BLOCK no_write"

definition opened :: "os_file \<Rightarrow> bool" where
  "opened s \<longleftrightarrow> \<not> broken s \<and> offset s = 0 \<and> length (content s) < 2 ^ 31"

lemma open_reader: "zeroed mem \<Longrightarrow> opened s \<Longrightarrow> mirrored (io61_fdopen mem s O_RDONLY)"
  by (simp add: zeroed_def opened_def io61_fdopen_def mirrored_def mirrors_def)

lemma open_writer: "zeroed mem \<Longrightarrow> opened s \<Longrightarrow> content s = [] \<Longrightarrow>
    appending (io61_fdopen mem s O_WRONLY) \<and> logical (io61_fdopen mem s O_WRONLY) = []"
  by (simp add: zeroed_def opened_def io61_fdopen_def appending_def writer_def one_extent_def logical_def)

lemma open_reader_left: "zeroed mem \<Longrightarrow> opened s \<Longrightarrow> left (io61_fdopen mem s O_RDONLY) = content s"
  by (simp add: zeroed_def opened_def io61_fdopen_def left_def)

definition zeroed_file :: "os_file \<Rightarrow> io61_file" where
  "zeroed_file s = \<lparr>fd = s, f_mode = 0, f_abs = 0, f_pos = 0, f_sz = 0, f_buf = replicate BLOCK 0, f_wsz = 0,
     f_wbuf = replicate BLOCK no_write\<rparr>"

lemma zeroed_file: "zeroed (zeroed_file s)"
  by (simp add: zeroed_def zeroed_file_def)

text \<open>C17. The copying programs of \<open>cache61\<close> copy: from a regular file that is read from its start to an empty
output file, both below 2 GB, \<open>cat61\<close>, \<open>blockcat61\<close> and \<open>randblockcat61\<close> leave a copy of the input and \<open>reverse61\<close> its
bytes in reverse order. This holds over the unbuffered library for the files its \<open>io61_fdopen\<close> opens, and over the
buffered one for files that satisfy its invariants with nothing read or written yet; its \<open>io61_fdopen\<close> gives
such files only if the memory it obtains is zero (\<open>open_reader\<close>, \<open>open_writer\<close>).\<close>

theorem io61_programs_copy:
  assumes s: "opened s" and t: "opened t" "content t = []"
    and inp: "mirrored inp" "left inp = content s" "content (fd inp) = content s"
    and outp: "appending outp" "logical outp = []"
  defines "sr \<equiv> slow_fdopen s" and "sw \<equiv> slow_fdopen t"
  shows "(\<exists>u. cat61 io61_readc io61_writec io61_close (2 ^ 64 - 1) inp outp = Some u \<and> content u = content s) \<and>
    (\<exists>u. blockcat61 io61_read io61_write io61_close block_size inp outp = Some u \<and> content u = content s) \<and>
    (\<exists>u. randblockcat61 io61_read io61_write io61_close rand block_size inp outp = Some u \<and> content u = content s) \<and>
    (\<exists>u. reverse61 io61_filesize io61_seek io61_readc io61_writec io61_close (2 ^ 64 - 1) inp outp = Some u \<and>
      content u = rev (content s)) \<and>
    (\<exists>u. cat61 (\<lambda>f. Some (slow_readc f)) (\<lambda>f c. Some (slow_writec f c)) (\<lambda>f. Some (slow_close f)) (2 ^ 64 - 1) sr sw = Some u \<and>
      content u = content s) \<and>
    (\<exists>u. blockcat61 slow_read (\<lambda>f bs. Some (slow_write f bs)) (\<lambda>f. Some (slow_close f)) block_size sr sw = Some u \<and>
      content u = content s) \<and>
    (\<exists>u. randblockcat61 slow_read (\<lambda>f bs. Some (slow_write f bs)) (\<lambda>f. Some (slow_close f)) rand block_size sr sw = Some u \<and>
      content u = content s) \<and>
    (\<exists>u. reverse61 (\<lambda>f. int (length (content (s_os f)))) (\<lambda>f p. Some (slow_seek f p)) (\<lambda>f. Some (slow_readc f))
        (\<lambda>f c. Some (slow_writec f c)) (\<lambda>f. Some (slow_close f)) (2 ^ 64 - 1) sr sw = Some u \<and> content u = rev (content s))"
proof -
  have r: "reading inp" using inp(1) by (rule mirrored_reading)
  have small: "length (logical outp) + length (left inp) < 2 ^ 31" using s inp outp by (simp add: opened_def)
  have tk: "take (2 ^ 64 - 1) (content s) = content s" using s by (simp add: opened_def)
  have sr: "slow_ok sr" "slow_rem sr = content s" "content (s_os sr) = content s"
    using s by (simp_all add: opened_def sr_def slow_ok_def slow_rem_def slow_fdopen_def)
  have sw: "slow_appending sw" "content (s_os sw) = []" using t by (simp_all add: opened_def sw_def slow_appending_def slow_fdopen_def)
  have ssmall: "length (content (s_os sw)) + length (slow_rem sr) < 2 ^ 31" using s sr sw by (simp add: opened_def)
  show ?thesis
    using io61.cat61_copies [OF r outp(1) small, of "2 ^ 64 - 1"] io61.blockcat61_copies [OF r outp(1) small]
      io61.reverse61_reverses [OF inp(1) outp(1), of io61_filesize] small inp outp tk
      slow.cat61_copies [OF sr(1) sw(1) ssmall, of "2 ^ 64 - 1"] slow.blockcat61_copies [OF sr(1) sw(1) ssmall]
      slow.reverse61_reverses [OF sr(1) sw(1), of "\<lambda>f. int (length (content (s_os f)))"] ssmall sr sw
    by (simp add: io61_filesize_def)
qed

theorem io61_programs_copy_witness:
  "\<exists>u. reverse61 io61_filesize io61_seek io61_readc io61_writec io61_close (2 ^ 64 - 1)
      (io61_fdopen (zeroed_file \<lparr>content = [], offset = 0, broken = True\<rparr>) \<lparr>content = [1, 2, 3], offset = 0, broken = False\<rparr> O_RDONLY)
      (io61_fdopen (zeroed_file \<lparr>content = [], offset = 0, broken = True\<rparr>) \<lparr>content = [], offset = 0, broken = False\<rparr> O_WRONLY) =
    Some u \<and> content u = [3, 2, 1]"
proof -
  let ?s = "\<lparr>content = [1, 2, 3], offset = 0, broken = False\<rparr>" and ?t = "\<lparr>content = [], offset = 0, broken = False\<rparr>"
  let ?m = "zeroed_file \<lparr>content = [], offset = 0, broken = True\<rparr>"
  let ?i = "io61_fdopen ?m ?s O_RDONLY" and ?o = "io61_fdopen ?m ?t O_WRONLY"
  have s: "opened ?s" and t: "opened ?t" "content ?t = []" by (simp_all add: opened_def)
  have i: "mirrored ?i" "left ?i = content ?s" "content (fd ?i) = content ?s"
    using open_reader [OF zeroed_file s] open_reader_left [OF zeroed_file s] by (simp_all add: io61_fdopen_def)
  have out: "appending ?o" "logical ?o = []" using open_writer [OF zeroed_file t] by simp_all
  show ?thesis using io61_programs_copy [OF s t i out] by simp
qed

text \<open>A buffered and an unbuffered file on the same bytes at the same position.\<close>

definition same_position :: "io61_file \<Rightarrow> slow_file \<Rightarrow> bool" where
  "same_position f s \<longleftrightarrow> mirrored f \<and> slow_ok s \<and> content (s_os s) = content (fd f) \<and> slow_rem s = left f"

text \<open>C16. The buffered library reads as the unbuffered one does. While no read has met the end of the file,
a buffered file and an unbuffered one at the same position return the same from \<open>readc\<close>, \<open>read\<close> and
\<open>seek\<close> (to a position within the file), and stay at the same position; this includes what they return when
they do meet the end.\<close>

theorem io61_reads_as_slow:
  assumes "same_position f s"
  shows "(\<exists>f'. io61_readc f = Some (fst (slow_readc s), f') \<and>
      (left f \<noteq> [] \<longrightarrow> same_position f' (snd (slow_readc s)))) \<and>
    (\<exists>k bs f' s'. io61_read f n = Some (k, bs, f') \<and> slow_read s n = Some (k, bs, s') \<and>
      (n < length (left f) \<longrightarrow> same_position f' s')) \<and>
    (0 \<le> p \<and> p \<le> int (length (content (fd f))) \<longrightarrow>
      (\<exists>f'. io61_seek f p = Some (0, f') \<and> fst (slow_seek s p) = 0 \<and> same_position f' (snd (slow_seek s p))))"
proof -
  note f = assms [unfolded same_position_def]
  have rf: "reading f" using f mirrored_reading by blast
  have "\<exists>f'. io61_readc f = Some (fst (slow_readc s), f') \<and>
      (left f \<noteq> [] \<longrightarrow> same_position f' (snd (slow_readc s)))"
  proof (cases "left f")
    case Nil
    then show ?thesis using io61.readc_end [OF rf Nil] f slow_readc_rem [of s] by simp
  next
    case (Cons b bs)
    obtain f' where f': "io61_readc f = Some (uint b, f')" "left f' = bs" using io61.readc_more [OF rf Cons] by blast
    have "slow_readc s = (uint b, at_byte s 1)" using f Cons slow_readc_rem [of s] by simp
    then show ?thesis using f' io61.readc_keeps [OF _ f'(1)] f Cons
      by (simp add: same_position_def slow_at_facts)
  qed
  moreover have "\<exists>k bs f' s'. io61_read f n = Some (k, bs, f') \<and> slow_read s n = Some (k, bs, s') \<and>
      (n < length (left f) \<longrightarrow> same_position f' s')"
  proof -
    obtain f' where f': "io61_read f n = Some (int (min n (length (left f))), take n (left f), f')"
        "left f' = drop n (left f)"
      using io61.read_block [OF rf] by blast
    moreover have "slow_read s n = Some (int (min n (length (left f))), take n (left f),
        at_byte s (min n (length (left f))))"
      using f slow_read_rem [of s n] by simp
    ultimately show ?thesis using io61.read_keeps [OF _ _ f'(1)] f
      by (simp add: same_position_def slow_at_facts)
  qed
  moreover have "\<exists>f'. io61_seek f p = Some (0, f') \<and> fst (slow_seek s p) = 0 \<and> same_position f' (snd (slow_seek s p))"
    if "0 \<le> p" "p \<le> int (length (content (fd f)))"
    using io61.seek_to [of f p] slow.seek_to [of s p] that f by (cases "slow_seek s p") (auto simp: same_position_def)
  ultimately show ?thesis by blast
qed

theorem io61_reads_as_slow_witness:
  "let os = \<lparr>content = [1, 2, 3], offset = 0, broken = False\<rparr>;
       f = io61_fdopen (zeroed_file os) os O_RDONLY; s = slow_fdopen os
   in \<exists>k bs f' s'. io61_read f 2 = Some (k, bs, f') \<and> slow_read s 2 = Some (k, bs, s') \<and> same_position f' s'"
proof -
  let ?os = "\<lparr>content = [1, 2, 3], offset = 0, broken = False\<rparr>"
  have "opened ?os" by (simp add: opened_def)
  then have "same_position (io61_fdopen (zeroed_file ?os) ?os O_RDONLY) (slow_fdopen ?os)"
    using open_reader [OF zeroed_file, of ?os] open_reader_left [OF zeroed_file, of ?os]
    by (simp add: same_position_def slow_ok_def slow_rem_def slow_fdopen_def io61_fdopen_def)
  from io61_reads_as_slow [OF this, of 2 0] show ?thesis
    using open_reader_left [OF zeroed_file \<open>opened ?os\<close>] by (simp add: Let_def)
qed



text \<open>A \<open>writec\<close> with a full buffer that is not unflushed as a whole flushes it and returns -1 without writing its
character; a \<open>write\<close> that flushes earlier bytes counts them in its result.\<close>

lemma io61_writec_loses:
  assumes "writer f" "f_pos f = BLOCK" "unflushed f \<noteq> BLOCK"
  shows "\<exists>f'. io61_writec f ch = Some (-1, f') \<and> content (fd f') = logical f"
  using io61_writec_full [OF assms(1,2), of ch] assms(3) by simp

lemma io61_write_counts_flushed:
  assumes "writer f" "BLOCK < f_pos f + length bs" "f_abs f + f_pos f < 2 ^ 31"
  shows "\<exists>f'. io61_write f bs = Some (int (unflushed f + length bs), f') \<and>
    logical f' = put_bytes (logical f) (f_abs f + f_pos f) bs"
  using io61_write_through [OF assms] by blast

text \<open>A \<open>readc\<close> that meets the end of a file of at least \<open>REVERSE\<close> bytes fills the start of the buffer
with the last \<open>REVERSE\<close> bytes of the file and forgets to say so: after seeking back into the buffer,
\<open>readc\<close> returns those bytes instead of the ones at the position.\<close>

theorem io61_stale_after_eof:
  assumes f: "mirrored f" "left f = []" "REVERSE \<le> length (content (fd f))"
    and q: "q < REVERSE" "q < f_sz f"
  shows "\<exists>f1 f2 f3. io61_readc f = Some (-1, f1) \<and> io61_seek f1 (int (f_abs f + q)) = Some (0, f2) \<and>
    io61_readc f2 = Some (uint (content (fd f) ! (length (content (fd f)) - REVERSE + q)), f3)"
proof -
  let ?c = "content (fd f)"
  have m: "mirrors f 0" "f_mode f = O_RDONLY" using f(1) by (simp_all add: mirrored_def)
  have "f_pos f = f_sz f" "f_abs f + f_pos f = length ?c"
    using m(1) f(2) by (auto simp: mirrors_def left_def split: if_splits)
  moreover have "buffered f" using m(1) by (auto simp: buffered_def intro: mirrors_mono)
  ultimately obtain f1 where f1: "io61_readc f = Some (-1, f1)" "f_sz f1 = f_sz f" "f_abs f1 = f_abs f"
      "f_mode f1 = f_mode f" "length (f_buf f1) = BLOCK" "\<forall>q < REVERSE. f_buf f1 ! q = ?c ! (length ?c - REVERSE + q)"
    using io61_readc_empty [of f] f(2,3) by (auto simp: buffered_def mirrors_def)
  let ?f2 = "f1\<lparr>fd := (fd f1)\<lparr>offset := f_abs f + f_sz f\<rparr>, f_pos := q\<rparr>"
  have "f_abs f + q < 2 ^ 63" using m(1) q(2) by (simp add: mirrors_def)
  then have sz: "size_of_int (int (f_abs f + q)) = f_abs f + q" by (intro size_of_int_nat) simp
  have "io61_seek f1 (int (f_abs f + q)) = Some (0, ?f2)"
    using f1(2-4) m(2) sz q(2) by (simp add: io61_seek_def Let_def O_RDONLY_def)
  moreover have "io61_readc ?f2 = Some (uint (?c ! (length ?c - REVERSE + q)), ?f2\<lparr>f_pos := q + 1\<rparr>)"
    using f1(2,5,6) q block_sizes(1) by (simp add: io61_readc_def next_char_def)
  ultimately show ?thesis using f1(1) by blast
qed

text \<open>A file of \<open>REVERSE\<close> sevens and \<open>REVERSE\<close> nines, read to its end.\<close>

definition sample_read :: io61_file where
  "sample_read = (let c = replicate REVERSE 7 @ replicate REVERSE 9 in
     \<lparr>fd = \<lparr>content = c, offset = BLOCK, broken = False\<rparr>, f_mode = O_RDONLY, f_abs = 0, f_pos = BLOCK,
      f_sz = BLOCK, f_buf = c, f_wsz = 0, f_wbuf = replicate BLOCK no_write\<rparr>)"

theorem io61_stale_after_eof_witness:
  "\<exists>f1 f2 f3. io61_readc sample_read = Some (-1, f1) \<and> io61_seek f1 0 = Some (0, f2) \<and> io61_readc f2 = Some (9, f3) \<and>
    content (fd sample_read) ! 0 = 7"
proof -
  have m: "mirrored sample_read" "left sample_read = []"
    using block_sizes by (auto simp: mirrored_def mirrors_def left_def sample_read_def Let_def)
  have c: "length (content (fd sample_read)) = BLOCK" "content (fd sample_read) ! REVERSE = 9"
      "content (fd sample_read) ! 0 = 7" "f_abs sample_read = 0" "f_sz sample_read = BLOCK"
    using block_sizes by (simp_all add: sample_read_def Let_def nth_append)
  have "BLOCK - REVERSE = REVERSE" using block_sizes(4) by simp
  then show ?thesis using io61_stale_after_eof [OF m, of 0] c block_sizes by auto
qed

end
