(* ===== verification/DbDefs.thy ===== *)
theory DbDefs
  imports CPrelude "HOL-Library.List_Lexorder" "HOL-Library.Char_ord"
begin

text \<open>
  The name-value store of \<open>database/db.c\<close>: a binary search tree of nodes on the heap with one
  reader-writer lock per node, as one thread runs it. Addresses are natural numbers, 0 is \<open>NULL\<close>, and
  \<open>head\<close> is the node at address 1. Besides the nodes the state holds the locks the thread has. Reading
  a field needs the lock of its node and writing one needs it in write mode; taking a lock the thread
  already has, releasing one it does not have, and destroying a node whose lock it has are errors.
  Errors are \<open>None\<close>. \<open>malloc\<close> does not fail. \<open>strcmp\<close> is the order on strings.
\<close>

datatype locktype = l_read | l_write

record db_node =
  name :: string
  val :: string
  lchild :: nat
  rchild :: nat

record db =
  nodes :: "nat \<Rightarrow> db_node option"
  held :: "nat \<Rightarrow> locktype option"
  unused :: nat

definition MAXLEN :: nat where "MAXLEN = 256"

definition head :: nat where "head = 1"

text \<open>The database at the start: the root alone, its name and value empty.\<close>

definition db_start :: db where
  "db_start = \<lparr>nodes = [head \<mapsto> \<lparr>name = [], val = [], lchild = 0, rchild = 0\<rparr>], held = Map.empty, unused = 2\<rparr>"

section \<open>Locks and fields\<close>

definition lock :: "locktype \<Rightarrow> nat \<Rightarrow> db \<Rightarrow> db option" where
  "lock lt p s = (if nodes s p \<noteq> None \<and> held s p = None then Some (s\<lparr>held := (held s)(p \<mapsto> lt)\<rparr>) else None)"

definition unlock :: "nat \<Rightarrow> db \<Rightarrow> db option" where
  "unlock p s = (if nodes s p \<noteq> None \<and> held s p \<noteq> None then Some (s\<lparr>held := (held s)(p := None)\<rparr>) else None)"

definition get_node :: "db \<Rightarrow> nat \<Rightarrow> db_node option" where
  "get_node s p = (if held s p \<noteq> None then nodes s p else None)"

definition set_node :: "nat \<Rightarrow> db_node \<Rightarrow> db \<Rightarrow> db option" where
  "set_node p n s = (if nodes s p \<noteq> None \<and> held s p = Some l_write
     then Some (s\<lparr>nodes := (nodes s)(p \<mapsto> n)\<rparr>) else None)"

text \<open>A child of a node, and the pointer to it: \<open>node_t **\<close> is a node and a branch.\<close>

datatype branch = left | right

fun child :: "branch \<Rightarrow> db_node \<Rightarrow> nat" where
  "child left n = lchild n"
| "child right n = rchild n"

fun set_child :: "branch \<Rightarrow> nat \<Rightarrow> db_node \<Rightarrow> db_node" where
  "set_child left p n = n\<lparr>lchild := p\<rparr>"
| "set_child right p n = n\<lparr>rchild := p\<rparr>"

definition side_of :: "string \<Rightarrow> db_node \<Rightarrow> branch" where
  "side_of nm n = (if nm < name n then left else right)"

section \<open>Nodes\<close>

text \<open>\<open>snprintf(buf, len, "%s", str)\<close>.\<close>

definition snprintf :: "nat \<Rightarrow> string \<Rightarrow> string" where
  "snprintf len str = take (len - 1) str"

definition node_constructor :: "string \<Rightarrow> string \<Rightarrow> nat \<Rightarrow> nat \<Rightarrow> db \<Rightarrow> nat \<times> db" where
  "node_constructor arg_name arg_value arg_left arg_right s =
     (if length arg_name > MAXLEN \<or> length arg_value > MAXLEN then (0, s)
      else (unused s, s\<lparr>nodes := (nodes s)(unused s \<mapsto> \<lparr>name = snprintf MAXLEN arg_name,
        val = snprintf MAXLEN arg_value, lchild = arg_left, rchild = arg_right\<rparr>), unused := unused s + 1\<rparr>))"

definition node_destructor :: "nat \<Rightarrow> db \<Rightarrow> db option" where
  "node_destructor p s = (if nodes s p \<noteq> None \<and> held s p = None
     then Some (s\<lparr>nodes := (nodes s)(p := None)\<rparr>) else None)"

section \<open>The operations\<close>

text \<open>The parent is a result; it stays locked when the caller wants it.\<close>

partial_function (option) search :: "string \<Rightarrow> nat \<Rightarrow> bool \<Rightarrow> locktype \<Rightarrow> db \<Rightarrow> (nat \<times> nat \<times> db) option" where
  "search nm parent parentpp lt s = do {
     pn \<leftarrow> get_node s parent;
     let next = child (side_of nm pn) pn;
     if next = 0 then
       if parentpp then Some (0, parent, s)
       else do { s \<leftarrow> unlock parent s; Some (0, 0, s) }
     else do {
       s \<leftarrow> lock lt next s;
       nn \<leftarrow> get_node s next;
       if nm = name nn then
         if parentpp then Some (next, parent, s)
         else do { s \<leftarrow> unlock parent s; Some (next, 0, s) }
       else do {
         s \<leftarrow> unlock parent s;
         search nm next parentpp lt s } } }"

definition db_query :: "string \<Rightarrow> nat \<Rightarrow> db \<Rightarrow> (string \<times> db) option" where
  "db_query nm len s = do {
     s \<leftarrow> lock l_write head s;
     (target, parent, s) \<leftarrow> search nm head False l_read s;
     if target = 0 then Some (snprintf len ''not found'', s)
     else do {
       n \<leftarrow> get_node s target;
       s \<leftarrow> unlock target s;
       Some (snprintf len (val n), s) } }"

definition db_add :: "string \<Rightarrow> string \<Rightarrow> db \<Rightarrow> (bool \<times> db) option" where
  "db_add nm value s = do {
     s \<leftarrow> lock l_write head s;
     (target, parent, s) \<leftarrow> search nm head True l_write s;
     if target \<noteq> 0 then do {
       s \<leftarrow> unlock target s;
       s \<leftarrow> unlock parent s;
       Some (False, s) }
     else do {
       let (newnode, s) = node_constructor nm value 0 0 s;
       pn \<leftarrow> get_node s parent;
       s \<leftarrow> set_node parent (set_child (side_of nm pn) newnode pn) s;
       s \<leftarrow> unlock parent s;
       Some (True, s) } }"

partial_function (option) min_loop :: "nat \<times> branch \<Rightarrow> nat \<Rightarrow> db \<Rightarrow> ((nat \<times> branch) \<times> nat \<times> db) option" where
  "min_loop pnext next s = do {
     n \<leftarrow> get_node s next;
     if lchild n \<noteq> 0 then do {
       let nextl = lchild n;
       s \<leftarrow> lock l_write nextl s;
       s \<leftarrow> unlock next s;
       min_loop (next, left) nextl s }
     else Some (pnext, next, s) }"

text \<open>\<open>*pnext = p\<close>. The node the pointer points into may have been unlocked by then.\<close>

definition store_child :: "nat \<times> branch \<Rightarrow> nat \<Rightarrow> db \<Rightarrow> db option" where
  "store_child pnext p s = (case nodes s (fst pnext) of None \<Rightarrow> None
     | Some n \<Rightarrow> Some (s\<lparr>nodes := (nodes s)(fst pnext \<mapsto> set_child (snd pnext) p n)\<rparr>))"

definition db_remove :: "string \<Rightarrow> db \<Rightarrow> (bool \<times> db) option" where
  "db_remove nm s = do {
     s \<leftarrow> lock l_write head s;
     (dnode, parent, s) \<leftarrow> search nm head True l_write s;
     if dnode = 0 then do { s \<leftarrow> unlock parent s; Some (False, s) }
     else do {
       d \<leftarrow> get_node s dnode;
       pn \<leftarrow> get_node s parent;
       if rchild d = 0 then do {
         s \<leftarrow> set_node parent (set_child (side_of (name d) pn) (lchild d) pn) s;
         s \<leftarrow> unlock parent s;
         s \<leftarrow> unlock dnode s;
         s \<leftarrow> node_destructor dnode s;
         Some (True, s) }
       else if lchild d = 0 then do {
         s \<leftarrow> set_node parent (set_child (side_of (name d) pn) (rchild d) pn) s;
         s \<leftarrow> unlock parent s;
         s \<leftarrow> unlock dnode s;
         s \<leftarrow> node_destructor dnode s;
         Some (True, s) }
       else do {
         s \<leftarrow> lock l_write (rchild d) s;
         (pnext, next, s) \<leftarrow> min_loop (dnode, right) (rchild d) s;
         n \<leftarrow> get_node s next;
         d \<leftarrow> get_node s dnode;
         s \<leftarrow> set_node dnode (d\<lparr>name := snprintf MAXLEN (name n), val := snprintf MAXLEN (val n)\<rparr>) s;
         s \<leftarrow> store_child pnext (rchild n) s;
         s \<leftarrow> unlock parent s;
         s \<leftarrow> unlock dnode s;
         s \<leftarrow> unlock next s;
         s \<leftarrow> node_destructor next s;
         Some (True, s) } } }"

section \<open>Printing and destroying the tree\<close>

text \<open>These run without locks. The output is its lines.\<close>

definition print_spaces :: "nat \<Rightarrow> string" where
  "print_spaces lvl = replicate lvl CHR '' ''"

partial_function (option) db_print_recurs :: "db \<Rightarrow> nat \<Rightarrow> nat \<Rightarrow> string list option" where
  "db_print_recurs s p lvl =
     (if p = 0 then Some [print_spaces lvl @ ''(null)'']
      else do {
        n \<leftarrow> nodes s p;
        l \<leftarrow> db_print_recurs s (lchild n) (lvl + 1);
        r \<leftarrow> db_print_recurs s (rchild n) (lvl + 1);
        Some ((print_spaces lvl @ (if p = head then ''(root)'' else name n @ '' '' @ val n)) # l @ r) })"


text \<open>Where the output goes. \<open>can_open\<close> says which files can be written. Without a file the result is -1.\<close>

datatype dest = Stdout | Out string

definition db_print :: "(string \<Rightarrow> bool) \<Rightarrow> string option \<Rightarrow> db \<Rightarrow> (int \<times> (dest \<times> string list) option) option" where
  "db_print can_open filename s =
     (let f = dropWhile isspace (case filename of None \<Rightarrow> [] | Some f \<Rightarrow> f)
      in if filename = None \<or> f = [] then do { ls \<leftarrow> db_print_recurs s head 0; Some (0, Some (Stdout, ls)) }
        else if \<not> can_open f then Some (- 1, None)
        else do { ls \<leftarrow> db_print_recurs s head 0; Some (0, Some (Out f, ls)) })"

partial_function (option) db_cleanup_recurs :: "nat \<Rightarrow> db \<Rightarrow> db option" where
  "db_cleanup_recurs p s =
     (if p = 0 then Some s
      else do {
        n \<leftarrow> nodes s p;
        s \<leftarrow> db_cleanup_recurs (lchild n) s;
        s \<leftarrow> db_cleanup_recurs (rchild n) s;
        node_destructor p s })"

definition db_cleanup :: "db \<Rightarrow> db option" where
  "db_cleanup s = do {
     n \<leftarrow> nodes s head;
     s \<leftarrow> db_cleanup_recurs (lchild n) s;
     n \<leftarrow> nodes s head;
     db_cleanup_recurs (rchild n) s }"

section \<open>Commands\<close>

text \<open>\<open>sscanf\<close> with \<open>%255s\<close>: the word and the rest of the string.\<close>

definition scan_word :: "string \<Rightarrow> string \<times> string" where
  "scan_word str = (let str = dropWhile isspace str; w = take 255 (takeWhile (\<lambda>c. \<not> isspace c) str)
     in (w, drop (length w) str))"

text \<open>The commands that need no file.\<close>

definition interpret_simple :: "string \<Rightarrow> nat \<Rightarrow> db \<Rightarrow> (string \<times> db) option" where
  "interpret_simple command len s =
     (if length command \<le> 1 then Some (snprintf len ''ill-formed command'', s)
      else if command ! 0 = CHR ''q'' then
        let (nm, rest) = scan_word (drop 1 command)
        in if nm = [] then Some (snprintf len ''ill-formed command'', s)
          else do {
            (response, s) \<leftarrow> db_query nm len s;
            Some (if response = [] then snprintf len ''not found'' else response, s) }
      else if command ! 0 = CHR ''a'' then
        let (nm, rest) = scan_word (drop 1 command); (value, rest) = scan_word rest
        in if nm = [] \<or> value = [] then Some (snprintf len ''ill-formed command'', s)
          else do {
            (added, s) \<leftarrow> db_add nm value s;
            Some (snprintf len (if added then ''added'' else ''already in database''), s) }
      else if command ! 0 = CHR ''d'' then
        let (nm, rest) = scan_word (drop 1 command)
        in if nm = [] then Some (snprintf len ''ill-formed command'', s)
          else do {
            (removed, s) \<leftarrow> db_remove nm s;
            Some (snprintf len (if removed then ''removed'' else ''not in database''), s) }
      else Some (snprintf len ''ill-formed command'', s))"

text \<open>A sequence of commands, as \<open>fgets\<close> yields them from a file; \<open>files\<close> are the readable files. A file
may name itself, and then the command never ends. The response is the last one.\<close>

partial_function (option) interpret_commands ::
    "(string \<Rightarrow> string list option) \<Rightarrow> nat \<Rightarrow> string list \<Rightarrow> string \<Rightarrow> db \<Rightarrow> (string \<times> db) option" where
  "interpret_commands files len commands response s = (case commands of [] \<Rightarrow> Some (response, s)
     | command # commands \<Rightarrow> do {
         (response, s) \<leftarrow>
           (if length command > 1 \<and> command ! 0 = CHR ''f'' then
              let (nm, rest) = scan_word (drop 1 command)
              in if nm = [] then Some (snprintf len ''ill-formed command'', s)
                else case files nm of None \<Rightarrow> Some (snprintf len ''bad file name'', s)
                  | Some lines \<Rightarrow> do {
                      (r, s) \<leftarrow> interpret_commands files len lines response s;
                      Some (snprintf len ''file processed'', s) }
            else interpret_simple command len s);
         interpret_commands files len commands response s })"

definition interpret_command :: "(string \<Rightarrow> string list option) \<Rightarrow> nat \<Rightarrow> string \<Rightarrow> string \<Rightarrow> db \<Rightarrow> (string \<times> db) option" where
  "interpret_command files len command response s = interpret_commands files len [command] response s"

end
