(* ===== verification/DbTree.thy ===== *)
theory DbTree
  imports DbDefs
begin

text \<open>
  The tree the nodes of the database form: which tree of addresses a pointer stands for (\<open>reps\<close>), where
  a search ends in it, and what replacing a subtree and taking out the least node do to it, on the heap
  and to the set of nodes and their order.
\<close>

section \<open>Trees in the heap\<close>

datatype shape = Tip | Fork shape nat shape

fun addrs :: "shape \<Rightarrow> nat set" where
  "addrs Tip = {}"
| "addrs (Fork l a r) = insert a (addrs l \<union> addrs r)"

fun reps :: "(nat \<Rightarrow> db_node option) \<Rightarrow> nat \<Rightarrow> shape \<Rightarrow> bool" where
  "reps N p Tip \<longleftrightarrow> p = 0"
| "reps N p (Fork l a r) \<longleftrightarrow> p = a \<and> a \<noteq> 0 \<and>
     (case N a of None \<Rightarrow> False | Some n \<Rightarrow> reps N (lchild n) l \<and> reps N (rchild n) r)"

lemma reps_cong: "(\<And>a. a \<in> addrs t \<Longrightarrow> N' a = N a) \<Longrightarrow> reps N' p t = reps N p t"
  by (induction t arbitrary: p) (auto split: option.splits)

lemma reps_other [simp]: "q \<notin> addrs t \<Longrightarrow> reps (N(q := v)) p t = reps N p t"
  by (rule reps_cong) auto

lemma reps_node: "reps N p t \<Longrightarrow> a \<in> addrs t \<Longrightarrow> a \<noteq> 0 \<and> N a \<noteq> None"
  by (induction t arbitrary: p) (auto split: option.splits)

lemma reps_zero: "reps N p t \<Longrightarrow> p = 0 \<longleftrightarrow> t = Tip"
  by (cases t) auto

section \<open>Searching\<close>

text \<open>\<open>k\<close> is the name at an address. The search for \<open>x\<close> below the node \<open>q\<close> on its branch \<open>d\<close> ends at a node,
or at 0, which hangs at a node and a branch.\<close>

fun find :: "(nat \<Rightarrow> string) \<Rightarrow> string \<Rightarrow> nat \<Rightarrow> branch \<Rightarrow> shape \<Rightarrow> nat \<times> nat \<times> branch" where
  "find k x q d Tip = (0, q, d)"
| "find k x q d (Fork l a r) = (if x = k a then (a, q, d)
     else if x < k a then find k x a left l else find k x a right r)"

fun sub :: "(nat \<Rightarrow> string) \<Rightarrow> string \<Rightarrow> shape \<Rightarrow> shape" where
  "sub k x Tip = Tip"
| "sub k x (Fork l a r) = (if x = k a then Fork l a r else if x < k a then sub k x l else sub k x r)"

fun upd :: "(nat \<Rightarrow> string) \<Rightarrow> string \<Rightarrow> shape \<Rightarrow> shape \<Rightarrow> shape" where
  "upd k x s Tip = s"
| "upd k x s (Fork l a r) = (if x = k a then s
     else if x < k a then Fork (upd k x s l) a r else Fork l a (upd k x s r))"

fun bst :: "(nat \<Rightarrow> string) \<Rightarrow> shape \<Rightarrow> bool" where
  "bst k Tip \<longleftrightarrow> True"
| "bst k (Fork l a r) \<longleftrightarrow> bst k l \<and> bst k r \<and> (\<forall>b\<in>addrs l. k b < k a) \<and> (\<forall>b\<in>addrs r. k a < k b)"

lemma find_place: "find k x q d t = (a, q', d') \<Longrightarrow> q' = q \<and> d' = d \<or> q' \<in> addrs t"
  by (induction t arbitrary: q d) (auto split: if_splits)

lemma find_sub: "find k x q d t = (a, q', d') \<Longrightarrow> 0 \<notin> addrs t \<Longrightarrow>
    a = (case sub k x t of Tip \<Rightarrow> 0 | Fork l b r \<Rightarrow> b)"
  by (induction t arbitrary: q d) (auto split: if_splits)

lemma sub_subset: "addrs (sub k x t) \<subseteq> addrs t"
  by (induction t) auto

lemma bst_sub: "bst k t \<Longrightarrow> bst k (sub k x t)"
  by (induction t) auto

lemma sub_key: "sub k x t = Fork l a r \<Longrightarrow> k a = x"
  by (induction t) (auto split: if_splits)

lemma sub_Tip: "bst k t \<Longrightarrow> sub k x t = Tip \<longleftrightarrow> (\<forall>a\<in>addrs t. k a \<noteq> x)"
  by (induction t) (auto dest: order_less_trans)

lemma bst_cong: "(\<And>b. b \<in> addrs t \<Longrightarrow> k' b = k b) \<Longrightarrow> bst k' t = bst k t"
  by (induction t) auto

lemma bst_disjoint: "bst k (Fork l a r) \<Longrightarrow>
    a \<notin> addrs l \<and> a \<notin> addrs r \<and> addrs l \<inter> addrs r = {}"
  by (fastforce dest: order_less_trans)

lemma bst_inj: "bst k t \<Longrightarrow> a \<in> addrs t \<Longrightarrow> b \<in> addrs t \<Longrightarrow> k a = k b \<Longrightarrow> a = b"
  by (induction t) (fastforce dest: order_less_trans)+

text \<open>The three cases of a step down the tree.\<close>

lemma fork_less [simp]:
  assumes "x < k a"
  shows "find k x q d (Fork l a r) = find k x a left l" "sub k x (Fork l a r) = sub k x l"
    "upd k x s (Fork l a r) = Fork (upd k x s l) a r"
  using assms by auto

lemma fork_greater [simp]:
  assumes "k a < x"
  shows "find k x q d (Fork l a r) = find k x a right r" "sub k x (Fork l a r) = sub k x r"
    "upd k x s (Fork l a r) = Fork l a (upd k x s r)"
  using assms by auto

lemma fork_equal [simp]:
  "find k (k a) q d (Fork l a r) = (a, q, d)" "sub k (k a) (Fork l a r) = Fork l a r" "upd k (k a) s (Fork l a r) = s"
  by auto

declare find.simps(2) [simp del] sub.simps(2) [simp del] upd.simps(2) [simp del]

lemma find_side: "find k x q d t = (a, q', d') \<Longrightarrow> bst k t \<Longrightarrow> d = (if x < k q then left else right) \<Longrightarrow>
    d' = (if x < k q' then left else right)"
proof (induction t arbitrary: q d)
  case (Fork l b r)
  show ?case
  proof (cases x "k b" rule: linorder_cases)
    case less
    then show ?thesis using Fork.IH(1) [of b left] Fork.prems less by (simp add: less_imp_not_less)
  next
    case greater
    then show ?thesis using Fork.IH(2) [of b right] Fork.prems greater by (simp add: less_imp_not_less)
  qed (use Fork.prems in auto)
qed simp

lemma sub_unique: "bst k t \<Longrightarrow> sub k x t = Fork l a r \<Longrightarrow> b \<in> addrs t \<Longrightarrow> k b = x \<longleftrightarrow> b = a"
proof (induction t)
  case (Fork l' c r')
  show ?case
  proof (cases x "k c" rule: linorder_cases)
    case less
    have "a \<in> addrs l'" using Fork.prems(2) less sub_subset [of k x l'] by auto
    then show ?thesis using Fork less bst_disjoint [OF Fork.prems(1)] by (auto dest: order_less_trans)
  next
    case greater
    have "a \<in> addrs r'" using Fork.prems(2) greater sub_subset [of k x r'] by auto
    then show ?thesis using Fork greater bst_disjoint [OF Fork.prems(1)] by (auto dest: order_less_trans)
  next
    case equal
    then show ?thesis using Fork by auto
  qed
qed simp

lemma find_place_sub: "find k x q d t = (a, q', d') \<Longrightarrow> bst k t \<Longrightarrow> q \<notin> addrs t \<Longrightarrow> q' \<notin> addrs (sub k x t)"
proof (induction t arbitrary: q d)
  case (Fork l b r)
  note disj = bst_disjoint [OF Fork.prems(2)]
  show ?case
  proof (cases x "k b" rule: linorder_cases)
    case equal
    then show ?thesis using Fork.prems by auto
  next
    case less
    then show ?thesis using Fork.IH(1) [of b left] Fork.prems disj by simp
  next
    case greater
    then show ?thesis using Fork.IH(2) [of b right] Fork.prems disj by simp
  qed
qed simp

lemma reps_sub: "reps N p t \<Longrightarrow> sub k x t = Fork l a r \<Longrightarrow> reps N a (Fork l a r)"
proof (induction t arbitrary: p)
  case (Fork l' b r')
  obtain bn where "N b = Some bn" and bn: "reps N (lchild bn) l'" "reps N (rchild bn) r'"
    using Fork.prems(1) by (auto split: option.splits)
  show ?case
  proof (cases x "k b" rule: linorder_cases)
    case equal
    then show ?thesis using Fork.prems by (auto split: option.splits)
  next
    case less
    then show ?thesis using Fork.IH(1) [OF bn(1)] Fork.prems(2) by simp
  next
    case greater
    then show ?thesis using Fork.IH(2) [OF bn(2)] Fork.prems(2) by simp
  qed
qed simp

lemma find_cong:
  assumes "\<And>b. b \<in> addrs t \<Longrightarrow> k' b = k b"
  shows "find k' x q d t = find k x q d t" "sub k' x t = sub k x t" "upd k' x s t = upd k x s t"
  using assms by (induction t arbitrary: q d) (auto simp: find.simps sub.simps upd.simps)

section \<open>Replacing what the search finds\<close>

lemma set_upd: "bst k t \<Longrightarrow> addrs (upd k x s t) = (addrs t - addrs (sub k x t)) \<union> addrs s"
proof (induction t)
  case (Fork l a r)
  note d = bst_disjoint [OF Fork.prems]
  show ?case
  proof (cases x "k a" rule: linorder_cases)
    case less
    have "addrs (upd k x s l) = (addrs l - addrs (sub k x l)) \<union> addrs s" using Fork by simp
    then show ?thesis using less d sub_subset [of k x l] by (simp add: insert_Diff_if) blast
  next
    case greater
    have "addrs (upd k x s r) = (addrs r - addrs (sub k x r)) \<union> addrs s" using Fork by simp
    then show ?thesis using greater d sub_subset [of k x r] by (simp add: insert_Diff_if) blast
  qed simp
qed simp

text \<open>The keys of the replacement are those of the subtree it replaces, or the one searched for.\<close>

lemma bst_upd:
  assumes "bst k t" "bst k' s" "\<And>b. b \<in> addrs t - addrs (sub k x t) \<Longrightarrow> k' b = k b"
    and "\<And>b. b \<in> addrs s \<Longrightarrow> k' b = x \<or> k' b \<in> k ` addrs (sub k x t)"
  shows "bst k' (upd k x s t)"
  using assms
proof (induction t)
  case (Fork l a r)
  note d = bst_disjoint [OF Fork.prems(1)]
  show ?case
  proof (cases x "k a" rule: linorder_cases)
    case less
    have k': "k' b = k b" if "b = a \<or> b \<in> addrs r" for b
      using Fork.prems(3) [of b] that less d sub_subset [of k x l] by auto
    have IH: "bst k' (upd k x s l)"
      using Fork.IH(1) Fork.prems less by simp
    have "k' b < k' a" if "b \<in> addrs (upd k x s l)" for b
    proof (cases "b \<in> addrs s")
      case True
      then show ?thesis using Fork.prems(1) Fork.prems(4) [of b] less k' sub_subset [of k x l] by fastforce
    next
      case False
      then have "b \<in> addrs l - addrs (sub k x l)" using that set_upd [of k l x s] Fork.prems(1) by auto
      then show ?thesis using Fork.prems(1) Fork.prems(3) [of b] less k' by auto
    qed
    moreover have "bst k' r" using Fork.prems(1) k' using bst_cong [of r k' k] by auto
    ultimately show ?thesis using IH less Fork.prems(1) k' by auto
  next
    case equal
    then show ?thesis using Fork.prems(2) by simp
  next
    case greater
    have k': "k' b = k b" if "b = a \<or> b \<in> addrs l" for b
      using Fork.prems(3) [of b] that greater d sub_subset [of k x r] by auto
    have IH: "bst k' (upd k x s r)"
      using Fork.IH(2) Fork.prems greater by simp
    have "k' a < k' b" if "b \<in> addrs (upd k x s r)" for b
    proof (cases "b \<in> addrs s")
      case True
      then show ?thesis using Fork.prems(1) Fork.prems(4) [of b] greater k' sub_subset [of k x r] by fastforce
    next
      case False
      then have "b \<in> addrs r - addrs (sub k x r)" using that set_upd [of k r x s] Fork.prems(1) by auto
      then show ?thesis using Fork.prems(1) Fork.prems(3) [of b] greater k' by auto
    qed
    moreover have "bst k' l" using Fork.prems(1) k' using bst_cong [of l k' k] by auto
    ultimately show ?thesis using IH greater Fork.prems(1) k' by auto
  qed
qed (use assms(2) in simp)

text \<open>On the heap: a new link at the place of the search, or a new subtree at the node found.\<close>

lemma reps_link:
  assumes "reps N (child d qn) t" "bst k t" "N q = Some qn" "q \<notin> addrs t"
    and "find k x q d t = (a, q', d')" "N q' = Some n'"
    and "reps (N(q' \<mapsto> set_child d' p n')) p s"
  shows "\<exists>c. (N(q' \<mapsto> set_child d' p n')) q = Some (set_child d c qn) \<and>
    reps (N(q' \<mapsto> set_child d' p n')) c (upd k x s t)"
  using assms(1-5)
proof (induction t arbitrary: q qn d)
  case Tip
  then have "d' = d" "q' = q" "n' = qn" using assms(6) by auto
  then show ?case using assms(7) by (intro exI [of _ p]) (simp del: fun_upd_apply, simp)
next
  case (Fork l b r)
  let ?N = "N(q' \<mapsto> set_child d' p n')"
  obtain bn where bn: "N b = Some bn" "child d qn = b" "b \<noteq> 0" "reps N (lchild bn) l" "reps N (rchild bn) r"
    using Fork.prems(1) by (auto split: option.splits)
  note disj = bst_disjoint [OF Fork.prems(2)]
  show ?case
  proof (cases x "k b" rule: linorder_cases)
    case equal
    then have "d' = d" "q' = q" "n' = qn" using Fork.prems(3,5) assms(6) by auto
    then show ?thesis using assms(7) equal by (intro exI [of _ p]) (simp del: fun_upd_apply, simp)
  next
    case less
    then have f: "find k x b left l = (a, q', d')" using Fork.prems(5) by simp
    have "\<exists>c. ?N b = Some (set_child left c bn) \<and> reps ?N c (upd k x s l)"
      by (rule Fork.IH(1)) (use bn Fork.prems(2) disj f in auto)
    then obtain c where c: "?N b = Some (set_child left c bn)" "reps ?N c (upd k x s l)" by blast
    have q': "q' = b \<or> q' \<in> addrs l" using find_place [OF f] by auto
    have "reps ?N (rchild bn) r" using bn(5) q' disj by (subst reps_other) auto
    then have "reps ?N b (upd k x s (Fork l b r))" using less c bn(3) by simp
    moreover have "?N q = Some qn" using q' Fork.prems(3,4) by auto
    moreover have "set_child d b qn = qn" using bn(2) by (cases d) auto
    ultimately show ?thesis by (intro exI [of _ b] conjI) (simp_all only:)
  next
    case greater
    then have f: "find k x b right r = (a, q', d')" using Fork.prems(5) by simp
    have "\<exists>c. ?N b = Some (set_child right c bn) \<and> reps ?N c (upd k x s r)"
      by (rule Fork.IH(2)) (use bn Fork.prems(2) disj f in auto)
    then obtain c where c: "?N b = Some (set_child right c bn)" "reps ?N c (upd k x s r)" by blast
    have q': "q' = b \<or> q' \<in> addrs r" using find_place [OF f] by auto
    have "reps ?N (lchild bn) l" using bn(4) q' disj by (subst reps_other) auto
    then have "reps ?N b (upd k x s (Fork l b r))" using greater c bn(3) by simp
    moreover have "?N q = Some qn" using q' Fork.prems(3,4) by auto
    moreover have "set_child d b qn = qn" using bn(2) by (cases d) auto
    ultimately show ?thesis by (intro exI [of _ b] conjI) (simp_all only:)
  qed
qed

lemma reps_upd:
  assumes "reps N p t" "bst k t" "sub k x t = Fork l a r" "reps N' a s"
    and "\<And>b. b \<in> addrs t - addrs (sub k x t) \<Longrightarrow> N' b = N b"
  shows "reps N' p (upd k x s t)"
  using assms(1,2,3,5)
proof (induction t arbitrary: p)
  case (Fork l' b r')
  note disj = bst_disjoint [OF Fork.prems(2)]
  show ?case
  proof (cases x "k b" rule: linorder_cases)
    case equal
    then show ?thesis using Fork.prems assms(4) by auto
  next
    case less
    then have same: "N' c = N c" if "c = b \<or> c \<in> addrs r'" for c
      using Fork.prems(4) [of c] that disj sub_subset [of k x l'] less by auto
    then have "reps N' q r' = reps N q r'" for q using reps_cong [of r' N' N q] by auto
    then show ?thesis using Fork.prems Fork.IH(1) less same disj by (auto split: option.splits)
  next
    case greater
    then have same: "N' c = N c" if "c = b \<or> c \<in> addrs l'" for c
      using Fork.prems(4) [of c] that disj sub_subset [of k x r'] greater by auto
    then have "reps N' q l' = reps N q l'" for q using reps_cong [of l' N' N q] by auto
    then show ?thesis using Fork.prems Fork.IH(2) greater same disj
      by (auto split: option.splits)
  qed
qed (use assms(3) in simp)

section \<open>The least node\<close>

fun min_place :: "nat \<Rightarrow> branch \<Rightarrow> shape \<Rightarrow> nat \<times> nat \<times> branch" where
  "min_place q d Tip = (0, q, d)"
| "min_place q d (Fork l a r) = (if l = Tip then (a, q, d) else min_place a left l)"

fun del_min :: "shape \<Rightarrow> shape" where
  "del_min Tip = Tip"
| "del_min (Fork l a r) = (if l = Tip then r else Fork (del_min l) a r)"

lemma min_place_place: "min_place q d t = (m, q', d') \<Longrightarrow> t \<noteq> Tip \<Longrightarrow>
    m \<in> addrs t \<and> (q' = q \<and> d' = d \<or> q' \<in> addrs t)"
  by (induction t arbitrary: q d) (auto split: if_splits)

lemma del_min_set: "min_place q d t = (m, q', d') \<Longrightarrow> t \<noteq> Tip \<Longrightarrow> bst k t \<Longrightarrow>
    bst k (del_min t) \<and> addrs t = insert m (addrs (del_min t)) \<and> (\<forall>b\<in>addrs (del_min t). k m < k b)"
proof (induction t arbitrary: q d)
  case (Fork l a r)
  then show ?case by (cases "l = Tip") (fastforce dest: order_less_trans)+
qed simp

lemma reps_del_min:
  assumes "reps N (child d qn) t" "bst k t" "t \<noteq> Tip" "N q = Some qn" "q \<notin> addrs t"
    and "min_place q d t = (m, q', d')" "N q' = Some n'" "N m = Some mn"
  shows "\<exists>c. (N(q' \<mapsto> set_child d' (rchild mn) n')) q = Some (set_child d c qn) \<and>
    reps (N(q' \<mapsto> set_child d' (rchild mn) n')) c (del_min t)"
  using assms(1-6)
proof (induction t arbitrary: q qn d)
  case (Fork l b r)
  let ?N = "N(q' \<mapsto> set_child d' (rchild mn) n')"
  obtain bn where bn: "N b = Some bn" "child d qn = b" "b \<noteq> 0" "reps N (lchild bn) l" "reps N (rchild bn) r"
    using Fork.prems(1) by (auto split: option.splits)
  note disj = bst_disjoint [OF Fork.prems(2)]
  show ?case
  proof (cases "l = Tip")
    case True
    then have eq: "m = b" "q' = q" "d' = d" "mn = bn" "n' = qn" using Fork.prems assms(7,8) bn by auto
    have "reps ?N (rchild bn) r = reps N (rchild bn) r" using eq(2) Fork.prems(5) by (intro reps_other) auto
    then show ?thesis using True eq bn(5) by (intro exI [of _ "rchild bn"]) (simp del: fun_upd_apply, simp)
  next
    case False
    then have mp: "min_place b left l = (m, q', d')" using Fork.prems(6) by simp
    have "\<exists>c. ?N b = Some (set_child left c bn) \<and> reps ?N c (del_min l)"
      by (rule Fork.IH(1)) (use bn Fork.prems(2) disj False mp in auto)
    then obtain c where c: "?N b = Some (set_child left c bn)" "reps ?N c (del_min l)" by blast
    have q': "q' = b \<or> q' \<in> addrs l" using min_place_place [OF mp False] by auto
    have "reps ?N (rchild bn) r" using bn(5) q' disj by (subst reps_other) auto
    then have "reps ?N b (del_min (Fork l b r))" using False c bn(3) by simp
    moreover have "?N q = Some qn" using q' Fork.prems(4,5) by auto
    moreover have "set_child d b qn = qn" using bn(2) by (cases d) auto
    ultimately show ?thesis by (intro exI [of _ b] conjI) (simp_all only:)
  qed
qed simp

end
