(* ===== verification/Db.thy ===== *)
theory Db
  imports DbTree
begin

text \<open>
  The database as a finite map: each operation, run from a state without locks, returns what the map
  says, leaves the state of the updated map, takes and releases every lock properly and frees exactly
  the node it unlinks.
\<close>

section \<open>Searching under locks\<close>

definition key :: "(nat \<Rightarrow> db_node option) \<Rightarrow> nat \<Rightarrow> string" where
  "key N a = name (the (N a))"

abbreviation state :: "(nat \<Rightarrow> db_node option) \<Rightarrow> (nat \<Rightarrow> locktype option) \<Rightarrow> nat \<Rightarrow> db" where
  "state N H u \<equiv> \<lparr>nodes = N, held = H, unused = u\<rparr>"

text \<open>The locks a search leaves.\<close>

definition locks_after :: "bool \<Rightarrow> locktype \<Rightarrow> nat \<Rightarrow> nat \<Rightarrow> nat \<Rightarrow> locktype option" where
  "locks_after parentpp lt a q = (\<lambda>p. if p = a \<and> a \<noteq> 0 \<or> p = q \<and> parentpp then Some lt else None)"

lemma search_ok:
  assumes "reps N (child d qn) t" "bst (key N) t" "N q = Some qn" "q \<notin> addrs t" "d = side_of x qn"
    and "find (key N) x q d t = (a, q', d')" "parentpp \<longrightarrow> m = lt" "q \<noteq> 0"
  shows "search x q parentpp lt (state N [q \<mapsto> m] u) =
    Some (a, if parentpp then q' else 0, state N (locks_after parentpp lt a q') u)"
  using assms
proof (induction t arbitrary: q qn d m)
  case Tip
  then show ?case
    by (subst search.simps) (auto simp: get_node_def unlock_def locks_after_def Let_def fun_eq_iff)
next
  case (Fork l b r)
  obtain bn where bn: "N b = Some bn" "child (side_of x qn) qn = b" "b \<noteq> 0" "reps N (lchild bn) l" "reps N (rchild bn) r"
    using Fork.prems(1,5) by (auto split: option.splits)
  have kb: "key N b = name bn" using bn(1) by (simp add: key_def)
  have bq: "b \<noteq> q" using Fork.prems(4) by auto
  note disj = bst_disjoint [OF Fork.prems(2)]
  have step: "search x q parentpp lt (state N [q \<mapsto> m] u) =
    (if x = name bn then
       if parentpp then Some (b, q, state N ([q \<mapsto> m](b \<mapsto> lt)) u) else Some (b, 0, state N [b \<mapsto> lt] u)
     else search x b parentpp lt (state N [b \<mapsto> lt] u))"
  proof -
    have H: "([q \<mapsto> m](b \<mapsto> lt))(q := None) = [b \<mapsto> lt]" using bq by (auto simp: fun_eq_iff)
    show ?thesis using Fork.prems(3,8) bn bq H
      by (subst search.simps) (auto simp: get_node_def unlock_def lock_def Let_def)
  qed
  have rec: "search x b parentpp lt (state N [b \<mapsto> lt] u) =
      Some (a, if parentpp then q' else 0, state N (locks_after parentpp lt a q') u)" if ne: "x \<noteq> name bn"
  proof (cases "x < name bn")
    case True
    then show ?thesis using Fork.prems bn kb disj
      by (intro Fork.IH(1) [where d = left and qn = bn]) (auto simp: side_of_def)
  next
    case False
    then have "key N b < x" using ne kb by simp
    then show ?thesis using Fork.prems bn kb disj False
      by (intro Fork.IH(2) [where d = right and qn = bn]) (auto simp: side_of_def)
  qed
  have locks: "[q \<mapsto> lt](b \<mapsto> lt) = locks_after True lt b q" "[b \<mapsto> lt] = locks_after False lt b q"
    using bn(3) by (auto simp: locks_after_def fun_eq_iff)
  show ?case
  proof (cases "x = name bn")
    case True
    then have "a = b" "q' = q" using Fork.prems(6) kb fork_equal(1) [of "key N" b q d l r] by auto
    then show ?thesis unfolding step using True Fork.prems(7) locks
      by (cases parentpp) (simp_all del: fun_upd_apply)
  next
    case False
    then show ?thesis unfolding step using rec by (simp del: fun_upd_apply)
  qed
qed

section \<open>The representation\<close>

definition db_ok :: "db \<Rightarrow> shape \<Rightarrow> bool" where
  "db_ok s t \<longleftrightarrow> held s = Map.empty \<and>
     (\<exists>hn. nodes s head = Some hn \<and> name hn = [] \<and> lchild hn = 0 \<and> reps (nodes s) (rchild hn) t) \<and>
     bst (key (nodes s)) t \<and> dom (nodes s) = insert head (addrs t) \<and> head \<notin> addrs t \<and>
     (\<forall>a\<in>dom (nodes s). a < unused s) \<and> (\<forall>a\<in>addrs t. \<forall>n. nodes s a = Some n \<longrightarrow> length (name n) < MAXLEN \<and> length (val n) < MAXLEN)"

definition entries :: "db \<Rightarrow> shape \<Rightarrow> (string \<times> string) set" where
  "entries s t = {(name n, val n) | n a. a \<in> addrs t \<and> nodes s a = Some n}"

lemma entries_iff: "(y, v) \<in> entries s t \<longleftrightarrow> (\<exists>b\<in>addrs t. \<exists>n. nodes s b = Some n \<and> y = name n \<and> v = val n)"
  by (auto simp: entries_def)

lemma db_ok_dom: "db_ok s t \<Longrightarrow> nodes s b = Some n \<Longrightarrow> b < unused s"
  by (auto simp: db_ok_def)

text \<open>The state without locks stands for the map with exactly its nodes' pairs.\<close>

definition represents :: "db \<Rightarrow> (string \<Rightarrow> string option) \<Rightarrow> bool" where
  "represents s m \<longleftrightarrow> (\<exists>t. db_ok s t \<and> (\<forall>x v. m x = Some v \<longleftrightarrow> (x, v) \<in> entries s t))"

text \<open>Finding a name in such a state: the state after the search has locked what it found.\<close>

lemma not_less_Nil [simp]: "\<not> xs < ([] :: 'a::order list)"
  by (simp add: list_less_def lexord_def)

lemma db_ok_head:
  assumes "db_ok s t"
  obtains hn where "nodes s head = Some hn" "name hn = []" "lchild hn = 0" "reps (nodes s) (rchild hn) t"
  using assms by (auto simp: db_ok_def)

lemma db_ok_facts:
  assumes "db_ok s t"
  shows "bst (key (nodes s)) t" "head \<notin> addrs t" "head \<noteq> 0" "0 \<notin> addrs t"
    "state (nodes s) Map.empty (unused s) = s" "unused s \<notin> insert head (addrs t)" "nodes s (unused s) = None"
    "b \<in> addrs t \<Longrightarrow> \<exists>n. nodes s b = Some n \<and> length (name n) < MAXLEN \<and> length (val n) < MAXLEN"
proof -
  obtain hn where hn: "nodes s head = Some hn" "reps (nodes s) (rchild hn) t" by (rule db_ok_head [OF assms])
  show "0 \<notin> addrs t" using reps_node [OF hn(2)] by blast
  show "state (nodes s) Map.empty (unused s) = s" using assms by (cases s) (simp add: db_ok_def)
  have "unused s \<notin> dom (nodes s)" using assms by (auto simp: db_ok_def)
  then show "unused s \<notin> insert head (addrs t)" "nodes s (unused s) = None" using assms by (auto simp: db_ok_def)
  show "\<exists>n. nodes s b = Some n \<and> length (name n) < MAXLEN \<and> length (val n) < MAXLEN" if "b \<in> addrs t"
    using assms reps_node [OF hn(2) that] that by (auto simp: db_ok_def)
qed (use assms in \<open>auto simp: db_ok_def head_def\<close>)

text \<open>What a search for \<open>x\<close> finds in the tree, and what it does.\<close>

lemma db_find_parent:
  assumes ok: "db_ok s t" and f: "find (key (nodes s)) x head right t = (a, q', d')"
  shows "\<exists>qn. nodes s q' = Some qn \<and> d' = side_of x qn" "q' = head \<or> q' \<in> addrs t" "q' \<noteq> 0"
    "q' \<notin> addrs (sub (key (nodes s)) x t)"
proof -
  obtain hn where hn: "nodes s head = Some hn" "name hn = []" "reps (nodes s) (rchild hn) t" by (rule db_ok_head [OF ok])
  note facts = db_ok_facts [OF ok]
  show q': "q' = head \<or> q' \<in> addrs t" using find_place [OF f] by auto
  then obtain qn where qn: "nodes s q' = Some qn" "q' \<noteq> 0" using hn(1) reps_node [OF hn(3), of q'] facts(3) by auto
  then show "q' \<noteq> 0" by simp
  have "d' = (if x < key (nodes s) q' then left else right)"
    by (rule find_side [OF f facts(1)]) (simp add: key_def hn)
  then show "\<exists>qn. nodes s q' = Some qn \<and> d' = side_of x qn" using qn(1) by (simp add: side_of_def key_def)
  show "q' \<notin> addrs (sub (key (nodes s)) x t)" by (rule find_place_sub [OF f facts(1,2)])
qed

lemma db_find_node:
  assumes ok: "db_ok s t" and f: "find (key (nodes s)) x head right t = (a, q', d')"
  shows "a = 0 \<Longrightarrow> sub (key (nodes s)) x t = Tip"
    "a \<noteq> 0 \<Longrightarrow> \<exists>l r an. sub (key (nodes s)) x t = Fork l a r \<and> nodes s a = Some an \<and> name an = x \<and>
      reps (nodes s) (lchild an) l \<and> reps (nodes s) (rchild an) r"
proof -
  obtain hn0 where "nodes s head = Some hn0" "lchild hn0 = 0" and hn: "reps (nodes s) (rchild hn0) t"
    by (rule db_ok_head [OF ok])
  have sub: "a = (case sub (key (nodes s)) x t of Tip \<Rightarrow> 0 | Fork l b r \<Rightarrow> b)"
    by (rule find_sub [OF f db_ok_facts(4) [OF ok]])
  have z: "0 \<notin> addrs (sub (key (nodes s)) x t)" using db_ok_facts(4) [OF ok] sub_subset by blast
  show "a = 0 \<Longrightarrow> sub (key (nodes s)) x t = Tip" using sub z by (cases "sub (key (nodes s)) x t") auto
  assume "a \<noteq> 0"
  then obtain l r where lr: "sub (key (nodes s)) x t = Fork l a r" using sub by (cases "sub (key (nodes s)) x t") auto
  have "reps (nodes s) a (Fork l a r)" by (rule reps_sub [OF hn lr])
  then show "\<exists>l r an. sub (key (nodes s)) x t = Fork l a r \<and> nodes s a = Some an \<and> name an = x \<and>
      reps (nodes s) (lchild an) l \<and> reps (nodes s) (rchild an) r"
    using lr sub_key [OF lr] by (auto simp: key_def split: option.splits)
qed

lemma db_search:
  assumes ok: "db_ok s t" and f: "find (key (nodes s)) x head right t = (a, q', d')"
    and lt: "parentpp \<longrightarrow> lt = l_write"
  shows "search x head parentpp lt (state (nodes s) [head \<mapsto> l_write] (unused s)) =
    Some (a, if parentpp then q' else 0, state (nodes s) (locks_after parentpp lt a q') (unused s))"
proof -
  obtain hn where hn: "nodes s head = Some hn" "name hn = []" "reps (nodes s) (rchild hn) t" by (rule db_ok_head [OF ok])
  show ?thesis
    by (rule search_ok [OF _ db_ok_facts(1) [OF ok] hn(1) db_ok_facts(2) [OF ok] _ f])
      (use hn lt db_ok_facts(3) [OF ok] in \<open>auto simp: side_of_def\<close>)
qed

text \<open>What a map looks up is the value at the node the search finds.\<close>

lemma lookup_found:
  assumes ok: "db_ok s t" and m: "\<forall>x v. m x = Some v \<longleftrightarrow> (x, v) \<in> entries s t"
    and sub: "sub (key (nodes s)) x t = Fork l a r" and an: "nodes s a = Some an"
  shows "m x = Some (val an)"
proof -
  have "a \<in> addrs t" "name an = x"
    using sub_subset [of "key (nodes s)" x t] sub sub_key [OF sub] an by (auto simp: key_def)
  then show ?thesis using m an by (auto simp: entries_def)
qed

lemma lookup_not_found:
  assumes ok: "db_ok s t" and m: "\<forall>x v. m x = Some v \<longleftrightarrow> (x, v) \<in> entries s t"
    and sub: "sub (key (nodes s)) x t = Tip"
  shows "m x = None"
proof (rule ccontr)
  assume "m x \<noteq> None"
  then obtain v a n where "a \<in> addrs t" "nodes s a = Some n" "name n = x" using m by (auto simp: entries_def)
  then show False using sub ok sub_Tip [of "key (nodes s)" t x] by (auto simp: db_ok_def key_def)
qed

section \<open>Querying\<close>

lemma lock_head: "db_ok s t \<Longrightarrow> lock l_write head s = Some (state (nodes s) [head \<mapsto> l_write] (unused s))"
  by (cases s) (auto simp: lock_def db_ok_def)

lemma db_query_ok:
  assumes "represents s m"
  shows "db_query x len s = Some (snprintf len (case m x of None \<Rightarrow> ''not found'' | Some v \<Rightarrow> v), s)"
proof -
  obtain t where ok: "db_ok s t" and m: "\<forall>x v. m x = Some v \<longleftrightarrow> (x, v) \<in> entries s t"
    using assms by (auto simp: represents_def)
  obtain a q' d' where f: "find (key (nodes s)) x head right t = (a, q', d')" by (metis prod_cases3)
  note search = db_search [OF ok f, of False l_read]
  show ?thesis
  proof (cases "a = 0")
    case True
    have "locks_after False l_read a q' = Map.empty" using True by (auto simp: locks_after_def fun_eq_iff)
    then show ?thesis
      using True lookup_not_found [OF ok m db_find_node(1) [OF ok f True]] search lock_head [OF ok] db_ok_facts(5) [OF ok]
      by (simp add: db_query_def)
  next
    case False
    then obtain l r an where an: "sub (key (nodes s)) x t = Fork l a r" "nodes s a = Some an"
      using db_find_node(2) [OF ok f] by blast
    have "(locks_after False l_read a q')(a := None) = Map.empty" "locks_after False l_read a q' a = Some l_read"
      using False by (auto simp: locks_after_def fun_eq_iff)
    then show ?thesis
      using False lookup_found [OF ok m an] search lock_head [OF ok] db_ok_facts(5) [OF ok] an(2)
      by (simp add: db_query_def get_node_def unlock_def)
  qed
qed


section \<open>Adding\<close>

text \<open>A state whose tree is the old one with the place of \<open>x\<close> replaced.\<close>

lemma represents_upd:
  assumes ok: "db_ok s t" and sub: "sub (key (nodes s)) x t = u"
    and N': "N' head = Some (hn\<lparr>rchild := c\<rparr>)" "nodes s head = Some hn" "reps N' c (upd (key (nodes s)) x new t)"
    and same: "\<And>b. b \<in> addrs t - addrs u \<Longrightarrow>
      \<exists>n n'. nodes s b = Some n \<and> N' b = Some n' \<and> name n' = name n \<and> val n' = val n"
    and new: "bst (key N') new" "head \<notin> addrs new"
      "\<And>b. b \<in> addrs new \<Longrightarrow> key N' b = x \<or> key N' b \<in> key (nodes s) ` addrs u"
      "\<And>b n. b \<in> addrs new \<Longrightarrow> N' b = Some n \<Longrightarrow> length (name n) < MAXLEN \<and> length (val n) < MAXLEN"
    and dom: "dom N' = insert head (addrs t - addrs u \<union> addrs new)" "\<And>b. b \<in> dom N' \<Longrightarrow> b < k"
    and m: "\<And>y v. m y = Some v \<longleftrightarrow> (\<exists>b\<in>addrs t - addrs u. \<exists>n. nodes s b = Some n \<and> y = name n \<and> v = val n) \<or>
      (\<exists>b\<in>addrs new. \<exists>n. N' b = Some n \<and> y = name n \<and> v = val n)"
  shows "represents (state N' Map.empty k) m"
proof -
  let ?t = "upd (key (nodes s)) x new t"
  have bst: "bst (key (nodes s)) t" and h: "head \<notin> addrs t" using db_ok_facts [OF ok] by auto
  have set: "addrs ?t = addrs t - addrs u \<union> addrs new" using set_upd [OF bst] sub by simp
  have hn: "name hn = []" "lchild hn = 0" using ok N'(2) by (auto simp: db_ok_def)
  have "bst (key N') ?t"
  proof (rule bst_upd [OF bst new(1)])
    fix b assume "b \<in> addrs t - addrs (sub (key (nodes s)) x t)"
    then show "key N' b = key (nodes s) b" using same [of b] sub by (auto simp: key_def)
  qed (use new(3) sub in auto)
  moreover have "length (name n) < MAXLEN \<and> length (val n) < MAXLEN" if "b \<in> addrs ?t" "N' b = Some n" for b n
  proof (cases "b \<in> addrs new")
    case False
    then have b: "b \<in> addrs t - addrs u" using that(1) set by auto
    show ?thesis using same [OF b] that(2) db_ok_facts(8) [OF ok, of b] b by auto
  qed (use new(4) that(2) in auto)
  moreover have "dom N' = insert head (addrs ?t)" "head \<notin> addrs ?t" using dom(1) set new(2) h by auto
  ultimately have ok': "db_ok (state N' Map.empty k) ?t"
    using N'(1,3) hn dom(2) by (auto simp: db_ok_def)
  have "m y = Some v \<longleftrightarrow> (y, v) \<in> entries (state N' Map.empty k) ?t" for y v
  proof -
    have "(\<exists>b\<in>addrs t - addrs u. \<exists>n. N' b = Some n \<and> y = name n \<and> v = val n) \<longleftrightarrow>
        (\<exists>b\<in>addrs t - addrs u. \<exists>n. nodes s b = Some n \<and> y = name n \<and> v = val n)"
    proof (intro bex_cong refl)
      fix b assume "b \<in> addrs t - addrs u"
      then obtain n n' where "nodes s b = Some n" "N' b = Some n'" "name n' = name n" "val n' = val n"
        using same by blast
      then show "(\<exists>n. N' b = Some n \<and> y = name n \<and> v = val n) \<longleftrightarrow> (\<exists>n. nodes s b = Some n \<and> y = name n \<and> v = val n)"
        by simp
    qed
    then show ?thesis by (simp only: m entries_iff set bex_Un db.select_convs)
  qed
  then show ?thesis unfolding represents_def using ok' by (intro exI [of _ ?t]) simp
qed


lemma set_child_simps [simp]: "name (set_child d c n) = name n" "val (set_child d c n) = val n"
  by (cases d; simp)+

lemma snprintf_short: "length xs < len \<Longrightarrow> snprintf len xs = xs"
  by (simp add: snprintf_def)

lemma add_existing:
  assumes ok: "db_ok s t" and f: "find (key (nodes s)) x head right t = (a, q', d')" and a: "a \<noteq> 0"
  shows "db_add x v s = Some (False, s)"
proof -
  obtain l r an where an: "sub (key (nodes s)) x t = Fork l a r" "nodes s a = Some an"
    using db_find_node(2) [OF ok f a] by blast
  obtain qn where qn: "nodes s q' = Some qn" using db_find_parent(1) [OF ok f] by blast
  have ne: "a \<noteq> q'" using db_find_parent(4) [OF ok f] an(1) by auto
  let ?H = "locks_after True l_write a q'"
  have H: "?H a = Some l_write" "?H q' = Some l_write" "(?H(a := None))(q' := None) = Map.empty"
    using a by (auto simp: locks_after_def fun_eq_iff)
  have "unlock a (state (nodes s) ?H (unused s)) = Some (state (nodes s) (?H(a := None)) (unused s))"
    using an(2) H(1) by (simp add: unlock_def)
  moreover have "unlock q' (state (nodes s) (?H(a := None)) (unused s)) = Some (state (nodes s) Map.empty (unused s))"
    using qn ne H by (simp add: unlock_def)
  ultimately show ?thesis
    using a lock_head [OF ok] db_search [OF ok f, of True l_write] db_ok_facts(5) [OF ok] by (simp add: db_add_def)
qed

lemma add_new:
  assumes ok: "db_ok s t" and f: "find (key (nodes s)) x head right t = (0, q', d')"
    and short: "length x < MAXLEN" "length v < MAXLEN" and qn: "nodes s q' = Some qn"
  defines "u \<equiv> unused s"
  defines "N' \<equiv> (nodes s)(u \<mapsto> \<lparr>name = x, val = v, lchild = 0, rchild = 0\<rparr>, q' \<mapsto> set_child d' u qn)"
  shows "db_add x v s = Some (True, state N' Map.empty (u + 1))"
proof -
  let ?H = "locks_after True l_write 0 q'"
  let ?N = "(nodes s)(u \<mapsto> \<lparr>name = x, val = v, lchild = 0, rchild = 0\<rparr>)"
  have ne: "q' \<noteq> u" using qn db_ok_facts(7) [OF ok] by (auto simp: u_def)
  have H: "?H q' = Some l_write" "?H(q' := None) = Map.empty" by (auto simp: locks_after_def fun_eq_iff)
  have d': "d' = side_of x qn" using db_find_parent(1) [OF ok f] qn by auto
  have new: "node_constructor x v 0 0 (state (nodes s) ?H u) = (u, state ?N ?H (u + 1))"
    using short by (simp add: node_constructor_def snprintf_short)
  have get: "get_node (state ?N ?H (u + 1)) q' = Some qn" using H(1) qn ne by (simp add: get_node_def)
  have set: "set_node q' (set_child d' u qn) (state ?N ?H (u + 1)) = Some (state N' ?H (u + 1))"
    using H(1) qn by (simp add: set_node_def N'_def)
  have unl: "unlock q' (state N' ?H (u + 1)) = Some (state N' Map.empty (u + 1))"
    using H by (simp add: unlock_def N'_def)
  show ?thesis using lock_head [OF ok] db_search [OF ok f, of True l_write] new get set unl d'
    by (simp add: db_add_def u_def)
qed

lemma db_add_ok:
  assumes rep: "represents s m" and short: "length x < MAXLEN" "length v < MAXLEN"
  shows "\<exists>s'. db_add x v s = Some (m x = None, s') \<and> represents s' (if m x = None then m(x \<mapsto> v) else m)"
proof -
  obtain t where ok: "db_ok s t" and m: "\<forall>x v. m x = Some v \<longleftrightarrow> (x, v) \<in> entries s t"
    using rep by (auto simp: represents_def)
  note facts = db_ok_facts [OF ok]
  obtain a q' d' where f: "find (key (nodes s)) x head right t = (a, q', d')" by (metis prod_cases3)
  show ?thesis
  proof (cases "a = 0")
    case False
    then obtain l r an where an: "sub (key (nodes s)) x t = Fork l a r" "nodes s a = Some an"
      using db_find_node(2) [OF ok f] by blast
    then show ?thesis using add_existing [OF ok f False] lookup_found [OF ok m an] rep by simp
  next
    case True
    note f = f [unfolded True]
    obtain qn where qn: "nodes s q' = Some qn" using db_find_parent(1) [OF ok f] by blast
    obtain hn where hn: "nodes s head = Some hn" "name hn = []" "lchild hn = 0" "reps (nodes s) (rchild hn) t"
      by (rule db_ok_head [OF ok])
    define u where "u = unused s"
    let ?nn = "\<lparr>name = x, val = v, lchild = 0, rchild = 0\<rparr>" and ?new = "Fork Tip u Tip"
    let ?N1 = "(nodes s)(u \<mapsto> ?nn)"
    define N' where "N' = ?N1(q' \<mapsto> set_child d' u qn)"
    have add: "db_add x v s = Some (True, state N' Map.empty (u + 1))"
      using add_new [OF ok f short qn] by (simp add: N'_def u_def)
    have tip: "sub (key (nodes s)) x t = Tip" by (rule db_find_node(1) [OF ok f]) simp
    have none: "m x = None" by (rule lookup_not_found [OF ok m tip])
    have fresh: "name n \<noteq> x" if "b \<in> addrs t" "nodes s b = Some n" for b n
    proof
      assume "name n = x"
      then have "m x = Some (val n)" using m that by (auto simp: entries_iff)
      with none show False by simp
    qed
    have u: "u \<notin> addrs t" "u \<noteq> head" "u \<noteq> q'" "u \<noteq> 0" "nodes s u = None"
      using facts(6,7) qn ok hn(1) by (auto simp: u_def db_ok_def)
    have keys: "key ?N1 b = key (nodes s) b" if "b \<in> addrs t" for b using u(1) that by (auto simp: key_def)
    have N'u: "N' u = Some ?nn" "key N' u = x" using u(3) by (auto simp: N'_def key_def)
    have link: "\<exists>c. N' head = Some (set_child right c hn) \<and> reps N' c (upd (key ?N1) x ?new t)"
      unfolding N'_def
    proof (rule reps_link)
      show "reps ?N1 (child right hn) t" using hn(4) u(1) by (simp del: fun_upd_apply)
      show "bst (key ?N1) t" using facts(1) bst_cong [OF keys, of t] by simp
      show "find (key ?N1) x head right t = (0, q', d')" using f find_cong(1) [OF keys, of t] by simp
      show "reps (?N1(q' \<mapsto> set_child d' u qn)) u ?new" using u(3,4) by simp
    qed (use hn(1) u qn facts(2) in auto)
    have "represents (state N' Map.empty (u + 1)) (m(x \<mapsto> v))"
    proof -
      obtain c where c: "N' head = Some (hn\<lparr>rchild := c\<rparr>)" "reps N' c (upd (key (nodes s)) x ?new t)"
        using link find_cong(3) [OF keys, of t] by auto
      show ?thesis
      proof (rule represents_upd [OF ok tip c(1) hn(1) c(2)])
        show "\<exists>n n'. nodes s b = Some n \<and> N' b = Some n' \<and> name n' = name n \<and> val n' = val n"
          if "b \<in> addrs t - addrs Tip" for b
          using facts(8) [of b] that u(1) qn by (auto simp: N'_def)
        show "dom N' = insert head (addrs t - addrs Tip \<union> addrs ?new)"
          using ok qn by (auto simp: N'_def db_ok_def)
        show "b < u + 1" if "b \<in> dom N'" for b
          using that db_ok_dom [OF ok] qn by (auto simp: N'_def u_def less_SucI split: if_splits)
        show "(m(x \<mapsto> v)) y = Some w \<longleftrightarrow> (\<exists>b\<in>addrs t - addrs Tip. \<exists>n. nodes s b = Some n \<and> y = name n \<and> w = val n) \<or>
            (\<exists>b\<in>addrs ?new. \<exists>n. N' b = Some n \<and> y = name n \<and> w = val n)" for y w
        proof (cases "y = x")
          case True
          then show ?thesis using fresh N'u(1) by auto
        next
          case False
          then show ?thesis using m N'u(1) by (auto simp: entries_iff)
        qed
      qed (use u N'u short in auto)
    qed
    then show ?thesis using add none by simp
  qed
qed


section \<open>Removing\<close>

lemma min_loop_ok:
  assumes "reps N (child d qn) t" "bst k t" "t \<noteq> Tip" "N q = Some qn" "q \<notin> addrs t" "\<forall>b\<in>addrs t. H b = None"
    and "min_place q d t = (m, q', d')"
  shows "min_loop (q, d) (child d qn) (state N (H(child d qn \<mapsto> l_write)) u) =
    Some ((q', d'), m, state N (H(m \<mapsto> l_write)) u)"
  using assms
proof (induction t arbitrary: q qn d)
  case (Fork l b r)
  obtain bn where bn: "N b = Some bn" "child d qn = b" "b \<noteq> 0" "reps N (lchild bn) l" "reps N (rchild bn) r"
    using Fork.prems(1) by (auto split: option.splits)
  note disj = bst_disjoint [OF Fork.prems(2)]
  show ?case
  proof (cases l)
    case Tip
    then show ?thesis using Fork.prems(7) bn by (subst min_loop.simps) (auto simp: get_node_def)
  next
    case (Fork l' c r')
    then have c: "lchild bn = c" "c \<noteq> 0" "N c \<noteq> None" "c \<noteq> b" "H c = None"
      using bn(4) Fork.prems(6) disj by (auto split: option.splits)
    have mp: "min_place b left l = (m, q', d')" using Fork.prems(7) Fork by simp
    have H: "(H(b \<mapsto> l_write, c \<mapsto> l_write))(b := None) = H(c \<mapsto> l_write)"
      using c(4) Fork.prems(6) by (auto simp: fun_eq_iff)
    have "min_loop (q, d) (child d qn) (state N (H(child d qn \<mapsto> l_write)) u) =
        min_loop (b, left) c (state N (H(c \<mapsto> l_write)) u)"
      unfolding bn(2)
      by (subst min_loop.simps) (use bn(1) c H in \<open>simp add: get_node_def lock_def unlock_def Let_def\<close>)
    moreover have "min_loop (b, left) (child left bn) (state N (H(child left bn \<mapsto> l_write)) u) =
        Some ((q', d'), m, state N (H(m \<mapsto> l_write)) u)"
      by (rule Fork.IH(1) [OF _ _ _ _ _ _ mp]) (use bn Fork.prems(2,6) disj Fork in auto)
    ultimately show ?thesis using c(1) by (simp del: fun_upd_apply)
  qed
qed simp

text \<open>What is left without the node of \<open>x\<close>.\<close>

lemma map_without:
  assumes ok: "db_ok s t" and m: "\<forall>x v. m x = Some v \<longleftrightarrow> (x, v) \<in> entries s t"
    and sub: "sub (key (nodes s)) x t = Fork l a r"
  shows "(m(x := None)) y = Some w \<longleftrightarrow> (\<exists>b\<in>addrs t - {a}. \<exists>n. nodes s b = Some n \<and> y = name n \<and> w = val n)"
proof -
  have x: "name n = x \<longleftrightarrow> b = a" if "b \<in> addrs t" "nodes s b = Some n" for b n
    using sub_unique [OF db_ok_facts(1) [OF ok] sub that(1)] that(2) by (simp add: key_def)
  show ?thesis
  proof (cases "y = x")
    case True
    then show ?thesis using x by auto
  next
    case False
    have "a \<in> addrs t" using sub_subset [of "key (nodes s)" x t] sub by auto
    then have "(\<exists>b\<in>addrs t. \<exists>n. nodes s b = Some n \<and> y = name n \<and> w = val n) \<longleftrightarrow>
        (\<exists>b\<in>addrs t - {a}. \<exists>n. nodes s b = Some n \<and> y = name n \<and> w = val n)" using x False by blast
    moreover have "(m(x := None)) y = m y" using False by simp
    ultimately show ?thesis using m by (simp only: entries_iff)
  qed
qed

text \<open>The removed node has at most one child: the child takes its place.\<close>

lemma remove_one_child:
  assumes ok: "db_ok s t" and m: "\<forall>x v. m x = Some v \<longleftrightarrow> (x, v) \<in> entries s t"
    and f: "find (key (nodes s)) x head right t = (a, q', d')" and qn: "nodes s q' = Some qn"
    and sub: "sub (key (nodes s)) x t = Fork l a r" "l = Tip \<or> r = Tip" and an: "nodes s a = Some an"
  defines "new \<equiv> if r = Tip then l else r" and "p \<equiv> if r = Tip then lchild an else rchild an"
  defines "N' \<equiv> ((nodes s)(q' \<mapsto> set_child d' p qn))(a := None)"
  shows "represents (state N' Map.empty (unused s)) (m(x := None))"
proof -
  note facts = db_ok_facts [OF ok] and parent = db_find_parent [OF ok f]
  obtain hn where hn: "nodes s head = Some hn" "name hn = []" "lchild hn = 0" "reps (nodes s) (rchild hn) t"
    by (rule db_ok_head [OF ok])
  let ?k = "key (nodes s)" and ?N = "(nodes s)(q' \<mapsto> set_child d' p qn)"
  have a: "a \<in> addrs t" "a \<noteq> head" "a \<noteq> q'" "addrs (Fork l a r) = insert a (addrs new)"
    using sub sub_subset [of ?k x t] facts(2) parent(4) by (auto simp: new_def)
  have bsub: "bst ?k (Fork l a r)" using bst_sub [OF facts(1), of x] sub(1) by simp
  have new: "bst ?k new" "a \<notin> addrs new" "addrs new \<subseteq> addrs t" "q' \<notin> addrs new"
    using bsub bst_disjoint [OF bsub] sub(1) sub_subset [of ?k x t] parent(4) by (auto simp: new_def)
  have "reps (nodes s) p new"
    using reps_sub [OF hn(4) sub(1)] an sub(2) by (auto simp: p_def new_def)
  then have "reps ?N p new" using new(4) by (simp del: fun_upd_apply)
  then obtain c where c: "?N head = Some (set_child right c hn)" "reps ?N c (upd ?k x new t)"
    using reps_link [of "nodes s" right hn t ?k head x a q' d' qn p new] facts(1,2) hn f qn by auto
  have set: "addrs (upd ?k x new t) = addrs t - {a} - addrs new \<union> addrs new"
    using set_upd [OF facts(1)] sub(1) a(4) by auto
  have c': "N' head = Some (hn\<lparr>rchild := c\<rparr>)" "reps N' c (upd ?k x new t)"
  proof -
    show "N' head = Some (hn\<lparr>rchild := c\<rparr>)" using c(1) a(2) by (simp add: N'_def)
    have "a \<notin> addrs (upd ?k x new t)" using set new(2) by blast
    then show "reps N' c (upd ?k x new t)" using c(2) by (simp add: N'_def del: fun_upd_apply)
  qed
  have rest: "\<exists>n n'. nodes s b = Some n \<and> N' b = Some n' \<and> name n' = name n \<and> val n' = val n"
    if "b \<in> addrs t" "b \<noteq> a" for b
    using facts(8) [OF that(1)] that qn by (auto simp: N'_def)
  have keys: "key N' b = ?k b" if "b \<in> addrs t" "b \<noteq> a" for b using rest [OF that] by (auto simp: key_def)
  show ?thesis
  proof (rule represents_upd [OF ok sub(1) c'(1) hn(1) c'(2)])
    show "bst (key N') new" using new bst_cong [of new "key N'" ?k] keys by blast
    show "dom N' = insert head (addrs t - addrs (Fork l a r) \<union> addrs new)"
      using ok qn a new by (auto simp: N'_def db_ok_def)
    show "b < unused s" if "b \<in> dom N'" for b
      using that db_ok_dom [OF ok] qn by (auto simp: N'_def split: if_splits)
    have split: "addrs t - {a} = (addrs t - addrs (Fork l a r)) \<union> addrs new" using a new by auto
    have here: "(\<exists>n. N' b = Some n \<and> y = name n \<and> w = val n) \<longleftrightarrow>
        (\<exists>n. nodes s b = Some n \<and> y = name n \<and> w = val n)" if "b \<in> addrs new" for b y w
      using rest [of b] that new by fastforce
    show "(m(x := None)) y = Some w \<longleftrightarrow>
        (\<exists>b\<in>addrs t - addrs (Fork l a r). \<exists>n. nodes s b = Some n \<and> y = name n \<and> w = val n) \<or>
        (\<exists>b\<in>addrs new. \<exists>n. N' b = Some n \<and> y = name n \<and> w = val n)" for y w
      unfolding map_without [OF ok m sub(1)] split bex_Un using here by (simp cong: bex_cong)
    show "head \<notin> addrs new" using new(3) facts(2) by blast
    show "\<exists>n n'. nodes s b = Some n \<and> N' b = Some n' \<and> name n' = name n \<and> val n' = val n"
      if "b \<in> addrs t - addrs (Fork l a r)" for b
      by (rule rest) (use that a(4) in auto)
    show "key N' b = x \<or> key N' b \<in> ?k ` addrs (Fork l a r)" if "b \<in> addrs new" for b
      using keys [of b] that new a(4) by auto
    show "length (name n) < MAXLEN \<and> length (val n) < MAXLEN" if "b \<in> addrs new" "N' b = Some n" for b n
      using rest [of b] facts(8) [of b] that new by force
  qed
qed

text \<open>With two children, the least node of the right subtree is taken out, and its pair moves up.\<close>

lemma remove_two_children:
  assumes ok: "db_ok s t" and m: "\<forall>x v. m x = Some v \<longleftrightarrow> (x, v) \<in> entries s t"
    and sub: "sub (key (nodes s)) x t = Fork l a r" "r \<noteq> Tip" and an: "nodes s a = Some an"
    and r: "reps (nodes s) (lchild an) l" "reps (nodes s) (rchild an) r"
    and mp: "min_place a right r = (b, q, d)" and bn: "nodes s b = Some bn"
  defines "an' \<equiv> an\<lparr>name := name bn, val := val bn\<rparr>"
  defines "N1 \<equiv> (nodes s)(a \<mapsto> an')"
  assumes qn: "N1 q = Some qn"
  defines "N' \<equiv> (N1(q \<mapsto> set_child d (rchild bn) qn))(b := None)"
  shows "represents (state N' Map.empty (unused s)) (m(x := None))"
proof -
  note facts = db_ok_facts [OF ok]
  obtain hn where hn: "nodes s head = Some hn" "name hn = []" "lchild hn = 0" "reps (nodes s) (rchild hn) t"
    by (rule db_ok_head [OF ok])
  let ?k = "key (nodes s)" and ?new = "Fork l a (del_min r)" and ?N2 = "N1(q \<mapsto> set_child d (rchild bn) qn)"
  have bsub: "bst ?k (Fork l a r)" using bst_sub [OF facts(1), of x] sub(1) by simp
  note disj = bst_disjoint [OF bsub]
  have set: "addrs (Fork l a r) \<subseteq> addrs t" using sub_subset [of ?k x t] sub(1) by simp
  have del: "bst ?k (del_min r)" "addrs r = insert b (addrs (del_min r))" "\<forall>c\<in>addrs (del_min r). ?k b < ?k c"
    using del_min_set [OF mp sub(2), of ?k] bsub by auto
  have place: "b \<in> addrs r" "q = a \<or> q \<in> addrs r" using min_place_place [OF mp sub(2)] by auto
  have q: "q \<in> addrs t" using place(2) set by auto
  have b: "b \<noteq> a" "b \<notin> addrs l" "b \<notin> addrs (del_min r)" using place(1) disj del(3) by auto
  have sub_set: "addrs (Fork l a r) = insert b (addrs ?new)" using del(2) by auto
  have "\<exists>c. ?N2 a = Some (set_child right c an') \<and> reps ?N2 c (del_min r)"
  proof (rule reps_del_min)
    show "reps N1 (child right an') r" using r(2) disj by (simp add: N1_def an'_def del: fun_upd_apply)
    show "bst ?k r" using bsub by simp
    show "N1 b = Some bn" using bn b by (simp add: N1_def)
  qed (use sub(2) disj mp qn in \<open>auto simp: N1_def\<close>)
  then obtain c where c: "?N2 a = Some (an'\<lparr>rchild := c\<rparr>)" "reps ?N2 c (del_min r)" by auto
  have N'a: "N' a = Some (an'\<lparr>rchild := c\<rparr>)" using c(1) b(1) by (simp add: N'_def)
  have rest: "\<exists>n n'. nodes s e = Some n \<and> N' e = Some n' \<and> name n' = name n \<and> val n' = val n"
    if "e \<in> addrs t" "e \<noteq> a" "e \<noteq> b" for e
    using facts(8) [OF that(1)] that qn by (auto simp: N'_def N1_def)
  have keys: "key N' e = ?k e" if "e \<in> addrs t" "e \<noteq> a" "e \<noteq> b" for e using rest [OF that] by (auto simp: key_def)
  have key_a: "key N' a = ?k b" using N'a bn by (simp add: key_def an'_def)
  have l: "reps N' (lchild an) l = reps (nodes s) (lchild an) l"
    by (rule reps_cong) (use disj place b in \<open>auto simp: N'_def N1_def\<close>)
  have same: "N' e = nodes s e" if "e \<notin> addrs (Fork l a r)" for e
    using that place by (auto simp: N'_def N1_def)
  have new: "reps N' a ?new"
    using N'a c(2) l r(1) b(3) reps_node [OF hn(4), of a] set by (simp add: N'_def an'_def del: fun_upd_apply)
  have "reps N' (rchild hn) (upd ?k x ?new t)"
    by (rule reps_upd [OF hn(4) facts(1) sub(1) new]) (use same sub(1) in auto)
  moreover have "N' head = Some (hn\<lparr>rchild := rchild hn\<rparr>)" using same [of head] set facts(2) hn(1) by auto
  ultimately have "represents (state N' Map.empty (unused s)) (m(x := None))"
  proof (intro represents_upd [OF ok sub(1) _ hn(1)])
    have k: "key N' e = ?k e" if "e \<in> addrs l \<or> e \<in> addrs (del_min r)" for e
      using keys [of e] that set b disj del(2) by auto
    have "bst (key N') l" "bst (key N') (del_min r)"
      using bst_cong [of l "key N'" ?k] bst_cong [of "del_min r" "key N'" ?k] k bsub del(1) by auto
    moreover have "?k e < ?k b" if "e \<in> addrs l" for e using bsub that place(1) by (auto dest: order_less_trans)
    ultimately show "bst (key N') ?new" using k key_a del(3) by simp
    show "head \<notin> addrs ?new" using set sub_set facts(2) by blast
    show "key N' e = x \<or> key N' e \<in> ?k ` addrs (Fork l a r)" if "e \<in> addrs ?new" for e
      using that key_a k [of e] place(1) del(2) by auto
    show "length (name n) < MAXLEN \<and> length (val n) < MAXLEN" if "e \<in> addrs ?new" "N' e = Some n" for e n
    proof (cases "e = a")
      case True
      then show ?thesis using that N'a facts(8) [of b] bn place(1) set by (auto simp: an'_def)
    next
      case False
      then show ?thesis using that rest [of e] facts(8) [of e] set b del(2) by fastforce
    qed
    show "dom N' = insert head (addrs t - addrs (Fork l a r) \<union> addrs ?new)"
    proof -
      have "dom N' = insert head (addrs t) - {b}"
        using ok an qn set q by (auto simp: N'_def N1_def db_ok_def)
      then show ?thesis using set sub_set b facts(2) by auto
    qed
    show "e < unused s" if "e \<in> dom N'" for e
      using that db_ok_dom [OF ok] qn an by (auto simp: N'_def N1_def split: if_splits)
    have split: "addrs t - {a} = (addrs t - addrs (Fork l a r)) \<union> {b} \<union> (addrs l \<union> addrs (del_min r))"
      using set sub_set b disj del(2) by auto
    have here: "(\<exists>n. N' e = Some n \<and> y = name n \<and> w = val n) \<longleftrightarrow>
        (\<exists>n. nodes s e = Some n \<and> y = name n \<and> w = val n)" if "e \<in> addrs l \<union> addrs (del_min r)" for e y w
      using rest [of e] that set b disj del(2) by fastforce
    have there: "(\<exists>n. N' a = Some n \<and> y = name n \<and> w = val n) \<longleftrightarrow>
        (\<exists>n. nodes s b = Some n \<and> y = name n \<and> w = val n)" for y w
      using N'a bn by (auto simp: an'_def)
    have new_set: "addrs ?new = {a} \<union> (addrs l \<union> addrs (del_min r))" by auto
    show "(m(x := None)) y = Some w \<longleftrightarrow>
        (\<exists>e\<in>addrs t - addrs (Fork l a r). \<exists>n. nodes s e = Some n \<and> y = name n \<and> w = val n) \<or>
        (\<exists>e\<in>addrs ?new. \<exists>n. N' e = Some n \<and> y = name n \<and> w = val n)" for y w
      unfolding map_without [OF ok m sub(1)] split new_set bex_Un using here there by (simp cong: bex_cong)
    show "\<exists>n n'. nodes s e = Some n \<and> N' e = Some n' \<and> name n' = name n \<and> val n' = val n"
      if "e \<in> addrs t - addrs (Fork l a r)" for e
      by (rule rest) (use that sub_set in auto)
  qed
  then show ?thesis .
qed

text \<open>The code, run with the locks the search leaves.\<close>

lemma locks_found: "a \<noteq> 0 \<Longrightarrow> locks_after True lt a q a = Some lt" "locks_after True lt a q q = Some lt"
  "a \<noteq> 0 \<Longrightarrow> ((locks_after True lt a q)(q := None))(a := None) = Map.empty"
  by (auto simp: locks_after_def fun_eq_iff)

lemma remove_one_eval:
  assumes ok: "db_ok s t" and f: "find (key (nodes s)) x head right t = (a, q', d')" and a: "a \<noteq> 0" "a \<noteq> q'"
    and n: "nodes s q' = Some qn" "nodes s a = Some an" "d' = side_of (name an) qn" "rchild an = 0 \<or> lchild an = 0"
  defines "p \<equiv> if rchild an = 0 then lchild an else rchild an"
  defines "N' \<equiv> ((nodes s)(q' \<mapsto> set_child d' p qn))(a := None)"
  shows "db_remove x s = Some (True, state N' Map.empty (unused s))"
proof -
  let ?H = "locks_after True l_write a q'" and ?N = "(nodes s)(q' \<mapsto> set_child d' p qn)" and ?u = "unused s"
  note H = locks_found(1,3) [OF a(1), of l_write q'] locks_found(2) [of l_write a q']
  have get: "get_node (state (nodes s) ?H ?u) a = Some an" "get_node (state (nodes s) ?H ?u) q' = Some qn"
    using n H by (simp_all add: get_node_def)
  have set: "set_node q' (set_child d' p qn) (state (nodes s) ?H ?u) = Some (state ?N ?H ?u)"
    using n H by (simp add: set_node_def)
  have unl: "unlock q' (state ?N ?H ?u) = Some (state ?N (?H(q' := None)) ?u)"
      "unlock a (state ?N (?H(q' := None)) ?u) = Some (state ?N Map.empty ?u)"
    using n H a by (simp_all add: unlock_def)
  have free: "node_destructor a (state ?N Map.empty ?u) = Some (state N' Map.empty ?u)"
    using n a by (simp add: node_destructor_def N'_def)
  show ?thesis
    using lock_head [OF ok] db_search [OF ok f, of True l_write] get set unl free a(1) n(3,4)
    by (auto simp: db_remove_def p_def)
qed

lemma remove_two_eval:
  assumes ok: "db_ok s t" and f: "find (key (nodes s)) x head right t = (a, q', d')" and a: "a \<noteq> 0" "a \<noteq> q'"
    and n: "nodes s q' = Some qn" "nodes s a = Some an" "rchild an \<noteq> 0" "lchild an \<noteq> 0"
    and r: "reps (nodes s) (rchild an) r" "bst (key (nodes s)) r" "a \<notin> addrs r" "q' \<notin> addrs r"
    and mp: "min_place a right r = (b, q, d)" and bn: "nodes s b = Some bn" "length (name bn) < MAXLEN" "length (val bn) < MAXLEN"
    and N1: "N1 = (nodes s)(a \<mapsto> an\<lparr>name := name bn, val := val bn\<rparr>)" "N1 q = Some qn'"
  defines "N' \<equiv> (N1(q \<mapsto> set_child d (rchild bn) qn'))(b := None)"
  shows "db_remove x s = Some (True, state N' Map.empty (unused s))"
proof -
  let ?H = "locks_after True l_write a q'" and ?u = "unused s"
  let ?N2 = "N1(q \<mapsto> set_child d (rchild bn) qn')"
  let ?c = "rchild an"
  note H = locks_found(1,3) [OF a(1), of l_write q'] locks_found(2) [of l_write a q']
  have tip: "r \<noteq> Tip" using r(1) n(3) by (cases r) auto
  then have c: "?c \<in> addrs r" "nodes s ?c \<noteq> None" using r(1) by (cases r; auto split: option.splits)+
  have b: "b \<in> addrs r" "b \<noteq> a" "b \<noteq> q'" using min_place_place [OF mp tip] r by auto
  have free_r: "?H e = None" if "e \<in> addrs r" for e using that r(3,4) by (auto simp: locks_after_def)
  have get: "get_node (state (nodes s) ?H ?u) a = Some an" "get_node (state (nodes s) ?H ?u) q' = Some qn"
    using n H by (simp_all add: get_node_def)
  have lock: "lock l_write ?c (state (nodes s) ?H ?u) = Some (state (nodes s) (?H(?c \<mapsto> l_write)) ?u)"
    using c free_r by (simp add: lock_def)
  let ?Hb = "?H(b \<mapsto> l_write)"
  have loop: "min_loop (a, right) ?c (state (nodes s) (?H(?c \<mapsto> l_write)) ?u) = Some ((q, d), b, state (nodes s) ?Hb ?u)"
    using min_loop_ok [of "nodes s" right an r "key (nodes s)" a ?H b q d ?u] r(1-3) tip n(2) free_r mp by simp
  have get2: "get_node (state (nodes s) ?Hb ?u) b = Some bn" "get_node (state (nodes s) ?Hb ?u) a = Some an"
    using bn n H b by (simp_all add: get_node_def)
  have set: "set_node a (an\<lparr>name := name bn, val := val bn\<rparr>) (state (nodes s) ?Hb ?u) = Some (state N1 ?Hb ?u)"
    using n H b(2) N1(1) by (simp add: set_node_def)
  have store: "store_child (q, d) (rchild bn) (state N1 ?Hb ?u) = Some (state ?N2 ?Hb ?u)"
    using N1(2) by (simp add: store_child_def)
  have Hb: "((?Hb(q' := None))(a := None))(b := None) = Map.empty"
    by (auto simp: locks_after_def fun_eq_iff)
  have dom: "?N2 q' \<noteq> None" "?N2 a \<noteq> None" "?N2 b \<noteq> None" using n bn N1(1) by auto
  have unl: "unlock q' (state ?N2 ?Hb ?u) = Some (state ?N2 (?Hb(q' := None)) ?u)"
      "unlock a (state ?N2 (?Hb(q' := None)) ?u) = Some (state ?N2 ((?Hb(q' := None))(a := None)) ?u)"
      "unlock b (state ?N2 ((?Hb(q' := None))(a := None)) ?u) = Some (state ?N2 Map.empty ?u)"
    unfolding Hb [symmetric] using dom a b H by (simp_all add: unlock_def del: fun_upd_apply) (simp_all add: fun_upd_apply)
  have free: "node_destructor b (state ?N2 Map.empty ?u) = Some (state N' Map.empty ?u)"
    using dom(3) by (simp add: node_destructor_def N'_def del: fun_upd_apply)
  show ?thesis
    using lock_head [OF ok] db_search [OF ok f, of True l_write] get lock loop get2 set store unl free a(1) n(3,4) bn
    by (simp add: db_remove_def snprintf_short del: fun_upd_apply)
qed

lemma db_remove_ok:
  assumes "represents s m"
  shows "\<exists>s'. db_remove x s = Some (m x \<noteq> None, s') \<and> represents s' (m(x := None))"
proof -
  obtain t where ok: "db_ok s t" and m: "\<forall>x v. m x = Some v \<longleftrightarrow> (x, v) \<in> entries s t"
    using assms by (auto simp: represents_def)
  note facts = db_ok_facts [OF ok]
  obtain a q' d' where f: "find (key (nodes s)) x head right t = (a, q', d')" by (metis prod_cases3)
  obtain qn where qn: "nodes s q' = Some qn" "d' = side_of x qn" using db_find_parent(1) [OF ok f] by blast
  show ?thesis
  proof (cases "a = 0")
    case True
    have "m x = None" by (rule lookup_not_found [OF ok m db_find_node(1) [OF ok f True]])
    moreover have "locks_after True l_write a q' = [q' \<mapsto> l_write]"
      using True db_find_parent(3) [OF ok f] by (auto simp: locks_after_def fun_eq_iff)
    then have "db_remove x s = Some (False, s)"
      using True qn lock_head [OF ok] db_search [OF ok f, of True l_write] facts(5)
      by (simp add: db_remove_def unlock_def)
    moreover have "m(x := None) = m" using calculation(1) by auto
    ultimately show ?thesis using assms by simp
  next
    case False
    then obtain l r an where an: "sub (key (nodes s)) x t = Fork l a r" "nodes s a = Some an" "name an = x"
      "reps (nodes s) (lchild an) l" "reps (nodes s) (rchild an) r"
      using db_find_node(2) [OF ok f] by blast
    have some: "m x = Some (val an)" by (rule lookup_found [OF ok m an(1,2)])
    have ne: "a \<noteq> q'" "q' \<notin> addrs r" using db_find_parent(4) [OF ok f] an(1) by auto
    have bsub: "bst (key (nodes s)) (Fork l a r)" using bst_sub [OF facts(1), of x] an(1) by simp
    have zero: "rchild an = 0 \<longleftrightarrow> r = Tip" "lchild an = 0 \<longleftrightarrow> l = Tip" using an reps_zero by blast+
    show ?thesis
    proof (cases "l = Tip \<or> r = Tip")
      case True
      then show ?thesis
        using remove_one_eval [OF ok f False ne(1) qn(1) an(2)] remove_one_child [OF ok m f qn(1) an(1) True an(2)]
          qn(2) an(3) zero some by auto
    next
      case two: False
      obtain b q d where mp: "min_place a right r = (b, q, d)" by (metis prod_cases3)
      have place: "b \<in> addrs r" "q = a \<or> q \<in> addrs r" using min_place_place [OF mp] two by auto
      have r_t: "addrs r \<subseteq> addrs t" using sub_subset [of "key (nodes s)" x t] an(1) by auto
      obtain bn where bn: "nodes s b = Some bn" "length (name bn) < MAXLEN" "length (val bn) < MAXLEN"
        using facts(8) [of b] place(1) r_t by auto
      let ?N1 = "(nodes s)(a \<mapsto> an\<lparr>name := name bn, val := val bn\<rparr>)"
      have "?N1 q \<noteq> None" using place(2) r_t facts(8) [of q] by auto
      then obtain qn' where qn': "?N1 q = Some qn'" by blast
      have "db_remove x s = Some (True, state ((?N1(q \<mapsto> set_child d (rchild bn) qn'))(b := None)) Map.empty (unused s))"
        by (rule remove_two_eval [OF ok f False ne(1) qn(1) an(2) _ _ an(5) _ _ ne(2) mp bn refl qn'])
          (use two zero bsub bst_disjoint [OF bsub] in auto)
      moreover have "represents (state ((?N1(q \<mapsto> set_child d (rchild bn) qn'))(b := None)) Map.empty (unused s)) (m(x := None))"
        by (rule remove_two_children [OF ok m an(1) _ an(2,4,5) mp bn(1) qn']) (use two in auto)
      ultimately show ?thesis using some by auto
    qed
  qed
qed

section \<open>Printing and destroying\<close>

fun tree_lines :: "(nat \<Rightarrow> db_node option) \<Rightarrow> shape \<Rightarrow> nat \<Rightarrow> string list" where
  "tree_lines N Tip lvl = [print_spaces lvl @ ''(null)'']"
| "tree_lines N (Fork l a r) lvl = (print_spaces lvl @ name (the (N a)) @ '' '' @ val (the (N a))) #
     tree_lines N l (lvl + 1) @ tree_lines N r (lvl + 1)"

lemma db_print_recurs_ok: "reps (nodes s) p t \<Longrightarrow> head \<notin> addrs t \<Longrightarrow>
    db_print_recurs s p lvl = Some (tree_lines (nodes s) t lvl)"
proof (induction t arbitrary: p lvl)
  case Tip
  then show ?case by (subst db_print_recurs.simps) simp
next
  case (Fork l a r)
  then show ?case by (subst db_print_recurs.simps) (auto split: option.splits)
qed

lemma tree_lines_length: "bst k t \<Longrightarrow> length (tree_lines N t lvl) = 2 * card (addrs t) + 1 \<and> finite (addrs t)"
proof (induction t arbitrary: lvl)
  case (Fork l a r)
  then show ?case using bst_disjoint [OF Fork.prems] by (simp add: card_Un_disjoint)
qed simp

lemma tree_lines_entry: "a \<in> addrs t \<Longrightarrow> N a = Some n \<Longrightarrow>
    \<exists>i. print_spaces i @ name n @ '' '' @ val n \<in> set (tree_lines N t lvl)"
proof (induction t arbitrary: lvl)
  case (Fork l b r)
  show ?case
  proof (cases "a = b")
    case True
    then show ?thesis using Fork.prems by (intro exI [of _ lvl]) simp
  next
    case False
    then show ?thesis using Fork.IH [of "lvl + 1"] Fork.prems by auto
  qed
qed simp

lemma represents_card:
  assumes "db_ok s t" and m: "\<forall>x v. m x = Some v \<longleftrightarrow> (x, v) \<in> entries s t"
  shows "card (dom m) = card (addrs t)"
proof -
  let ?k = "key (nodes s)"
  have "inj_on ?k (addrs t)"
  proof
    fix a b assume "a \<in> addrs t" "b \<in> addrs t" "?k a = ?k b"
    then show "a = b" using bst_inj [OF db_ok_facts(1) [OF assms(1)]] by blast
  qed
  moreover have "dom m = ?k ` addrs t"
  proof (intro set_eqI iffI)
    fix x assume "x \<in> dom m"
    then show "x \<in> ?k ` addrs t" using m by (force simp: entries_iff key_def)
  next
    fix x assume "x \<in> ?k ` addrs t"
    then obtain b where b: "b \<in> addrs t" "x = ?k b" by blast
    then obtain n where "nodes s b = Some n" using db_ok_facts(8) [OF assms(1)] by blast
    then have "m x = Some (val n)" using m b by (auto simp: entries_iff key_def)
    then show "x \<in> dom m" by blast
  qed
  ultimately show ?thesis by (simp add: card_image)
qed

lemma db_print_head_ok:
  assumes "represents s m"
  shows "\<exists>ls. db_print_recurs s head 0 = Some ls \<and> length ls = 2 * card (dom m) + 3 \<and>
    (\<forall>x v. m x = Some v \<longrightarrow> (\<exists>i. print_spaces i @ x @ '' '' @ v \<in> set ls))"
proof -
  obtain t where ok: "db_ok s t" and m: "\<forall>x v. m x = Some v \<longleftrightarrow> (x, v) \<in> entries s t"
    using assms by (auto simp: represents_def)
  obtain hn where hn: "nodes s head = Some hn" "lchild hn = 0" "reps (nodes s) (rchild hn) t" by (rule db_ok_head [OF ok])
  note facts = db_ok_facts [OF ok]
  let ?ls = "''(root)'' # '' (null)'' # tree_lines (nodes s) t 1"
  have "db_print_recurs s 0 1 = Some ['' (null)'']" by (subst db_print_recurs.simps) (simp add: print_spaces_def)
  then have "db_print_recurs s head 0 = Some ?ls"
    using hn facts db_print_recurs_ok [OF hn(3) facts(2), of 1]
    by (subst db_print_recurs.simps) (simp add: print_spaces_def)
  moreover have "\<exists>i. print_spaces i @ x @ '' '' @ v \<in> set ?ls" if "m x = Some v" for x v
    using that m tree_lines_entry [of _ t "nodes s" _ 1] by (fastforce simp: entries_iff)
  ultimately show ?thesis
    using tree_lines_length [OF facts(1), of "nodes s" 1] represents_card [OF ok m] by auto
qed

lemma db_print_ok:
  assumes "represents s m"
  shows "\<exists>ls. (\<forall>can_open filename. db_print can_open filename s = Some
      (case map_option (dropWhile isspace) filename of None \<Rightarrow> (0, Some (Stdout, ls))
       | Some f \<Rightarrow> if f = [] then (0, Some (Stdout, ls)) else if can_open f then (0, Some (Out f, ls)) else (- 1, None))) \<and>
    length ls = 2 * card (dom m) + 3 \<and>
    (\<forall>x v. m x = Some v \<longrightarrow> (\<exists>i. print_spaces i @ x @ '' '' @ v \<in> set ls))"
proof -
  obtain ls where "db_print_recurs s head 0 = Some ls" "length ls = 2 * card (dom m) + 3"
    "\<forall>x v. m x = Some v \<longrightarrow> (\<exists>i. print_spaces i @ x @ '' '' @ v \<in> set ls)" using db_print_head_ok [OF assms] by blast
  then show ?thesis by (intro exI [of _ ls] conjI) (auto simp: db_print_def Let_def split: option.splits)
qed

lemma db_cleanup_recurs_ok: "reps (nodes s) p t \<Longrightarrow> bst k t \<Longrightarrow> \<forall>a\<in>addrs t. held s a = None \<Longrightarrow>
    db_cleanup_recurs p s = Some (s\<lparr>nodes := (nodes s) |` (- addrs t)\<rparr>)"
proof (induction t arbitrary: p s)
  case Tip
  moreover have "s\<lparr>nodes := (nodes s) |` UNIV\<rparr> = s" by (cases s) (simp add: restrict_map_def)
  ultimately show ?case by (subst db_cleanup_recurs.simps) simp
next
  case (Fork l a r)
  note disj = bst_disjoint [OF Fork.prems(2)]
  obtain n where n: "p = a" "a \<noteq> 0" "nodes s a = Some n" "reps (nodes s) (lchild n) l" "reps (nodes s) (rchild n) r"
    using Fork.prems(1) by (auto split: option.splits)
  let ?s1 = "s\<lparr>nodes := (nodes s) |` (- addrs l)\<rparr>" and ?s2 = "s\<lparr>nodes := (nodes s) |` (- addrs l) |` (- addrs r)\<rparr>"
  have l: "db_cleanup_recurs (lchild n) s = Some ?s1" using Fork.IH(1) [OF n(4)] Fork.prems by auto
  have "reps ((nodes s) |` (- addrs l)) (rchild n) r = reps (nodes s) (rchild n) r"
    by (rule reps_cong) (use disj in \<open>auto simp: restrict_map_def\<close>)
  then have r: "db_cleanup_recurs (rchild n) ?s1 = Some ?s2"
    using Fork.IH(2) [of ?s1 "rchild n"] n(5) Fork.prems by auto
  have a: "node_destructor a ?s2 = Some (?s2\<lparr>nodes := ((nodes s) |` (- addrs l) |` (- addrs r))(a := None)\<rparr>)"
    using n(3) disj Fork.prems(3) by (simp add: node_destructor_def)
  have "((nodes s) |` (- addrs l) |` (- addrs r))(a := None) = (nodes s) |` (- addrs (Fork l a r))"
    by (auto simp: restrict_map_def fun_eq_iff)
  then show ?case using n(1-3) l r a by (subst db_cleanup_recurs.simps) simp
qed

lemma db_cleanup_ok:
  assumes "represents s m"
  shows "\<exists>s' hn. db_cleanup s = Some s' \<and> nodes s' = [head \<mapsto> hn] \<and> held s' = Map.empty"
proof -
  obtain t where ok: "db_ok s t" using assms by (auto simp: represents_def)
  obtain hn where hn: "nodes s head = Some hn" "lchild hn = 0" "reps (nodes s) (rchild hn) t" by (rule db_ok_head [OF ok])
  have "db_cleanup_recurs 0 s = Some s" by (subst db_cleanup_recurs.simps) simp
  moreover have "db_cleanup_recurs (rchild hn) s = Some (s\<lparr>nodes := (nodes s) |` (- addrs t)\<rparr>)"
    by (rule db_cleanup_recurs_ok [OF hn(3) db_ok_facts(1) [OF ok]]) (use ok in \<open>simp add: db_ok_def\<close>)
  moreover have "(nodes s) |` (- addrs t) = [head \<mapsto> hn]"
    using ok hn(1) by (auto simp: db_ok_def restrict_map_def fun_eq_iff)
  ultimately show ?thesis using hn(1,2) ok by (auto simp: db_cleanup_def db_ok_def)
qed

section \<open>Commands\<close>

text \<open>The specification: a command, parsed, acts on a finite map.\<close>

datatype command = Query string | Add string string | Remove string | File string | Ill_formed

definition parse :: "string \<Rightarrow> command" where
  "parse c = (if length c \<le> 1 then Ill_formed
     else let (w1, rest) = scan_word (drop 1 c); w2 = fst (scan_word rest)
       in if w1 = [] then Ill_formed
         else if c ! 0 = CHR ''q'' then Query w1
         else if c ! 0 = CHR ''a'' then (if w2 = [] then Ill_formed else Add w1 w2)
         else if c ! 0 = CHR ''d'' then Remove w1
         else if c ! 0 = CHR ''f'' then File w1
         else Ill_formed)"

type_synonym store = "string \<Rightarrow> string option"

text \<open>An empty value counts as none.\<close>

fun answer :: "command \<Rightarrow> store \<Rightarrow> string \<times> store" where
  "answer (Query x) m = (case m x of None \<Rightarrow> ''not found'' | Some v \<Rightarrow> if v = [] then ''not found'' else v, m)"
| "answer (Add x v) m = (if m x = None then (''added'', m(x \<mapsto> v)) else (''already in database'', m))"
| "answer (Remove x) m = (if m x = None then (''not in database'', m) else (''removed'', m(x := None)))"
| "answer (File x) m = (''bad file name'', m)"
| "answer Ill_formed m = (''ill-formed command'', m)"

inductive runs :: "(string \<Rightarrow> string list option) \<Rightarrow> nat \<Rightarrow> string list \<Rightarrow> string \<times> store \<Rightarrow> string \<times> store \<Rightarrow> bool"
  for files :: "string \<Rightarrow> string list option" and len :: nat where
  runs_done: "runs files len [] c c"
| runs_simple: "runs files len (command # commands) (r, m) c"
    if "\<forall>x. parse command = File x \<longrightarrow> files x = None" "answer (parse command) m = (r', m')"
      "runs files len commands (snprintf len r', m') c"
| runs_file: "runs files len (command # commands) (r, m) c"
    if "parse command = File x" "files x = Some ls" "runs files len ls (r, m) (r', m')"
      "runs files len commands (snprintf len ''file processed'', m') c"

inductive_cases runs_NilE: "runs files len [] c c'"
inductive_cases runs_ConsE: "runs files len (command # commands) c c'"

lemma scan_word_length: "scan_word xs = (w, rest) \<Longrightarrow> length w < MAXLEN"
  by (auto simp: scan_word_def Let_def MAXLEN_def)

lemma interpret_simple_ok:
  assumes rep: "represents s m" and a: "answer (parse c) m = (r, m')"
    and nf: "\<And>x. parse c \<noteq> File x"
  shows "\<exists>s'. interpret_simple c len s = Some (snprintf len r, s') \<and> represents s' m'"
proof -
  obtain w1 rest where w1: "scan_word (drop 1 c) = (w1, rest)" by fastforce
  obtain w2 rest2 where w2: "scan_word rest = (w2, rest2)" by fastforce
  note len = scan_word_length [OF w1] scan_word_length [OF w2]
  have query: "snprintf len (case m x of None \<Rightarrow> ''not found'' | Some v \<Rightarrow> if v = [] then ''not found'' else v) =
      (let response = snprintf len (case m x of None \<Rightarrow> ''not found'' | Some v \<Rightarrow> v)
       in if response = [] then snprintf len ''not found'' else response)" for x
    by (auto simp: snprintf_def Let_def split: option.splits)
  consider "length c \<le> 1 \<or> w1 = []" | "length c > 1" "w1 \<noteq> []" by force
  then show ?thesis
  proof cases
    case 1
    then have "parse c = Ill_formed" using w1 by (auto simp: parse_def)
    moreover have "interpret_simple c len s = Some (snprintf len ''ill-formed command'', s)"
      using 1 w1 by (auto simp: interpret_simple_def)
    ultimately show ?thesis using a rep by auto
  next
    case 2
    show ?thesis
    proof (cases "parse c")
      case (Query x)
      then have "c ! 0 = CHR ''q''" "x = w1" using 2 w1 w2 by (auto simp: parse_def split: if_splits)
      then show ?thesis using 2 w1 a rep Query db_query_ok [OF rep, of x len] query [of x]
        by (auto simp: interpret_simple_def Let_def)
    next
      case (Add x v)
      then have "c ! 0 = CHR ''a''" "x = w1" "v = w2" "w2 \<noteq> []" using 2 w1 w2 by (auto simp: parse_def split: if_splits)
      then show ?thesis using 2 w1 w2 a Add len db_add_ok [OF rep, of x v]
        by (auto simp: interpret_simple_def split: if_splits)
    next
      case (Remove x)
      then have "c ! 0 = CHR ''d''" "x = w1" using 2 w1 w2 by (auto simp: parse_def split: if_splits)
      moreover have "m(x := None) = m" if "m x = None" using that by auto
      ultimately show ?thesis using 2 w1 a Remove db_remove_ok [OF rep, of x]
        by (auto simp: interpret_simple_def split: if_splits)
    next
      case (File x)
      then show ?thesis using nf by blast
    next
      case Ill_formed
      then have "interpret_simple c len s = Some (snprintf len ''ill-formed command'', s)"
        using 2 w1 w2 by (auto simp: parse_def interpret_simple_def split: if_splits)
      then show ?thesis using a rep Ill_formed by auto
    qed
  qed
qed

lemma parse_File: "parse c = File x \<longleftrightarrow> length c > 1 \<and> c ! 0 = CHR ''f'' \<and> fst (scan_word (drop 1 c)) = x \<and> x \<noteq> []"
  by (auto simp: parse_def Let_def split: if_splits prod.splits)

text \<open>One command of the code, the recursion for files left as a parameter.\<close>

definition do_command :: "(string \<Rightarrow> string list option) \<Rightarrow> nat \<Rightarrow>
    (string list \<Rightarrow> string \<Rightarrow> db \<Rightarrow> (string \<times> db) option) \<Rightarrow> string \<Rightarrow> string \<Rightarrow> db \<Rightarrow> (string \<times> db) option" where
  "do_command files len f command response s =
     (if length command > 1 \<and> command ! 0 = CHR ''f'' then
        let (nm, rest) = scan_word (drop 1 command)
        in if nm = [] then Some (snprintf len ''ill-formed command'', s)
          else case files nm of None \<Rightarrow> Some (snprintf len ''bad file name'', s)
            | Some lines \<Rightarrow> do {
                (r, s) \<leftarrow> f lines response s;
                Some (snprintf len ''file processed'', s) }
      else interpret_simple command len s)"

lemma interpret_commands_Cons:
  "interpret_commands files len (command # commands) response s = do {
     (response, s) \<leftarrow> do_command files len (interpret_commands files len) command response s;
     interpret_commands files len commands response s }"
  by (subst interpret_commands.simps) (simp add: do_command_def)

lemma do_command_simple:
  assumes rep: "represents s m" and nf: "\<forall>x. parse c = File x \<longrightarrow> files x = None" and a: "answer (parse c) m = (r', m')"
  shows "\<exists>s'. do_command files len f c r s = Some (snprintf len r', s') \<and> represents s' m'"
proof (cases "\<exists>x. parse c = File x")
  case True
  then obtain x where x: "parse c = File x" by blast
  obtain w rest where w: "scan_word (drop 1 c) = (w, rest)" by fastforce
  moreover have "(r', m') = (''bad file name'', m)" using a x by simp
  ultimately show ?thesis using x nf rep by (auto simp: do_command_def parse_File)
next
  case False
  then have *: "\<exists>s'. interpret_simple c len s = Some (snprintf len r', s') \<and> represents s' m'"
    using interpret_simple_ok [OF rep a] by blast
  show ?thesis
  proof (cases "length c > 1 \<and> c ! 0 = CHR ''f''")
    case True
    obtain w rest where w: "scan_word (drop 1 c) = (w, rest)" by fastforce
    then have "w = []" using True False by (auto simp: parse_File)
    moreover have "parse c = Ill_formed" using True w calculation by (auto simp: parse_def)
    ultimately show ?thesis using True w a rep by (auto simp: do_command_def)
  next
    case False
    then show ?thesis using * by (auto simp: do_command_def)
  qed
qed

lemma interpret_commands_complete: "runs files len cs c c' \<Longrightarrow> represents s (snd c) \<Longrightarrow>
    \<exists>s'. interpret_commands files len cs (fst c) s = Some (fst c', s') \<and> represents s' (snd c')"
proof (induction arbitrary: s rule: runs.induct)
  case (runs_done c)
  then show ?case by (subst interpret_commands.simps) auto
next
  case (runs_simple c m r' m' cs c' r)
  then obtain s1 where s1: "do_command files len (interpret_commands files len) c r s = Some (snprintf len r', s1)" "represents s1 m'"
    using do_command_simple [of s m c files r' m' len "interpret_commands files len" r] by auto
  then show ?case using runs_simple.IH [of s1] by (simp add: interpret_commands_Cons)
next
  case (runs_file c x ls r m r' m' cs c')
  obtain w rest where w: "scan_word (drop 1 c) = (w, rest)" by fastforce
  have f: "length c > 1" "c ! 0 = CHR ''f''" "w = x" "x \<noteq> []" using runs_file.hyps(1) w by (auto simp: parse_File)
  obtain s1 where s1: "interpret_commands files len ls r s = Some (r', s1)" "represents s1 m'"
    using runs_file.IH(1) [of s] runs_file.prems by auto
  then have "do_command files len (interpret_commands files len) c r s = Some (snprintf len ''file processed'', s1)"
    using f w runs_file.hyps(2) by (simp add: do_command_def)
  then show ?case using runs_file.IH(2) [of s1] s1(2) by (simp add: interpret_commands_Cons)
qed

lemma do_command_cases:
  assumes c: "do_command files len f c r s = Some (r1, s1)" and rep: "represents s m"
  obtains (on_map) r' m' where "\<forall>x. parse c = File x \<longrightarrow> files x = None" "answer (parse c) m = (r', m')"
      "r1 = snprintf len r'" "represents s1 m'"
    | (in_file) x ls r' where "parse c = File x" "files x = Some ls" "f ls r s = Some (r', s1)"
      "r1 = snprintf len ''file processed''"
proof (cases "\<exists>x ls. parse c = File x \<and> files x = Some ls")
  case True
  then obtain x ls where x: "parse c = File x" "files x = Some ls" by blast
  obtain w rest where w: "scan_word (drop 1 c) = (w, rest)" by fastforce
  have "\<exists>r'. f ls r s = Some (r', s1) \<and> r1 = snprintf len ''file processed''"
    using c x w by (auto simp: do_command_def parse_File split: bind_splits)
  then show ?thesis using in_file x by blast
next
  case False
  then have nf: "\<forall>x. parse c = File x \<longrightarrow> files x = None" by auto
  obtain r' m' where a: "answer (parse c) m = (r', m')" by fastforce
  show ?thesis using do_command_simple [OF rep nf a, of len f r] c on_map [OF nf a] by auto
qed

lemma interpret_commands_sound:
  assumes "interpret_commands files len cs r s = Some y" "represents s m"
  shows "\<exists>m'. runs files len cs (r, m) (fst y, m') \<and> represents (snd y) m'"
proof -
  let ?P = "\<lambda>files len cs r s y. \<forall>m. represents s m \<longrightarrow> (\<exists>m'. runs files len cs (r, m) (fst y, m') \<and> represents (snd y) m')"
  have "?P files len cs r s y"
  proof (rule interpret_commands.raw_induct [of ?P, OF _ assms(1)], intro allI impI)
    fix f files len cs r s y and m :: store
    assume IH: "\<And>files len cs r s y. f files len cs r s = Some y \<Longrightarrow> ?P files len cs r s y" and rep: "represents s m"
      and "(case cs of [] \<Rightarrow> Some (r, s) | command # commands \<Rightarrow>
         (if 1 < length command \<and> command ! 0 = CHR ''f''
          then let (nm, rest) = scan_word (drop 1 command)
               in if nm = [] then Some (snprintf len ''ill-formed command'', s)
                 else case files nm of None \<Rightarrow> Some (snprintf len ''bad file name'', s)
                   | Some lines \<Rightarrow> f files len lines r s \<bind> (\<lambda>(r, s). Some (snprintf len ''file processed'', s))
          else interpret_simple command len s) \<bind> (\<lambda>(response, s). f files len commands response s)) = Some y"
    note def = this(3) [folded do_command_def]
    show "\<exists>m'. runs files len cs (r, m) (fst y, m') \<and> represents (snd y) m'"
    proof (cases cs)
      case Nil
      then show ?thesis using def rep runs_done [of files len "(r, m)"] by auto
    next
      case (Cons c cs')
      then obtain r1 s1 where one: "do_command files len (f files len) c r s = Some (r1, s1)" and more: "f files len cs' r1 s1 = Some y"
        using def by (auto split: bind_splits)
      from one rep show ?thesis
      proof (cases rule: do_command_cases)
        case (on_map r' m')
        then obtain m'' where "runs files len cs' (r1, m') (fst y, m'')" "represents (snd y) m''" using IH [OF more] by blast
        then show ?thesis using on_map Cons by (auto intro: runs_simple)
      next
        case (in_file x ls r')
        obtain m1 where m1: "runs files len ls (r, m) (r', m1)" "represents s1 m1" using IH [OF in_file(3)] rep by auto
        then obtain m'' where "runs files len cs' (r1, m1) (fst y, m'')" "represents (snd y) m''" using IH [OF more] by blast
        then show ?thesis using in_file Cons m1 by (auto intro: runs_file)
      qed
    qed
  qed
  then show ?thesis using assms(2) by blast
qed

lemma db_start_represents: "represents db_start Map.empty"
proof -
  have "db_ok db_start Tip" by (auto simp: db_ok_def db_start_def head_def)
  then show ?thesis unfolding represents_def by (intro exI [of _ Tip]) (simp add: entries_def)
qed

section \<open>The properties\<close>

text \<open>C24. In a state without locks that stands for a finite map, \<open>db_query\<close>, \<open>db_add\<close> and \<open>db_remove\<close>
report what the map says and leave a state without locks that stands for the updated map: an existing
name is not changed by adding it, and removing a node keeps all others, whatever its children.\<close>

theorem db_is_a_map:
  assumes "represents s m"
  shows "db_query x len s = Some (snprintf len (case m x of None \<Rightarrow> ''not found'' | Some v \<Rightarrow> v), s) \<and>
    (length x < MAXLEN \<and> length v < MAXLEN \<longrightarrow>
      (\<exists>s'. db_add x v s = Some (m x = None, s') \<and> represents s' (if m x = None then m(x \<mapsto> v) else m))) \<and>
    (\<exists>s'. db_remove x s = Some (m x \<noteq> None, s') \<and> represents s' (m(x := None)))"
  by (intro conjI impI db_query_ok [OF assms] db_add_ok [OF assms] db_remove_ok [OF assms]) auto

theorem db_is_a_map_witness:
  "(\<exists>s'. db_add ''ab'' ''c'' db_start = Some (True, s') \<and> represents s' [''ab'' \<mapsto> ''c'']) \<and>
    db_query ''ab'' 20 db_start = Some (''not found'', db_start)"
  using db_is_a_map [OF db_start_represents, of "''ab''" 20 "''c''"]
  by (simp add: MAXLEN_def snprintf_def)

text \<open>C25. A command of \<open>interpret_command\<close>, files of commands included, returns exactly when its run on
the finite map the state stands for ends; then the response and the resulting state are those of that
run. Files that name each other in a circle are the runs that do not end.\<close>

theorem interpret_command_refines_map:
  assumes "represents s m"
  shows "(\<forall>r' s'. interpret_command files len c r s = Some (r', s') \<longrightarrow>
      (\<exists>m'. runs files len [c] (r, m) (r', m') \<and> represents s' m')) \<and>
    (\<forall>r' m'. runs files len [c] (r, m) (r', m') \<longrightarrow>
      (\<exists>s'. interpret_command files len c r s = Some (r', s') \<and> represents s' m'))"
proof (intro conjI allI impI)
  fix r' s' assume "interpret_command files len c r s = Some (r', s')"
  then show "\<exists>m'. runs files len [c] (r, m) (r', m') \<and> represents s' m'"
    using interpret_commands_sound [of files len "[c]" r s "(r', s')" m] assms by (simp add: interpret_command_def)
next
  fix r' m' assume "runs files len [c] (r, m) (r', m')"
  then show "\<exists>s'. interpret_command files len c r s = Some (r', s') \<and> represents s' m'"
    using interpret_commands_complete [of files len "[c]" "(r, m)" "(r', m')" s] assms by (simp add: interpret_command_def)
qed

theorem interpret_command_refines_map_witness:
  "\<exists>s' m'. interpret_command [''cmds'' \<mapsto> [''a x 1'', ''q x'']] 20 ''f cmds'' [] db_start = Some (''file processed'', s') \<and>
    represents s' [''x'' \<mapsto> ''1''] \<and> runs [''cmds'' \<mapsto> [''a x 1'', ''q x'']] 20 [''f cmds''] ([], Map.empty) (''file processed'', m')"
proof -
  let ?f = "[''cmds'' \<mapsto> [''a x 1'', ''q x'']]"
  have p: "parse ''f cmds'' = File ''cmds''" "parse ''a x 1'' = Add ''x'' ''1''" "parse ''q x'' = Query ''x''"
    by (simp_all add: parse_def scan_word_def isspace_def)
  have "runs ?f 20 [''f cmds''] ([], Map.empty) (''file processed'', [''x'' \<mapsto> ''1''])"
    by (rule runs_file [where x = "''cmds''" and ls = "[''a x 1'', ''q x'']"])
      (auto simp: p snprintf_def intro!: runs_simple runs_done)
  then obtain s' where s': "interpret_command ?f 20 ''f cmds'' [] db_start = Some (''file processed'', s')" "represents s' [''x'' \<mapsto> ''1'']"
    using interpret_command_refines_map [OF db_start_represents] by blast
  then show ?thesis using interpret_command_refines_map [OF db_start_represents] by blast
qed

text \<open>Printing visits the whole tree, printing a line for every pair and for every empty child, to the
file whose name is left after leading blanks, or to the standard output when there is none; a file that
cannot be opened is reported and nothing is printed. Destroying the database frees every node once and
leaves the root alone.\<close>

theorem db_print_and_cleanup:
  assumes "represents s m"
  shows "(\<exists>ls. (\<forall>can_open filename. db_print can_open filename s = Some
      (case map_option (dropWhile isspace) filename of None \<Rightarrow> (0, Some (Stdout, ls))
       | Some f \<Rightarrow> if f = [] then (0, Some (Stdout, ls)) else if can_open f then (0, Some (Out f, ls)) else (- 1, None))) \<and>
    length ls = 2 * card (dom m) + 3 \<and>
    (\<forall>x v. m x = Some v \<longrightarrow> (\<exists>i. print_spaces i @ x @ '' '' @ v \<in> set ls))) \<and>
    (\<exists>s' hn. db_cleanup s = Some s' \<and> nodes s' = [head \<mapsto> hn] \<and> held s' = Map.empty)"
  by (intro conjI db_print_ok [OF assms] db_cleanup_ok [OF assms])

theorem db_print_and_cleanup_witness:
  "(\<exists>ls. db_print (\<lambda>f. False) (Some ''  '') db_start = Some (0, Some (Stdout, ls)) \<and> length ls = 3) \<and>
    (\<exists>s'. db_cleanup db_start = Some s' \<and> held s' = Map.empty)"
proof -
  obtain ls where "\<forall>can_open filename. db_print can_open filename db_start = Some
      (case map_option (dropWhile isspace) filename of None \<Rightarrow> (0, Some (Stdout, ls))
       | Some f \<Rightarrow> if f = [] then (0, Some (Stdout, ls)) else if can_open f then (0, Some (Out f, ls)) else (- 1, None))"
    "length ls = 3" using db_print_and_cleanup [OF db_start_represents] by auto
  then show ?thesis using db_print_and_cleanup [OF db_start_represents]
    by (auto simp: isspace_def)
qed

end
