(* ===== verification/UthreadDefs.thy ===== *)
theory UthreadDefs
  imports DList
begin

text \<open>
  The user-level thread library of \<open>uthreads_stencil\<close>: its lists, queues, scheduler, mutexes,
  condition variables and threads. Threads are the indices of \<open>uthreads\<close>; mutexes and condition
  variables have numbers, those of the reaper \<open>reap_mtx\<close> and \<open>reap_cond\<close>.

  A function that may switch to another thread is cut at the places it can be suspended: it returns
  the new state and the frames that are left to run, and each thread's context is its stack of
  frames. Swapping contexts then is changing \<open>ut_curthr\<close>. A failed assertion, \<open>PANIC\<close> and an access
  through \<open>NULL\<close> or outside an array are \<open>None\<close>. System calls, the timer and the saving of registers
  have no effect on this state. \<open>errno\<close> is not modelled.
\<close>

section \<open>Lists\<close>

datatype queue = Runq nat | Mtx_waiters nat | Cond_waiters nat | Reap_queue

text \<open>The links in memory: those of the lists' heads and those inside the threads.\<close>

datatype link_addr = Null | Head queue | Link nat

record links =
  l_next :: "link_addr \<Rightarrow> link_addr"
  l_prev :: "link_addr \<Rightarrow> link_addr"

definition set_l_next :: "links \<Rightarrow> link_addr \<Rightarrow> link_addr \<Rightarrow> links" where
  "set_l_next h a v = h\<lparr>l_next := (l_next h)(a := v)\<rparr>"

definition set_l_prev :: "links \<Rightarrow> link_addr \<Rightarrow> link_addr \<Rightarrow> links" where
  "set_l_prev h a v = h\<lparr>l_prev := (l_prev h)(a := v)\<rparr>"

definition list_init :: "link_addr \<Rightarrow> links \<Rightarrow> links" where
  "list_init l h = set_l_next (set_l_prev h l l) l l"

definition list_link_init :: "link_addr \<Rightarrow> links \<Rightarrow> links" where
  "list_link_init l h = set_l_next (set_l_prev h l Null) l Null"

definition list_empty :: "link_addr \<Rightarrow> links \<Rightarrow> bool" where
  "list_empty l h \<longleftrightarrow> l_next h l = l"

definition list_insert_before :: "link_addr \<Rightarrow> link_addr \<Rightarrow> links \<Rightarrow> links option" where
  "list_insert_before old new h = do {
     c_assert (old \<noteq> Null \<and> new \<noteq> Null);
     let h = set_l_next h new old;
     let h = set_l_prev h new (l_prev h old);
     c_assert (l_prev h old \<noteq> Null);
     let h = set_l_next h (l_prev h old) new;
     Some (set_l_prev h old new) }"

definition list_insert_head :: "link_addr \<Rightarrow> link_addr \<Rightarrow> links \<Rightarrow> links option" where
  "list_insert_head l new h = list_insert_before (l_next h l) new h"

definition list_insert_tail :: "link_addr \<Rightarrow> link_addr \<Rightarrow> links \<Rightarrow> links option" where
  "list_insert_tail l new h = list_insert_before l new h"

definition list_remove :: "link_addr \<Rightarrow> links \<Rightarrow> links option" where
  "list_remove ll h = do {
     let prev = l_prev h ll;
     let next = l_next h ll;
     c_assert (ll \<noteq> Null \<and> prev \<noteq> Null \<and> next \<noteq> Null);
     let h = set_l_next h prev next;
     let h = set_l_prev h next prev;
     Some (set_l_next (set_l_prev h ll Null) ll Null) }"

text \<open>\<open>list_item(link, uthread_t, ut_link)\<close>: the thread a link is in. The head of a list is in none.\<close>

fun list_item :: "link_addr \<Rightarrow> nat option" where
  "list_item (Link t) = Some t"
| "list_item _ = None"

section \<open>The state\<close>

definition UTH_MAXPRIO :: int where "UTH_MAXPRIO = 7"
definition UTH_MAX_UTHREADS :: nat where "UTH_MAX_UTHREADS = 64"

datatype uthread_state = UT_NO_STATE | UT_ON_CPU | UT_RUNNABLE | UT_WAIT | UT_ZOMBIE | UT_TRANSITION

record uthread =
  ut_id :: nat
  ut_state :: uthread_state
  ut_prio :: int
  ut_has_exited :: bool
  ut_exit :: int
  ut_detached :: bool
  ut_waiter :: "nat option"

text \<open>The function of a thread: code of the user of the library, or the reaper.\<close>

datatype func = User_code | Reaper

text \<open>What is left to run: calls of the library, and the rest of its functions after a suspension.\<close>

datatype frame =
    User
  | Thread_start func
  | Yield
  | Switch
  | Nopreempt_reset
  | Setprio int int
  | Mtx_init nat
  | Mtx_lock nat
  | Mtx_own nat
  | Mtx_trylock nat
  | Mtx_unlock nat
  | Cond_init nat
  | Cond_wait "nat option" nat
  | Cond_wait_enqueue nat nat
  | Cond_signal nat
  | Cond_broadcast nat
  | Cond_broadcast_loop nat
  | Create int func bool
  | Create_done nat
  | Exit int
  | Panic
  | Join int
  | Join_rest nat
  | Detach int
  | Make_reapable nat
  | Reap_insert nat
  | Reaper_loop
  | Reaper_created
  | Return int

record uths =
  links :: links
  tq_size :: "queue \<Rightarrow> int"
  uthreads :: "nat \<Rightarrow> uthread"
  ut_curthr :: nat
  uthread_no_preempt :: bool
  uthread_no_preempt_count :: int
  m_owner :: "nat \<Rightarrow> nat option"
  reaper_thr_id :: nat
  stacks :: "nat \<Rightarrow> frame list"
  returned :: "nat \<Rightarrow> int"
  exit_value :: "nat \<Rightarrow> int"
  new_id :: "nat \<Rightarrow> nat"
  clock_count :: int
  taken_clock_count :: int
  exited :: bool

definition upd_thread :: "nat \<Rightarrow> (uthread \<Rightarrow> uthread) \<Rightarrow> uths \<Rightarrow> uths" where
  "upd_thread t f s = s\<lparr>uthreads := (uthreads s)(t := f (uthreads s t))\<rparr>"

definition curthr :: "uths \<Rightarrow> uthread" where
  "curthr s = uthreads s (ut_curthr s)"

definition return :: "int \<Rightarrow> uths \<Rightarrow> uths" where
  "return v s = s\<lparr>returned := (returned s)(ut_curthr s := v)\<rparr>"

section \<open>Queues\<close>

definition utqueue_init :: "queue \<Rightarrow> uths \<Rightarrow> uths" where
  "utqueue_init q s = s\<lparr>links := list_init (Head q) (links s), tq_size := (tq_size s)(q := 0)\<rparr>"

definition utqueue_empty :: "queue \<Rightarrow> uths \<Rightarrow> bool option" where
  "utqueue_empty q s = do {
     c_assert (list_empty (Head q) (links s) \<longleftrightarrow> tq_size s q = 0);
     Some (tq_size s q = 0) }"

definition utqueue_enqueue :: "queue \<Rightarrow> nat \<Rightarrow> uths \<Rightarrow> uths option" where
  "utqueue_enqueue q thr s = do {
     c_assert (l_next (links s) (Link thr) = Null \<and> l_prev (links s) (Link thr) = Null);
     h \<leftarrow> list_insert_head (Head q) (Link thr) (links s);
     Some (s\<lparr>links := h, tq_size := (tq_size s)(q := tq_size s q + 1)\<rparr>) }"

definition utqueue_dequeue :: "queue \<Rightarrow> uths \<Rightarrow> (nat option \<times> uths) option" where
  "utqueue_dequeue q s = do {
     empty \<leftarrow> utqueue_empty q s;
     if empty then Some (None, s)
     else do {
       let link = l_prev (links s) (Head q);
       thr \<leftarrow> list_item link;
       h \<leftarrow> list_remove link (links s);
       Some (Some thr, s\<lparr>links := h, tq_size := (tq_size s)(q := tq_size s q - 1)\<rparr>) } }"

definition utqueue_remove :: "queue \<Rightarrow> nat \<Rightarrow> uths \<Rightarrow> uths option" where
  "utqueue_remove q thr s = do {
     c_assert (l_next (links s) (Link thr) \<noteq> Null \<and> l_prev (links s) (Link thr) \<noteq> Null);
     h \<leftarrow> list_remove (Link thr) (links s);
     Some (s\<lparr>links := h, tq_size := (tq_size s)(q := tq_size s q - 1)\<rparr>) }"

section \<open>The scheduler\<close>

definition uthread_nopreempt_on :: "uths \<Rightarrow> uths" where
  "uthread_nopreempt_on s = s\<lparr>uthread_no_preempt_count := uthread_no_preempt_count s + 1, uthread_no_preempt := True\<rparr>"

definition uthread_nopreempt_off :: "uths \<Rightarrow> uths option" where
  "uthread_nopreempt_off s = do {
     let s = s\<lparr>uthread_no_preempt_count := uthread_no_preempt_count s - 1\<rparr>;
     let s = (if uthread_no_preempt_count s = 0 then s\<lparr>uthread_no_preempt := False\<rparr> else s);
     c_assert (uthread_no_preempt_count s \<ge> 0);
     Some s }"

definition uthread_nopreempt_reset :: "uths \<Rightarrow> uths" where
  "uthread_nopreempt_reset s = s\<lparr>uthread_no_preempt := False\<rparr>"

text \<open>\<open>&runq_table[prio]\<close>.\<close>

definition runq :: "int \<Rightarrow> queue option" where
  "runq prio = (if 0 \<le> prio \<and> prio \<le> UTH_MAXPRIO then Some (Runq (nat prio)) else None)"

definition enqueue_runnable :: "nat \<Rightarrow> uths \<Rightarrow> uths option" where
  "enqueue_runnable t s = do {
     let s = uthread_nopreempt_on s;
     q \<leftarrow> runq (ut_prio (uthreads s t));
     s \<leftarrow> utqueue_enqueue q t s;
     uthread_nopreempt_off s }"

definition uthread_yield :: "uths \<Rightarrow> (uths \<times> frame list) option" where
  "uthread_yield s = do {
     let s = upd_thread (ut_curthr s) (\<lambda>u. u\<lparr>ut_state := UT_RUNNABLE\<rparr>) s;
     s \<leftarrow> enqueue_runnable (ut_curthr s) s;
     Some (s, [Switch, Nopreempt_reset]) }"

definition uthread_block :: "uths \<Rightarrow> uths \<times> frame list" where
  "uthread_block s = (upd_thread (ut_curthr s) (\<lambda>u. u\<lparr>ut_state := UT_WAIT\<rparr>) s, [Switch, Nopreempt_reset])"

definition uthread_wake :: "nat \<Rightarrow> uths \<Rightarrow> (uths \<times> frame list) option" where
  "uthread_wake uthr s =
     (if ut_state (uthreads s uthr) = UT_WAIT then do {
        let s = upd_thread uthr (\<lambda>u. u\<lparr>ut_state := UT_RUNNABLE\<rparr>) s;
        s \<leftarrow> enqueue_runnable uthr s;
        if ut_prio (uthreads s uthr) > ut_prio (curthr s) \<and> ut_state (curthr s) = UT_ON_CPU
        then uthread_yield s else Some (s, []) }
      else Some (s, []))"

text \<open>\<open>&uthreads[id]\<close>.\<close>

definition thread :: "int \<Rightarrow> nat option" where
  "thread i = (if 0 \<le> i \<and> i < int UTH_MAX_UTHREADS then Some (nat i) else None)"

definition uthread_setprio :: "int \<Rightarrow> int \<Rightarrow> uths \<Rightarrow> (uths \<times> frame list) option" where
  "uthread_setprio i prio s = do {
     uid \<leftarrow> thread i;
     s \<leftarrow> (if ut_state (uthreads s uid) = UT_RUNNABLE \<and>
            (l_prev (links s) (Link uid) \<noteq> Null \<or> l_next (links s) (Link uid) \<noteq> Null) then do {
          let s = uthread_nopreempt_on s;
          q \<leftarrow> runq (ut_prio (uthreads s uid));
          s \<leftarrow> utqueue_remove q uid s;
          s \<leftarrow> uthread_nopreempt_off s;
          Some (s\<lparr>links := list_link_init (Link uid) (links s)\<rparr>) }
        else Some s);
     let s = upd_thread uid (\<lambda>u. u\<lparr>ut_prio := prio\<rparr>) s;
     s \<leftarrow> enqueue_runnable uid s;
     (s, fs) \<leftarrow> (if ut_prio (uthreads s uid) > ut_prio (curthr s) then uthread_yield s else Some (s, []));
     Some (s, fs @ [Return 0]) }"

text \<open>The loop of \<open>uthread_switch\<close> over the run queues.\<close>

function pick_thread :: "int \<Rightarrow> int \<Rightarrow> uths \<Rightarrow> (nat option \<times> uths) option" where
  "pick_thread i cur_prio s = (if i \<ge> cur_prio then do {
     let s = uthread_nopreempt_on s;
     q \<leftarrow> runq i;
     empty \<leftarrow> utqueue_empty q s;
     if empty then do {
       s \<leftarrow> uthread_nopreempt_off s;
       pick_thread (i - 1) cur_prio s }
     else do {
       (next_thread, s) \<leftarrow> utqueue_dequeue q s;
       s \<leftarrow> uthread_nopreempt_off s;
       Some (next_thread, s) } }
   else Some (None, s))"
  by pat_completeness auto

termination by (relation "measure (\<lambda>(i, c, _). nat (i - c + 1))") auto

declare pick_thread.simps [simp del]

text \<open>When no thread is found, \<open>while(!i)\<close> goes around again only if the loop ended with 0.\<close>

definition switch_prio :: "uths \<Rightarrow> int" where
  "switch_prio s = (if ut_state (curthr s) = UT_WAIT then 0 else ut_prio (curthr s))"

definition uthread_switch :: "uths \<Rightarrow> (uths \<times> frame list) option" where
  "uthread_switch s = do {
     let cur_prio = switch_prio s;
     (next, s) \<leftarrow> pick_thread UTH_MAXPRIO cur_prio s;
     case next of
       None \<Rightarrow> Some (s, if cur_prio - 1 = 0 then [Switch] else [])
     | Some next_thread \<Rightarrow> do {
         let s = s\<lparr>links := list_link_init (Link next_thread) (links s)\<rparr>;
         let s = s\<lparr>ut_curthr := next_thread\<rparr>;
         Some (upd_thread next_thread (\<lambda>u. u\<lparr>ut_state := UT_ON_CPU\<rparr>) s, []) } }"

definition init_runqueues :: "uths \<Rightarrow> uths" where
  "init_runqueues s = fold (\<lambda>i. utqueue_init (Runq i)) [0..<nat UTH_MAXPRIO + 1] s"

definition clock_interrupt :: "uths \<Rightarrow> uths \<times> frame list" where
  "clock_interrupt s =
     (let s = s\<lparr>clock_count := clock_count s + 1\<rparr>
      in if \<not> uthread_no_preempt s then (s\<lparr>taken_clock_count := taken_clock_count s + 1\<rparr>, [Yield]) else (s, []))"

section \<open>Mutexes\<close>

definition uthread_mtx_init :: "nat \<Rightarrow> uths \<Rightarrow> uths" where
  "uthread_mtx_init mtx s = utqueue_init (Mtx_waiters mtx) (s\<lparr>m_owner := (m_owner s)(mtx := None)\<rparr>)"

definition own_mtx :: "nat \<Rightarrow> uths \<Rightarrow> uths" where
  "own_mtx mtx s = s\<lparr>m_owner := (m_owner s)(mtx := Some (ut_curthr s))\<rparr>"

definition uthread_mtx_lock :: "nat \<Rightarrow> uths \<Rightarrow> (uths \<times> frame list) option" where
  "uthread_mtx_lock mtx s = do {
     let s = uthread_nopreempt_on s;
     if m_owner s mtx \<noteq> None then do {
       s \<leftarrow> utqueue_enqueue (Mtx_waiters mtx) (ut_curthr s) s;
       let (s, fs) = uthread_block s;
       Some (s, fs @ [Mtx_own mtx]) }
     else Some (own_mtx mtx s, []) }"

definition uthread_mtx_trylock :: "nat \<Rightarrow> uths \<Rightarrow> uths option" where
  "uthread_mtx_trylock mtx s = do {
     let s = uthread_nopreempt_on s;
     if m_owner s mtx \<noteq> None then do {
       s \<leftarrow> uthread_nopreempt_off s;
       Some (return 0 s) }
     else do {
       s \<leftarrow> uthread_nopreempt_off (own_mtx mtx s);
       Some (return 1 s) } }"

definition uthread_mtx_unlock :: "nat \<Rightarrow> uths \<Rightarrow> (uths \<times> frame list) option" where
  "uthread_mtx_unlock mtx s = do {
     let s = uthread_nopreempt_on s;
     empty \<leftarrow> utqueue_empty (Mtx_waiters mtx) s;
     if empty then do {
       s \<leftarrow> uthread_nopreempt_off (s\<lparr>m_owner := (m_owner s)(mtx := None)\<rparr>);
       Some (s, []) }
     else do {
       (deq, s) \<leftarrow> utqueue_dequeue (Mtx_waiters mtx) s;
       s \<leftarrow> uthread_nopreempt_off s;
       deq \<leftarrow> deq;
       uthread_wake deq s } }"

section \<open>Condition variables\<close>

definition uthread_cond_init :: "nat \<Rightarrow> uths \<Rightarrow> uths" where
  "uthread_cond_init cond s = utqueue_init (Cond_waiters cond) s"

text \<open>A condition variable that is \<open>NULL\<close> is \<open>None\<close>: the thread does not block then.\<close>

definition uthread_cond_wait :: "nat option \<Rightarrow> nat \<Rightarrow> uths \<Rightarrow> (uths \<times> frame list) option" where
  "uthread_cond_wait cond mtx s = do {
     let s = uthread_nopreempt_on s;
     (s, fs) \<leftarrow> uthread_mtx_unlock mtx s;
     Some (s, fs @ (case cond of Some c \<Rightarrow> [Cond_wait_enqueue c mtx] | None \<Rightarrow> [Mtx_lock mtx])) }"

definition cond_wait_enqueue :: "nat \<Rightarrow> nat \<Rightarrow> uths \<Rightarrow> (uths \<times> frame list) option" where
  "cond_wait_enqueue cond mtx s = do {
     s \<leftarrow> utqueue_enqueue (Cond_waiters cond) (ut_curthr s) s;
     let (s, fs) = uthread_block s;
     Some (s, fs @ [Mtx_lock mtx]) }"

definition cond_broadcast_loop :: "nat \<Rightarrow> uths \<Rightarrow> (uths \<times> frame list) option" where
  "cond_broadcast_loop cond s = do {
     empty \<leftarrow> utqueue_empty (Cond_waiters cond) s;
     if empty then do {
       s \<leftarrow> uthread_nopreempt_off s;
       Some (s, []) }
     else do {
       (deq, s) \<leftarrow> utqueue_dequeue (Cond_waiters cond) s;
       deq \<leftarrow> deq;
       (s, fs) \<leftarrow> uthread_wake deq (s\<lparr>links := list_link_init (Link deq) (links s)\<rparr>);
       Some (s, fs @ [Cond_broadcast_loop cond]) } }"

definition uthread_cond_broadcast :: "nat \<Rightarrow> uths \<Rightarrow> (uths \<times> frame list) option" where
  "uthread_cond_broadcast cond s = cond_broadcast_loop cond (uthread_nopreempt_on s)"

definition uthread_cond_signal :: "nat \<Rightarrow> uths \<Rightarrow> (uths \<times> frame list) option" where
  "uthread_cond_signal cond s = do {
     let s = uthread_nopreempt_on s;
     empty \<leftarrow> utqueue_empty (Cond_waiters cond) s;
     if empty then do {
       s \<leftarrow> uthread_nopreempt_off s;
       Some (s, []) }
     else do {
       (deq, s) \<leftarrow> utqueue_dequeue (Cond_waiters cond) s;
       s \<leftarrow> uthread_nopreempt_off s;
       deq \<leftarrow> deq;
       uthread_wake deq (s\<lparr>links := list_link_init (Link deq) (links s)\<rparr>) } }"

section \<open>Threads\<close>

definition uthread_alloc :: "uths \<Rightarrow> nat option \<times> uths" where
  "uthread_alloc s = (case List.find (\<lambda>i. ut_state (uthreads s i) = UT_NO_STATE) [0..<UTH_MAX_UTHREADS] of
     None \<Rightarrow> (None, s)
   | Some i \<Rightarrow> (Some i, upd_thread i (\<lambda>u. u\<lparr>ut_id := i, ut_state := UT_TRANSITION\<rparr>) s))"

text \<open>The argument \<open>mem\<close> says whether \<open>malloc\<close> finds memory for the stack.\<close>

definition uthread_create :: "int \<Rightarrow> func \<Rightarrow> bool \<Rightarrow> uths \<Rightarrow> (uths \<times> frame list) option" where
  "uthread_create prio func mem s = (case uthread_alloc s of
     (None, s) \<Rightarrow> Some (s, [Return (- 1)])
   | (Some uid, s) \<Rightarrow> do {
       s \<leftarrow> uthread_nopreempt_off (uthread_nopreempt_on s);
       if \<not> mem then Some (s, [Return (- 1)])
       else do {
         let s = s\<lparr>stacks := (stacks s)(uid := [Thread_start func])\<rparr>;
         let s = upd_thread uid (\<lambda>u. u\<lparr>ut_state := UT_RUNNABLE\<rparr>) s;
         (s, fs) \<leftarrow> uthread_setprio (int uid) prio s;
         Some (s, fs @ [Create_done uid]) } })"

definition create_done :: "nat \<Rightarrow> uths \<Rightarrow> uths" where
  "create_done uid s = return 0 (s\<lparr>new_id := (new_id s)(ut_curthr s := uid)\<rparr>)"

definition reap_mtx :: nat where "reap_mtx = 0"
definition reap_cond :: nat where "reap_cond = 0"

definition thread_start :: "func \<Rightarrow> uths \<Rightarrow> uths \<times> frame list" where
  "thread_start func s = (uthread_nopreempt_reset s,
     (case func of User_code \<Rightarrow> [User] | Reaper \<Rightarrow> [Mtx_lock reap_mtx, Reaper_loop]) @ [Exit 0])"

definition make_reapable :: "nat \<Rightarrow> uths \<Rightarrow> (uths \<times> frame list) option" where
  "make_reapable uth s = do {
     c_assert (ut_detached (uthreads s uth));
     c_assert (ut_state (uthreads s uth) = UT_ZOMBIE);
     (s, fs) \<leftarrow> uthread_mtx_lock reap_mtx s;
     Some (s, fs @ [Reap_insert uth]) }"

definition reap_insert :: "nat \<Rightarrow> uths \<Rightarrow> (uths \<times> frame list) option" where
  "reap_insert uth s = do {
     h \<leftarrow> list_insert_tail (Head Reap_queue) (Link uth) (links s);
     Some (s\<lparr>links := h\<rparr>, [Cond_signal reap_cond, Mtx_unlock reap_mtx]) }"

definition uthread_exit :: "int \<Rightarrow> uths \<Rightarrow> (uths \<times> frame list) option" where
  "uthread_exit status s = do {
     let s = upd_thread (ut_curthr s) (\<lambda>u. u\<lparr>ut_state := UT_ZOMBIE, ut_has_exited := True, ut_exit := status\<rparr>) s;
     (s, fs) \<leftarrow> (case ut_waiter (curthr s) of
          Some w \<Rightarrow> if \<not> ut_detached (curthr s) then uthread_wake w s else make_reapable (ut_curthr s) s
        | None \<Rightarrow> if ut_detached (curthr s) then make_reapable (ut_curthr s) s else Some (s, []));
     Some (s, fs @ [Switch, Panic]) }"

definition ESRCH :: int where "ESRCH = 3"
definition EINVAL :: int where "EINVAL = 22"

definition join_rest :: "nat \<Rightarrow> uths \<Rightarrow> (uths \<times> frame list) option" where
  "join_rest uid s = do {
     let s = s\<lparr>exit_value := (exit_value s)(ut_curthr s := ut_exit (uthreads s uid))\<rparr>;
     (s, fs) \<leftarrow> make_reapable uid (upd_thread uid (\<lambda>u. u\<lparr>ut_detached := True\<rparr>) s);
     Some (s, fs @ [Return 0]) }"

definition uthread_join :: "int \<Rightarrow> uths \<Rightarrow> (uths \<times> frame list) option" where
  "uthread_join i s = do {
     uid \<leftarrow> thread i;
     let u = uthreads s uid;
     if ut_state u = UT_NO_STATE then Some (return ESRCH s, [])
     else if ut_waiter u \<noteq> None then Some (return EINVAL s, [])
     else if ut_state u \<noteq> UT_ZOMBIE then do {
       let (s, fs) = uthread_block (upd_thread uid (\<lambda>u. u\<lparr>ut_waiter := Some (ut_curthr s)\<rparr>) s);
       Some (s, fs @ [Join_rest uid]) }
     else join_rest uid s }"

definition uthread_detach :: "int \<Rightarrow> uths \<Rightarrow> (uths \<times> frame list) option" where
  "uthread_detach i s = do {
     uid \<leftarrow> thread i;
     let u = uthreads s uid;
     if ut_state u = UT_NO_STATE then Some (return ESRCH s, [])
     else if ut_detached u then Some (return EINVAL s, [])
     else do {
       let s = upd_thread uid (\<lambda>u. u\<lparr>ut_detached := True\<rparr>) s;
       if ut_state u = UT_ZOMBIE then do {
         (s, fs) \<leftarrow> make_reapable uid s;
         Some (s, fs @ [Return 0]) }
       else Some (return 0 s, []) } }"

definition uthread_self :: "uths \<Rightarrow> nat" where
  "uthread_self s = ut_id (curthr s)"

definition uthread_destroy :: "nat \<Rightarrow> uths \<Rightarrow> uths option" where
  "uthread_destroy uth s = do {
     s \<leftarrow> uthread_nopreempt_off (uthread_nopreempt_on s);
     Some (upd_thread uth (\<lambda>u. \<lparr>ut_id = 0, ut_state = UT_NO_STATE, ut_prio = 0,
       ut_has_exited = False, ut_exit = 0, ut_detached = False, ut_waiter = None\<rparr>) s) }"

text \<open>The loop of the reaper over its queue: the next link is read before the thread is unlinked.\<close>

partial_function (option) reap :: "link_addr \<Rightarrow> uths \<Rightarrow> uths option" where
  "reap link s = (if link = Head Reap_queue then Some s
     else do {
       th \<leftarrow> list_item link;
       let next = l_next (links s) link;
       h \<leftarrow> list_remove link (links s);
       s \<leftarrow> uthread_destroy th (s\<lparr>links := h\<rparr>);
       reap next s })"

definition reaper_loop :: "uths \<Rightarrow> (uths \<times> frame list) option" where
  "reaper_loop s =
     (if list_empty (Head Reap_queue) (links s) then do {
        (s, fs) \<leftarrow> uthread_cond_wait (Some reap_cond) reap_mtx s;
        Some (s, fs @ [Reaper_loop]) }
      else do {
        s \<leftarrow> reap (l_next (links s) (Head Reap_queue)) s;
        if \<exists>th\<in>set [0..<UTH_MAX_UTHREADS]. th \<noteq> reaper_thr_id s \<and> ut_state (uthreads s th) \<noteq> UT_NO_STATE
        then Some (s, [Reaper_loop])
        else Some (s\<lparr>exited := True\<rparr>, []) })"

definition reaper_init1 :: "uths \<Rightarrow> uths" where
  "reaper_init1 s = uthread_cond_init reap_cond (uthread_mtx_init reap_mtx
     (s\<lparr>links := list_init (Head Reap_queue) (links s)\<rparr>))"

text \<open>\<open>ut_curthr\<close> stays 0 when there is no free thread, which does not happen.\<close>

definition create_first_thr :: "uths \<Rightarrow> uths option" where
  "create_first_thr s = do {
     let (tid, s) = uthread_alloc s;
     tid \<leftarrow> tid;
     let s = s\<lparr>ut_curthr := tid, links := list_link_init (Link tid) (links s)\<rparr>;
     Some (upd_thread tid (\<lambda>u. u\<lparr>ut_prio := UTH_MAXPRIO, ut_has_exited := False, ut_exit := 0,
       ut_detached := True, ut_waiter := None, ut_state := UT_ON_CPU\<rparr>) s) }"

text \<open>The rest of \<open>reaper_init2\<close>. The id is the one \<open>uthread_create\<close> stored, if it did.\<close>

definition reaper_created :: "uths \<Rightarrow> uths" where
  "reaper_created s = (if returned s (ut_curthr s) = 0 then s\<lparr>reaper_thr_id := new_id s (ut_curthr s)\<rparr> else s)"

text \<open>The memory of the library before it is used: zero.\<close>

definition uths_start :: uths where
  "uths_start = \<lparr>links = \<lparr>l_next = \<lambda>a. Null, l_prev = \<lambda>a. Null\<rparr>, tq_size = \<lambda>q. 0,
     uthreads = \<lambda>t. \<lparr>ut_id = 0, ut_state = UT_NO_STATE, ut_prio = 0, ut_has_exited = False, ut_exit = 0,
       ut_detached = False, ut_waiter = None\<rparr>,
     ut_curthr = 0, uthread_no_preempt = False, uthread_no_preempt_count = 0, m_owner = \<lambda>m. None, reaper_thr_id = 0,
     stacks = \<lambda>t. [], returned = \<lambda>t. 0, exit_value = \<lambda>t. 0, new_id = \<lambda>t. 0, clock_count = 0,
     taken_clock_count = 0, exited = False\<rparr>"

text \<open>\<open>uthread_init\<close>, called by the code that becomes the first thread. The reaper has the priority of
that thread, so that creating it does not switch to it.\<close>

definition uthread_init :: "uths \<Rightarrow> uths option" where
  "uthread_init s = do {
     s \<leftarrow> create_first_thr (reaper_init1 (init_runqueues s));
     (s, fs) \<leftarrow> uthread_create UTH_MAXPRIO Reaper True s;
     let s = s\<lparr>stacks := (stacks s)(ut_curthr s := fs @ [Reaper_created, User])\<rparr>;
     Some s }"

section \<open>Running\<close>

fun exec_frame :: "frame \<Rightarrow> uths \<Rightarrow> (uths \<times> frame list) option" where
  "exec_frame (Thread_start f) s = Some (thread_start f s)"
| "exec_frame Yield s = uthread_yield s"
| "exec_frame Switch s = uthread_switch s"
| "exec_frame Nopreempt_reset s = Some (uthread_nopreempt_reset s, [])"
| "exec_frame (Setprio t p) s = uthread_setprio t p s"
| "exec_frame (Mtx_init m) s = Some (uthread_mtx_init m s, [])"
| "exec_frame (Mtx_lock m) s = uthread_mtx_lock m s"
| "exec_frame (Mtx_own m) s = Some (own_mtx m s, [])"
| "exec_frame (Mtx_trylock m) s = map_option (\<lambda>s. (s, [])) (uthread_mtx_trylock m s)"
| "exec_frame (Mtx_unlock m) s = uthread_mtx_unlock m s"
| "exec_frame (Cond_init c) s = Some (uthread_cond_init c s, [])"
| "exec_frame (Cond_wait c m) s = uthread_cond_wait c m s"
| "exec_frame (Cond_wait_enqueue c m) s = cond_wait_enqueue c m s"
| "exec_frame (Cond_signal c) s = uthread_cond_signal c s"
| "exec_frame (Cond_broadcast c) s = uthread_cond_broadcast c s"
| "exec_frame (Cond_broadcast_loop c) s = cond_broadcast_loop c s"
| "exec_frame (Create p f mem) s = uthread_create p f mem s"
| "exec_frame (Create_done t) s = Some (create_done t s, [])"
| "exec_frame (Exit v) s = uthread_exit v s"
| "exec_frame Panic s = None"
| "exec_frame (Join t) s = uthread_join t s"
| "exec_frame (Join_rest t) s = join_rest t s"
| "exec_frame (Detach t) s = uthread_detach t s"
| "exec_frame (Make_reapable t) s = make_reapable t s"
| "exec_frame (Reap_insert t) s = reap_insert t s"
| "exec_frame Reaper_loop s = reaper_loop s"
| "exec_frame Reaper_created s = Some (reaper_created s, [])"
| "exec_frame (Return v) s = Some (return v s, [])"
| "exec_frame User s = None"

text \<open>Run the topmost frame of the current thread; what it leaves to do goes on that thread's stack.\<close>

definition push_frames :: "nat \<Rightarrow> frame list \<Rightarrow> uths \<Rightarrow> uths" where
  "push_frames t fs s = s\<lparr>stacks := (stacks s)(t := fs @ stacks s t)\<rparr>"

definition run_frame :: "uths \<Rightarrow> uths option" where
  "run_frame s = (let t = ut_curthr s in case stacks s t of [] \<Rightarrow> None
     | f # fs \<Rightarrow> do {
         (s', new) \<leftarrow> exec_frame f (s\<lparr>stacks := (stacks s)(t := fs)\<rparr>);
         Some (push_frames t new s') })"

end
