(* ===== verification/UthreadQueue.thy ===== *)
theory UthreadQueue
  imports UthreadDefs
begin

text \<open>
  The lists of \<open>list.h\<close> and the queues of threads: the memory holds, for each queue, a ring of the
  queue's head and the links of its threads; every operation changes one of these sequences. A head
  whose links are zero has not been initialised.
\<close>

interpretation thread_links: link_store l_next l_prev set_l_next set_l_prev "(\<noteq>)"
  by unfold_locales (auto simp: set_l_next_def set_l_prev_def)

lemma link_sel [simp]:
  "l_next (set_l_next h a v) = (l_next h)(a := v)" "l_prev (set_l_next h a v) = l_prev h"
  "l_prev (set_l_prev h a v) = (l_prev h)(a := v)" "l_next (set_l_prev h a v) = l_next h"
  by (simp_all add: set_l_next_def set_l_prev_def)

section \<open>The sequences the links stand for\<close>

definition ring_of :: "queue \<Rightarrow> nat list \<Rightarrow> link_addr list" where
  "ring_of q xs = Head q # map Link xs"

definition linked :: "links \<Rightarrow> (queue \<Rightarrow> nat list) \<Rightarrow> bool" where
  "linked h Q \<longleftrightarrow>
     (\<forall>q. if l_next h (Head q) = Null then Q q = [] \<and> l_prev h (Head q) = Null
       else ring (l_next h) (l_prev h) (ring_of q (Q q))) \<and>
     (\<forall>q. distinct (Q q)) \<and> (\<forall>q r t. t \<in> set (Q q) \<longrightarrow> t \<in> set (Q r) \<longrightarrow> q = r) \<and>
     (\<forall>t. (\<forall>q. t \<notin> set (Q q)) \<longrightarrow> l_next h (Link t) = Null \<and> l_prev h (Link t) = Null)"

definition unqueued :: "(queue \<Rightarrow> nat list) \<Rightarrow> nat \<Rightarrow> bool" where
  "unqueued Q t \<longleftrightarrow> (\<forall>q. t \<notin> set (Q q))"

lemma ring_of_links: "ring n p (ring_of q xs) \<Longrightarrow> a \<in> set (ring_of q xs) \<Longrightarrow> n a \<noteq> Null \<and> p a \<noteq> Null"
  using ring_next_in [of n p "ring_of q xs" a] ring_prev_in [of n p "ring_of q xs" a] by (auto simp: ring_of_def)

lemma linked_ring: "linked h Q \<Longrightarrow> l_next h (Head q) \<noteq> Null \<Longrightarrow> ring (l_next h) (l_prev h) (ring_of q (Q q))"
  by (auto simp: linked_def split: if_splits)

lemma linked_head: "linked h Q \<Longrightarrow> l_next h (Head q) = Null \<Longrightarrow> Q q = [] \<and> l_prev h (Head q) = Null"
  by (auto simp: linked_def)

lemma linked_in: "linked h Q \<Longrightarrow> t \<in> set (Q q) \<Longrightarrow> l_next h (Head q) \<noteq> Null \<and> l_next h (Link t) \<noteq> Null \<and> l_prev h (Link t) \<noteq> Null"
proof -
  assume l: "linked h Q" and t: "t \<in> set (Q q)"
  have n: "l_next h (Head q) \<noteq> Null" using linked_head [OF l, of q] t by auto
  show ?thesis using n ring_of_links [OF linked_ring [OF l n], of "Link t"] t by (auto simp: ring_of_def)
qed

lemma linked_unqueued: "linked h Q \<Longrightarrow> unqueued Q t \<longleftrightarrow> l_next h (Link t) = Null"
  using linked_in [of h Q t] unfolding linked_def unqueued_def by blast

lemma linked_null: "linked h Q \<Longrightarrow> unqueued Q t \<Longrightarrow> l_next h (Link t) = Null \<and> l_prev h (Link t) = Null"
  by (auto simp: linked_def unqueued_def)

lemma linked_distinct: "linked h Q \<Longrightarrow> distinct (Q q)"
  by (simp add: linked_def)

lemma linked_once: "linked h Q \<Longrightarrow> t \<in> set (Q q) \<Longrightarrow> t \<in> set (Q r) \<Longrightarrow> q = r"
  unfolding linked_def by blast

text \<open>Replacing one sequence: the links of the others and of the threads in no queue stay.\<close>

lemma linked_update:
  assumes l: "linked h Q"
    and ring: "ring (l_next h') (l_prev h') (ring_of q xs)" and d: "distinct xs"
    and same: "\<And>a. a \<notin> set (ring_of q (Q q)) \<union> set (ring_of q xs) \<Longrightarrow> l_next h' a = l_next h a \<and> l_prev h' a = l_prev h a"
    and out: "\<And>t. t \<in> set (Q q) \<Longrightarrow> t \<notin> set xs \<Longrightarrow> l_next h' (Link t) = Null \<and> l_prev h' (Link t) = Null"
    and new: "\<And>t r. t \<in> set xs \<Longrightarrow> t \<in> set (Q r) \<Longrightarrow> r = q"
  shows "linked h' (Q(q := xs))"
proof -
  have nq: "l_next h' (Head q) \<noteq> Null" using ring_of_links [OF ring, of "Head q"] by (simp add: ring_of_def)
  have other: "l_next h' a = l_next h a \<and> l_prev h' a = l_prev h a" if "a \<in> set (ring_of r (Q r))" "r \<noteq> q" for a r
    by (rule same) (use that new linked_once [OF l] in \<open>auto simp: ring_of_def\<close>)
  show ?thesis unfolding linked_def
  proof (intro conjI allI impI)
    fix r show "if l_next h' (Head r) = Null then (Q(q := xs)) r = [] \<and> l_prev h' (Head r) = Null
      else ring (l_next h') (l_prev h') (ring_of r ((Q(q := xs)) r))"
    proof (cases "r = q")
      case False
      have "l_next h' (Head r) = l_next h (Head r) \<and> l_prev h' (Head r) = l_prev h (Head r)"
        using other [of "Head r" r] False by (simp add: ring_of_def)
      moreover have "ring (l_next h') (l_prev h') (ring_of r (Q r)) = ring (l_next h) (l_prev h) (ring_of r (Q r))"
        by (rule ring_cong) (use other False in auto)
      moreover have "if l_next h (Head r) = Null then Q r = [] \<and> l_prev h (Head r) = Null
        else ring (l_next h) (l_prev h) (ring_of r (Q r))" using l unfolding linked_def by blast
      ultimately show ?thesis using False by simp
    qed (use nq ring in simp)
  next
    fix r show "distinct ((Q(q := xs)) r)" using d linked_distinct [OF l] by simp
  next
    fix r r' t assume "t \<in> set ((Q(q := xs)) r)" "t \<in> set ((Q(q := xs)) r')"
    then show "r = r'" using new linked_once [OF l, of t] by (metis fun_upd_apply)
  next
    fix t assume t: "\<forall>r. t \<notin> set ((Q(q := xs)) r)"
    have "l_next h' (Link t) = Null \<and> l_prev h' (Link t) = Null"
    proof (cases "t \<in> set (Q q)")
      case True
      then show ?thesis using out spec [OF t, of q] by simp
    next
      case False
      have "t \<notin> set (Q r)" for r using spec [OF t, of r] False by (cases "r = q") simp_all
      then have "l_next h (Link t) = Null \<and> l_prev h (Link t) = Null" using linked_null [OF l] by (simp add: unqueued_def)
      moreover have "t \<notin> set xs" using spec [OF t, of q] by simp
      ultimately show ?thesis using same [of "Link t"] False by (auto simp: ring_of_def)
    qed
    then show "l_next h' (Link t) = Null" "l_prev h' (Link t) = Null" by simp_all
  qed
qed

lemma insert_before_sel:
  assumes "list_insert_before a b h = Some h'" "a \<noteq> b"
  shows "h' = set_l_prev (set_l_next (set_l_prev (set_l_next h b a) b (l_prev h a)) (l_prev h a) b) a b"
  using assms by (auto simp: list_insert_before_def c_assert_def Let_def split: bind_splits if_splits)

text \<open>Linking a thread in front of an element of the ring.\<close>

lemma linked_insert:
  assumes l: "linked h Q" and t: "unqueued Q t" and q: "l_next h (Head q) \<noteq> Null"
    and r: "ring (l_next h) (l_prev h) (f # fs)" "set (f # fs) = set (ring_of q (Q q))" "distinct (f # fs)"
    and ins: "list_insert_before f (Link t) h = Some h'"
    and ring: "\<And>n p. ring n p (Link t # f # fs) \<Longrightarrow> ring n p (ring_of q xs)"
    and xs: "set xs = insert t (set (Q q))" "distinct xs"
  shows "linked h' (Q(q := xs))"
proof -
  have ne: "Link t \<notin> set (f # fs)" using t r(2) by (auto simp: unqueued_def ring_of_def)
  have h': "h' = set_l_prev (set_l_next (set_l_prev (set_l_next h (Link t) f) (Link t) (l_prev h f)) (l_prev h f) (Link t)) f (Link t)"
    by (rule insert_before_sel [OF ins]) (use ne in auto)
  have in_ring: "f \<in> set (ring_of q (Q q))" "l_prev h f \<in> set (ring_of q (Q q))"
    using r(2) ring_prev_in [OF r(1), of f] by auto
  show ?thesis
  proof (rule linked_update [OF l])
    show "ring (l_next h') (l_prev h') (ring_of q xs)"
      unfolding h' by (rule ring, rule thread_links.link_ring [OF r(1)]) (use r(3) ne in auto)
    show "l_next h' a = l_next h a \<and> l_prev h' a = l_prev h a" if "a \<notin> set (ring_of q (Q q)) \<union> set (ring_of q xs)" for a
      using that in_ring xs(1) unfolding h' by (auto simp: ring_of_def)
    show "r = q" if "u \<in> set xs" "u \<in> set (Q r)" for u r
      using that xs(1) t linked_once [OF l] by (auto simp: unqueued_def)
  qed (use xs in auto)
qed

lemma list_insert_head_ok:
  assumes l: "linked h Q" and t: "unqueued Q t" and ins: "list_insert_head (Head q) (Link t) h = Some h'"
  shows "linked h' (Q(q := t # Q q))"
proof -
  have q: "l_next h (Head q) \<noteq> Null"
    using ins by (auto simp: list_insert_head_def list_insert_before_def c_assert_def split: bind_splits if_splits)
  have ring: "ring (l_next h) (l_prev h) (map Link (Q q) @ [Head q])"
    using linked_ring [OF l q] ring_rotate1 [of _ _ "map Link (Q q)" "Head q"] by (simp add: ring_of_def)
  obtain f fs where f: "map Link (Q q) @ [Head q] = f # fs" by (cases "map Link (Q q) @ [Head q]") auto
  have "l_next h (Head q) = f"
    using linked_ring [OF l q] f by (cases "Q q") (auto simp: ring_of_def ring_Cons)
  then have ins': "list_insert_before f (Link t) h = Some h'" using ins by (simp add: list_insert_head_def)
  have d: "distinct (f # fs)" unfolding f [symmetric] using linked_distinct [OF l, of q] by (auto simp: distinct_map inj_on_def)
  show ?thesis
  proof (rule linked_insert [OF l t q _ _ d ins'])
    show "ring (l_next h) (l_prev h) (f # fs)" using ring f by simp
    show "set (f # fs) = set (ring_of q (Q q))" unfolding f [symmetric] by (auto simp: ring_of_def)
    show "ring n p (ring_of q (t # Q q))" if "ring n p (Link t # f # fs)" for n p
      using that unfolding f [symmetric] ring_of_def by (metis append_Cons list.simps(9) ring_rotate1)
  qed (use t linked_distinct [OF l] in \<open>auto simp: unqueued_def\<close>)
qed

lemma list_insert_tail_ok:
  assumes l: "linked h Q" and t: "unqueued Q t" and ins: "list_insert_tail (Head q) (Link t) h = Some h'"
  shows "linked h' (Q(q := Q q @ [t]))"
proof -
  have "l_prev h (Head q) \<noteq> Null"
    using ins by (auto simp: list_insert_tail_def list_insert_before_def c_assert_def split: bind_splits if_splits)
  then have q: "l_next h (Head q) \<noteq> Null" using linked_head [OF l, of q] by auto
  show ?thesis
  proof (rule linked_insert [OF l t q _ _ _ ins [unfolded list_insert_tail_def]])
    show "ring (l_next h) (l_prev h) (Head q # map Link (Q q))" using linked_ring [OF l q] by (simp add: ring_of_def)
    show "ring n p (ring_of q (Q q @ [t]))" if "ring n p (Link t # Head q # map Link (Q q))" for n p
      using that ring_rotate1 [of n p "Head q # map Link (Q q)" "Link t"] by (simp add: ring_of_def)
    show "distinct (Head q # map Link (Q q))" using linked_distinct [OF l, of q] by (auto simp: distinct_map inj_on_def)
  qed (use t linked_distinct [OF l] in \<open>auto simp: unqueued_def ring_of_def\<close>)
qed

lemma list_remove_ok:
  assumes l: "linked h Q" and q: "Q q = xs @ t # ys"
  shows "\<exists>h'. list_remove (Link t) h = Some h' \<and> linked h' (Q(q := xs @ ys))"
proof -
  have inq: "t \<in> set (Q q)" using q by simp
  note n = linked_in [OF l inq]
  have ring: "ring (l_next h) (l_prev h) (Link t # map Link ys @ Head q # map Link xs)"
    using linked_ring [OF l, of q] n ring_to_front [of "l_next h" "l_prev h" "Head q # map Link xs" "Link t" "map Link ys"]
    by (simp add: ring_of_def q)
  have d: "distinct (Link t # map Link ys @ Head q # map Link xs)"
    using linked_distinct [OF l, of q] q by (auto simp: distinct_map inj_on_def)
  let ?h = "set_l_prev (set_l_next h (l_prev h (Link t)) (l_next h (Link t))) (l_next h (Link t)) (l_prev h (Link t))"
  let ?h' = "set_l_next (set_l_prev ?h (Link t) Null) (Link t) Null"
  have rem: "list_remove (Link t) h = Some ?h'" using n by (simp add: list_remove_def c_assert_def Let_def)
  have ring': "ring (l_next ?h) (l_prev ?h) (map Link ys @ Head q # map Link xs)"
    by (rule thread_links.unlink_ring [OF ring d]) (use d in auto)
  have in_ring: "l_prev h (Link t) \<in> set (ring_of q (Q q))" "l_next h (Link t) \<in> set (ring_of q (Q q))"
    using ring_next_in [OF ring, of "Link t"] ring_prev_in [OF ring, of "Link t"] q by (auto simp: ring_of_def)
  have "linked ?h' (Q(q := xs @ ys))"
  proof (rule linked_update [OF l])
    have "ring (l_next ?h) (l_prev ?h) (ring_of q (xs @ ys))"
      using ring' ring_to_front [of "l_next ?h" "l_prev ?h" "map Link ys" "Head q" "map Link xs"] by (simp add: ring_of_def)
    moreover have "ring (l_next ?h') (l_prev ?h') (ring_of q (xs @ ys)) = ring (l_next ?h) (l_prev ?h) (ring_of q (xs @ ys))"
      by (rule ring_cong) (use d in \<open>auto simp: ring_of_def\<close>)
    ultimately show "ring (l_next ?h') (l_prev ?h') (ring_of q (xs @ ys))" by simp
    show "l_next ?h' a = l_next h a \<and> l_prev ?h' a = l_prev h a" if "a \<notin> set (ring_of q (Q q)) \<union> set (ring_of q (xs @ ys))" for a
      using that in_ring q by (auto simp: ring_of_def)
    show "l_next ?h' (Link u) = Null \<and> l_prev ?h' (Link u) = Null" if "u \<in> set (Q q)" "u \<notin> set (xs @ ys)" for u
      using that q by auto
    show "r = q" if "u \<in> set (xs @ ys)" "u \<in> set (Q r)" for u r
      by (rule linked_once [OF l that(2)]) (use that(1) q in auto)
  qed (use linked_distinct [OF l, of q] q in auto)
  then show ?thesis using rem by blast
qed

lemma list_link_init_ok: "linked h Q \<Longrightarrow> unqueued Q t \<Longrightarrow> list_link_init (Link t) h = h"
  using linked_null [of h Q t] by (simp add: list_link_init_def set_l_next_def set_l_prev_def fun_upd_idem)

lemma list_init_ok:
  assumes l: "linked h Q" and q: "Q q = []"
  shows "linked (list_init (Head q) h) Q"
proof -
  have "linked (list_init (Head q) h) (Q(q := []))"
    by (rule linked_update [OF l]) (auto simp: ring_of_def list_init_def ring_Cons q)
  moreover have "Q(q := []) = Q" using q by auto
  ultimately show ?thesis by simp
qed

lemma list_empty_ok: "linked h Q \<Longrightarrow> l_next h (Head q) \<noteq> Null \<Longrightarrow> list_empty (Head q) h \<longleftrightarrow> Q q = []"
  using linked_ring [of h Q q] by (cases "Q q") (auto simp: ring_of_def list_empty_def ring_Cons)

section \<open>The queues\<close>

definition queues :: "uths \<Rightarrow> (queue \<Rightarrow> nat list) \<Rightarrow> bool" where
  "queues s Q \<longleftrightarrow> linked (links s) Q \<and> (\<forall>q. q \<noteq> Reap_queue \<longrightarrow> tq_size s q = int (length (Q q)))"

lemma queues_cong: "links s' = links s \<Longrightarrow> tq_size s' = tq_size s \<Longrightarrow> queues s' Q = queues s Q"
  by (simp add: queues_def)

lemma utqueue_empty_ok:
  "queues s Q \<Longrightarrow> q \<noteq> Reap_queue \<Longrightarrow> utqueue_empty q s = Some e \<Longrightarrow> (e \<longleftrightarrow> Q q = []) \<and> l_next (links s) (Head q) \<noteq> Null"
  using linked_head [of "links s" Q q]
  by (auto simp: utqueue_empty_def queues_def c_assert_def list_empty_def split: bind_splits if_splits)

lemma utqueue_enqueue_ok:
  assumes "queues s Q" "q \<noteq> Reap_queue" "utqueue_enqueue q t s = Some s'"
  shows "unqueued Q t \<and> queues s' (Q(q := t # Q q)) \<and> (\<exists>h n. s' = s\<lparr>links := h, tq_size := n\<rparr>)"
proof -
  have l: "linked (links s) Q" using assms(1) by (simp add: queues_def)
  obtain h where n: "l_next (links s) (Link t) = Null" and h: "list_insert_head (Head q) (Link t) (links s) = Some h"
    and s': "s' = s\<lparr>links := h, tq_size := (tq_size s)(q := tq_size s q + 1)\<rparr>"
    using assms(3) by (auto simp: utqueue_enqueue_def c_assert_def split: bind_splits if_splits)
  have u: "unqueued Q t" using linked_unqueued [OF l] n by simp
  have "linked h (Q(q := t # Q q))" by (rule list_insert_head_ok [OF l u h])
  then show ?thesis using u assms(1,2) unfolding s' by (auto simp: queues_def)
qed

lemma utqueue_dequeue_ok:
  assumes "queues s Q" "q \<noteq> Reap_queue" "utqueue_dequeue q s = Some (r, s')"
  shows "(Q q = [] \<and> r = None \<and> s' = s) \<or>
    (\<exists>xs t. Q q = xs @ [t] \<and> r = Some t \<and> queues s' (Q(q := xs)) \<and> (\<exists>h n. s' = s\<lparr>links := h, tq_size := n\<rparr>))"
proof -
  have l: "linked (links s) Q" using assms(1) by (simp add: queues_def)
  obtain e where e: "utqueue_empty q s = Some e" using assms(3) by (auto simp: utqueue_dequeue_def split: bind_splits)
  note e' = utqueue_empty_ok [OF assms(1,2) e]
  show ?thesis
  proof (cases e)
    case True
    then show ?thesis using assms(3) e e' by (auto simp: utqueue_dequeue_def)
  next
    case False
    then obtain xs t where xs: "Q q = xs @ [t]" using e' by (metis rev_exhaust)
    have "l_prev (links s) (Head q) = Link t"
      using ring_prev_hd [OF linked_ring [OF l, of q, unfolded ring_of_def]] e' xs by simp
    moreover obtain h where h: "list_remove (Link t) (links s) = Some h" "linked h (Q(q := xs @ []))"
      using list_remove_ok [OF l, of q xs t "[]"] xs by auto
    ultimately have "r = Some t \<and> s' = s\<lparr>links := h, tq_size := (tq_size s)(q := tq_size s q - 1)\<rparr>"
      using assms(3) e False by (auto simp: utqueue_dequeue_def Let_def)
    then show ?thesis using h(2) xs assms(1,2) by (auto simp: queues_def)
  qed
qed

lemma utqueue_remove_ok:
  assumes "queues s Q" "q \<noteq> Reap_queue" "Q q = xs @ t # ys"
  shows "\<exists>h n. utqueue_remove q t s = Some (s\<lparr>links := h, tq_size := n\<rparr>) \<and> queues (s\<lparr>links := h, tq_size := n\<rparr>) (Q(q := xs @ ys))"
proof -
  have l: "linked (links s) Q" using assms(1) by (simp add: queues_def)
  obtain h where h: "list_remove (Link t) (links s) = Some h" "linked h (Q(q := xs @ ys))"
    using list_remove_ok [OF l assms(3)] by blast
  have "l_next (links s) (Link t) \<noteq> Null" "l_prev (links s) (Link t) \<noteq> Null" using linked_in [OF l, of t q] assms(3) by auto
  then show ?thesis using h assms
    by (intro exI [of _ h] exI [of _ "(tq_size s)(q := tq_size s q - 1)"])
      (auto simp: utqueue_remove_def c_assert_def queues_def)
qed

lemma utqueue_init_ok:
  assumes "queues s Q" "Q q = []"
  shows "queues (utqueue_init q s) Q"
  using assms list_init_ok [of "links s" Q q] by (auto simp: queues_def utqueue_init_def)

end
