(* ===== verification/UthreadSched.thy ===== *)
theory UthreadSched
  imports UthreadQueue
begin

text \<open>
  Scheduling: which queue a thread of each state is in (\<open>sched\<close>), and what the operations that change
  states and queues do to it.
\<close>

section \<open>Threads and their queues\<close>

fun fits :: "queue \<Rightarrow> uthread \<Rightarrow> bool" where
  "fits (Runq p) u \<longleftrightarrow> ut_state u = UT_RUNNABLE \<and> ut_prio u = int p"
| "fits (Mtx_waiters m) u \<longleftrightarrow> ut_state u = UT_WAIT"
| "fits (Cond_waiters c) u \<longleftrightarrow> ut_state u = UT_WAIT"
| "fits Reap_queue u \<longleftrightarrow> False"

definition sched :: "uths \<Rightarrow> (queue \<Rightarrow> nat list) \<Rightarrow> bool" where
  "sched s Q \<longleftrightarrow> queues s Q \<and> (\<forall>q. \<forall>t\<in>set (Q q). fits q (uthreads s t)) \<and>
     (\<forall>t. ut_state (uthreads s t) = UT_RUNNABLE \<longrightarrow> \<not> unqueued Q t) \<and>
     (\<forall>t. ut_state (uthreads s t) = UT_ON_CPU \<longrightarrow> t = ut_curthr s) \<and>
     (\<forall>t. ut_waiter (uthreads s t) = None \<and> 0 \<le> ut_prio (uthreads s t))"

lemma sched_queues: "sched s Q \<Longrightarrow> queues s Q"
  by (simp add: sched_def)

lemma sched_fits: "sched s Q \<Longrightarrow> t \<in> set (Q q) \<Longrightarrow> fits q (uthreads s t)"
  by (auto simp: sched_def)

lemma sched_on_cpu: "sched s Q \<Longrightarrow> ut_state (uthreads s t) = UT_ON_CPU \<Longrightarrow> t = ut_curthr s \<and> unqueued Q t"
proof -
  assume s: "sched s Q" and t: "ut_state (uthreads s t) = UT_ON_CPU"
  have "t \<notin> set (Q q)" for q using sched_fits [OF s, of t q] t by (cases q) auto
  then show ?thesis using s t by (auto simp: sched_def unqueued_def)
qed

lemma running_unqueued: "sched s Q \<Longrightarrow> ut_state (curthr s) = UT_ON_CPU \<Longrightarrow> unqueued Q (ut_curthr s)"
  using sched_on_cpu [of s Q "ut_curthr s"] by (simp add: curthr_def)

lemma sched_runnable: "sched s Q \<Longrightarrow> ut_state (uthreads s t) = UT_RUNNABLE \<Longrightarrow>
    \<exists>p. ut_prio (uthreads s t) = int p \<and> t \<in> set (Q (Runq p))"
proof -
  assume s: "sched s Q" and t: "ut_state (uthreads s t) = UT_RUNNABLE"
  then obtain q where q: "t \<in> set (Q q)" by (auto simp: sched_def unqueued_def)
  show ?thesis using sched_fits [OF s q] q t by (cases q) auto
qed

text \<open>Changing one thread and its place in the queues.\<close>

lemma sched_move:
  assumes s: "sched s Q" and q: "queues s' Q'" and u: "uthreads s' = (uthreads s)(t := u)"
    and others: "\<And>q r. r \<noteq> t \<Longrightarrow> r \<in> set (Q' q) \<longleftrightarrow> r \<in> set (Q q)"
    and fit: "\<And>q. t \<in> set (Q' q) \<Longrightarrow> fits q u" and run: "ut_state u = UT_RUNNABLE \<Longrightarrow> \<not> unqueued Q' t"
    and cur: "ut_curthr s' = ut_curthr s" and on: "ut_state u = UT_ON_CPU \<Longrightarrow> t = ut_curthr s" and w: "ut_waiter u = None" "0 \<le> ut_prio u"
  shows "sched s' Q'"
  unfolding sched_def
proof (intro conjI allI impI ballI)
  fix q r assume r: "r \<in> set (Q' q)"
  show "fits q (uthreads s' r)"
  proof (cases "r = t")
    case True
    then show ?thesis using fit r u by simp
  next
    case False
    then show ?thesis using sched_fits [OF s, of r q] others [OF False] r u by simp
  qed
next
  fix r assume r: "ut_state (uthreads s' r) = UT_RUNNABLE"
  show "\<not> unqueued Q' r"
  proof (cases "r = t")
    case True
    then show ?thesis using run r u by simp
  next
    case False
    then have "\<not> unqueued Q r" using s r u by (auto simp: sched_def)
    then show ?thesis using others [OF False] by (simp add: unqueued_def)
  qed
next
  fix r assume "ut_state (uthreads s' r) = UT_ON_CPU"
  then show "r = ut_curthr s'" using s u cur on by (auto simp: sched_def split: if_splits)
next
  fix r show "ut_waiter (uthreads s' r) = None" "0 \<le> ut_prio (uthreads s' r)" using s u w by (simp_all add: sched_def)
qed (rule q)

lemma sched_cong:
  assumes "sched s Q" "queues s' Q" "uthreads s' = uthreads s" "ut_curthr s' = ut_curthr s"
  shows "sched s' Q"
  using assms by (simp add: sched_def)

text \<open>Taking a waiting thread from its queue.\<close>

lemma sched_dequeue:
  assumes s: "sched s Q" and q: "queues s' (Q(q := xs))" "Q q = xs @ [t]" and t: "ut_state (uthreads s t) \<noteq> UT_RUNNABLE"
    and same: "uthreads s' = uthreads s" "ut_curthr s' = ut_curthr s"
  shows "sched s' (Q(q := xs)) \<and> unqueued (Q(q := xs)) t"
proof -
  have l: "linked (links s) Q" using s by (simp add: sched_def queues_def)
  have "t \<notin> set xs" using linked_distinct [OF l, of q] q(2) by simp
  moreover have "r = q" if "t \<in> set (Q r)" for r using linked_once [OF l that, of q] q(2) by simp
  ultimately have u: "unqueued (Q(q := xs)) t" by (auto simp: unqueued_def)
  have "t \<in> set (Q q)" using q(2) by simp
  then have "ut_state (uthreads s t) \<noteq> UT_ON_CPU" using sched_on_cpu [OF s, of t] unfolding unqueued_def by blast
  then have "sched s' (Q(q := xs))"
    using s u t by (intro sched_move [OF s q(1), of t "uthreads s t"]) (auto simp: same q(2) unqueued_def sched_def)
  then show ?thesis using u by simp
qed

lemma upd_thread_simps [simp]:
  "uthreads (upd_thread t f s) = (uthreads s)(t := f (uthreads s t))" "links (upd_thread t f s) = links s"
  "tq_size (upd_thread t f s) = tq_size s" "ut_curthr (upd_thread t f s) = ut_curthr s"
  "stacks (upd_thread t f s) = stacks s" "m_owner (upd_thread t f s) = m_owner s"
  "uthread_no_preempt (upd_thread t f s) = uthread_no_preempt s"
  "uthread_no_preempt_count (upd_thread t f s) = uthread_no_preempt_count s"
  "queues (upd_thread t f s) Q = queues s Q"
  by (simp_all add: upd_thread_def queues_def)

lemma nopreempt_on_simps [simp]:
  "uthreads (uthread_nopreempt_on s) = uthreads s" "links (uthread_nopreempt_on s) = links s"
  "tq_size (uthread_nopreempt_on s) = tq_size s" "ut_curthr (uthread_nopreempt_on s) = ut_curthr s"
  "stacks (uthread_nopreempt_on s) = stacks s" "m_owner (uthread_nopreempt_on s) = m_owner s"
  "uthread_no_preempt_count (uthread_nopreempt_on s) = uthread_no_preempt_count s + 1"
  "queues (uthread_nopreempt_on s) Q = queues s Q" "curthr (uthread_nopreempt_on s) = curthr s"
  by (simp_all add: uthread_nopreempt_on_def queues_def curthr_def)

text \<open>What the operations on queues and the preemption mask leave alone.\<close>

definition kept :: "uths \<Rightarrow> uths \<Rightarrow> bool" where
  "kept s s' \<longleftrightarrow> ut_curthr s' = ut_curthr s \<and> stacks s' = stacks s \<and> m_owner s' = m_owner s"

definition quiet :: "uths \<Rightarrow> uths \<Rightarrow> bool" where
  "quiet s s' \<longleftrightarrow> kept s s' \<and> uthreads s' = uthreads s"

lemma quiet_refl [simp]: "quiet s s"
  by (simp add: quiet_def kept_def)

lemma quiet_trans: "quiet s s' \<Longrightarrow> quiet s' s'' \<Longrightarrow> quiet s s''"
  by (simp add: quiet_def kept_def)

lemma quiet_queue [simp]: "quiet s (s\<lparr>links := h, tq_size := n\<rparr>)" "quiet s (s\<lparr>links := h\<rparr>)"
  by (simp_all add: quiet_def kept_def)

lemma quiet_on [simp]: "quiet s (uthread_nopreempt_on s)"
  by (simp add: quiet_def kept_def)

lemma nopreempt_off_ok: "uthread_nopreempt_off s = Some s' \<Longrightarrow> quiet s s' \<and> queues s' Q = queues s Q \<and> links s' = links s"
  by (auto simp: uthread_nopreempt_off_def Let_def c_assert_def quiet_def kept_def queues_def split: bind_splits if_splits)

lemma sched_quiet: "sched s Q \<Longrightarrow> queues s' Q \<Longrightarrow> quiet s s' \<Longrightarrow> sched s' Q"
  by (auto simp: quiet_def kept_def intro: sched_cong)

lemma sched_nopreempt [simp]: "sched (uthread_nopreempt_on s) Q = sched s Q"
  by (simp add: sched_def)

section \<open>Becoming runnable\<close>

lemma enqueue_runnable_ok:
  assumes "queues s Q" "enqueue_runnable t s = Some s'"
  shows "\<exists>p. ut_prio (uthreads s t) = int p \<and> unqueued Q t \<and> queues s' (Q(Runq p := t # Q (Runq p))) \<and> quiet s s'"
proof -
  let ?s = "uthread_nopreempt_on s"
  obtain q s1 where q: "runq (ut_prio (uthreads s t)) = Some q" and s1: "utqueue_enqueue q t ?s = Some s1"
    and s': "uthread_nopreempt_off s1 = Some s'"
    using assms(2) by (auto simp: enqueue_runnable_def Let_def split: bind_splits)
  have "queues ?s Q" using assms(1) by simp
  moreover have r: "q = Runq (nat (ut_prio (uthreads s t)))" "0 \<le> ut_prio (uthreads s t)"
    using q by (auto simp: runq_def split: if_splits)
  ultimately have "unqueued Q t \<and> queues s1 (Q(q := t # Q q)) \<and> quiet ?s s1"
    using utqueue_enqueue_ok [of ?s Q q t s1] s1 by (auto simp: quiet_def kept_def)
  then have "unqueued Q t" "queues s' (Q(q := t # Q q))" "quiet s s'"
    using nopreempt_off_ok [OF s', of "Q(q := t # Q q)"] by (auto simp: quiet_def kept_def)
  then show ?thesis using r by (intro exI [of _ "nat (ut_prio (uthreads s t))"]) simp
qed

text \<open>The operations on queues, with what they leave alone.\<close>

lemma enqueue_quiet:
  assumes "queues s Q" "q \<noteq> Reap_queue" "utqueue_enqueue q t s = Some s'"
  shows "unqueued Q t \<and> queues s' (Q(q := t # Q q)) \<and> quiet s s'"
  using utqueue_enqueue_ok [OF assms] by (auto simp: quiet_def kept_def)

lemma dequeue_quiet:
  assumes "queues s Q" "q \<noteq> Reap_queue" "utqueue_dequeue q s = Some (r, s')" "Q q \<noteq> []"
  shows "\<exists>xs t. Q q = xs @ [t] \<and> r = Some t \<and> queues s' (Q(q := xs)) \<and> quiet s s'"
proof -
  obtain xs t h n where "Q q = xs @ [t]" "r = Some t" "queues s' (Q(q := xs))" "s' = s\<lparr>links := h, tq_size := n\<rparr>"
    using utqueue_dequeue_ok [OF assms(1-3)] assms(4) by blast
  then show ?thesis by (metis quiet_queue(1))
qed

lemma off_quiet:
  assumes "uthread_nopreempt_off s1 = Some s'" "queues s1 Q" "quiet s s1"
  shows "queues s' Q \<and> quiet s s'"
  using nopreempt_off_ok [OF assms(1), of Q] assms(2,3) quiet_trans by blast

lemma quiet_simps: "quiet s s' \<Longrightarrow> ut_curthr s' = ut_curthr s \<and> stacks s' = stacks s \<and> m_owner s' = m_owner s \<and>
    uthreads s' = uthreads s \<and> curthr s' = curthr s"
  by (simp add: quiet_def kept_def curthr_def)

text \<open>The waiters of the mutexes stay the same.\<close>

definition same_waiters :: "(queue \<Rightarrow> nat list) \<Rightarrow> (queue \<Rightarrow> nat list) \<Rightarrow> bool" where
  "same_waiters Q Q' \<longleftrightarrow> (\<forall>m. Q' (Mtx_waiters m) = Q (Mtx_waiters m))"

lemma same_waiters_simps [simp]: "same_waiters Q Q" "same_waiters Q (Q(Runq p := xs))" "same_waiters Q (Q(Cond_waiters c := xs))"
  by (simp_all add: same_waiters_def)

lemma same_waiters_trans: "same_waiters Q Q' \<Longrightarrow> same_waiters Q' Q'' \<Longrightarrow> same_waiters Q Q''"
  by (simp add: same_waiters_def)

text \<open>A thread that is made runnable and enqueued: the two steps of \<open>uthread_yield\<close>, \<open>uthread_wake\<close> and
\<open>uthread_setprio\<close>.\<close>

lemma make_runnable:
  assumes s: "sched s Q" and s1: "queues s1 Q1" "uthreads s1 = (uthreads s)(t := u)" "kept s s1"
    and Q1: "unqueued Q1 t" "\<And>q r. r \<noteq> t \<Longrightarrow> r \<in> set (Q1 q) \<longleftrightarrow> r \<in> set (Q q)" "same_waiters Q Q1"
    and u: "ut_state u = UT_RUNNABLE" "ut_waiter u = None"
    and e: "enqueue_runnable t s1 = Some s'"
  shows "\<exists>Q'. sched s' Q' \<and> kept s s' \<and> same_waiters Q Q' \<and> uthreads s' = uthreads s1"
proof -
  obtain p where p: "ut_prio u = int p" "queues s' (Q1(Runq p := t # Q1 (Runq p)))" "quiet s1 s'"
    using enqueue_runnable_ok [OF s1(1) e] s1(2) by auto
  let ?Q = "Q1(Runq p := t # Q1 (Runq p))"
  have "sched s' ?Q"
  proof (rule sched_move [OF s p(2)])
    show "uthreads s' = (uthreads s)(t := u)" using p(3) s1(2) by (simp add: quiet_def)
    show "r \<in> set (?Q q) \<longleftrightarrow> r \<in> set (Q q)" if "r \<noteq> t" for q r using that Q1(2) [OF that] by auto
    show "fits q u" if "t \<in> set (?Q q)" for q using that Q1(1) u p(1) by (auto simp: unqueued_def split: if_splits)
    show "\<not> unqueued ?Q t" by (auto simp: unqueued_def)
    show "ut_curthr s' = ut_curthr s" using p(3) s1(3) by (simp add: quiet_def kept_def)
  qed (use u p(1) in auto)
  moreover have "kept s s'" using p(3) s1(3) by (simp add: quiet_def kept_def)
  moreover have "same_waiters Q ?Q" using same_waiters_trans [OF Q1(3)] by simp
  ultimately show ?thesis using p(3) by (auto simp: quiet_def)
qed

text \<open>How an operation leaves the current thread: on the processor, or about to switch.\<close>

definition proceeds :: "uths \<Rightarrow> frame list \<Rightarrow> bool" where
  "proceeds s fs \<longleftrightarrow> (if Switch \<in> set fs then hd fs = Switch \<and> Switch \<notin> set (tl fs) \<and> ut_state (curthr s) \<noteq> UT_ON_CPU
     else ut_state (curthr s) = UT_ON_CPU)"

text \<open>The effect of an operation that leaves owners, waiters of mutexes and the saved contexts alone.\<close>

definition effect :: "uths \<Rightarrow> (queue \<Rightarrow> nat list) \<Rightarrow> uths \<Rightarrow> frame list \<Rightarrow> bool" where
  "effect s Q s' fs \<longleftrightarrow> (\<exists>Q'. sched s' Q' \<and> kept s s' \<and> same_waiters Q Q') \<and> proceeds s' fs"

lemma effect_trans:
  assumes "effect s1 Q1 s2 fs" "kept s s1" "same_waiters Q Q1"
  shows "effect s Q s2 fs"
  using assms unfolding effect_def kept_def same_waiters_def by auto

lemma uthread_yield_ok:
  assumes s: "sched s Q" and on: "ut_state (curthr s) = UT_ON_CPU" and y: "uthread_yield s = Some (s', fs)"
  shows "effect s Q s' fs \<and> fs = [Switch, Nopreempt_reset]"
proof -
  let ?t = "ut_curthr s" and ?s = "upd_thread (ut_curthr s) (\<lambda>u. u\<lparr>ut_state := UT_RUNNABLE\<rparr>) s"
  have fs: "fs = [Switch, Nopreempt_reset]" and e: "enqueue_runnable ?t ?s = Some s'"
    using y by (auto simp: uthread_yield_def Let_def split: bind_splits)
  have u: "unqueued Q ?t" using sched_on_cpu [OF s, of ?t] on by (simp add: curthr_def)
  have w: "ut_waiter (uthreads s ?t) = None" using s by (simp add: sched_def)
  have "\<exists>Q'. sched s' Q' \<and> kept s s' \<and> same_waiters Q Q' \<and> uthreads s' = uthreads ?s"
    by (rule make_runnable [OF s, of ?s Q ?t "(uthreads s ?t)\<lparr>ut_state := UT_RUNNABLE\<rparr>"])
      (use s u w e in \<open>auto simp: kept_def sched_queues\<close>)
  then show ?thesis using fs by (auto simp: effect_def proceeds_def kept_def curthr_def)
qed

lemma uthread_block_ok:
  assumes s: "sched s Q" and q: "queues s1 (Q(q := ut_curthr s # Q q))" "quiet s s1" "\<And>u. fits q (u\<lparr>ut_state := UT_WAIT\<rparr>)"
    and u: "unqueued Q (ut_curthr s)" and b: "uthread_block s1 = (s', fs)"
  shows "sched s' (Q(q := ut_curthr s # Q q)) \<and> kept s s' \<and> proceeds s' fs \<and> fs = [Switch, Nopreempt_reset]"
proof -
  have same: "ut_curthr s1 = ut_curthr s" "uthreads s1 = uthreads s" using q(2) by (auto simp: quiet_def kept_def)
  let ?t = "ut_curthr s"
  have s': "s' = upd_thread ?t (\<lambda>u. u\<lparr>ut_state := UT_WAIT\<rparr>) s1" and fs: "fs = [Switch, Nopreempt_reset]"
    using b same by (auto simp: uthread_block_def)
  have "sched s' (Q(q := ?t # Q q))"
  proof (rule sched_move [OF s])
    show "fits r ((uthreads s ?t)\<lparr>ut_state := UT_WAIT\<rparr>)" if "?t \<in> set ((Q(q := ?t # Q q)) r)" for r
      using that u q(3) by (auto simp: unqueued_def split: if_splits)
  qed (use s q(1) same in \<open>auto simp: s' sched_def split: if_splits\<close>)
  then show ?thesis using q(2) by (auto simp: s' fs quiet_def kept_def proceeds_def curthr_def)
qed

lemma uthread_wake_ok:
  assumes s: "sched s Q" and u: "unqueued Q t" and on: "ut_state (curthr s) = UT_ON_CPU"
    and k: "uthread_wake t s = Some (s', fs)"
  shows "effect s Q s' fs \<and> set fs \<subseteq> {Switch, Nopreempt_reset}"
proof (cases "ut_state (uthreads s t) = UT_WAIT")
  case False
  then show ?thesis using k s on by (auto simp: uthread_wake_def effect_def kept_def proceeds_def)
next
  case True
  let ?s = "upd_thread t (\<lambda>u. u\<lparr>ut_state := UT_RUNNABLE\<rparr>) s"
  obtain s1 where e: "enqueue_runnable t ?s = Some s1"
    and rest: "(if ut_prio (uthreads s1 t) > ut_prio (curthr s1) \<and> ut_state (curthr s1) = UT_ON_CPU
        then uthread_yield s1 else Some (s1, [])) = Some (s', fs)"
    using k True by (auto simp: uthread_wake_def Let_def split: bind_splits)
  have w: "ut_waiter (uthreads s t) = None" using s by (simp add: sched_def)
  have "\<exists>Q'. sched s1 Q' \<and> kept s s1 \<and> same_waiters Q Q' \<and> uthreads s1 = uthreads ?s"
    by (rule make_runnable [OF s, of ?s Q t "(uthreads s t)\<lparr>ut_state := UT_RUNNABLE\<rparr>"])
      (use s u w e in \<open>auto simp: kept_def sched_queues\<close>)
  then obtain Q1 where Q1: "sched s1 Q1" "kept s s1" "same_waiters Q Q1" "uthreads s1 = uthreads ?s" by blast
  have on1: "ut_state (curthr s1) = UT_ON_CPU"
    using Q1(2,4) on True by (auto simp: curthr_def kept_def)
  show ?thesis
  proof (cases "ut_prio (uthreads s1 t) > ut_prio (curthr s1)")
    case True
    then have "uthread_yield s1 = Some (s', fs)" using rest on1 by simp
    then show ?thesis using uthread_yield_ok [OF Q1(1) on1] effect_trans [OF _ Q1(2,3)] by fastforce
  next
    case False
    then show ?thesis using rest Q1 on1 by (auto simp: effect_def proceeds_def)
  qed
qed

lemma uthread_setprio_ok:
  assumes s: "sched s Q" and on: "ut_state (curthr s) = UT_ON_CPU" and i: "thread i = Some t"
    and t: "ut_state (uthreads s t) = UT_RUNNABLE" and e: "uthread_setprio i prio s = Some (s', fs)"
  shows "effect s Q s' fs \<and> set fs \<subseteq> {Switch, Nopreempt_reset, Return 0}"
proof -
  obtain p where p: "ut_prio (uthreads s t) = int p" "t \<in> set (Q (Runq p))" using sched_runnable [OF s t] by blast
  then obtain xs ys where xs: "Q (Runq p) = xs @ t # ys" by (auto simp: in_set_conv_decomp)
  have l: "linked (links s) Q" using s by (simp add: sched_def queues_def)
  let ?Q = "Q(Runq p := xs @ ys)" and ?f = "\<lambda>u. u\<lparr>ut_prio := prio\<rparr>"
  have ne: "l_next (links s) (Link t) \<noteq> Null" using linked_in [OF l p(2)] by simp
  obtain q s1 s2 s3 where q: "runq (int p) = Some q" and s1: "utqueue_remove q t (uthread_nopreempt_on s) = Some s1"
    and s2: "uthread_nopreempt_off s1 = Some s2"
    and s3: "enqueue_runnable t (upd_thread t ?f (s2\<lparr>links := list_link_init (Link t) (links s2)\<rparr>)) = Some s3"
    and rest: "do { (s, fs) \<leftarrow> (if ut_prio (uthreads s3 t) > ut_prio (curthr s3) then uthread_yield s3 else Some (s3, []));
      Some (s, fs @ [Return 0]) } = Some (s', fs)"
    using e i t ne p(1) by (auto simp: uthread_setprio_def Let_def split: bind_splits)
  have qp: "q = Runq p" using q by (auto simp: runq_def split: if_splits)
  have "queues (uthread_nopreempt_on s) Q" using s by (simp add: sched_queues)
  then obtain h n where h: "utqueue_remove (Runq p) t (uthread_nopreempt_on s) = Some ((uthread_nopreempt_on s)\<lparr>links := h, tq_size := n\<rparr>)"
      "queues ((uthread_nopreempt_on s)\<lparr>links := h, tq_size := n\<rparr>) ?Q"
    using utqueue_remove_ok [of "uthread_nopreempt_on s" Q "Runq p" xs t ys] xs by auto
  have Qs2: "queues s2 ?Q" "quiet s s2"
    using s1 h nopreempt_off_ok [OF s2, of ?Q] qp by (auto simp: quiet_def kept_def)
  have unq: "unqueued ?Q t"
    using linked_distinct [OF l, of "Runq p"] linked_once [OF l p(2)] xs by (auto simp: unqueued_def)
  have init: "s2\<lparr>links := list_link_init (Link t) (links s2)\<rparr> = s2"
    using list_link_init_ok [of "links s2" ?Q t] Qs2(1) unq by (cases s2) (simp add: queues_def)
  let ?s = "upd_thread t ?f s2"
  have w: "ut_waiter (uthreads s t) = None" using s by (simp add: sched_def)
  have "\<exists>Q'. sched s3 Q' \<and> kept s s3 \<and> same_waiters Q Q' \<and> uthreads s3 = uthreads ?s"
    by (rule make_runnable [OF s, of ?s ?Q t "(uthreads s t)\<lparr>ut_prio := prio\<rparr>"])
      (use t unq w s3 Qs2 xs init in \<open>auto simp: kept_def quiet_def\<close>)
  then obtain Q1 where Q1: "sched s3 Q1" "kept s s3" "same_waiters Q Q1" "uthreads s3 = uthreads ?s" by blast
  have on3: "ut_state (curthr s3) = UT_ON_CPU"
    using Q1(2,4) Qs2(2) on t by (auto simp: curthr_def kept_def quiet_def)
  show ?thesis
  proof (cases "ut_prio (uthreads s3 t) > ut_prio (curthr s3)")
    case True
    then obtain fs1 where y: "uthread_yield s3 = Some (s', fs1)" "fs = fs1 @ [Return 0]"
      using rest by (auto split: bind_splits)
    then show ?thesis using uthread_yield_ok [OF Q1(1) on3 y(1)] effect_trans [OF _ Q1(2,3), of s' fs1]
      by (auto simp: effect_def proceeds_def)
  next
    case False
    then show ?thesis using rest Q1 on3 by (auto simp: effect_def proceeds_def)
  qed
qed

end
