(* ===== verification/UthreadSync.thy ===== *)
theory UthreadSync
  imports UthreadSched
begin

text \<open>
  What the operations on mutexes and condition variables, thread creation and exit, and the switch do
  to the threads, the queues and the owners.
\<close>

section \<open>Mutexes\<close>

text \<open>An operation on the mutex \<open>m\<close>: the other mutexes keep their owner and their waiters.\<close>

definition mtx_effect :: "nat \<Rightarrow> uths \<Rightarrow> (queue \<Rightarrow> nat list) \<Rightarrow> uths \<Rightarrow> (queue \<Rightarrow> nat list) \<Rightarrow> frame list \<Rightarrow> bool" where
  "mtx_effect m s Q s' Q' fs \<longleftrightarrow> sched s' Q' \<and> proceeds s' fs \<and> ut_curthr s' = ut_curthr s \<and> stacks s' = stacks s \<and>
     (\<forall>k. k \<noteq> m \<longrightarrow> m_owner s' k = m_owner s k \<and> Q' (Mtx_waiters k) = Q (Mtx_waiters k))"

lemma own_mtx_simps [simp]:
  "m_owner (own_mtx m s) = (m_owner s)(m := Some (ut_curthr s))" "ut_curthr (own_mtx m s) = ut_curthr s"
  "stacks (own_mtx m s) = stacks s" "uthreads (own_mtx m s) = uthreads s" "queues (own_mtx m s) Q = queues s Q"
  "curthr (own_mtx m s) = curthr s" "sched (own_mtx m s) Q = sched s Q"
  by (auto simp: own_mtx_def queues_def curthr_def sched_def)

lemma uthread_mtx_lock_ok:
  assumes s: "sched s Q" and on: "ut_state (curthr s) = UT_ON_CPU" and k: "uthread_mtx_lock m s = Some (s', fs)"
  shows "(m_owner s m = None \<and> m_owner s' m = Some (ut_curthr s) \<and> mtx_effect m s Q s' Q fs \<and> fs = []) \<or>
    (m_owner s m \<noteq> None \<and> m_owner s' m = m_owner s m \<and> fs = [Switch, Nopreempt_reset, Mtx_own m] \<and>
      mtx_effect m s Q s' (Q(Mtx_waiters m := ut_curthr s # Q (Mtx_waiters m))) fs)"
proof (cases "m_owner s m = None")
  case True
  then have "s' = own_mtx m (uthread_nopreempt_on s)" "fs = []" using k by (auto simp: uthread_mtx_lock_def Let_def)
  then show ?thesis using s on True by (auto simp: mtx_effect_def proceeds_def)
next
  case False
  obtain s1 where s1: "utqueue_enqueue (Mtx_waiters m) (ut_curthr s) (uthread_nopreempt_on s) = Some s1"
    using k False by (cases "utqueue_enqueue (Mtx_waiters m) (ut_curthr s) (uthread_nopreempt_on s)")
      (simp_all add: uthread_mtx_lock_def)
  obtain fs1 where b: "uthread_block s1 = (s', fs1)" and fs: "fs = fs1 @ [Mtx_own m]"
    using k False s1 by (simp add: uthread_mtx_lock_def split: prod.splits)
  have u: "unqueued Q (ut_curthr s)" by (rule running_unqueued [OF s on])
  have "queues (uthread_nopreempt_on s) Q" using s by (simp add: sched_queues)
  then have q: "queues s1 (Q(Mtx_waiters m := ut_curthr s # Q (Mtx_waiters m)))" "quiet s s1"
    using enqueue_quiet [OF _ _ s1, of Q] quiet_trans [OF quiet_on] by simp_all
  have blk: "sched s' (Q(Mtx_waiters m := ut_curthr s # Q (Mtx_waiters m))) \<and> kept s s' \<and> proceeds s' fs1 \<and> fs1 = [Switch, Nopreempt_reset]"
    by (rule uthread_block_ok [OF s q _ u b]) simp
  then show ?thesis using False fs by (simp add: mtx_effect_def kept_def proceeds_def)
qed

lemma uthread_mtx_trylock_ok:
  assumes s: "sched s Q" and on: "ut_state (curthr s) = UT_ON_CPU" and k: "uthread_mtx_trylock m s = Some s'"
  shows "mtx_effect m s Q s' Q [] \<and>
    (if m_owner s m = None then m_owner s' m = Some (ut_curthr s) \<and> returned s' (ut_curthr s) = 1
     else m_owner s' m = m_owner s m \<and> returned s' (ut_curthr s) = 0)"
proof -
  let ?t = "uthread_nopreempt_on s"
  obtain s1 where off: "uthread_nopreempt_off (if m_owner s m = None then own_mtx m ?t else ?t) = Some s1"
    and s': "s' = return (if m_owner s m = None then 1 else 0) s1"
    using k by (auto simp: uthread_mtx_trylock_def Let_def split: bind_splits if_splits)
  let ?u = "if m_owner s m = None then own_mtx m ?t else ?t"
  have u: "queues ?u Q" "ut_curthr ?u = ut_curthr s" "stacks ?u = stacks s" "uthreads ?u = uthreads s" "curthr ?u = curthr s"
      "\<forall>k. k \<noteq> m \<longrightarrow> m_owner ?u k = m_owner s k"
      "m_owner ?u m = (if m_owner s m = None then Some (ut_curthr s) else m_owner s m)"
    using s by (simp_all add: sched_queues)
  have s1: "queues s1 Q" "quiet ?u s1" using off_quiet [OF off u(1) quiet_refl] by auto
  have ret: "queues (return v s1) Q" "uthreads (return v s1) = uthreads s" "ut_curthr (return v s1) = ut_curthr s"
      "stacks (return v s1) = stacks s" "m_owner (return v s1) = m_owner ?u" "returned (return v s1) (ut_curthr s) = v" for v
    using s1(1) quiet_simps [OF s1(2)] u(2-4) by (simp_all add: return_def queues_def)
  have "sched s' Q" unfolding s' by (rule sched_cong [OF s ret(1) ret(2,3)])
  then show ?thesis using ret u(6,7) on unfolding s' mtx_effect_def proceeds_def curthr_def by simp
qed

lemma uthread_mtx_unlock_ok:
  assumes s: "sched s Q" and on: "ut_state (curthr s) = UT_ON_CPU" and k: "uthread_mtx_unlock m s = Some (s', fs)"
  shows "set fs \<subseteq> {Switch, Nopreempt_reset} \<and> (\<exists>Q'. mtx_effect m s Q s' Q' fs \<and>
    ((Q (Mtx_waiters m) = [] \<and> Q' (Mtx_waiters m) = [] \<and> m_owner s' m = None) \<or>
     (\<exists>xs u. Q (Mtx_waiters m) = xs @ [u] \<and> Q' (Mtx_waiters m) = xs \<and> m_owner s' m = m_owner s m)))"
proof -
  let ?s = "uthread_nopreempt_on s" and ?q = "Mtx_waiters m"
  obtain e where e: "utqueue_empty ?q ?s = Some e" using k by (auto simp: uthread_mtx_unlock_def Let_def split: bind_splits)
  have Qs: "queues ?s Q" using s by (simp add: sched_queues)
  have e': "e \<longleftrightarrow> Q ?q = []" using utqueue_empty_ok [OF Qs _ e] by simp
  show ?thesis
  proof (cases e)
    case True
    then have off: "uthread_nopreempt_off (?s\<lparr>m_owner := (m_owner ?s)(m := None)\<rparr>) = Some s'" and fs: "fs = []"
      using k e by (auto simp: uthread_mtx_unlock_def Let_def split: bind_splits)
    have "queues (?s\<lparr>m_owner := (m_owner ?s)(m := None)\<rparr>) Q = queues ?s Q" by (simp add: queues_def)
    then have off': "quiet (?s\<lparr>m_owner := (m_owner ?s)(m := None)\<rparr>) s'" "queues s' Q"
      using nopreempt_off_ok [OF off, of Q] Qs by simp_all
    have same: "m_owner s' = (m_owner s)(m := None)" "ut_curthr s' = ut_curthr s" "stacks s' = stacks s" "uthreads s' = uthreads s"
      using off'(1) by (simp_all add: quiet_def kept_def)
    have "sched s' Q" by (rule sched_cong [OF s off'(2) same(4,2)])
    then have "mtx_effect m s Q s' Q fs" using on same fs by (simp add: mtx_effect_def proceeds_def curthr_def)
    then show ?thesis using e' True fs same(1) by (intro conjI exI [of _ Q]) simp_all
  next
    case False
    obtain r s1 s2 where d: "utqueue_dequeue ?q ?s = Some (r, s1)" and off: "uthread_nopreempt_off s1 = Some s2"
      and w: "do { deq \<leftarrow> r; uthread_wake deq s2 } = Some (s', fs)"
      using k e False by (auto simp: uthread_mtx_unlock_def Let_def split: bind_splits)
    obtain xs u where xs: "Q ?q = xs @ [u]" "r = Some u" "queues s1 (Q(?q := xs))" "quiet s s1"
      using dequeue_quiet [OF Qs _ d] e' False quiet_trans [OF quiet_on] by blast
    have s2: "queues s2 (Q(?q := xs))" "quiet s s2" using off_quiet [OF off xs(3,4)] by auto
    have "ut_state (uthreads s u) = UT_WAIT" using sched_fits [OF s, of u ?q] xs(1) by simp
    then have sch: "sched s2 (Q(?q := xs))" "unqueued (Q(?q := xs)) u"
      using sched_dequeue [OF s s2(1) xs(1)] quiet_simps [OF s2(2)] by simp_all
    have on2: "ut_state (curthr s2) = UT_ON_CPU" using on quiet_simps [OF s2(2)] by simp
    have k': "uthread_wake u s2 = Some (s', fs)" using w xs(2) by simp
    note wake = uthread_wake_ok [OF sch on2 k']
    then obtain Q' where Q': "sched s' Q'" "kept s2 s'" "same_waiters (Q(?q := xs)) Q'" "proceeds s' fs"
      by (auto simp: effect_def)
    then have "mtx_effect m s Q s' Q' fs" "Q' ?q = xs" "m_owner s' m = m_owner s m"
      using quiet_simps [OF s2(2)] by (simp_all add: mtx_effect_def kept_def same_waiters_def)
    then show ?thesis using wake xs(1) by blast
  qed
qed

section \<open>Condition variables\<close>

lemma cond_wait_enqueue_ok:
  assumes s: "sched s Q" and on: "ut_state (curthr s) = UT_ON_CPU" and k: "cond_wait_enqueue c m s = Some (s', fs)"
  shows "effect s Q s' fs \<and> fs = [Switch, Nopreempt_reset, Mtx_lock m]"
proof -
  obtain s1 where s1: "utqueue_enqueue (Cond_waiters c) (ut_curthr s) s = Some s1"
    using k by (cases "utqueue_enqueue (Cond_waiters c) (ut_curthr s) s") (simp_all add: cond_wait_enqueue_def)
  obtain fs1 where b: "uthread_block s1 = (s', fs1)" and fs: "fs = fs1 @ [Mtx_lock m]"
    using k s1 by (simp add: cond_wait_enqueue_def split: prod.splits)
  have u: "unqueued Q (ut_curthr s)" by (rule running_unqueued [OF s on])
  have q: "queues s1 (Q(Cond_waiters c := ut_curthr s # Q (Cond_waiters c)))" "quiet s s1"
    using enqueue_quiet [OF sched_queues [OF s] _ s1] by simp_all
  have blk: "sched s' (Q(Cond_waiters c := ut_curthr s # Q (Cond_waiters c))) \<and> kept s s' \<and> proceeds s' fs1 \<and> fs1 = [Switch, Nopreempt_reset]"
    by (rule uthread_block_ok [OF s q _ u b]) simp
  have "same_waiters Q (Q(Cond_waiters c := ut_curthr s # Q (Cond_waiters c)))" by simp
  then show ?thesis using blk fs unfolding effect_def proceeds_def by auto
qed

text \<open>Waking the thread that waits longest.\<close>

lemma wake_waiter:
  assumes s: "sched s Q" and on: "ut_state (curthr s) = UT_ON_CPU" and s1: "quiet s s1" "queues s1 (Q(Cond_waiters c := xs))"
    and xs: "Q (Cond_waiters c) = xs @ [u]"
    and k: "uthread_wake u (s1\<lparr>links := list_link_init (Link u) (links s1)\<rparr>) = Some (s', fs)"
  shows "effect s Q s' fs \<and> set fs \<subseteq> {Switch, Nopreempt_reset}"
proof -
  let ?Q = "Q(Cond_waiters c := xs)"
  have "ut_state (uthreads s u) = UT_WAIT" using sched_fits [OF s, of u "Cond_waiters c"] xs by simp
  then have sch: "sched s1 ?Q" "unqueued ?Q u"
    using sched_dequeue [OF s s1(2) xs] quiet_simps [OF s1(1)] by simp_all
  have init: "s1\<lparr>links := list_link_init (Link u) (links s1)\<rparr> = s1"
    using list_link_init_ok [of "links s1" ?Q u] s1(2) sch(2) by (cases s1) (simp add: queues_def)
  have on1: "ut_state (curthr s1) = UT_ON_CPU" using on s1(1) by (simp add: quiet_def kept_def curthr_def)
  have k': "uthread_wake u s1 = Some (s', fs)" using k init by simp
  have "kept s s1" "same_waiters Q ?Q" using s1(1) by (simp_all add: quiet_def)
  then show ?thesis using uthread_wake_ok [OF sch on1 k'] effect_trans by blast
qed

lemma uthread_cond_signal_ok:
  assumes s: "sched s Q" and on: "ut_state (curthr s) = UT_ON_CPU" and k: "uthread_cond_signal c s = Some (s', fs)"
  shows "effect s Q s' fs \<and> set fs \<subseteq> {Switch, Nopreempt_reset}"
proof -
  let ?s = "uthread_nopreempt_on s" and ?q = "Cond_waiters c"
  obtain e where e: "utqueue_empty ?q ?s = Some e" using k by (auto simp: uthread_cond_signal_def Let_def split: bind_splits)
  have Qs: "queues ?s Q" using s by (simp add: sched_queues)
  have e': "e \<longleftrightarrow> Q ?q = []" using utqueue_empty_ok [OF Qs _ e] by simp
  show ?thesis
  proof (cases e)
    case True
    then have off: "uthread_nopreempt_off ?s = Some s'" and fs: "fs = []"
      using k e by (auto simp: uthread_cond_signal_def Let_def split: bind_splits)
    have q: "queues s' Q" "quiet s s'" using off_quiet [OF off Qs quiet_on] by auto
    then show ?thesis using on fs sched_quiet [OF s q] quiet_simps [OF q(2)] same_waiters_simps(1) [of Q]
      unfolding effect_def proceeds_def kept_def by auto
  next
    case False
    obtain r s1 s2 where d: "utqueue_dequeue ?q ?s = Some (r, s1)" and off: "uthread_nopreempt_off s1 = Some s2"
      and w: "do { u \<leftarrow> r; uthread_wake u (s2\<lparr>links := list_link_init (Link u) (links s2)\<rparr>) } = Some (s', fs)"
      using k e False by (auto simp: uthread_cond_signal_def Let_def split: bind_splits)
    obtain xs u where xs: "Q ?q = xs @ [u]" "r = Some u" "queues s1 (Q(?q := xs))" "quiet s s1"
      using dequeue_quiet [OF Qs _ d] e' False quiet_trans [OF quiet_on] by blast
    have s2: "queues s2 (Q(?q := xs))" "quiet s s2" using off_quiet [OF off xs(3,4)] by auto
    show ?thesis using wake_waiter [OF s on s2(2,1) xs(1)] w xs(2) by simp
  qed
qed

lemma cond_broadcast_loop_ok:
  assumes s: "sched s Q" and on: "ut_state (curthr s) = UT_ON_CPU" and k: "cond_broadcast_loop c s = Some (s', fs)"
  shows "effect s Q s' fs \<and> set fs \<subseteq> {Switch, Nopreempt_reset, Cond_broadcast_loop c}"
proof -
  let ?q = "Cond_waiters c"
  obtain e where e: "utqueue_empty ?q s = Some e" using k by (auto simp: cond_broadcast_loop_def Let_def split: bind_splits)
  have Qs: "queues s Q" using s by (simp add: sched_queues)
  have e': "e \<longleftrightarrow> Q ?q = []" using utqueue_empty_ok [OF Qs _ e] by simp
  show ?thesis
  proof (cases e)
    case True
    then have off: "uthread_nopreempt_off s = Some s'" and fs: "fs = []"
      using k e by (auto simp: cond_broadcast_loop_def split: bind_splits)
    have q: "queues s' Q" "quiet s s'" using off_quiet [OF off Qs quiet_refl] by auto
    then show ?thesis using on fs sched_quiet [OF s q] quiet_simps [OF q(2)] same_waiters_simps(1) [of Q]
      unfolding effect_def proceeds_def kept_def by auto
  next
    case False
    obtain r s1 where d: "utqueue_dequeue ?q s = Some (r, s1)"
      using k e False by (auto simp: cond_broadcast_loop_def split: bind_splits)
    obtain xs u where xs: "Q ?q = xs @ [u]" "r = Some u" "queues s1 (Q(?q := xs))" "quiet s s1"
      using dequeue_quiet [OF Qs _ d] e' False by blast
    obtain fs1 where w: "uthread_wake u (s1\<lparr>links := list_link_init (Link u) (links s1)\<rparr>) = Some (s', fs1)"
      and fs: "fs = fs1 @ [Cond_broadcast_loop c]"
      using k e False d xs(2) by (auto simp: cond_broadcast_loop_def split: bind_splits)
    show ?thesis using wake_waiter [OF s on xs(4,3,1) w] fs
      by (cases fs1) (auto simp: effect_def proceeds_def)
  qed
qed

section \<open>Creating and ending threads\<close>

lemma uthread_alloc_ok:
  assumes "uthread_alloc s = (r, s')"
  shows "(r = None \<and> s' = s) \<or> (\<exists>i < UTH_MAX_UTHREADS. r = Some i \<and> ut_state (uthreads s i) = UT_NO_STATE \<and>
    s' = upd_thread i (\<lambda>u. u\<lparr>ut_id := i, ut_state := UT_TRANSITION\<rparr>) s)"
  using assms by (auto simp: uthread_alloc_def find_Some_iff split: option.splits)

text \<open>A new thread enters its run queue.\<close>

lemma uthread_create_ok:
  assumes s: "sched s Q" and on: "ut_state (curthr s) = UT_ON_CPU" and k: "uthread_create prio f mem s = Some (s', fs)"
  shows "\<exists>Q' uid. sched s' Q' \<and> proceeds s' fs \<and> ut_curthr s' = ut_curthr s \<and> m_owner s' = m_owner s \<and> same_waiters Q Q' \<and>
    (stacks s' = stacks s \<or> (uid \<noteq> ut_curthr s \<and> stacks s' = (stacks s)(uid := [Thread_start f]))) \<and>
    set fs \<subseteq> {Switch, Nopreempt_reset, Return 0, Return (- 1), Create_done uid}"
proof -
  obtain r s1 where al: "uthread_alloc s = (r, s1)" by fastforce
  show ?thesis
  proof (cases r)
    case None
    then show ?thesis using al uthread_alloc_ok [OF al] k s on
      by (intro exI [of _ Q] exI [of _ 0]) (auto simp: uthread_create_def proceeds_def)
  next
    case (Some i)
    have i: "i < UTH_MAX_UTHREADS" "ut_state (uthreads s i) = UT_NO_STATE"
        "s1 = upd_thread i (\<lambda>u. u\<lparr>ut_id := i, ut_state := UT_TRANSITION\<rparr>) s"
      using uthread_alloc_ok [OF al] Some by auto
    have ne: "i \<noteq> ut_curthr s" using i(2) on by (auto simp: curthr_def)
    have un: "unqueued Q i"
    proof -
      have "i \<notin> set (Q q)" for q using sched_fits [OF s, of i q] i(2) by (cases q) auto
      then show ?thesis by (simp add: unqueued_def)
    qed
    have w: "ut_waiter (uthreads s i) = None" "0 \<le> ut_prio (uthreads s i)" using s by (simp_all add: sched_def)
    obtain s2 where off: "uthread_nopreempt_off (uthread_nopreempt_on s1) = Some s2"
      using k al Some by (auto simp: uthread_create_def split: bind_splits)
    have "queues s1 Q" using s i(3) by (simp add: sched_queues)
    then have "queues (uthread_nopreempt_on s1) Q" by simp
    then have q2: "queues s2 Q" "quiet s1 s2" using off_quiet [OF off _ quiet_on] by auto
    have u2: "uthreads s2 = (uthreads s)(i := (uthreads s i)\<lparr>ut_id := i, ut_state := UT_TRANSITION\<rparr>)"
        "ut_curthr s2 = ut_curthr s" "m_owner s2 = m_owner s" "stacks s2 = stacks s"
      using quiet_simps [OF q2(2)] i(3) by simp_all
    show ?thesis
    proof (cases mem)
      case False
      have "sched s2 Q" by (rule sched_move [OF s q2(1) u2(1)]) (use un w u2(2) in \<open>auto simp: unqueued_def\<close>)
      then show ?thesis using k al Some off False u2 on ne
        by (intro exI [of _ Q] exI [of _ i]) (auto simp: uthread_create_def proceeds_def curthr_def split: bind_splits)
    next
      case True
      let ?s = "s2\<lparr>stacks := (stacks s2)(i := [Thread_start f])\<rparr>" and ?f = "\<lambda>u. u\<lparr>ut_prio := prio\<rparr>"
      let ?u = "upd_thread i (\<lambda>u. u\<lparr>ut_state := UT_RUNNABLE\<rparr>) ?s"
      obtain fs1 where sp: "uthread_setprio (int i) prio ?u = Some (s', fs1)" and fs: "fs = fs1 @ [Create_done i]"
        using k al Some off True by (auto simp: uthread_create_def split: bind_splits)
      have l: "linked (links s2) Q" using q2(1) by (simp add: queues_def)
      have null: "l_next (links s2) (Link i) = Null" "l_prev (links s2) (Link i) = Null" using linked_null [OF l un] by auto
      obtain s3 where e: "enqueue_runnable i (upd_thread i ?f ?u) = Some s3"
        and rest: "do { (s, fs) \<leftarrow> (if ut_prio (uthreads s3 i) > ut_prio (curthr s3) then uthread_yield s3 else Some (s3, []));
          Some (s, fs @ [Return 0]) } = Some (s', fs1)"
        using sp null i(1) by (auto simp: uthread_setprio_def thread_def Let_def split: bind_splits)
      let ?base = "s\<lparr>stacks := (stacks s)(i := [Thread_start f])\<rparr>"
      have s0: "sched ?base Q" by (rule sched_cong [OF s]) (use sched_queues [OF s] in \<open>simp_all add: queues_def\<close>)
      have "queues ?s Q" using q2(1) by (simp add: queues_def)
      then have "\<exists>Q'. sched s3 Q' \<and> kept ?base s3 \<and> same_waiters Q Q' \<and> uthreads s3 = uthreads (upd_thread i ?f ?u)"
        by (intro make_runnable [OF s0, of "upd_thread i ?f ?u" Q i "(uthreads s i)\<lparr>ut_id := i, ut_state := UT_RUNNABLE, ut_prio := prio\<rparr>"])
          (use un w e u2 in \<open>auto simp: kept_def\<close>)
      then obtain Q1 where Q1: "sched s3 Q1" "kept ?base s3" "same_waiters Q Q1" "uthreads s3 = uthreads (upd_thread i ?f ?u)" by blast
      have on3: "ut_state (curthr s3) = UT_ON_CPU" using Q1(2,4) u2 on ne by (auto simp: curthr_def kept_def)
      have "effect ?base Q s' fs1 \<and> set fs1 \<subseteq> {Switch, Nopreempt_reset, Return 0}"
      proof (cases "ut_prio (uthreads s3 i) > ut_prio (curthr s3)")
        case True
        then obtain fs2 where y: "uthread_yield s3 = Some (s', fs2)" "fs1 = fs2 @ [Return 0]"
          using rest by (auto split: bind_splits)
        then show ?thesis using uthread_yield_ok [OF Q1(1) on3 y(1)] effect_trans [OF _ Q1(2,3), of s' fs2]
          by (auto simp: effect_def proceeds_def)
      next
        case False
        then show ?thesis using rest Q1 on3 by (auto simp: effect_def proceeds_def)
      qed
      then obtain Q2 where "sched s' Q2" "kept ?base s'" "same_waiters Q Q2" "proceeds s' fs1" "set fs1 \<subseteq> {Switch, Nopreempt_reset, Return 0}"
        by (auto simp: effect_def)
      then show ?thesis using ne fs
        by (intro exI [of _ Q2] exI [of _ i]) (cases fs1; auto simp: kept_def proceeds_def)
    qed
  qed
qed

lemma uthread_exit_ok:
  assumes s: "sched s Q" and on: "ut_state (curthr s) = UT_ON_CPU" and d: "\<not> ut_detached (curthr s)"
    and k: "uthread_exit v s = Some (s', fs)"
  shows "effect s Q s' fs \<and> fs = [Switch, Panic] \<and>
    s' = upd_thread (ut_curthr s) (\<lambda>u. u\<lparr>ut_state := UT_ZOMBIE, ut_has_exited := True, ut_exit := v\<rparr>) s"
proof -
  let ?t = "ut_curthr s"
  have w: "ut_waiter (uthreads s ?t) = None" "0 \<le> ut_prio (uthreads s ?t)" using s by (simp_all add: sched_def)
  have r: "s' = upd_thread ?t (\<lambda>u. u\<lparr>ut_state := UT_ZOMBIE, ut_has_exited := True, ut_exit := v\<rparr>) s" "fs = [Switch, Panic]"
    using k d w by (simp_all add: uthread_exit_def Let_def) (simp_all add: curthr_def)
  have u: "unqueued Q ?t" by (rule running_unqueued [OF s on])
  have "sched s' Q"
    by (rule sched_move [OF s, of s' Q ?t "(uthreads s ?t)\<lparr>ut_state := UT_ZOMBIE, ut_has_exited := True, ut_exit := v\<rparr>"])
      (use s u w in \<open>simp_all add: r(1) sched_queues unqueued_def\<close>)
  then show ?thesis unfolding r by (auto simp: effect_def kept_def proceeds_def curthr_def intro!: exI [of _ Q])
qed

section \<open>The switch\<close>

lemma pick_thread_ok:
  assumes "queues s Q" "pick_thread i lo s = Some (r, s')" "0 \<le> lo"
  shows "quiet s s' \<and> (case r of
      None \<Rightarrow> queues s' Q \<and> (\<forall>j. lo \<le> j \<and> j \<le> i \<longrightarrow> Q (Runq (nat j)) = [])
    | Some t \<Rightarrow> \<exists>p xs. lo \<le> p \<and> p \<le> i \<and> Q (Runq (nat p)) = xs @ [t] \<and> (\<forall>j. p < j \<and> j \<le> i \<longrightarrow> Q (Runq (nat j)) = []) \<and>
        queues s' (Q(Runq (nat p) := xs)))"
  using assms
proof (induction i lo s arbitrary: r s' rule: pick_thread.induct)
  case (1 i lo s)
  show ?case
  proof (cases "i \<ge> lo")
    case False
    then show ?thesis using 1(2,3) by (subst (asm) pick_thread.simps) auto
  next
    case True
    let ?s = "uthread_nopreempt_on s"
    obtain q where q: "runq i = Some q" using 1(3) True by (subst (asm) pick_thread.simps) (auto simp: Let_def split: bind_splits)
    then have qi: "q = Runq (nat i)" by (auto simp: runq_def split: if_splits)
    obtain e where e: "utqueue_empty q ?s = Some e" using 1(3) True q by (subst (asm) pick_thread.simps) (auto simp: Let_def split: bind_splits)
    have Qs: "queues ?s Q" using 1(2) by simp
    have e': "e \<longleftrightarrow> Q q = []" using utqueue_empty_ok [OF Qs _ e] qi by simp
    show ?thesis
    proof (cases e)
      case e1: True
      obtain s1 where s1: "uthread_nopreempt_off ?s = Some s1" and rest: "pick_thread (i - 1) lo s1 = Some (r, s')"
        using 1(3) True q e e1 by (subst (asm) pick_thread.simps) (auto simp: Let_def split: bind_splits)
      have s1': "queues s1 Q" "quiet s s1" using off_quiet [OF s1 Qs quiet_on] by auto
      have "Q (Runq (nat i)) = []" using e' e1 qi by auto
      then have empty: "(\<forall>j. l \<le> j \<and> j \<le> i - 1 \<longrightarrow> Q (Runq (nat j)) = []) \<longleftrightarrow> (\<forall>j. l \<le> j \<and> j \<le> i \<longrightarrow> Q (Runq (nat j)) = [])" for l
        by (metis order_le_less zle_diff1_eq)
      have IH: "quiet s1 s' \<and> (case r of
            None \<Rightarrow> queues s' Q \<and> (\<forall>j. lo \<le> j \<and> j \<le> i - 1 \<longrightarrow> Q (Runq (nat j)) = [])
          | Some t \<Rightarrow> \<exists>p xs. lo \<le> p \<and> p \<le> i - 1 \<and> Q (Runq (nat p)) = xs @ [t] \<and> (\<forall>j. p < j \<and> j \<le> i - 1 \<longrightarrow> Q (Runq (nat j)) = []) \<and>
              queues s' (Q(Runq (nat p) := xs)))"
        by (rule 1(1) [OF True refl q e e1 s1 s1'(1) rest 1(4)])
      show ?thesis
      proof (cases r)
        case None
        then show ?thesis using IH s1'(2) empty [of lo] quiet_trans by auto
      next
        case (Some t)
        then obtain p xs where p: "lo \<le> p" "p \<le> i - 1" "Q (Runq (nat p)) = xs @ [t]"
          "\<forall>j. p + 1 \<le> j \<and> j \<le> i - 1 \<longrightarrow> Q (Runq (nat j)) = []" "queues s' (Q(Runq (nat p) := xs))" using IH by auto
        then show ?thesis using IH Some s1'(2) empty [of "p + 1"] quiet_trans
          by (auto intro!: exI [of _ p] exI [of _ xs])
      qed
    next
      case False
      obtain s1 where d: "utqueue_dequeue q ?s = Some (r, s1)" and off: "uthread_nopreempt_off s1 = Some s'"
        using 1(3) True q e False by (subst (asm) pick_thread.simps) (auto simp: Let_def split: bind_splits)
      obtain xs t where xs: "Q q = xs @ [t]" "r = Some t" "queues s1 (Q(q := xs))" "quiet s s1"
        using dequeue_quiet [OF Qs _ d] e' False qi quiet_trans [OF quiet_on] by blast
      have "quiet s s'" "queues s' (Q(q := xs))" using off_quiet [OF off xs(3,4)] by auto
      then show ?thesis using xs(1,2) True qi by (auto intro!: exI [of _ i] exI [of _ xs])
    qed
  qed
qed

end
