(* ===== verification/Uthreads.thy ===== *)
theory Uthreads
  imports UthreadSync
begin

text \<open>
  Runs of the thread library: what the current thread, its user code and the clock can do, and the
  invariant all runs keep. The ghost \<open>h\<close> says which threads hold each mutex: those that have returned
  from locking it and have not called for it to be unlocked.
\<close>

section \<open>The stacks\<close>

text \<open>Frames that only put a thread off the processor.\<close>

definition pausing :: "frame \<Rightarrow> bool" where
  "pausing f \<longleftrightarrow> f = Switch \<or> f = Nopreempt_reset \<or> f = Yield"

text \<open>The frames that occur without joining and detaching threads.\<close>

fun lib_frame :: "frame \<Rightarrow> bool" where
  "lib_frame (Setprio i p) \<longleftrightarrow> False"
| "lib_frame (Mtx_init m) \<longleftrightarrow> False"
| "lib_frame (Mtx_trylock m) \<longleftrightarrow> False"
| "lib_frame (Mtx_unlock m) \<longleftrightarrow> False"
| "lib_frame (Cond_init c) \<longleftrightarrow> False"
| "lib_frame (Cond_wait c m) \<longleftrightarrow> False"
| "lib_frame (Cond_signal c) \<longleftrightarrow> False"
| "lib_frame (Cond_broadcast c) \<longleftrightarrow> False"
| "lib_frame (Create p f mem) \<longleftrightarrow> False"
| "lib_frame (Join i) \<longleftrightarrow> False"
| "lib_frame (Join_rest t) \<longleftrightarrow> False"
| "lib_frame (Detach i) \<longleftrightarrow> False"
| "lib_frame (Make_reapable t) \<longleftrightarrow> False"
| "lib_frame (Reap_insert t) \<longleftrightarrow> False"
| "lib_frame _ \<longleftrightarrow> True"

text \<open>A thread waits for at most one mutex, and for nothing below the frame that takes it.\<close>

definition no_own :: "frame list \<Rightarrow> bool" where
  "no_own fs \<longleftrightarrow> (\<forall>m. Mtx_own m \<notin> set fs)"

definition ok_stack :: "frame list \<Rightarrow> bool" where
  "ok_stack fs \<longleftrightarrow> (\<forall>f\<in>set fs. lib_frame f) \<and> no_own (tl (dropWhile pausing fs))"

lemma no_own_tl: "no_own fs \<Longrightarrow> no_own (tl (dropWhile P fs))"
  unfolding no_own_def by (metis list.sel(2) list.set_sel(2) set_dropWhileD)

lemma ok_stack_tl: "ok_stack (f # fs) \<Longrightarrow> ok_stack fs"
proof (cases "pausing f")
  case False
  assume "ok_stack (f # fs)"
  then have "\<forall>f\<in>set fs. lib_frame f" "no_own fs" using False by (auto simp: ok_stack_def)
  then show "ok_stack fs" using no_own_tl by (simp add: ok_stack_def)
qed (simp add: ok_stack_def)

lemma ok_stack_no_own: "ok_stack (f # fs) \<Longrightarrow> \<not> pausing f \<Longrightarrow> no_own fs"
  by (simp add: ok_stack_def)

lemma ok_stack_pausing: "ok_stack fs \<Longrightarrow> \<forall>f\<in>set new. pausing f \<Longrightarrow> ok_stack (new @ fs)"
  by (auto simp: ok_stack_def pausing_def dropWhile_append2)

lemma no_own_stack: "no_own fs \<Longrightarrow> \<forall>f\<in>set fs. lib_frame f \<Longrightarrow> ok_stack fs"
  using no_own_tl by (simp add: ok_stack_def)

lemma ok_stack_own: "no_own fs \<Longrightarrow> \<forall>f\<in>set fs. lib_frame f \<Longrightarrow> ok_stack ([Switch, Nopreempt_reset, Mtx_own m] @ fs)"
  by (auto simp: ok_stack_def pausing_def)

lemma ok_stack_push:
  assumes "ok_stack (f # fs)" "\<forall>g\<in>set new. lib_frame g" "no_own new" "\<not> pausing f \<or> (\<forall>g\<in>set new. pausing g)"
  shows "ok_stack (new @ fs)"
proof (cases "\<forall>g\<in>set new. pausing g")
  case True
  then show ?thesis by (rule ok_stack_pausing [OF ok_stack_tl [OF assms(1)]])
next
  case False
  then have "no_own (new @ fs)" "\<forall>g\<in>set (new @ fs). lib_frame g"
    using ok_stack_no_own [OF assms(1)] assms by (auto simp: no_own_def ok_stack_def)
  then show ?thesis by (rule no_own_stack)
qed

text \<open>The current thread is on the processor or about to switch; no other thread is.\<close>

definition ok_stacks :: "uths \<Rightarrow> bool" where
  "ok_stacks s \<longleftrightarrow> (\<forall>t. ok_stack (stacks s t)) \<and> (\<forall>t. t \<noteq> ut_curthr s \<longrightarrow> Switch \<notin> set (stacks s t)) \<and>
     proceeds s (stacks s (ut_curthr s))"

section \<open>Mutual exclusion\<close>

type_synonym holders = "nat \<Rightarrow> nat set"

text \<open>The threads that hold the mutex, or were taken from its queue to hold it next.\<close>

definition claims :: "uths \<Rightarrow> (queue \<Rightarrow> nat list) \<Rightarrow> holders \<Rightarrow> nat \<Rightarrow> nat set" where
  "claims s Q h m = h m \<union> {t. Mtx_own m \<in> set (stacks s t) \<and> t \<notin> set (Q (Mtx_waiters m))}"

definition exclusive :: "uths \<Rightarrow> (queue \<Rightarrow> nat list) \<Rightarrow> holders \<Rightarrow> bool" where
  "exclusive s Q h \<longleftrightarrow> (\<forall>m. m \<noteq> reap_mtx \<longrightarrow> (\<exists>t. claims s Q h m \<subseteq> {t}) \<and>
     (m_owner s m = None \<longrightarrow> claims s Q h m = {} \<and> Q (Mtx_waiters m) = []))"

lemma exclusiveD: "exclusive s Q h \<Longrightarrow> m \<noteq> reap_mtx \<Longrightarrow> t \<in> claims s Q h m \<Longrightarrow> claims s Q h m = {t} \<and> m_owner s m \<noteq> None"
  unfolding exclusive_def by (metis empty_iff singletonD subset_singletonD)

text \<open>Steps that leave a mutex alone.\<close>

lemma exclusive_mono:
  assumes "exclusive s Q h" "\<And>m. m \<noteq> reap_mtx \<Longrightarrow> claims s' Q' h' m \<subseteq> claims s Q h m \<and> m_owner s' m = m_owner s m \<and>
    Q' (Mtx_waiters m) = Q (Mtx_waiters m)"
  shows "exclusive s' Q' h'"
  unfolding exclusive_def
proof (intro allI impI)
  fix m assume m: "m \<noteq> reap_mtx"
  show "(\<exists>t. claims s' Q' h' m \<subseteq> {t}) \<and> (m_owner s' m = None \<longrightarrow> claims s' Q' h' m = {} \<and> Q' (Mtx_waiters m) = [])"
    using assms(1) assms(2) [OF m] m unfolding exclusive_def by (metis subset_empty subset_trans)
qed

text \<open>Steps on one mutex.\<close>

lemma exclusive_one:
  assumes "exclusive s Q h" "\<And>k. k \<noteq> reap_mtx \<Longrightarrow> k \<noteq> m \<Longrightarrow> claims s' Q' h' k \<subseteq> claims s Q h k \<and> m_owner s' k = m_owner s k \<and>
    Q' (Mtx_waiters k) = Q (Mtx_waiters k)"
    and "m \<noteq> reap_mtx \<Longrightarrow> (\<exists>t. claims s' Q' h' m \<subseteq> {t}) \<and> (m_owner s' m = None \<longrightarrow> claims s' Q' h' m = {} \<and> Q' (Mtx_waiters m) = [])"
  shows "exclusive s' Q' h'"
  unfolding exclusive_def
proof (intro allI impI)
  fix k assume k: "k \<noteq> reap_mtx"
  show "(\<exists>t. claims s' Q' h' k \<subseteq> {t}) \<and> (m_owner s' k = None \<longrightarrow> claims s' Q' h' k = {} \<and> Q' (Mtx_waiters k) = [])"
    using assms(1) assms(2) [OF k] assms(3) k unfolding exclusive_def by (metis subset_empty subset_trans)
qed

section \<open>Runs\<close>

text \<open>Who holds what after a frame of the thread \<open>t\<close>.\<close>

definition holds :: "frame \<Rightarrow> uths \<Rightarrow> holders \<Rightarrow> holders" where
  "holds f s h = (let t = ut_curthr s in case f of
     Mtx_own m \<Rightarrow> h(m := insert t (h m))
   | Mtx_lock m \<Rightarrow> if m_owner s m = None then h(m := insert t (h m)) else h
   | Mtx_trylock m \<Rightarrow> if m_owner s m = None then h(m := insert t (h m)) else h
   | Mtx_unlock m \<Rightarrow> h(m := h m - {t})
   | Cond_wait c m \<Rightarrow> h(m := h m - {t})
   | _ \<Rightarrow> h)"

text \<open>The calls user code may make: it unlocks and waits with mutexes it holds, initialises only what
is not in use, leaves the reaper's mutex alone and changes the priority of runnable threads only. Threads
are not joined or detached here.\<close>

fun call_ok :: "uths \<Rightarrow> holders \<Rightarrow> frame \<Rightarrow> bool" where
  "call_ok s h Yield \<longleftrightarrow> True"
| "call_ok s h (Setprio i p) \<longleftrightarrow> (\<exists>t. thread i = Some t \<and> ut_state (uthreads s t) = UT_RUNNABLE)"
| "call_ok s h (Mtx_init m) \<longleftrightarrow> m \<noteq> reap_mtx \<and> m_owner s m = None"
| "call_ok s h (Mtx_lock m) \<longleftrightarrow> m \<noteq> reap_mtx"
| "call_ok s h (Mtx_trylock m) \<longleftrightarrow> m \<noteq> reap_mtx"
| "call_ok s h (Mtx_unlock m) \<longleftrightarrow> m \<noteq> reap_mtx \<and> ut_curthr s \<in> h m"
| "call_ok s h (Cond_init c) \<longleftrightarrow> tq_size s (Cond_waiters c) = 0"
| "call_ok s h (Cond_wait c m) \<longleftrightarrow> m \<noteq> reap_mtx \<and> ut_curthr s \<in> h m"
| "call_ok s h (Cond_signal c) \<longleftrightarrow> True"
| "call_ok s h (Cond_broadcast c) \<longleftrightarrow> True"
| "call_ok s h (Create p f mem) \<longleftrightarrow> f = User_code"
| "call_ok s h (Exit v) \<longleftrightarrow> \<not> ut_detached (curthr s)"
| "call_ok s h _ \<longleftrightarrow> False"

text \<open>The steps: the current thread runs its topmost frame, its user code makes a call or returns, or
the clock interrupts it. A switch has to find a thread, and the clock does not interrupt a thread that
is about to switch.\<close>

inductive step :: "uths \<times> holders \<Rightarrow> uths \<times> holders \<Rightarrow> bool" where
  step_frame: "step (s, h) (s', holds f s h)"
    if "stacks s (ut_curthr s) = f # fs" "run_frame s = Some s'" "f \<noteq> User"
      "f = Switch \<longrightarrow> (\<exists>p. switch_prio s \<le> int p \<and> int p \<le> UTH_MAXPRIO \<and> tq_size s (Runq p) \<noteq> 0)"
      "\<forall>v. f = Exit v \<longrightarrow> \<not> ut_detached (curthr s)"
| step_call: "step (s, h) (push_frames (ut_curthr s) new s', holds c s h)"
    if "stacks s (ut_curthr s) = User # fs" "call_ok s h c" "exec_frame c s = Some (s', new)"
| step_return: "step (s, h) (s\<lparr>stacks := (stacks s)(ut_curthr s := fs)\<rparr>, h)"
    if "stacks s (ut_curthr s) = User # fs"
| step_clock: "step (s, h) (push_frames (ut_curthr s) new s', h)"
    if "clock_interrupt s = (s', new)" "stacks s (ut_curthr s) = f # fs" "f \<noteq> Switch"

inductive reachable :: "uths \<times> holders \<Rightarrow> bool" where
  reachable_init: "reachable (s, \<lambda>m. {})" if "uthread_init uths_start = Some s"
| reachable_step: "reachable c'" if "reachable c" "step c c'"


section \<open>The invariant\<close>

definition base :: "uths \<Rightarrow> bool" where
  "base s \<longleftrightarrow> (\<forall>t. ok_stack (stacks s t) \<and> Switch \<notin> set (stacks s t)) \<and> ut_state (curthr s) = UT_ON_CPU"

definition inv :: "uths \<times> holders \<Rightarrow> bool" where
  "inv c \<longleftrightarrow> (\<exists>Q. sched (fst c) Q \<and> ok_stacks (fst c) \<and> exclusive (fst c) Q (snd c))"

lemma push_simps [simp]:
  "stacks (push_frames t new s) = (stacks s)(t := new @ stacks s t)" "ut_curthr (push_frames t new s) = ut_curthr s"
  "uthreads (push_frames t new s) = uthreads s" "m_owner (push_frames t new s) = m_owner s"
  "curthr (push_frames t new s) = curthr s" "sched (push_frames t new s) Q = sched s Q"
  by (simp_all add: push_frames_def curthr_def sched_def queues_def)

lemma push_ok:
  assumes b: "\<And>t. ok_stack (stacks s t) \<and> Switch \<notin> set (stacks s t)" and p: "proceeds s new"
    and ok: "ok_stack (new @ stacks s (ut_curthr s))"
  shows "ok_stacks (push_frames (ut_curthr s) new s)"
  using assms by (cases new) (auto simp: ok_stacks_def proceeds_def)

lemma ok_push:
  assumes "ok_stack fs" "\<forall>g\<in>set new. lib_frame g" "no_own new" "no_own fs \<or> (\<forall>g\<in>set new. pausing g)"
  shows "ok_stack (new @ fs)"
  using assms(4)
proof
  assume "no_own fs"
  then have "no_own (new @ fs)" "\<forall>g\<in>set (new @ fs). lib_frame g" using assms by (auto simp: no_own_def ok_stack_def)
  then show ?thesis by (rule no_own_stack)
qed (use ok_stack_pausing [OF assms(1)] in blast)

text \<open>An operation that is not about mutexes.\<close>

lemma inv_effect:
  assumes b: "base s" and ex: "exclusive s Q h" and e: "effect s Q s' new"
    and new: "\<forall>g\<in>set new. lib_frame g" "no_own new"
      "no_own (stacks s (ut_curthr s)) \<or> (\<forall>g\<in>set new. pausing g)"
  shows "inv (push_frames (ut_curthr s) new s', h)"
proof -
  obtain Q' where Q': "sched s' Q'" "kept s s'" "same_waiters Q Q'" "proceeds s' new" using e by (auto simp: effect_def)
  have same: "ut_curthr s' = ut_curthr s" "stacks s' = stacks s" "m_owner s' = m_owner s" using Q'(2) by (auto simp: kept_def)
  have "ok_stacks (push_frames (ut_curthr s') new s')"
    by (rule push_ok) (use b Q'(4) ok_push [OF _ new] same in \<open>auto simp: base_def\<close>)
  moreover have "exclusive (push_frames (ut_curthr s) new s') Q' h"
    by (rule exclusive_mono [OF ex])
      (use same Q'(3) new(2) in \<open>auto simp: claims_def same_waiters_def no_own_def\<close>)
  ultimately show ?thesis using Q'(1) same(1) by (auto simp: inv_def)
qed

lemma inv_lock:
  assumes b: "base s" and s: "sched s Q" and ex: "exclusive s Q h" and no: "no_own (stacks s (ut_curthr s))"
    and k: "uthread_mtx_lock m s = Some (s', new)"
  shows "inv (push_frames (ut_curthr s) new s', holds (Mtx_lock m) s h)"
proof -
  let ?t = "ut_curthr s"
  have on: "ut_state (curthr s) = UT_ON_CPU" using b by (simp add: base_def)
  have un: "unqueued Q ?t" by (rule running_unqueued [OF s on])
  from uthread_mtx_lock_ok [OF s on k] show ?thesis
  proof
    assume "m_owner s m = None \<and> m_owner s' m = Some ?t \<and> mtx_effect m s Q s' Q new \<and> new = []"
    then have l: "m_owner s m = None" "m_owner s' m = Some ?t" "mtx_effect m s Q s' Q []" "new = []" by auto
    have same: "sched s' Q" "ut_curthr s' = ?t" "stacks s' = stacks s" using l(3) by (auto simp: mtx_effect_def)
    have "ok_stacks (push_frames (ut_curthr s') [] s')"
      by (rule push_ok) (use b l(3) same in \<open>auto simp: base_def mtx_effect_def\<close>)
    moreover have "exclusive (push_frames ?t [] s') Q (h(m := insert ?t (h m)))"
    proof (rule exclusive_one [OF ex, of m])
      assume "m \<noteq> reap_mtx"
      then have none: "claims s Q h m = {}" using ex l(1) unfolding exclusive_def by blast
      then have "claims (push_frames ?t [] s') Q (h(m := insert ?t (h m))) m \<subseteq> {?t}"
        using same(3) unfolding claims_def by auto
      then show "(\<exists>t. claims (push_frames ?t [] s') Q (h(m := insert ?t (h m))) m \<subseteq> {t}) \<and> (m_owner (push_frames ?t [] s') m = None \<longrightarrow>
          claims (push_frames ?t [] s') Q (h(m := insert ?t (h m))) m = {} \<and> Q (Mtx_waiters m) = [])" using l(2) by auto
    qed (use l(3) in \<open>auto simp: claims_def mtx_effect_def\<close>)
    ultimately show ?thesis using same l by (auto simp: inv_def holds_def)
  next
    let ?Q = "Q(Mtx_waiters m := ?t # Q (Mtx_waiters m))"
    assume "m_owner s m \<noteq> None \<and> m_owner s' m = m_owner s m \<and> new = [Switch, Nopreempt_reset, Mtx_own m] \<and> mtx_effect m s Q s' ?Q new"
    then have l: "m_owner s m \<noteq> None" "m_owner s' m = m_owner s m" "new = [Switch, Nopreempt_reset, Mtx_own m]" "mtx_effect m s Q s' ?Q new"
      by auto
    have same: "sched s' ?Q" "ut_curthr s' = ?t" "stacks s' = stacks s" "\<And>k. m_owner s' k = m_owner s k"
      using l(2,4) by (auto simp: mtx_effect_def)
    have ok: "ok_stack (new @ stacks s' (ut_curthr s'))"
      using ok_stack_own [OF no] b same by (auto simp: l(3) base_def ok_stack_def)
    have "ok_stacks (push_frames (ut_curthr s') new s')"
      by (rule push_ok [OF _ _ ok]) (use b l(4) same in \<open>auto simp: base_def mtx_effect_def\<close>)
    moreover have "exclusive (push_frames ?t new s') ?Q h"
    proof (rule exclusive_one [OF ex, of m])
      show "claims (push_frames ?t new s') ?Q h k \<subseteq> claims s Q h k \<and> m_owner (push_frames ?t new s') k = m_owner s k \<and>
          ?Q (Mtx_waiters k) = Q (Mtx_waiters k)" if "k \<noteq> m" for k
        using that same by (auto simp: claims_def l(3))
      assume m: "m \<noteq> reap_mtx"
      have sub: "claims (push_frames ?t new s') ?Q h m \<subseteq> claims s Q h m" using same by (auto simp: claims_def l(3))
      have one: "\<exists>t. claims s Q h m \<subseteq> {t}" using ex m by (simp add: exclusive_def)
      then show "(\<exists>t. claims (push_frames ?t new s') ?Q h m \<subseteq> {t}) \<and> (m_owner (push_frames ?t new s') m = None \<longrightarrow>
          claims (push_frames ?t new s') ?Q h m = {} \<and> ?Q (Mtx_waiters m) = [])"
        using sub l(1) same(4) by auto
    qed
    ultimately show ?thesis using same l(1) by (auto simp: inv_def holds_def)
  qed
qed

lemma inv_unlock:
  assumes b: "base s" and s: "sched s Q" and ex: "exclusive s Q h" and no: "no_own (stacks s (ut_curthr s))"
    and k: "uthread_mtx_unlock m s = Some (s', fs)" and m: "m = reap_mtx \<or> ut_curthr s \<in> h m"
    and gs: "\<forall>g\<in>set gs. lib_frame g" "no_own gs" "Switch \<notin> set gs"
  shows "inv (push_frames (ut_curthr s) (fs @ gs) s', h(m := h m - {ut_curthr s}))"
proof -
  let ?t = "ut_curthr s" and ?h = "h(m := h m - {ut_curthr s})"
  have on: "ut_state (curthr s) = UT_ON_CPU" using b by (simp add: base_def)
  obtain Q' where fs: "set fs \<subseteq> {Switch, Nopreempt_reset}" and e: "mtx_effect m s Q s' Q' fs"
    and cases: "(Q (Mtx_waiters m) = [] \<and> Q' (Mtx_waiters m) = [] \<and> m_owner s' m = None) \<or>
     (\<exists>xs u. Q (Mtx_waiters m) = xs @ [u] \<and> Q' (Mtx_waiters m) = xs \<and> m_owner s' m = m_owner s m)"
    using uthread_mtx_unlock_ok [OF s on k] by blast
  have same: "sched s' Q'" "proceeds s' fs" "ut_curthr s' = ?t" "stacks s' = stacks s"
      "\<And>k. k \<noteq> m \<Longrightarrow> m_owner s' k = m_owner s k \<and> Q' (Mtx_waiters k) = Q (Mtx_waiters k)"
    using e by (auto simp: mtx_effect_def)
  have new: "\<forall>g\<in>set (fs @ gs). lib_frame g" "no_own (fs @ gs)" using fs gs(1,2) by (auto simp: no_own_def)
  have "proceeds s' (fs @ gs)" using same(2) gs(3) by (cases fs) (auto simp: proceeds_def)
  then have "ok_stacks (push_frames (ut_curthr s') (fs @ gs) s')"
    by (intro push_ok) (use b same(3,4) ok_push [OF _ new] no in \<open>auto simp: base_def\<close>)
  moreover have "exclusive (push_frames ?t (fs @ gs) s') Q' ?h"
  proof (rule exclusive_one [OF ex, of m])
    show "claims (push_frames ?t (fs @ gs) s') Q' ?h k \<subseteq> claims s Q h k \<and> m_owner (push_frames ?t (fs @ gs) s') k = m_owner s k \<and>
        Q' (Mtx_waiters k) = Q (Mtx_waiters k)" if "k \<noteq> m" for k
      using same(4,5) that new(2) by (auto simp: claims_def no_own_def)
    assume m': "m \<noteq> reap_mtx"
    then have "?t \<in> claims s Q h m" using m by (simp add: claims_def)
    note held = exclusiveD [OF ex m' this]
    have old: "t = ?t" if "t \<in> h m \<or> Mtx_own m \<in> set (stacks s t) \<and> t \<notin> set (Q (Mtx_waiters m))" for t
      using held that by (auto simp: claims_def)
    have cl: "claims (push_frames ?t (fs @ gs) s') Q' ?h m = {t. Mtx_own m \<in> set (stacks s t) \<and> t \<notin> set (Q' (Mtx_waiters m))}"
      using old same(4) new(2) by (auto simp: claims_def no_own_def)
    have not_t: "Mtx_own m \<notin> set (stacks s ?t)" using no by (simp add: no_own_def)
    show "(\<exists>t. claims (push_frames ?t (fs @ gs) s') Q' ?h m \<subseteq> {t}) \<and> (m_owner (push_frames ?t (fs @ gs) s') m = None \<longrightarrow>
        claims (push_frames ?t (fs @ gs) s') Q' ?h m = {} \<and> Q' (Mtx_waiters m) = [])"
      using cases
    proof
      assume q: "Q (Mtx_waiters m) = [] \<and> Q' (Mtx_waiters m) = [] \<and> m_owner s' m = None"
      then have "claims (push_frames ?t (fs @ gs) s') Q' ?h m = {}" unfolding cl using old not_t by auto
      then show ?thesis using q by auto
    next
      assume "\<exists>xs u. Q (Mtx_waiters m) = xs @ [u] \<and> Q' (Mtx_waiters m) = xs \<and> m_owner s' m = m_owner s m"
      then obtain xs u where q: "Q (Mtx_waiters m) = xs @ [u]" "Q' (Mtx_waiters m) = xs" "m_owner s' m = m_owner s m" by blast
      then have "claims (push_frames ?t (fs @ gs) s') Q' ?h m \<subseteq> {u}" unfolding cl using old not_t by auto
      then show ?thesis using q held by auto
    qed
  qed
  ultimately show ?thesis using same(1,3) by (auto simp: inv_def)
qed

text \<open>Other changes: nothing but the stack of the current thread.\<close>

lemma inv_keep:
  assumes b: "base s" and s: "sched s' Q" and ex: "exclusive s Q h" and same: "ut_curthr s' = ut_curthr s" "stacks s' = stacks s"
    "m_owner s' = m_owner s" "uthreads s' = uthreads s"
    and new: "\<forall>g\<in>set new. lib_frame g" "no_own new" "Switch \<notin> set new"
      "no_own (stacks s (ut_curthr s)) \<or> (\<forall>g\<in>set new. pausing g)"
  shows "inv (push_frames (ut_curthr s) new s', h)"
  by (rule inv_effect [OF b ex _ new(1,2,4)])
    (use b s same new(3) in \<open>auto simp: effect_def kept_def proceeds_def base_def curthr_def intro!: exI [of _ Q]\<close>)

lemma queues_more [simp]:
  "queues (s\<lparr>returned := r\<rparr>) Q = queues s Q" "queues (s\<lparr>new_id := i\<rparr>) Q = queues s Q" "queues (s\<lparr>reaper_thr_id := t\<rparr>) Q = queues s Q"
  "queues (s\<lparr>uthread_no_preempt := b\<rparr>) Q = queues s Q" "queues (s\<lparr>stacks := f\<rparr>) Q = queues s Q" "queues (s\<lparr>m_owner := f'\<rparr>) Q = queues s Q"
  "queues (s\<lparr>clock_count := n\<rparr>) Q = queues s Q" "queues (s\<lparr>taken_clock_count := n\<rparr>) Q = queues s Q"
  "queues (s\<lparr>ut_curthr := t\<rparr>) Q = queues s Q"
  by (simp_all add: queues_def)

lemma inv_wait:
  assumes b: "base s" and s: "sched s Q" and ex: "exclusive s Q h" and no: "no_own (stacks s (ut_curthr s))"
    and k: "uthread_cond_wait c m s = Some (s', fs)" and m: "m = reap_mtx \<or> ut_curthr s \<in> h m"
    and gs: "\<forall>g\<in>set gs. lib_frame g" "no_own gs" "Switch \<notin> set gs"
  shows "inv (push_frames (ut_curthr s) (fs @ gs) s', h(m := h m - {ut_curthr s}))"
proof -
  let ?s = "uthread_nopreempt_on s"
  define g where "g = (case c of Some c \<Rightarrow> Cond_wait_enqueue c m | None \<Rightarrow> Mtx_lock m)"
  have g: "lib_frame g" "g \<noteq> Mtx_own x" "g \<noteq> Switch" for x by (cases c; simp add: g_def)+
  obtain fs1 where u: "uthread_mtx_unlock m ?s = Some (s', fs1)" and fs: "fs = fs1 @ [g]"
    using k by (auto simp: uthread_cond_wait_def Let_def g_def split: bind_splits option.splits)
  have "base ?s" "sched ?s Q" "exclusive ?s Q h" using b s ex by (auto simp: base_def exclusive_def claims_def)
  then have "inv (push_frames (ut_curthr ?s) (fs1 @ (g # gs)) s', h(m := h m - {ut_curthr ?s}))"
    by (rule inv_unlock [OF _ _ _ _ u]) (use no m gs g in \<open>auto simp: no_own_def\<close>)
  then show ?thesis using fs by simp
qed

lemma inv_broadcast:
  assumes b: "base s" and s: "sched s Q" and ex: "exclusive s Q h" and no: "no_own (stacks s (ut_curthr s))"
    and k: "cond_broadcast_loop c s = Some (s', fs)"
  shows "inv (push_frames (ut_curthr s) fs s', h)"
proof -
  have on: "ut_state (curthr s) = UT_ON_CPU" using b by (simp add: base_def)
  show ?thesis using cond_broadcast_loop_ok [OF s on k] no
    by (intro inv_effect [OF b ex]) (auto simp: no_own_def)
qed

text \<open>The reaper finds its queue empty and waits.\<close>

lemma reap_null: "reap Null s = None"
  by (subst reap.simps) simp

lemma inv_reaper:
  assumes b: "base s" and s: "sched s Q" and ex: "exclusive s Q h" and no: "no_own (stacks s (ut_curthr s))"
    and k: "reaper_loop s = Some (s', fs)"
  shows "inv (push_frames (ut_curthr s) fs s', h)"
proof (cases "list_empty (Head Reap_queue) (links s)")
  case True
  then obtain fs1 where c: "uthread_cond_wait (Some reap_cond) reap_mtx s = Some (s', fs1)" and fs: "fs = fs1 @ [Reaper_loop]"
    using k by (auto simp: reaper_loop_def split: bind_splits)
  have "inv (push_frames (ut_curthr s) (fs1 @ [Reaper_loop]) s', h(reap_mtx := h reap_mtx - {ut_curthr s}))"
    by (rule inv_wait [OF b s ex no c]) (auto simp: no_own_def)
  then obtain Q' where "sched (push_frames (ut_curthr s) (fs1 @ [Reaper_loop]) s') Q'" "ok_stacks (push_frames (ut_curthr s) (fs1 @ [Reaper_loop]) s')"
      "exclusive (push_frames (ut_curthr s) (fs1 @ [Reaper_loop]) s') Q' (h(reap_mtx := h reap_mtx - {ut_curthr s}))"
    by (auto simp: inv_def)
  moreover have "exclusive (push_frames (ut_curthr s) (fs1 @ [Reaper_loop]) s') Q' h"
    by (rule exclusive_mono [OF calculation(3)]) (auto simp: claims_def)
  ultimately show ?thesis using fs by (auto simp: inv_def)
next
  case False
  have l: "linked (links s) Q" using s by (simp add: sched_def queues_def)
  have "t \<notin> set (Q Reap_queue)" for t using sched_fits [OF s, of t Reap_queue] by auto
  then have "Q Reap_queue = []" by (cases "Q Reap_queue") auto
  then have "l_next (links s) (Head Reap_queue) = Null" using False list_empty_ok [OF l] by blast
  then show ?thesis using k False reap_null by (simp add: reaper_loop_def)
qed

lemma inv_create:
  assumes b: "base s" and s: "sched s Q" and ex: "exclusive s Q h" and no: "no_own (stacks s (ut_curthr s))"
    and k: "uthread_create p f mem s = Some (s', fs)"
  shows "inv (push_frames (ut_curthr s) fs s', h)"
proof -
  have on: "ut_state (curthr s) = UT_ON_CPU" using b by (simp add: base_def)
  obtain Q' uid where c: "sched s' Q'" "proceeds s' fs" "ut_curthr s' = ut_curthr s" "m_owner s' = m_owner s" "same_waiters Q Q'"
    "stacks s' = stacks s \<or> (uid \<noteq> ut_curthr s \<and> stacks s' = (stacks s)(uid := [Thread_start f]))"
    "set fs \<subseteq> {Switch, Nopreempt_reset, Return 0, Return (- 1), Create_done uid}"
    using uthread_create_ok [OF s on k] by blast
  have new: "\<forall>g\<in>set fs. lib_frame g" "no_own fs" using c(7) by (auto simp: no_own_def)
  have start: "ok_stack [Thread_start f]" by (simp add: ok_stack_def pausing_def no_own_def)
  have cur: "stacks s' (ut_curthr s) = stacks s (ut_curthr s)" using c(6) by auto
  have "ok_stacks (push_frames (ut_curthr s') fs s')"
  proof (rule push_ok [OF _ c(2)])
    show "ok_stack (stacks s' t) \<and> Switch \<notin> set (stacks s' t)" for t using b start c(6) by (cases "t = uid") (auto simp: base_def)
    show "ok_stack (fs @ stacks s' (ut_curthr s'))" unfolding c(3) cur
      by (rule ok_push [OF _ new]) (use b no in \<open>auto simp: base_def\<close>)
  qed
  moreover have "exclusive (push_frames (ut_curthr s) fs s') Q' h"
    by (rule exclusive_mono [OF ex])
      (use c(4-6) new(2) in \<open>auto simp: claims_def same_waiters_def no_own_def split: if_splits\<close>)
  ultimately show ?thesis using c(1,3) by (auto simp: inv_def)
qed

text \<open>The switch.\<close>

lemma inv_switch:
  assumes s: "sched s Q" and ex: "exclusive s Q h" and off: "ut_state (curthr s) \<noteq> UT_ON_CPU"
    and st: "\<And>t. ok_stack (stacks s t) \<and> Switch \<notin> set (stacks s t)"
    and found: "switch_prio s \<le> int p" "int p \<le> UTH_MAXPRIO" "tq_size s (Runq p) \<noteq> 0"
    and k: "uthread_switch s = Some (s', fs)"
  shows "inv (push_frames (ut_curthr s) fs s', h)"
proof -
  have lo: "0 \<le> switch_prio s" using s by (simp add: switch_prio_def sched_def curthr_def)
  obtain r s1 where pick: "pick_thread UTH_MAXPRIO (switch_prio s) s = Some (r, s1)"
    and rest: "(case r of None \<Rightarrow> Some (s1, if switch_prio s - 1 = 0 then [Switch] else [])
     | Some u \<Rightarrow> do {
         let s = s1\<lparr>links := list_link_init (Link u) (links s1)\<rparr>;
         let s = s\<lparr>ut_curthr := u\<rparr>;
         Some (upd_thread u (\<lambda>u. u\<lparr>ut_state := UT_ON_CPU\<rparr>) s, []) }) = Some (s', fs)"
    using k by (auto simp: uthread_switch_def Let_def split: bind_splits)
  note ok = pick_thread_ok [OF sched_queues [OF s] pick lo]
  have "Q (Runq p) \<noteq> []" using s found(3) by (auto simp: sched_def queues_def)
  then have "r \<noteq> None"
  proof (rule contrapos_nn)
    assume "r = None"
    then have "\<forall>j. switch_prio s \<le> j \<and> j \<le> UTH_MAXPRIO \<longrightarrow> Q (Runq (nat j)) = []" using ok by simp
    then show "Q (Runq p) = []" using found by (metis nat_int)
  qed
  then obtain u q xs where u: "r = Some u" "Q (Runq q) = xs @ [u]" "queues s1 (Q(Runq q := xs))" "quiet s s1"
    using ok by auto
  let ?Q = "Q(Runq q := xs)"
  have l: "linked (links s) Q" using s by (simp add: sched_def queues_def)
  have unq: "unqueued ?Q u"
    using linked_distinct [OF l, of "Runq q"] linked_once [OF l, of u _ "Runq q"] u(2) by (auto simp: unqueued_def)
  have "s1\<lparr>links := list_link_init (Link u) (links s1)\<rparr> = s1"
    using list_link_init_ok [of "links s1" ?Q u] u(3) unq by (cases s1) (simp add: queues_def)
  then have s': "s' = upd_thread u (\<lambda>u. u\<lparr>ut_state := UT_ON_CPU\<rparr>) (s1\<lparr>ut_curthr := u\<rparr>)" "fs = []"
    using rest u(1) by (simp_all add: Let_def)
  have none: "ut_state (uthreads s t) \<noteq> UT_ON_CPU" for t
    using s off by (auto simp: sched_def curthr_def)
  have "sched (s\<lparr>ut_curthr := u\<rparr>) Q" using s none by (simp add: sched_def)
  moreover have w: "ut_waiter (uthreads s u) = None" "0 \<le> ut_prio (uthreads s u)" using s by (simp_all add: sched_def)
  ultimately have "sched s' ?Q"
  proof (intro sched_move [of "s\<lparr>ut_curthr := u\<rparr>" Q s' ?Q u "(uthreads s u)\<lparr>ut_state := UT_ON_CPU\<rparr>"])
    show "queues s' ?Q" using u(3) by (simp add: s')
    show "uthreads s' = (uthreads (s\<lparr>ut_curthr := u\<rparr>))(u := (uthreads s u)\<lparr>ut_state := UT_ON_CPU\<rparr>)"
      using quiet_simps [OF u(4)] by (simp add: s')
  qed (use u(2) unq in \<open>auto simp: s' unqueued_def\<close>)
  moreover have "ok_stacks s'"
    using st quiet_simps [OF u(4)] by (auto simp: ok_stacks_def s' proceeds_def curthr_def)
  moreover have "exclusive s' ?Q h"
    by (rule exclusive_mono [OF ex]) (use quiet_simps [OF u(4)] in \<open>auto simp: claims_def s'\<close>)
  moreover have "push_frames (ut_curthr s) [] s' = s'" by (simp add: push_frames_def)
  ultimately show ?thesis using s'(2) by (auto simp: inv_def)
qed

text \<open>The other frames of the library, and the calls of user code.\<close>

lemma inv_exec:
  assumes b: "base s" and s: "sched s Q" and ex: "exclusive s Q h"
    and no: "no_own (stacks s (ut_curthr s)) \<or> pausing f"
    and k: "exec_frame f s = Some (s', new)" and f: "call_ok s h f \<or> lib_frame f"
    and fsw: "f \<noteq> Switch" "\<forall>m. f \<noteq> Mtx_own m" "\<forall>v. f = Exit v \<longrightarrow> \<not> ut_detached (curthr s)"
  shows "inv (push_frames (ut_curthr s) new s', holds f s h)"
proof -
  have on: "ut_state (curthr s) = UT_ON_CPU" using b by (simp add: base_def)
  have no': "no_own (stacks s (ut_curthr s))" if "\<not> pausing f" using no that by blast
  note effect = inv_effect [OF b ex] and keep = inv_keep [OF b _ ex]
  have r: "sched (return v s) Q" for v using s by (simp add: sched_def return_def)
  show ?thesis
  proof (cases f)
    case (Thread_start g)
    then have h: "holds f s h = h" by (simp add: holds_def)
    show ?thesis unfolding h using k no' s Thread_start
      by (cases g; intro keep) (auto simp: thread_start_def uthread_nopreempt_reset_def no_own_def pausing_def sched_def)
  next
    case Yield
    then show ?thesis using uthread_yield_ok [OF s on] k
      by (auto simp: holds_def pausing_def no_own_def intro!: effect)
  next
    case Nopreempt_reset
    then have h: "holds f s h = h" by (simp add: holds_def)
    show ?thesis unfolding h using k s Nopreempt_reset
      by (intro keep) (auto simp: uthread_nopreempt_reset_def no_own_def pausing_def sched_def)
  next
    case (Setprio i p)
    then obtain t where t: "thread i = Some t" "ut_state (uthreads s t) = UT_RUNNABLE" using f by auto
    have e: "effect s Q s' new \<and> set new \<subseteq> {Switch, Nopreempt_reset, Return 0}"
      by (rule uthread_setprio_ok [OF s on t]) (use k Setprio in simp)
    then show ?thesis using no' Setprio by (auto simp: holds_def pausing_def no_own_def intro!: effect)
  next
    case (Mtx_lock m)
    then show ?thesis using inv_lock [OF b s ex] k no' by (simp add: pausing_def)
  next
    case (Mtx_unlock m)
    then show ?thesis using inv_unlock [OF b s ex, where gs = "[]" and m = m] k no' f by (simp add: pausing_def holds_def no_own_def)
  next
    case (Cond_wait c m)
    then show ?thesis using inv_wait [OF b s ex, where gs = "[]" and m = m and c = c] k no' f by (simp add: pausing_def holds_def no_own_def)
  next
    case (Cond_wait_enqueue c m)
    then have "effect s Q s' new \<and> new = [Switch, Nopreempt_reset, Mtx_lock m]" using cond_wait_enqueue_ok [OF s on] k by simp
    then show ?thesis using no' Cond_wait_enqueue by (auto simp: holds_def pausing_def no_own_def intro!: effect)
  next
    case (Cond_signal c)
    then have "effect s Q s' new \<and> set new \<subseteq> {Switch, Nopreempt_reset}" using uthread_cond_signal_ok [OF s on] k by simp
    then show ?thesis using no' Cond_signal by (auto simp: holds_def pausing_def no_own_def intro!: effect)
  next
    case (Cond_broadcast_loop c)
    then show ?thesis using inv_broadcast [OF b s ex] k no' by (simp add: pausing_def holds_def)
  next
    case (Cond_broadcast c)
    have "base (uthread_nopreempt_on s)" "sched (uthread_nopreempt_on s) Q" "exclusive (uthread_nopreempt_on s) Q h"
      using b s ex by (auto simp: base_def exclusive_def claims_def)
    then show ?thesis using inv_broadcast [of "uthread_nopreempt_on s" Q h c s' new] k no' Cond_broadcast
      by (simp add: pausing_def holds_def uthread_cond_broadcast_def)
  next
    case (Create p g mem)
    then show ?thesis using inv_create [OF b s ex] k no' by (simp add: pausing_def holds_def)
  next
    case (Exit v)
    then have "effect s Q s' new \<and> new = [Switch, Panic]" using uthread_exit_ok [OF s on] k fsw(3) by simp
    then show ?thesis using no' Exit by (auto simp: holds_def pausing_def no_own_def intro!: effect)
  next
    case Reaper_loop
    then show ?thesis using inv_reaper [OF b s ex] k no' by (simp add: pausing_def holds_def)
  next
    case (Mtx_trylock m)
    then have m: "m \<noteq> reap_mtx" and k': "uthread_mtx_trylock m s = Some s'" "new = []" using f k by auto
    note tl = uthread_mtx_trylock_ok [OF s on k'(1)]
    have same: "sched s' Q" "ut_curthr s' = ut_curthr s" "stacks s' = stacks s" "proceeds s' []" using tl by (auto simp: mtx_effect_def)
    have "ok_stacks (push_frames (ut_curthr s') [] s')" by (rule push_ok) (use b same in \<open>auto simp: base_def\<close>)
    moreover have "exclusive (push_frames (ut_curthr s) [] s') Q (holds f s h)"
    proof (cases "m_owner s m = None")
      case True
      show ?thesis
      proof (rule exclusive_one [OF ex, of m])
        have none: "claims s Q h m = {}" using ex True m unfolding exclusive_def by blast
        have hold: "holds f s h = h(m := insert (ut_curthr s) (h m))" using True Mtx_trylock by (simp add: holds_def)
        have "claims (push_frames (ut_curthr s) [] s') Q (holds f s h) m \<subseteq> {ut_curthr s}"
          using none same(3) unfolding claims_def hold by auto
        then show "(\<exists>t. claims (push_frames (ut_curthr s) [] s') Q (holds f s h) m \<subseteq> {t}) \<and> (m_owner (push_frames (ut_curthr s) [] s') m = None \<longrightarrow>
            claims (push_frames (ut_curthr s) [] s') Q (holds f s h) m = {} \<and> Q (Mtx_waiters m) = [])" using tl True by auto
      qed (use tl True Mtx_trylock in \<open>auto simp: claims_def mtx_effect_def holds_def\<close>)
    next
      case False
      have "m_owner s' k = m_owner s k" for k using tl False by (cases "k = m") (auto simp: mtx_effect_def)
      then show ?thesis using False Mtx_trylock same(3) by (intro exclusive_mono [OF ex]) (auto simp: claims_def holds_def)
    qed
    ultimately show ?thesis using same(1,2) k'(2) by (auto simp: inv_def)
  next
    case (Mtx_init m)
    then have m: "m \<noteq> reap_mtx" "m_owner s m = None" and k': "s' = uthread_mtx_init m s" "new = []" using f k by auto
    have "Q (Mtx_waiters m) = []" using ex m unfolding exclusive_def by blast
    then have "queues s' Q" using utqueue_init_ok [of "s\<lparr>m_owner := (m_owner s)(m := None)\<rparr>" Q "Mtx_waiters m"] s
      by (simp add: k' uthread_mtx_init_def sched_queues)
    then have "sched s' Q" by (rule sched_cong [OF s]) (simp_all add: k' uthread_mtx_init_def utqueue_init_def)
    then show ?thesis using Mtx_init m k'
      by (auto simp: holds_def no_own_def uthread_mtx_init_def utqueue_init_def intro!: keep)
  next
    case (Cond_init c)
    then have k': "s' = utqueue_init (Cond_waiters c) s" "new = []" and z: "tq_size s (Cond_waiters c) = 0"
      using f k by (auto simp: uthread_cond_init_def)
    have "queues s' Q" using utqueue_init_ok [OF sched_queues [OF s], of "Cond_waiters c"] z s by (auto simp: k' sched_def queues_def)
    then have "sched s' Q" by (rule sched_cong [OF s]) (simp_all add: k' utqueue_init_def)
    then show ?thesis using Cond_init k' by (auto simp: holds_def no_own_def utqueue_init_def intro!: keep)
  next
    case (Create_done t)
    then show ?thesis using k s no' by (auto simp: holds_def no_own_def create_done_def return_def sched_def intro!: keep)
  next
    case (Return v)
    then show ?thesis using k r no' by (auto simp: holds_def no_own_def return_def intro!: keep)
  next
    case Reaper_created
    then show ?thesis using k s no' by (auto simp: holds_def no_own_def reaper_created_def sched_def intro!: keep)
  qed (use f k fsw in auto)
qed

text \<open>Popping a frame.\<close>

lemma pop_facts:
  assumes "sched s Q" "ok_stacks s" "exclusive s Q h" "stacks s (ut_curthr s) = f # fs"
  defines "s1 \<equiv> s\<lparr>stacks := (stacks s)(ut_curthr s := fs)\<rparr>"
  shows "sched s1 Q" "exclusive s1 Q h" "\<And>t. ok_stack (stacks s1 t) \<and> Switch \<notin> set (stacks s1 t)"
    "f \<noteq> Switch \<Longrightarrow> base s1 \<and> base s" "f = Switch \<Longrightarrow> ut_state (curthr s) \<noteq> UT_ON_CPU" "lib_frame f"
    "no_own (stacks s1 (ut_curthr s1)) \<or> pausing f"
proof -
  have ok: "ok_stack (f # fs)" using assms(2,4) by (metis ok_stacks_def)
  have p: "proceeds s (f # fs)" using assms(2,4) by (simp add: ok_stacks_def)
  show "sched s1 Q" using assms(1) by (simp add: s1_def sched_def)
  show "exclusive s1 Q h" by (rule exclusive_mono [OF assms(3)]) (use assms(4) in \<open>auto simp: s1_def claims_def\<close>)
  have no_sw: "Switch \<notin> set fs" using p by (auto simp: proceeds_def split: if_splits)
  show st: "ok_stack (stacks s1 t) \<and> Switch \<notin> set (stacks s1 t)" for t
    using assms(2) ok_stack_tl [OF ok] no_sw by (auto simp: s1_def ok_stacks_def)
  show "f \<noteq> Switch \<Longrightarrow> base s1 \<and> base s"
  proof -
    assume ne: "f \<noteq> Switch"
    then have "Switch \<notin> set (f # fs)" using no_sw by simp
    then have on: "ut_state (curthr s) = UT_ON_CPU" using p by (auto simp: proceeds_def split: if_splits)
    moreover have "Switch \<notin> set (stacks s t)" for t using assms(2,4) ne no_sw by (cases "t = ut_curthr s") (auto simp: ok_stacks_def)
    then have "base s" using assms(2) on by (simp add: base_def ok_stacks_def)
    ultimately show ?thesis using st by (simp add: base_def s1_def curthr_def)
  qed
  show "f = Switch \<Longrightarrow> ut_state (curthr s) \<noteq> UT_ON_CPU" using p by (auto simp: proceeds_def)
  show "lib_frame f" using ok by (simp add: ok_stack_def)
  show "no_own (stacks s1 (ut_curthr s1)) \<or> pausing f" using ok_stack_no_own [OF ok] by (auto simp: s1_def)
qed

lemma inv_own:
  assumes b: "base s1" and s: "sched s1 Q" "sched s Q" and ex: "exclusive s Q h"
    and st: "stacks s (ut_curthr s) = Mtx_own m # fs" "s1 = s\<lparr>stacks := (stacks s)(ut_curthr s := fs)\<rparr>"
  shows "inv (own_mtx m s1, h(m := insert (ut_curthr s) (h m)))"
proof -
  let ?t = "ut_curthr s"
  have on: "ut_state (curthr s1) = UT_ON_CPU" using b by (simp add: base_def)
  have un: "unqueued Q ?t" using running_unqueued [OF s(1) on] by (simp add: st(2))
  have "ok_stacks (own_mtx m s1)" using b by (simp add: base_def ok_stacks_def proceeds_def)
  moreover have "exclusive (own_mtx m s1) Q (h(m := insert ?t (h m)))"
  proof (rule exclusive_one [OF ex, of m])
    assume m: "m \<noteq> reap_mtx"
    have "?t \<in> claims s Q h m" using st(1) un by (auto simp: claims_def unqueued_def)
    then have "claims s Q h m = {?t}" using exclusiveD [OF ex m] by blast
    then have "claims (own_mtx m s1) Q (h(m := insert ?t (h m))) m \<subseteq> {?t}"
      using st by (auto simp: claims_def split: if_splits)
    then show "(\<exists>t. claims (own_mtx m s1) Q (h(m := insert ?t (h m))) m \<subseteq> {t}) \<and> (m_owner (own_mtx m s1) m = None \<longrightarrow>
        claims (own_mtx m s1) Q (h(m := insert ?t (h m))) m = {} \<and> Q (Mtx_waiters m) = [])" by auto
  qed (use st in \<open>auto simp: claims_def\<close>)
  ultimately show ?thesis using s(1) by (auto simp: inv_def)
qed

lemma inv_step: "step c c' \<Longrightarrow> inv c \<Longrightarrow> inv c'"
proof (induction rule: step.induct)
  case (step_frame s f fs s' h)
  obtain Q where Q: "sched s Q" "ok_stacks s" "exclusive s Q h" using step_frame.prems by (auto simp: inv_def)
  let ?s = "s\<lparr>stacks := (stacks s)(ut_curthr s := fs)\<rparr>"
  note pop = pop_facts [OF Q step_frame.hyps(1)]
  obtain s1 new where k: "exec_frame f ?s = Some (s1, new)" and s': "s' = push_frames (ut_curthr s) new s1"
    using step_frame.hyps(1,2) by (auto simp: run_frame_def Let_def split: bind_splits)
  have h: "holds f ?s h = holds f s h" by (cases f) (auto simp: holds_def)
  show ?case
  proof (cases "f = Switch")
    case True
    obtain p where p: "switch_prio s \<le> int p" "int p \<le> UTH_MAXPRIO" "tq_size s (Runq p) \<noteq> 0"
      using step_frame.hyps(4) True by blast
    have "inv (push_frames (ut_curthr ?s) new s1, h)"
      by (rule inv_switch [OF pop(1,2) _ pop(3), of p])
        (use pop(5) True p k in \<open>auto simp: switch_prio_def curthr_def\<close>)
    then show ?thesis using True s' by (simp add: holds_def)
  next
    case False
    have b: "base ?s" using pop(4) False by simp
    show ?thesis
    proof (cases "\<exists>m. f = Mtx_own m")
      case True
      then obtain m where m: "f = Mtx_own m" by blast
      have "inv (own_mtx m ?s, h(m := insert (ut_curthr s) (h m)))"
        by (rule inv_own [OF b pop(1) Q(1,3) _ refl]) (use step_frame.hyps(1) m in simp)
      moreover have "s' = own_mtx m ?s" using k s' m by (simp add: push_frames_def own_mtx_def)
      ultimately show ?thesis using m by (simp add: holds_def)
    next
      case own: False
      have "inv (push_frames (ut_curthr ?s) new s1, holds f ?s h)"
        by (rule inv_exec [OF b pop(1,2,7) k]) (use pop(6) False own step_frame.hyps(5) in \<open>auto simp: curthr_def\<close>)
      then show ?thesis using s' h by simp
    qed
  qed
next
  case (step_call s fs h c s' new)
  obtain Q where Q: "sched s Q" "ok_stacks s" "exclusive s Q h" using step_call.prems by (auto simp: inv_def)
  note pop = pop_facts [OF Q step_call.hyps(1)]
  have no: "no_own (stacks s (ut_curthr s)) \<or> pausing c"
    using pop(7) step_call.hyps(1) by (auto simp: no_own_def pausing_def)
  show ?case
    by (rule inv_exec [OF _ Q(1,3) no step_call.hyps(3)]) (use pop(4) step_call.hyps(2) in auto)
next
  case (step_return s fs h)
  obtain Q where Q: "sched s Q" "ok_stacks s" "exclusive s Q h" using step_return.prems by (auto simp: inv_def)
  note pop = pop_facts [OF Q step_return.hyps]
  let ?s = "s\<lparr>stacks := (stacks s)(ut_curthr s := fs)\<rparr>"
  have "base ?s" using pop(4) by simp
  then have "ok_stacks ?s" using pop(3) unfolding ok_stacks_def base_def proceeds_def by (simp del: fun_upd_apply)
  then show ?case using pop(1,2) by (auto simp: inv_def)
next
  case (step_clock s s' new f fs h)
  obtain Q where Q: "sched s Q" "ok_stacks s" "exclusive s Q h" using step_clock.prems by (auto simp: inv_def)
  note pop = pop_facts [OF Q step_clock.hyps(2)]
  have "base s" using pop(4) step_clock.hyps(3) by simp
  moreover have "sched s' Q" "new = [] \<or> new = [Yield]" "ut_curthr s' = ut_curthr s" "stacks s' = stacks s" "m_owner s' = m_owner s"
    "uthreads s' = uthreads s"
    using step_clock.hyps(1) Q(1) by (auto simp: clock_interrupt_def Let_def sched_def split: if_splits)
  ultimately show ?case by (intro inv_keep [OF _ _ Q(3)]) (auto simp: no_own_def pausing_def)
qed

section \<open>The start\<close>

lemma queues_start: "queues uths_start (\<lambda>q. [])"
  by (simp add: uths_start_def queues_def linked_def)

lemma utqueue_init_simps [simp]:
  "uthreads (utqueue_init q s) = uthreads s" "stacks (utqueue_init q s) = stacks s" "m_owner (utqueue_init q s) = m_owner s"
  "ut_curthr (utqueue_init q s) = ut_curthr s"
  by (simp_all add: utqueue_init_def)

lemma init_runqueues_ok:
  assumes "queues s (\<lambda>q. [])"
  shows "queues (init_runqueues s) (\<lambda>q. []) \<and> uthreads (init_runqueues s) = uthreads s \<and>
    stacks (init_runqueues s) = stacks s \<and> m_owner (init_runqueues s) = m_owner s"
proof -
  have "queues (fold (\<lambda>i. utqueue_init (Runq i)) is s) (\<lambda>q. []) \<and> uthreads (fold (\<lambda>i. utqueue_init (Runq i)) is s) = uthreads s \<and>
    stacks (fold (\<lambda>i. utqueue_init (Runq i)) is s) = stacks s \<and> m_owner (fold (\<lambda>i. utqueue_init (Runq i)) is s) = m_owner s" for "is"
    using assms by (induction "is" arbitrary: s) (simp_all add: utqueue_init_ok)
  then show ?thesis unfolding init_runqueues_def by blast
qed

lemma reaper_init1_ok:
  assumes "queues s (\<lambda>q. [])"
  shows "queues (reaper_init1 s) (\<lambda>q. []) \<and> uthreads (reaper_init1 s) = uthreads s \<and>
    stacks (reaper_init1 s) = stacks s \<and> m_owner (reaper_init1 s) = (m_owner s)(reap_mtx := None)"
proof -
  have "linked (list_init (Head Reap_queue) (links s)) (\<lambda>q. [])"
    using list_init_ok [of "links s" "\<lambda>q. []" Reap_queue] assms by (simp add: queues_def)
  then have "queues (s\<lparr>links := list_init (Head Reap_queue) (links s)\<rparr>) (\<lambda>q. [])" using assms by (simp add: queues_def)
  then show ?thesis by (simp add: reaper_init1_def uthread_cond_init_def uthread_mtx_init_def utqueue_init_ok)
qed

lemma inv_init:
  assumes "uthread_init uths_start = Some s"
  shows "inv (s, \<lambda>m. {})"
proof -
  let ?s = "reaper_init1 (init_runqueues uths_start)" and ?Q = "\<lambda>q :: queue. [] :: nat list"
  note r = init_runqueues_ok [OF queues_start]
  have q: "queues ?s ?Q" "uthreads ?s = uthreads uths_start" "stacks ?s = stacks uths_start" "m_owner ?s = (\<lambda>m. None)"
    using reaper_init1_ok [of "init_runqueues uths_start"] r by (auto simp: uths_start_def)
  obtain s1 where c: "create_first_thr ?s = Some s1" using assms by (auto simp: uthread_init_def split: bind_splits)
  obtain s2 fs where cr: "uthread_create UTH_MAXPRIO Reaper True s1 = Some (s2, fs)"
    and s: "s = s2\<lparr>stacks := (stacks s2)(ut_curthr s2 := fs @ [Reaper_created, User])\<rparr>"
    using assms c by (auto simp: uthread_init_def Let_def split: bind_splits)
  obtain tid a where al: "uthread_alloc ?s = (Some tid, a)" using c by (cases "uthread_alloc ?s") (auto simp: create_first_thr_def split: bind_splits)
  have a: "a = upd_thread tid (\<lambda>u. u\<lparr>ut_id := tid, ut_state := UT_TRANSITION\<rparr>) ?s" using uthread_alloc_ok [OF al] by auto
  have l: "linked (links ?s) ?Q" using q(1) by (simp add: queues_def)
  have "list_link_init (Link tid) (links ?s) = links ?s" by (rule list_link_init_ok [OF l]) (simp add: unqueued_def)
  then have s1: "uthreads s1 = (uthreads uths_start)(tid := (uthreads uths_start tid)\<lparr>ut_id := tid, ut_prio := UTH_MAXPRIO, ut_has_exited := False,
        ut_exit := 0, ut_detached := True, ut_waiter := None, ut_state := UT_ON_CPU\<rparr>)"
      "ut_curthr s1 = tid" "stacks s1 = (\<lambda>t. [])" "m_owner s1 = (\<lambda>m. None)" "links s1 = links ?s" "tq_size s1 = tq_size ?s"
    using c al q a by (auto simp: create_first_thr_def Let_def uths_start_def)
  have "queues s1 ?Q" using q(1) s1(5,6) by (simp add: queues_def)
  then have sched1: "sched s1 ?Q" unfolding sched_def using s1(1,2) by (auto simp: uths_start_def UTH_MAXPRIO_def)
  have on1: "ut_state (curthr s1) = UT_ON_CPU" using s1 by (simp add: curthr_def)
  obtain Q uid where Q: "sched s2 Q" "proceeds s2 fs" "ut_curthr s2 = ut_curthr s1" "m_owner s2 = m_owner s1" "same_waiters ?Q Q"
    "stacks s2 = stacks s1 \<or> (uid \<noteq> ut_curthr s1 \<and> stacks s2 = (stacks s1)(uid := [Thread_start Reaper]))"
    "set fs \<subseteq> {Switch, Nopreempt_reset, Return 0, Return (- 1), Create_done uid}"
    using uthread_create_ok [OF sched1 on1 cr] by blast
  have "sched s Q" using Q(1) s by (simp add: sched_def)
  moreover have "ok_stacks s"
  proof -
    have fs: "ok_stack (fs @ [Reaper_created, User])" using Q(7) by (intro no_own_stack) (auto simp: no_own_def)
    have start: "ok_stack [Thread_start Reaper]" "ok_stack []" by (simp_all add: ok_stack_def pausing_def no_own_def)
    have "proceeds s (fs @ [Reaper_created, User])" using Q(2) by (cases fs) (auto simp: s proceeds_def curthr_def)
    then show ?thesis using fs start Q(6) s1(3) by (auto simp: s ok_stacks_def)
  qed
  moreover have "exclusive s Q (\<lambda>m. {})"
    unfolding exclusive_def
  proof (intro allI impI)
    fix m
    have "Mtx_own m \<notin> set (stacks s t)" for t using Q(6,7) s1(3) by (auto simp: s)
    then show "(\<exists>t. claims s Q (\<lambda>m. {}) m \<subseteq> {t}) \<and> (m_owner s m = None \<longrightarrow> claims s Q (\<lambda>m. {}) m = {} \<and> Q (Mtx_waiters m) = [])"
      using Q(5) by (simp add: claims_def same_waiters_def)
  qed
  ultimately show ?thesis by (auto simp: inv_def)
qed

lemma reachable_inv: "reachable c \<Longrightarrow> inv c"
  by (induction rule: reachable.induct) (auto intro: inv_init inv_step)

end
