(* ===== verification/UthreadSpec.thy ===== *)
theory UthreadSpec
  imports Uthreads
begin

text \<open>
  The properties of the thread library: its queues, which thread a switch runs, what all runs keep, and
  the places where the library aborts.
\<close>

section \<open>When the operations succeed\<close>

definition initialised :: "uths \<Rightarrow> queue \<Rightarrow> bool" where
  "initialised s q \<longleftrightarrow> l_next (links s) (Head q) \<noteq> Null"

lemma enqueue_succeeds:
  assumes q: "queues s Q" "initialised s q" "q \<noteq> Reap_queue" and t: "unqueued Q t"
  shows "\<exists>s'. utqueue_enqueue q t s = Some s' \<and> queues s' (Q(q := t # Q q))"
proof -
  have l: "linked (links s) Q" using q(1) by (simp add: queues_def)
  let ?f = "l_next (links s) (Head q)"
  have ring: "ring (l_next (links s)) (l_prev (links s)) (ring_of q (Q q))" using linked_ring [OF l] q(2) by (simp add: initialised_def)
  have "?f \<in> set (ring_of q (Q q))" using ring_next_in [OF ring, of "Head q"] by (simp add: ring_of_def)
  then have f: "?f \<noteq> Null" "l_prev (links s) ?f \<noteq> Null" "?f \<noteq> Link t"
    using ring_of_links [OF ring] q(2) t by (auto simp: initialised_def ring_of_def unqueued_def)
  then have "list_insert_head (Head q) (Link t) (links s) \<noteq> None"
    by (simp add: list_insert_head_def list_insert_before_def c_assert_def Let_def)
  then obtain s' where s': "utqueue_enqueue q t s = Some s'"
    using linked_null [OF l t] by (auto simp: utqueue_enqueue_def c_assert_def)
  then show ?thesis using enqueue_quiet [OF q(1,3) s'] by blast
qed

lemma enqueue_queued: "queues s Q \<Longrightarrow> \<not> unqueued Q t \<Longrightarrow> utqueue_enqueue q t s = None"
  using linked_unqueued [of "links s" Q t] by (auto simp: queues_def utqueue_enqueue_def c_assert_def)

lemma empty_succeeds:
  assumes "queues s Q" "initialised s q" "q \<noteq> Reap_queue"
  shows "utqueue_empty q s = Some (Q q = [])"
  using assms list_empty_ok [of "links s" Q q] by (simp add: utqueue_empty_def c_assert_def queues_def initialised_def)

lemma dequeue_succeeds:
  assumes "queues s Q" "initialised s q" "q \<noteq> Reap_queue" "Q q = xs @ [t]"
  shows "\<exists>s'. utqueue_dequeue q s = Some (Some t, s') \<and> queues s' (Q(q := xs))"
proof -
  have l: "linked (links s) Q" using assms(1) by (simp add: queues_def)
  have "l_prev (links s) (Head q) = Link t"
    using ring_prev_hd [OF linked_ring [OF l, of q, unfolded ring_of_def]] assms(2,4) by (simp add: initialised_def)
  then have "utqueue_dequeue q s \<noteq> None"
    using empty_succeeds [OF assms(1-3)] list_remove_ok [OF l, of q xs t "[]"] assms(4) by (auto simp: utqueue_dequeue_def)
  then obtain r s' where r: "utqueue_dequeue q s = Some (r, s')" by auto
  then show ?thesis using dequeue_quiet [OF assms(1,3) r] assms(4) by auto
qed

lemma off_succeeds: "0 < uthread_no_preempt_count s \<Longrightarrow> \<exists>s'. uthread_nopreempt_off s = Some s' \<and>
    uthread_no_preempt_count s' = uthread_no_preempt_count s - 1 \<and> links s' = links s"
  by (auto simp: uthread_nopreempt_off_def c_assert_def Let_def)

lemma pick_succeeds:
  assumes "queues s Q" "\<forall>p. int p \<le> UTH_MAXPRIO \<longrightarrow> initialised s (Runq p)" "0 \<le> uthread_no_preempt_count s" "0 \<le> lo" "i \<le> UTH_MAXPRIO"
  shows "pick_thread i lo s \<noteq> None"
  using assms
proof (induction i lo s rule: pick_thread.induct)
  case (1 i lo s)
  show ?case
  proof (cases "i \<ge> lo")
    case False
    then show ?thesis by (subst pick_thread.simps) simp
  next
    case True
    let ?s = "uthread_nopreempt_on s" and ?q = "Runq (nat i)"
    have q: "runq i = Some ?q" using True 1(5,6) by (simp add: runq_def)
    have ini: "initialised ?s ?q" using 1(3,5,6) True by (simp add: initialised_def)
    have Qs: "queues ?s Q" using 1(2) by simp
    have e: "utqueue_empty ?q ?s = Some (Q ?q = [])" by (rule empty_succeeds [OF Qs ini]) simp
    show ?thesis
    proof (cases "Q ?q = []")
      case empty: True
      obtain s1 where s1: "uthread_nopreempt_off ?s = Some s1" "uthread_no_preempt_count s1 = uthread_no_preempt_count s" "links s1 = links s"
        using off_succeeds [of ?s] 1(4) by auto
      have "queues s1 Q" using off_quiet [OF s1(1) Qs quiet_on] by simp
      moreover have "\<forall>p. int p \<le> UTH_MAXPRIO \<longrightarrow> initialised s1 (Runq p)" using 1(3) s1(3) by (simp add: initialised_def)
      ultimately have "pick_thread (i - 1) lo s1 \<noteq> None"
        using 1(4-6) s1(2) by (intro 1(1) [OF True refl q e empty s1(1)]) auto
      then show ?thesis using True q e empty s1(1) by (subst pick_thread.simps) (simp add: Let_def)
    next
      case False
      then obtain xs t where xs: "Q ?q = xs @ [t]" by (metis rev_exhaust)
      obtain s1 where s1: "utqueue_dequeue ?q ?s = Some (Some t, s1)" "queues s1 (Q(?q := xs))"
        using dequeue_succeeds [OF Qs ini _ xs] by auto
      obtain h n where "s1 = ?s\<lparr>links := h, tq_size := n\<rparr>"
        using utqueue_dequeue_ok [OF Qs _ s1(1)] by auto
      then have "0 < uthread_no_preempt_count s1" using 1(4) by simp
      then obtain s2 where "uthread_nopreempt_off s1 = Some s2" using off_succeeds by blast
      then show ?thesis using True q e False s1(1) by (subst pick_thread.simps) (simp add: Let_def)
    qed
  qed
qed

section \<open>Queues and the switch\<close>

text \<open>C27. The queues of threads are queues: on the sequences the links stand for, \<open>utqueue_enqueue\<close> adds at
one end a thread that is in no queue and aborts for any other, \<open>utqueue_dequeue\<close> takes from the other end, and
\<open>utqueue_remove\<close> takes a thread from the middle; the other queues stay as they are.\<close>

theorem thread_queues_fifo:
  assumes "queues s Q" "initialised s q" "q \<noteq> Reap_queue"
  shows "(if unqueued Q t then \<exists>s'. utqueue_enqueue q t s = Some s' \<and> queues s' (Q(q := t # Q q)) else utqueue_enqueue q t s = None) \<and>
    (Q q = [] \<longrightarrow> utqueue_dequeue q s = Some (None, s)) \<and>
    (\<forall>xs u. Q q = xs @ [u] \<longrightarrow> (\<exists>s'. utqueue_dequeue q s = Some (Some u, s') \<and> queues s' (Q(q := xs)))) \<and>
    (\<forall>xs u ys. Q q = xs @ u # ys \<longrightarrow> (\<exists>s'. utqueue_remove q u s = Some s' \<and> queues s' (Q(q := xs @ ys))))"
proof (intro conjI allI impI)
  show "if unqueued Q t then \<exists>s'. utqueue_enqueue q t s = Some s' \<and> queues s' (Q(q := t # Q q)) else utqueue_enqueue q t s = None"
    using enqueue_succeeds [OF assms] enqueue_queued [OF assms(1)] by auto
  show "utqueue_dequeue q s = Some (None, s)" if "Q q = []"
    using empty_succeeds [OF assms] that by (simp add: utqueue_dequeue_def)
  show "\<exists>s'. utqueue_dequeue q s = Some (Some u, s') \<and> queues s' (Q(q := xs))" if "Q q = xs @ [u]" for xs u
    by (rule dequeue_succeeds [OF assms that])
  show "\<exists>s'. utqueue_remove q u s = Some s' \<and> queues s' (Q(q := xs @ ys))" if "Q q = xs @ u # ys" for xs u ys
    using utqueue_remove_ok [OF assms(1,3) that] by blast
qed

lemma queues_init: "queues (init_runqueues uths_start) (\<lambda>q. [])"
  using init_runqueues_ok [OF queues_start] by blast

lemma runqueues_initialised: "int p \<le> UTH_MAXPRIO \<Longrightarrow> initialised (init_runqueues uths_start) (Runq p)"
proof -
  assume "int p \<le> UTH_MAXPRIO"
  then have "p \<in> {0, 1, 2, 3, 4, 5, 6, 7}" by (auto simp: UTH_MAXPRIO_def)
  moreover have "[0..<nat UTH_MAXPRIO + 1] = [0, 1, 2, 3, 4, 5, 6, 7]" by code_simp
  ultimately show ?thesis unfolding init_runqueues_def initialised_def
    by (simp only:) (auto simp: utqueue_init_def list_init_def)
qed

theorem thread_queues_fifo_witness:
  "\<exists>s'. utqueue_enqueue (Runq 3) 5 (init_runqueues uths_start) = Some s' \<and> queues s' ((\<lambda>q. [])(Runq 3 := [5]))"
  using thread_queues_fifo [OF queues_init, of "Runq 3" 5] runqueues_initialised [of 3]
  by (simp add: unqueued_def UTH_MAXPRIO_def)

lemma uthread_switch_cases:
  assumes "queues s Q" "\<forall>p. int p \<le> UTH_MAXPRIO \<longrightarrow> initialised s (Runq p)" "0 \<le> uthread_no_preempt_count s" "0 \<le> switch_prio s"
  shows "\<exists>s' fs. uthread_switch s = Some (s', fs) \<and> stacks s' = stacks s \<and>
    (if \<exists>p. switch_prio s \<le> int p \<and> int p \<le> UTH_MAXPRIO \<and> Q (Runq p) \<noteq> [] then
       \<exists>p xs t. switch_prio s \<le> int p \<and> int p \<le> UTH_MAXPRIO \<and> Q (Runq p) = xs @ [t] \<and>
         (\<forall>j. p < j \<and> int j \<le> UTH_MAXPRIO \<longrightarrow> Q (Runq j) = []) \<and>
         fs = [] \<and> ut_curthr s' = t \<and> ut_state (uthreads s' t) = UT_ON_CPU \<and> queues s' (Q(Runq p := xs))
     else fs = (if switch_prio s = 1 then [Switch] else []) \<and> ut_curthr s' = ut_curthr s \<and> uthreads s' = uthreads s \<and> queues s' Q)"
proof -
  obtain r s1 where pick: "pick_thread UTH_MAXPRIO (switch_prio s) s = Some (r, s1)"
    using pick_succeeds [OF assms, of UTH_MAXPRIO] by auto
  note ok = pick_thread_ok [OF assms(1) pick assms(4)]
  show ?thesis
  proof (cases r)
    case None
    then have e: "Q (Runq p) = []" if "switch_prio s \<le> int p" "int p \<le> UTH_MAXPRIO" for p using ok that by force
    have "uthread_switch s = Some (s1, if switch_prio s = 1 then [Switch] else [])" using pick None by (simp add: uthread_switch_def)
    moreover have none: "\<not> (\<exists>p. switch_prio s \<le> int p \<and> int p \<le> UTH_MAXPRIO \<and> Q (Runq p) \<noteq> [])" using e by blast
    moreover have "quiet s s1" "queues s1 Q" using ok None by auto
    ultimately show ?thesis unfolding if_not_P [OF none] using quiet_simps [of s s1] by simp
  next
    case (Some t)
    then obtain p xs where p: "switch_prio s \<le> p" "p \<le> UTH_MAXPRIO" "Q (Runq (nat p)) = xs @ [t]"
      "\<forall>j. p < j \<and> j \<le> UTH_MAXPRIO \<longrightarrow> Q (Runq (nat j)) = []" "queues s1 (Q(Runq (nat p) := xs))" "quiet s s1" using ok by auto
    have l: "linked (links s) Q" using assms(1) by (simp add: queues_def)
    have "unqueued (Q(Runq (nat p) := xs)) t"
      using linked_distinct [OF l, of "Runq (nat p)"] linked_once [OF l, of t _ "Runq (nat p)"] p(3) by (auto simp: unqueued_def)
    then have "s1\<lparr>links := list_link_init (Link t) (links s1)\<rparr> = s1"
      using list_link_init_ok [of "links s1" "Q(Runq (nat p) := xs)" t] p(5) by (cases s1) (simp add: queues_def)
    then have sw: "uthread_switch s = Some (upd_thread t (\<lambda>u. u\<lparr>ut_state := UT_ON_CPU\<rparr>) (s1\<lparr>ut_curthr := t\<rparr>), [])"
      using pick Some by (simp add: uthread_switch_def Let_def)
    have n: "int (nat p) = p" using p(1) assms(4) by simp
    have higher: "\<forall>j. nat p < j \<and> int j \<le> UTH_MAXPRIO \<longrightarrow> Q (Runq j) = []" using p(4) n by (metis nat_int of_nat_less_iff)
    have some: "\<exists>p. switch_prio s \<le> int p \<and> int p \<le> UTH_MAXPRIO \<and> Q (Runq p) \<noteq> []"
      using p(1-3) n by (intro exI [of _ "nat p"]) simp
    show ?thesis unfolding sw using some p higher n quiet_simps [OF p(6)]
      by (intro exI [of _ "upd_thread t (\<lambda>u. u\<lparr>ut_state := UT_ON_CPU\<rparr>) (s1\<lparr>ut_curthr := t\<rparr>)"] exI [of _ "[]"])
        (simp, intro exI [of _ "nat p"] exI [of _ xs], simp)
  qed
qed

text \<open>C28. When there is a runnable thread of at least the priority of the current one (of any priority, when the
current one waits), \<open>uthread_switch\<close> runs the thread that has waited longest among those of the highest priority:
it is taken from its queue, all other queues stay, no queue of a higher priority has a thread, and it becomes the
current thread and is on the processor.\<close>

theorem uthread_switch_highest:
  assumes "queues s Q" "\<forall>p. int p \<le> UTH_MAXPRIO \<longrightarrow> initialised s (Runq p)" "0 \<le> uthread_no_preempt_count s" "0 \<le> switch_prio s"
    and "switch_prio s \<le> int r" "int r \<le> UTH_MAXPRIO" "Q (Runq r) \<noteq> []"
  shows "\<exists>s' p xs t. uthread_switch s = Some (s', []) \<and> stacks s' = stacks s \<and> r \<le> p \<and> int p \<le> UTH_MAXPRIO \<and>
    Q (Runq p) = xs @ [t] \<and> (\<forall>j. p < j \<and> int j \<le> UTH_MAXPRIO \<longrightarrow> Q (Runq j) = []) \<and>
    ut_curthr s' = t \<and> ut_state (uthreads s' t) = UT_ON_CPU \<and> queues s' (Q(Runq p := xs))"
proof -
  have some: "\<exists>p. switch_prio s \<le> int p \<and> int p \<le> UTH_MAXPRIO \<and> Q (Runq p) \<noteq> []" using assms(5-7) by blast
  obtain s' p xs t where p: "uthread_switch s = Some (s', [])" "stacks s' = stacks s" "int p \<le> UTH_MAXPRIO"
      "Q (Runq p) = xs @ [t]" "\<forall>j. p < j \<and> int j \<le> UTH_MAXPRIO \<longrightarrow> Q (Runq j) = []"
      "ut_curthr s' = t" "ut_state (uthreads s' t) = UT_ON_CPU" "queues s' (Q(Runq p := xs))"
    using uthread_switch_cases [OF assms(1-4)] unfolding if_P [OF some] by blast
  moreover have "r \<le> p" using p(5) assms(6,7) not_le by blast
  ultimately show ?thesis by blast
qed

text \<open>When there is none it returns to its caller without a switch, although its comment says that it waits for one;
if the priority is 1 it looks again, for ever if nothing changes.\<close>

lemma uthread_switch_none:
  assumes "queues s Q" "\<forall>p. int p \<le> UTH_MAXPRIO \<longrightarrow> initialised s (Runq p)" "0 \<le> uthread_no_preempt_count s" "0 \<le> switch_prio s"
    and none: "\<not> (\<exists>p. switch_prio s \<le> int p \<and> int p \<le> UTH_MAXPRIO \<and> Q (Runq p) \<noteq> [])"
  shows "\<exists>s'. uthread_switch s = Some (s', if switch_prio s = 1 then [Switch] else []) \<and> ut_curthr s' = ut_curthr s \<and>
    uthreads s' = uthreads s \<and> queues s' Q"
  using uthread_switch_cases [OF assms(1-4)] unfolding if_not_P [OF none] by blast

text \<open>A state with the thread 5 runnable.\<close>

lemma enqueue_initialised:
  "utqueue_enqueue q t s = Some s' \<Longrightarrow> initialised s p \<Longrightarrow> initialised s' p"
  by (auto simp: utqueue_enqueue_def list_insert_head_def list_insert_before_def Let_def c_assert_def initialised_def
    split: bind_splits if_splits)

lemma init_runqueues_cur: "ut_curthr (init_runqueues s) = ut_curthr s \<and> uthread_no_preempt_count (init_runqueues s) = uthread_no_preempt_count s"
proof -
  have "ut_curthr (fold (\<lambda>i. utqueue_init (Runq i)) is s) = ut_curthr s \<and>
      uthread_no_preempt_count (fold (\<lambda>i. utqueue_init (Runq i)) is s) = uthread_no_preempt_count s" for "is"
    by (induction "is" arbitrary: s) (simp_all add: utqueue_init_def)
  then show ?thesis unfolding init_runqueues_def by blast
qed

lemma sample_queue:
  assumes p: "int p \<le> UTH_MAXPRIO"
  obtains s where "queues s ((\<lambda>q. [])(Runq p := [5]))" "\<forall>p. int p \<le> UTH_MAXPRIO \<longrightarrow> initialised s (Runq p)"
    "ut_curthr s = 0" "uthreads s = uthreads uths_start" "uthread_no_preempt_count s = 0"
proof -
  obtain s where s: "utqueue_enqueue (Runq p) 5 (init_runqueues uths_start) = Some s" "queues s ((\<lambda>q. [])(Runq p := [5]))"
    using enqueue_succeeds [OF queues_init, of "Runq p" 5] runqueues_initialised [OF p] by (auto simp: unqueued_def)
  obtain h n where s': "s = (init_runqueues uths_start)\<lparr>links := h, tq_size := n\<rparr>"
    using utqueue_enqueue_ok [OF queues_init _ s(1)] by auto
  show thesis
    by (rule that [OF s(2)])
      (use enqueue_initialised [OF s(1)] runqueues_initialised init_runqueues_cur [of uths_start] init_runqueues_ok [OF queues_start]
       in \<open>simp_all add: s'\<close>, simp_all add: uths_start_def)
qed

theorem uthread_switch_highest_witness:
  "\<exists>s s'. uthread_switch s = Some (s', []) \<and> ut_curthr s = 0 \<and> ut_curthr s' = 5"
proof -
  have "int 3 \<le> UTH_MAXPRIO" by (simp add: UTH_MAXPRIO_def)
  then obtain s where s: "queues s ((\<lambda>q. [])(Runq 3 := [5]))" "\<forall>p. int p \<le> UTH_MAXPRIO \<longrightarrow> initialised s (Runq p)"
    "ut_curthr s = 0" "uthreads s = uthreads uths_start" "uthread_no_preempt_count s = 0" by (rule sample_queue)
  have prio: "switch_prio s = 0" using s(3,4) by (simp add: switch_prio_def curthr_def uths_start_def)
  obtain s' p xs t where sw: "uthread_switch s = Some (s', [])" "((\<lambda>q. [])(Runq 3 := [5])) (Runq p) = xs @ [t]" "ut_curthr s' = t"
    using uthread_switch_highest [OF s(1,2), of 3] s(5) prio by (auto simp: UTH_MAXPRIO_def)
  then have "t = 5" by (auto split: if_splits)
  then show ?thesis using sw s(3) by blast
qed

section \<open>All runs\<close>




section \<open>Aborts\<close>

text \<open>A thread that exits while only threads of lower priority are runnable brings the library down: the
switch of \<open>uthread_exit\<close> looks at the queues of at least its own priority only, returns, and the program panics.\<close>

theorem exit_panics:
  assumes q: "queues s Q" "\<forall>p. int p \<le> UTH_MAXPRIO \<longrightarrow> initialised s (Runq p)" "0 \<le> uthread_no_preempt_count s"
    and st: "stacks s (ut_curthr s) = Exit v # fs" "\<not> ut_detached (curthr s)" "ut_waiter (curthr s) = None"
    and prio: "0 \<le> ut_prio (curthr s)" "ut_prio (curthr s) \<noteq> 1"
    and lower: "\<And>p. ut_prio (curthr s) \<le> int p \<Longrightarrow> int p \<le> UTH_MAXPRIO \<Longrightarrow> Q (Runq p) = []"
  shows "\<exists>s1 s2. run_frame s = Some s1 \<and> run_frame s1 = Some s2 \<and> run_frame s2 = None \<and> queues s2 Q"
proof -
  let ?t = "ut_curthr s" and ?f = "\<lambda>u. u\<lparr>ut_state := UT_ZOMBIE, ut_has_exited := True, ut_exit := v\<rparr>"
  let ?z = "upd_thread ?t ?f (s\<lparr>stacks := (stacks s)(?t := fs)\<rparr>)"
  define s1 where "s1 = push_frames ?t [Switch, Panic] ?z"
  have "uthread_exit v (s\<lparr>stacks := (stacks s)(?t := fs)\<rparr>) = Some (?z, [Switch, Panic])"
    using st(2,3) by (simp add: uthread_exit_def curthr_def)
  then have r1: "run_frame s = Some s1" using st(1) by (simp add: run_frame_def s1_def Let_def)
  define s1' where "s1' = s1\<lparr>stacks := (stacks s1)(?t := Panic # fs)\<rparr>"
  have s1': "queues s1' Q" "ut_curthr s1' = ?t" "links s1' = links s" "switch_prio s1' = ut_prio (curthr s)"
      "uthread_no_preempt_count s1' = uthread_no_preempt_count s" "stacks s1' ?t = Panic # fs"
    using q(1) by (simp_all add: s1'_def s1_def queues_def push_frames_def switch_prio_def curthr_def)
  have ini: "\<forall>p. int p \<le> UTH_MAXPRIO \<longrightarrow> initialised s1' (Runq p)" using q(2) s1'(3) by (simp add: initialised_def)
  have none: "\<not> (\<exists>p. switch_prio s1' \<le> int p \<and> int p \<le> UTH_MAXPRIO \<and> Q (Runq p) \<noteq> [])" using lower s1'(4) by auto
  obtain s2 gs where sw: "uthread_switch s1' = Some (s2, gs)" "stacks s2 = stacks s1'" "gs = []" "ut_curthr s2 = ?t" "queues s2 Q"
    using uthread_switch_cases [OF s1'(1) ini] q(3) prio s1'(2,4,5) none by auto
  have "run_frame s1 = Some (push_frames ?t [] s2)"
    using sw(1,3) by (simp add: run_frame_def s1'_def Let_def) (simp add: s1_def)
  moreover have "run_frame (push_frames ?t [] s2) = None" using sw(2,4) s1'(6) by (simp add: run_frame_def)
  moreover have "queues (push_frames ?t [] s2) Q" using sw(5) by (simp add: push_frames_def)
  ultimately show ?thesis using r1 by blast
qed

theorem exit_panics_witness:
  "\<exists>s s1 s2 Q. run_frame s = Some s1 \<and> run_frame s1 = Some s2 \<and> run_frame s2 = None \<and> queues s2 Q \<and> Q (Runq 0) = [5]"
proof -
  have "int 0 \<le> UTH_MAXPRIO" by (simp add: UTH_MAXPRIO_def)
  then obtain s where s: "queues s ((\<lambda>q. [])(Runq 0 := [5]))" "\<forall>p. int p \<le> UTH_MAXPRIO \<longrightarrow> initialised s (Runq p)"
    "ut_curthr s = 0" "uthreads s = uthreads uths_start" "uthread_no_preempt_count s = 0" by (rule sample_queue)
  let ?s = "upd_thread 0 (\<lambda>u. u\<lparr>ut_prio := 3\<rparr>) (s\<lparr>stacks := \<lambda>t. [Exit 0]\<rparr>)"
  have "\<exists>s1 s2. run_frame ?s = Some s1 \<and> run_frame s1 = Some s2 \<and> run_frame s2 = None \<and> queues s2 ((\<lambda>q. [])(Runq 0 := [5]))"
    by (rule exit_panics [where fs = "[]" and v = 0])
      (use s in \<open>auto simp: initialised_def curthr_def uths_start_def queues_def\<close>)
  then show ?thesis by (metis fun_upd_same)
qed

text \<open>Yielding when queued.\<close>

lemma yield_queued:
  assumes "queues s Q" "\<not> unqueued Q (ut_curthr s)"
  shows "uthread_yield s = None"
proof -
  have "enqueue_runnable (ut_curthr s) (upd_thread (ut_curthr s) (\<lambda>u. u\<lparr>ut_state := UT_RUNNABLE\<rparr>) s) = None"
    using enqueue_queued [of _ Q "ut_curthr s"] assms by (auto simp: enqueue_runnable_def Let_def split: bind_splits)
  then show ?thesis by (simp add: uthread_yield_def)
qed

text \<open>C40. The run queues abort on a thread that is in one already. A clock interrupt between the two halves of
\<open>uthread_yield\<close>, after preemption is allowed again and before the switch, calls \<open>uthread_yield\<close> again and aborts; and
after \<open>uthread_setprio\<close> of the running thread its next \<open>uthread_yield\<close> aborts.\<close>

theorem double_enqueue_aborts:
  assumes "queues s Q"
  shows "(\<forall>s1 fs. uthread_yield s = Some (s1, fs) \<and> uthread_no_preempt_count s = 0 \<longrightarrow>
      (\<exists>s2. clock_interrupt s1 = (s2, [Yield]) \<and> uthread_yield s2 = None)) \<and>
    (\<forall>i p s1 fs. thread i = Some (ut_curthr s) \<and> ut_state (curthr s) = UT_ON_CPU \<and>
      uthread_setprio i p s = Some (s1, fs) \<longrightarrow> uthread_yield s1 = None)"
proof (intro conjI allI impI)
  fix s1 fs
  assume y: "uthread_yield s = Some (s1, fs) \<and> uthread_no_preempt_count s = 0"
  let ?u = "upd_thread (ut_curthr s) (\<lambda>u. u\<lparr>ut_state := UT_RUNNABLE\<rparr>) s"
  have e: "enqueue_runnable (ut_curthr s) ?u = Some s1" using y by (auto simp: uthread_yield_def Let_def split: bind_splits)
  obtain p where p: "queues s1 (Q(Runq p := ut_curthr s # Q (Runq p)))" "quiet ?u s1"
    using enqueue_runnable_ok [OF _ e, of Q] assms by auto
  have np: "\<not> uthread_no_preempt s1"
    using e y by (auto simp: enqueue_runnable_def utqueue_enqueue_def uthread_nopreempt_off_def Let_def c_assert_def split: bind_splits if_splits)
  let ?s2 = "s1\<lparr>clock_count := clock_count s1 + 1, taken_clock_count := taken_clock_count s1 + 1\<rparr>"
  have "uthread_yield ?s2 = None"
    by (rule yield_queued [of _ "Q(Runq p := ut_curthr s # Q (Runq p))"])
      (use p quiet_simps [OF p(2)] in \<open>auto simp: unqueued_def\<close>)
  then show "\<exists>s2. clock_interrupt s1 = (s2, [Yield]) \<and> uthread_yield s2 = None"
    using np by (simp add: clock_interrupt_def Let_def)
next
  fix i p s1 fs
  assume a: "thread i = Some (ut_curthr s) \<and> ut_state (curthr s) = UT_ON_CPU \<and> uthread_setprio i p s = Some (s1, fs)"
  let ?u = "upd_thread (ut_curthr s) (\<lambda>u. u\<lparr>ut_prio := p\<rparr>) s"
  obtain s2 where e: "enqueue_runnable (ut_curthr s) ?u = Some s2"
    and rest: "do { (s, fs) \<leftarrow> (if ut_prio (uthreads s2 (ut_curthr s)) > ut_prio (curthr s2) then uthread_yield s2 else Some (s2, []));
      Some (s, fs @ [Return 0]) } = Some (s1, fs)"
    using a by (auto simp: uthread_setprio_def curthr_def Let_def split: bind_splits)
  obtain p where p: "queues s2 (Q(Runq p := ut_curthr s # Q (Runq p)))" "quiet ?u s2"
    using enqueue_runnable_ok [OF _ e, of Q] assms by auto
  have "s1 = s2" "ut_curthr s2 = ut_curthr s" using rest quiet_simps [OF p(2)] by (simp_all add: curthr_def)
  moreover have "\<not> unqueued (Q(Runq p := ut_curthr s # Q (Runq p))) (ut_curthr s)"
    unfolding unqueued_def by (intro notI) (drule spec [of _ "Runq p"], simp)
  ultimately show "uthread_yield s1 = None" using yield_queued [OF p(1)] by simp
qed

theorem double_enqueue_aborts_witness:
  "\<exists>s s1 s2 fs. uthread_yield s = Some (s1, fs) \<and> clock_interrupt s1 = (s2, [Yield]) \<and> uthread_yield s2 = None"
proof -
  let ?s = "init_runqueues uths_start"
  have "runq 0 = Some (Runq 0)" by (simp add: runq_def UTH_MAXPRIO_def)
  have "uthread_yield ?s \<noteq> None" by code_simp
  then obtain s1 fs where y: "uthread_yield ?s = Some (s1, fs)" by auto
  have "uthread_no_preempt_count ?s = 0" using init_runqueues_cur [of uths_start] by (simp add: uths_start_def)
  then show ?thesis using double_enqueue_aborts [OF queues_init] y by blast
qed

end
