(* ===== verification/MtDefs.thy ===== *)
theory MtDefs
  imports CPrelude
begin

text \<open>
  The thread library for several processors, \<open>systems/cs167/mthreads_stencil\<close>: the scheduler of
  \<open>uthread_sched.c\<close>, the mutexes of \<open>uthread_mtx.c\<close> and the condition variables of \<open>uthread_cond.c\<close>,
  run by any number of kernel threads (LWPs) at the same time.

  A function is the list of the frames it executes. A frame is one step of one LWP: an operation on
  a POSIX mutex, or the statements between two of them, which touch only data the LWP has locked or
  its own thread. The code of an LWP is a stack of frames, empty in the program of the user; the
  context of a thread is the stack it will resume with.
\<close>

section \<open>State\<close>

datatype mt_state = UT_NO_STATE | UT_ON_CPU | UT_RUNNABLE | UT_WAIT | UT_ZOMBIE | UT_TRANSITION

text \<open>POSIX mutexes: \<open>runq_mtx\<close>, \<open>m_pmut\<close> of a mutex, \<open>pmut\<close> of a condition variable, \<open>ut_pmut\<close> of a thread.
Queues: those of the run queue table, \<open>m_waiters\<close> of a mutex, \<open>uc_waiters\<close> of a condition variable.\<close>

datatype posix_mutex = Runq_mtx | M_pmut nat | C_pmut nat | Ut_pmut nat

datatype utqueue = Runq_table nat | M_waiters nat | Uc_waiters nat

datatype mt_frame =
    Nopreempt_on | Nopreempt_off
  | Pthread_lock posix_mutex | Pthread_unlock posix_mutex
  | Mtx_lock_body nat | Mtx_lock_resume nat mt_state | Mtx_trylock_body nat | Mtx_unlock_body nat
  | Set_wait | Check_unlinked | Cond_signal_body nat | Cond_broadcast_body nat
  | Yield_body | Wake_check nat | Wake_body nat
  | Switch_body "utqueue option" bool "posix_mutex option"
  | Lwp_start_body | Lwp_requeue | Lwp_unlock | Lwp_search | Lwp_parked

text \<open>Threads, mutexes, condition variables and LWPs are numbered. \<open>ut_link\<close> says whether the links
of a thread are set; \<open>cond_blocked\<close> and \<open>cond_woken\<close> count the LWPs that wait for \<open>lwp_park_cond\<close>, and those a
signal has unblocked that have not locked \<open>runq_mtx\<close> again; the fields from \<open>ut_curthr\<close> on belong to an LWP. \<open>holds\<close> is not in the code: the mutexes
a thread has locked and not begun to unlock.\<close>

record mthreads =
  pthread_owner :: "posix_mutex \<Rightarrow> nat option"
  tq_waiters :: "utqueue \<Rightarrow> nat list"
  tq_size :: "utqueue \<Rightarrow> int"
  ut_link :: "nat \<Rightarrow> bool"
  ut_state :: "nat \<Rightarrow> mt_state"
  ut_prio :: "nat \<Rightarrow> nat"
  ut_no_preempt_count :: "nat \<Rightarrow> nat"
  ut_ctx :: "nat \<Rightarrow> mt_frame list"
  m_owner :: "nat \<Rightarrow> nat option"
  runq_size :: int
  lwp_parked_cnt :: nat
  lwp_cnt :: nat
  cond_blocked :: nat
  cond_woken :: nat
  ut_curthr :: "nat \<Rightarrow> nat option"
  lwp_queue :: "nat \<Rightarrow> utqueue option"
  lwp_saveonrq :: "nat \<Rightarrow> bool"
  lwp_pmut :: "nat \<Rightarrow> posix_mutex option"
  masked :: "nat \<Rightarrow> bool"
  code :: "nat \<Rightarrow> mt_frame list"
  holds :: "nat \<Rightarrow> nat set"

abbreviation set_code :: "nat \<Rightarrow> mt_frame list \<Rightarrow> mthreads \<Rightarrow> mthreads" where
  "set_code l fs s \<equiv> s\<lparr>code := (code s)(l := fs)\<rparr>"

abbreviation set_state :: "nat \<Rightarrow> mt_state \<Rightarrow> mthreads \<Rightarrow> mthreads" where
  "set_state t v s \<equiv> s\<lparr>ut_state := (ut_state s)(t := v)\<rparr>"

section \<open>POSIX mutexes\<close>

text \<open>\<open>runq_mtx\<close> and the mutexes of the threads are of the error-checking kind: locking one that the
LWP has locked already, or unlocking one it has not, changes nothing. On the others it is undefined.\<close>

fun errorcheck :: "posix_mutex \<Rightarrow> bool" where
  "errorcheck Runq_mtx = True"
| "errorcheck (Ut_pmut t) = True"
| "errorcheck (M_pmut m) = False"
| "errorcheck (C_pmut c) = False"

definition pthread_lock :: "nat \<Rightarrow> posix_mutex \<Rightarrow> mthreads \<Rightarrow> mthreads option" where
  "pthread_lock l p s =
     (if pthread_owner s p = Some l then (if errorcheck p then Some s else None)
      else Some (s\<lparr>pthread_owner := (pthread_owner s)(p := Some l)\<rparr>))"

definition pthread_unlock :: "nat \<Rightarrow> posix_mutex \<Rightarrow> mthreads \<Rightarrow> mthreads option" where
  "pthread_unlock l p s =
     (if pthread_owner s p = Some l then Some (s\<lparr>pthread_owner := (pthread_owner s)(p := None)\<rparr>)
      else if errorcheck p then Some s else None)"

section \<open>Queues\<close>

text \<open>A queue is the sequence of its threads, the next to be dequeued first, and its size.\<close>

definition mt_queue_empty :: "utqueue \<Rightarrow> mthreads \<Rightarrow> bool option" where
  "mt_queue_empty q s = do {
     c_assert ((tq_waiters s q = []) = (tq_size s q = 0));
     Some (tq_size s q = 0)
   }"

definition mt_enqueue :: "utqueue \<Rightarrow> nat \<Rightarrow> mthreads \<Rightarrow> mthreads option" where
  "mt_enqueue q t s = do {
     c_assert (\<not> ut_link s t);
     Some (s\<lparr>tq_waiters := (tq_waiters s)(q := tq_waiters s q @ [t]), ut_link := (ut_link s)(t := True),
       tq_size := (tq_size s)(q := tq_size s q + 1)\<rparr>)
   }"

definition mt_dequeue :: "utqueue \<Rightarrow> mthreads \<Rightarrow> (nat option \<times> mthreads) option" where
  "mt_dequeue q s = do {
     e \<leftarrow> mt_queue_empty q s;
     (if e then Some (None, s)
      else (case tq_waiters s q of
          [] \<Rightarrow> None
        | t # ts \<Rightarrow> Some (Some t, s\<lparr>tq_waiters := (tq_waiters s)(q := ts), ut_link := (ut_link s)(t := False),
            tq_size := (tq_size s)(q := tq_size s q - 1)\<rparr>)))
   }"

section \<open>Functions as frames\<close>

definition mt_switch :: "utqueue option \<Rightarrow> bool \<Rightarrow> posix_mutex option \<Rightarrow> mt_frame list" where
  "mt_switch q saveonrq m = [Pthread_lock Runq_mtx, Switch_body q saveonrq m]"

definition mt_yield :: "mt_frame list" where
  "mt_yield = [Nopreempt_on, Yield_body, Nopreempt_off]"

definition mt_wake :: "nat \<Rightarrow> mt_frame list" where
  "mt_wake t = [Wake_check t, Nopreempt_on, Pthread_lock Runq_mtx, Wake_body t, Nopreempt_off, Pthread_unlock Runq_mtx]"

definition mt_mtx_lock :: "nat \<Rightarrow> mt_frame list" where
  "mt_mtx_lock m = [Nopreempt_on, Pthread_lock (M_pmut m), Mtx_lock_body m, Nopreempt_off]"

definition mt_mtx_trylock :: "nat \<Rightarrow> mt_frame list" where
  "mt_mtx_trylock m =
     [Nopreempt_on, Pthread_lock (M_pmut m), Mtx_trylock_body m, Pthread_unlock (M_pmut m), Nopreempt_off]"

definition mt_mtx_unlock :: "nat \<Rightarrow> mt_frame list" where
  "mt_mtx_unlock m = [Nopreempt_on, Pthread_lock (M_pmut m), Mtx_unlock_body m, Nopreempt_off]"

definition mt_cond_wait :: "nat \<Rightarrow> nat \<Rightarrow> mt_frame list" where
  "mt_cond_wait c m =
     [Nopreempt_on, Pthread_lock (C_pmut c)] @ mt_mtx_unlock m @ [Set_wait] @
     mt_switch (Some (Uc_waiters c)) False (Some (C_pmut c)) @
     [Check_unlinked] @ mt_mtx_lock m @ [Check_unlinked, Nopreempt_off]"

definition mt_cond_broadcast :: "nat \<Rightarrow> mt_frame list" where
  "mt_cond_broadcast c = [Nopreempt_on, Pthread_lock (C_pmut c), Cond_broadcast_body c, Nopreempt_off]"

definition mt_cond_signal :: "nat \<Rightarrow> mt_frame list" where
  "mt_cond_signal c = [Nopreempt_on, Pthread_lock (C_pmut c), Cond_signal_body c, Nopreempt_off]"

text \<open>The context of an LWP, saved once, and the first frames of an LWP and of a thread.\<close>

definition lwp_switch :: "mt_frame list" where
  "lwp_switch = [Lwp_requeue, Lwp_unlock, Lwp_search]"

definition lwp_start :: "mt_frame list" where
  "lwp_start = [Pthread_lock Runq_mtx, Lwp_start_body]"

definition mt_thread_start :: "mt_frame list" where
  "mt_thread_start = [Nopreempt_off]"

section \<open>Preemption\<close>

text \<open>\<open>uthread_nopreempt_on\<close> and \<open>uthread_nopreempt_off\<close> on LWP \<open>l\<close>; blocking the signal is part of \<open>masked\<close>.\<close>

definition nopreempt_on :: "nat \<Rightarrow> mthreads \<Rightarrow> mthreads option" where
  "nopreempt_on l s = do {
     t \<leftarrow> ut_curthr s l;
     Some (s\<lparr>masked := (masked s)(l := True),
       ut_no_preempt_count := (ut_no_preempt_count s)(t := ut_no_preempt_count s t + 1)\<rparr>)
   }"

definition nopreempt_off :: "nat \<Rightarrow> mthreads \<Rightarrow> mthreads option" where
  "nopreempt_off l s = do {
     t \<leftarrow> ut_curthr s l;
     c_assert (ut_no_preempt_count s t > 0);
     let s1 = s\<lparr>ut_no_preempt_count := (ut_no_preempt_count s)(t := ut_no_preempt_count s t - 1)\<rparr>;
     Some (if ut_no_preempt_count s1 t = 0 then s1\<lparr>masked := (masked s1)(l := False)\<rparr> else s1)
   }"

text \<open>\<open>SIGVTALRM\<close> delivered to LWP \<open>l\<close>.\<close>

definition mt_clock_interrupt :: "nat \<Rightarrow> mthreads \<Rightarrow> mthreads option" where
  "mt_clock_interrupt l s = do {
     c_assert (\<not> masked s l);
     (case ut_curthr s l of
        None \<Rightarrow> Some s
      | Some t \<Rightarrow>
          if ut_state s t \<noteq> UT_ON_CPU then Some s
          else do {
            c_assert (ut_no_preempt_count s t = 0);
            Some (set_code l (mt_yield @ code s l) s)
          })
   }"

section \<open>The scheduler\<close>

text \<open>\<open>pthread_cond_signal\<close> unblocks one of the LWPs that wait, if there are any. They all execute the same, so it
does not matter which.\<close>

definition lwp_release :: "mthreads \<Rightarrow> mthreads" where
  "lwp_release s =
     (if 0 < cond_blocked s then s\<lparr>cond_blocked := cond_blocked s - 1, cond_woken := cond_woken s + 1\<rparr> else s)"

definition runq_enqueue :: "nat \<Rightarrow> nat \<Rightarrow> mthreads \<Rightarrow> mthreads option" where
  "runq_enqueue l t s = do {
     cur \<leftarrow> ut_curthr s l;
     c_assert (ut_no_preempt_count s cur > 0);
     c_assert (ut_state s t = UT_RUNNABLE);
     s1 \<leftarrow> mt_enqueue (Runq_table (ut_prio s t)) t s;
     let s2 = s1\<lparr>runq_size := runq_size s1 + 1\<rparr>;
     Some (if runq_size s2 = 1 then lwp_release s2 else s2)
   }"

definition yield_body :: "nat \<Rightarrow> mt_frame list \<Rightarrow> mthreads \<Rightarrow> mthreads option" where
  "yield_body l fs s = do {
     t \<leftarrow> ut_curthr s l;
     c_assert (\<not> ut_link s t);
     Some (set_code l (Pthread_lock (Ut_pmut t) # mt_switch None True (Some (Ut_pmut t)) @ fs)
       (set_state t UT_RUNNABLE s))
   }"

definition wake_body :: "nat \<Rightarrow> nat \<Rightarrow> mt_frame list \<Rightarrow> mthreads \<Rightarrow> mthreads option" where
  "wake_body l u fs s =
     (if ut_state s u = UT_WAIT then do {
        t \<leftarrow> ut_curthr s l;
        s1 \<leftarrow> runq_enqueue l u (set_state u UT_RUNNABLE s);
        Some (set_code l (if ut_prio s u > ut_prio s t \<and> \<not> masked s l then mt_yield @ fs else fs) s1)
      }
      else Some (set_code l fs s))"

text \<open>\<open>uthread_switch\<close> once \<open>runq_mtx\<close> is locked: what is left to execute becomes the context of the thread,
and the LWP returns to its own.\<close>

definition switch_body ::
  "nat \<Rightarrow> utqueue option \<Rightarrow> bool \<Rightarrow> posix_mutex option \<Rightarrow> mt_frame list \<Rightarrow> mthreads \<Rightarrow> mthreads option" where
  "switch_body l q saveonrq m fs s = do {
     c_assert (masked s l);
     t \<leftarrow> ut_curthr s l;
     Some (s\<lparr>ut_ctx := (ut_ctx s)(t := fs), lwp_queue := (lwp_queue s)(l := q),
       lwp_saveonrq := (lwp_saveonrq s)(l := saveonrq), lwp_pmut := (lwp_pmut s)(l := m),
       code := (code s)(l := lwp_switch)\<rparr>)
   }"

definition MT_MAXPRIO :: nat where "MT_MAXPRIO = 7"

fun is_runq :: "utqueue \<Rightarrow> bool" where
  "is_runq (Runq_table i) = (i < MT_MAXPRIO)"
| "is_runq _ = False"

text \<open>\<open>lwp_switch\<close> up to the unlocking of the mutex it was given.\<close>

definition lwp_requeue :: "nat \<Rightarrow> mthreads \<Rightarrow> mthreads option" where
  "lwp_requeue l s = do {
     s1 \<leftarrow> (case lwp_queue s l of
        None \<Rightarrow> Some s
      | Some q \<Rightarrow> do {
          t \<leftarrow> ut_curthr s l;
          if is_runq q then runq_enqueue l t (set_state t UT_RUNNABLE s) else mt_enqueue q t s
        });
     (if lwp_saveonrq s1 l \<and> lwp_queue s1 l = None then do {
        t \<leftarrow> ut_curthr s1 l;
        runq_enqueue l t (set_state t UT_RUNNABLE s1)
      }
      else Some s1)
   }"

definition lwp_unlock :: "nat \<Rightarrow> mthreads \<Rightarrow> mthreads option" where
  "lwp_unlock l s = (case lwp_pmut s l of None \<Rightarrow> Some s | Some m \<Rightarrow> pthread_unlock l m s)"

text \<open>The search for a thread: the queue of the highest priority that is not empty. \<open>lwp_park\<close> is entered
without one; the LWP waits there until \<open>runq_size\<close> is not 0.\<close>

fun find_runq :: "nat list \<Rightarrow> mthreads \<Rightarrow> nat option option" where
  "find_runq [] s = Some None"
| "find_runq (i # is) s = do {
     e \<leftarrow> mt_queue_empty (Runq_table i) s;
     if e then find_runq is s else Some (Some i)
   }"

definition highest_runq :: "mthreads \<Rightarrow> nat option option" where
  "highest_runq s = find_runq (rev [0..<MT_MAXPRIO + 1]) s"

text \<open>\<open>pthread_cond_wait\<close> unlocks \<open>runq_mtx\<close>, waits to be unblocked, and locks \<open>runq_mtx\<close> again. It is called as
long as there is no thread to run.\<close>

definition park_wait :: "nat \<Rightarrow> mthreads \<Rightarrow> mthreads option" where
  "park_wait l s =
     (if runq_size s = 0 then do {
        s1 \<leftarrow> pthread_unlock l Runq_mtx s;
        Some (set_code l [Lwp_parked] (s1\<lparr>cond_blocked := cond_blocked s1 + 1\<rparr>))
      }
      else Some (set_code l [Lwp_search] (s\<lparr>lwp_parked_cnt := lwp_parked_cnt s - 1\<rparr>)))"

definition lwp_park :: "nat \<Rightarrow> mthreads \<Rightarrow> mthreads option" where
  "lwp_park l s = do {
     let s1 = s\<lparr>lwp_parked_cnt := lwp_parked_cnt s + 1\<rparr>;
     c_assert (lwp_parked_cnt s1 \<noteq> lwp_cnt s1);
     park_wait l s1
   }"

definition lwp_search :: "nat \<Rightarrow> mthreads \<Rightarrow> mthreads option" where
  "lwp_search l s = do {
     r \<leftarrow> highest_runq s;
     (case r of
        None \<Rightarrow> lwp_park l s
      | Some i \<Rightarrow> do {
          (next_thread, s1) \<leftarrow> mt_dequeue (Runq_table i) s;
          t \<leftarrow> next_thread;
          let s2 = s1\<lparr>ut_curthr := (ut_curthr s1)(l := Some t), ut_link := (ut_link s1)(t := False),
            runq_size := runq_size s1 - 1, ut_state := (ut_state s1)(t := UT_ON_CPU)\<rparr>;
          s3 \<leftarrow> pthread_unlock l Runq_mtx s2;
          Some (set_code l (ut_ctx s3 t) s3)
        })
   }"

text \<open>The return of \<open>pthread_cond_wait\<close> in \<open>lwp_park\<close>, when the LWP has been unblocked and \<open>runq_mtx\<close> is free.\<close>

definition lwp_unpark :: "nat \<Rightarrow> mthreads \<Rightarrow> mthreads option" where
  "lwp_unpark l s = do {
     s1 \<leftarrow> pthread_lock l Runq_mtx s;
     park_wait l (s1\<lparr>cond_woken := cond_woken s1 - 1\<rparr>)
   }"

definition lwp_start_body :: "nat \<Rightarrow> mthreads \<Rightarrow> mthreads option" where
  "lwp_start_body l s = Some (set_code l lwp_switch (s\<lparr>lwp_cnt := lwp_cnt s + 1\<rparr>))"

section \<open>Mutexes and condition variables\<close>

definition mtx_lock_body :: "nat \<Rightarrow> nat \<Rightarrow> mt_frame list \<Rightarrow> mthreads \<Rightarrow> mthreads option" where
  "mtx_lock_body l m fs s = do {
     t \<leftarrow> ut_curthr s l;
     (if m_owner s m = None
      then Some (set_code l (Pthread_unlock (M_pmut m) # fs)
        (s\<lparr>m_owner := (m_owner s)(m := Some t), holds := (holds s)(t := insert m (holds s t))\<rparr>))
      else Some (set_code l
        (mt_switch (Some (M_waiters m)) False (Some (M_pmut m)) @ Mtx_lock_resume m (ut_state s t) # fs)
        (set_state t UT_WAIT s)))
   }"

definition mtx_lock_resume :: "nat \<Rightarrow> nat \<Rightarrow> mt_state \<Rightarrow> mt_frame list \<Rightarrow> mthreads \<Rightarrow> mthreads option" where
  "mtx_lock_resume l m old fs s = do {
     t \<leftarrow> ut_curthr s l;
     let s1 = (if old = UT_ZOMBIE then set_state t UT_ZOMBIE s else s);
     c_assert (\<not> ut_link s1 t);
     Some (set_code l fs (s1\<lparr>holds := (holds s1)(t := insert m (holds s1 t))\<rparr>))
   }"

text \<open>\<open>uthread_mtx_trylock\<close> returns 1 on the first branch and 0 on the second; that the thread has the mutex is all the
model keeps of it.\<close>

definition mtx_trylock_body :: "nat \<Rightarrow> nat \<Rightarrow> mt_frame list \<Rightarrow> mthreads \<Rightarrow> mthreads option" where
  "mtx_trylock_body l m fs s = do {
     t \<leftarrow> ut_curthr s l;
     (if m_owner s m = None
      then Some (set_code l fs
        (s\<lparr>m_owner := (m_owner s)(m := Some t), holds := (holds s)(t := insert m (holds s t))\<rparr>))
      else Some (set_code l fs s))
   }"

text \<open>The next thread of a queue is dequeued, the mutex that protects the queue is unlocked, and the
thread is woken.\<close>

definition mtx_unlock_body :: "nat \<Rightarrow> nat \<Rightarrow> mt_frame list \<Rightarrow> mthreads \<Rightarrow> mthreads option" where
  "mtx_unlock_body l m fs s = do {
     e \<leftarrow> mt_queue_empty (M_waiters m) s;
     (if e then Some (set_code l (Pthread_unlock (M_pmut m) # fs) (s\<lparr>m_owner := (m_owner s)(m := None)\<rparr>))
      else do {
        (next_thread, s1) \<leftarrow> mt_dequeue (M_waiters m) s;
        u \<leftarrow> next_thread;
        Some (set_code l (Pthread_unlock (M_pmut m) # mt_wake u @ fs)
          (s1\<lparr>m_owner := (m_owner s1)(m := Some u)\<rparr>))
      })
   }"

definition cond_signal_body :: "nat \<Rightarrow> nat \<Rightarrow> mt_frame list \<Rightarrow> mthreads \<Rightarrow> mthreads option" where
  "cond_signal_body l c fs s = do {
     (next_thread, s1) \<leftarrow> mt_dequeue (Uc_waiters c) s;
     (case next_thread of
        None \<Rightarrow> Some (set_code l (Pthread_unlock (C_pmut c) # fs) s1)
      | Some u \<Rightarrow> Some (set_code l (Pthread_unlock (C_pmut c) # mt_wake u @ fs) s1))
   }"

definition cond_broadcast_body :: "nat \<Rightarrow> nat \<Rightarrow> mt_frame list \<Rightarrow> mthreads \<Rightarrow> mthreads option" where
  "cond_broadcast_body l c fs s = do {
     e \<leftarrow> mt_queue_empty (Uc_waiters c) s;
     (if e then Some (set_code l (Pthread_unlock (C_pmut c) # fs) s)
      else do {
        (next_thread, s1) \<leftarrow> mt_dequeue (Uc_waiters c) s;
        u \<leftarrow> next_thread;
        Some (set_code l (Pthread_unlock (C_pmut c) # mt_wake u @
            Pthread_lock (C_pmut c) # Cond_broadcast_body c # fs) s1)
      })
   }"

section \<open>Steps\<close>

text \<open>The frame \<open>f\<close> executed by LWP \<open>l\<close>, with \<open>fs\<close> below it; \<open>None\<close> when an assertion fails.\<close>

fun exec :: "nat \<Rightarrow> mt_frame \<Rightarrow> mt_frame list \<Rightarrow> mthreads \<Rightarrow> mthreads option" where
  "exec l Nopreempt_on fs s = nopreempt_on l (set_code l fs s)"
| "exec l Nopreempt_off fs s = nopreempt_off l (set_code l fs s)"
| "exec l (Pthread_lock p) fs s = pthread_lock l p (set_code l fs s)"
| "exec l (Pthread_unlock p) fs s = pthread_unlock l p (set_code l fs s)"
| "exec l (Mtx_lock_body m) fs s = mtx_lock_body l m fs s"
| "exec l (Mtx_lock_resume m old) fs s = mtx_lock_resume l m old fs s"
| "exec l (Mtx_trylock_body m) fs s = mtx_trylock_body l m fs s"
| "exec l (Mtx_unlock_body m) fs s = mtx_unlock_body l m fs s"
| "exec l Set_wait fs s = do { t \<leftarrow> ut_curthr s l; Some (set_code l fs (set_state t UT_WAIT s)) }"
| "exec l Check_unlinked fs s = do { t \<leftarrow> ut_curthr s l; c_assert (\<not> ut_link s t); Some (set_code l fs s) }"
| "exec l (Cond_signal_body c) fs s = cond_signal_body l c fs s"
| "exec l (Cond_broadcast_body c) fs s = cond_broadcast_body l c fs s"
| "exec l Yield_body fs s = yield_body l fs s"
| "exec l (Wake_check u) fs s = do { c_assert (ut_state s u \<noteq> UT_NO_STATE); Some (set_code l fs s) }"
| "exec l (Wake_body u) fs s = wake_body l u fs s"
| "exec l (Switch_body q saveonrq m) fs s = switch_body l q saveonrq m fs s"
| "exec l Lwp_start_body fs s = lwp_start_body l s"
| "exec l Lwp_requeue fs s = lwp_requeue l (set_code l fs s)"
| "exec l Lwp_unlock fs s = lwp_unlock l (set_code l fs s)"
| "exec l Lwp_search fs s = lwp_search l s"
| "exec l Lwp_parked fs s = lwp_unpark l s"

text \<open>A frame waits for a mutex another LWP has, and a parked LWP for a signal and for \<open>runq_mtx\<close>; locking again a
mutex that is not of the error-checking kind waits forever.\<close>

fun blocked :: "nat \<Rightarrow> mt_frame \<Rightarrow> mthreads \<Rightarrow> bool" where
  "blocked l (Pthread_lock p) s = (pthread_owner s p \<noteq> None \<and> \<not> (errorcheck p \<and> pthread_owner s p = Some l))"
| "blocked l Lwp_parked s = (pthread_owner s Runq_mtx \<noteq> None \<or> cond_woken s = 0)"
| "blocked l f s = False"

text \<open>Misuse of a POSIX mutex, also of those where it is an error that goes unnoticed: locking one that the LWP has
locked, unlocking or waiting with one that it has not.\<close>

fun misuses :: "nat \<Rightarrow> mt_frame \<Rightarrow> mthreads \<Rightarrow> bool" where
  "misuses l (Pthread_lock p) s = (pthread_owner s p = Some l)"
| "misuses l (Pthread_unlock p) s = (pthread_owner s p \<noteq> Some l)"
| "misuses l Lwp_unlock s = (\<exists>p. lwp_pmut s l = Some p \<and> pthread_owner s p \<noteq> Some l)"
| "misuses l Lwp_search s = (pthread_owner s Runq_mtx \<noteq> Some l)"
| "misuses l Lwp_parked s = (pthread_owner s Runq_mtx = Some l)"
| "misuses l f s = False"

text \<open>What the program of a thread may do: a mutex is unlocked, or waited with, by the thread that holds it, and
not locked again.\<close>

datatype call = Lock nat | Trylock nat | Unlock nat | Wait nat nat | Signal nat | Broadcast nat | Yield

fun allowed :: "call \<Rightarrow> nat set \<Rightarrow> bool" where
  "allowed (Lock m) hs = (m \<notin> hs)"
| "allowed (Unlock m) hs = (m \<in> hs)"
| "allowed (Wait c m) hs = (m \<in> hs)"
| "allowed _ hs = True"

fun call_frames :: "call \<Rightarrow> mt_frame list" where
  "call_frames (Lock m) = mt_mtx_lock m"
| "call_frames (Trylock m) = mt_mtx_trylock m"
| "call_frames (Unlock m) = mt_mtx_unlock m"
| "call_frames (Wait c m) = mt_cond_wait c m"
| "call_frames (Signal c) = mt_cond_signal c"
| "call_frames (Broadcast c) = mt_cond_broadcast c"
| "call_frames Yield = mt_yield"

fun held_after :: "call \<Rightarrow> nat set \<Rightarrow> nat set" where
  "held_after (Unlock m) hs = hs - {m}"
| "held_after (Wait c m) hs = hs - {m}"
| "held_after _ hs = hs"

text \<open>A step of LWP \<open>l\<close>: a frame, a call in the program of its thread, or a clock interrupt; and the return of some
\<open>pthread_cond_wait\<close> without a signal, or because a signal has unblocked more than one LWP.\<close>

inductive mt_step :: "nat \<Rightarrow> mthreads \<Rightarrow> mthreads \<Rightarrow> bool" where
  frame: "code s l = f # fs \<Longrightarrow> \<not> blocked l f s \<Longrightarrow> exec l f fs s = Some s' \<Longrightarrow> mt_step l s s'"
| call: "code s l = [] \<Longrightarrow> ut_curthr s l = Some t \<Longrightarrow> allowed c (holds s t) \<Longrightarrow>
    s' = set_code l (call_frames c) (s\<lparr>holds := (holds s)(t := held_after c (holds s t))\<rparr>) \<Longrightarrow> mt_step l s s'"
| clock: "\<not> masked s l \<Longrightarrow> mt_clock_interrupt l s = Some s' \<Longrightarrow> mt_step l s s'"
| spurious: "0 < cond_blocked s \<Longrightarrow> mt_step l s (lwp_release s)"

text \<open>The start: \<open>n\<close> LWPs about to run \<open>lwp_start\<close>, and the created threads, each on the run queue of its priority.\<close>

definition mt_init :: "nat \<Rightarrow> nat list \<Rightarrow> mthreads" where
  "mt_init n prios = \<lparr>
     pthread_owner = (\<lambda>_. None),
     tq_waiters = (\<lambda>q. case q of Runq_table i \<Rightarrow> List.filter (\<lambda>t. prios ! t = i) [0..<length prios] | _ \<Rightarrow> []),
     tq_size = (\<lambda>q. case q of
         Runq_table i \<Rightarrow> int (length (List.filter (\<lambda>t. prios ! t = i) [0..<length prios])) | _ \<Rightarrow> 0),
     ut_link = (\<lambda>t. t < length prios),
     ut_state = (\<lambda>t. if t < length prios then UT_RUNNABLE else UT_NO_STATE),
     ut_prio = (\<lambda>t. if t < length prios then prios ! t else 0),
     ut_no_preempt_count = (\<lambda>t. if t < length prios then 1 else 0),
     ut_ctx = (\<lambda>_. mt_thread_start),
     m_owner = (\<lambda>_. None),
     runq_size = int (length prios),
     lwp_parked_cnt = 0,
     lwp_cnt = 0,
     cond_blocked = 0,
     cond_woken = 0,
     ut_curthr = (\<lambda>_. None),
     lwp_queue = (\<lambda>_. None),
     lwp_saveonrq = (\<lambda>_. False),
     lwp_pmut = (\<lambda>_. None),
     masked = (\<lambda>_. True),
     code = (\<lambda>l. if l < n then lwp_start else []),
     holds = (\<lambda>_. {})\<rparr>"

inductive mt_reach :: "nat \<Rightarrow> nat list \<Rightarrow> mthreads \<Rightarrow> bool" for n prios where
  start: "mt_reach n prios (mt_init n prios)"
| step: "mt_reach n prios s \<Longrightarrow> mt_step l s s' \<Longrightarrow> mt_reach n prios s'"

end
