(* ===== verification/MtInv.thy ===== *)
theory MtInv
  imports MtDefs
begin

text \<open>The invariant of the thread library for several processors: what a stack of frames requires and
promises, where each thread is, which LWP has which POSIX mutex, and what the owner of a mutex means.\<close>

section \<open>Stacks of frames\<close>

text \<open>The POSIX mutexes the LWP has before it executes the stack, \<open>a\<close> being the one \<open>lwp_switch\<close> will unlock.\<close>

fun posix_held :: "posix_mutex option \<Rightarrow> mt_frame list \<Rightarrow> posix_mutex set" where
  "posix_held a [] = {}"
| "posix_held a (f # fs) = (case f of
     Pthread_lock p \<Rightarrow> posix_held a fs - {p}
   | Pthread_unlock p \<Rightarrow> insert p (posix_held a fs)
   | Mtx_lock_body m \<Rightarrow> insert (M_pmut m) (posix_held a fs)
   | Mtx_unlock_body m \<Rightarrow> insert (M_pmut m) (posix_held a fs)
   | Cond_signal_body c \<Rightarrow> insert (C_pmut c) (posix_held a fs)
   | Cond_broadcast_body c \<Rightarrow> insert (C_pmut c) (posix_held a fs)
   | Switch_body q b m \<Rightarrow> insert Runq_mtx (set_option m)
   | Lwp_start_body \<Rightarrow> {Runq_mtx}
   | Lwp_unlock \<Rightarrow> set_option a \<union> posix_held a fs
   | Lwp_search \<Rightarrow> {Runq_mtx}
   | Lwp_parked \<Rightarrow> {}
   | _ \<Rightarrow> posix_held a fs)"

text \<open>How often preemption is disabled, the threads that will be woken, and whether the thread has
announced that it will wait.\<close>

fun depth :: "mt_frame list \<Rightarrow> nat" where
  "depth [] = 0"
| "depth (f # fs) = (case f of Nopreempt_on \<Rightarrow> depth fs - 1 | Nopreempt_off \<Rightarrow> depth fs + 1 | _ \<Rightarrow> depth fs)"

fun wakes :: "mt_frame list \<Rightarrow> nat list" where
  "wakes [] = []"
| "wakes (f # fs) = (case f of Wake_body u \<Rightarrow> u # wakes fs | _ \<Rightarrow> wakes fs)"

fun will_wait :: "mt_frame list \<Rightarrow> bool" where
  "will_wait [] = False"
| "will_wait (f # fs) = (case f of
     Switch_body q b m \<Rightarrow> q \<noteq> None | Pthread_lock p \<Rightarrow> p = Runq_mtx \<and> will_wait fs | _ \<Rightarrow> False)"

text \<open>The mutexes the thread must own by now, those it will take or give up, and those it is about to
wait for.\<close>

fun mtx_claims :: "mt_frame list \<Rightarrow> nat set" where
  "mtx_claims [] = {}"
| "mtx_claims (f # fs) = (case f of
     Mtx_lock_resume m old \<Rightarrow> insert m (mtx_claims fs)
   | Mtx_unlock_body m \<Rightarrow> insert m (mtx_claims fs)
   | Switch_body (Some (M_waiters m)) b p \<Rightarrow> mtx_claims fs - {m}
   | _ \<Rightarrow> mtx_claims fs)"

fun mtxs :: "mt_frame list \<Rightarrow> nat set" where
  "mtxs [] = {}"
| "mtxs (f # fs) = (case f of
     Mtx_lock_body m \<Rightarrow> insert m (mtxs fs)
   | Mtx_lock_resume m old \<Rightarrow> insert m (mtxs fs)
   | Mtx_unlock_body m \<Rightarrow> insert m (mtxs fs)
   | _ \<Rightarrow> mtxs fs)"

fun waits_for :: "mt_frame list \<Rightarrow> nat set" where
  "waits_for [] = {}"
| "waits_for (f # fs) = (case f of
     Switch_body (Some (M_waiters m)) b p \<Rightarrow> {m}
   | Pthread_lock p \<Rightarrow> if p = Runq_mtx then waits_for fs else {}
   | _ \<Rightarrow> {})"

text \<open>The arguments of \<open>uthread_switch\<close>, and the order in which POSIX mutexes are locked.\<close>

fun switch_args :: "utqueue option \<Rightarrow> bool \<Rightarrow> posix_mutex option \<Rightarrow> bool" where
  "switch_args None b m = (b \<and> (\<exists>t. m = Some (Ut_pmut t)))"
| "switch_args (Some (M_waiters x)) b m = (m = Some (M_pmut x))"
| "switch_args (Some (Uc_waiters c)) b m = (m = Some (C_pmut c))"
| "switch_args (Some (Runq_table i)) b m = False"

fun rank :: "posix_mutex \<Rightarrow> nat" where
  "rank Runq_mtx = 0" | "rank (M_pmut m) = 1" | "rank (Ut_pmut t) = 1" | "rank (C_pmut c) = 2"

fun good :: "mt_frame list \<Rightarrow> bool" where
  "good [] = True"
| "good (f # fs) = (good fs \<and> (f = Nopreempt_off \<or> 0 < depth fs) \<and>
     (f = Pthread_lock Runq_mtx \<or> f = Set_wait \<and> waits_for fs = {} \<or> \<not> will_wait fs) \<and>
     (case f of
        Nopreempt_on \<Rightarrow> depth fs = 1 \<longrightarrow> posix_held None fs = {} \<and> \<not> will_wait fs \<and> wakes fs = []
      | Nopreempt_off \<Rightarrow> depth fs = 0 \<longrightarrow> posix_held None fs = {} \<and> \<not> will_wait fs \<and> wakes fs = []
      | Pthread_lock p \<Rightarrow> p \<in> posix_held None fs \<and> (\<forall>q\<in>posix_held None fs - {p}. rank p < rank q)
      | Pthread_unlock p \<Rightarrow> p \<notin> posix_held None fs
      | Mtx_lock_body m \<Rightarrow> posix_held None fs = {} \<and> \<not> will_wait fs \<and> m \<notin> mtxs fs \<and> wakes fs = []
      | Mtx_lock_resume m old \<Rightarrow> m \<notin> mtxs fs \<and> old \<noteq> UT_ZOMBIE \<and> \<not> will_wait fs
      | Mtx_trylock_body m \<Rightarrow> M_pmut m \<in> posix_held None fs \<and> m \<notin> mtxs fs
      | Mtx_unlock_body m \<Rightarrow> M_pmut m \<notin> posix_held None fs \<and> Runq_mtx \<notin> posix_held None fs \<and> m \<notin> mtx_claims fs
      | Cond_signal_body c \<Rightarrow> C_pmut c \<notin> posix_held None fs \<and> Runq_mtx \<notin> posix_held None fs
      | Cond_broadcast_body c \<Rightarrow> posix_held None fs = {}
      | Yield_body \<Rightarrow> posix_held None fs = {} \<and> \<not> will_wait fs \<and> wakes fs = []
      | Wake_check u \<Rightarrow> u \<in> set (wakes fs)
      | Wake_body u \<Rightarrow> Runq_mtx \<in> posix_held None fs \<and> u \<notin> set (wakes fs)
      | Switch_body q b m \<Rightarrow>
          switch_args q b m \<and> posix_held None fs = {} \<and> \<not> will_wait fs \<and> wakes fs = []
      | Set_wait \<Rightarrow> True
      | Check_unlinked \<Rightarrow> True
      | _ \<Rightarrow> False))"

lemma good_held: "good fs \<Longrightarrow> posix_held a fs = posix_held None fs"
  by (induction fs) (auto split: mt_frame.splits)

lemma good_idle:
  assumes "good fs" "depth fs = 0"
  shows "posix_held None fs = {}" "\<not> will_wait fs" "wakes fs = []"
  using assms by (cases fs; auto split: mt_frame.splits)+

lemma claims_mtxs: "m \<in> mtx_claims fs \<Longrightarrow> m \<in> mtxs fs"
  by (induction fs) (auto split: mt_frame.splits option.splits utqueue.splits)

lemma waits_for_held: "good fs \<Longrightarrow> m \<in> waits_for fs \<Longrightarrow> M_pmut m \<in> posix_held None fs"
  by (induction fs) (auto split: mt_frame.splits option.splits utqueue.splits if_splits)

lemma waits_for_will_wait: "m \<in> waits_for fs \<Longrightarrow> will_wait fs"
  by (induction fs) (auto split: mt_frame.splits option.splits utqueue.splits if_splits)

lemma waits_for_not_claimed: "m \<in> waits_for fs \<Longrightarrow> m \<notin> mtx_claims fs"
  by (induction fs) (auto split: mt_frame.splits option.splits utqueue.splits if_splits)

lemmas mt_functions = mt_switch_def mt_yield_def mt_wake_def mt_mtx_lock_def mt_mtx_trylock_def mt_mtx_unlock_def
  mt_cond_wait_def mt_cond_broadcast_def mt_cond_signal_def lwp_switch_def lwp_start_def mt_thread_start_def

lemma good_calls: "good (call_frames c)" "depth (call_frames c) = 0" "wakes (call_frames c) = []"
  "mtx_claims (call_frames c) \<subseteq> (case c of Unlock m \<Rightarrow> {m} | Wait c m \<Rightarrow> {m} | _ \<Rightarrow> {})"
  "posix_held None (call_frames c) = {}" "\<not> will_wait (call_frames c)" "waits_for (call_frames c) = {}"
  by (cases c; auto simp: mt_functions)+

section \<open>Where a thread is\<close>

text \<open>A thread is with an LWP, in a queue, or about to be woken by an LWP that has dequeued it.\<close>

datatype mt_place = On nat | In utqueue | Waking nat

definition lwp_code :: "mt_frame list \<Rightarrow> bool" where
  "lwp_code fs \<longleftrightarrow> fs \<in> {lwp_start, [Lwp_start_body], lwp_switch, [Lwp_unlock, Lwp_search], [Lwp_search], [Lwp_parked]}"

lemma good_user: "good fs \<Longrightarrow> \<not> lwp_code fs"
  by (auto simp: lwp_code_def mt_functions)

text \<open>A thread that runs, one whose context is saved, and one the LWP has left but not yet put on a queue.\<close>

definition running :: "mthreads \<Rightarrow> nat \<Rightarrow> nat \<Rightarrow> bool" where
  "running s l t \<longleftrightarrow> (let fs = code s l in
     ut_curthr s l = Some t \<and> \<not> lwp_code fs \<and> good fs \<and> ut_no_preempt_count s t = depth fs \<and>
     masked s l = (0 < depth fs) \<and> (will_wait fs \<longrightarrow> ut_state s t = UT_WAIT) \<and>
     ut_state s t \<in> {UT_ON_CPU, UT_RUNNABLE, UT_WAIT})"

definition saved :: "mthreads \<Rightarrow> nat \<Rightarrow> bool" where
  "saved s t \<longleftrightarrow> (let fs = ut_ctx s t in
     good fs \<and> posix_held None fs = {} \<and> 0 < depth fs \<and> ut_no_preempt_count s t = depth fs \<and> \<not> will_wait fs \<and> wakes fs = [])"

definition leaving :: "mthreads \<Rightarrow> nat \<Rightarrow> nat \<Rightarrow> bool" where
  "leaving s l t \<longleftrightarrow> ut_curthr s l = Some t \<and> code s l = lwp_switch \<and> masked s l \<and> saved s t \<and>
     switch_args (lwp_queue s l) (lwp_saveonrq s l) (lwp_pmut s l) \<and> (lwp_queue s l \<noteq> None \<longrightarrow> ut_state s t = UT_WAIT)"

text \<open>An LWP that runs no thread.\<close>

definition free_lwp :: "mthreads \<Rightarrow> nat \<Rightarrow> bool" where
  "free_lwp s l \<longleftrightarrow> masked s l \<and>
     (code s l = [Lwp_unlock, Lwp_search] \<and> lwp_pmut s l \<noteq> Some Runq_mtx \<or>
      code s l = [Lwp_search] \<or> code s l = [Lwp_parked] \<or>
      code s l \<in> {lwp_start, [Lwp_start_body], lwp_switch} \<and> ut_curthr s l = None \<and>
        lwp_queue s l = None \<and> \<not> lwp_saveonrq s l \<and> lwp_pmut s l = None)"

definition with_lwp :: "mthreads \<Rightarrow> nat \<Rightarrow> nat \<Rightarrow> bool" where
  "with_lwp s l t \<longleftrightarrow> running s l t \<or> leaving s l t"

definition in_queue :: "mthreads \<Rightarrow> nat \<Rightarrow> utqueue \<Rightarrow> bool" where
  "in_queue s t q \<longleftrightarrow> t \<in> set (tq_waiters s q) \<and> ut_link s t \<and> saved s t \<and>
     (case q of Runq_table i \<Rightarrow> ut_state s t = UT_RUNNABLE \<and> i = ut_prio s t | _ \<Rightarrow> ut_state s t = UT_WAIT)"

definition being_woken :: "mthreads \<Rightarrow> nat \<Rightarrow> nat \<Rightarrow> bool" where
  "being_woken s l t \<longleftrightarrow> t \<in> set (wakes (code s l)) \<and> \<not> ut_link s t \<and> saved s t \<and> ut_state s t = UT_WAIT"

definition place_ok :: "nat \<Rightarrow> mthreads \<Rightarrow> nat \<Rightarrow> mt_place \<Rightarrow> bool" where
  "place_ok N s t p = (case p of
     On l \<Rightarrow> l < N \<and> with_lwp s l t \<and> \<not> ut_link s t
   | In q \<Rightarrow> in_queue s t q
   | Waking l \<Rightarrow> l < N \<and> being_woken s l t)"

definition places :: "nat \<Rightarrow> nat \<Rightarrow> (nat \<Rightarrow> mt_place) \<Rightarrow> mthreads \<Rightarrow> bool" where
  "places N n loc s \<longleftrightarrow>
     (\<forall>t<n. place_ok N s t (loc t) \<and> ut_prio s t \<le> MT_MAXPRIO) \<and>
     (\<forall>l<N. free_lwp s l \<or> (\<exists>t<n. loc t = On l)) \<and>
     (\<forall>l\<ge>N. code s l = [] \<and> ut_curthr s l = None) \<and>
     (\<forall>q. distinct (tq_waiters s q)) \<and>
     (\<forall>q. \<forall>t\<in>set (tq_waiters s q). t < n \<and> loc t = In q) \<and>
     (\<forall>l<N. \<forall>u\<in>set (wakes (code s l)). u < n \<and> loc u = Waking l)"

section \<open>Locks, owners, counters\<close>

definition locks :: "nat \<Rightarrow> mthreads \<Rightarrow> bool" where
  "locks N s \<longleftrightarrow> (\<forall>p l. pthread_owner s p = Some l \<longleftrightarrow> l < N \<and> p \<in> posix_held (lwp_pmut s l) (code s l))"

text \<open>The frames a thread will execute, and the mutex it waits for.\<close>

definition stack :: "mthreads \<Rightarrow> nat \<Rightarrow> mt_place \<Rightarrow> mt_frame list" where
  "stack s t p = (case p of On l \<Rightarrow> if code s l = lwp_switch then ut_ctx s t else code s l | _ \<Rightarrow> ut_ctx s t)"

definition waiting :: "mthreads \<Rightarrow> mt_place \<Rightarrow> nat set" where
  "waiting s p = (case p of
     On l \<Rightarrow> (if code s l = lwp_switch then {m. lwp_queue s l = Some (M_waiters m)} else waits_for (code s l))
   | In q \<Rightarrow> {m. q = M_waiters m}
   | Waking l \<Rightarrow> {})"

definition owner_ok :: "mthreads \<Rightarrow> nat \<Rightarrow> mt_place \<Rightarrow> bool" where
  "owner_ok s t p \<longleftrightarrow> (\<forall>m.
     (m \<in> holds s t \<longrightarrow> m_owner s m = Some t \<and> m \<notin> mtxs (stack s t p)) \<and>
     (m \<in> mtx_claims (stack s t p) \<longrightarrow> m \<notin> waiting s p \<longrightarrow> m_owner s m = Some t) \<and>
     (m \<in> waiting s p \<longrightarrow> m_owner s m \<noteq> None))"

definition owners :: "nat \<Rightarrow> (nat \<Rightarrow> mt_place) \<Rightarrow> mthreads \<Rightarrow> bool" where
  "owners n loc s \<longleftrightarrow> (\<forall>t<n. owner_ok s t (loc t))"

definition runq_count :: "mthreads \<Rightarrow> nat" where
  "runq_count s = (\<Sum>i\<le>MT_MAXPRIO. length (tq_waiters s (Runq_table i)))"

definition parked_lwps :: "nat \<Rightarrow> mthreads \<Rightarrow> nat set" where
  "parked_lwps N s = {l. l < N \<and> code s l = [Lwp_parked]}"

definition started_lwps :: "nat \<Rightarrow> mthreads \<Rightarrow> nat set" where
  "started_lwps N s = {l. l < N \<and> code s l \<noteq> lwp_start \<and> code s l \<noteq> [Lwp_start_body]}"

definition queue_sizes :: "mthreads \<Rightarrow> bool" where
  "queue_sizes s \<longleftrightarrow> (\<forall>q. tq_size s q = int (length (tq_waiters s q)))"

text \<open>The LWPs counted by \<open>lwp_parked_cnt\<close> are those blocked or unblocked in \<open>pthread_cond_wait\<close>. When there is a
thread to run and an LWP is parked, then one of the parked LWPs is unblocked, or two others are at work.\<close>

definition parking :: "mthreads \<Rightarrow> bool" where
  "parking s \<longleftrightarrow> cond_blocked s + cond_woken s = lwp_parked_cnt s \<and>
     (lwp_parked_cnt s < lwp_cnt s \<or> lwp_parked_cnt s = 0) \<and>
     (0 < runq_size s \<longrightarrow> lwp_parked_cnt s = 0 \<or> 0 < cond_woken s \<or> lwp_parked_cnt s + 2 \<le> lwp_cnt s)"

definition counters :: "nat \<Rightarrow> mthreads \<Rightarrow> bool" where
  "counters N s \<longleftrightarrow> runq_size s = int (runq_count s) \<and> lwp_parked_cnt s = card (parked_lwps N s) \<and>
     lwp_cnt s = card (started_lwps N s) \<and> queue_sizes s \<and> parking s"

definition mt_ok :: "nat \<Rightarrow> nat \<Rightarrow> (nat \<Rightarrow> mt_place) \<Rightarrow> mthreads \<Rightarrow> bool" where
  "mt_ok N n loc s \<longleftrightarrow> places N n loc s \<and> locks N s \<and> owners n loc s \<and> counters N s"

end
