(* ===== verification/MtSteps.thy ===== *)
theory MtSteps
  imports MtInv
begin

text \<open>Every frame keeps the invariant: one lemma for the frames of a running thread, and one for each way a
thread moves from place to place.\<close>

section \<open>Facts of the invariant\<close>

lemma placesD:
  assumes "places N n loc s"
  shows "t < n \<Longrightarrow> place_ok N s t (loc t)" "t < n \<Longrightarrow> ut_prio s t \<le> MT_MAXPRIO"
    "l < N \<Longrightarrow> free_lwp s l \<or> (\<exists>t<n. loc t = On l)" "N \<le> l \<Longrightarrow> code s l = []" "N \<le> l \<Longrightarrow> ut_curthr s l = None"
    "distinct (tq_waiters s q)" "t \<in> set (tq_waiters s q) \<Longrightarrow> t < n" "t \<in> set (tq_waiters s q) \<Longrightarrow> loc t = In q"
    "l < N \<Longrightarrow> u \<in> set (wakes (code s l)) \<Longrightarrow> u < n" "l < N \<Longrightarrow> u \<in> set (wakes (code s l)) \<Longrightarrow> loc u = Waking l"
  using assms unfolding places_def by auto

lemma on_lwp:
  assumes "places N n loc s" "t < n" "loc t = On l"
  shows "l < N" "with_lwp s l t" "\<not> ut_link s t" "ut_curthr s l = Some t"
  using placesD(1) [OF assms(1,2)] assms(3) by (auto simp: place_ok_def with_lwp_def running_def leaving_def Let_def)

lemma on_lwp_unique:
  assumes "places N n loc s" "t < n" "loc t = On l" "t' < n" "loc t' = On l'"
  shows "t = t' \<longleftrightarrow> l = l'"
  using on_lwp(4) [OF assms(1-3)] on_lwp(4) [OF assms(1,4,5)] assms(3,5) by auto

lemma locksD: "locks N s \<Longrightarrow> pthread_owner s p = Some l \<longleftrightarrow> l < N \<and> p \<in> posix_held (lwp_pmut s l) (code s l)"
  unfolding locks_def by blast

lemma ownersD:
  assumes "owners n loc s" "t < n"
  shows "m \<in> holds s t \<Longrightarrow> m_owner s m = Some t" "m \<in> holds s t \<Longrightarrow> m \<notin> mtxs (stack s t (loc t))"
    "m \<in> mtx_claims (stack s t (loc t)) \<Longrightarrow> m \<notin> waiting s (loc t) \<Longrightarrow> m_owner s m = Some t"
    "m \<in> waiting s (loc t) \<Longrightarrow> m_owner s m \<noteq> None"
  using assms unfolding owners_def owner_ok_def by blast+

text \<open>A thread that waits for a mutex is in its queue, or its LWP still has the \<open>m_pmut\<close> of the mutex.\<close>

lemma waiting_locked:
  assumes p: "places N n loc s" and k: "locks N s" and t: "t < n" and w: "m \<in> waiting s (loc t)"
  shows "loc t = In (M_waiters m) \<or> (\<exists>l<N. loc t = On l \<and> pthread_owner s (M_pmut m) = Some l)"
proof (cases "loc t")
  case (On l)
  note o = on_lwp [OF p t On]
  have "M_pmut m \<in> posix_held (lwp_pmut s l) (code s l)"
  proof (cases "code s l = lwp_switch")
    case True
    then have "leaving s l t" using o(2) by (auto simp: with_lwp_def running_def lwp_code_def Let_def)
    then have "lwp_pmut s l = Some (M_pmut m)" using w True On by (auto simp: leaving_def waiting_def)
    then show ?thesis unfolding True by (simp add: lwp_switch_def)
  next
    case False
    then have "good (code s l)" using o(2) by (auto simp: with_lwp_def running_def leaving_def Let_def)
    moreover have "m \<in> waits_for (code s l)" using w On False by (simp add: waiting_def)
    ultimately show ?thesis using waits_for_held good_held by metis
  qed
  then show ?thesis using o(1) On locksD [OF k] by auto
next
  case (In q)
  then show ?thesis using w by (auto simp: waiting_def)
next
  case (Waking l)
  then show ?thesis using w by (simp add: waiting_def)
qed

text \<open>A thread that does not move.\<close>

lemma place_ok_same:
  assumes "place_ok N s t p"
    and "ut_link s' t = ut_link s t" "ut_state s' t = ut_state s t" "ut_ctx s' t = ut_ctx s t"
      "ut_no_preempt_count s' t = ut_no_preempt_count s t" "ut_prio s' t = ut_prio s t"
    and "\<And>l. p = On l \<Longrightarrow> ut_curthr s' l = ut_curthr s l \<and> code s' l = code s l \<and> masked s' l = masked s l \<and>
      lwp_queue s' l = lwp_queue s l \<and> lwp_saveonrq s' l = lwp_saveonrq s l \<and> lwp_pmut s' l = lwp_pmut s l"
    and "\<And>q. p = In q \<Longrightarrow> t \<in> set (tq_waiters s q) \<Longrightarrow> t \<in> set (tq_waiters s' q)"
    and "\<And>l. p = Waking l \<Longrightarrow> t \<in> set (wakes (code s l)) \<Longrightarrow> t \<in> set (wakes (code s' l))"
  shows "place_ok N s' t p"
  using assms
  by (cases p) (auto simp: place_ok_def with_lwp_def running_def leaving_def saved_def in_queue_def being_woken_def Let_def
      split: utqueue.splits)

lemma owner_ok_same:
  assumes ok: "owner_ok s t p" and "holds s' t = holds s t" "ut_ctx s' t = ut_ctx s t"
    and "\<And>l. p = On l \<Longrightarrow> code s' l = code s l \<and> lwp_queue s' l = lwp_queue s l"
    and own: "\<And>m. m_owner s m = Some t \<Longrightarrow> m_owner s' m = Some t" "\<And>m. m \<in> waiting s p \<Longrightarrow> m_owner s' m \<noteq> None"
  shows "owner_ok s' t p"
proof -
  have "stack s' t p = stack s t p" "waiting s' p = waiting s p"
    using assms(3,4) by (auto simp: stack_def waiting_def split: mt_place.splits)
  then show ?thesis using ok own assms(2) unfolding owner_ok_def by metis
qed

lemma free_lwp_same:
  assumes "free_lwp s l" "ut_curthr s' l = ut_curthr s l" "code s' l = code s l" "masked s' l = masked s l"
    "lwp_queue s' l = lwp_queue s l" "lwp_saveonrq s' l = lwp_saveonrq s l" "lwp_pmut s' l = lwp_pmut s l"
  shows "free_lwp s' l"
  using assms by (simp add: free_lwp_def)

lemma countersD:
  assumes "counters N s"
  shows "lwp_parked_cnt s = card (parked_lwps N s)" "lwp_cnt s = card (started_lwps N s)"
    "lwp_parked_cnt s < lwp_cnt s \<or> lwp_parked_cnt s = 0" "tq_size s q = int (length (tq_waiters s q))"
    "cond_blocked s + cond_woken s = lwp_parked_cnt s" "runq_size s = int (runq_count s)" "queue_sizes s" "parking s"
    "0 < runq_size s \<Longrightarrow> lwp_parked_cnt s = 0 \<or> 0 < cond_woken s \<or> lwp_parked_cnt s + 2 \<le> lwp_cnt s"
  using assms unfolding counters_def queue_sizes_def parking_def by metis+

lemma counters_same:
  assumes "counters N s" "runq_size s' = runq_size s" "lwp_parked_cnt s' = lwp_parked_cnt s" "lwp_cnt s' = lwp_cnt s"
    and "cond_blocked s' = cond_blocked s" "cond_woken s' = cond_woken s" "queue_sizes s'"
    and "\<And>i. length (tq_waiters s' (Runq_table i)) = length (tq_waiters s (Runq_table i))"
    and "\<And>x c. c \<in> {[Lwp_parked], lwp_start, [Lwp_start_body]} \<Longrightarrow> code s' x = c \<longleftrightarrow> code s x = c"
  shows "counters N s'"
proof -
  have "parked_lwps N s' = parked_lwps N s" "started_lwps N s' = started_lwps N s"
    using assms(9) by (auto simp: parked_lwps_def started_lwps_def)
  moreover have "runq_count s' = runq_count s" using assms(8) by (simp add: runq_count_def)
  moreover have "parking s' = parking s" using assms(2-6) by (simp add: parking_def)
  ultimately show ?thesis using assms(1-4,7) unfolding counters_def by metis
qed

section \<open>One LWP moves one thread\<close>

text \<open>LWP \<open>l\<close> takes a step from \<open>s\<close> to \<open>s'\<close> in which the thread \<open>u\<close> comes to the place \<open>pu\<close>; all other threads
stay where they are, and those not with \<open>l\<close> keep their fields.\<close>

definition step_of :: "nat \<Rightarrow> (nat \<Rightarrow> mt_place) \<Rightarrow> nat \<Rightarrow> mthreads \<Rightarrow> mthreads \<Rightarrow> bool" where
  "step_of l loc u s s' \<longleftrightarrow>
     (\<forall>k. k \<noteq> l \<longrightarrow> ut_curthr s' k = ut_curthr s k \<and> code s' k = code s k \<and> masked s' k = masked s k \<and>
        lwp_queue s' k = lwp_queue s k \<and> lwp_saveonrq s' k = lwp_saveonrq s k \<and> lwp_pmut s' k = lwp_pmut s k) \<and>
     (\<forall>x. x \<noteq> u \<longrightarrow> loc x \<noteq> On l \<longrightarrow> ut_link s' x = ut_link s x \<and> ut_state s' x = ut_state s x \<and>
        ut_ctx s' x = ut_ctx s x \<and> ut_no_preempt_count s' x = ut_no_preempt_count s x \<and> holds s' x = holds s x) \<and>
     ut_prio s' = ut_prio s"

lemma step_ofD:
  assumes "step_of l loc u s s'"
  shows "k \<noteq> l \<Longrightarrow> ut_curthr s' k = ut_curthr s k" "k \<noteq> l \<Longrightarrow> code s' k = code s k"
    "k \<noteq> l \<Longrightarrow> masked s' k = masked s k" "k \<noteq> l \<Longrightarrow> lwp_queue s' k = lwp_queue s k"
    "k \<noteq> l \<Longrightarrow> lwp_saveonrq s' k = lwp_saveonrq s k" "k \<noteq> l \<Longrightarrow> lwp_pmut s' k = lwp_pmut s k"
    "x \<noteq> u \<Longrightarrow> loc x \<noteq> On l \<Longrightarrow> ut_link s' x = ut_link s x" "x \<noteq> u \<Longrightarrow> loc x \<noteq> On l \<Longrightarrow> ut_state s' x = ut_state s x"
    "x \<noteq> u \<Longrightarrow> loc x \<noteq> On l \<Longrightarrow> ut_ctx s' x = ut_ctx s x"
    "x \<noteq> u \<Longrightarrow> loc x \<noteq> On l \<Longrightarrow> ut_no_preempt_count s' x = ut_no_preempt_count s x"
    "x \<noteq> u \<Longrightarrow> loc x \<noteq> On l \<Longrightarrow> holds s' x = holds s x" "ut_prio s' = ut_prio s"
  using assms unfolding step_of_def by blast+

lemma places_step:
  assumes p: "places N n loc s" and l: "l < N" and st: "step_of l loc u s s'" and u: "u < n"
    and pu: "place_ok N s' u pu" "\<And>k. pu = Waking k \<or> loc u = Waking k \<or> loc u = On k \<or> pu = On k \<Longrightarrow> k = l"
    and here: "\<And>x. x < n \<Longrightarrow> x \<noteq> u \<Longrightarrow> loc x = On l \<Longrightarrow> place_ok N s' x (On l)"
    and lwp: "free_lwp s' l \<or> pu = On l \<or> (\<exists>t<n. t \<noteq> u \<and> loc t = On l)"
    and q: "\<And>q. distinct (tq_waiters s' q)"
      "\<And>q x. x \<in> set (tq_waiters s' q) \<longleftrightarrow> (if x = u then pu = In q else x \<in> set (tq_waiters s q))"
    and w: "\<And>x. x \<in> set (wakes (code s' l)) \<longleftrightarrow> (if x = u then pu = Waking l else x \<in> set (wakes (code s l)))"
  shows "places N n (loc(u := pu)) s'"
proof -
  let ?loc = "loc(u := pu)"
  note sd = step_ofD [OF st]
  have w': "x = u \<and> k = l \<and> pu = Waking l \<or> x \<noteq> u \<and> x \<in> set (wakes (code s k))"
    if k: "k < N" and x: "x \<in> set (wakes (code s' k))" for x k
  proof (cases "k = l")
    case True
    then show ?thesis using w [of x] x by (cases "x = u") simp_all
  next
    case False
    then have x': "x \<in> set (wakes (code s k))" using x sd(2) [of k] by simp
    then have "loc x = Waking k" by (rule placesD(10) [OF p k])
    then show ?thesis using x' pu(2) [of k] False by auto
  qed
  have pl: "place_ok N s' x (?loc x)" if x: "x < n" for x
  proof -
    consider "x = u" | "x \<noteq> u" "loc x = On l" | "x \<noteq> u" "loc x \<noteq> On l" by blast
    then show ?thesis
    proof cases
      case 1
      then show ?thesis using pu(1) by simp
    next
      case 2
      then show ?thesis using here [OF x] by simp
    next
      case 3
      have "place_ok N s' x (loc x)"
      proof (rule place_ok_same [OF placesD(1) [OF p x]])
        show "x \<in> set (wakes (code s' k))" if "loc x = Waking k" "x \<in> set (wakes (code s k))" for k
          using that w [of x] sd(2) [of k] 3(1) by (cases "k = l") auto
      qed (use 3 sd q(2) in auto)
      then show ?thesis using 3(1) by simp
    qed
  qed
  have free: "free_lwp s' k \<or> (\<exists>t<n. ?loc t = On k)" if k: "k < N" for k
  proof (cases "k = l")
    case True
    then show ?thesis using lwp u by auto
  next
    case False
    then have "free_lwp s k \<Longrightarrow> free_lwp s' k" using sd(1-6) [OF False] by (rule_tac free_lwp_same) simp_all
    moreover have "\<exists>t<n. ?loc t = On k" if "t < n" "loc t = On k" for t
    proof -
      have "t \<noteq> u" using pu(2) [of k] that(2) False by auto
      then show ?thesis using that by (intro exI [of _ t]) simp
    qed
    ultimately show ?thesis using placesD(3) [OF p k] by blast
  qed
  have codes: "code s' k = [] \<and> ut_curthr s' k = None" if "N \<le> k" for k
    using placesD(4,5) [OF p that] sd(1,2) [of k] that l by auto
  have inq: "x < n \<and> ?loc x = In q'" if "x \<in> set (tq_waiters s' q')" for x q'
    using that q(2) [of x q'] placesD(7,8) [OF p, of x q'] u by (cases "x = u") auto
  have wk: "x < n \<and> ?loc x = Waking k" if "k < N" "x \<in> set (wakes (code s' k))" for x k
    using w' [OF that] placesD(9,10) [OF p that(1), of x] u by auto
  show ?thesis
    unfolding places_def using pl placesD(2) [OF p] sd(12) free codes q(1) inq wk by simp
qed

lemma owners_step:
  assumes ow: "owners n loc s" and st: "step_of l loc u s s'"
    and u: "u < n \<Longrightarrow> owner_ok s' u pu" and here: "\<And>x. x < n \<Longrightarrow> x \<noteq> u \<Longrightarrow> loc x = On l \<Longrightarrow> owner_ok s' x (On l)"
    and own: "\<And>x m. x < n \<Longrightarrow> x \<noteq> u \<Longrightarrow> loc x \<noteq> On l \<Longrightarrow> m_owner s m = Some x \<Longrightarrow> m_owner s' m = Some x"
      "\<And>x m. x < n \<Longrightarrow> x \<noteq> u \<Longrightarrow> loc x \<noteq> On l \<Longrightarrow> m \<in> waiting s (loc x) \<Longrightarrow> m_owner s' m \<noteq> None"
  shows "owners n (loc(u := pu)) s'"
  unfolding owners_def
proof (intro allI impI)
  fix x assume x: "x < n"
  consider "x = u" | "x \<noteq> u" "loc x = On l" | "x \<noteq> u" "loc x \<noteq> On l" by blast
  then show "owner_ok s' x ((loc(u := pu)) x)"
  proof cases
    case 1
    then show ?thesis using u x by simp
  next
    case 2
    then show ?thesis using here [OF x] by simp
  next
    case 3
    have "owner_ok s x (loc x)" using ow x by (simp add: owners_def)
    then have "owner_ok s' x (loc x)"
      by (rule owner_ok_same) (use 3 step_ofD(2,4,9,11) [OF st] own [OF x 3] in auto)
    then show ?thesis using 3(1) by simp
  qed
qed

text \<open>Only one LWP may change what it has locked.\<close>

lemma locks_step:
  assumes k: "locks N s" and l: "l < N" and st: "step_of l loc u s s'"
    and po: "\<And>p. pthread_owner s' p = Some l \<longleftrightarrow> p \<in> posix_held (lwp_pmut s' l) (code s' l)"
      "\<And>p k. k \<noteq> l \<Longrightarrow> pthread_owner s' p = Some k \<longleftrightarrow> pthread_owner s p = Some k"
  shows "locks N s'"
  unfolding locks_def
proof (intro allI)
  fix p k'
  show "pthread_owner s' p = Some k' \<longleftrightarrow> k' < N \<and> p \<in> posix_held (lwp_pmut s' k') (code s' k')"
    using po(1) [of p] l po(2) [of k' p] locksD [OF k, of p k'] step_ofD(2,6) [OF st, of k'] by (cases "k' = l") auto
qed

section \<open>Frames of a running thread\<close>

lemma user_codes:
  assumes "\<not> lwp_code fs"
  shows "fs \<noteq> lwp_start" "fs \<noteq> [Lwp_start_body]" "fs \<noteq> lwp_switch" "fs \<noteq> [Lwp_unlock, Lwp_search]"
    "fs \<noteq> [Lwp_search]" "fs \<noteq> [Lwp_parked]"
  using assms by (auto simp: lwp_code_def)

lemma mt_okD:
  assumes "mt_ok N n loc s"
  shows "places N n loc s" "locks N s" "owners n loc s" "counters N s"
  using assms by (simp_all add: mt_ok_def)

lemma runningD:
  assumes "running s l t"
  shows "ut_curthr s l = Some t" "\<not> lwp_code (code s l)" "good (code s l)" "ut_no_preempt_count s t = depth (code s l)"
    "masked s l = (0 < depth (code s l))" "will_wait (code s l) \<Longrightarrow> ut_state s t = UT_WAIT"
    "ut_state s t \<in> {UT_ON_CPU, UT_RUNNABLE, UT_WAIT}"
  using assms by (auto simp: running_def Let_def)

lemma running_held:
  assumes "mt_ok N n loc s" "t < n" "loc t = On l" "running s l t"
  shows "pthread_owner s p = Some l \<longleftrightarrow> p \<in> posix_held None (code s l)"
  using locksD [OF mt_okD(2) [OF assms(1)], of p l] on_lwp(1) [OF mt_okD(1) [OF assms(1)] assms(2,3)]
    good_held [OF runningD(3) [OF assms(4)], of "lwp_pmut s l"] by simp

lemma running_owner_ok:
  assumes "owner_ok s t (On l)" "running s l t"
  shows "m \<in> holds s t \<Longrightarrow> m_owner s m = Some t" "m \<in> holds s t \<Longrightarrow> m \<notin> mtxs (code s l)"
    "m \<in> mtx_claims (code s l) \<Longrightarrow> m_owner s m = Some t" "m \<in> waits_for (code s l) \<Longrightarrow> m_owner s m \<noteq> None"
  using assms(1) user_codes(3) [OF runningD(2) [OF assms(2)]] waits_for_not_claimed [of m "code s l"]
  unfolding owner_ok_def by (auto simp: stack_def waiting_def)

lemma user_step:
  assumes ok: "mt_ok N n loc s" and t: "t < n" "loc t = On l" and run: "running s l t"
    and st: "step_of l loc t s s'"
    and same: "tq_waiters s' = tq_waiters s" "ut_link s' = ut_link s" "runq_size s' = runq_size s"
      "lwp_parked_cnt s' = lwp_parked_cnt s" "lwp_cnt s' = lwp_cnt s" "ut_curthr s' l = Some t"
      "tq_size s' = tq_size s" "cond_blocked s' = cond_blocked s" "cond_woken s' = cond_woken s"
    and fs: "code s' l = fs" "good fs" "ut_no_preempt_count s' t = depth fs" "masked s' l = (0 < depth fs)"
      "will_wait fs \<Longrightarrow> ut_state s' t = UT_WAIT" "ut_state s' t \<in> {UT_ON_CPU, UT_RUNNABLE, UT_WAIT}"
      "set (wakes fs) = set (wakes (code s l))"
    and po: "\<And>p. pthread_owner s' p = Some l \<longleftrightarrow> p \<in> posix_held None fs"
      "\<And>p k. k \<noteq> l \<Longrightarrow> pthread_owner s' p = Some k \<longleftrightarrow> pthread_owner s p = Some k"
    and mo: "\<And>m. m \<in> holds s' t \<Longrightarrow> m_owner s' m = Some t \<and> m \<notin> mtxs fs"
      "\<And>m. m \<in> mtx_claims fs \<Longrightarrow> m \<notin> waits_for fs \<Longrightarrow> m_owner s' m = Some t" "\<And>m. m \<in> waits_for fs \<Longrightarrow> m_owner s' m \<noteq> None"
      "\<And>m x. x \<noteq> t \<Longrightarrow> m_owner s m = Some x \<Longrightarrow> m_owner s' m = Some x"
      "\<And>m. m_owner s' m = None \<Longrightarrow> m_owner s m \<noteq> None \<Longrightarrow>
        pthread_owner s (M_pmut m) = Some l \<and> tq_waiters s (M_waiters m) = []"
  shows "mt_ok N n loc s'"
proof -
  note ok' = mt_okD [OF ok] and o = on_lwp [OF mt_okD(1) [OF ok] t]
  note uc = user_codes [OF runningD(2) [OF run]] and uf = user_codes [OF good_user [OF fs(2)]]
  have idem: "loc(t := On l) = loc" using t(2) by auto
  have only: "x \<noteq> t \<Longrightarrow> x < n \<Longrightarrow> loc x \<noteq> On l" for x using on_lwp_unique [OF ok'(1) t] t(2) by metis
  have "running s' l t" using same(6) fs good_user [OF fs(2)] by (simp add: running_def Let_def)
  then have pl: "place_ok N s' t (On l)" using o(1,3) same(2) by (simp add: place_ok_def with_lwp_def)
  have "places N n (loc(t := On l)) s'"
  proof (rule places_step [OF ok'(1) o(1) st t(1) pl])
    show "x \<in> set (tq_waiters s' q) \<longleftrightarrow> (if x = t then On l = In q else x \<in> set (tq_waiters s q))" for q x
      using placesD(8) [OF ok'(1), of t q] t(2) same(1) by auto
    show "x \<in> set (wakes (code s' l)) \<longleftrightarrow> (if x = t then On l = Waking l else x \<in> set (wakes (code s l)))" for x
      using placesD(10) [OF ok'(1) o(1), of t] t(2) fs(1,7) by auto
  qed (use t only placesD(6) [OF ok'(1)] same(1) in auto)
  then have p': "places N n loc s'" unfolding idem .
  have k': "locks N s'"
    by (rule locks_step [OF ok'(2) o(1) st]) (use po fs(1) good_held [OF fs(2), of "lwp_pmut s' l"] in simp_all)
  have "owners n (loc(t := On l)) s'"
  proof (rule owners_step [OF ok'(3) st])
    show "owner_ok s' t (On l)" using mo(1-3) uf(3) fs(1) by (auto simp: owner_ok_def stack_def waiting_def)
    fix x m assume x: "x < n" "x \<noteq> t" "loc x \<noteq> On l"
    show "m_owner s m = Some x \<Longrightarrow> m_owner s' m = Some x" by (rule mo(4) [OF x(2)])
    assume w: "m \<in> waiting s (loc x)"
    show "m_owner s' m \<noteq> None"
    proof
      assume none: "m_owner s' m = None"
      have "pthread_owner s (M_pmut m) = Some l \<and> tq_waiters s (M_waiters m) = []"
        by (rule mo(5) [OF none ownersD(4) [OF ok'(3) x(1) w]])
      then show False
        using waiting_locked [OF ok'(1,2) x(1) w] x(3) placesD(1) [OF ok'(1) x(1)]
        by (auto simp: place_ok_def in_queue_def)
    qed
  qed (use only in auto)
  then have ow': "owners n loc s'" unfolding idem .
  have "code s' x = c \<longleftrightarrow> code s x = c" if "c \<in> {[Lwp_parked], lwp_start, [Lwp_start_body]}" for x c
    using that uc uf fs(1) step_ofD(2) [OF st, of x] by (cases "x = l") auto
  moreover have "queue_sizes s'" using countersD(7) [OF ok'(4)] same(1,7) by (simp add: queue_sizes_def)
  ultimately have "counters N s'" using same by (intro counters_same [OF ok'(4)]) auto
  then show ?thesis using p' k' ow' by (simp add: mt_ok_def)
qed

section \<open>A thread is dequeued to be woken\<close>

lemma handoff_step:
  assumes ok: "mt_ok N n loc s" and t: "t < n" "loc t = On l" and run: "running s l t"
    and q: "tq_waiters s q = u # us" "\<not> (\<exists>i. q = Runq_table i)"
    and s': "s' = s\<lparr>tq_waiters := (tq_waiters s)(q := us), tq_size := (tq_size s)(q := int (length us)),
      ut_link := (ut_link s)(u := False), m_owner := mo, code := (code s)(l := fs)\<rparr>"
    and fs: "\<not> lwp_code fs" "good fs" "\<not> will_wait fs" "waits_for fs = {}" "depth fs = depth (code s l)"
      "posix_held None fs = posix_held None (code s l)" "set (wakes fs) = insert u (set (wakes (code s l)))"
    and mo: "\<And>m. m \<in> holds s t \<Longrightarrow> mo m = Some t \<and> m \<notin> mtxs fs" "\<And>m. m \<in> mtx_claims fs \<Longrightarrow> mo m = Some t"
      "\<And>m t'. t' \<noteq> t \<Longrightarrow> m_owner s m = Some t' \<Longrightarrow> mo m = Some t'"
      "\<And>m. q = M_waiters m \<Longrightarrow> mo m = Some u" "\<And>m. m_owner s m \<noteq> None \<Longrightarrow> mo m \<noteq> None"
  shows "mt_ok N n (loc(u := Waking l)) s'"
proof -
  note ok' = mt_okD [OF ok] and o = on_lwp [OF mt_okD(1) [OF ok] t] and rd = runningD [OF run]
  note uc = user_codes [OF rd(2)] and uf = user_codes [OF fs(1)]
  have u: "u < n" "loc u = In q" using placesD(7,8) [OF ok'(1), of u q] q(1) by simp_all
  then have ut: "u \<noteq> t" using t(2) by auto
  have inq: "in_queue s u q" using placesD(1) [OF ok'(1) u(1)] u(2) by (simp add: place_ok_def)
  have dist: "u \<notin> set us" "distinct us" using placesD(6) [OF ok'(1), of q] q(1) by auto
  have st: "step_of l loc u s s'" unfolding step_of_def s' using ut t(2) by simp
  have only: "x \<noteq> t \<Longrightarrow> x < n \<Longrightarrow> loc x \<noteq> On l" for x using on_lwp_unique [OF ok'(1) t] t(2) by metis
  have "running s' l t" using run fs(1-3,5) by (auto simp: running_def Let_def s')
  then have pt: "place_ok N s' t (On l)" using o(1,3) ut by (simp add: place_ok_def with_lwp_def) (simp add: s')
  have "saved s' u" "ut_state s' u = UT_WAIT" using inq q(2)
    by (auto simp: in_queue_def saved_def Let_def s' split: utqueue.splits)
  then have pu: "place_ok N s' u (Waking l)" using fs(7) o(1) by (simp add: place_ok_def being_woken_def) (simp add: s')
  have "places N n (loc(u := Waking l)) s'"
  proof (rule places_step [OF ok'(1) o(1) st u(1) pu])
    show "k = l" if "Waking l = Waking k \<or> loc u = Waking k \<or> loc u = On k \<or> Waking l = On k" for k
      using that u(2) by auto
    show "place_ok N s' x (On l)" if "x < n" "x \<noteq> u" "loc x = On l" for x
      using only [of x] that pt by (cases "x = t") auto
    show "x \<in> set (tq_waiters s' q') \<longleftrightarrow> (if x = u then Waking l = In q' else x \<in> set (tq_waiters s q'))" for q' x
    proof (cases "q' = q")
      case True
      then show ?thesis using q(1) dist by (auto simp: s')
    next
      case False
      then have "u \<notin> set (tq_waiters s q')" using placesD(8) [OF ok'(1), of u q'] u(2) by auto
      then show ?thesis using False by (auto simp: s')
    qed
    show "x \<in> set (wakes (code s' l)) \<longleftrightarrow> (if x = u then Waking l = Waking l else x \<in> set (wakes (code s l)))" for x
      using fs(7) by (auto simp: s')
    show "distinct (tq_waiters s' q')" for q' using placesD(6) [OF ok'(1), of q'] dist(2) by (simp add: s')
    show "free_lwp s' l \<or> Waking l = On l \<or> (\<exists>t<n. t \<noteq> u \<and> loc t = On l)" using t ut by auto
  qed
  moreover have "locks N s'"
  proof (rule locks_step [OF ok'(2) o(1) st])
    show "pthread_owner s' p = Some l \<longleftrightarrow> p \<in> posix_held (lwp_pmut s' l) (code s' l)" for p
      using running_held [OF ok t run] fs(6) good_held [OF fs(2), of "lwp_pmut s l"] by (simp add: s')
  qed (simp add: s')
  moreover have "owners n (loc(u := Waking l)) s'"
  proof (rule owners_step [OF ok'(3) st])
    have "m_owner s' m = Some u" if c: "m \<in> mtx_claims (ut_ctx s u)" for m
    proof (cases "q = M_waiters m")
      case True
      then show ?thesis using mo(4) by (simp add: s')
    next
      case False
      then have "m_owner s m = Some u" using ownersD(3) [OF ok'(3) u(1), of m] c u(2) by (simp add: waiting_def stack_def)
      then show ?thesis using mo(3) [OF ut] by (simp add: s')
    qed
    then show "owner_ok s' u (Waking l)"
      using ownersD(1,2) [OF ok'(3) u(1)] mo(3) [OF ut] u(2) by (auto simp: owner_ok_def stack_def waiting_def s')
    have "owner_ok s' t (On l)" using mo(1,2) uf(3) fs(4) by (auto simp: owner_ok_def stack_def waiting_def s')
    then show "owner_ok s' x (On l)" if "x < n" "x \<noteq> u" "loc x = On l" for x
      using only [of x] that by (cases "x = t") auto
    fix x m assume x: "x < n" "x \<noteq> u" "loc x \<noteq> On l"
    then have "x \<noteq> t" using t(2) by auto
    then show "m_owner s m = Some x \<Longrightarrow> m_owner s' m = Some x" using mo(3) by (simp add: s')
    show "m \<in> waiting s (loc x) \<Longrightarrow> m_owner s' m \<noteq> None" using ownersD(4) [OF ok'(3) x(1)] mo(5) by (simp add: s')
  qed
  moreover have "counters N s'"
    by (rule counters_same [OF ok'(4)]) (use uc uf q(2) countersD(4) [OF ok'(4)] in \<open>auto simp: s' queue_sizes_def\<close>)
  ultimately show ?thesis by (simp add: mt_ok_def)
qed

section \<open>A thread is woken\<close>

lemma runq_count_upd:
  assumes "i \<le> MT_MAXPRIO" "\<And>j. tq_waiters s' (Runq_table j) = (if j = i then xs else tq_waiters s (Runq_table j))"
  shows "runq_count s' + length (tq_waiters s (Runq_table i)) = runq_count s + length xs"
proof -
  have "runq_count s' = (\<Sum>j\<le>MT_MAXPRIO. if j = i then length xs else length (tq_waiters s (Runq_table j)))"
    unfolding runq_count_def by (rule sum.cong) (simp_all add: assms(2))
  also have "\<dots> = length xs + (\<Sum>j\<in>{..MT_MAXPRIO} - {i}. length (tq_waiters s (Runq_table j)))"
    using assms(1) by (simp add: sum.remove [of _ i])
  finally show ?thesis
    using assms(1) by (simp add: runq_count_def sum.remove [of "{..MT_MAXPRIO}" i "\<lambda>j. length (tq_waiters s (Runq_table j))"])
qed

lemma counters_runq:
  assumes c: "counters N s" and "i \<le> MT_MAXPRIO" "lwp_parked_cnt s' = lwp_parked_cnt s" "lwp_cnt s' = lwp_cnt s"
    and "\<And>j. tq_waiters s' (Runq_table j) = (if j = i then xs else tq_waiters s (Runq_table j))"
    and "runq_size s' + int (length (tq_waiters s (Runq_table i))) = runq_size s + int (length xs)"
    and "\<And>x c. c \<in> {[Lwp_parked], lwp_start, [Lwp_start_body]} \<Longrightarrow> code s' x = c \<longleftrightarrow> code s x = c"
    and "queue_sizes s'" "parking s'"
  shows "counters N s'"
proof -
  have "parked_lwps N s' = parked_lwps N s" "started_lwps N s' = started_lwps N s"
    using assms(7) by (auto simp: parked_lwps_def started_lwps_def)
  moreover have "runq_size s' = int (runq_count s')"
    using runq_count_upd [OF assms(2,5)] assms(6) c unfolding counters_def by linarith
  ultimately show ?thesis using c assms(3,4,8,9) unfolding counters_def by metis
qed

text \<open>What \<open>uthread_runq_enqueue\<close> does to the parked LWPs.\<close>

definition signals :: "mthreads \<Rightarrow> nat" where
  "signals s = (if runq_size s = 0 \<and> 0 < cond_blocked s then 1 else 0)"

lemma signals_ok:
  assumes "counters N s" "lwp_parked_cnt s' = lwp_parked_cnt s" "lwp_cnt s' = lwp_cnt s"
    and "cond_blocked s' = cond_blocked s - signals s" "cond_woken s' = cond_woken s + signals s"
  shows "parking s'"
proof -
  note c = countersD(3,5,6,9) [OF assms(1)]
  have le: "signals s \<le> cond_blocked s" by (simp add: signals_def)
  have "lwp_parked_cnt s = 0 \<or> 0 < cond_woken s + signals s \<or> lwp_parked_cnt s + 2 \<le> lwp_cnt s"
    using c(2,3,4) by (cases "runq_size s = 0") (auto simp: signals_def)
  then show ?thesis using c(1,2) le assms(2-5) by (simp add: parking_def)
qed

lemma runq_enqueue_eq:
  assumes "counters N s" "ut_curthr s l = Some t" "0 < ut_no_preempt_count s t" "ut_state s u = UT_RUNNABLE" "\<not> ut_link s u"
  shows "runq_enqueue l u s = Some (let q = Runq_table (ut_prio s u) in
    s\<lparr>tq_waiters := (tq_waiters s)(q := tq_waiters s q @ [u]), tq_size := (tq_size s)(q := int (length (tq_waiters s q @ [u]))),
      ut_link := (ut_link s)(u := True), runq_size := runq_size s + 1,
      cond_blocked := cond_blocked s - signals s, cond_woken := cond_woken s + signals s\<rparr>)"
  using assms(2-5) countersD(4) [OF assms(1)]
  by (simp add: runq_enqueue_def mt_enqueue_def lwp_release_def signals_def Let_def add.commute)

lemma wake_step:
  assumes ok: "mt_ok N n loc s" and t: "t < n" "loc t = On l" and run: "running s l t"
    and c: "code s l = Wake_body u # fs" and q: "q = Runq_table (ut_prio s u)"
    and s': "s' = s\<lparr>ut_state := (ut_state s)(u := UT_RUNNABLE), tq_waiters := (tq_waiters s)(q := tq_waiters s q @ [u]),
      tq_size := (tq_size s)(q := int (length (tq_waiters s q @ [u]))),
      ut_link := (ut_link s)(u := True), runq_size := runq_size s + 1, cond_blocked := cond_blocked s - signals s,
      cond_woken := cond_woken s + signals s, code := (code s)(l := fs)\<rparr>"
  shows "mt_ok N n (loc(u := In q)) s'"
proof -
  note ok' = mt_okD [OF ok] and o = on_lwp [OF mt_okD(1) [OF ok] t] and rd = runningD [OF run]
  have g: "good fs" "u \<notin> set (wakes fs)" "\<not> will_wait fs" using rd(3) by (simp_all add: c)
  note uc = user_codes [OF rd(2)] and uf = user_codes [OF good_user [OF g(1)]]
  have u: "u < n" "loc u = Waking l" using placesD(9,10) [OF ok'(1) o(1), of u] by (simp_all add: c)
  then have ut: "u \<noteq> t" using t(2) by auto
  have wo: "being_woken s l u" using placesD(1) [OF ok'(1) u(1)] u(2) by (simp add: place_ok_def)
  have nq: "u \<notin> set (tq_waiters s q')" for q' using placesD(8) [OF ok'(1), of u q'] u(2) by auto
  have st: "step_of l loc u s s'" unfolding step_of_def s' using ut t(2) by simp
  have only: "x \<noteq> t \<Longrightarrow> x < n \<Longrightarrow> loc x \<noteq> On l" for x using on_lwp_unique [OF ok'(1) t] t(2) by metis
  have "running s' l t" using run ut g(1,3) good_user [OF g(1)] by (auto simp: running_def Let_def s' c)
  then have pt: "place_ok N s' t (On l)" using o(1,3) ut by (simp add: place_ok_def with_lwp_def) (simp add: s')
  have "saved s' u" using wo by (simp add: being_woken_def saved_def Let_def s')
  then have pu: "place_ok N s' u (In q)" by (simp add: place_ok_def in_queue_def q) (simp add: s' q)
  have "places N n (loc(u := In q)) s'"
  proof (rule places_step [OF ok'(1) o(1) st u(1) pu])
    show "k = l" if "In q = Waking k \<or> loc u = Waking k \<or> loc u = On k \<or> In q = On k" for k
      using that u(2) by auto
    show "place_ok N s' x (On l)" if "x < n" "x \<noteq> u" "loc x = On l" for x
      using only [of x] that pt by (cases "x = t") auto
    show "x \<in> set (tq_waiters s' q') \<longleftrightarrow> (if x = u then In q = In q' else x \<in> set (tq_waiters s q'))" for q' x
      using nq [of q'] by (cases "q' = q") (auto simp: s')
    show "x \<in> set (wakes (code s' l)) \<longleftrightarrow> (if x = u then In q = Waking l else x \<in> set (wakes (code s l)))" for x
      using g(2) by (auto simp: s' c)
    show "distinct (tq_waiters s' q')" for q' using placesD(6) [OF ok'(1), of q'] nq [of q'] by (cases "q' = q") (simp_all add: s')
    show "free_lwp s' l \<or> In q = On l \<or> (\<exists>t<n. t \<noteq> u \<and> loc t = On l)" using t ut by auto
  qed
  moreover have "locks N s'"
  proof (rule locks_step [OF ok'(2) o(1) st])
    show "pthread_owner s' p = Some l \<longleftrightarrow> p \<in> posix_held (lwp_pmut s' l) (code s' l)" for p
      using running_held [OF ok t run] good_held [OF g(1), of "lwp_pmut s l"] by (simp add: s' c)
  qed (simp add: s')
  moreover have "owners n (loc(u := In q)) s'"
  proof (rule owners_step [OF ok'(3) st])
    have "owner_ok s u (Waking l)" using ok'(3) u by (auto simp: owners_def)
    then show "owner_ok s' u (In q)" by (simp add: owner_ok_def stack_def waiting_def s' q)
    have "owner_ok s t (On l)" using ok'(3) t by (auto simp: owners_def)
    then have "owner_ok s' t (On l)" using uf(3) uc(3) waits_for_will_wait [of _ fs] g(3)
      by (auto simp: owner_ok_def stack_def waiting_def s' c)
    then show "owner_ok s' x (On l)" if "x < n" "x \<noteq> u" "loc x = On l" for x
      using only [of x] that by (cases "x = t") auto
  qed (use ownersD(4) [OF ok'(3)] in \<open>simp_all add: s'\<close>)
  moreover have "counters N s'"
  proof (rule counters_runq [OF ok'(4) placesD(2) [OF ok'(1) u(1)], where xs = "tq_waiters s q @ [u]"])
    show "parking s'" by (rule signals_ok [OF ok'(4)]) (simp_all add: s')
    show "queue_sizes s'" using countersD(4) [OF ok'(4)] by (simp add: queue_sizes_def s')
  qed (use uc uf in \<open>auto simp: s' q\<close>)
  ultimately show ?thesis by (simp add: mt_ok_def)
qed

section \<open>A thread is switched out\<close>

lemma leave_step:
  assumes ok: "mt_ok N n loc s" and t: "t < n" "loc t = On l" and run: "running s l t"
    and c: "code s l = Switch_body q b m # fs"
    and s': "s' = s\<lparr>ut_ctx := (ut_ctx s)(t := fs), lwp_queue := (lwp_queue s)(l := q),
       lwp_saveonrq := (lwp_saveonrq s)(l := b), lwp_pmut := (lwp_pmut s)(l := m), code := (code s)(l := lwp_switch)\<rparr>"
  shows "mt_ok N n loc s'"
proof -
  note ok' = mt_okD [OF ok] and o = on_lwp [OF mt_okD(1) [OF ok] t] and rd = runningD [OF run]
  have g: "good fs" "\<not> will_wait fs" "posix_held None fs = {}" "wakes fs = []" "switch_args q b m" "0 < depth fs"
    using rd(3) by (simp_all add: c)
  note uc = user_codes [OF rd(2)]
  have same: "loc(t := On l) = loc" using t(2) by auto
  have st: "step_of l loc t s s'" unfolding step_of_def s' by simp
  have only: "x \<noteq> t \<Longrightarrow> x < n \<Longrightarrow> loc x \<noteq> On l" for x using on_lwp_unique [OF ok'(1) t] t(2) by metis
  have "saved s' t" using rd(4) g by (simp add: saved_def Let_def s' c)
  then have "leaving s' l t" using rd(1,5,6) g(5,6) by (simp add: leaving_def) (simp add: s' c)
  then have pl: "place_ok N s' t (On l)" using o(1,3) by (simp add: place_ok_def with_lwp_def) (simp add: s')
  have ws: "wakes lwp_switch = []" by (simp add: lwp_switch_def)
  have "places N n (loc(t := On l)) s'"
  proof (rule places_step [OF ok'(1) o(1) st t(1) pl])
    show "x \<in> set (tq_waiters s' q) \<longleftrightarrow> (if x = t then On l = In q else x \<in> set (tq_waiters s q))" for q x
      using placesD(8) [OF ok'(1), of t q] t(2) by (auto simp: s')
  qed (use t only placesD(6) [OF ok'(1)] g(4) ws in \<open>auto simp: s' c\<close>)
  then have p': "places N n loc s'" unfolding same .
  have k': "locks N s'"
  proof (rule locks_step [OF ok'(2) o(1) st])
    show "pthread_owner s' p = Some l \<longleftrightarrow> p \<in> posix_held (lwp_pmut s' l) (code s' l)" for p
      using running_held [OF ok t run] by (auto simp: s' c lwp_switch_def)
  qed (simp add: s')
  have "owners n (loc(t := On l)) s'"
  proof (rule owners_step [OF ok'(3) st])
    have ow: "owner_ok s t (On l)" using ok'(3) t by (auto simp: owners_def)
    note ro = running_owner_ok [OF ow run]
    have "m_owner s k = Some t" if "k \<in> mtx_claims fs" "q \<noteq> Some (M_waiters k)" for k
      by (rule ro(3)) (use that in \<open>auto simp: c split: option.splits utqueue.splits\<close>)
    moreover have "m_owner s k \<noteq> None" if "q = Some (M_waiters k)" for k using ro(4) [of k] that by (simp add: c)
    ultimately show "owner_ok s' t (On l)"
      using ro(1,2) by (simp add: owner_ok_def stack_def waiting_def s' c)
  qed (use only ownersD(4) [OF ok'(3)] in \<open>auto simp: s'\<close>)
  then have ow': "owners n loc s'" unfolding same .
  have "counters N s'"
    by (rule counters_same [OF ok'(4)]) (use uc countersD(4) [OF ok'(4)] in \<open>auto simp: s' mt_functions queue_sizes_def\<close>)
  then show ?thesis using p' k' ow' by (simp add: mt_ok_def)
qed

section \<open>An LWP without a thread\<close>

lemma requeue_step:
  assumes ok: "mt_ok N n loc s" and t: "t < n" "loc t = On l" and lv: "leaving s l t"
    and q: "(case lwp_queue s l of Some q0 \<Rightarrow> q = q0 \<and> st = UT_WAIT | None \<Rightarrow> q = Runq_table (ut_prio s t) \<and> st = UT_RUNNABLE)"
    and s': "s' = s\<lparr>ut_state := (ut_state s)(t := st), tq_waiters := (tq_waiters s)(q := tq_waiters s q @ [t]),
      tq_size := (tq_size s)(q := int (length (tq_waiters s q @ [t]))),
      ut_link := (ut_link s)(t := True), runq_size := runq_size s + (if lwp_queue s l = None then 1 else 0),
      cond_blocked := cond_blocked s - (if lwp_queue s l = None then signals s else 0),
      cond_woken := cond_woken s + (if lwp_queue s l = None then signals s else 0),
      code := (code s)(l := [Lwp_unlock, Lwp_search])\<rparr>"
  shows "mt_ok N n (loc(t := In q)) s'"
proof -
  note ok' = mt_okD [OF ok] and o = on_lwp [OF mt_okD(1) [OF ok] t]
  have lv': "code s l = lwp_switch" "masked s l" "saved s t" "switch_args (lwp_queue s l) (lwp_saveonrq s l) (lwp_pmut s l)"
    "lwp_queue s l \<noteq> None \<Longrightarrow> ut_state s t = UT_WAIT" using lv by (auto simp: leaving_def)
  have pm: "lwp_pmut s l \<noteq> Some Runq_mtx" using lv'(4)
    by (cases "(lwp_queue s l, lwp_saveonrq s l, lwp_pmut s l)" rule: switch_args.cases) auto
  have nq: "t \<notin> set (tq_waiters s q')" for q' using placesD(8) [OF ok'(1), of t q'] t(2) by auto
  have st: "step_of l loc t s s'" unfolding step_of_def s' by simp
  have only: "x \<noteq> t \<Longrightarrow> x < n \<Longrightarrow> loc x \<noteq> On l" for x using on_lwp_unique [OF ok'(1) t] t(2) by metis
  have "saved s' t" using lv'(3) by (simp add: saved_def Let_def s')
  then have pu: "place_ok N s' t (In q)" using q lv'(4)
    by (auto simp: place_ok_def in_queue_def s' split: option.splits utqueue.splits)
  have "places N n (loc(t := In q)) s'"
  proof (rule places_step [OF ok'(1) o(1) st t(1) pu])
    show "k = l" if "In q = Waking k \<or> loc t = Waking k \<or> loc t = On k \<or> In q = On k" for k
      using that t(2) by auto
    show "x \<in> set (tq_waiters s' q') \<longleftrightarrow> (if x = t then In q = In q' else x \<in> set (tq_waiters s q'))" for q' x
      using nq [of q'] by (cases "q' = q") (auto simp: s')
    have "wakes (code s l) = []" by (simp add: lv'(1) lwp_switch_def)
    then show "x \<in> set (wakes (code s' l)) \<longleftrightarrow> (if x = t then In q = Waking l else x \<in> set (wakes (code s l)))" for x
      by (simp add: s')
    show "distinct (tq_waiters s' q')" for q' using placesD(6) [OF ok'(1), of q'] nq [of q'] by (cases "q' = q") (simp_all add: s')
    show "free_lwp s' l \<or> In q = On l \<or> (\<exists>x<n. x \<noteq> t \<and> loc x = On l)" using lv'(2) pm by (simp add: free_lwp_def s')
  qed (use only in auto)
  moreover have "locks N s'"
  proof (rule locks_step [OF ok'(2) o(1) st])
    show "pthread_owner s' p = Some l \<longleftrightarrow> p \<in> posix_held (lwp_pmut s' l) (code s' l)" for p
      using locksD [OF ok'(2), of p l] o(1) by (simp add: s' lv'(1) lwp_switch_def)
  qed (simp add: s')
  moreover have "owners n (loc(t := In q)) s'"
  proof (rule owners_step [OF ok'(3) st])
    have "owner_ok s t (On l)" using ok'(3) t by (auto simp: owners_def)
    moreover have "{m. lwp_queue s l = Some (M_waiters m)} = {m. q = M_waiters m}" using q by (auto split: option.splits)
    ultimately show "owner_ok s' t (In q)" by (simp add: owner_ok_def stack_def waiting_def s' lv'(1))
  qed (use only ownersD(4) [OF ok'(3)] in \<open>auto simp: s'\<close>)
  moreover have "counters N s'"
  proof (cases "lwp_queue s l")
    case None
    show ?thesis
    proof (rule counters_runq [OF ok'(4) placesD(2) [OF ok'(1) t(1)], where xs = "tq_waiters s q @ [t]"])
      show "parking s'" by (rule signals_ok [OF ok'(4)]) (simp_all add: s' None)
      show "queue_sizes s'" using countersD(4) [OF ok'(4)] by (simp add: queue_sizes_def s')
    qed (use q None in \<open>auto simp: s' lv'(1) mt_functions\<close>)
  next
    case (Some q0)
    then have "q = q0" "\<not> (\<exists>i. q = Runq_table i)" using q lv'(4) by (auto split: utqueue.splits)
    then show ?thesis using Some
      by (intro counters_same [OF ok'(4)]) (auto simp: s' lv'(1) mt_functions queue_sizes_def countersD(4) [OF ok'(4)])
  qed
  ultimately show ?thesis by (simp add: mt_ok_def)
qed

lemma search_step:
  assumes ok: "mt_ok N n loc s" and l: "l < N" and c: "code s l = [Lwp_search]" and m: "masked s l"
    and q: "tq_waiters s (Runq_table i) = u # us" "i \<le> MT_MAXPRIO"
    and s': "s' = s\<lparr>pthread_owner := (pthread_owner s)(Runq_mtx := None),
      tq_waiters := (tq_waiters s)(Runq_table i := us), tq_size := (tq_size s)(Runq_table i := int (length us)),
      ut_link := (ut_link s)(u := False), ut_curthr := (ut_curthr s)(l := Some u), runq_size := runq_size s - 1,
      ut_state := (ut_state s)(u := UT_ON_CPU), code := (code s)(l := ut_ctx s u)\<rparr>"
  shows "mt_ok N n (loc(u := On l)) s'"
proof -
  note ok' = mt_okD [OF ok]
  let ?q = "Runq_table i"
  have u: "u < n" "loc u = In ?q" using placesD(7,8) [OF ok'(1), of u ?q] q(1) by simp_all
  have inq: "saved s u" using placesD(1) [OF ok'(1) u(1)] u(2) by (simp add: place_ok_def in_queue_def)
  then have sv: "good (ut_ctx s u)" "posix_held None (ut_ctx s u) = {}" "0 < depth (ut_ctx s u)"
    "ut_no_preempt_count s u = depth (ut_ctx s u)" "\<not> will_wait (ut_ctx s u)" "wakes (ut_ctx s u) = []"
    by (simp_all add: saved_def Let_def)
  note uf = user_codes [OF good_user [OF sv(1)]]
  have dist: "u \<notin> set us" "distinct us" using placesD(6) [OF ok'(1), of ?q] q(1) by auto
  have none: "loc x \<noteq> On l" if "x < n" for x
    using on_lwp(2) [OF ok'(1) that, of l] c by (auto simp: with_lwp_def running_def leaving_def lwp_code_def lwp_switch_def Let_def)
  have st: "step_of l loc u s s'" unfolding step_of_def s' by simp
  have "running s' l u" using sv m good_user [OF sv(1)] by (simp add: running_def Let_def s')
  then have pu: "place_ok N s' u (On l)" using l by (simp add: place_ok_def with_lwp_def) (simp add: s')
  have hl: "pthread_owner s p = Some l \<longleftrightarrow> p = Runq_mtx" for p using locksD [OF ok'(2), of p l] l c by simp
  have "places N n (loc(u := On l)) s'"
  proof (rule places_step [OF ok'(1) l st u(1) pu])
    show "k = l" if "On l = Waking k \<or> loc u = Waking k \<or> loc u = On k \<or> On l = On k" for k
      using that u(2) by auto
    show "x \<in> set (tq_waiters s' q') \<longleftrightarrow> (if x = u then On l = In q' else x \<in> set (tq_waiters s q'))" for q' x
    proof (cases "q' = ?q")
      case True
      then show ?thesis using q(1) dist by (auto simp: s')
    next
      case False
      then have "u \<notin> set (tq_waiters s q')" using placesD(8) [OF ok'(1), of u q'] u(2) by auto
      then show ?thesis using False by (auto simp: s')
    qed
    show "x \<in> set (wakes (code s' l)) \<longleftrightarrow> (if x = u then On l = Waking l else x \<in> set (wakes (code s l)))" for x
      using sv(6) by (simp add: s' c)
    show "distinct (tq_waiters s' q')" for q' using placesD(6) [OF ok'(1), of q'] dist(2) by (simp add: s')
  qed (use none in auto)
  moreover have "locks N s'"
  proof (rule locks_step [OF ok'(2) l st])
    show "pthread_owner s' p = Some l \<longleftrightarrow> p \<in> posix_held (lwp_pmut s' l) (code s' l)" for p
      using hl [of p] sv(2) good_held [OF sv(1), of "lwp_pmut s l"] by (simp add: s')
    show "pthread_owner s' p = Some k \<longleftrightarrow> pthread_owner s p = Some k" if "k \<noteq> l" for p k
      using hl [of Runq_mtx] that by (simp add: s')
  qed
  moreover have "owners n (loc(u := On l)) s'"
  proof (rule owners_step [OF ok'(3) st])
    have "owner_ok s u (In ?q)" using ok'(3) u by (auto simp: owners_def)
    then show "owner_ok s' u (On l)" using uf(3) waits_for_will_wait [of _ "ut_ctx s u"] sv(5)
      by (auto simp: owner_ok_def stack_def waiting_def s')
  qed (use none ownersD(4) [OF ok'(3)] in \<open>auto simp: s'\<close>)
  moreover have "counters N s'"
  proof (rule counters_runq [OF ok'(4) q(2), where xs = us])
    show "parking s'" using countersD(8) [OF ok'(4)] by (simp add: parking_def s')
    show "queue_sizes s'" using countersD(4) [OF ok'(4)] by (simp add: queue_sizes_def s')
  qed (use q(1) uf in \<open>auto simp: s' c mt_functions\<close>)
  ultimately show ?thesis by (simp add: mt_ok_def)
qed

lemma free_step:
  assumes ok: "mt_ok N n loc s" and l: "l < N" and f: "free_lwp s l" "free_lwp s' l" and c: "counters N s'"
    and s': "s' = s\<lparr>pthread_owner := po, lwp_parked_cnt := pc, lwp_cnt := lc, cond_blocked := cb, cond_woken := cw,
      code := (code s)(l := fs)\<rparr>"
    and w: "wakes fs = []" "wakes (code s l) = []"
    and po: "\<And>p. po p = Some l \<longleftrightarrow> p \<in> posix_held (lwp_pmut s l) fs"
      "\<And>p k. k \<noteq> l \<Longrightarrow> po p = Some k \<longleftrightarrow> pthread_owner s p = Some k"
  shows "mt_ok N n loc s'"
proof -
  note ok' = mt_okD [OF ok]
  have st: "step_of l loc n s s'" unfolding step_of_def s' by simp
  have none: "loc x \<noteq> On l" if "x < n" for x
    using on_lwp(2,4) [OF ok'(1) that, of l] f(1)
    by (auto simp: free_lwp_def with_lwp_def running_def leaving_def lwp_code_def Let_def lwp_switch_def)
  have pl: "place_ok N s' x (loc x)" if "x < n" for x
    by (rule place_ok_same [OF placesD(1) [OF ok'(1) that]]) (use none [OF that] w in \<open>auto simp: s'\<close>)
  have fr: "free_lwp s' k \<or> (\<exists>t<n. loc t = On k)" if k: "k < N" for k
  proof (cases "k = l")
    case True
    then show ?thesis using f(2) by simp
  next
    case False
    then have "free_lwp s k \<Longrightarrow> free_lwp s' k" by (rule_tac free_lwp_same) (simp_all add: s')
    then show ?thesis using placesD(3) [OF ok'(1) k] by blast
  qed
  have "u < n \<and> loc u = Waking k" if "k < N" "u \<in> set (wakes (code s' k))" for u k
    using that placesD(9,10) [OF ok'(1) that(1), of u] w by (cases "k = l") (auto simp: s')
  moreover have "code s' k = [] \<and> ut_curthr s' k = None" if "N \<le> k" for k
    using placesD(4,5) [OF ok'(1) that] that l by (auto simp: s')
  moreover have "tq_waiters s' = tq_waiters s" "ut_prio s' = ut_prio s" by (simp_all add: s')
  ultimately have "places N n loc s'"
    unfolding places_def using pl fr placesD(2,6,7,8) [OF ok'(1)] by simp
  moreover have "locks N s'"
    by (rule locks_step [OF ok'(2) l st]) (use po in \<open>simp_all add: s'\<close>)
  moreover have "owner_ok s' x (loc x)" if "x < n" for x
  proof -
    have "owner_ok s x (loc x)" using ok'(3) that by (simp add: owners_def)
    then show ?thesis
      by (rule owner_ok_same) (use none [OF that] ownersD(4) [OF ok'(3) that] in \<open>auto simp: s'\<close>)
  qed
  then have "owners n loc s'" by (simp add: owners_def)
  ultimately show ?thesis using c by (simp add: mt_ok_def)
qed

end
