(* ===== verification/MtReach.thy ===== *)
theory MtReach
  imports MtSteps
begin

text \<open>The invariant holds in every reachable state, and the only assertion that can fail is the one in
\<open>lwp_park\<close> that not all LWPs are blocked.\<close>

section \<open>The frame a thread executes\<close>

definition at_frame :: "nat \<Rightarrow> nat \<Rightarrow> (nat \<Rightarrow> mt_place) \<Rightarrow> mthreads \<Rightarrow> nat \<Rightarrow> nat \<Rightarrow> mt_frame \<Rightarrow> mt_frame list \<Rightarrow> bool" where
  "at_frame N n loc s l t f fs \<longleftrightarrow> mt_ok N n loc s \<and> t < n \<and> loc t = On l \<and> running s l t \<and> code s l = f # fs"

lemma at_frameD:
  assumes "at_frame N n loc s l t f fs"
  shows "mt_ok N n loc s" "t < n" "loc t = On l" "running s l t" "code s l = f # fs" "l < N"
    "ut_curthr s l = Some t" "\<not> ut_link s t" "pthread_owner s p = Some l \<longleftrightarrow> p \<in> posix_held None (f # fs)"
proof -
  show a: "mt_ok N n loc s" "t < n" "loc t = On l" "running s l t" "code s l = f # fs"
    using assms by (simp_all add: at_frame_def)
  show "l < N" "ut_curthr s l = Some t" "\<not> ut_link s t" using on_lwp [OF mt_okD(1) [OF a(1)] a(2,3)] by simp_all
  show "pthread_owner s p = Some l \<longleftrightarrow> p \<in> posix_held None (f # fs)" using running_held [OF a(1-4)] a(5) by simp
qed

lemma at_frame_good:
  assumes "at_frame N n loc s l t f fs"
  shows "good (f # fs)" "good fs" "\<not> lwp_code fs" "ut_no_preempt_count s t = depth (f # fs)"
    "masked s l = (0 < depth (f # fs))" "will_wait (f # fs) \<Longrightarrow> ut_state s t = UT_WAIT"
    "ut_state s t \<in> {UT_ON_CPU, UT_RUNNABLE, UT_WAIT}" "f \<noteq> Pthread_lock Runq_mtx \<Longrightarrow> waits_for fs = {}"
proof -
  have r: "running s l t" "code s l = f # fs" using assms by (simp_all add: at_frame_def)
  show g: "good (f # fs)" and "ut_no_preempt_count s t = depth (f # fs)"
    "masked s l = (0 < depth (f # fs))" "will_wait (f # fs) \<Longrightarrow> ut_state s t = UT_WAIT"
    "ut_state s t \<in> {UT_ON_CPU, UT_RUNNABLE, UT_WAIT}"
    using runningD [OF r(1)] r(2) by simp_all
  show "good fs" "\<not> lwp_code fs" using g good_user by auto
  show "waits_for fs = {}" if "f \<noteq> Pthread_lock Runq_mtx"
    using g that waits_for_will_wait [of _ fs] by auto
qed

lemma at_frame_owner:
  assumes a: "at_frame N n loc s l t f fs"
  shows "m \<in> holds s t \<Longrightarrow> m_owner s m = Some t" "m \<in> holds s t \<Longrightarrow> m \<notin> mtxs (f # fs)"
    "m \<in> mtx_claims (f # fs) \<Longrightarrow> m_owner s m = Some t" "m \<in> waits_for (f # fs) \<Longrightarrow> m_owner s m \<noteq> None"
proof -
  have "owner_ok s t (On l)" using mt_okD(3) [OF at_frameD(1) [OF a]] at_frameD(2,3) [OF a] by (auto simp: owners_def)
  note ro = running_owner_ok [OF this at_frameD(4) [OF a]]
  show "m \<in> holds s t \<Longrightarrow> m_owner s m = Some t" by (rule ro(1))
  show "m \<in> holds s t \<Longrightarrow> m \<notin> mtxs (f # fs)" using ro(2) [of m] by (simp only: at_frameD(5) [OF a] not_False_eq_True)
  show "m \<in> mtx_claims (f # fs) \<Longrightarrow> m_owner s m = Some t" using ro(3) [of m] by (simp only: at_frameD(5) [OF a])
  show "m \<in> waits_for (f # fs) \<Longrightarrow> m_owner s m \<noteq> None" using ro(4) [of m] by (simp only: at_frameD(5) [OF a] not_False_eq_True)
qed

definition steps_to :: "nat \<Rightarrow> nat \<Rightarrow> mthreads option \<Rightarrow> bool" where
  "steps_to N n r \<longleftrightarrow> (\<exists>s' loc'. r = Some s' \<and> mt_ok N n loc' s')"

lemma steps_toI: "r = Some s' \<Longrightarrow> mt_ok N n loc' s' \<Longrightarrow> steps_to N n r"
  by (auto simp: steps_to_def)

lemma nopreempt_on_ok:
  assumes a: "at_frame N n loc s l t Nopreempt_on fs"
  shows "steps_to N n (exec l Nopreempt_on fs s)"
proof (rule steps_toI)
  note d = at_frameD [OF a] and g = at_frame_good [OF a] and ow = at_frame_owner [OF a]
  let ?s' = "s\<lparr>code := (code s)(l := fs), masked := (masked s)(l := True),
    ut_no_preempt_count := (ut_no_preempt_count s)(t := ut_no_preempt_count s t + 1)\<rparr>"
  show "exec l Nopreempt_on fs s = Some ?s'" using d(7) by (simp add: nopreempt_on_def)
  show "mt_ok N n loc ?s'"
    by (rule user_step [OF d(1-4), where fs = fs])
      (use g ow d(5,7,9) in \<open>simp_all add: step_of_def\<close>)
qed

lemma mt_nopreempt_off_ok:
  assumes a: "at_frame N n loc s l t Nopreempt_off fs"
  shows "steps_to N n (exec l Nopreempt_off fs s)"
proof (rule steps_toI)
  note d = at_frameD [OF a] and g = at_frame_good [OF a] and ow = at_frame_owner [OF a]
  let ?s' = "s\<lparr>code := (code s)(l := fs), masked := (masked s)(l := 0 < depth fs),
    ut_no_preempt_count := (ut_no_preempt_count s)(t := depth fs)\<rparr>"
  have "masked s = (masked s)(l := True)" using g(5) by (simp add: fun_upd_idem)
  then show "exec l Nopreempt_off fs s = Some ?s'" using d(7) g(4) by (simp add: nopreempt_off_def Let_def)
  show "mt_ok N n loc ?s'"
    by (rule user_step [OF d(1-4), where fs = fs])
      (use g ow d(5,7,9) in \<open>simp_all add: step_of_def\<close>)
qed

lemma pthread_lock_ok:
  assumes a: "at_frame N n loc s l t (Pthread_lock p) fs" and b: "\<not> blocked l (Pthread_lock p) s"
  shows "steps_to N n (exec l (Pthread_lock p) fs s)"
proof (rule steps_toI)
  note d = at_frameD [OF a] and g = at_frame_good [OF a] and ow = at_frame_owner [OF a]
  have free: "pthread_owner s p = None" using b d(9) [of p] by auto
  have in_fs: "p \<in> posix_held None fs" using g(1) by simp
  let ?s' = "s\<lparr>code := (code s)(l := fs), pthread_owner := (pthread_owner s)(p := Some l)\<rparr>"
  show "exec l (Pthread_lock p) fs s = Some ?s'" using free by (simp add: pthread_lock_def)
  show "mt_ok N n loc ?s'"
  proof (rule user_step [OF d(1-4), where fs = fs])
    show "pthread_owner ?s' q = Some l \<longleftrightarrow> q \<in> posix_held None fs" for q using d(9) [of q] in_fs by simp
    show "pthread_owner ?s' q = Some k \<longleftrightarrow> pthread_owner s q = Some k" if "k \<noteq> l" for q k using free that by simp
    show "will_wait fs \<Longrightarrow> ut_state ?s' t = UT_WAIT" using g(1,6) by auto
    show "m \<in> waits_for fs \<Longrightarrow> m_owner ?s' m \<noteq> None" for m using g(8) ow(4) by (cases "p = Runq_mtx") auto
  qed (use g ow d(5,7) in \<open>simp_all add: step_of_def\<close>)
qed

lemma pthread_unlock_ok:
  assumes a: "at_frame N n loc s l t (Pthread_unlock p) fs"
  shows "steps_to N n (exec l (Pthread_unlock p) fs s)"
proof (rule steps_toI)
  note d = at_frameD [OF a] and g = at_frame_good [OF a] and ow = at_frame_owner [OF a]
  have mine: "pthread_owner s p = Some l" using d(9) [of p] by simp
  have out: "p \<notin> posix_held None fs" using g(1) by simp
  let ?s' = "s\<lparr>code := (code s)(l := fs), pthread_owner := (pthread_owner s)(p := None)\<rparr>"
  show "exec l (Pthread_unlock p) fs s = Some ?s'" using mine by (simp add: pthread_unlock_def)
  show "mt_ok N n loc ?s'"
  proof (rule user_step [OF d(1-4), where fs = fs])
    show "pthread_owner ?s' q = Some l \<longleftrightarrow> q \<in> posix_held None fs" for q using d(9) [of q] out by simp
    show "pthread_owner ?s' q = Some k \<longleftrightarrow> pthread_owner s q = Some k" if "k \<noteq> l" for q k using mine that by simp
  qed (use g ow d(5,7) in \<open>simp_all add: step_of_def\<close>)
qed

lemma mtx_lock_body_ok:
  assumes a: "at_frame N n loc s l t (Mtx_lock_body m) fs"
  shows "steps_to N n (exec l (Mtx_lock_body m) fs s)"
proof (cases "m_owner s m")
  case None
  note d = at_frameD [OF a] and g = at_frame_good [OF a] and ow = at_frame_owner [OF a]
  let ?fs = "Pthread_unlock (M_pmut m) # fs"
  let ?s' = "s\<lparr>m_owner := (m_owner s)(m := Some t), holds := (holds s)(t := insert m (holds s t)), code := (code s)(l := ?fs)\<rparr>"
  show ?thesis
  proof (rule steps_toI)
    show "exec l (Mtx_lock_body m) fs s = Some ?s'" using d(7) None by (simp add: mtx_lock_body_def)
    show "mt_ok N n loc ?s'"
    proof (rule user_step [OF d(1-4), where fs = ?fs])
      show "m_owner ?s' k = Some t \<and> k \<notin> mtxs ?fs" if "k \<in> holds ?s' t" for k
        using that ow(1,2) [of k] g(1) by auto
    qed (use g ow d(5,7,9) None in \<open>auto simp: step_of_def split: if_splits\<close>)
  qed
next
  case (Some v)
  note d = at_frameD [OF a] and g = at_frame_good [OF a] and ow = at_frame_owner [OF a]
  let ?fs = "mt_switch (Some (M_waiters m)) False (Some (M_pmut m)) @ Mtx_lock_resume m (ut_state s t) # fs"
  let ?s' = "s\<lparr>ut_state := (ut_state s)(t := UT_WAIT), code := (code s)(l := ?fs)\<rparr>"
  show ?thesis
  proof (rule steps_toI)
    show "exec l (Mtx_lock_body m) fs s = Some ?s'" using d(7) Some by (simp add: mtx_lock_body_def)
    show "mt_ok N n loc ?s'"
      by (rule user_step [OF d(1-4), where fs = ?fs])
        (use g ow d(5,7,9) Some in \<open>auto simp: step_of_def mt_switch_def\<close>)
  qed
qed

lemma mtx_lock_resume_ok:
  assumes a: "at_frame N n loc s l t (Mtx_lock_resume m old) fs"
  shows "steps_to N n (exec l (Mtx_lock_resume m old) fs s)"
proof (rule steps_toI)
  note d = at_frameD [OF a] and g = at_frame_good [OF a] and ow = at_frame_owner [OF a]
  let ?s' = "s\<lparr>holds := (holds s)(t := insert m (holds s t)), code := (code s)(l := fs)\<rparr>"
  show "exec l (Mtx_lock_resume m old) fs s = Some ?s'" using d(7,8) g(1) by (simp add: mtx_lock_resume_def)
  show "mt_ok N n loc ?s'"
  proof (rule user_step [OF d(1-4), where fs = fs])
    show "m_owner ?s' k = Some t \<and> k \<notin> mtxs fs" if "k \<in> holds ?s' t" for k
      using that ow(1-3) [of k] g(1) by auto
  qed (use g ow d(5,7,9) in \<open>auto simp: step_of_def\<close>)
qed

lemma mtx_trylock_body_ok:
  assumes a: "at_frame N n loc s l t (Mtx_trylock_body m) fs"
  shows "steps_to N n (exec l (Mtx_trylock_body m) fs s)"
proof (cases "m_owner s m")
  case None
  note d = at_frameD [OF a] and g = at_frame_good [OF a] and ow = at_frame_owner [OF a]
  let ?s' = "s\<lparr>m_owner := (m_owner s)(m := Some t), holds := (holds s)(t := insert m (holds s t)), code := (code s)(l := fs)\<rparr>"
  show ?thesis
  proof (rule steps_toI)
    show "exec l (Mtx_trylock_body m) fs s = Some ?s'" using d(7) None by (simp add: mtx_trylock_body_def)
    show "mt_ok N n loc ?s'"
    proof (rule user_step [OF d(1-4), where fs = fs])
      show "m_owner ?s' k = Some t \<and> k \<notin> mtxs fs" if "k \<in> holds ?s' t" for k
        using that ow(1,2) [of k] g(1) by auto
    qed (use g ow d(5,7,9) None in \<open>auto simp: step_of_def split: if_splits\<close>)
  qed
next
  case (Some v)
  note d = at_frameD [OF a] and g = at_frame_good [OF a] and ow = at_frame_owner [OF a]
  show ?thesis
  proof (rule steps_toI)
    show "exec l (Mtx_trylock_body m) fs s = Some (set_code l fs s)" using d(7) Some by (simp add: mtx_trylock_body_def)
    show "mt_ok N n loc (set_code l fs s)"
      by (rule user_step [OF d(1-4), where fs = fs]) (use g ow d(5,7,9) in \<open>auto simp: step_of_def\<close>)
  qed
qed

lemma set_wait_ok:
  assumes a: "at_frame N n loc s l t Set_wait fs"
  shows "steps_to N n (exec l Set_wait fs s)"
proof (rule steps_toI)
  note d = at_frameD [OF a] and g = at_frame_good [OF a] and ow = at_frame_owner [OF a]
  let ?s' = "s\<lparr>ut_state := (ut_state s)(t := UT_WAIT), code := (code s)(l := fs)\<rparr>"
  show "exec l Set_wait fs s = Some ?s'" using d(7) by simp
  show "mt_ok N n loc ?s'"
    by (rule user_step [OF d(1-4), where fs = fs]) (use g ow d(5,7,9) in \<open>simp_all add: step_of_def\<close>)
qed

lemma goes_on:
  assumes a: "at_frame N n loc s l t f fs" and e: "exec l f fs s = Some (set_code l fs' s)"
    and g': "good fs'" "depth fs' = depth (f # fs)" "\<not> will_wait fs'" "waits_for fs' = {}"
      "set (wakes fs') = set (wakes (f # fs))" "posix_held None fs' = posix_held None (f # fs)"
      "mtx_claims fs' \<subseteq> mtx_claims (f # fs)" "mtxs fs' \<subseteq> mtxs (f # fs)"
  shows "steps_to N n (exec l f fs s)"
proof (rule steps_toI [OF e])
  note d = at_frameD [OF a] and g = at_frame_good [OF a] and ow = at_frame_owner [OF a]
  show "mt_ok N n loc (set_code l fs' s)"
  proof (rule user_step [OF d(1-4), where fs = fs'])
    show "m_owner (set_code l fs' s) m = Some t \<and> m \<notin> mtxs fs'" if "m \<in> holds (set_code l fs' s) t" for m
      using ow(1,2) [of m] that g'(8) by auto
    show "m_owner (set_code l fs' s) m = Some t" if "m \<in> mtx_claims fs'" for m using ow(3) [of m] that g'(7) by auto
  qed (use g(4,5,7) g' d(5,7,9) in \<open>simp_all add: step_of_def\<close>)
qed

lemma check_unlinked_ok:
  assumes a: "at_frame N n loc s l t Check_unlinked fs"
  shows "steps_to N n (exec l Check_unlinked fs s)"
  by (rule goes_on [OF a, where fs' = fs]) (use at_frameD(7,8) [OF a] at_frame_good(1,8) [OF a] in simp_all)

lemma wake_check_ok:
  assumes a: "at_frame N n loc s l t (Wake_check u) fs"
  shows "steps_to N n (exec l (Wake_check u) fs s)"
proof -
  note d = at_frameD [OF a] and g = at_frame_good [OF a]
  have u: "u \<in> set (wakes (code s l))" using g(1) by (simp add: d(5))
  note p = mt_okD(1) [OF d(1)]
  have "being_woken s l u" using placesD(1) [OF p, of u] placesD(9,10) [OF p d(6) u] by (simp add: place_ok_def)
  then have "ut_state s u \<noteq> UT_NO_STATE" by (simp add: being_woken_def)
  then show ?thesis by (intro goes_on [OF a, where fs' = fs]) (use g(1,8) in simp_all)
qed

lemma yield_body_ok:
  assumes a: "at_frame N n loc s l t Yield_body fs"
  shows "steps_to N n (exec l Yield_body fs s)"
proof (rule steps_toI)
  note d = at_frameD [OF a] and g = at_frame_good [OF a] and ow = at_frame_owner [OF a]
  let ?fs = "Pthread_lock (Ut_pmut t) # mt_switch None True (Some (Ut_pmut t)) @ fs"
  let ?s' = "s\<lparr>ut_state := (ut_state s)(t := UT_RUNNABLE), code := (code s)(l := ?fs)\<rparr>"
  show "exec l Yield_body fs s = Some ?s'" using d(7,8) by (simp add: yield_body_def)
  show "mt_ok N n loc ?s'"
    by (rule user_step [OF d(1-4), where fs = ?fs]) (use g ow d(5,7,9) in \<open>auto simp: step_of_def mt_switch_def\<close>)
qed

text \<open>The frames that dequeue a thread.\<close>

lemma good_wake:
  assumes "good fs" "0 < depth fs" "Runq_mtx \<notin> posix_held None fs" "u \<notin> set (wakes fs)" "\<not> will_wait fs"
  shows "good (mt_wake u @ fs)" "depth (mt_wake u @ fs) = depth fs" "posix_held None (mt_wake u @ fs) = posix_held None fs"
    "wakes (mt_wake u @ fs) = u # wakes fs" "mtx_claims (mt_wake u @ fs) = mtx_claims fs" "mtxs (mt_wake u @ fs) = mtxs fs"
    "\<not> will_wait (mt_wake u @ fs)"
proof -
  have "\<forall>q\<in>posix_held None fs. 0 < rank q" using assms(3) by (metis gr0I posix_mutex.exhaust rank.simps(2-4) zero_neq_numeral zero_neq_one)
  then show "good (mt_wake u @ fs)" using assms by (simp add: mt_wake_def)
qed (use assms in \<open>auto simp: mt_wake_def\<close>)

lemma queued_not_woken:
  assumes "places N n loc s" "tq_waiters s q = u # us" "l < N"
  shows "u \<notin> set (wakes (code s l))"
  using placesD(8) [OF assms(1), of u q] placesD(10) [OF assms(1,3), of u] assms(2) by auto

text \<open>The queues are as long as their sizes say, so no assertion of theirs fails.\<close>

lemma queue_empty_eq:
  assumes "counters N s"
  shows "mt_queue_empty q s = Some (tq_waiters s q = [])"
  using countersD(4) [OF assms, of q] by (simp add: mt_queue_empty_def)

lemma mt_dequeue_eq:
  assumes "counters N s" "tq_waiters s q = u # us"
  shows "mt_dequeue q s = Some (Some u, s\<lparr>tq_waiters := (tq_waiters s)(q := us), tq_size := (tq_size s)(q := int (length us)),
    ut_link := (ut_link s)(u := False)\<rparr>)"
  using countersD(4) [OF assms(1), of q] assms(2) by (simp add: mt_dequeue_def mt_queue_empty_def)

lemma mt_dequeue_empty:
  assumes "counters N s" "tq_waiters s q = []"
  shows "mt_dequeue q s = Some (None, s)"
  using queue_empty_eq [OF assms(1), of q] assms(2) by (simp add: mt_dequeue_def)

lemma mtx_unlock_body_ok:
  assumes a: "at_frame N n loc s l t (Mtx_unlock_body m) fs"
  shows "steps_to N n (exec l (Mtx_unlock_body m) fs s)"
proof (cases "tq_waiters s (M_waiters m)")
  case Nil
  note d = at_frameD [OF a] and g = at_frame_good [OF a] and ow = at_frame_owner [OF a]
  let ?fs = "Pthread_unlock (M_pmut m) # fs"
  let ?s' = "s\<lparr>m_owner := (m_owner s)(m := None), code := (code s)(l := ?fs)\<rparr>"
  have mine: "m_owner s m = Some t" "pthread_owner s (M_pmut m) = Some l" using ow(3) [of m] d(9) [of "M_pmut m"] by simp_all
  show ?thesis
  proof (rule steps_toI)
    show "exec l (Mtx_unlock_body m) fs s = Some ?s'"
      using Nil queue_empty_eq [OF mt_okD(4) [OF d(1)]] by (simp add: mtx_unlock_body_def)
    show "mt_ok N n loc ?s'"
    proof (rule user_step [OF d(1-4), where fs = ?fs])
      show "m_owner ?s' k = Some t \<and> k \<notin> mtxs ?fs" if "k \<in> holds ?s' t" for k
        using that ow(1,2) [of k] by auto
      show "m_owner ?s' k = Some t" if "k \<in> mtx_claims ?fs" for k using that ow(3) [of k] g(1) by auto
      show "m_owner ?s' k = Some x" if "x \<noteq> t" "m_owner s k = Some x" for k x using that mine by auto
      show "pthread_owner s (M_pmut k) = Some l \<and> tq_waiters s (M_waiters k) = []"
        if "m_owner ?s' k = None" "m_owner s k \<noteq> None" for k using that mine(2) Nil by (auto split: if_splits)
    qed (use g d(5,7,9) in \<open>auto simp: step_of_def\<close>)
  qed
next
  case (Cons u us)
  note d = at_frameD [OF a] and g = at_frame_good [OF a] and ow = at_frame_owner [OF a]
  let ?fs = "Pthread_unlock (M_pmut m) # mt_wake u @ fs"
  let ?s' = "s\<lparr>tq_waiters := (tq_waiters s)(M_waiters m := us), tq_size := (tq_size s)(M_waiters m := int (length us)), ut_link := (ut_link s)(u := False),
    m_owner := (m_owner s)(m := Some u), code := (code s)(l := ?fs)\<rparr>"
  have mine: "m_owner s m = Some t" using ow(3) [of m] by simp
  have "u \<notin> set (wakes fs)" using queued_not_woken [OF mt_okD(1) [OF d(1)] Cons d(6)] by (simp add: d(5))
  then have w: "good (mt_wake u @ fs)" "depth (mt_wake u @ fs) = depth fs" "posix_held None (mt_wake u @ fs) = posix_held None fs"
    "wakes (mt_wake u @ fs) = u # wakes fs" "mtx_claims (mt_wake u @ fs) = mtx_claims fs" "mtxs (mt_wake u @ fs) = mtxs fs"
    "\<not> will_wait (mt_wake u @ fs)"
    using good_wake [of fs u] g(1,2) by simp_all
  show ?thesis
  proof (rule steps_toI)
    show "exec l (Mtx_unlock_body m) fs s = Some ?s'"
      using Cons queue_empty_eq [OF mt_okD(4) [OF d(1)]] mt_dequeue_eq [OF mt_okD(4) [OF d(1)] Cons]
      by (simp add: mtx_unlock_body_def)
    show "mt_ok N n (loc(u := Waking l)) ?s'"
    proof (rule handoff_step [OF d(1-4) Cons, where mo = "(m_owner s)(m := Some u)" and fs = ?fs])
      show "((m_owner s)(m := Some u)) k = Some t \<and> k \<notin> mtxs ?fs" if "k \<in> holds s t" for k
        using that ow(1,2) [of k] w(6) by auto
      show "((m_owner s)(m := Some u)) k = Some t" if "k \<in> mtx_claims ?fs" for k using that ow(3) [of k] w(5) g(1) by auto
      show "((m_owner s)(m := Some u)) k = Some x" if "x \<noteq> t" "m_owner s k = Some x" for k x using that mine by auto
      show "\<not> lwp_code ?fs" by (simp add: lwp_code_def mt_functions)
    qed (use g(1) w d(5) in \<open>auto simp: mt_wake_def\<close>)
  qed
qed

lemma cond_dequeue_ok:
  assumes a: "at_frame N n loc s l t f fs" and c: "tq_waiters s (Uc_waiters c) = u # us"
    and e: "exec l f fs s = Some (set_code l fs' (s\<lparr>tq_waiters := (tq_waiters s)(Uc_waiters c := us), tq_size := (tq_size s)(Uc_waiters c := int (length us)), ut_link := (ut_link s)(u := False)\<rparr>))"
    and g': "good fs'" "depth fs' = depth (f # fs)" "\<not> will_wait fs'" "waits_for fs' = {}"
      "set (wakes fs') = insert u (set (wakes (f # fs)))" "posix_held None fs' = posix_held None (f # fs)"
      "mtx_claims fs' \<subseteq> mtx_claims (f # fs)" "mtxs fs' \<subseteq> mtxs (f # fs)"
  shows "steps_to N n (exec l f fs s)"
proof (rule steps_toI [OF e])
  note d = at_frameD [OF a] and ow = at_frame_owner [OF a]
  have s': "set_code l fs' (s\<lparr>tq_waiters := (tq_waiters s)(Uc_waiters c := us), tq_size := (tq_size s)(Uc_waiters c := int (length us)), ut_link := (ut_link s)(u := False)\<rparr>) =
    s\<lparr>tq_waiters := (tq_waiters s)(Uc_waiters c := us), tq_size := (tq_size s)(Uc_waiters c := int (length us)), ut_link := (ut_link s)(u := False), m_owner := m_owner s,
      code := (code s)(l := fs')\<rparr>" by simp
  show "mt_ok N n (loc(u := Waking l)) (set_code l fs' (s\<lparr>tq_waiters := (tq_waiters s)(Uc_waiters c := us), tq_size := (tq_size s)(Uc_waiters c := int (length us)), ut_link := (ut_link s)(u := False)\<rparr>))"
  proof (rule handoff_step [OF d(1-4) c _ s'])
    show "m_owner s k = Some t \<and> k \<notin> mtxs fs'" if "k \<in> holds s t" for k using that ow(1,2) [of k] g'(8) by auto
    show "m_owner s k = Some t" if "k \<in> mtx_claims fs'" for k using that ow(3) [of k] g'(7) by auto
  qed (use g' good_user d(5) in auto)
qed

lemma cond_signal_body_ok:
  assumes a: "at_frame N n loc s l t (Cond_signal_body c) fs"
  shows "steps_to N n (exec l (Cond_signal_body c) fs s)"
proof (cases "tq_waiters s (Uc_waiters c)")
  case Nil
  then show ?thesis
    by (intro goes_on [OF a, where fs' = "Pthread_unlock (C_pmut c) # fs"])
      (use at_frame_good(1) [OF a] mt_dequeue_empty [OF mt_okD(4) [OF at_frameD(1) [OF a]] Nil] in \<open>simp_all add: cond_signal_body_def\<close>)
next
  case (Cons u us)
  note d = at_frameD [OF a] and g = at_frame_good [OF a]
  have "u \<notin> set (wakes fs)" using queued_not_woken [OF mt_okD(1) [OF d(1)] Cons d(6)] by (simp add: d(5))
  note w = good_wake [OF g(2) _ _ this]
  show ?thesis
    by (rule cond_dequeue_ok [OF a Cons, where fs' = "Pthread_unlock (C_pmut c) # mt_wake u @ fs"])
      (use g(1) w Cons queue_empty_eq [OF mt_okD(4) [OF d(1)]] mt_dequeue_eq [OF mt_okD(4) [OF d(1)] Cons]
        in \<open>simp_all add: cond_signal_body_def\<close>)
qed

lemma cond_broadcast_body_ok:
  assumes a: "at_frame N n loc s l t (Cond_broadcast_body c) fs"
  shows "steps_to N n (exec l (Cond_broadcast_body c) fs s)"
proof (cases "tq_waiters s (Uc_waiters c)")
  case Nil
  then show ?thesis
    by (intro goes_on [OF a, where fs' = "Pthread_unlock (C_pmut c) # fs"])
      (use at_frame_good(1) [OF a] queue_empty_eq [OF mt_okD(4) [OF at_frameD(1) [OF a]]] Nil in \<open>simp_all add: cond_broadcast_body_def\<close>)
next
  case (Cons u us)
  note d = at_frameD [OF a] and g = at_frame_good [OF a]
  let ?gs = "Pthread_lock (C_pmut c) # Cond_broadcast_body c # fs"
  have "u \<notin> set (wakes fs)" using queued_not_woken [OF mt_okD(1) [OF d(1)] Cons d(6)] by (simp add: d(5))
  moreover have "good ?gs" using g(1) by simp
  ultimately have w: "good (mt_wake u @ ?gs)" "depth (mt_wake u @ ?gs) = depth ?gs" "posix_held None (mt_wake u @ ?gs) = posix_held None ?gs"
    "wakes (mt_wake u @ ?gs) = u # wakes ?gs" "mtx_claims (mt_wake u @ ?gs) = mtx_claims ?gs" "mtxs (mt_wake u @ ?gs) = mtxs ?gs"
    "\<not> will_wait (mt_wake u @ ?gs)"
    using good_wake [of ?gs u] g(1) by simp_all
  show ?thesis
    by (rule cond_dequeue_ok [OF a Cons, where fs' = "Pthread_unlock (C_pmut c) # mt_wake u @ ?gs"])
      (use g(1) w Cons queue_empty_eq [OF mt_okD(4) [OF d(1)]] mt_dequeue_eq [OF mt_okD(4) [OF d(1)] Cons]
        in \<open>simp_all add: cond_broadcast_body_def\<close>)
qed

lemma counters_code:
  assumes "counters N s" "code s l = lwp_switch" "fs = [Lwp_unlock, Lwp_search]"
  shows "counters N (set_code l fs s)"
  by (rule counters_same [OF assms(1)]) (use assms countersD(4) [OF assms(1)] in \<open>auto simp: queue_sizes_def mt_functions\<close>)

lemma counters_state:
  assumes "counters N s"
  shows "counters N (set_state u x s)"
  by (rule counters_same [OF assms]) (use countersD(4) [OF assms] in \<open>auto simp: queue_sizes_def\<close>)

lemma wake_body_ok:
  assumes a: "at_frame N n loc s l t (Wake_body u) fs"
  shows "steps_to N n (exec l (Wake_body u) fs s)"
proof (rule steps_toI)
  note d = at_frameD [OF a] and g = at_frame_good [OF a]
  have u: "u \<in> set (wakes (code s l))" by (simp add: d(5))
  note p = mt_okD(1) [OF d(1)]
  have wo: "being_woken s l u" using placesD(1) [OF p, of u] placesD(9,10) [OF p d(6) u] by (simp add: place_ok_def)
  let ?q = "Runq_table (ut_prio s u)"
  let ?s' = "s\<lparr>ut_state := (ut_state s)(u := UT_RUNNABLE), tq_waiters := (tq_waiters s)(?q := tq_waiters s ?q @ [u]),
      tq_size := (tq_size s)(?q := int (length (tq_waiters s ?q @ [u]))),
      ut_link := (ut_link s)(u := True), runq_size := runq_size s + 1, cond_blocked := cond_blocked s - signals s,
      cond_woken := cond_woken s + signals s, code := (code s)(l := fs)\<rparr>"
  have "counters N (set_state u UT_RUNNABLE s)" using mt_okD(4) [OF d(1)] by (rule counters_state)
  from runq_enqueue_eq [OF this, of l t u] show "exec l (Wake_body u) fs s = Some ?s'"
    using wo g(1,4,5) d(7) by (simp add: wake_body_def being_woken_def Let_def signals_def)
  show "mt_ok N n (loc(u := In ?q)) ?s'" by (rule wake_step [OF d(1-5) refl refl])
qed

lemma switch_body_ok:
  assumes a: "at_frame N n loc s l t (Switch_body q b m) fs"
  shows "steps_to N n (exec l (Switch_body q b m) fs s)"
proof (rule steps_toI)
  note d = at_frameD [OF a] and g = at_frame_good [OF a]
  let ?s' = "s\<lparr>ut_ctx := (ut_ctx s)(t := fs), lwp_queue := (lwp_queue s)(l := q),
       lwp_saveonrq := (lwp_saveonrq s)(l := b), lwp_pmut := (lwp_pmut s)(l := m), code := (code s)(l := lwp_switch)\<rparr>"
  show "exec l (Switch_body q b m) fs s = Some ?s'" using d(7) g(1,5) by (simp add: switch_body_def)
  show "mt_ok N n loc ?s'" by (rule leave_step [OF d(1-5) refl])
qed

section \<open>The frames of an LWP\<close>

lemma counters_lwps:
  assumes "counters N s" "runq_size s' = runq_size s" "tq_waiters s' = tq_waiters s" "tq_size s' = tq_size s"
    and "lwp_parked_cnt s' = card (parked_lwps N s')" "lwp_cnt s' = card (started_lwps N s')" "parking s'"
  shows "counters N s'"
proof -
  have "runq_count s' = runq_count s" "queue_sizes s' = queue_sizes s" using assms(3,4) by (simp_all add: runq_count_def queue_sizes_def)
  then show ?thesis using assms unfolding counters_def by metis
qed

lemma finite_lwps [simp]: "finite (parked_lwps N s)" "finite (started_lwps N s)"
  by (simp_all add: parked_lwps_def started_lwps_def)

lemma free_owner:
  assumes "mt_ok N n loc s" "l < N"
  shows "pthread_owner s p = Some l \<longleftrightarrow> p \<in> posix_held (lwp_pmut s l) (code s l)"
  using locksD [OF mt_okD(2) [OF assms(1)], of p l] assms(2) by simp

lemma lwp_start_ok:
  assumes ok: "mt_ok N n loc s" and l: "l < N" and f: "free_lwp s l" and c: "code s l = lwp_start"
    and b: "\<not> blocked l (Pthread_lock Runq_mtx) s"
  shows "steps_to N n (exec l (Pthread_lock Runq_mtx) [Lwp_start_body] s)"
proof (rule steps_toI)
  have fr: "pthread_owner s Runq_mtx = None" using b free_owner [OF ok l, of Runq_mtx] by (auto simp: c lwp_start_def)
  let ?s' = "s\<lparr>code := (code s)(l := [Lwp_start_body]), pthread_owner := (pthread_owner s)(Runq_mtx := Some l)\<rparr>"
  have s': "?s' = s\<lparr>pthread_owner := (pthread_owner s)(Runq_mtx := Some l), lwp_parked_cnt := lwp_parked_cnt s, lwp_cnt := lwp_cnt s,
    cond_blocked := cond_blocked s, cond_woken := cond_woken s, code := (code s)(l := [Lwp_start_body])\<rparr>" by simp
  show "exec l (Pthread_lock Runq_mtx) [Lwp_start_body] s = Some ?s'" using fr by (simp add: pthread_lock_def)
  have "parked_lwps N ?s' = parked_lwps N s" "started_lwps N ?s' = started_lwps N s"
    using c by (auto simp: parked_lwps_def started_lwps_def lwp_start_def)
  then have cs: "counters N ?s'" using countersD(1,2,8) [OF mt_okD(4) [OF ok]]
    by (intro counters_lwps [OF mt_okD(4) [OF ok]]) (simp_all add: parking_def)
  show "mt_ok N n loc ?s'"
  proof (rule free_step [OF ok l f _ cs s'])
    show "free_lwp ?s' l" using f c by (auto simp: free_lwp_def mt_functions)
    show "((pthread_owner s)(Runq_mtx := Some l)) p = Some l \<longleftrightarrow> p \<in> posix_held (lwp_pmut s l) [Lwp_start_body]" for p
      using free_owner [OF ok l, of p] by (simp add: c lwp_start_def)
    show "((pthread_owner s)(Runq_mtx := Some l)) p = Some k \<longleftrightarrow> pthread_owner s p = Some k" if "k \<noteq> l" for p k
      using that fr by simp
  qed (simp_all add: c lwp_start_def)
qed

lemma lwp_start_body_ok:
  assumes ok: "mt_ok N n loc s" and l: "l < N" and f: "free_lwp s l" and c: "code s l = [Lwp_start_body]"
  shows "steps_to N n (exec l Lwp_start_body [] s)"
proof (rule steps_toI)
  let ?s' = "s\<lparr>lwp_cnt := lwp_cnt s + 1, code := (code s)(l := lwp_switch)\<rparr>"
  have s': "?s' = s\<lparr>pthread_owner := pthread_owner s, lwp_parked_cnt := lwp_parked_cnt s, lwp_cnt := lwp_cnt s + 1,
    cond_blocked := cond_blocked s, cond_woken := cond_woken s, code := (code s)(l := lwp_switch)\<rparr>" by simp
  show "exec l Lwp_start_body [] s = Some ?s'" by (simp add: lwp_start_body_def)
  have n: "lwp_switch \<noteq> [Lwp_start_body]" "lwp_switch \<noteq> lwp_start" "lwp_switch \<noteq> [Lwp_parked]" by (simp_all add: mt_functions)
  have "parked_lwps N ?s' = parked_lwps N s" using c n by (auto simp: parked_lwps_def)
  moreover have "started_lwps N ?s' = insert l (started_lwps N s)" "l \<notin> started_lwps N s"
    using c n l by (auto simp: started_lwps_def)
  ultimately have cs: "counters N ?s'" using countersD(1,2,8) [OF mt_okD(4) [OF ok]]
    by (intro counters_lwps [OF mt_okD(4) [OF ok]]) (auto simp: parking_def)
  show "mt_ok N n loc ?s'"
  proof (rule free_step [OF ok l f _ cs s'])
    show "free_lwp ?s' l" using f c by (auto simp: free_lwp_def mt_functions)
    have "lwp_pmut s l = None" using f c by (auto simp: free_lwp_def)
    then show "pthread_owner s p = Some l \<longleftrightarrow> p \<in> posix_held (lwp_pmut s l) lwp_switch" for p
      using free_owner [OF ok l, of p] by (simp add: c lwp_switch_def)
  qed (simp_all add: c lwp_switch_def)
qed

lemma lwp_goes_on:
  assumes ok: "mt_ok N n loc s" and l: "l < N" and f: "free_lwp s l" and c: "code s l \<in> {lwp_switch, [Lwp_unlock, Lwp_search]}"
    and s': "s' = s\<lparr>pthread_owner := po, code := (code s)(l := fs)\<rparr>" and f': "free_lwp s' l"
    and fs: "fs \<in> {[Lwp_unlock, Lwp_search], [Lwp_search]}"
    and po: "\<And>p. po p = Some l \<longleftrightarrow> p \<in> posix_held (lwp_pmut s l) fs"
      "\<And>p k. k \<noteq> l \<Longrightarrow> po p = Some k \<longleftrightarrow> pthread_owner s p = Some k"
  shows "mt_ok N n loc s'"
proof -
  have s2: "s' = s\<lparr>pthread_owner := po, lwp_parked_cnt := lwp_parked_cnt s, lwp_cnt := lwp_cnt s,
      cond_blocked := cond_blocked s, cond_woken := cond_woken s, code := (code s)(l := fs)\<rparr>"
    by (simp add: s')
  have "counters N s'"
    by (rule counters_same [OF mt_okD(4) [OF ok]])
      (use c fs countersD(4) [OF mt_okD(4) [OF ok]] in \<open>auto simp: s' mt_functions queue_sizes_def\<close>)
  then show ?thesis
    by (rule free_step [OF ok l f f' _ s2 _ _ po]) (use c fs in \<open>auto simp: lwp_switch_def\<close>)
qed

lemma lwp_requeue_free_ok:
  assumes ok: "mt_ok N n loc s" and l: "l < N" and f: "free_lwp s l" and c: "code s l = lwp_switch"
  shows "steps_to N n (exec l Lwp_requeue [Lwp_unlock, Lwp_search] s)"
proof (rule steps_toI)
  have e: "lwp_queue s l = None" "\<not> lwp_saveonrq s l" "lwp_pmut s l = None" "masked s l"
    using f c by (auto simp: free_lwp_def mt_functions)
  show "exec l Lwp_requeue [Lwp_unlock, Lwp_search] s = Some (set_code l [Lwp_unlock, Lwp_search] s)"
    using e by (simp add: lwp_requeue_def)
  show "mt_ok N n loc (set_code l [Lwp_unlock, Lwp_search] s)"
  proof (rule lwp_goes_on [OF ok l f, where po = "pthread_owner s"])
    show "pthread_owner s p = Some l \<longleftrightarrow> p \<in> posix_held (lwp_pmut s l) [Lwp_unlock, Lwp_search]" for p
      using free_owner [OF ok l, of p] e by (simp add: c lwp_switch_def)
  qed (use c e in \<open>simp_all add: free_lwp_def\<close>)
qed

lemma lwp_unlock_ok:
  assumes ok: "mt_ok N n loc s" and l: "l < N" and f: "free_lwp s l" and c: "code s l = [Lwp_unlock, Lwp_search]"
  shows "steps_to N n (exec l Lwp_unlock [Lwp_search] s)"
proof -
  have m: "masked s l" "lwp_pmut s l \<noteq> Some Runq_mtx" using f c by (auto simp: free_lwp_def mt_functions)
  have own: "pthread_owner s p = Some l \<longleftrightarrow> lwp_pmut s l = Some p \<or> p = Runq_mtx" for p
    using free_owner [OF ok l, of p] by (auto simp: c)
  show ?thesis
  proof (cases "lwp_pmut s l")
    case None
    show ?thesis
    proof (rule steps_toI)
      show "exec l Lwp_unlock [Lwp_search] s = Some (set_code l [Lwp_search] s)" using None by (simp add: lwp_unlock_def)
      show "mt_ok N n loc (set_code l [Lwp_search] s)"
      proof (rule lwp_goes_on [OF ok l f, where po = "pthread_owner s"])
        show "pthread_owner s p = Some l \<longleftrightarrow> p \<in> posix_held (lwp_pmut s l) [Lwp_search]" for p using own [of p] None by simp
      qed (use c m None in \<open>simp_all add: free_lwp_def\<close>)
    qed
  next
    case (Some p)
    let ?s' = "s\<lparr>pthread_owner := (pthread_owner s)(p := None), code := (code s)(l := [Lwp_search])\<rparr>"
    have mine: "pthread_owner s p = Some l" using own [of p] Some by simp
    show ?thesis
    proof (rule steps_toI)
      show "exec l Lwp_unlock [Lwp_search] s = Some ?s'" using Some mine by (simp add: lwp_unlock_def pthread_unlock_def)
      show "mt_ok N n loc ?s'"
      proof (rule lwp_goes_on [OF ok l f, where po = "(pthread_owner s)(p := None)"])
        show "((pthread_owner s)(p := None)) q = Some l \<longleftrightarrow> q \<in> posix_held (lwp_pmut s l) [Lwp_search]" for q
          using own [of q] Some m(2) by auto
        show "((pthread_owner s)(p := None)) q = Some k \<longleftrightarrow> pthread_owner s q = Some k" if "k \<noteq> l" for q k
          using mine that by simp
      qed (use c m in \<open>simp_all add: free_lwp_def\<close>)
    qed
  qed
qed

lemma find_runq_eq:
  assumes "counters N s"
  shows "find_runq is s = Some (find (\<lambda>i. tq_waiters s (Runq_table i) \<noteq> []) is)"
  by (induction "is") (simp_all add: queue_empty_eq [OF assms])

lemma highest_runq_Some:
  assumes "counters N s" "highest_runq s = Some (Some i)"
  shows "i \<le> MT_MAXPRIO \<and> tq_waiters s (Runq_table i) \<noteq> []"
proof -
  let ?xs = "rev [0..<MT_MAXPRIO + 1]"
  have "find (\<lambda>i. tq_waiters s (Runq_table i) \<noteq> []) ?xs = Some i"
    using assms(2) unfolding highest_runq_def find_runq_eq [OF assms(1)] by simp
  then obtain j where j: "j < length ?xs" "tq_waiters s (Runq_table (?xs ! j)) \<noteq> []" "i = ?xs ! j"
    unfolding find_Some_iff by blast
  have "i \<in> set ?xs" unfolding j(3) using j(1) by (rule nth_mem)
  then have "i < MT_MAXPRIO + 1" by (simp only: set_rev set_upt atLeastLessThan_iff)
  then show ?thesis using j(2,3) by simp
qed

lemma highest_runq_None:
  assumes "counters N s"
  shows "highest_runq s = Some None \<longleftrightarrow> (\<forall>i\<le>MT_MAXPRIO. tq_waiters s (Runq_table i) = [])"
  unfolding highest_runq_def find_runq_eq [OF assms] option.inject find_None_iff
  by (auto simp del: upt_Suc simp: less_Suc_eq_le)

lemma highest_runq_found: "counters N s \<Longrightarrow> \<exists>r. highest_runq s = Some r"
  by (metis find_runq_eq highest_runq_def)

lemma parked_less:
  assumes "l < N" "code s l = [Lwp_search]"
  shows "card (parked_lwps N s) < card (started_lwps N s)"
proof (rule psubset_card_mono)
  have "l \<in> started_lwps N s" "l \<notin> parked_lwps N s" using assms by (auto simp: started_lwps_def parked_lwps_def mt_functions)
  moreover have "parked_lwps N s \<subseteq> started_lwps N s" by (auto simp: started_lwps_def parked_lwps_def mt_functions)
  ultimately show "parked_lwps N s \<subset> started_lwps N s" by blast
qed simp

text \<open>The LWP finds a thread, or it parks, or no other LWP is left to make one runnable.\<close>

lemma lwp_search_ok:
  assumes ok: "mt_ok N n loc s" and l: "l < N" and f: "free_lwp s l" and c: "code s l = [Lwp_search]"
  shows "steps_to N n (exec l Lwp_search [] s) \<or>
    exec l Lwp_search [] s = None \<and> highest_runq s = Some None \<and> lwp_parked_cnt s + 1 = lwp_cnt s"
proof -
  note cn = mt_okD(4) [OF ok]
  obtain r where r: "highest_runq s = Some r" using highest_runq_found [OF cn] by blast
  show ?thesis
  proof (cases r)
    case (Some i)
    note i = highest_runq_Some [OF cn r [unfolded Some]]
    then obtain u us where q: "tq_waiters s (Runq_table i) = u # us" by (auto simp: neq_Nil_conv)
    have m: "masked s l" using f by (simp add: free_lwp_def)
    have own: "pthread_owner s Runq_mtx = Some l" using free_owner [OF ok l, of Runq_mtx] by (simp add: c)
    let ?s' = "s\<lparr>pthread_owner := (pthread_owner s)(Runq_mtx := None),
        tq_waiters := (tq_waiters s)(Runq_table i := us), tq_size := (tq_size s)(Runq_table i := int (length us)),
        ut_link := (ut_link s)(u := False), ut_curthr := (ut_curthr s)(l := Some u), runq_size := runq_size s - 1,
        ut_state := (ut_state s)(u := UT_ON_CPU), code := (code s)(l := ut_ctx s u)\<rparr>"
    have "steps_to N n (exec l Lwp_search [] s)"
    proof (rule steps_toI)
      show "exec l Lwp_search [] s = Some ?s'" 
        using r Some own mt_dequeue_eq [OF cn q] by (simp add: lwp_search_def pthread_unlock_def Let_def)
      show "mt_ok N n (loc(u := On l)) ?s'" using i by (intro search_step [OF ok l c m q _ refl]) simp
    qed
    then show ?thesis ..
  next
    case None
    have "\<forall>i\<le>MT_MAXPRIO. tq_waiters s (Runq_table i) = []" using r None highest_runq_None [OF cn] by simp
    then have "runq_count s = 0" by (simp add: runq_count_def)
    then have sz: "runq_size s = 0" using countersD(6) [OF cn] by simp
    have own: "pthread_owner s p = Some l \<longleftrightarrow> p = Runq_mtx" for p using free_owner [OF ok l, of p] by (simp add: c)
    have cnt: "lwp_parked_cnt s = card (parked_lwps N s)" "lwp_cnt s = card (started_lwps N s)"
      using countersD(1,2) [OF cn] by simp_all
    show ?thesis
    proof (cases "lwp_parked_cnt s + 1 = lwp_cnt s")
      case True
      then show ?thesis using None r by (simp add: lwp_search_def lwp_park_def c_assert_def)
    next
      case False
      let ?s' = "s\<lparr>lwp_parked_cnt := lwp_parked_cnt s + 1, pthread_owner := (pthread_owner s)(Runq_mtx := None),
        cond_blocked := cond_blocked s + 1, code := (code s)(l := [Lwp_parked])\<rparr>"
      have s': "?s' = s\<lparr>pthread_owner := (pthread_owner s)(Runq_mtx := None), lwp_parked_cnt := lwp_parked_cnt s + 1,
        lwp_cnt := lwp_cnt s, cond_blocked := cond_blocked s + 1, cond_woken := cond_woken s,
        code := (code s)(l := [Lwp_parked])\<rparr>" by simp
      have "parked_lwps N ?s' = insert l (parked_lwps N s)" "l \<notin> parked_lwps N s" "started_lwps N ?s' = started_lwps N s"
        using c l by (auto simp: parked_lwps_def started_lwps_def mt_functions)
      moreover have "parking ?s'" using cnt False parked_less [OF l c] countersD(5) [OF cn] sz by (simp add: parking_def)
      ultimately have cs: "counters N ?s'" using cnt by (intro counters_lwps [OF cn]) simp_all
      have "steps_to N n (exec l Lwp_search [] s)"
      proof (rule steps_toI)
        show "exec l Lwp_search [] s = Some ?s'"
          using None r False sz own by (simp add: lwp_search_def lwp_park_def park_wait_def pthread_unlock_def Let_def)
        show "mt_ok N n loc ?s'"
        proof (rule free_step [OF ok l f _ cs s'])
          show "free_lwp ?s' l" using f by (simp add: free_lwp_def)
          show "((pthread_owner s)(Runq_mtx := None)) p = Some l \<longleftrightarrow> p \<in> posix_held (lwp_pmut s l) [Lwp_parked]" for p
            using own [of p] by simp
          show "((pthread_owner s)(Runq_mtx := None)) p = Some k \<longleftrightarrow> pthread_owner s p = Some k" if "k \<noteq> l" for p k
            using own [of Runq_mtx] that by simp
        qed (simp_all add: c)
      qed
      then show ?thesis ..
    qed
  qed
qed

text \<open>An unblocked LWP waits again when there is no thread to run.\<close>

lemma lwp_unpark_ok:
  assumes ok: "mt_ok N n loc s" and l: "l < N" and f: "free_lwp s l" and c: "code s l = [Lwp_parked]"
    and b: "\<not> blocked l Lwp_parked s"
  shows "steps_to N n (exec l Lwp_parked [] s)"
proof -
  have fr: "pthread_owner s Runq_mtx = None" and w: "0 < cond_woken s" using b by auto
  have own: "pthread_owner s p \<noteq> Some l" for p using free_owner [OF ok l, of p] by (simp add: c)
  note cn = mt_okD(4) [OF ok]
  note cnt = countersD(1,2,3,5) [OF cn]
  show ?thesis
  proof (cases "runq_size s = 0")
    case True
    let ?s' = "s\<lparr>pthread_owner := (pthread_owner s)(Runq_mtx := None), lwp_parked_cnt := lwp_parked_cnt s,
      lwp_cnt := lwp_cnt s, cond_blocked := cond_blocked s + 1, cond_woken := cond_woken s - 1,
      code := (code s)(l := [Lwp_parked])\<rparr>"
    have po: "(pthread_owner s)(Runq_mtx := None) = pthread_owner s" using fr by (simp add: fun_upd_idem)
    have "parked_lwps N ?s' = parked_lwps N s" "started_lwps N ?s' = started_lwps N s"
      using c by (auto simp: parked_lwps_def started_lwps_def mt_functions)
    moreover have "parking ?s'" using cnt w True by (simp add: parking_def)
    ultimately have cs: "counters N ?s'" using cnt by (intro counters_lwps [OF cn]) simp_all
    show ?thesis
    proof (rule steps_toI)
      show "exec l Lwp_parked [] s = Some ?s'" using fr True
        by (simp add: lwp_unpark_def park_wait_def pthread_lock_def pthread_unlock_def)
      show "mt_ok N n loc ?s'"
      proof (rule free_step [OF ok l f _ cs refl])
        show "free_lwp ?s' l" using f c by (simp add: free_lwp_def)
        show "((pthread_owner s)(Runq_mtx := None)) p = Some l \<longleftrightarrow> p \<in> posix_held (lwp_pmut s l) [Lwp_parked]" for p
          unfolding po using own [of p] by simp
      qed (simp_all add: c po)
    qed
  next
    case False
    let ?s' = "s\<lparr>pthread_owner := (pthread_owner s)(Runq_mtx := Some l), lwp_parked_cnt := lwp_parked_cnt s - 1,
      lwp_cnt := lwp_cnt s, cond_blocked := cond_blocked s, cond_woken := cond_woken s - 1,
      code := (code s)(l := [Lwp_search])\<rparr>"
    have "l \<in> parked_lwps N s" using l c by (simp add: parked_lwps_def)
    moreover have "parked_lwps N ?s' = parked_lwps N s - {l}" "started_lwps N ?s' = started_lwps N s"
      using c l by (auto simp: parked_lwps_def started_lwps_def mt_functions)
    moreover have "parking ?s'" using cnt w by (auto simp: parking_def)
    ultimately have cs: "counters N ?s'" using cnt by (intro counters_lwps [OF cn]) simp_all
    show ?thesis
    proof (rule steps_toI)
      show "exec l Lwp_parked [] s = Some ?s'" using fr False by (simp add: lwp_unpark_def park_wait_def pthread_lock_def)
      show "mt_ok N n loc ?s'"
      proof (rule free_step [OF ok l f _ cs refl])
        show "free_lwp ?s' l" using f by (simp add: free_lwp_def)
        show "((pthread_owner s)(Runq_mtx := Some l)) p = Some l \<longleftrightarrow> p \<in> posix_held (lwp_pmut s l) [Lwp_search]" for p
          using own [of p] by simp
        show "((pthread_owner s)(Runq_mtx := Some l)) p = Some k \<longleftrightarrow> pthread_owner s p = Some k" if "k \<noteq> l" for p k
          using fr that by simp
      qed (simp_all add: c)
    qed
  qed
qed

lemma lwp_requeue_ok:
  assumes ok: "mt_ok N n loc s" and t: "t < n" "loc t = On l" and lv: "leaving s l t"
  shows "steps_to N n (exec l Lwp_requeue [Lwp_unlock, Lwp_search] s)"
proof -
  let ?fs = "[Lwp_unlock, Lwp_search]"
  have lv': "ut_curthr s l = Some t" "saved s t" "switch_args (lwp_queue s l) (lwp_saveonrq s l) (lwp_pmut s l)"
    "lwp_queue s l \<noteq> None \<Longrightarrow> ut_state s t = UT_WAIT" using lv by (auto simp: leaving_def)
  have link: "\<not> ut_link s t" using on_lwp(3) [OF mt_okD(1) [OF ok] t] .
  have cnt: "0 < ut_no_preempt_count s t" using lv'(2) by (auto simp: saved_def Let_def)
  have cs: "counters N (set_code l ?fs s)" using lv by (intro counters_code [OF mt_okD(4) [OF ok]]) (simp_all add: leaving_def)
  show ?thesis
  proof (cases "lwp_queue s l")
    case None
    let ?q = "Runq_table (ut_prio s t)"
    let ?s' = "s\<lparr>ut_state := (ut_state s)(t := UT_RUNNABLE), tq_waiters := (tq_waiters s)(?q := tq_waiters s ?q @ [t]),
      tq_size := (tq_size s)(?q := int (length (tq_waiters s ?q @ [t]))),
      ut_link := (ut_link s)(t := True), runq_size := runq_size s + (if lwp_queue s l = None then 1 else 0),
      cond_blocked := cond_blocked s - (if lwp_queue s l = None then signals s else 0),
      cond_woken := cond_woken s + (if lwp_queue s l = None then signals s else 0),
      code := (code s)(l := ?fs)\<rparr>"
    show ?thesis
    proof (rule steps_toI)
      show "exec l Lwp_requeue ?fs s = Some ?s'"
        using runq_enqueue_eq [OF counters_state [OF cs], of t UT_RUNNABLE l t t]
          None lv'(1,3) link cnt by (simp add: lwp_requeue_def Let_def signals_def)
      show "mt_ok N n (loc(t := In ?q)) ?s'"
        by (rule requeue_step [OF ok t lv, where q = ?q and st = UT_RUNNABLE]) (use None in simp_all)
    qed
  next
    case (Some q)
    let ?s' = "s\<lparr>ut_state := (ut_state s)(t := UT_WAIT), tq_waiters := (tq_waiters s)(q := tq_waiters s q @ [t]),
      tq_size := (tq_size s)(q := int (length (tq_waiters s q @ [t]))),
      ut_link := (ut_link s)(t := True), runq_size := runq_size s + (if lwp_queue s l = None then 1 else 0),
      cond_blocked := cond_blocked s - (if lwp_queue s l = None then signals s else 0),
      cond_woken := cond_woken s + (if lwp_queue s l = None then signals s else 0),
      code := (code s)(l := ?fs)\<rparr>"
    have "\<not> is_runq q" using lv'(3) Some by (cases q) auto
    moreover have "(ut_state s)(t := UT_WAIT) = ut_state s" using lv'(4) Some by (simp add: fun_upd_idem)
    ultimately show ?thesis
    proof (intro steps_toI)
      show "exec l Lwp_requeue ?fs s = Some ?s'" if "\<not> is_runq q" "(ut_state s)(t := UT_WAIT) = ut_state s"
        using Some lv'(1) link that countersD(4) [OF mt_okD(4) [OF ok]]
        by (simp add: lwp_requeue_def mt_enqueue_def add.commute)
      show "mt_ok N n (loc(t := In q)) ?s'"
        by (rule requeue_step [OF ok t lv, where q = q and st = UT_WAIT]) (use Some in simp_all)
    qed
  qed
qed

section \<open>Steps\<close>

text \<open>The assertion of \<open>lwp_park\<close>: LWP \<open>l\<close> has no thread to run, and all others are parked.\<close>

definition lwps_stuck :: "nat \<Rightarrow> mthreads \<Rightarrow> bool" where
  "lwps_stuck l s \<longleftrightarrow> code s l = [Lwp_search] \<and> highest_runq s = Some None \<and> lwp_parked_cnt s + 1 = lwp_cnt s"

lemma user_frame_ok:
  assumes a: "at_frame N n loc s l t f fs" and b: "\<not> blocked l f s"
  shows "steps_to N n (exec l f fs s)"
proof (cases "\<exists>p. f = Pthread_lock p")
  case True
  then show ?thesis using pthread_lock_ok a b by auto
next
  case False
  then show ?thesis
    using a at_frame_good(1) [OF a]
    by (cases f)
      (simp_all only: nopreempt_on_ok mt_nopreempt_off_ok pthread_unlock_ok mtx_lock_body_ok mtx_lock_resume_ok
        mtx_trylock_body_ok mtx_unlock_body_ok set_wait_ok check_unlinked_ok cond_signal_body_ok cond_broadcast_body_ok
        yield_body_ok wake_check_ok wake_body_ok switch_body_ok, simp_all)
qed

lemma lwp_frame_ok:
  assumes ok: "mt_ok N n loc s" and l: "l < N" and f: "free_lwp s l" and c: "code s l = g # gs" and b: "\<not> blocked l g s"
  shows "steps_to N n (exec l g gs s) \<or> exec l g gs s = None \<and> lwps_stuck l s"
proof -
  consider "code s l = lwp_start" | "code s l = [Lwp_start_body]" | "code s l = lwp_switch"
    | "code s l = [Lwp_unlock, Lwp_search]" | "code s l = [Lwp_search]" | "code s l = [Lwp_parked]"
    using f by (auto simp: free_lwp_def)
  then show ?thesis
  proof cases
    case 1
    then show ?thesis using lwp_start_ok [OF ok l f 1] b c by (auto simp: lwp_start_def)
  next
    case 2
    then show ?thesis using lwp_start_body_ok [OF ok l f 2] c by auto
  next
    case 3
    then show ?thesis using lwp_requeue_free_ok [OF ok l f 3] c by (auto simp: lwp_switch_def)
  next
    case 4
    then show ?thesis using lwp_unlock_ok [OF ok l f 4] c by auto
  next
    case 5
    then show ?thesis using lwp_search_ok [OF ok l f 5] c by (auto simp: lwps_stuck_def)
  next
    case 6
    then show ?thesis using lwp_unpark_ok [OF ok l f 6] b c by auto
  qed
qed

lemma frame_ok:
  assumes ok: "mt_ok N n loc s" and c: "code s l = f # fs" and b: "\<not> blocked l f s"
  shows "steps_to N n (exec l f fs s) \<or> exec l f fs s = None \<and> lwps_stuck l s"
proof -
  note p = mt_okD(1) [OF ok]
  have l: "l < N" using placesD(4) [OF p, of l] c by (cases "l < N") auto
  show ?thesis
  proof (cases "free_lwp s l")
    case True
    then show ?thesis using lwp_frame_ok [OF ok l True c b] by simp
  next
    case False
    then obtain t where t: "t < n" "loc t = On l" using placesD(3) [OF p l] by blast
    then consider "running s l t" | "leaving s l t" using on_lwp(2) [OF p t] by (auto simp: with_lwp_def)
    then show ?thesis
    proof cases
      case 1
      then have "at_frame N n loc s l t f fs" using ok t c by (simp add: at_frame_def)
      then show ?thesis using user_frame_ok b by blast
    next
      case 2
      have "f = Lwp_requeue" "fs = [Lwp_unlock, Lwp_search]" using 2 c by (auto simp: leaving_def lwp_switch_def)
      then show ?thesis using lwp_requeue_ok [OF ok t 2] by simp
    qed
  qed
qed

lemma running_lwp:
  assumes ok: "mt_ok N n loc s" and "ut_curthr s l = Some t" "code s l = [] \<or> \<not> masked s l"
  obtains "l < N" "t < n" "loc t = On l" "running s l t"
proof -
  note p = mt_okD(1) [OF ok]
  have l: "l < N" using placesD(5) [OF p, of l] assms(2) by (cases "l < N") auto
  have "\<not> free_lwp s l" using assms(3) by (auto simp: free_lwp_def mt_functions)
  then obtain t' where t': "t' < n" "loc t' = On l" using placesD(3) [OF p l] by blast
  have "t' = t" using on_lwp(4) [OF p t'] assms(2) by simp
  moreover have "\<not> leaving s l t'" using assms(3) by (auto simp: leaving_def lwp_switch_def)
  ultimately show thesis using that l t' on_lwp(2) [OF p t'] by (auto simp: with_lwp_def)
qed

lemma mt_call_ok:
  assumes ok: "mt_ok N n loc s" and c: "code s l = []" "ut_curthr s l = Some t" and al: "allowed c (holds s t)"
  shows "mt_ok N n loc (set_code l (call_frames c) (s\<lparr>holds := (holds s)(t := held_after c (holds s t))\<rparr>))"
    (is "mt_ok N n loc ?s'")
proof -
  obtain t: "l < N" "t < n" "loc t = On l" and run: "running s l t" using running_lwp [OF ok c(2)] c(1) by blast
  note rd = runningD [OF run]
  have ow: "m \<in> holds s t \<Longrightarrow> m_owner s m = Some t" for m
    using ownersD(1) [OF mt_okD(3) [OF ok] t(2)] .
  show ?thesis
  proof (rule user_step [OF ok t(2,3) run, where fs = "call_frames c"])
    show "m_owner ?s' m = Some t \<and> m \<notin> mtxs (call_frames c)" if "m \<in> holds ?s' t" for m
      using that al ow [of m] by (cases c) (auto simp: mt_functions)
    show "m_owner ?s' m = Some t" if "m \<in> mtx_claims (call_frames c)" for m
      using that al ow good_calls(4) [of c] by (cases c) auto
    show "pthread_owner ?s' p = Some l \<longleftrightarrow> p \<in> posix_held None (call_frames c)" for p
      using running_held [OF ok t(2,3) run, of p] c(1) good_calls(5) [of c] by simp
  qed (use c rd good_calls [of c] in \<open>simp_all add: step_of_def\<close>)
qed

lemma clock_ok:
  assumes ok: "mt_ok N n loc s" and m: "\<not> masked s l"
  shows "steps_to N n (mt_clock_interrupt l s)"
proof (cases "\<exists>t. ut_curthr s l = Some t \<and> ut_state s t = UT_ON_CPU")
  case False
  then have "mt_clock_interrupt l s = Some s" using m by (auto simp: mt_clock_interrupt_def split: option.split)
  then show ?thesis using ok by (rule steps_toI)
next
  case True
  then obtain t0 where c: "ut_curthr s l = Some t0" "ut_state s t0 = UT_ON_CPU" by blast
  obtain t: "l < N" "t0 < n" "loc t0 = On l" and run: "running s l t0" using running_lwp [OF ok c(1)] m by blast
  note rd = runningD [OF run]
  have d0: "depth (code s l) = 0" using m rd(5) by simp
  note idle = good_idle [OF rd(3) d0]
  have w: "waits_for (code s l) = {}" using idle(2) waits_for_will_wait by blast
  let ?fs = "mt_yield @ code s l"
  show ?thesis
  proof (rule steps_toI)
    show "mt_clock_interrupt l s = Some (set_code l ?fs s)" using m c rd(4) d0 by (simp add: mt_clock_interrupt_def)
    have "owner_ok s t0 (On l)" using mt_okD(3) [OF ok] t by (auto simp: owners_def)
    note ro = running_owner_ok [OF this run]
    show "mt_ok N n loc (set_code l ?fs s)"
    proof (rule user_step [OF ok t(2,3) run, where fs = ?fs])
      show "good ?fs" using rd(3) d0 idle by (simp add: mt_yield_def)
      show "m_owner (set_code l ?fs s) m = Some t0 \<and> m \<notin> mtxs ?fs" if "m \<in> holds (set_code l ?fs s) t0" for m
        using that ro(1,2) [of m] by (auto simp: mt_yield_def)
      show "m_owner (set_code l ?fs s) m = Some t0" if "m \<in> mtx_claims ?fs" for m using that ro(3) [of m] by (simp add: mt_yield_def)
      show "pthread_owner (set_code l ?fs s) p = Some l \<longleftrightarrow> p \<in> posix_held None ?fs" for p
        using running_held [OF ok t(2,3) run, of p] by (simp add: mt_yield_def)
    qed (use rd d0 in \<open>simp_all add: step_of_def mt_yield_def\<close>)
  qed
qed

lemma spurious_ok:
  assumes ok: "mt_ok N n loc s"
  shows "mt_ok N n loc (lwp_release s)"
proof -
  let ?s = "\<lambda>a b. s\<lparr>cond_blocked := a, cond_woken := b\<rparr>"
  have "place_ok N (?s a b) t p = place_ok N s t p" "free_lwp (?s a b) l = free_lwp s l" for a b t p l
    by (simp_all add: place_ok_def with_lwp_def running_def leaving_def saved_def in_queue_def being_woken_def free_lwp_def
        split: mt_place.split utqueue.split)
  then have "places N n loc (?s a b) = places N n loc s" for a b by (simp add: places_def)
  moreover have "locks N (?s a b) = locks N s" for a b by (simp add: locks_def)
  moreover have "stack (?s a b) t p = stack s t p" "waiting (?s a b) p = waiting s p" for a b t p
    by (simp_all add: stack_def waiting_def split: mt_place.split)
  then have "owners n loc (?s a b) = owners n loc s" for a b by (simp add: owners_def owner_ok_def)
  moreover have "counters N (?s (cond_blocked s - 1) (cond_woken s + 1))" if "0 < cond_blocked s"
  proof (rule counters_lwps [OF mt_okD(4) [OF ok]])
    note c = countersD [OF mt_okD(4) [OF ok]]
    show "lwp_parked_cnt (?s (cond_blocked s - 1) (cond_woken s + 1)) = card (parked_lwps N (?s (cond_blocked s - 1) (cond_woken s + 1)))"
      "lwp_cnt (?s (cond_blocked s - 1) (cond_woken s + 1)) = card (started_lwps N (?s (cond_blocked s - 1) (cond_woken s + 1)))"
      using c(1,2) by (simp_all add: parked_lwps_def started_lwps_def)
    show "parking (?s (cond_blocked s - 1) (cond_woken s + 1))" using c(3,5) that by (simp add: parking_def)
  qed simp_all
  ultimately show ?thesis using ok by (simp add: lwp_release_def mt_ok_def)
qed

lemma mt_step_ok:
  assumes "mt_step l s s'" "mt_ok N n loc s"
  shows "\<exists>loc'. mt_ok N n loc' s'"
  using assms
proof cases
  case (frame f fs)
  then show ?thesis using frame_ok [OF assms(2) frame(1,2)] by (auto simp: steps_to_def)
next
  case (call t c)
  then show ?thesis using mt_call_ok [OF assms(2) call(1-3)] by blast
next
  case clock
  then show ?thesis using clock_ok [OF assms(2) clock(1)] by (auto simp: steps_to_def)
next
  case spurious
  then show ?thesis using spurious_ok [OF assms(2)] by blast
qed

section \<open>Reachable states\<close>

lemma mt_init_ok:
  assumes pr: "\<forall>p\<in>set prios. p \<le> MT_MAXPRIO"
  shows "mt_ok N (length prios) (\<lambda>t. In (Runq_table (prios ! t))) (mt_init N prios)"
proof -
  let ?s = "mt_init N prios" and ?n = "length prios" and ?loc = "\<lambda>t. In (Runq_table (prios ! t))"
  have cs: "code ?s l = (if l < N then lwp_start else [])" for l by (simp add: mt_init_def)
  have "saved ?s t" if "t < ?n" for t using that by (simp add: saved_def mt_init_def mt_thread_start_def)
  then have pl: "place_ok N ?s t (?loc t)" if "t < ?n" for t
    using that by (simp add: place_ok_def in_queue_def) (simp add: mt_init_def)
  have inq: "t < ?n" "?loc t = In q" if "t \<in> set (tq_waiters ?s q)" for q t
    using that by (cases q; auto simp: mt_init_def)+
  have "places N ?n ?loc ?s" unfolding places_def
  proof (intro conjI allI impI ballI)
    show "place_ok N ?s t (?loc t)" if "t < ?n" for t by (rule pl [OF that])
    show "ut_prio ?s t \<le> MT_MAXPRIO" if "t < ?n" for t using pr that by (simp add: mt_init_def)
    show "free_lwp ?s l \<or> (\<exists>t<?n. ?loc t = On l)" if "l < N" for l using that by (simp add: free_lwp_def mt_init_def)
    show "code ?s l = []" "ut_curthr ?s l = None" if "N \<le> l" for l using that by (simp_all add: mt_init_def)
    show "distinct (tq_waiters ?s q)" for q by (cases q) (simp_all add: mt_init_def)
    show "t < ?n" "?loc t = In q" if "t \<in> set (tq_waiters ?s q)" for q t using inq [OF that] by simp_all
    fix l u assume "u \<in> set (wakes (code ?s l))"
    then have False by (simp add: cs lwp_start_def split: if_splits)
    then show "u < ?n" "?loc u = Waking l" by simp_all
  qed
  moreover have "posix_held (lwp_pmut ?s l) (code ?s l) = {}" "pthread_owner ?s p = None" for l p
    by (simp_all add: mt_init_def lwp_start_def)
  then have "locks N ?s" unfolding locks_def by simp
  moreover have "owners ?n ?loc ?s"
    by (simp add: owners_def owner_ok_def stack_def waiting_def) (simp add: mt_init_def mt_thread_start_def)
  moreover have "counters N ?s"
  proof -
    have "parked_lwps N ?s = {}" "started_lwps N ?s = {}" by (auto simp: parked_lwps_def started_lwps_def cs lwp_start_def)
    moreover have "runq_count ?s = ?n"
    proof -
      have "runq_count ?s = (\<Sum>i\<le>MT_MAXPRIO. card {t. t < ?n \<and> prios ! t = i})"
        unfolding runq_count_def
        by (rule sum.cong) (simp_all add: mt_init_def length_filter_conv_card cong: conj_cong)
      also have "\<dots> = card (\<Union>i\<in>{..MT_MAXPRIO}. {t. t < ?n \<and> prios ! t = i})"
        by (rule card_UN_disjoint [symmetric]) auto
      also have "(\<Union>i\<in>{..MT_MAXPRIO}. {t. t < ?n \<and> prios ! t = i}) = {..<?n}" using pr by auto
      finally show ?thesis by simp
    qed
    moreover have "queue_sizes ?s" by (auto simp: queue_sizes_def mt_init_def split: utqueue.splits)
    moreover have "parking ?s" by (simp add: parking_def mt_init_def)
    ultimately show ?thesis by (simp add: counters_def) (simp add: mt_init_def)
  qed
  ultimately show ?thesis by (simp add: mt_ok_def)
qed

lemma mt_reach_ok:
  assumes "mt_reach N prios s" "\<forall>p\<in>set prios. p \<le> MT_MAXPRIO"
  shows "\<exists>loc. mt_ok N (length prios) loc s"
  using assms(1)
proof induction
  case start
  then show ?case using mt_init_ok [OF assms(2)] by blast
next
  case (step s l s')
  then show ?case using mt_step_ok by blast
qed

end
