(* ===== verification/MtSpec.thy ===== *)
theory MtSpec
  imports MtReach
begin

text \<open>The properties of the thread library for several processors: every thread is in one place, mutual
exclusion, the assertions, and progress.\<close>

section \<open>A run\<close>

text \<open>A schedule names the LWP of each step, and the call when its thread makes one.\<close>

fun mt_run :: "(nat \<times> call option) list \<Rightarrow> mthreads \<Rightarrow> mthreads option" where
  "mt_run [] s = Some s"
| "mt_run ((l, None) # cs) s =
     (case code s l of
        [] \<Rightarrow> None
      | f # fs \<Rightarrow> if blocked l f s then None else exec l f fs s \<bind> mt_run cs)"
| "mt_run ((l, Some c) # cs) s =
     (case ut_curthr s l of
        None \<Rightarrow> None
      | Some t \<Rightarrow>
          if code s l = [] \<and> allowed c (holds s t)
          then mt_run cs (set_code l (call_frames c) (s\<lparr>holds := (holds s)(t := held_after c (holds s t))\<rparr>))
          else None)"

lemma mt_run_reach:
  assumes "mt_run cs s = Some s'" "mt_reach N prios s"
  shows "mt_reach N prios s'"
  using assms
proof (induction cs s rule: mt_run.induct)
  case (1 s)
  then show ?case by simp
next
  case (2 l cs s)
  obtain f fs where c: "code s l = f # fs" using 2(2) by (auto split: list.splits)
  have nb: "\<not> blocked l f s" and r: "exec l f fs s \<bind> mt_run cs = Some s'" using 2(2) c by (simp_all split: if_splits)
  obtain s1 where s1: "exec l f fs s = Some s1" "mt_run cs s1 = Some s'" using r by (auto simp: bind_eq_Some_conv)
  have "mt_reach N prios s1" by (rule mt_reach.step [OF 2(3) mt_step.frame [OF c nb s1(1)]])
  then show ?case using 2(1) [OF c nb s1] by blast
next
  case (3 l c cs s)
  obtain t where t: "ut_curthr s l = Some t" using 3(2) by (auto split: option.splits)
  let ?s1 = "set_code l (call_frames c) (s\<lparr>holds := (holds s)(t := held_after c (holds s t))\<rparr>)"
  have c: "code s l = [] \<and> allowed c (holds s t)" and r: "mt_run cs ?s1 = Some s'" using 3(2) t by (simp_all split: if_splits)
  have "mt_reach N prios ?s1" by (rule mt_reach.step [OF 3(3) mt_step.call [OF _ t _ refl]]) (use c in simp_all)
  then show ?case using 3(1) [OF t c r] by blast
qed

text \<open>Two LWPs and two threads of the same priority: the first thread locks a mutex, the other one comes to wait
for it.\<close>

definition sample_schedule :: "(nat \<times> call option) list" where
  "sample_schedule = replicate 6 (0, None) @ replicate 6 (1, None) @
     [(0, Some (Lock 5))] @ replicate 5 (0, None) @ [(1, Some (Lock 5))] @ replicate 6 (1, None)"

definition sample_mt :: mthreads where
  "sample_mt = the (mt_run sample_schedule (mt_init 2 [3, 3]))"

lemma sample_check:
  "(case mt_run sample_schedule (mt_init 2 [3, 3]) of
      None \<Rightarrow> False
    | Some s \<Rightarrow> tq_waiters s (M_waiters 5) = [1] \<and> 5 \<in> holds s 0 \<and> ut_curthr s 0 = Some 0 \<and> code s 0 = [])"
  by code_simp

lemma sample_mt:
  "mt_reach 2 [3, 3] sample_mt" "tq_waiters sample_mt (M_waiters 5) = [1]" "5 \<in> holds sample_mt 0"
  "ut_curthr sample_mt 0 = Some 0" "code sample_mt 0 = []"
proof -
  obtain s where s: "mt_run sample_schedule (mt_init 2 [3, 3]) = Some s" using sample_check by (auto split: option.splits)
  have e: "sample_mt = s" using s by (simp add: sample_mt_def)
  show "mt_reach 2 [3, 3] sample_mt" unfolding e by (rule mt_run_reach [OF s mt_reach.start])
  show "tq_waiters sample_mt (M_waiters 5) = [1]" "5 \<in> holds sample_mt 0" "ut_curthr sample_mt 0 = Some 0" "code sample_mt 0 = []"
    using sample_check s e by simp_all
qed

text \<open>One LWP and one thread, which waits for a condition variable nobody will signal.\<close>

definition stuck_schedule :: "(nat \<times> call option) list" where
  "stuck_schedule = replicate 6 (0, None) @ [(0, Some (Lock 0))] @ replicate 5 (0, None) @
     [(0, Some (Wait 1 0))] @ replicate 12 (0, None)"

definition stuck_mt :: mthreads where
  "stuck_mt = the (mt_run stuck_schedule (mt_init 1 [3]))"

lemma stuck_check:
  "(case mt_run stuck_schedule (mt_init 1 [3]) of
      None \<Rightarrow> False
    | Some s \<Rightarrow> code s 0 = [Lwp_search] \<and> tq_waiters s (Uc_waiters 1) = [0] \<and>
        exec 0 Lwp_search [] s = None)"
  by code_simp

lemma stuck_mt:
  "mt_reach 1 [3] stuck_mt" "code stuck_mt 0 = [Lwp_search]" "exec 0 Lwp_search [] stuck_mt = None"
proof -
  obtain s where s: "mt_run stuck_schedule (mt_init 1 [3]) = Some s" using stuck_check by (auto split: option.splits)
  have e: "stuck_mt = s" using s by (simp add: stuck_mt_def)
  show "mt_reach 1 [3] stuck_mt" unfolding e by (rule mt_run_reach [OF s mt_reach.start])
  show "code stuck_mt 0 = [Lwp_search]" "exec 0 Lwp_search [] stuck_mt = None" using stuck_check s e by simp_all
qed

text \<open>Two LWPs and two threads: one thread waits for a condition variable and its LWP parks; then the other one
signals the condition variable.\<close>

definition wait_call :: "nat \<Rightarrow> (nat \<times> call option) list" where
  "wait_call l = [(l, Some (Lock 0))] @ replicate 5 (l, None) @ [(l, Some (Wait 1 0))] @ replicate 13 (l, None)"

definition start_lwps :: "nat list \<Rightarrow> (nat \<times> call option) list" where
  "start_lwps ls = concat (map (\<lambda>l. replicate 6 (l, None)) ls)"

definition signal_schedule :: "(nat \<times> call option) list" where
  "signal_schedule = start_lwps [0, 1] @ wait_call 1 @ [(0, Some (Signal 1))] @ replicate 8 (0, None)"

definition signal_mt :: mthreads where
  "signal_mt = the (mt_run signal_schedule (mt_init 2 [3, 3]))"

lemma signal_check:
  "(case mt_run signal_schedule (mt_init 2 [3, 3]) of
      None \<Rightarrow> False
    | Some s \<Rightarrow> tq_waiters s (Runq_table 3) = [1] \<and> code s 1 = [Lwp_parked] \<and> code s 0 \<noteq> [])"
  by code_simp

lemma signal_mt:
  "mt_reach 2 [3, 3] signal_mt" "tq_waiters signal_mt (Runq_table 3) = [1]" "code signal_mt 1 = [Lwp_parked]"
proof -
  obtain s where s: "mt_run signal_schedule (mt_init 2 [3, 3]) = Some s" using signal_check by (auto split: option.splits)
  have e: "signal_mt = s" using s by (simp add: signal_mt_def)
  show "mt_reach 2 [3, 3] signal_mt" unfolding e by (rule mt_run_reach [OF s mt_reach.start])
  show "tq_waiters signal_mt (Runq_table 3) = [1]" "code signal_mt 1 = [Lwp_parked]" using signal_check s e by simp_all
qed

text \<open>With three LWPs a wake-up is lost: two threads are made runnable by one broadcast, of which only the first is
signalled; when an LWP has taken it, the other one stays in the run queue and the third LWP stays blocked.\<close>

definition lost_schedule :: "(nat \<times> call option) list" where
  "lost_schedule = start_lwps [0, 1, 2] @ wait_call 1 @ wait_call 2 @
     [(0, Some (Broadcast 1))] @ replicate 23 (0, None) @ [(1, None), (1, None)]"

lemma lost_wakeup:
  "(case mt_run lost_schedule (mt_init 3 [3, 3, 3]) of
      None \<Rightarrow> False
    | Some s \<Rightarrow> tq_waiters s (Runq_table 3) = [2] \<and> code s 2 = [Lwp_parked] \<and> cond_woken s = 0 \<and> cond_blocked s = 1 \<and>
        ut_curthr s 0 = Some 0 \<and> code s 0 = [] \<and> ut_curthr s 1 = Some 1)"
  by code_simp

section \<open>Where the threads are\<close>

text \<open>What the state says of a thread: the LWP that executes it or has just left its stack, the queue that contains
it, the LWP that has dequeued it and will wake it.\<close>

definition at_place :: "mthreads \<Rightarrow> nat \<Rightarrow> mt_place \<Rightarrow> bool" where
  "at_place s t p \<longleftrightarrow> (case p of
     On l \<Rightarrow> ut_curthr s l = Some t \<and> (\<not> lwp_code (code s l) \<or> code s l = lwp_switch)
   | In q \<Rightarrow> t \<in> set (tq_waiters s q)
   | Waking l \<Rightarrow> t \<in> set (wakes (code s l)))"

lemma at_place_loc:
  assumes ok: "mt_ok N n loc s"
  shows "at_place s t p \<longleftrightarrow> t < n \<and> loc t = p"
proof
  note pl = mt_okD(1) [OF ok]
  assume a: "at_place s t p"
  show "t < n \<and> loc t = p"
  proof (cases p)
    case (On l)
    have c: "ut_curthr s l = Some t" "\<not> lwp_code (code s l) \<or> code s l = lwp_switch" using a On by (auto simp: at_place_def)
    have l: "l < N" using placesD(5) [OF pl, of l] c(1) by (cases "l < N") auto
    have "\<not> free_lwp s l" using c by (auto simp: free_lwp_def lwp_code_def mt_functions)
    then obtain t' where t': "t' < n" "loc t' = On l" using placesD(3) [OF pl l] by blast
    then show ?thesis using on_lwp(4) [OF pl t'] c(1) On by simp
  next
    case (In q)
    then show ?thesis using a placesD(7,8) [OF pl, of t q] by (simp add: at_place_def)
  next
    case (Waking l)
    have u: "t \<in> set (wakes (code s l))" using a Waking by (simp add: at_place_def)
    have l: "l < N" using placesD(4) [OF pl, of l] u by (cases "l < N") auto
    then show ?thesis using placesD(9,10) [OF pl l u] Waking by simp
  qed
next
  assume "t < n \<and> loc t = p"
  then have "place_ok N s t p" using placesD(1) [OF mt_okD(1) [OF ok]] by blast
  then show "at_place s t p"
    by (cases p) (auto simp: place_ok_def at_place_def with_lwp_def running_def leaving_def in_queue_def being_woken_def Let_def)
qed

text \<open>C9. In every state that any number of LWPs reach by any interleaving of their frames, of calls of the threads
and of clock interrupts, every created thread is in exactly one place: one LWP executes it or has just left its stack
and will queue it, or one queue contains it, once, or one LWP has dequeued it and will wake it. So no two
processors execute the same thread, which is what the order of \<open>uthread_switch\<close>, \<open>lwp_switch\<close> and the
unlocking of the POSIX mutexes is for.\<close>

theorem mt_threads_in_one_place:
  assumes "mt_reach N prios s" "\<forall>p\<in>set prios. p \<le> MT_MAXPRIO"
  shows "(\<exists>p. at_place s t p) = (t < length prios) \<and> (at_place s t p \<longrightarrow> at_place s t p' \<longrightarrow> p = p') \<and>
    distinct (tq_waiters s q)"
proof -
  obtain loc where ok: "mt_ok N (length prios) loc s" using mt_reach_ok [OF assms] by blast
  then show ?thesis using at_place_loc [OF ok] placesD(6) [OF mt_okD(1) [OF ok]] by auto
qed

lemma prios_ok: "\<forall>p\<in>set [3, 3]. p \<le> MT_MAXPRIO" "\<forall>p\<in>set [3]. p \<le> MT_MAXPRIO"
  by (simp_all add: MT_MAXPRIO_def)

theorem mt_threads_in_one_place_witness:
  "at_place sample_mt 1 (In (M_waiters 5)) \<and> \<not> at_place sample_mt 1 (On 0) \<and> \<not> at_place sample_mt 1 (In (M_waiters 6)) \<and>
   \<not> at_place sample_mt 2 (On 1)"
proof -
  have "at_place sample_mt 1 (In (M_waiters 5))" using sample_mt(2) by (simp add: at_place_def)
  then have "p = In (M_waiters 5)" if "at_place sample_mt 1 p" for p
    using that mt_threads_in_one_place [OF sample_mt(1) prios_ok(1), of 1 p "In (M_waiters 5)"] by blast
  moreover have "\<not> at_place sample_mt 2 (On 1)"
    using mt_threads_in_one_place [OF sample_mt(1) prios_ok(1), of 2 "On 1"] by fastforce
  ultimately show ?thesis using \<open>at_place sample_mt 1 (In (M_waiters 5))\<close> by fastforce
qed

section \<open>Mutexes\<close>

text \<open>C8. Mutual exclusion on several processors: the thread that has locked a mutex and not begun to unlock it is
the owner the mutex records, so no two threads hold a mutex at the same time; and a mutex that a thread waits
for has an owner, so no thread waits for a free mutex.\<close>

theorem mt_mutual_exclusion:
  assumes "mt_reach N prios s" "\<forall>p\<in>set prios. p \<le> MT_MAXPRIO" "t < length prios"
  shows "(m \<in> holds s t \<longrightarrow> m_owner s m = Some t \<and> (\<forall>t'<length prios. m \<in> holds s t' \<longrightarrow> t' = t)) \<and>
    (\<forall>m' u. u \<in> set (tq_waiters s (M_waiters m')) \<longrightarrow> m_owner s m' \<noteq> None)"
proof -
  obtain loc where ok: "mt_ok N (length prios) loc s" using mt_reach_ok [OF assms(1,2)] by blast
  note pl = mt_okD(1) [OF ok] and ow = ownersD [OF mt_okD(3) [OF ok]]
  have own: "m_owner s m = Some x" if "x < length prios" "m \<in> holds s x" for x using ow(1) that by blast
  have "m_owner s m' \<noteq> None" if q: "u \<in> set (tq_waiters s (M_waiters m'))" for m' u
    by (rule ow(4) [OF placesD(7) [OF pl q]]) (simp add: placesD(8) [OF pl q] waiting_def)
  then show ?thesis using own [OF assms(3)] own by fastforce
qed

theorem mt_mutual_exclusion_witness:
  "m_owner sample_mt 5 = Some 0 \<and> 5 \<notin> holds sample_mt 1 \<and> tq_waiters sample_mt (M_waiters 5) = [1]"
  using mt_mutual_exclusion [OF sample_mt(1) prios_ok(1), of 0 5] sample_mt(2,3) by auto

section \<open>Assertions and progress\<close>

lemma stuck_threads:
  assumes ok: "mt_ok N n loc s" and st: "lwps_stuck l s" and t: "t < n"
  shows "\<exists>q. t \<in> set (tq_waiters s q) \<and> (\<forall>i. q \<noteq> Runq_table i)"
proof -
  note pl = mt_okD(1) [OF ok] and cn = countersD [OF mt_okD(4) [OF ok]]
  have c: "code s l = [Lwp_search]" and hr: "highest_runq s = Some None" and p1: "lwp_parked_cnt s + 1 = lwp_cnt s"
    using st by (simp_all add: lwps_stuck_def)
  have l: "l < N" using placesD(4) [OF pl, of l] c by (cases "l < N") auto
  have "insert l (parked_lwps N s) \<subseteq> started_lwps N s" using l c by (auto simp: parked_lwps_def started_lwps_def lwp_start_def)
  moreover have "card (insert l (parked_lwps N s)) = card (started_lwps N s)" using c cn(1,2) p1 by (simp add: parked_lwps_def)
  ultimately have st: "started_lwps N s = insert l (parked_lwps N s)" by (metis card_subset_eq finite_lwps(2))
  have idle: "code s k \<in> {[Lwp_search], [Lwp_parked], lwp_start, [Lwp_start_body]}" if "k < N" for k
  proof (cases "k \<in> started_lwps N s")
    case True
    then show ?thesis using c unfolding st by (auto simp: parked_lwps_def)
  qed (use that in \<open>auto simp: started_lwps_def\<close>)
  have po: "place_ok N s t (loc t)" using placesD(1) [OF pl t] .
  show ?thesis
  proof (cases "loc t")
    case (On k)
    note o = on_lwp [OF pl t On]
    have "lwp_code (code s k) \<and> code s k \<noteq> lwp_switch" using idle [OF o(1)] by (auto simp: lwp_code_def mt_functions)
    then show ?thesis using o(2) by (auto simp: with_lwp_def running_def leaving_def Let_def)
  next
    case (In q)
    have q: "in_queue s t q" using po In by (simp add: place_ok_def)
    have "q \<noteq> Runq_table i" for i
      using q hr placesD(2) [OF pl t] by (auto simp: in_queue_def highest_runq_None [OF mt_okD(4) [OF ok]])
    then show ?thesis using q by (auto simp: in_queue_def)
  next
    case (Waking k)
    then have "k < N" "t \<in> set (wakes (code s k))" using po by (auto simp: place_ok_def being_woken_def)
    then show ?thesis using idle [of k] by (auto simp: lwp_start_def)
  qed
qed

lemma never_misused:
  assumes ok: "mt_ok N n loc s" and c: "code s l = f # fs"
  shows "\<not> misuses l f s"
proof -
  have "l < N" using placesD(4) [OF mt_okD(1) [OF ok], of l] c by (cases "l < N") auto
  then have "pthread_owner s p = Some l \<longleftrightarrow> p \<in> posix_held (lwp_pmut s l) (f # fs)" for p
    using locksD [OF mt_okD(2) [OF ok], of p l] c by simp
  then show ?thesis by (cases f) auto
qed

text \<open>C10. No LWP locks a POSIX mutex that it has, or unlocks or waits with one that it has not. No frame fails an
assertion, except the assertion of \<open>lwp_park\<close> that some LWP is left to run threads; and when that one fails no
thread is runnable: every thread waits for a mutex or a condition variable. The assertions of the clock handler
hold whenever an LWP takes a clock interrupt.\<close>

theorem mt_no_assertion_fails:
  assumes "mt_reach N prios s" "\<forall>p\<in>set prios. p \<le> MT_MAXPRIO"
  shows "(code s l = f # fs \<longrightarrow> \<not> misuses l f s) \<and>
    (code s l = f # fs \<and> \<not> blocked l f s \<and> exec l f fs s = None \<longrightarrow> f = Lwp_search \<and> lwps_stuck l s \<and>
      (\<forall>t<length prios. \<exists>q. t \<in> set (tq_waiters s q) \<and> (\<forall>i. q \<noteq> Runq_table i))) \<and>
    (\<not> masked s l \<longrightarrow> mt_clock_interrupt l s \<noteq> None)"
proof -
  obtain loc where ok: "mt_ok N (length prios) loc s" using mt_reach_ok [OF assms] by blast
  have "lwps_stuck l s" if "code s l = f # fs" "\<not> blocked l f s" "exec l f fs s = None"
    using frame_ok [OF ok that(1,2)] that(3) by (auto simp: steps_to_def)
  moreover have "mt_clock_interrupt l s \<noteq> None" if "\<not> masked s l"
    using clock_ok [OF ok that] by (auto simp: steps_to_def)
  ultimately show ?thesis using never_misused [OF ok] stuck_threads [OF ok] by (auto simp: lwps_stuck_def)
qed

theorem mt_no_assertion_fails_witness:
  "lwps_stuck 0 stuck_mt \<and> (\<exists>q. 0 \<in> set (tq_waiters stuck_mt q) \<and> (\<forall>i. q \<noteq> Runq_table i)) \<and>
   pthread_owner stuck_mt Runq_mtx = Some 0"
  using mt_no_assertion_fails [OF stuck_mt(1) prios_ok(2), of 0 Lwp_search "[]"] stuck_mt(2,3) by simp

lemma blocked_good:
  assumes ok: "mt_ok N n loc s" and l: "l < N" and c: "code s l = Pthread_lock p # fs" "p \<noteq> Runq_mtx"
  shows "good (code s l)"
proof -
  have "\<not> lwp_code (code s l)" using c by (auto simp: lwp_code_def mt_functions)
  then have "\<not> free_lwp s l" "\<not> leaving s l t" for t by (auto simp: free_lwp_def leaving_def lwp_code_def)
  then obtain t where "running s l t"
    using placesD(3) [OF mt_okD(1) [OF ok] l] on_lwp(2) [OF mt_okD(1) [OF ok]] by (auto simp: with_lwp_def)
  then show ?thesis by (rule runningD(3))
qed

text \<open>An LWP that owns \<open>runq_mtx\<close> is not blocked, and an LWP blocked by another POSIX mutex owns only mutexes of
higher rank.\<close>

lemma runq_owner_runs:
  assumes ok: "mt_ok N n loc s" and o: "pthread_owner s Runq_mtx = Some l"
  shows "\<exists>f fs. l < N \<and> code s l = f # fs \<and> \<not> blocked l f s"
proof -
  have l: "l < N" and h: "Runq_mtx \<in> posix_held (lwp_pmut s l) (code s l)" using locksD [OF mt_okD(2) [OF ok]] o by auto
  obtain f fs where c: "code s l = f # fs" using h by (cases "code s l") auto
  have "\<not> blocked l f s"
  proof
    assume b: "blocked l f s"
    moreover have "\<not> blocked l (Pthread_lock Runq_mtx) s" using o by simp
    ultimately consider p where "f = Pthread_lock p" "p \<noteq> Runq_mtx" | "f = Lwp_parked"
      by (cases f) (auto simp del: blocked.simps(1))
    then show False
    proof cases
      case 1
      have g: "good (code s l)" using blocked_good [OF ok l] c 1 by blast
      then have "Runq_mtx \<in> posix_held None fs - {p}" using h c 1 good_held [of fs "lwp_pmut s l"] by simp
      moreover have "\<forall>q\<in>posix_held None fs - {p}. rank p < rank q" using g c 1 by simp
      ultimately have "rank p < rank Runq_mtx" by blast
      then show False by simp
    next
      case 2
      then show False using h c by simp
    qed
  qed
  then show ?thesis using l c by blast
qed

text \<open>If \<open>runq_mtx\<close> is free and every LWP is blocked, then all of them are parked: an LWP blocked by another
mutex waits for an LWP blocked by a mutex of lower rank.\<close>

lemma all_parked:
  assumes ok: "mt_ok N n loc s" and free: "pthread_owner s Runq_mtx = None"
    and all: "\<And>l. l < N \<Longrightarrow> \<exists>f fs. code s l = f # fs \<and> blocked l f s" and l: "l < N"
  shows "code s l = [Lwp_parked]"
proof -
  have cases: "(\<exists>p fs. p \<noteq> Runq_mtx \<and> code s k = Pthread_lock p # fs \<and> pthread_owner s p \<noteq> None) \<or> code s k = [Lwp_parked]"
    if k: "k < N" for k
  proof -
    obtain f fs where c: "code s k = f # fs" and b: "blocked k f s" using all [OF k] by blast
    show ?thesis
    proof (cases "\<exists>p. f = Pthread_lock p")
      case True
      then show ?thesis using b c free by auto
    next
      case False
      then have "f = Lwp_parked" using b by (cases f) auto
      moreover have "free_lwp s k"
      proof (rule ccontr)
        assume "\<not> free_lwp s k"
        then obtain t where "with_lwp s k t"
          using placesD(3) [OF mt_okD(1) [OF ok] k] on_lwp(2) [OF mt_okD(1) [OF ok]] by blast
        then show False using c \<open>f = Lwp_parked\<close> by (auto simp: with_lwp_def running_def leaving_def lwp_switch_def Let_def)
      qed
      ultimately show ?thesis using c by (auto simp: free_lwp_def mt_functions)
    qed
  qed
  have chain: False if "k < N" "p \<noteq> Runq_mtx" "code s k = Pthread_lock p # fs" "pthread_owner s p \<noteq> None" for k p fs
    using that
  proof (induction "rank p" arbitrary: k p fs rule: less_induct)
    case less
    then obtain k' where "pthread_owner s p = Some k'" by blast
    then have k': "k' < N" "p \<in> posix_held (lwp_pmut s k') (code s k')" using locksD [OF mt_okD(2) [OF ok]] by auto
    then have "code s k' \<noteq> [Lwp_parked]" by auto
    then obtain q gs where q: "q \<noteq> Runq_mtx" "code s k' = Pthread_lock q # gs" "pthread_owner s q \<noteq> None"
      using cases [OF k'(1)] by blast
    have g: "good (code s k')" by (rule blocked_good [OF ok k'(1) q(2,1)])
    then have "p \<in> posix_held None gs - {q}" using k'(2) q(2) good_held [of gs "lwp_pmut s k'"] by simp
    then have "rank q < rank p" using g q(2) by simp
    then show False using less(1) k'(1) q by blast
  qed
  show ?thesis using cases [OF l] chain [OF l] by blast
qed

text \<open>LWP \<open>l\<close> is in the program of its thread, or can execute its next frame.\<close>

definition can_run :: "mthreads \<Rightarrow> nat \<Rightarrow> bool" where
  "can_run s l \<longleftrightarrow> (code s l = [] \<and> ut_curthr s l \<noteq> None) \<or>
     (\<exists>f fs s'. code s l = f # fs \<and> \<not> blocked l f s \<and> exec l f fs s = Some s')"

lemma unblocked_runs:
  assumes ok: "mt_ok N n loc s" and l: "l < N" and b: "\<And>f fs. code s l = f # fs \<Longrightarrow> \<not> blocked l f s"
  shows "can_run s l \<or> lwps_stuck l s"
proof (cases "code s l")
  case Nil
  then have "\<not> free_lwp s l" by (auto simp: free_lwp_def mt_functions)
  then have "ut_curthr s l \<noteq> None" using placesD(3) [OF mt_okD(1) [OF ok] l] on_lwp(4) [OF mt_okD(1) [OF ok]] by fastforce
  then show ?thesis using Nil by (simp add: can_run_def)
next
  case (Cons f fs)
  show ?thesis using frame_ok [OF ok Cons b [OF Cons]] b [OF Cons] Cons by (auto simp: can_run_def steps_to_def)
qed

text \<open>When a thread is in a run queue and an LWP is parked, the signal of \<open>lwp_release\<close> is pending, or two LWPs
are at work.\<close>

lemma parked_woken:
  assumes ok: "mt_ok N n loc s" and t: "t \<in> set (tq_waiters s (Runq_table i))" and k: "k \<in> parked_lwps N s"
  shows "0 < cond_woken s \<or> 2 \<le> card (started_lwps N s - parked_lwps N s)"
proof -
  note pl = mt_okD(1) [OF ok] and cn = countersD [OF mt_okD(4) [OF ok]]
  have "in_queue s t (Runq_table i)" using placesD(1) [OF pl placesD(7) [OF pl t]] placesD(8) [OF pl t] by (simp add: place_ok_def)
  then have "i \<le> MT_MAXPRIO" using placesD(2) [OF pl placesD(7) [OF pl t]] by (simp add: in_queue_def)
  then have "length (tq_waiters s (Runq_table i)) \<le> runq_count s"
    unfolding runq_count_def by (intro member_le_sum) simp_all
  then have "0 < runq_size s" using cn(6) t by (cases "tq_waiters s (Runq_table i)") simp_all
  moreover have "lwp_parked_cnt s \<noteq> 0" using cn(1) k by auto
  moreover have "parked_lwps N s \<subseteq> started_lwps N s" by (auto simp: parked_lwps_def started_lwps_def lwp_start_def)
  then have "card (started_lwps N s - parked_lwps N s) = lwp_cnt s - lwp_parked_cnt s" using cn(1,2) by (simp add: card_Diff_subset)
  ultimately show ?thesis using cn(9) by linarith
qed

text \<open>C11. The locks of the library never block all processors: in every reachable state some LWP is in the program
of its thread or can execute its next step, unless an LWP is about to report that no thread can run. A parked
LWP returns only when a signal of \<open>lwp_release\<close> or a spurious return has unblocked it; and when a thread is in a run
queue while LWPs are parked, one of them has been unblocked, or at least two other LWPs are at work. So with two
processors no thread waits in a run queue for an LWP that nobody wakes.\<close>

theorem mt_progress:
  assumes "mt_reach N prios s" "\<forall>p\<in>set prios. p \<le> MT_MAXPRIO" "0 < N"
  shows "(\<exists>l<N. can_run s l \<or> lwps_stuck l s) \<and>
    (t \<in> set (tq_waiters s (Runq_table i)) \<and> k \<in> parked_lwps N s \<longrightarrow>
      0 < cond_woken s \<or> 2 \<le> card (started_lwps N s - parked_lwps N s))"
proof -
  obtain loc where ok: "mt_ok N (length prios) loc s" using mt_reach_ok [OF assms(1,2)] by blast
  have "\<exists>l<N. can_run s l \<or> lwps_stuck l s"
  proof (cases "pthread_owner s Runq_mtx")
    case (Some l)
    then show ?thesis using runq_owner_runs [OF ok Some] unblocked_runs [OF ok, of l] by auto
  next
    case None
    have "\<exists>l<N. \<forall>f fs. code s l = f # fs \<longrightarrow> \<not> blocked l f s"
    proof (rule ccontr)
      assume "\<not> ?thesis"
      then have "code s l = [Lwp_parked]" if "l < N" for l using all_parked [OF ok None _ that] by blast
      then have "parked_lwps N s = {..<N}" by (auto simp: parked_lwps_def)
      moreover have "card (started_lwps N s) \<le> card {..<N}" by (rule card_mono) (auto simp: started_lwps_def)
      ultimately show False using countersD(1-3) [OF mt_okD(4) [OF ok]] assms(3) by simp
    qed
    then show ?thesis using unblocked_runs [OF ok] by blast
  qed
  then show ?thesis using parked_woken [OF ok] by blast
qed

theorem mt_progress_witness: "(\<exists>l<2. can_run signal_mt l \<or> lwps_stuck l signal_mt) \<and> 0 < cond_woken signal_mt"
proof -
  have k: "1 \<in> parked_lwps 2 signal_mt" using signal_mt(3) by (simp add: parked_lwps_def)
  have "started_lwps 2 signal_mt - parked_lwps 2 signal_mt \<subseteq> {0}"
    using k by (auto simp: started_lwps_def less_2_cases_iff)
  then have "card (started_lwps 2 signal_mt - parked_lwps 2 signal_mt) \<le> 1" using card_mono [of "{0::nat}"] by fastforce
  then show ?thesis
    using mt_progress [OF signal_mt(1) prios_ok(1), of 1 3 1] k signal_mt(2) by simp
qed

section \<open>Stacks\<close>

text \<open>C12. Every stack of frames is well formed: preemption of a running thread is disabled as often as its stack enables
it again, and its LWP takes clock interrupts exactly when that is never; the context of a thread in a queue
has no POSIX mutex to give back; and an LWP owns exactly the POSIX mutexes its stack will unlock.\<close>

theorem mt_stacks_typed:
  assumes "mt_reach N prios s" "\<forall>p\<in>set prios. p \<le> MT_MAXPRIO"
  shows "(at_place s t (On l) \<longrightarrow> code s l = lwp_switch \<and> good (ut_ctx s t) \<or>
        good (code s l) \<and> ut_no_preempt_count s t = depth (code s l) \<and> masked s l = (0 < depth (code s l))) \<and>
    (at_place s t (In q) \<longrightarrow> good (ut_ctx s t) \<and> posix_held None (ut_ctx s t) = {} \<and> ut_no_preempt_count s t = depth (ut_ctx s t)) \<and>
    (pthread_owner s p = Some l \<longleftrightarrow> l < N \<and> p \<in> posix_held (lwp_pmut s l) (code s l))"
proof -
  obtain loc where ok: "mt_ok N (length prios) loc s" using mt_reach_ok [OF assms] by blast
  have pl: "place_ok N s t x" if "at_place s t x" for x
    using that at_place_loc [OF ok, of t x] placesD(1) [OF mt_okD(1) [OF ok], of t] by simp
  have "at_place s t (On l) \<longrightarrow> code s l = lwp_switch \<and> good (ut_ctx s t) \<or>
      good (code s l) \<and> ut_no_preempt_count s t = depth (code s l) \<and> masked s l = (0 < depth (code s l))"
    using pl [of "On l"] by (auto simp: place_ok_def with_lwp_def leaving_def saved_def Let_def dest: runningD)
  moreover have "at_place s t (In q) \<longrightarrow> good (ut_ctx s t) \<and> posix_held None (ut_ctx s t) = {} \<and>
      ut_no_preempt_count s t = depth (ut_ctx s t)"
    using pl [of "In q"] by (auto simp: place_ok_def in_queue_def saved_def Let_def)
  ultimately show ?thesis using locksD [OF mt_okD(2) [OF ok]] by blast
qed

theorem mt_stacks_typed_witness:
  "good (ut_ctx sample_mt 1) \<and> posix_held None (ut_ctx sample_mt 1) = {} \<and> pthread_owner sample_mt Runq_mtx \<noteq> Some 7"
  using mt_stacks_typed [OF sample_mt(1) prios_ok(1), of 1 7 "M_waiters 5" Runq_mtx] sample_mt(2)
  by (simp add: at_place_def)

end
