(* ===== verification/MazeDefs.thy ===== *)
theory MazeDefs
  imports CPrelude
begin

text \<open>
  The maze programs of \<open>src/systems/cs033/maze\<close>: the rooms and the helpers of \<open>common.c\<close>, the
  generator (\<open>generator.c\<close>) and the solver (\<open>solver.c\<close>).

  The array of rooms is a list and a pointer to a room is its index in that array, so that
  \<open>room - maze\<close> is the index; forming the address of a room outside the array is allowed, using
  it is \<open>None\<close>. \<open>rand()\<close>, which returns a non-negative number, is a parameter: the function from
  the number of the call to the number returned, with a count of the calls in the state. The
  contents of files are strings. The array on the stack has unspecified contents at first, given
  by a parameter.
\<close>

section \<open>common.c\<close>

datatype Direction = NORTH | SOUTH | WEST | EAST

datatype Connection = UNINITIALIZED | OPEN | WALL

record maze_room =
  row :: int
  col :: int
  visited :: bool
  north :: Connection
  south :: Connection
  east :: Connection
  west :: Connection
  link :: "int option"

type_synonym maze = "maze_room list"

definition room_index :: "int \<Rightarrow> int \<Rightarrow> int \<Rightarrow> int" where
  "room_index r c num_cols = r * num_cols + c"

definition room_in_range :: "int \<Rightarrow> int \<Rightarrow> int \<Rightarrow> int \<Rightarrow> bool" where
  "room_in_range r c num_rows num_cols = (\<not> (r < 0 \<or> r \<ge> num_rows \<or> c < 0 \<or> c \<ge> num_cols))"

definition get_neighbor :: "int \<Rightarrow> int \<Rightarrow> Direction \<Rightarrow> int" where
  "get_neighbor num_cols room dir =
     (let rows = room sdiv num_cols;
          cols = room smod num_cols;
          (rows, cols) =
            (if dir = NORTH then (rows - 1, cols)
             else if dir = SOUTH then (rows + 1, cols)
             else if dir = EAST then (rows, cols + 1)
             else (rows, cols - 1))
      in room_index rows cols num_cols)"

definition check_bounds :: "int \<Rightarrow> int \<Rightarrow> int \<Rightarrow> int \<Rightarrow> Direction \<Rightarrow> bool" where
  "check_bounds r c num_rows num_cols dir =
     (if c = 0 \<and> dir = WEST then False
      else if c = num_cols - 1 \<and> dir = EAST then False
      else if r = 0 \<and> dir = NORTH then False
      else if r = num_rows - 1 \<and> dir = SOUTH then False
      else True)"

fun update_connection :: "maze_room \<Rightarrow> Direction \<Rightarrow> Connection \<Rightarrow> maze_room" where
  "update_connection m NORTH c = m\<lparr>north := c\<rparr>"
| "update_connection m SOUTH c = m\<lparr>south := c\<rparr>"
| "update_connection m WEST c = m\<lparr>west := c\<rparr>"
| "update_connection m EAST c = m\<lparr>east := c\<rparr>"

fun get_connection :: "maze_room \<Rightarrow> Direction \<Rightarrow> Connection" where
  "get_connection m NORTH = north m"
| "get_connection m SOUTH = south m"
| "get_connection m WEST = west m"
| "get_connection m EAST = east m"

text \<open>A connection that is neither open nor a wall aborts the program.\<close>

definition check_connect :: "Connection \<Rightarrow> int option" where
  "check_connect c = (if c = OPEN then Some 0 else if c = WALL then Some 1 else None)"

definition zero_room :: "maze_room \<Rightarrow> maze_room" where
  "zero_room room = room\<lparr>row := 0, col := 0, visited := False, north := UNINITIALIZED,
     south := UNINITIALIZED, east := UNINITIALIZED, west := UNINITIALIZED, link := None\<rparr>"

definition upd_room :: "maze \<Rightarrow> int \<Rightarrow> (maze_room \<Rightarrow> maze_room) \<Rightarrow> maze option" where
  "upd_room maze i f = do { m \<leftarrow> aget maze i; aset maze i (f m) }"

definition for_rooms :: "int \<Rightarrow> int \<Rightarrow> (int \<Rightarrow> int \<Rightarrow> 's \<Rightarrow> 's option) \<Rightarrow> 's \<Rightarrow> 's option" where
  "for_rooms rows cols body = c_for 0 rows (\<lambda>i. c_for 0 cols (body i))"

definition zero_maze :: "maze \<Rightarrow> int \<Rightarrow> int \<Rightarrow> maze option" where
  "zero_maze maze rows cols =
     for_rooms rows cols (\<lambda>i k maze. upd_room maze (room_index i k cols) zero_room) maze"

definition hex_to_dir :: "int \<Rightarrow> int \<Rightarrow> bool" where
  "hex_to_dir dir hex = (dir AND hex \<noteq> 0)"

definition position_line :: "int \<Rightarrow> int \<Rightarrow> string" where
  "position_line r c = print_int r @ '', '' @ print_int c @ [CHR 0x0A]"

partial_function (option) traverse :: "maze \<Rightarrow> int option \<Rightarrow> string \<Rightarrow> string option" where
  "traverse maze room fp =
     (case room of
        None \<Rightarrow> Some fp
      | Some p \<Rightarrow> do {
          m \<leftarrow> aget maze p;
          traverse maze (link m) (fp @ position_line (row m) (col m))
        })"

definition from_connect :: "Connection \<Rightarrow> string" where
  "from_connect c =
     (if c = OPEN then ''open'' else if c = WALL then ''wall'' else ''uninitialized'')"

definition print_room :: "maze_room \<Rightarrow> string list" where
  "print_room room =
     [''row: '' @ print_int (row room), ''col: '' @ print_int (col room),
      if visited room then ''visited: true'' else ''visited: false'',
      ''North: '' @ from_connect (north room), ''South: '' @ from_connect (south room),
      ''East: '' @ from_connect (east room), ''West: '' @ from_connect (west room)]"

definition print_maze :: "maze \<Rightarrow> int \<Rightarrow> int \<Rightarrow> string list option" where
  "print_maze maze rows cols =
     for_rooms rows cols (\<lambda>i k ls. do {
       m \<leftarrow> aget maze (room_index i k cols);
       Some (ls @ print_room m @ [[]])
     }) []"

section \<open>generator.c\<close>

definition get_opposite_dir :: "Direction \<Rightarrow> Direction" where
  "get_opposite_dir dir =
     (if dir = NORTH then SOUTH else if dir = SOUTH then NORTH
      else if dir = EAST then WEST else EAST)"

definition shuffle_array ::
  "(nat \<Rightarrow> nat) \<Rightarrow> Direction list \<Rightarrow> nat \<Rightarrow> (Direction list \<times> nat) option" where
  "shuffle_array rand directions calls = c_for 0 4 (\<lambda>i (directions, calls).
     let index = int (rand calls) smod 4 in do {
       temp \<leftarrow> aget directions i;
       other \<leftarrow> aget directions index;
       directions \<leftarrow> aset directions i other;
       directions \<leftarrow> aset directions index temp;
       Some (directions, Suc calls)
     }) (directions, calls)"

text \<open>The statements of \<open>drunken_walk\<close> before its loop; then the loop over the remaining
directions.\<close>

definition enter_room ::
  "(nat \<Rightarrow> nat) \<Rightarrow> int \<Rightarrow> int \<Rightarrow> int \<Rightarrow> maze \<times> nat \<Rightarrow> (Direction list \<times> maze \<times> nat) option" where
  "enter_room rand r c num_cols s = do {
     (dirs, calls) \<leftarrow> shuffle_array rand [NORTH, SOUTH, EAST, WEST] (snd s);
     maze \<leftarrow> upd_room (fst s) (room_index r c num_cols) (\<lambda>m. m\<lparr>row := r, col := c, visited := True\<rparr>);
     Some (dirs, maze, calls)
   }"

partial_function (option) walk_loop ::
  "(nat \<Rightarrow> nat) \<Rightarrow> int \<Rightarrow> int \<Rightarrow> int \<Rightarrow> int \<Rightarrow> Direction list \<Rightarrow> maze \<times> nat \<Rightarrow> (maze \<times> nat) option" where
  "walk_loop rand r c num_rows num_cols dirs s =
     (case dirs of
        [] \<Rightarrow> Some s
      | d # ds \<Rightarrow>
          let m = room_index r c num_cols;
              neighbor = get_neighbor num_cols m d
          in do {
            s \<leftarrow>
              (if \<not> check_bounds r c num_rows num_cols d then do {
                 maze \<leftarrow> upd_room (fst s) m (\<lambda>m. update_connection m d WALL);
                 Some (maze, snd s)
               }
               else if \<not> room_in_range (neighbor sdiv num_cols) (neighbor smod num_cols) num_rows num_cols
               then do {
                 maze \<leftarrow> upd_room (fst s) m (\<lambda>m. update_connection m d WALL);
                 Some (maze, snd s)
               }
               else do {
                 n \<leftarrow> aget (fst s) neighbor;
                 if \<not> visited n then do {
                   maze \<leftarrow> upd_room (fst s) m (\<lambda>m. update_connection m d OPEN);
                   (dirs', s') \<leftarrow> enter_room rand (neighbor sdiv num_cols) (neighbor smod num_cols)
                                   num_cols (maze, snd s);
                   walk_loop rand (neighbor sdiv num_cols) (neighbor smod num_cols)
                     num_rows num_cols dirs' s'
                 }
                 else do {
                   let connect = get_connection n (get_opposite_dir d);
                   maze \<leftarrow> upd_room (fst s) m (\<lambda>m. update_connection m d
                             (if connect = WALL \<or> connect = OPEN then connect else WALL));
                   Some (maze, snd s)
                 }
               });
            walk_loop rand r c num_rows num_cols ds s
          })"

definition drunken_walk ::
  "(nat \<Rightarrow> nat) \<Rightarrow> int \<Rightarrow> int \<Rightarrow> int \<Rightarrow> int \<Rightarrow> maze \<times> nat \<Rightarrow> (maze \<times> nat) option" where
  "drunken_walk rand r c num_rows num_cols s = do {
     (dirs, s) \<leftarrow> enter_room rand r c num_cols s;
     walk_loop rand r c num_rows num_cols dirs s
   }"

definition encode_room :: "maze_room \<Rightarrow> int option" where
  "encode_room room = do {
     e \<leftarrow> check_connect (east room);
     w \<leftarrow> check_connect (west room);
     s \<leftarrow> check_connect (south room);
     n \<leftarrow> check_connect (north room);
     Some (e * 8 + w * 4 + s * 2 + n)
   }"

definition encode_maze :: "maze \<Rightarrow> int \<Rightarrow> int \<Rightarrow> int list \<Rightarrow> int list option" where
  "encode_maze maze num_rows num_cols result =
     for_rooms num_rows num_cols (\<lambda>i k result. do {
       m \<leftarrow> aget maze (room_index i k num_cols);
       x \<leftarrow> encode_room m;
       aset result (room_index i k num_cols) x
     }) result"

text \<open>The files of the system, which of them can be opened for writing, and what a program printed
on its standard output and error streams.\<close>

record disk =
  files :: "string \<Rightarrow> string option"
  writable :: "string \<Rightarrow> bool"
  messages :: "string list"

definition say :: "string \<Rightarrow> disk \<Rightarrow> disk" where
  "say msg w = w\<lparr>messages := messages w @ [msg]\<rparr>"

definition set_file :: "string \<Rightarrow> string \<Rightarrow> disk \<Rightarrow> disk" where
  "set_file f s w = w\<lparr>files := (files w)(f := Some s)\<rparr>"

text \<open>The conversion \<open>%x\<close> of a number of one digit.\<close>

definition hex_digit :: "int \<Rightarrow> char" where
  "hex_digit x = char_of (if x < 10 then 48 + x else 87 + x)"

definition write_maze :: "int list \<Rightarrow> int \<Rightarrow> int \<Rightarrow> string option" where
  "write_maze encoded_maze num_rows num_cols =
     c_for 0 num_rows (\<lambda>i fp. do {
       fp \<leftarrow> c_for 0 num_cols (\<lambda>k fp. do {
         x \<leftarrow> aget encoded_maze (room_index i k num_cols);
         Some (fp @ [hex_digit x])
       }) fp;
       Some (fp @ [CHR 0x0A])
     }) []"

definition stack_array :: "(nat \<Rightarrow> 'a) \<Rightarrow> int \<Rightarrow> 'a list" where
  "stack_array junk n = map junk [0..<nat n]"

text \<open>A value of type \<open>int\<close>, and the number of rooms of an array on the stack: the product of two \<open>int\<close>s must be
one, and \<open>stack\<close> says for how many rooms the stack has space, the recursion over them included.\<close>

definition c_int_value :: "int \<Rightarrow> int option" where
  "c_int_value v = (if - (2 ^ 31) \<le> v \<and> v < 2 ^ 31 then Some v else None)"

definition num_rooms :: "int \<Rightarrow> int \<Rightarrow> int \<Rightarrow> int option" where
  "num_rooms stack num_rows num_cols = do {
     n \<leftarrow> c_int_value (num_rows * num_cols);
     c_assert (n \<le> stack);
     Some n }"

definition generator_main ::
  "int \<Rightarrow> (nat \<Rightarrow> nat) \<Rightarrow> (nat \<Rightarrow> maze_room) \<Rightarrow> (nat \<Rightarrow> int) \<Rightarrow> string list \<Rightarrow> disk \<Rightarrow> (int \<times> disk) option" where
  "generator_main stack rand junk junk2 argv w =
     (if length argv \<noteq> 4 then
        Some (1, say ''./generator <output file> <number of rows> <number of columns>''
                   (say ''Incorrect number of arguments.'' w))
      else do {
        let file_name = argv ! 1;
        num_rows \<leftarrow> c_int_value (atoi (argv ! 2));
        num_cols \<leftarrow> c_int_value (atoi (argv ! 3));
        if num_rows \<le> 0 \<or> num_cols \<le> 0 then Some (1, say ''Invalid size of maze.'' w)
        else do {
          rooms \<leftarrow> num_rooms stack num_rows num_cols;
          maze \<leftarrow> zero_maze (stack_array junk rooms) num_rows num_cols;
          (maze, calls) \<leftarrow> drunken_walk rand 0 0 num_rows num_cols (maze, 0);
          encoded_maze \<leftarrow>
            encode_maze maze num_rows num_cols (stack_array junk2 rooms);
          if \<not> writable w file_name then Some (1, say ''Could not open file.'' w)
          else do {
            fp \<leftarrow> write_maze encoded_maze num_rows num_cols;
            Some (0, set_file file_name fp w)
          }
        }
      })"

section \<open>solver.c\<close>

definition create_room_connections :: "maze_room \<Rightarrow> int \<Rightarrow> maze_room option" where
  "create_room_connections room hex =
     c_for 0 4 (\<lambda>i room. do {
       v \<leftarrow> aget [1, 2, 8, 4] i;
       d \<leftarrow> aget [NORTH, SOUTH, EAST, WEST] i;
       Some (if hex_to_dir v hex then update_connection room d WALL
             else update_connection room d OPEN)
     }) room"

text \<open>The loop of \<open>dfs\<close> over the remaining directions, in the state of the maze and the output file;
its calls of \<open>dfs\<close> are written out.\<close>

partial_function (option) dfs_loop ::
  "int \<Rightarrow> int \<Rightarrow> int \<Rightarrow> int \<Rightarrow> int \<Rightarrow> Direction list \<Rightarrow> maze \<times> string \<Rightarrow> (bool \<times> maze \<times> string) option" where
  "dfs_loop r c goal_row goal_col num_cols dirs s =
     (case dirs of
        [] \<Rightarrow> Some (False, fst s, snd s @ position_line r c)
      | d # ds \<Rightarrow>
          let p = room_index r c num_cols;
              neighbor = get_neighbor num_cols p d
          in do {
            m \<leftarrow> aget (fst s) p;
            again \<leftarrow> (if get_connection m d = OPEN
                      then do { n \<leftarrow> aget (fst s) neighbor; Some (\<not> visited n) } else Some False);
            if again then do {
              n \<leftarrow> aget (fst s) neighbor;
              let fp = snd s @ position_line r c;
              (found, s) \<leftarrow>
                (if row n = goal_row \<and> col n = goal_col
                 then Some (True, fst s, fp @ position_line (row n) (col n))
                 else do {
                   maze \<leftarrow> upd_room (fst s) (room_index (row n) (col n) num_cols)
                             (\<lambda>m. m\<lparr>visited := True\<rparr>);
                   dfs_loop (row n) (col n) goal_row goal_col num_cols [NORTH, SOUTH, EAST, WEST]
                     (maze, fp)
                 });
              if found then do {
                maze \<leftarrow> upd_room (fst s) p (\<lambda>m. m\<lparr>link := Some neighbor\<rparr>);
                Some (True, maze, snd s)
              }
              else dfs_loop r c goal_row goal_col num_cols ds s
            }
            else dfs_loop r c goal_row goal_col num_cols ds s
          })"

definition dfs ::
  "int \<Rightarrow> int \<Rightarrow> int \<Rightarrow> int \<Rightarrow> int \<Rightarrow> maze \<times> string \<Rightarrow> (bool \<times> maze \<times> string) option" where
  "dfs r c goal_row goal_col num_cols s =
     (if r = goal_row \<and> c = goal_col then Some (True, fst s, snd s @ position_line r c)
      else do {
        maze \<leftarrow> upd_room (fst s) (room_index r c num_cols) (\<lambda>m. m\<lparr>visited := True\<rparr>);
        dfs_loop r c goal_row goal_col num_cols [NORTH, SOUTH, EAST, WEST] (maze, snd s)
      })"

text \<open>\<open>fscanf(in, "%1x", &x)\<close> skips white space and takes one character: the end of the file
returns \<open>-1\<close> and a character that is not a hexadecimal digit \<open>0\<close>, both without a value.\<close>

definition hex_value :: "char \<Rightarrow> int option" where
  "hex_value ch =
     (let x = of_char ch :: int in
      if 48 \<le> x \<and> x \<le> 57 then Some (x - 48)
      else if 97 \<le> x \<and> x \<le> 102 then Some (x - 87)
      else if 65 \<le> x \<and> x \<le> 70 then Some (x - 55)
      else None)"

definition scan_hex :: "string \<Rightarrow> int \<times> int option \<times> string" where
  "scan_hex s =
     (case dropWhile isspace s of
        [] \<Rightarrow> (- 1, None, [])
      | ch # cs \<Rightarrow>
          (case hex_value ch of Some x \<Rightarrow> (1, Some x, cs) | None \<Rightarrow> (0, None, ch # cs)))"

text \<open>Reading the maze: \<open>Inl\<close> when \<open>fscanf\<close> returned \<open>0\<close>. After the end of the file the value is the
uninitialised variable, and the program has no defined behaviour.\<close>

definition read_room ::
  "int \<Rightarrow> int \<Rightarrow> int \<Rightarrow> unit + maze \<times> string \<Rightarrow> (unit + maze \<times> string) option" where
  "read_room num_cols i k s =
     (case s of
        Inl u \<Rightarrow> Some (Inl u)
      | Inr (maze, rest) \<Rightarrow>
          (case scan_hex rest of
             (ret, input_hex, rest') \<Rightarrow>
               if ret = 0 then Some (Inl ())
               else do {
                 hex \<leftarrow> input_hex;
                 m \<leftarrow> aget maze (room_index i k num_cols);
                 m \<leftarrow> create_room_connections m hex;
                 maze \<leftarrow> aset maze (room_index i k num_cols) (m\<lparr>row := i, col := k, visited := False\<rparr>);
                 Some (Inr (maze, rest'))
               }))"

definition solve_maze ::
  "bool \<Rightarrow> maze \<Rightarrow> string \<Rightarrow> int \<Rightarrow> int \<Rightarrow> int \<Rightarrow> int \<Rightarrow> int \<Rightarrow> disk \<Rightarrow> (int \<times> disk) option" where
  "solve_maze full maze path_file num_cols start_row start_col goal_row goal_col w =
     (if \<not> writable w path_file then Some (1, say ''Could not open file.'' w)
      else do {
        (found, maze, out) \<leftarrow> dfs start_row start_col goal_row goal_col num_cols
                               (maze, ''FULL'' @ [CHR 0x0A]);
        let w = set_file path_file out w;
        if found then
          if full then Some (0, w)
          else if \<not> writable w path_file then Some (1, say ''Could not open file.'' w)
          else do {
            out \<leftarrow> traverse maze (Some (room_index start_row start_col num_cols)) (''PRUNED'' @ [CHR 0x0A]);
            Some (0, set_file path_file out w)
          }
        else if \<not> writable w path_file then Some (1, say ''Could not open file.'' w)
        else Some (0, set_file path_file (''NO VALID PATHS'' @ [CHR 0x0A]) w)
      })"

definition solver_main ::
  "int \<Rightarrow> bool \<Rightarrow> (nat \<Rightarrow> maze_room) \<Rightarrow> string list \<Rightarrow> disk \<Rightarrow> (int \<times> disk) option" where
  "solver_main stack full junk argv w =
     (if length argv \<noteq> 9 then
        Some (1, say ''./solver <input maze file> <number of rows> <number of columns> <output path file> <starting row> <starting column> <ending row> <ending column>''
                   (say ''Incorrect number of arguments.'' w))
      else do {
        let maze_file = argv ! 1;
        num_rows \<leftarrow> c_int_value (atoi (argv ! 2));
        num_cols \<leftarrow> c_int_value (atoi (argv ! 3));
        let path_file = argv ! 4;
        start_row \<leftarrow> c_int_value (atoi (argv ! 5));
        start_col \<leftarrow> c_int_value (atoi (argv ! 6));
        goal_row \<leftarrow> c_int_value (atoi (argv ! 7));
        goal_col \<leftarrow> c_int_value (atoi (argv ! 8));
        if num_rows \<le> 0 \<or> num_cols \<le> 0 then Some (1, say ''Invalid size of maze.'' w)
        else if start_row < 0 \<or> start_col < 0 \<or> start_row \<ge> num_rows \<or> start_col \<ge> num_cols
        then Some (1, say ''Invalid starting position.'' w)
        else if goal_row \<ge> num_rows \<or> goal_col \<ge> num_cols
        then Some (1, say ''Invalid ending position.'' w)
        else do {
          rooms \<leftarrow> num_rooms stack num_rows num_cols;
          maze \<leftarrow> zero_maze (stack_array junk rooms) num_rows num_cols;
          case files w maze_file of
            None \<Rightarrow> Some (1, say ''Could not open file.'' w)
          | Some text \<Rightarrow> do {
              s \<leftarrow> for_rooms num_rows num_cols (read_room num_cols) (Inr (maze, text));
              case s of
                Inl _ \<Rightarrow> Some (1, say ''Problem reading in character.'' w)
              | Inr (maze, _) \<Rightarrow>
                  solve_maze full maze path_file num_cols start_row start_col goal_row goal_col w
            }
        }
      })"

end
