(* ===== verification/MazeGrid.thy ===== *)
theory MazeGrid
  imports MazeDefs
begin

text \<open>
  The rooms of a maze as the cells of a grid: the array access of \<open>common.c\<close> in terms of cells,
  the loops over all rooms, and the graph of the open connections.
\<close>

section \<open>Cells\<close>

type_synonym cell = "int \<times> int"

definition cells :: "int \<Rightarrow> int \<Rightarrow> cell set" where
  "cells R C = {0..<R} \<times> {0..<C}"

fun step :: "cell \<Rightarrow> Direction \<Rightarrow> cell" where
  "step (r, c) NORTH = (r - 1, c)"
| "step (r, c) SOUTH = (r + 1, c)"
| "step (r, c) WEST = (r, c - 1)"
| "step (r, c) EAST = (r, c + 1)"

definition pos :: "int \<Rightarrow> cell \<Rightarrow> int" where
  "pos C p = room_index (fst p) (snd p) C"

definition room_at :: "int \<Rightarrow> maze \<Rightarrow> cell \<Rightarrow> maze_room" where
  "room_at C maze p = maze ! nat (pos C p)"

abbreviation conn :: "int \<Rightarrow> maze \<Rightarrow> cell \<Rightarrow> Direction \<Rightarrow> Connection" where
  "conn C maze p d \<equiv> get_connection (room_at C maze p) d"

definition grid :: "int \<Rightarrow> int \<Rightarrow> maze \<Rightarrow> bool" where
  "grid R C maze \<longleftrightarrow> 0 < R \<and> 0 < C \<and> length maze = nat (R * C)"

lemma finite_cells [simp]: "finite (cells R C)"
  by (simp add: cells_def)

lemma cells_bounds: "p \<in> cells R C \<longleftrightarrow> 0 \<le> fst p \<and> fst p < R \<and> 0 \<le> snd p \<and> snd p < C"
  by (cases p) (auto simp: cells_def)

lemma card_cells: "0 \<le> R \<Longrightarrow> 0 \<le> C \<Longrightarrow> int (card (cells R C)) = R * C"
  by (simp add: cells_def)

lemma pos_div: "0 \<le> snd p \<Longrightarrow> snd p < C \<Longrightarrow> pos C p div C = fst p"
  by (simp add: pos_def room_index_def)

lemma pos_mod: "0 \<le> snd p \<Longrightarrow> snd p < C \<Longrightarrow> pos C p mod C = snd p"
  by (simp add: pos_def room_index_def)

lemma pos_range:
  assumes "p \<in> cells R C"
  shows "0 \<le> pos C p" "pos C p < R * C"
proof -
  have b: "0 \<le> fst p" "fst p + 1 \<le> R" "0 \<le> snd p" "snd p < C" using assms by (auto simp: cells_bounds)
  then show "0 \<le> pos C p" by (simp add: pos_def room_index_def)
  have "(fst p + 1) * C \<le> R * C" by (rule mult_right_mono) (use b in auto)
  then show "pos C p < R * C" using b by (simp add: pos_def room_index_def algebra_simps)
qed

lemma pos_inj: "p \<in> cells R C \<Longrightarrow> q \<in> cells R C \<Longrightarrow> pos C p = pos C q \<longleftrightarrow> p = q"
  using pos_div pos_mod by (metis cells_bounds prod_eqI)

lemma get_room: "grid R C maze \<Longrightarrow> p \<in> cells R C \<Longrightarrow> aget maze (pos C p) = Some (room_at C maze p)"
  using pos_range [of p R C] by (auto simp: aget_def grid_def room_at_def)

lemma set_room:
  assumes "grid R C maze" "p \<in> cells R C"
  obtains maze' where "aset maze (pos C p) m = Some maze'" "grid R C maze'"
    "\<And>q. q \<in> cells R C \<Longrightarrow> room_at C maze' q = (if q = p then m else room_at C maze q)"
proof
  have r: "0 \<le> pos C p" "nat (pos C p) < length maze"
    using assms pos_range [of p R C] by (auto simp: grid_def)
  show "aset maze (pos C p) m = Some (maze[nat (pos C p) := m])" using r by (simp add: aset_def)
  show "grid R C (maze[nat (pos C p) := m])" using assms by (simp add: grid_def)
  show "room_at C (maze[nat (pos C p) := m]) q = (if q = p then m else room_at C maze q)"
    if "q \<in> cells R C" for q
    using that r assms(2) pos_range [OF that] pos_range [OF assms(2)] pos_inj [OF that assms(2)]
    by (auto simp: room_at_def nth_list_update)
qed

lemma upd_room_ok:
  assumes "grid R C maze" "p \<in> cells R C"
  obtains maze' where "upd_room maze (pos C p) f = Some maze'" "grid R C maze'"
    "\<And>q. q \<in> cells R C \<Longrightarrow>
      room_at C maze' q = (if q = p then f (room_at C maze p) else room_at C maze q)"
  using set_room [OF assms, of "f (room_at C maze p)"] get_room [OF assms]
  by (auto simp: upd_room_def)

lemma get_update_connection [simp]:
  "get_connection (update_connection m d x) e = (if e = d then x else get_connection m e)"
  by (cases d; cases e) simp_all

lemma update_connection_fields [simp]:
  "visited (update_connection m d x) = visited m" "row (update_connection m d x) = row m"
  "col (update_connection m d x) = col m" "link (update_connection m d x) = link m"
  by (cases d; simp)+

lemma get_connection_fields [simp]:
  "get_connection (m\<lparr>visited := b\<rparr>) d = get_connection m d"
  "get_connection (m\<lparr>row := i\<rparr>) d = get_connection m d"
  "get_connection (m\<lparr>col := i\<rparr>) d = get_connection m d"
  "get_connection (m\<lparr>link := l\<rparr>) d = get_connection m d"
  by (cases d; simp)+

section \<open>Neighbours\<close>

lemma Direction_distinct: "set [NORTH, SOUTH, EAST, WEST] = UNIV"
  using Direction.exhaust by auto

lemma step_opposite [simp]: "step (step p d) (get_opposite_dir d) = p"
  by (cases p; cases d) (auto simp: get_opposite_dir_def)

lemma opposite_opposite [simp]: "get_opposite_dir (get_opposite_dir d) = d"
  by (cases d) (auto simp: get_opposite_dir_def)

lemma step_neq [simp]: "step p d \<noteq> p" "p \<noteq> step p d"
  by (cases p; cases d; simp)+

lemma step_inj [simp]: "step p d = step p e \<longleftrightarrow> d = e"
  by (cases p; cases d; cases e) auto

lemma check_bounds_step:
  "p \<in> cells R C \<Longrightarrow> check_bounds (fst p) (snd p) R C d \<longleftrightarrow> step p d \<in> cells R C"
  by (cases p; cases d) (auto simp: check_bounds_def cells_def)

lemma get_neighbor_step:
  assumes "p \<in> cells R C"
  shows "get_neighbor C (pos C p) d = pos C (step p d)"
proof -
  have "pos C p sdiv C = fst p" "pos C p smod C = snd p"
    using assms pos_range [OF assms] pos_div [of p C] pos_mod [of p C]
    by (auto simp: sdiv_nonneg smod_nonneg cells_bounds)
  then show ?thesis by (cases p; cases d) (simp_all add: get_neighbor_def pos_def)
qed

lemma pos_coords:
  assumes "p \<in> cells R C"
  shows "pos C p sdiv C = fst p" "pos C p smod C = snd p"
  using assms pos_range [OF assms] pos_div [of p C] pos_mod [of p C]
  by (auto simp: sdiv_nonneg smod_nonneg cells_bounds)

lemma room_in_range_cells [simp]: "room_in_range r c R C \<longleftrightarrow> (r, c) \<in> cells R C"
  by (auto simp: room_in_range_def cells_def)

section \<open>Loops over all rooms\<close>

text \<open>The rooms a loop over rows and columns has passed when it is at \<open>(i, k)\<close>.\<close>

definition before :: "cell \<Rightarrow> cell \<Rightarrow> bool" where
  "before q p \<longleftrightarrow> fst q < fst p \<or> (fst q = fst p \<and> snd q < snd p)"

lemma for_rooms_invariant:
  assumes "0 \<le> R" "0 \<le> C" "I (0, 0) s"
    and body: "\<And>i k s. (i, k) \<in> cells R C \<Longrightarrow> I (i, k) s \<Longrightarrow> \<exists>s'. body i k s = Some s' \<and> I (i, k + 1) s'"
    and row_end: "\<And>i s. 0 \<le> i \<Longrightarrow> i < R \<Longrightarrow> I (i, C) s \<Longrightarrow> I (i + 1, 0) s"
  shows "\<exists>s'. for_rooms R C body s = Some s' \<and> I (R, 0) s'"
  unfolding for_rooms_def
proof (rule c_for_invariant [where I = "\<lambda>i. I (i, 0)"])
  fix i s
  assume i: "0 \<le> i" "i < R" "I (i, 0) s"
  have "\<exists>s'. c_for 0 C (body i) s = Some s' \<and> I (i, C) s'"
    by (rule c_for_invariant [where I = "\<lambda>k. I (i, k)"])
      (use i assms(2) body in \<open>auto simp: cells_def\<close>)
  then show "\<exists>s'. c_for 0 C (body i) s = Some s' \<and> I (i + 1, 0) s'" using row_end i by blast
qed (use assms in auto)

lemma before_row_end: "q \<in> cells R C \<Longrightarrow> before q (i, C) \<longleftrightarrow> before q (i + 1, 0)"
  by (auto simp: before_def cells_bounds)

lemma before_start: "q \<in> cells R C \<Longrightarrow> \<not> before q (0, 0)"
  by (auto simp: before_def cells_bounds)

lemma before_end: "q \<in> cells R C \<Longrightarrow> before q (R, 0)"
  by (auto simp: before_def cells_bounds)

lemma before_irrefl [simp]: "\<not> before p p"
  by (simp add: before_def)

lemma before_next: "before q (i, k + 1) \<longleftrightarrow> before q (i, k) \<or> q = (i, k)"
  by (cases q) (auto simp: before_def)

lemma length_stack_array [simp]: "length (stack_array junk n) = nat n"
  by (simp add: stack_array_def)

lemma zero_maze_ok:
  assumes "grid R C maze"
  obtains maze' where "zero_maze maze R C = Some maze'" "grid R C maze'"
    "\<And>q. q \<in> cells R C \<Longrightarrow> room_at C maze' q = zero_room (room_at C maze q)"
proof -
  have "\<exists>maze'. zero_maze maze R C = Some maze' \<and> grid R C maze' \<and>
    (\<forall>q\<in>cells R C. room_at C maze' q =
      (if before q (R, 0) then zero_room (room_at C maze q) else room_at C maze q))"
    unfolding zero_maze_def
  proof (rule for_rooms_invariant [where I = "\<lambda>p maze'. grid R C maze' \<and>
      (\<forall>q\<in>cells R C. room_at C maze' q =
        (if before q p then zero_room (room_at C maze q) else room_at C maze q))"])
    fix i k maze'
    assume ik: "(i, k) \<in> cells R C"
      and inv: "grid R C maze' \<and> (\<forall>q\<in>cells R C. room_at C maze' q =
        (if before q (i, k) then zero_room (room_at C maze q) else room_at C maze q))"
    obtain maze2 where u: "upd_room maze' (pos C (i, k)) zero_room = Some maze2" "grid R C maze2"
      "\<And>q. q \<in> cells R C \<Longrightarrow> room_at C maze2 q =
        (if q = (i, k) then zero_room (room_at C maze' (i, k)) else room_at C maze' q)"
      using upd_room_ok [of R C maze' "(i, k)" zero_room] ik inv by auto
    show "\<exists>s'. upd_room maze' (room_index i k C) zero_room = Some s' \<and> grid R C s' \<and>
      (\<forall>q\<in>cells R C. room_at C s' q =
        (if before q (i, k + 1) then zero_room (room_at C maze q) else room_at C maze q))"
      using u inv ik by (auto simp: pos_def before_next)
  qed (use assms in \<open>auto simp: grid_def before_start before_row_end\<close>)
  then show ?thesis using that by (auto simp: before_end)
qed

section \<open>Open connections\<close>

definition open_steps :: "int \<Rightarrow> int \<Rightarrow> maze \<Rightarrow> (cell \<times> cell) set" where
  "open_steps R C maze = {(p, step p d) | p d. p \<in> cells R C \<and> conn C maze p d = OPEN}"

definition open_edges :: "int \<Rightarrow> int \<Rightarrow> maze \<Rightarrow> cell set set" where
  "open_edges R C maze = {{p, step p d} | p d. p \<in> cells R C \<and> conn C maze p d = OPEN}"

definition symmetric_maze :: "int \<Rightarrow> int \<Rightarrow> maze \<Rightarrow> bool" where
  "symmetric_maze R C maze \<longleftrightarrow> (\<forall>p\<in>cells R C. \<forall>d. step p d \<in> cells R C \<longrightarrow>
     conn C maze (step p d) (get_opposite_dir d) = conn C maze p d)"

definition closed_maze :: "int \<Rightarrow> int \<Rightarrow> maze \<Rightarrow> bool" where
  "closed_maze R C maze \<longleftrightarrow> (\<forall>p\<in>cells R C. \<forall>d. step p d \<notin> cells R C \<longrightarrow> conn C maze p d = WALL)"

text \<open>A perfect maze: every connection is decided, both sides agree, the border is closed, every room
can be reached from the first one, and there are just enough open connections for that.\<close>

definition perfect_maze :: "int \<Rightarrow> int \<Rightarrow> maze \<Rightarrow> bool" where
  "perfect_maze R C maze \<longleftrightarrow>
     grid R C maze \<and>
     (\<forall>p\<in>cells R C. \<forall>d. conn C maze p d \<noteq> UNINITIALIZED) \<and>
     symmetric_maze R C maze \<and> closed_maze R C maze \<and>
     (\<forall>p\<in>cells R C. ((0, 0), p) \<in> (open_steps R C maze)\<^sup>*) \<and>
     int (card (open_edges R C maze)) = R * C - 1"

lemma open_step_intro:
  "p \<in> cells R C \<Longrightarrow> conn C maze p d = OPEN \<Longrightarrow> (p, step p d) \<in> open_steps R C maze"
  unfolding open_steps_def by blast

lemma open_edge_intro:
  "p \<in> cells R C \<Longrightarrow> conn C maze p d = OPEN \<Longrightarrow> {p, step p d} \<in> open_edges R C maze"
  unfolding open_edges_def by blast

lemma open_steps_sym:
  assumes "symmetric_maze R C maze" "closed_maze R C maze"
  shows "sym (open_steps R C maze)"
proof (rule symI)
  fix p q assume "(p, q) \<in> open_steps R C maze"
  then obtain d where d: "q = step p d" "p \<in> cells R C" "conn C maze p d = OPEN"
    by (auto simp: open_steps_def)
  then have "q \<in> cells R C" using assms(2) unfolding closed_maze_def by (metis Connection.distinct(5))
  moreover have "conn C maze q (get_opposite_dir d) = OPEN"
    using assms(1) d calculation by (auto simp: symmetric_maze_def)
  ultimately show "(q, p) \<in> open_steps R C maze"
    using open_step_intro [of q R C maze "get_opposite_dir d"] d by auto
qed

lemma perfect_maze_connected:
  assumes "perfect_maze R C maze" "p \<in> cells R C" "q \<in> cells R C"
  shows "(p, q) \<in> (open_steps R C maze)\<^sup>*"
proof -
  have "sym ((open_steps R C maze)\<^sup>*)"
    using assms(1) by (intro sym_rtrancl open_steps_sym) (auto simp: perfect_maze_def)
  then have "(p, (0, 0)) \<in> (open_steps R C maze)\<^sup>*"
    using assms by (auto simp: perfect_maze_def dest: symD)
  also have "((0, 0), q) \<in> (open_steps R C maze)\<^sup>*" using assms by (auto simp: perfect_maze_def)
  finally show ?thesis .
qed

end
