(* ===== verification/MazeGen.thy ===== *)
theory MazeGen
  imports MazeGrid
begin

text \<open>
  The generator: the shuffle permutes the directions, and the random walk over a zeroed maze visits
  every room and leaves a perfect maze.
\<close>

section \<open>The shuffle\<close>

lemma aset_mset_swap:
  assumes "0 \<le> i" "i < int (length xs)" "0 \<le> j" "j < int (length xs)"
  shows "\<exists>ys zs. aset xs i (xs ! nat j) = Some ys \<and> aset ys j (xs ! nat i) = Some zs \<and>
    mset zs = mset xs"
  using assms by (auto simp: aset_def mset_swap nat_less_iff)

lemma shuffle_array_ok:
  assumes "length dirs = 4"
  shows "\<exists>dirs' calls'. shuffle_array rand dirs calls = Some (dirs', calls') \<and> mset dirs' = mset dirs"
proof -
  have "\<exists>s. shuffle_array rand dirs calls = Some s \<and> mset (fst s) = mset dirs"
    unfolding shuffle_array_def
  proof (rule c_for_invariant [where I = "\<lambda>i s. mset (fst s) = mset dirs"])
    fix i :: int and s :: "Direction list \<times> nat"
    assume i: "0 \<le> i" "i < 4" "mset (fst s) = mset dirs"
    define index where "index = int (rand (snd s)) smod 4"
    have len: "length (fst s) = 4" using i(3) assms by (metis size_mset)
    have r: "0 \<le> index" "index < 4" by (auto simp: index_def smod_nonneg)
    obtain ys zs where "aset (fst s) i (fst s ! nat index) = Some ys" "aset ys index (fst s ! nat i) = Some zs"
      "mset zs = mset (fst s)"
      using aset_mset_swap [of i "fst s" index] i r len by auto
    then show "\<exists>s'. (case s of (directions, calls) \<Rightarrow> let index = int (rand calls) smod 4 in do {
        temp \<leftarrow> aget directions i; other \<leftarrow> aget directions index;
        directions \<leftarrow> aset directions i other; directions \<leftarrow> aset directions index temp;
        Some (directions, Suc calls) }) = Some s' \<and> mset (fst s') = mset dirs"
      using i r len by (auto simp: aget_def index_def [symmetric] split_beta)
  qed auto
  then show ?thesis by (auto simp: split_paired_Ex)
qed

lemma enter_room_ok:
  assumes "grid R C maze" "p \<in> cells R C"
  obtains dirs maze' calls' where
    "enter_room rand (fst p) (snd p) C (maze, calls) = Some (dirs, maze', calls')"
    "distinct dirs" "set dirs = UNIV" "grid R C maze'"
    "\<And>q. q \<in> cells R C \<Longrightarrow> room_at C maze' q =
      (if q = p then (room_at C maze p)\<lparr>row := fst p, col := snd p, visited := True\<rparr>
       else room_at C maze q)"
proof -
  obtain dirs calls' where sh:
    "shuffle_array rand [NORTH, SOUTH, EAST, WEST] calls = Some (dirs, calls')"
    "mset dirs = mset [NORTH, SOUTH, EAST, WEST]"
    using shuffle_array_ok [of "[NORTH, SOUTH, EAST, WEST]" rand calls] by auto
  have d: "distinct dirs" "set dirs = UNIV"
    using mset_eq_imp_distinct_iff [OF sh(2)] mset_eq_setD [OF sh(2)] Direction_distinct by auto
  obtain maze' where u:
    "upd_room maze (pos C p) (\<lambda>m. m\<lparr>row := fst p, col := snd p, visited := True\<rparr>) = Some maze'"
    "grid R C maze'"
    "\<And>q. q \<in> cells R C \<Longrightarrow> room_at C maze' q =
      (if q = p then (room_at C maze p)\<lparr>row := fst p, col := snd p, visited := True\<rparr>
       else room_at C maze q)"
    using upd_room_ok [OF assms] by blast
  show thesis
    by (rule that [OF _ d u(2,3)]) (use sh u(1) in \<open>simp_all add: enter_room_def pos_def\<close>)
qed

section \<open>The invariant of the walk\<close>

abbreviation seen :: "int \<Rightarrow> maze \<Rightarrow> cell \<Rightarrow> bool" where
  "seen C maze p \<equiv> visited (room_at C maze p)"

text \<open>An unvisited room has no connections; a decided connection inside the maze leads to a visited
room; both sides of a decided connection agree; the visited rooms are a tree of open connections.\<close>

definition walked :: "int \<Rightarrow> int \<Rightarrow> maze \<Rightarrow> bool" where
  "walked R C maze \<longleftrightarrow>
     grid R C maze \<and>
     (\<forall>p\<in>cells R C. \<not> seen C maze p \<longrightarrow> (\<forall>d. conn C maze p d = UNINITIALIZED)) \<and>
     (\<forall>p\<in>cells R C. \<forall>d. step p d \<notin> cells R C \<longrightarrow> conn C maze p d \<noteq> OPEN) \<and>
     (\<forall>p\<in>cells R C. \<forall>d. step p d \<in> cells R C \<longrightarrow> conn C maze p d \<noteq> UNINITIALIZED \<longrightarrow>
        seen C maze (step p d)) \<and>
     (\<forall>p\<in>cells R C. \<forall>d. step p d \<in> cells R C \<longrightarrow> conn C maze p d \<noteq> UNINITIALIZED \<longrightarrow>
        conn C maze (step p d) (get_opposite_dir d) \<noteq> UNINITIALIZED \<longrightarrow>
        conn C maze (step p d) (get_opposite_dir d) = conn C maze p d) \<and>
     (\<forall>p\<in>cells R C. seen C maze p \<longrightarrow> ((0, 0), p) \<in> (open_steps R C maze)\<^sup>*) \<and>
     card (open_edges R C maze) + 1 = card {p \<in> cells R C. seen C maze p}"

lemma walked_reach:
  "walked R C maze \<Longrightarrow> p \<in> cells R C \<Longrightarrow> seen C maze p \<Longrightarrow> ((0, 0), p) \<in> (open_steps R C maze)\<^sup>*"
  by (simp add: walked_def)

definition unseen :: "int \<Rightarrow> int \<Rightarrow> maze \<Rightarrow> nat" where
  "unseen R C maze = card {p \<in> cells R C. \<not> seen C maze p}"

lemma finite_open_edges: "finite (open_edges R C maze)"
proof -
  have "open_edges R C maze \<subseteq> (\<lambda>(p, d). {p, step p d}) ` (cells R C \<times> UNIV)"
    unfolding open_edges_def by blast
  moreover have "finite (UNIV :: Direction set)" using Direction_distinct by (metis List.finite_set)
  ultimately show ?thesis by (meson finite_SigmaI finite_cells finite_imageI finite_subset)
qed

text \<open>What an \<open>update_connection\<close> of the walk does to the maze.\<close>

definition decides :: "int \<Rightarrow> int \<Rightarrow> cell \<Rightarrow> Direction \<Rightarrow> Connection \<Rightarrow> maze \<Rightarrow> maze \<Rightarrow> bool" where
  "decides R C p d x maze maze' \<longleftrightarrow> grid R C maze' \<and> (\<forall>q\<in>cells R C. room_at C maze' q =
     (if q = p then update_connection (room_at C maze p) d x else room_at C maze q))"

lemma decides_conn:
  "decides R C p d x maze maze' \<Longrightarrow> q \<in> cells R C \<Longrightarrow>
    conn C maze' q e = (if q = p \<and> e = d then x else conn C maze q e)"
  by (auto simp: decides_def)

lemma decides_seen:
  "decides R C p d x maze maze' \<Longrightarrow> q \<in> cells R C \<Longrightarrow> seen C maze' q = seen C maze q"
  by (auto simp: decides_def)

lemma upd_decides:
  assumes "grid R C maze" "p \<in> cells R C"
  obtains maze' where "upd_room maze (pos C p) (\<lambda>m. update_connection m d x) = Some maze'"
    "decides R C p d x maze maze'"
  using upd_room_ok [OF assms, of "\<lambda>m. update_connection m d x"]
  unfolding decides_def by metis

text \<open>The same open connections, the same visited rooms.\<close>

lemma walked_same_open:
  assumes w: "walked R C maze" and p: "p \<in> cells R C" and seen: "seen C maze p"
    and dec: "decides R C p d x maze maze'"
    and un: "conn C maze p d = UNINITIALIZED"
    and out: "step p d \<notin> cells R C \<Longrightarrow> x = WALL"
    and ins: "step p d \<in> cells R C \<Longrightarrow> seen C maze (step p d) \<and>
      (let y = conn C maze (step p d) (get_opposite_dir d) in x = (if y = UNINITIALIZED then WALL else y))"
  shows "walked R C maze'"
proof -
  note conn = decides_conn [OF dec] and sn = decides_seen [OF dec]
  have seen': "{q \<in> cells R C. seen C maze' q} = {q \<in> cells R C. seen C maze q}"
    using sn by auto
  have op: "q \<in> cells R C \<Longrightarrow> conn C maze' q e = OPEN \<Longrightarrow>
      \<exists>q2\<in>cells R C. \<exists>e2. conn C maze q2 e2 = OPEN \<and> {q, step q e} = {q2, step q2 e2}" for q e
  proof (cases "q = p \<and> e = d")
    case True
    assume a: "q \<in> cells R C" "conn C maze' q e = OPEN"
    then have "x = OPEN" using True conn [of p d] by auto
    moreover from this have inside: "step p d \<in> cells R C" using out by auto
    ultimately have "conn C maze (step p d) (get_opposite_dir d) = OPEN"
      using ins by (cases "conn C maze (step p d) (get_opposite_dir d) = UNINITIALIZED") (auto simp: Let_def)
    note inside = inside this
    from inside show ?thesis using True
      by (intro bexI [of _ "step p d"] exI [of _ "get_opposite_dir d"]) auto
  next
    case False
    assume "q \<in> cells R C" "conn C maze' q e = OPEN"
    then show ?thesis using False conn [of q e] by auto
  qed
  have mono: "conn C maze q e = OPEN \<Longrightarrow> q \<in> cells R C \<Longrightarrow> conn C maze' q e = OPEN" for q e
    using conn [of q e] un by auto
  have edges: "open_edges R C maze' = open_edges R C maze"
  proof
    show "open_edges R C maze' \<subseteq> open_edges R C maze"
      unfolding open_edges_def using op by (smt (verit, ccfv_threshold) Collect_mono_iff)
    show "open_edges R C maze \<subseteq> open_edges R C maze'"
      unfolding open_edges_def using mono by blast
  qed
  have steps: "open_steps R C maze \<subseteq> open_steps R C maze'"
    unfolding open_steps_def using mono by blast
  have reach: "\<forall>q\<in>cells R C. seen C maze' q \<longrightarrow> ((0, 0), q) \<in> (open_steps R C maze')\<^sup>*"
    using sn rtrancl_mono [OF steps] walked_reach [OF w] by blast
  have no_conn: "\<forall>q\<in>cells R C. \<not> seen C maze' q \<longrightarrow> (\<forall>e. conn C maze' q e = UNINITIALIZED)"
    using w sn conn seen unfolding walked_def by metis
  have border: "\<forall>q\<in>cells R C. \<forall>e. step q e \<notin> cells R C \<longrightarrow> conn C maze' q e \<noteq> OPEN"
    using w conn out unfolding walked_def by (metis Connection.distinct(5))
  have leads: "\<forall>q\<in>cells R C. \<forall>e. step q e \<in> cells R C \<longrightarrow> conn C maze' q e \<noteq> UNINITIALIZED \<longrightarrow>
      seen C maze' (step q e)"
    using w conn ins sn unfolding walked_def by metis
  have agree: "\<forall>q\<in>cells R C. \<forall>e. step q e \<in> cells R C \<longrightarrow> conn C maze' q e \<noteq> UNINITIALIZED \<longrightarrow>
      conn C maze' (step q e) (get_opposite_dir e) \<noteq> UNINITIALIZED \<longrightarrow>
      conn C maze' (step q e) (get_opposite_dir e) = conn C maze' q e"
  proof (intro ballI allI impI)
    fix q e assume a: "q \<in> cells R C" "step q e \<in> cells R C" "conn C maze' q e \<noteq> UNINITIALIZED"
      "conn C maze' (step q e) (get_opposite_dir e) \<noteq> UNINITIALIZED"
    consider "q = p \<and> e = d" | "step q e = p \<and> get_opposite_dir e = d" "\<not> (q = p \<and> e = d)"
      | "\<not> (q = p \<and> e = d)" "\<not> (step q e = p \<and> get_opposite_dir e = d)" by blast
    then show "conn C maze' (step q e) (get_opposite_dir e) = conn C maze' q e"
    proof cases
      case 1
      then have "conn C maze' (step p d) (get_opposite_dir d) = conn C maze (step p d) (get_opposite_dir d)"
        using conn [of "step p d" "get_opposite_dir d"] a by auto
      then show ?thesis using 1 ins a conn [of p d] by (auto simp: Let_def)
    next
      case 2
      then have q: "step p d = q" "get_opposite_dir d = e"
        using step_opposite [of q e] opposite_opposite [of e] by auto
      then have "conn C maze' q e = conn C maze q e" using conn [of q e] a 2 by auto
      then show ?thesis using 2 q ins a conn [of p d] by (auto simp: Let_def)
    next
      case 3
      then show ?thesis using conn [of q e] conn [of "step q e" "get_opposite_dir e"] a w
        unfolding walked_def by auto
    qed
  qed
  show ?thesis
    using w dec no_conn border leads agree reach unfolding walked_def seen' edges decides_def by blast
qed

text \<open>Entering a new room through a new open connection.\<close>

lemma walked_enter:
  assumes w: "walked R C maze" and p: "p \<in> cells R C" and seen: "seen C maze p"
    and un: "conn C maze p d = UNINITIALIZED" and n: "step p d \<in> cells R C" "\<not> seen C maze (step p d)"
    and dec: "decides R C p d OPEN maze maze1" and g: "grid R C maze2"
    and rooms: "\<And>q. q \<in> cells R C \<Longrightarrow> room_at C maze2 q =
      (if q = step p d then (room_at C maze1 q)\<lparr>row := r, col := c, visited := True\<rparr> else room_at C maze1 q)"
  shows "walked R C maze2"
proof -
  let ?n = "step p d"
  have conn: "conn C maze2 q e = (if q = p \<and> e = d then OPEN else conn C maze q e)"
    if "q \<in> cells R C" for q e
  proof -
    have "conn C maze2 q e = conn C maze1 q e" using rooms [OF that] by simp
    then show ?thesis using decides_conn [OF dec that, of e] by (rule trans)
  qed
  have sn: "seen C maze2 q = (seen C maze q \<or> q = ?n)" if "q \<in> cells R C" for q
    using rooms [OF that] decides_seen [OF dec that] by simp
  have fresh: "conn C maze ?n e = UNINITIALIZED" for e using w n unfolding walked_def by blast
  have steps: "open_steps R C maze2 = insert (p, ?n) (open_steps R C maze)"
  proof
    show "open_steps R C maze2 \<subseteq> insert (p, ?n) (open_steps R C maze)"
      unfolding open_steps_def using conn by (smt (verit) Collect_mono_iff insert_iff mem_Collect_eq subsetI)
    show "insert (p, ?n) (open_steps R C maze) \<subseteq> open_steps R C maze2"
      using conn p open_step_intro [of _ R C maze2] by (auto simp: open_steps_def [of R C maze])
  qed
  have edges: "open_edges R C maze2 = insert {p, ?n} (open_edges R C maze)"
  proof
    show "open_edges R C maze2 \<subseteq> insert {p, ?n} (open_edges R C maze)"
      unfolding open_edges_def using conn by (smt (verit) insert_iff mem_Collect_eq subsetI)
    show "insert {p, ?n} (open_edges R C maze) \<subseteq> open_edges R C maze2"
      using conn p open_edge_intro [of _ R C maze2] by (auto simp: open_edges_def [of R C maze])
  qed
  have new: "{p, ?n} \<notin> open_edges R C maze"
  proof
    assume "{p, ?n} \<in> open_edges R C maze"
    then obtain q e where q: "{p, ?n} = {q, step q e}" "q \<in> cells R C" "conn C maze q e = OPEN"
      unfolding open_edges_def by blast
    then consider "q = ?n" | "q = p" "step q e = ?n" by (metis doubleton_eq_iff)
    then show False using q un fresh by cases auto
  qed
  have "{q \<in> cells R C. seen C maze2 q} = insert ?n {q \<in> cells R C. seen C maze q}"
    using sn n by blast
  then have "card {q \<in> cells R C. seen C maze2 q} = Suc (card {q \<in> cells R C. seen C maze q})"
    using n by simp
  then have count: "card (open_edges R C maze2) + 1 = card {q \<in> cells R C. seen C maze2 q}"
    using w new edges finite_open_edges [of R C maze] unfolding walked_def by simp
  have mono: "(open_steps R C maze)\<^sup>* \<subseteq> (open_steps R C maze2)\<^sup>*"
    by (rule rtrancl_mono) (auto simp: steps)
  have "((0, 0), p) \<in> (open_steps R C maze2)\<^sup>*" using walked_reach [OF w p seen] mono by blast
  then have to_n: "((0, 0), ?n) \<in> (open_steps R C maze2)\<^sup>*"
    using rtrancl_into_rtrancl steps by (metis insertI1)
  then have reach: "\<forall>q\<in>cells R C. seen C maze2 q \<longrightarrow> ((0, 0), q) \<in> (open_steps R C maze2)\<^sup>*"
  proof (intro ballI impI)
    fix q assume "q \<in> cells R C" "seen C maze2 q"
    then show "((0, 0), q) \<in> (open_steps R C maze2)\<^sup>*"
      using to_n sn [of q] walked_reach [OF w, of q] mono by (cases "q = ?n") auto
  qed
  have no_conn: "\<forall>q\<in>cells R C. \<not> seen C maze2 q \<longrightarrow> (\<forall>e. conn C maze2 q e = UNINITIALIZED)"
  proof (intro ballI impI allI)
    fix q e assume q: "q \<in> cells R C" "\<not> seen C maze2 q"
    then have "\<not> seen C maze q" "q \<noteq> p" using sn [of q] seen by auto
    then show "conn C maze2 q e = UNINITIALIZED" using q conn [of q e] w unfolding walked_def by simp
  qed
  have border: "\<forall>q\<in>cells R C. \<forall>e. step q e \<notin> cells R C \<longrightarrow> conn C maze2 q e \<noteq> OPEN"
    using w conn n unfolding walked_def by metis
  have leads: "\<forall>q\<in>cells R C. \<forall>e. step q e \<in> cells R C \<longrightarrow> conn C maze2 q e \<noteq> UNINITIALIZED \<longrightarrow>
      seen C maze2 (step q e)"
    using w conn sn unfolding walked_def by metis
  have agree: "\<forall>q\<in>cells R C. \<forall>e. step q e \<in> cells R C \<longrightarrow> conn C maze2 q e \<noteq> UNINITIALIZED \<longrightarrow>
      conn C maze2 (step q e) (get_opposite_dir e) \<noteq> UNINITIALIZED \<longrightarrow>
      conn C maze2 (step q e) (get_opposite_dir e) = conn C maze2 q e"
  proof (intro ballI allI impI)
    fix q e assume a: "q \<in> cells R C" "step q e \<in> cells R C" "conn C maze2 q e \<noteq> UNINITIALIZED"
      "conn C maze2 (step q e) (get_opposite_dir e) \<noteq> UNINITIALIZED"
    have "q \<noteq> ?n" using a conn [of q e] fresh [of e] by auto
    moreover have "step q e \<noteq> ?n"
      using a conn [of "step q e" "get_opposite_dir e"] fresh [of "get_opposite_dir e"] by auto
    ultimately have "\<not> (q = p \<and> e = d)" "\<not> (step q e = p \<and> get_opposite_dir e = d)"
      using step_opposite [of q e] by auto
    then show "conn C maze2 (step q e) (get_opposite_dir e) = conn C maze2 q e"
      using conn [of q e] conn [of "step q e" "get_opposite_dir e"] a w unfolding walked_def by auto
  qed
  show ?thesis using g no_conn border leads agree reach count unfolding walked_def by blast
qed

section \<open>The walk\<close>

text \<open>What the loop of a room guarantees: the visited rooms other than its own are as they were, and
the rooms visited since have all their connections decided.\<close>

definition walk_done :: "int \<Rightarrow> int \<Rightarrow> cell \<Rightarrow> maze \<Rightarrow> maze \<Rightarrow> bool" where
  "walk_done R C p maze maze' \<longleftrightarrow> walked R C maze' \<and>
     (\<forall>q\<in>cells R C. seen C maze q \<longrightarrow> seen C maze' q) \<and>
     (\<forall>q\<in>cells R C. seen C maze q \<longrightarrow> q \<noteq> p \<longrightarrow> room_at C maze' q = room_at C maze q) \<and>
     (\<forall>q\<in>cells R C. seen C maze' q \<longrightarrow> \<not> seen C maze q \<or> q = p \<longrightarrow>
        (\<forall>d. conn C maze' q d \<noteq> UNINITIALIZED))"

lemma unseen_mono:
  "\<forall>q\<in>cells R C. seen C maze q \<longrightarrow> seen C maze' q \<Longrightarrow> unseen R C maze' \<le> unseen R C maze"
  unfolding unseen_def by (rule card_mono) auto

lemma unseen_less:
  assumes "\<forall>q\<in>cells R C. seen C maze q \<longrightarrow> seen C maze' q"
    and "n \<in> cells R C" "\<not> seen C maze n" "seen C maze' n"
  shows "unseen R C maze' < unseen R C maze"
  unfolding unseen_def by (rule psubset_card_mono) (use assms in auto)

lemma walk_loop_Nil: "walk_loop rand r c R C [] s = Some s"
  by (simp add: walk_loop.simps)

lemma walk_loop_Cons:
  assumes "p \<in> cells R C"
  shows "walk_loop rand (fst p) (snd p) R C (d # ds) (maze, calls) = do {
    s \<leftarrow>
      (if step p d \<notin> cells R C then do {
         maze \<leftarrow> upd_room maze (pos C p) (\<lambda>m. update_connection m d WALL);
         Some (maze, calls)
       }
       else do {
         n \<leftarrow> aget maze (pos C (step p d));
         if \<not> visited n then do {
           maze \<leftarrow> upd_room maze (pos C p) (\<lambda>m. update_connection m d OPEN);
           (dirs', s') \<leftarrow> enter_room rand (fst (step p d)) (snd (step p d)) C (maze, calls);
           walk_loop rand (fst (step p d)) (snd (step p d)) R C dirs' s'
         }
         else do {
           let y = get_connection n (get_opposite_dir d);
           maze \<leftarrow> upd_room maze (pos C p) (\<lambda>m. update_connection m d
                     (if y = WALL \<or> y = OPEN then y else WALL));
           Some (maze, calls)
         }
       });
    walk_loop rand (fst p) (snd p) R C ds s
  }"
proof -
  show ?thesis
    using pos_coords [of "step p d" R C]
    by (subst walk_loop.simps)
      (cases "step p d \<in> cells R C", simp_all add: get_neighbor_step [OF assms] Let_def
        check_bounds_step [OF assms] flip: pos_def cong: if_cong)
qed

lemma walk_loop_ok:
  assumes "walked R C maze" "p \<in> cells R C" "seen C maze p" "distinct ds"
    and "\<And>d. conn C maze p d = UNINITIALIZED \<longleftrightarrow> d \<in> set ds"
  shows "\<exists>maze' calls'. walk_loop rand (fst p) (snd p) R C ds (maze, calls) = Some (maze', calls') \<and>
    walk_done R C p maze maze'"
  using assms
proof (induction "(unseen R C maze, length ds)" arbitrary: maze calls p ds
    rule: wf_induct_rule [OF wf_lex_prod [OF wf_less wf_less]])
  case (1 maze ds calls p)
  note w = 1(2) and p = 1(3) and sp = 1(4) and dist = 1(5) and un = 1(6)
  have g: "grid R C maze" using w by (simp add: walked_def)
  show ?case
  proof (cases ds)
    case Nil
    then show ?thesis using w un by (auto simp: walk_loop_Nil walk_done_def)
  next
    case (Cons d ds')
    let ?n = "step p d"
    have unp: "conn C maze p d = UNINITIALIZED" using un Cons by simp
    have go_on: "\<exists>maze' calls'. walk_loop rand (fst p) (snd p) R C ds' (maze1, calls1) = Some (maze', calls') \<and>
        walk_done R C p maze maze'"
      if w1: "walked R C maze1" and less: "unseen R C maze1 \<le> unseen R C maze"
        and seen1: "\<forall>q\<in>cells R C. seen C maze q \<longrightarrow> seen C maze1 q"
        and keep: "\<forall>q\<in>cells R C. seen C maze q \<longrightarrow> q \<noteq> p \<longrightarrow> room_at C maze1 q = room_at C maze q"
        and new: "\<forall>q\<in>cells R C. seen C maze1 q \<longrightarrow> \<not> seen C maze q \<longrightarrow> (\<forall>d. conn C maze1 q d \<noteq> UNINITIALIZED)"
        and un1: "\<And>e. conn C maze1 p e = UNINITIALIZED \<longleftrightarrow> e \<in> set ds'" for maze1 calls1
    proof -
      have "\<exists>maze' calls'. walk_loop rand (fst p) (snd p) R C ds' (maze1, calls1) = Some (maze', calls') \<and>
        walk_done R C p maze1 maze'"
        by (rule 1(1)) (use w1 p sp seen1 dist Cons un1 less in \<open>auto simp: le_less\<close>)
      then obtain maze' calls' where r: "walk_loop rand (fst p) (snd p) R C ds' (maze1, calls1) = Some (maze', calls')"
        "walk_done R C p maze1 maze'" by blast
      have "walk_done R C p maze maze'"
        unfolding walk_done_def
      proof (intro conjI ballI impI allI)
        show "walked R C maze'" using r(2) by (simp add: walk_done_def)
      next
        fix q assume "q \<in> cells R C" "seen C maze q"
        then show "seen C maze' q" using r(2) seen1 by (simp add: walk_done_def)
      next
        fix q assume "q \<in> cells R C" "seen C maze q" "q \<noteq> p"
        then show "room_at C maze' q = room_at C maze q"
          using r(2) seen1 keep by (simp add: walk_done_def)
      next
        fix q e assume a: "q \<in> cells R C" "seen C maze' q" "\<not> seen C maze q \<or> q = p"
        show "conn C maze' q e \<noteq> UNINITIALIZED"
        proof (cases "seen C maze1 q \<and> q \<noteq> p")
          case True
          then have "room_at C maze' q = room_at C maze1 q" using r(2) a by (simp add: walk_done_def)
          then show ?thesis using new True a by auto
        next
          case False
          then show ?thesis using r(2) a by (auto simp: walk_done_def)
        qed
      qed
      then show ?thesis using r(1) by blast
    qed
    have decided: "\<exists>maze' calls'. walk_loop rand (fst p) (snd p) R C ds' (maze1, calls) = Some (maze', calls') \<and>
        walk_done R C p maze maze'"
      if w1: "walked R C maze1" and dec: "decides R C p d x maze maze1" and x: "x \<noteq> UNINITIALIZED" for maze1 x
    proof (rule go_on [OF w1])
      show "unseen R C maze1 \<le> unseen R C maze"
        by (rule unseen_mono) (use dec in \<open>simp add: decides_seen\<close>)
      show "\<And>e. conn C maze1 p e = UNINITIALIZED \<longleftrightarrow> e \<in> set ds'"
        using decides_conn [OF dec p] un x Cons dist by auto
      show "\<forall>q\<in>cells R C. seen C maze q \<longrightarrow> q \<noteq> p \<longrightarrow> room_at C maze1 q = room_at C maze q"
        using dec by (simp add: decides_def)
    qed (use dec in \<open>simp_all add: decides_seen\<close>)
    note unfold = walk_loop_Cons [OF p]
    show ?thesis
    proof (cases "?n \<in> cells R C")
      case False
      obtain maze1 where u: "upd_room maze (pos C p) (\<lambda>m. update_connection m d WALL) = Some maze1"
        "decides R C p d WALL maze maze1" using upd_decides [OF g p] by blast
      have "walked R C maze1" by (rule walked_same_open [OF w p sp u(2) unp]) (use False in auto)
      then show ?thesis using decided [OF _ u(2)] False u(1) by (simp add: unfold Cons)
    next
      case inside: True
      note found = get_room [OF g inside]
      show ?thesis
      proof (cases "seen C maze ?n")
        case True
        define y where "y = conn C maze ?n (get_opposite_dir d)"
        define x where "x = (if y = WALL \<or> y = OPEN then y else WALL)"
        obtain maze1 where u: "upd_room maze (pos C p) (\<lambda>m. update_connection m d x) = Some maze1"
          "decides R C p d x maze maze1" using upd_decides [OF g p] by blast
        have "walked R C maze1"
          by (rule walked_same_open [OF w p sp u(2) unp])
            (use inside True in \<open>auto simp: x_def y_def Let_def intro: Connection.exhaust\<close>)
        moreover have "x \<noteq> UNINITIALIZED" by (auto simp: x_def)
        ultimately show ?thesis using decided [OF _ u(2)] True inside u(1) found
          by (cases "conn C maze ?n (get_opposite_dir d)") (simp_all add: unfold Cons x_def y_def)
      next
        case False
        obtain maze1 where u: "upd_room maze (pos C p) (\<lambda>m. update_connection m d OPEN) = Some maze1"
          "decides R C p d OPEN maze maze1" using upd_decides [OF g p] by blast
        have g1: "grid R C maze1" using u(2) by (simp add: decides_def)
        obtain dirs maze2 calls2 where e:
          "enter_room rand (fst ?n) (snd ?n) C (maze1, calls) = Some (dirs, maze2, calls2)"
          "distinct dirs" "set dirs = UNIV" "grid R C maze2"
          "\<And>q. q \<in> cells R C \<Longrightarrow> room_at C maze2 q =
            (if q = ?n then (room_at C maze1 ?n)\<lparr>row := fst ?n, col := snd ?n, visited := True\<rparr>
             else room_at C maze1 q)"
          using enter_room_ok [OF g1 inside] by metis
        have w2: "walked R C maze2"
          by (rule walked_enter [OF w p sp unp inside False u(2) e(4)]) (use e(5) in auto)
        have seen2: "seen C maze2 q = (seen C maze q \<or> q = ?n)" if "q \<in> cells R C" for q
          using e(5) [OF that] decides_seen [OF u(2) that] by simp
        have less: "unseen R C maze2 < unseen R C maze"
          by (rule unseen_less [OF _ inside False]) (use seen2 inside in auto)
        have "conn C maze ?n e = UNINITIALIZED" for e using w inside False by (simp add: walked_def)
        then have "conn C maze2 ?n e = UNINITIALIZED" for e
          using e(5) [OF inside] decides_conn [OF u(2) inside, of e] by simp
        then have "\<exists>maze' calls'. walk_loop rand (fst ?n) (snd ?n) R C dirs (maze2, calls2) = Some (maze', calls') \<and>
            walk_done R C ?n maze2 maze'"
          by (intro 1(1)) (use less w2 inside seen2 e(2,3) in auto)
        then obtain maze3 calls3 where r: "walk_loop rand (fst ?n) (snd ?n) R C dirs (maze2, calls2) = Some (maze3, calls3)"
          "walk_done R C ?n maze2 maze3" by blast
        have "\<exists>maze' calls'. walk_loop rand (fst p) (snd p) R C ds' (maze3, calls3) = Some (maze', calls') \<and>
          walk_done R C p maze maze'"
        proof (rule go_on)
          show "walked R C maze3" using r(2) by (simp add: walk_done_def)
          have s23: "\<forall>q\<in>cells R C. seen C maze2 q \<longrightarrow> seen C maze3 q" using r(2) by (simp add: walk_done_def)
          then show "unseen R C maze3 \<le> unseen R C maze" using unseen_mono less by (meson le_trans less_imp_le)
          show "\<forall>q\<in>cells R C. seen C maze q \<longrightarrow> seen C maze3 q" using s23 seen2 by blast
          have old: "room_at C maze3 q = room_at C maze1 q" if "q \<in> cells R C" "seen C maze q" for q
          proof -
            have "q \<noteq> ?n" using that False by auto
            then show ?thesis using r(2) that seen2 e(5) by (simp add: walk_done_def)
          qed
          show "\<forall>q\<in>cells R C. seen C maze q \<longrightarrow> q \<noteq> p \<longrightarrow> room_at C maze3 q = room_at C maze q"
            using old u(2) by (simp add: decides_def)
          show "\<forall>q\<in>cells R C. seen C maze3 q \<longrightarrow> \<not> seen C maze q \<longrightarrow> (\<forall>d. conn C maze3 q d \<noteq> UNINITIALIZED)"
            using r(2) seen2 unfolding walk_done_def by blast
          show "\<And>e. conn C maze3 p e = UNINITIALIZED \<longleftrightarrow> e \<in> set ds'"
            using old [OF p sp] decides_conn [OF u(2) p] un Cons dist by auto
        qed
        then show ?thesis using False inside u(1) e(1) r(1) found by (simp add: unfold Cons)
      qed
    qed
  qed
qed

text \<open>\<open>drunken_walk\<close> from the first room of a zeroed maze.\<close>

lemma edge_from_start:
  assumes "0 < R" "0 < C" "(0, 0) \<in> S" "\<And>p d. p \<in> S \<Longrightarrow> step p d \<in> cells R C \<Longrightarrow> step p d \<in> S"
  shows "cells R C \<subseteq> S"
proof
  have down: "int n < R \<Longrightarrow> (int n, 0) \<in> S" for n
  proof (induction n)
    case (Suc n)
    then show ?case using assms(4) [of "(int n, 0)" SOUTH] assms(2) by (simp add: cells_def add.commute)
  qed (use assms in simp)
  have right: "int n < R \<Longrightarrow> int k < C \<Longrightarrow> (int n, int k) \<in> S" for n k
  proof (induction k)
    case (Suc k)
    then show ?case using assms(4) [of "(int n, int k)" EAST] by (simp add: cells_def add.commute)
  qed (use down in simp)
  fix p assume "p \<in> cells R C"
  then show "p \<in> S" using right [of "nat (fst p)" "nat (snd p)"] by (auto simp: cells_bounds)
qed

lemma drunken_walk_ok:
  assumes "0 < R" "0 < C" "grid R C junk"
  obtains maze0 maze calls' where "zero_maze junk R C = Some maze0"
    "drunken_walk rand 0 0 R C (maze0, calls) = Some (maze, calls')" "perfect_maze R C maze"
    "\<And>p. p \<in> cells R C \<Longrightarrow> seen C maze p"
proof -
  obtain maze0 where z: "zero_maze junk R C = Some maze0" "grid R C maze0"
    "\<And>q. q \<in> cells R C \<Longrightarrow> room_at C maze0 q = zero_room (room_at C junk q)"
    using zero_maze_ok [OF assms(3)] by metis
  have o: "(0, 0) \<in> cells R C" using assms by (simp add: cells_def)
  obtain dirs maze1 calls1 where e: "enter_room rand 0 0 C (maze0, calls) = Some (dirs, maze1, calls1)"
    "distinct dirs" "set dirs = UNIV" "grid R C maze1"
    "\<And>q. q \<in> cells R C \<Longrightarrow> room_at C maze1 q =
      (if q = (0, 0) then (room_at C maze0 (0, 0))\<lparr>row := 0, col := 0, visited := True\<rparr>
       else room_at C maze0 q)"
    using enter_room_ok [OF z(2) o, of rand calls, unfolded fst_conv snd_conv] by blast
  have un: "conn C maze1 q d = UNINITIALIZED" if "q \<in> cells R C" for q d
    using e(5) [OF that] z(3) [OF that] by (cases d) (auto simp: zero_room_def)
  have sn: "seen C maze1 q = (q = (0, 0))" if "q \<in> cells R C" for q
    using e(5) [OF that] z(3) [OF that] by (auto simp: zero_room_def)
  have "open_edges R C maze1 = {}" unfolding open_edges_def using un by auto
  moreover have "{q \<in> cells R C. seen C maze1 q} = {(0, 0)}" using sn o by blast
  ultimately have w: "walked R C maze1" using e(4) un sn by (auto simp: walked_def)
  obtain maze calls' where r: "walk_loop rand 0 0 R C dirs (maze1, calls1) = Some (maze, calls')"
    "walk_done R C (0, 0) maze1 maze"
    using walk_loop_ok [OF w o _ e(2), of rand calls1] un [OF o] sn [OF o] e(3) by auto
  have w': "walked R C maze" using r(2) by (simp add: walk_done_def)
  have seen0: "seen C maze (0, 0)" using r(2) o sn by (simp add: walk_done_def)
  have dec: "conn C maze q d \<noteq> UNINITIALIZED" if "q \<in> cells R C" "seen C maze q" for q d
    using r(2) that sn unfolding walk_done_def by blast
  have "cells R C \<subseteq> {q \<in> cells R C. seen C maze q}"
  proof (rule edge_from_start [OF assms(1,2)])
    show "(0, 0) \<in> {q \<in> cells R C. seen C maze q}" using o seen0 by simp
    fix p d assume "p \<in> {q \<in> cells R C. seen C maze q}" "step p d \<in> cells R C"
    then show "step p d \<in> {q \<in> cells R C. seen C maze q}"
      using w' dec unfolding walked_def by blast
  qed
  then have all: "p \<in> cells R C \<Longrightarrow> seen C maze p" for p by blast
  have "closed_maze R C maze"
    unfolding closed_maze_def using w' dec all unfolding walked_def by (metis Connection.exhaust)
  moreover have "symmetric_maze R C maze"
    unfolding symmetric_maze_def using w' dec all unfolding walked_def by blast
  moreover have "{q \<in> cells R C. seen C maze q} = cells R C" using all by blast
  then have "int (card (open_edges R C maze)) = R * C - 1"
    using w' assms card_cells [of R C] unfolding walked_def by simp
  ultimately have "perfect_maze R C maze"
    using w' dec all unfolding perfect_maze_def walked_def by blast
  then show thesis using that [OF z(1)] e(1) r(1) all by (simp add: drunken_walk_def)
qed

end
