(* ===== verification/MazeSolve.thy ===== *)
theory MazeSolve
  imports MazeGen
begin

text \<open>
  The solver's search: \<open>dfs\<close> always ends, it succeeds exactly when the goal can be reached, the
  rooms' links are then a path to the goal, and what it prints is a walk through the maze.
\<close>

section \<open>Mazes the solver searches\<close>

definition located :: "int \<Rightarrow> int \<Rightarrow> maze \<Rightarrow> bool" where
  "located R C maze \<longleftrightarrow> grid R C maze \<and>
     (\<forall>p\<in>cells R C. row (room_at C maze p) = fst p \<and> col (room_at C maze p) = snd p) \<and>
     (\<forall>p\<in>cells R C. \<forall>d. conn C maze p d = OPEN \<longrightarrow> step p d \<in> cells R C)"

text \<open>The search changes only the marks and the links.\<close>

definition same_maze :: "int \<Rightarrow> int \<Rightarrow> maze \<Rightarrow> maze \<Rightarrow> bool" where
  "same_maze R C maze maze' \<longleftrightarrow> grid R C maze' \<and>
     (\<forall>q\<in>cells R C. (\<forall>d. conn C maze' q d = conn C maze q d) \<and>
        row (room_at C maze' q) = row (room_at C maze q) \<and>
        col (room_at C maze' q) = col (room_at C maze q) \<and> (seen C maze q \<longrightarrow> seen C maze' q))"

fun linked_path :: "int \<Rightarrow> maze \<Rightarrow> cell list \<Rightarrow> bool" where
  "linked_path C maze (p # q # ps) \<longleftrightarrow>
     link (room_at C maze p) = Some (pos C q) \<and> linked_path C maze (q # ps)"
| "linked_path C maze ps \<longleftrightarrow> True"

definition open_path :: "int \<Rightarrow> int \<Rightarrow> maze \<Rightarrow> cell \<Rightarrow> cell \<Rightarrow> cell list \<Rightarrow> bool" where
  "open_path R C maze p goal path \<longleftrightarrow> path \<noteq> [] \<and> hd path = p \<and> last path = goal \<and>
     distinct path \<and> set path \<subseteq> cells R C \<and> successively (\<lambda>a b. (a, b) \<in> open_steps R C maze) path"

text \<open>A walk may take a connection in both directions.\<close>

definition walk :: "int \<Rightarrow> int \<Rightarrow> maze \<Rightarrow> cell list \<Rightarrow> bool" where
  "walk R C maze ps \<longleftrightarrow>
     successively (\<lambda>a b. (a, b) \<in> open_steps R C maze \<or> (b, a) \<in> open_steps R C maze) ps"

definition lines_of :: "cell list \<Rightarrow> string" where
  "lines_of ps = concat (map (\<lambda>p. position_line (fst p) (snd p)) ps)"

lemma lines_of_simps [simp]:
  "lines_of [] = []" "lines_of (p # ps) = position_line (fst p) (snd p) @ lines_of ps"
  "lines_of (ps @ qs) = lines_of ps @ lines_of qs"
  by (simp_all add: lines_of_def)

lemma same_maze_refl: "grid R C maze \<Longrightarrow> same_maze R C maze maze"
  by (simp add: same_maze_def)

lemma same_maze_trans: "same_maze R C m1 m2 \<Longrightarrow> same_maze R C m2 m3 \<Longrightarrow> same_maze R C m1 m3"
  by (simp add: same_maze_def)

lemma same_maze_steps: "same_maze R C maze maze' \<Longrightarrow> open_steps R C maze' = open_steps R C maze"
  unfolding open_steps_def by (intro Collect_cong ex_cong1 conj_cong refl) (simp add: same_maze_def)

lemma same_maze_located: "located R C maze \<Longrightarrow> same_maze R C maze maze' \<Longrightarrow> located R C maze'"
  by (simp add: located_def same_maze_def)

lemma mark_visited:
  assumes "grid R C maze" "p \<in> cells R C"
  obtains maze' where "upd_room maze (pos C p) (\<lambda>m. m\<lparr>visited := True\<rparr>) = Some maze'"
    "same_maze R C maze maze'"
    "\<And>q. q \<in> cells R C \<Longrightarrow> seen C maze' q = (seen C maze q \<or> q = p)"
    "\<And>q. q \<in> cells R C \<Longrightarrow> link (room_at C maze' q) = link (room_at C maze q)"
proof -
  obtain maze' where u: "upd_room maze (pos C p) (\<lambda>m. m\<lparr>visited := True\<rparr>) = Some maze'" "grid R C maze'"
    "\<And>q. q \<in> cells R C \<Longrightarrow> room_at C maze' q =
      (if q = p then (room_at C maze p)\<lparr>visited := True\<rparr> else room_at C maze q)"
    using upd_room_ok [OF assms] by metis
  show thesis by (rule that [OF u(1)]) (use u in \<open>auto simp: same_maze_def\<close>)
qed

lemma set_link:
  assumes "grid R C maze" "p \<in> cells R C"
  obtains maze' where "upd_room maze (pos C p) (\<lambda>m. m\<lparr>link := l\<rparr>) = Some maze'"
    "same_maze R C maze maze'"
    "\<And>q. q \<in> cells R C \<Longrightarrow> seen C maze' q = seen C maze q"
    "\<And>q. q \<in> cells R C \<Longrightarrow> link (room_at C maze' q) = (if q = p then l else link (room_at C maze q))"
proof -
  obtain maze' where u: "upd_room maze (pos C p) (\<lambda>m. m\<lparr>link := l\<rparr>) = Some maze'" "grid R C maze'"
    "\<And>q. q \<in> cells R C \<Longrightarrow> room_at C maze' q =
      (if q = p then (room_at C maze p)\<lparr>link := l\<rparr> else room_at C maze q)"
    using upd_room_ok [OF assms] by metis
  show thesis by (rule that [OF u(1)]) (use u in \<open>auto simp: same_maze_def\<close>)
qed

lemma linked_path_cong:
  "(\<And>q. q \<in> set (butlast ps) \<Longrightarrow> link (room_at C maze' q) = link (room_at C maze q)) \<Longrightarrow>
    linked_path C maze' ps = linked_path C maze ps"
  by (induction C maze ps rule: linked_path.induct) auto

text \<open>\<open>traverse\<close> prints the rooms of a path that ends in a room without a link.\<close>

lemma traverse_ok:
  assumes "located R C maze" "path \<noteq> []" "set path \<subseteq> cells R C" "linked_path C maze path"
    and "link (room_at C maze (last path)) = None"
  shows "traverse maze (Some (pos C (hd path))) fp = Some (fp @ lines_of path)"
  using assms
proof (induction path arbitrary: fp)
  case (Cons p ps)
  then have "aget maze (pos C p) = Some (room_at C maze p)" by (intro get_room) (auto simp: located_def)
  then show ?case
    using Cons by (cases ps) (simp_all add: traverse.simps [of maze "Some (pos C p)"] traverse.simps [of maze None] located_def)
qed simp

section \<open>The search\<close>

lemma dfs_loop_Nil:
  "dfs_loop r c gr gc C [] (maze, fp) = Some (False, maze, fp @ position_line r c)"
  by (simp add: dfs_loop.simps)

lemma dfs_loop_Cons:
  assumes "located R C maze" "p \<in> cells R C"
  shows "dfs_loop (fst p) (snd p) gr gc C (d # ds) (maze, fp) =
    (if conn C maze p d = OPEN \<and> \<not> seen C maze (step p d) then do {
       (found, s) \<leftarrow> dfs (fst (step p d)) (snd (step p d)) gr gc C
                      (maze, fp @ position_line (fst p) (snd p));
       if found then do {
         maze \<leftarrow> upd_room (fst s) (pos C p) (\<lambda>m. m\<lparr>link := Some (pos C (step p d))\<rparr>);
         Some (True, maze, snd s)
       }
       else dfs_loop (fst p) (snd p) gr gc C ds s
     }
     else dfs_loop (fst p) (snd p) gr gc C ds (maze, fp))"
proof -
  have g: "grid R C maze" using assms by (simp add: located_def)
  have "aget maze (pos C (step p d)) = Some (room_at C maze (step p d)) \<and>
      row (room_at C maze (step p d)) = fst (step p d) \<and> col (room_at C maze (step p d)) = snd (step p d)"
    if "conn C maze p d = OPEN"
    using that assms get_room [OF g, of "step p d"] by (auto simp: located_def)
  then show ?thesis
    using get_room [OF g assms(2)]
    by (subst dfs_loop.simps)
      (auto simp: dfs_def Let_def get_neighbor_step [OF assms(2)] simp flip: pos_def cong: if_cong)
qed

text \<open>Failure: the links are as before, and the marked rooms lead only to marked rooms.\<close>

definition dead_end :: "int \<Rightarrow> int \<Rightarrow> cell \<Rightarrow> cell \<Rightarrow> Direction set \<Rightarrow> maze \<Rightarrow> maze \<Rightarrow> bool" where
  "dead_end R C goal p D maze maze' \<longleftrightarrow>
     seen C maze' p \<and>
     (\<forall>q\<in>cells R C. link (room_at C maze' q) = link (room_at C maze q)) \<and>
     (\<forall>q\<in>cells R C. seen C maze' q \<longrightarrow> \<not> seen C maze q \<longrightarrow> q \<noteq> goal \<and>
        (\<forall>d. conn C maze q d = OPEN \<longrightarrow> seen C maze' (step q d))) \<and>
     (\<forall>d\<in>D. conn C maze p d = OPEN \<longrightarrow> seen C maze' (step p d))"

text \<open>Success: the links form a path of rooms that had no mark.\<close>

definition solved :: "int \<Rightarrow> int \<Rightarrow> cell \<Rightarrow> cell \<Rightarrow> maze \<Rightarrow> maze \<Rightarrow> bool" where
  "solved R C goal p maze maze' \<longleftrightarrow> (\<exists>path. open_path R C maze p goal path \<and>
     linked_path C maze' path \<and>
     (\<forall>q\<in>cells R C - set (butlast path). link (room_at C maze' q) = link (room_at C maze q)) \<and>
     (\<forall>q\<in>set path. q = p \<or> \<not> seen C maze q))"

definition searched ::
  "int \<Rightarrow> int \<Rightarrow> cell \<Rightarrow> cell \<Rightarrow> Direction set \<Rightarrow> maze \<Rightarrow> string \<Rightarrow> (bool \<times> maze \<times> string) option \<Rightarrow> bool" where
  "searched R C goal p D maze fp res \<longleftrightarrow> (\<exists>found maze' trail.
     res = Some (found, maze', fp @ lines_of trail) \<and> same_maze R C maze maze' \<and>
     trail \<noteq> [] \<and> hd trail = p \<and> last trail = (if found then goal else p) \<and> walk R C maze trail \<and>
     (if found then solved R C goal p maze maze' else dead_end R C goal p D maze maze'))"

lemma open_path_Cons:
  assumes "open_path R C maze n goal path" "(p, n) \<in> open_steps R C maze" "p \<in> cells R C" "p \<notin> set path"
  shows "open_path R C maze p goal (p # path)"
  using assms by (cases path) (auto simp: open_path_def)

lemma walk_Cons:
  "walk R C maze ps \<Longrightarrow> ps \<noteq> [] \<Longrightarrow> (p, hd ps) \<in> open_steps R C maze \<Longrightarrow> walk R C maze (p # ps)"
  by (cases ps) (auto simp: walk_def)

lemma walk_append:
  "walk R C maze ps \<Longrightarrow> walk R C maze qs \<Longrightarrow> ps \<noteq> [] \<Longrightarrow> qs \<noteq> [] \<Longrightarrow>
    (hd qs, last ps) \<in> open_steps R C maze \<Longrightarrow> walk R C maze (ps @ qs)"
  by (auto simp: walk_def successively_append_iff)

lemma searched_failI:
  "res = Some (False, maze', fp @ lines_of trail) \<Longrightarrow> same_maze R C maze maze' \<Longrightarrow>
    trail \<noteq> [] \<Longrightarrow> hd trail = p \<Longrightarrow> last trail = p \<Longrightarrow> walk R C maze trail \<Longrightarrow>
    dead_end R C goal p D maze maze' \<Longrightarrow> searched R C goal p D maze fp res"
  unfolding searched_def
  by (rule exI [of _ False], rule exI [of _ maze'], rule exI [of _ trail]) simp

lemma searched_foundI:
  "res = Some (True, maze', fp @ lines_of trail) \<Longrightarrow> same_maze R C maze maze' \<Longrightarrow>
    trail \<noteq> [] \<Longrightarrow> hd trail = p \<Longrightarrow> last trail = goal \<Longrightarrow> walk R C maze trail \<Longrightarrow>
    solved R C goal p maze maze' \<Longrightarrow> searched R C goal p D maze fp res"
  unfolding searched_def
  by (rule exI [of _ True], rule exI [of _ maze'], rule exI [of _ trail]) simp

lemma searchedE:
  assumes "searched R C goal p D maze fp res"
  obtains (fail) maze' trail where "res = Some (False, maze', fp @ lines_of trail)"
      "same_maze R C maze maze'" "trail \<noteq> []" "hd trail = p" "last trail = p" "walk R C maze trail"
      "dead_end R C goal p D maze maze'"
    | (found) maze' trail where "res = Some (True, maze', fp @ lines_of trail)"
      "same_maze R C maze maze'" "trail \<noteq> []" "hd trail = p" "last trail = goal" "walk R C maze trail"
      "solved R C goal p maze maze'"
proof -
  obtain b maze' trail where s: "res = Some (b, maze', fp @ lines_of trail)" "same_maze R C maze maze'"
    "trail \<noteq> []" "hd trail = p" "last trail = (if b then goal else p)" "walk R C maze trail"
    "if b then solved R C goal p maze maze' else dead_end R C goal p D maze maze'"
    using assms unfolding searched_def by blast
  show thesis using s fail found by (cases b) simp_all
qed

lemma walk_same: "same_maze R C maze maze' \<Longrightarrow> walk R C maze' ps = walk R C maze ps"
  by (simp add: walk_def same_maze_steps)

text \<open>The steps of the loop: a neighbour that is not tried, a failed attempt, a successful one.\<close>

lemma searched_skip:
  assumes "searched R C goal p D maze fp res" "conn C maze p d = OPEN \<Longrightarrow> seen C maze (step p d)"
    "p \<in> cells R C" "located R C maze"
  shows "searched R C goal p (insert d D) maze fp res"
  using assms(1)
proof (cases rule: searchedE)
  case (fail maze' trail)
  have "conn C maze p d = OPEN \<Longrightarrow> seen C maze' (step p d)"
    using assms fail(2) by (simp add: same_maze_def located_def)
  then show ?thesis using fail by (intro searched_failI) (auto simp: dead_end_def)
qed (rule searched_foundI)

lemma dead_end_trans:
  assumes "dead_end R C goal n UNIV maze maze1" "same_maze R C maze maze1"
    and "dead_end R C goal p D maze1 maze2" "same_maze R C maze1 maze2"
    and "n = step p d" "n \<in> cells R C" "p \<in> cells R C" "located R C maze"
  shows "dead_end R C goal p (insert d D) maze maze2"
  unfolding dead_end_def
proof (intro conjI ballI impI allI)
  show "seen C maze2 p" using assms(3) by (simp add: dead_end_def)
  show "link (room_at C maze2 q) = link (room_at C maze q)" if "q \<in> cells R C" for q
    using assms(1,3) that by (simp add: dead_end_def)
  fix q assume q: "q \<in> cells R C" "seen C maze2 q" "\<not> seen C maze q"
  show "q \<noteq> goal" using assms(1,3) q by (auto simp: dead_end_def)
  fix e assume e: "conn C maze q e = OPEN"
  then have "step q e \<in> cells R C" using assms(8) q by (simp add: located_def)
  then show "seen C maze2 (step q e)"
    using assms(1-4) q e by (cases "seen C maze1 q") (auto simp: dead_end_def same_maze_def)
next
  fix e assume e: "e \<in> insert d D" "conn C maze p e = OPEN"
  show "seen C maze2 (step p e)"
    using assms e by (cases "e = d") (auto simp: dead_end_def same_maze_def)
qed

lemma searched_retry:
  assumes n: "n = step p d" "n \<in> cells R C" "conn C maze p d = OPEN" and p: "p \<in> cells R C"
    and loc: "located R C maze"
    and child: "same_maze R C maze maze1" "trail1 \<noteq> []" "hd trail1 = n" "last trail1 = n"
      "walk R C maze trail1" "dead_end R C goal n UNIV maze maze1"
    and rest: "searched R C goal p D maze1 (fp @ lines_of (p # trail1)) res"
  shows "searched R C goal p (insert d D) maze fp res"
proof -
  have step: "(p, n) \<in> open_steps R C maze" using n p open_step_intro by blast
  have w1: "walk R C maze (p # trail1)" by (rule walk_Cons) (use child step in auto)
  have w: "walk R C maze (p # trail1 @ trail)" if "walk R C maze1 trail" "trail \<noteq> []" "hd trail = p" for trail
    using walk_append [OF w1, of trail] that step child walk_same [OF child(1), of trail] by auto
  show ?thesis
    using rest
  proof (cases rule: searchedE)
    case (fail maze' trail)
    show ?thesis
      by (rule searched_failI [where maze' = maze' and trail = "p # trail1 @ trail"])
        (use fail w [of trail] same_maze_trans [OF child(1)] dead_end_trans [OF child(6,1) fail(7,2) n(1,2) p loc] in auto)
  next
    case (found maze' trail)
    obtain path where path: "open_path R C maze1 p goal path" "linked_path C maze' path"
      "\<forall>q\<in>cells R C - set (butlast path). link (room_at C maze' q) = link (room_at C maze1 q)"
      "\<forall>q\<in>set path. q = p \<or> \<not> seen C maze1 q"
      using found(7) unfolding solved_def by blast
    have "solved R C goal p maze maze'"
      unfolding solved_def
    proof (intro exI conjI)
      show "open_path R C maze p goal path"
        using path(1) same_maze_steps [OF child(1)] by (simp add: open_path_def)
      show "\<forall>q\<in>cells R C - set (butlast path). link (room_at C maze' q) = link (room_at C maze q)"
        using path(3) child(6) by (simp add: dead_end_def)
      show "\<forall>q\<in>set path. q = p \<or> \<not> seen C maze q"
        using path(1,4) child(1) by (auto simp: same_maze_def open_path_def)
    qed (rule path)
    then show ?thesis
      by (intro searched_foundI [where maze' = maze' and trail = "p # trail1 @ trail"])
        (use found w [of trail] same_maze_trans [OF child(1)] in auto)
  qed
qed

lemma searched_hit:
  assumes n: "n = step p d" "n \<in> cells R C" "conn C maze p d = OPEN" and p: "p \<in> cells R C"
    and loc: "located R C maze" and seen: "seen C maze p"  "\<not> seen C maze n"
    and child: "same_maze R C maze maze1" "trail1 \<noteq> []" "hd trail1 = n" "last trail1 = goal"
      "walk R C maze trail1" "solved R C goal n maze maze1"
    and link: "upd_room maze1 (pos C p) (\<lambda>m. m\<lparr>link := Some (pos C n)\<rparr>) = Some maze2"
  shows "searched R C goal p D maze fp (Some (True, maze2, fp @ lines_of (p # trail1)))"
proof (rule searched_foundI [OF refl])
  have step: "(p, n) \<in> open_steps R C maze" using n p open_step_intro by blast
  have g: "grid R C maze1" using child(1) by (simp add: same_maze_def)
  obtain m where m: "upd_room maze1 (pos C p) (\<lambda>m. m\<lparr>link := Some (pos C n)\<rparr>) = Some m"
    "same_maze R C maze1 m" "\<And>q. q \<in> cells R C \<Longrightarrow> seen C m q = seen C maze1 q"
    "\<And>q. q \<in> cells R C \<Longrightarrow> link (room_at C m q) = (if q = p then Some (pos C n) else link (room_at C maze1 q))"
    using set_link [OF g p] by metis
  with link have [simp]: "m = maze2" by simp
  show "same_maze R C maze maze2" using same_maze_trans [OF child(1)] m(2) by simp
  show "walk R C maze (p # trail1)" by (rule walk_Cons) (use child step in auto)
  obtain path where path: "open_path R C maze n goal path" "linked_path C maze1 path"
    "\<forall>q\<in>cells R C - set (butlast path). link (room_at C maze1 q) = link (room_at C maze q)"
    "\<forall>q\<in>set path. q = n \<or> \<not> seen C maze q"
    using child(6) unfolding solved_def by blast
  have fresh: "p \<notin> set path" using path(4) seen n(1) by auto
  have inside: "set path \<subseteq> cells R C" "path \<noteq> []" "hd path = n" using path(1) by (auto simp: open_path_def)
  have "linked_path C maze2 path = linked_path C maze1 path"
  proof (rule linked_path_cong)
    fix q assume "q \<in> set (butlast path)"
    then have "q \<in> set path" by (rule in_set_butlastD)
    then show "link (room_at C maze2 q) = link (room_at C maze1 q)" using m(4) [of q] fresh inside by auto
  qed
  then have linked: "linked_path C maze2 (p # path)" using path(2) m(4) [OF p] inside by (cases path) auto
  show "solved R C goal p maze maze2"
    unfolding solved_def
  proof (intro exI conjI)
    show "open_path R C maze p goal (p # path)" by (rule open_path_Cons [OF path(1) step p fresh])
    show "linked_path C maze2 (p # path)" by (rule linked)
    show "\<forall>q\<in>cells R C - set (butlast (p # path)). link (room_at C maze2 q) = link (room_at C maze q)"
      using m(4) path(3) inside by auto
    show "\<forall>q\<in>set (p # path). q = p \<or> \<not> seen C maze q" using path(4) seen by auto
  qed
qed (use child in auto)

text \<open>\<open>dfs\<close> from an unmarked room, given its loop.\<close>

lemma dfs_searched:
  assumes g: "grid R C maze" and n: "n \<in> cells R C" "\<not> seen C maze n"
    and loop: "\<And>maze1. n \<noteq> goal \<Longrightarrow> same_maze R C maze maze1 \<Longrightarrow>
      (\<And>q. q \<in> cells R C \<Longrightarrow> seen C maze1 q = (seen C maze q \<or> q = n)) \<Longrightarrow>
      searched R C goal n UNIV maze1 fp
        (dfs_loop (fst n) (snd n) (fst goal) (snd goal) C [NORTH, SOUTH, EAST, WEST] (maze1, fp))"
  shows "searched R C goal n UNIV maze fp (dfs (fst n) (snd n) (fst goal) (snd goal) C (maze, fp))"
proof (cases "n = goal")
  case True
  have "solved R C goal n maze maze"
    unfolding solved_def by (rule exI [of _ "[n]"]) (use True n in \<open>auto simp: open_path_def\<close>)
  then show ?thesis
    by (intro searched_foundI [where maze' = maze and trail = "[n]"])
      (use True g in \<open>auto simp: dfs_def same_maze_refl walk_def\<close>)
next
  case False
  obtain maze1 where m: "upd_room maze (pos C n) (\<lambda>m. m\<lparr>visited := True\<rparr>) = Some maze1"
    "same_maze R C maze maze1" "\<And>q. q \<in> cells R C \<Longrightarrow> seen C maze1 q = (seen C maze q \<or> q = n)"
    "\<And>q. q \<in> cells R C \<Longrightarrow> link (room_at C maze1 q) = link (room_at C maze q)"
    using mark_visited [OF g n(1)] by metis
  have eq: "dfs (fst n) (snd n) (fst goal) (snd goal) C (maze, fp) =
    dfs_loop (fst n) (snd n) (fst goal) (snd goal) C [NORTH, SOUTH, EAST, WEST] (maze1, fp)"
    using m(1) False by (auto simp: dfs_def prod_eq_iff simp flip: pos_def)
  have "searched R C goal n UNIV maze1 fp (dfs (fst n) (snd n) (fst goal) (snd goal) C (maze, fp))"
    unfolding eq by (rule loop [OF False m(2)]) (use m(3) in auto)
  then show ?thesis
  proof (cases rule: searchedE)
    case (fail maze' trail)
    have conn: "conn C maze1 q e = conn C maze q e" if "q \<in> cells R C" for q e
      using m(2) that by (simp add: same_maze_def)
    have "dead_end R C goal n UNIV maze maze'"
      unfolding dead_end_def
    proof (intro conjI ballI impI allI)
      show "seen C maze' n" using fail(7) by (simp add: dead_end_def)
      show "link (room_at C maze' q) = link (room_at C maze q)" if "q \<in> cells R C" for q
        using fail(7) m(4) that by (simp add: dead_end_def)
      show "q \<noteq> goal" if "q \<in> cells R C" "seen C maze' q" "\<not> seen C maze q" for q
        using fail(7) m(3) False that by (auto simp: dead_end_def)
      show "seen C maze' (step q e)"
        if "q \<in> cells R C" "seen C maze' q" "\<not> seen C maze q" "conn C maze q e = OPEN" for q e
        using fail(7) m(3) conn that by (cases "q = n") (auto simp: dead_end_def)
      show "seen C maze' (step n e)" if "conn C maze n e = OPEN" for e
        using fail(7) conn [OF n(1)] that by (auto simp: dead_end_def)
    qed
    then show ?thesis using fail same_maze_trans [OF m(2)] walk_same [OF m(2)] by (intro searched_failI) auto
  next
    case (found maze' trail)
    obtain path where path: "open_path R C maze1 n goal path" "linked_path C maze' path"
      "\<forall>q\<in>cells R C - set (butlast path). link (room_at C maze' q) = link (room_at C maze1 q)"
      "\<forall>q\<in>set path. q = n \<or> \<not> seen C maze1 q"
      using found(7) unfolding solved_def by blast
    have "solved R C goal n maze maze'"
      unfolding solved_def
    proof (intro exI conjI)
      show "open_path R C maze n goal path"
        using path(1) same_maze_steps [OF m(2)] by (simp add: open_path_def)
      show "\<forall>q\<in>cells R C - set (butlast path). link (room_at C maze' q) = link (room_at C maze q)"
        using path(3) m(4) by simp
      show "\<forall>q\<in>set path. q = n \<or> \<not> seen C maze q"
        using path(1,4) m(3) unfolding open_path_def by blast
    qed (rule path)
    then show ?thesis using found same_maze_trans [OF m(2)] walk_same [OF m(2)] by (intro searched_foundI) auto
  qed
qed

lemma dfs_loop_ok:
  assumes "located R C maze" "p \<in> cells R C" "seen C maze p" "p \<noteq> goal"
  shows "searched R C goal p (set ds) maze fp
    (dfs_loop (fst p) (snd p) (fst goal) (snd goal) C ds (maze, fp))"
  using assms
proof (induction "(unseen R C maze, length ds)" arbitrary: maze fp p ds
    rule: wf_induct_rule [OF wf_lex_prod [OF wf_less wf_less]])
  case (1 maze ds fp p)
  note loc = 1(2) and p = 1(3) and sp = 1(4) and ng = 1(5)
  have g: "grid R C maze" using loc by (simp add: located_def)
  show ?case
  proof (cases ds)
    case Nil
    then show ?thesis using sp g
      by (intro searched_failI [where maze' = maze and trail = "[p]"])
        (auto simp: dfs_loop_Nil same_maze_refl walk_def dead_end_def)
  next
    case (Cons d ds')
    let ?n = "step p d"
    show ?thesis
    proof (cases "conn C maze p d = OPEN \<and> \<not> seen C maze ?n")
      case False
      have "searched R C goal p (set ds') maze fp
          (dfs_loop (fst p) (snd p) (fst goal) (snd goal) C ds' (maze, fp))"
        by (rule 1(1)) (use loc p sp ng Cons in auto)
      from searched_skip [OF this, of d] show ?thesis
        using False p loc unfolding Cons dfs_loop_Cons [OF loc p] if_not_P [OF False] by auto
    next
      case True
      then have n: "?n \<in> cells R C" using loc p by (simp add: located_def)
      have "searched R C goal ?n UNIV maze (fp @ lines_of [p])
          (dfs (fst ?n) (snd ?n) (fst goal) (snd goal) C (maze, fp @ lines_of [p]))"
      proof (rule dfs_searched [OF g n])
        show "\<not> seen C maze ?n" using True by simp
        fix maze1 assume m: "?n \<noteq> goal" "same_maze R C maze maze1"
          "\<And>q. q \<in> cells R C \<Longrightarrow> seen C maze1 q = (seen C maze q \<or> q = ?n)"
        have "unseen R C maze1 < unseen R C maze"
          by (rule unseen_less [OF _ n]) (use m(3) n True in auto)
        then show "searched R C goal ?n UNIV maze1 (fp @ lines_of [p])
          (dfs_loop (fst ?n) (snd ?n) (fst goal) (snd goal) C [NORTH, SOUTH, EAST, WEST] (maze1, fp @ lines_of [p]))"
          unfolding Direction_distinct [symmetric]
          by (intro 1(1)) (use m n same_maze_located [OF loc] in auto)
      qed
      then show ?thesis
      proof (cases rule: searchedE)
        case (fail maze1 trail)
        have "seen C maze q \<longrightarrow> seen C maze1 q" if "q \<in> cells R C" for q
          using fail(2) that by (simp add: same_maze_def)
        then have less: "unseen R C maze1 \<le> unseen R C maze" by (intro unseen_mono) auto
        have "searched R C goal p (set ds') maze1 (fp @ lines_of (p # trail))
          (dfs_loop (fst p) (snd p) (fst goal) (snd goal) C ds' (maze1, fp @ lines_of (p # trail)))"
          by (rule 1(1)) (use same_maze_located [OF loc fail(2)] p sp fail(2) ng Cons less in
            \<open>auto simp: le_less same_maze_def\<close>)
        from searched_retry [OF refl n _ p loc fail(2-7) this] show ?thesis
          using True fail(1) by (simp add: Cons dfs_loop_Cons [OF loc p])
      next
        case (found maze1 trail)
        have "grid R C maze1" using found(2) by (simp add: same_maze_def)
        then obtain maze2 where u: "upd_room maze1 (pos C p) (\<lambda>m. m\<lparr>link := Some (pos C ?n)\<rparr>) = Some maze2"
          using set_link [OF _ p] by metis
        from searched_hit [OF refl n _ p loc sp _ found(2-7) u] show ?thesis
          using True found(1) u by (simp add: Cons dfs_loop_Cons [OF loc p])
      qed
    qed
  qed
qed

end
