(* ===== verification/MazeFile.thy ===== *)
theory MazeFile
  imports MazeSolve
begin

text \<open>
  The file between the two programs: the generator's encoding and the text it writes, and the
  solver's reading of it.
\<close>

section \<open>Rooms as hexadecimal digits\<close>

definition decided :: "maze_room \<Rightarrow> bool" where
  "decided r \<longleftrightarrow> (\<forall>d. get_connection r d \<noteq> UNINITIALIZED)"

lemma decidedD:
  assumes "decided r"
  shows "get_connection r d = OPEN \<or> get_connection r d = WALL"
  using assms by (cases "get_connection r d") (auto simp: decided_def)

lemma decided_sides:
  assumes "decided r"
  shows "north r = OPEN \<or> north r = WALL" "south r = OPEN \<or> south r = WALL"
    "west r = OPEN \<or> west r = WALL" "east r = OPEN \<or> east r = WALL"
  using decidedD [OF assms, of NORTH] decidedD [OF assms, of SOUTH]
    decidedD [OF assms, of WEST] decidedD [OF assms, of EAST] by auto

lemma create_room_connections_eq:
  "create_room_connections m hex = Some (update_connection (update_connection (update_connection
     (update_connection m NORTH (if hex_to_dir 1 hex then WALL else OPEN))
       SOUTH (if hex_to_dir 2 hex then WALL else OPEN))
       EAST (if hex_to_dir 8 hex then WALL else OPEN))
       WEST (if hex_to_dir 4 hex then WALL else OPEN))"
  by (simp add: create_room_connections_def c_for_step aget_def numeral_2_eq_2 numeral_3_eq_3)

lemma encode_room_ok:
  assumes "decided r"
  obtains x where "encode_room r = Some x" "0 \<le> x" "x < 16"
    "\<And>m. \<exists>m'. create_room_connections m x = Some m' \<and>
      (\<forall>d. get_connection m' d = get_connection r d) \<and> link m' = link m"
proof -
  note sides = decided_sides [OF assms]
  define v where "v c = (if c = OPEN then 0 else 1 :: int)" for c
  let ?x = "v (east r) * 8 + v (west r) * 4 + v (south r) * 2 + v (north r)"
  have enc: "encode_room r = Some ?x"
    using sides by (auto simp: encode_room_def check_connect_def v_def)
  have range: "0 \<le> ?x" "?x < 16" by (auto simp: v_def)
  have dec: "\<exists>m'. create_room_connections m ?x = Some m' \<and>
      (\<forall>d. get_connection m' d = get_connection r d) \<and> link m' = link m" for m
  proof -
    have bits: "hex_to_dir 1 ?x = (north r \<noteq> OPEN)" "hex_to_dir 2 ?x = (south r \<noteq> OPEN)"
      "hex_to_dir 8 ?x = (east r \<noteq> OPEN)" "hex_to_dir 4 ?x = (west r \<noteq> OPEN)"
      by (auto simp: hex_to_dir_def v_def)
    have "get_connection (the (create_room_connections m ?x)) d = get_connection r d" for d
      using sides by (cases d) (auto simp: create_room_connections_eq bits)
    then show ?thesis by (simp add: create_room_connections_eq)
  qed
  show thesis by (rule that [OF enc range dec])
qed

lemma upt_16: "0 \<le> x \<Longrightarrow> x < 16 \<Longrightarrow> x \<in> set [0, 1, 2, 3, 4, 5, 6, 7, 8, 9, 10, 11, 12, 13, 14, 15 :: int]"
  unfolding list.set insert_iff empty_iff by presburger

lemma isspace_no_digit: "isspace ch \<Longrightarrow> hex_value ch = None"
  by (auto simp: isspace_def hex_value_def)

lemma hex_round_trip:
  assumes "0 \<le> x" "x < 16"
  shows "hex_value (hex_digit x) = Some x" "\<not> isspace (hex_digit x)"
proof -
  have "\<forall>x\<in>set [0, 1, 2, 3, 4, 5, 6, 7, 8, 9, 10, 11, 12, 13, 14, 15].
    hex_value (hex_digit x) = Some x"
    by (simp add: hex_value_def hex_digit_def Let_def)
  then show "hex_value (hex_digit x) = Some x" using upt_16 [OF assms] by blast
  then show "\<not> isspace (hex_digit x)" using isspace_no_digit by force
qed

lemma encode_maze_ok:
  assumes g: "grid R C maze" and dec: "\<And>p. p \<in> cells R C \<Longrightarrow> decided (room_at C maze p)"
    and len: "length result = nat (R * C)"
  obtains enc where "encode_maze maze R C result = Some enc"
    "\<And>p. p \<in> cells R C \<Longrightarrow> aget enc (pos C p) = encode_room (room_at C maze p)"
proof -
  have "\<exists>enc. encode_maze maze R C result = Some enc \<and> length enc = nat (R * C) \<and>
    (\<forall>q\<in>cells R C. before q (R, 0) \<longrightarrow> aget enc (pos C q) = encode_room (room_at C maze q))"
    unfolding encode_maze_def
  proof (rule for_rooms_invariant [where I = "\<lambda>p enc. length enc = nat (R * C) \<and>
      (\<forall>q\<in>cells R C. before q p \<longrightarrow> aget enc (pos C q) = encode_room (room_at C maze q))"])
    fix i k enc
    assume ik: "(i, k) \<in> cells R C" and inv: "length enc = nat (R * C) \<and>
      (\<forall>q\<in>cells R C. before q (i, k) \<longrightarrow> aget enc (pos C q) = encode_room (room_at C maze q))"
    obtain x where x: "encode_room (room_at C maze (i, k)) = Some x"
      using encode_room_ok [OF dec [OF ik]] by metis
    have r: "0 \<le> pos C (i, k)" "pos C (i, k) < R * C" using pos_range [OF ik] by auto
    have "aget (enc[nat (pos C (i, k)) := x]) (pos C q) =
        (if q = (i, k) then Some x else aget enc (pos C q))" if "q \<in> cells R C" for q
      using r inv pos_range [OF that] pos_inj [OF that ik] by (auto simp: aget_def nth_list_update)
    then show "\<exists>s'. do { m \<leftarrow> aget maze (room_index i k C); x \<leftarrow> encode_room m;
          aset enc (room_index i k C) x } = Some s' \<and> length s' = nat (R * C) \<and>
        (\<forall>q\<in>cells R C. before q (i, k + 1) \<longrightarrow> aget s' (pos C q) = encode_room (room_at C maze q))"
      using get_room [OF g ik] r x inv by (auto simp: pos_def aset_def before_next)
  qed (use g len in \<open>auto simp: grid_def before_start before_row_end\<close>)
  then show ?thesis using that by (auto simp: before_end)
qed

section \<open>The text of the file\<close>

definition row_from :: "int \<Rightarrow> (cell \<Rightarrow> char) \<Rightarrow> int \<Rightarrow> int \<Rightarrow> string" where
  "row_from C D i k = map (\<lambda>j. D (i, j)) [k..C - 1] @ [CHR 0x0A]"

definition text_from :: "int \<Rightarrow> int \<Rightarrow> (cell \<Rightarrow> char) \<Rightarrow> int \<Rightarrow> string" where
  "text_from R C D i = concat (map (\<lambda>i. row_from C D i 0) [i..R - 1])"

lemma row_from_Cons: "k < C \<Longrightarrow> row_from C D i k = D (i, k) # row_from C D i (k + 1)"
  by (subst upto.simps [of k, simplified] | simp add: row_from_def upto_rec1)+

lemma row_from_end [simp]: "row_from C D i C = [CHR 0x0A]"
  by (simp add: row_from_def)

lemma text_from_Cons: "i < R \<Longrightarrow> text_from R C D i = row_from C D i 0 @ text_from R C D (i + 1)"
  by (simp add: text_from_def upto_rec1)

lemma write_maze_ok:
  assumes "0 \<le> R" "0 \<le> C"
    and enc: "\<And>p. p \<in> cells R C \<Longrightarrow> \<exists>x. aget enc (pos C p) = Some x \<and> hex_digit x = D p"
  shows "write_maze enc R C = Some (text_from R C D 0)"
proof -
  have row: "c_for 0 C (\<lambda>k fp. do { x \<leftarrow> aget enc (room_index i k C); Some (fp @ [hex_digit x]) }) fp =
      Some (fp @ butlast (row_from C D i 0))" if i: "0 \<le> i" "i < R" for i fp
  proof -
    have "\<exists>s. c_for 0 C (\<lambda>k fp. do { x \<leftarrow> aget enc (room_index i k C); Some (fp @ [hex_digit x]) }) fp = Some s \<and>
        s = fp @ map (\<lambda>j. D (i, j)) [0..C - 1]"
    proof (rule c_for_invariant [where I = "\<lambda>k s. s = fp @ map (\<lambda>j. D (i, j)) [0..k - 1]"])
      fix k s assume k: "0 \<le> k" "k < C" "s = fp @ map (\<lambda>j. D (i, j)) [0..k - 1]"
      then obtain x where "aget enc (room_index i k C) = Some x" "hex_digit x = D (i, k)"
        using enc [of "(i, k)"] i by (auto simp: pos_def cells_def)
      then show "\<exists>s'. do { x \<leftarrow> aget enc (room_index i k C); Some (s @ [hex_digit x]) } = Some s' \<and>
          s' = fp @ map (\<lambda>j. D (i, j)) [0..k + 1 - 1]"
        using k by (simp add: upto_rec2)
    qed (use assms in auto)
    then show ?thesis by (simp add: row_from_def)
  qed
  have "\<exists>s. write_maze enc R C = Some s \<and> s = concat (map (\<lambda>i. row_from C D i 0) [0..R - 1])"
    unfolding write_maze_def
  proof (rule c_for_invariant [where I = "\<lambda>i s. s = concat (map (\<lambda>i. row_from C D i 0) [0..i - 1])"])
    fix i s assume i: "0 \<le> i" "i < R" "s = concat (map (\<lambda>i. row_from C D i 0) [0..i - 1])"
    have "butlast (row_from C D i 0) @ [CHR 0x0A] = row_from C D i 0" by (simp add: row_from_def)
    then show "\<exists>s'. do { fp \<leftarrow> c_for 0 C (\<lambda>k fp. do { x \<leftarrow> aget enc (room_index i k C);
          Some (fp @ [hex_digit x]) }) s; Some (fp @ [CHR 0x0A]) } = Some s' \<and>
        s' = concat (map (\<lambda>i. row_from C D i 0) [0..i + 1 - 1])"
      using i row by (simp add: upto_rec2)
  qed (use assms in auto)
  then show ?thesis by (simp add: text_from_def)
qed

text \<open>Reading it back: each room gets the connections of its digit.\<close>

lemma scan_hex_digit:
  assumes "dropWhile isspace s = hex_digit x # cs" "0 \<le> x" "x < 16"
  shows "scan_hex s = (1, Some x, cs)"
  using assms hex_round_trip [of x] by (simp add: scan_hex_def)

lemma read_maze_ok:
  assumes g: "grid R C maze0"
    and digits: "\<And>p. p \<in> cells R C \<Longrightarrow> decided (rm p) \<and> D p = hex_digit (the (encode_room (rm p)))"
  obtains maze rest where
    "for_rooms R C (read_room C) (Inr (maze0, text_from R C D 0)) = Some (Inr (maze, rest))"
    "grid R C maze"
    "\<And>p. p \<in> cells R C \<Longrightarrow> row (room_at C maze p) = fst p \<and> col (room_at C maze p) = snd p \<and>
      \<not> seen C maze p \<and> link (room_at C maze p) = link (room_at C maze0 p) \<and>
      (\<forall>d. conn C maze p d = get_connection (rm p) d)"
proof -
  define good where "good maze p \<longleftrightarrow> row (room_at C maze p) = fst p \<and> col (room_at C maze p) = snd p \<and>
      \<not> seen C maze p \<and> link (room_at C maze p) = link (room_at C maze0 p) \<and>
      (\<forall>d. conn C maze p d = get_connection (rm p) d)" for maze p
  define I where "I p s \<longleftrightarrow> (\<exists>maze rest. s = Inr (maze, rest) \<and> grid R C maze \<and>
      (fst p < R \<longrightarrow> dropWhile isspace rest =
         dropWhile isspace (row_from C D (fst p) (snd p) @ text_from R C D (fst p + 1))) \<and>
      (\<forall>q\<in>cells R C. if before q p then good maze q
        else link (room_at C maze q) = link (room_at C maze0 q)))" for p and s :: "unit + maze \<times> string"
  have RC: "0 < R" "0 < C" using g by (auto simp: grid_def)
  have space: "isspace (CHR 0x0A)" by (simp add: isspace_def)
  have "\<exists>s. for_rooms R C (read_room C) (Inr (maze0, text_from R C D 0)) = Some s \<and> I (R, 0) s"
  proof (rule for_rooms_invariant)
    show "I (0, 0) (Inr (maze0, text_from R C D 0))"
      using g RC by (auto simp: I_def before_start text_from_Cons)
    show "I (i, C) s \<Longrightarrow> I (i + 1, 0) s" if "0 \<le> i" "i < R" for i s
      using that space by (auto simp: I_def before_row_end text_from_Cons add.assoc)
    fix i k s assume ik: "(i, k) \<in> cells R C" and inv: "I (i, k) s"
    obtain maze rest where s: "s = Inr (maze, rest)" "grid R C maze"
      "dropWhile isspace rest = dropWhile isspace (row_from C D i k @ text_from R C D (i + 1))"
      "\<And>q. q \<in> cells R C \<Longrightarrow> if before q (i, k) then good maze q
        else link (room_at C maze q) = link (room_at C maze0 q)"
      using inv ik by (auto simp: I_def cells_def)
    obtain x where x: "encode_room (rm (i, k)) = Some x" "0 \<le> x" "x < 16"
      "\<And>m. \<exists>m'. create_room_connections m x = Some m' \<and>
        (\<forall>d. get_connection m' d = get_connection (rm (i, k)) d) \<and> link m' = link m"
      using encode_room_ok digits [OF ik] by metis
    have k: "k < C" using ik by (simp add: cells_def)
    have "dropWhile isspace rest = hex_digit x # row_from C D i (k + 1) @ text_from R C D (i + 1)"
      using s(3) x digits [OF ik] hex_round_trip(2) [OF x(2,3)] by (simp add: row_from_Cons [OF k])
    note scan = scan_hex_digit [OF this x(2,3)]
    obtain m where m: "create_room_connections (room_at C maze (i, k)) x = Some m"
      "\<forall>d. get_connection m d = get_connection (rm (i, k)) d" "link m = link (room_at C maze (i, k))"
      using x(4) by blast
    obtain maze' where u: "aset maze (pos C (i, k)) (m\<lparr>row := i, col := k, visited := False\<rparr>) = Some maze'"
      "grid R C maze'" "\<And>q. q \<in> cells R C \<Longrightarrow> room_at C maze' q =
        (if q = (i, k) then m\<lparr>row := i, col := k, visited := False\<rparr> else room_at C maze q)"
      using set_room [OF s(2) ik] by metis
    have "read_room C i k s = Some (Inr (maze', row_from C D i (k + 1) @ text_from R C D (i + 1)))"
      using get_room [OF s(2) ik] u(1) m(1) scan s(1) by (simp add: read_room_def pos_def)
    moreover have "if before q (i, k + 1) then good maze' q
        else link (room_at C maze' q) = link (room_at C maze0 q)" if "q \<in> cells R C" for q
      using s(4) [OF that] u(3) [OF that] m(2,3)
      by (cases "q = (i, k)") (auto simp: before_next good_def)
    ultimately show "\<exists>s'. read_room C i k s = Some s' \<and> I (i, k + 1) s'"
      using u(2) by (auto simp: I_def)
  qed (use RC in auto)
  then show ?thesis using that by (auto simp: I_def before_end good_def)
qed

end
