(* ===== verification/MazeSpec.thy ===== *)
theory MazeSpec
  imports MazeFile
begin

text \<open>
  The properties of the maze programs: the generator makes perfect mazes, the search decides
  reachability and records a path, the file carries the maze from one program to the other, and
  together they always produce a path.
\<close>

lemma reachable_closed:
  assumes "(p, q) \<in> (open_steps R C maze)\<^sup>*" "p \<in> S"
    and "\<And>a d. a \<in> S \<Longrightarrow> a \<in> cells R C \<Longrightarrow> conn C maze a d = OPEN \<Longrightarrow> step a d \<in> S"
  shows "q \<in> S"
  using assms(1,2)
proof (induction rule: rtrancl_induct)
  case (step y z)
  then show ?case using assms(3) by (auto simp: open_steps_def)
qed

lemma successively_rtrancl:
  "successively (\<lambda>a b. (a, b) \<in> E) (x # xs) \<Longrightarrow> (x, last (x # xs)) \<in> E\<^sup>*"
proof (induction xs arbitrary: x)
  case (Cons y ys)
  then have "(x, y) \<in> E" "(y, last (y # ys)) \<in> E\<^sup>*" by auto
  then show ?case by (simp add: converse_rtrancl_into_rtrancl)
qed simp

lemma open_path_reaches:
  assumes "open_path R C maze p goal path"
  shows "(p, goal) \<in> (open_steps R C maze)\<^sup>*"
proof -
  obtain xs where xs: "path = p # xs" using assms by (cases path) (auto simp: open_path_def)
  have "(p, last (p # xs)) \<in> (open_steps R C maze)\<^sup>*"
    using assms unfolding open_path_def xs by (intro successively_rtrancl) blast
  then show ?thesis using assms by (simp only: open_path_def xs)
qed

lemma dfs_ok:
  assumes loc: "located R C maze" and p: "p \<in> cells R C"
    and fresh: "\<And>q. q \<in> cells R C \<Longrightarrow> \<not> seen C maze q \<and> link (room_at C maze q) = None"
  obtains found maze' trail where
    "dfs (fst p) (snd p) (fst goal) (snd goal) C (maze, fp) = Some (found, maze', fp @ lines_of trail)"
    "found \<longleftrightarrow> (p, goal) \<in> (open_steps R C maze)\<^sup>*"
    "walk R C maze trail" "trail \<noteq> []" "hd trail = p" "last trail = (if found then goal else p)"
    "found \<Longrightarrow> \<exists>path. open_path R C maze p goal path \<and>
      (\<forall>out. traverse maze' (Some (pos C p)) out = Some (out @ lines_of path))"
proof -
  have g: "grid R C maze" using loc by (simp add: located_def)
  have "searched R C goal p UNIV maze fp (dfs (fst p) (snd p) (fst goal) (snd goal) C (maze, fp))"
  proof (rule dfs_searched [OF g p])
    fix maze1 assume m: "p \<noteq> goal" "same_maze R C maze maze1"
      "\<And>q. q \<in> cells R C \<Longrightarrow> seen C maze1 q = (seen C maze q \<or> q = p)"
    show "searched R C goal p UNIV maze1 fp
      (dfs_loop (fst p) (snd p) (fst goal) (snd goal) C [NORTH, SOUTH, EAST, WEST] (maze1, fp))"
      unfolding Direction_distinct [symmetric]
      by (rule dfs_loop_ok) (use m p same_maze_located [OF loc] in auto)
  qed (use fresh [OF p] in simp)
  then show thesis
  proof (cases rule: searchedE)
    case (fail maze' trail)
    have "(p, goal) \<notin> (open_steps R C maze)\<^sup>*"
    proof
      assume r: "(p, goal) \<in> (open_steps R C maze)\<^sup>*"
      have "goal \<in> {q \<in> cells R C. seen C maze' q}"
      proof (rule reachable_closed [OF r])
        show "p \<in> {q \<in> cells R C. seen C maze' q}" using fail(7) p by (simp add: dead_end_def)
        fix a d assume "a \<in> {q \<in> cells R C. seen C maze' q}" "conn C maze a d = OPEN"
        then show "step a d \<in> {q \<in> cells R C. seen C maze' q}"
          using fail(7) fresh loc unfolding dead_end_def located_def by blast
      qed
      then show False using fail(7) fresh unfolding dead_end_def by blast
    qed
    with fail show thesis by (intro that [of False maze' trail]) auto
  next
    case (found maze' trail)
    obtain path where path: "open_path R C maze p goal path" "linked_path C maze' path"
      "\<forall>q\<in>cells R C - set (butlast path). link (room_at C maze' q) = link (room_at C maze q)"
      using found(7) unfolding solved_def by blast
    then have ends: "path \<noteq> []" "hd path = p" "last path = goal" "distinct path" "set path \<subseteq> cells R C"
      by (auto simp: open_path_def)
    then have "last path \<in> cells R C" using last_in_set by blast
    moreover have "last path \<notin> set (butlast path)"
      using ends by (metis append_butlast_last_id distinct_append disjoint_insert(1) list.simps(15) insertI1 IntI empty_iff)
    ultimately have "link (room_at C maze' (last path)) = None" using path(3) fresh by simp
    then have "traverse maze' (Some (pos C p)) out = Some (out @ lines_of path)" for out
      using traverse_ok [OF same_maze_located [OF loc found(2)] ends(1,5) path(2), of out] ends(2) by simp
    with found open_path_reaches [OF path(1)] path(1) show thesis
      by (intro that [of True maze' trail]) auto
  qed
qed



lemma file_ok:
  assumes "grid R C maze" "\<And>p. p \<in> cells R C \<Longrightarrow> decided (room_at C maze p)"
    and "grid R C maze0" "length result = nat (R * C)"
  obtains enc content maze' rest where "encode_maze maze R C result = Some enc"
    "write_maze enc R C = Some content"
    "for_rooms R C (read_room C) (Inr (maze0, content)) = Some (Inr (maze', rest))" "grid R C maze'"
    "\<And>p. p \<in> cells R C \<Longrightarrow> row (room_at C maze' p) = fst p \<and> col (room_at C maze' p) = snd p \<and>
      \<not> seen C maze' p \<and> link (room_at C maze' p) = link (room_at C maze0 p) \<and>
      (\<forall>d. conn C maze' p d = conn C maze p d)"
proof -
  define D where "D p = hex_digit (the (encode_room (room_at C maze p)))" for p
  have RC: "0 \<le> R" "0 \<le> C" using assms(1) by (auto simp: grid_def)
  obtain enc where enc: "encode_maze maze R C result = Some enc"
    "\<And>p. p \<in> cells R C \<Longrightarrow> aget enc (pos C p) = encode_room (room_at C maze p)"
    using encode_maze_ok [OF assms(1,2,4)] by metis
  have w: "write_maze enc R C = Some (text_from R C D 0)"
  proof (rule write_maze_ok [OF RC])
    fix p assume p: "p \<in> cells R C"
    obtain x where "encode_room (room_at C maze p) = Some x" using encode_room_ok [OF assms(2) [OF p]] by metis
    then show "\<exists>x. aget enc (pos C p) = Some x \<and> hex_digit x = D p" using enc(2) [OF p] by (simp add: D_def)
  qed
  have digits: "decided (room_at C maze p) \<and> D p = hex_digit (the (encode_room (room_at C maze p)))"
    if "p \<in> cells R C" for p using assms(2) [OF that] by (simp add: D_def)
  show thesis
    by (rule read_maze_ok [OF assms(3), where rm = "room_at C maze" and D = D, OF digits])
      (use that [OF enc(1) w] in auto)
qed






section \<open>The properties\<close>

text \<open>C29. Whatever numbers \<open>rand\<close> returns and whatever the stack held before, \<open>drunken_walk\<close> on the
zeroed maze ends and leaves a perfect maze: all connections are decided and agree on both sides,
the border is closed, every room can be reached from the first one, and the open connections are
one less than the rooms, so that they form a tree.\<close>

theorem drunken_walk_perfect:
  assumes "0 < R" "0 < C" "length stack = nat (R * C)"
  shows "\<exists>maze0 maze calls. zero_maze stack R C = Some maze0 \<and>
    drunken_walk rand 0 0 R C (maze0, 0) = Some (maze, calls) \<and> perfect_maze R C maze"
proof -
  have "grid R C stack" using assms by (simp add: grid_def)
  then show ?thesis
    by (rule drunken_walk_ok [OF assms(1,2), where rand = rand and calls = 0]) (intro exI conjI)
qed

definition blank_room :: maze_room where
  "blank_room = \<lparr>row = 0, col = 0, visited = False, north = UNINITIALIZED, south = UNINITIALIZED,
     east = UNINITIALIZED, west = UNINITIALIZED, link = None\<rparr>"

theorem drunken_walk_perfect_witness:
  "\<exists>maze0 maze calls. zero_maze (replicate 6 blank_room) 2 3 = Some maze0 \<and>
    drunken_walk (\<lambda>n. 7 * n) 0 0 2 3 (maze0, 0) = Some (maze, calls) \<and> perfect_maze 2 3 maze"
  using drunken_walk_perfect [of 2 3 "replicate 6 blank_room" "\<lambda>n. 7 * n"] by simp

text \<open>C30. On a maze whose rooms know their position, whose open connections stay inside and whose
rooms are unmarked, \<open>dfs\<close> ends and returns true exactly when the goal can be reached through open
connections. The positions it prints are a walk through the maze from the start, and after a
success the links that \<open>traverse\<close> follows from the start are a path without repetition to the
goal.\<close>

theorem dfs_decides_reachability:
  assumes "located R C maze" "p \<in> cells R C"
    and "\<And>q. q \<in> cells R C \<Longrightarrow> \<not> visited (room_at C maze q) \<and> link (room_at C maze q) = None"
  shows "\<exists>found maze' trail.
    dfs (fst p) (snd p) (fst goal) (snd goal) C (maze, fp) = Some (found, maze', fp @ lines_of trail) \<and>
    (found \<longleftrightarrow> (p, goal) \<in> (open_steps R C maze)\<^sup>*) \<and>
    walk R C maze trail \<and> trail \<noteq> [] \<and> hd trail = p \<and> last trail = (if found then goal else p) \<and>
    (found \<longrightarrow> (\<exists>path. open_path R C maze p goal path \<and>
       traverse maze' (Some (pos C p)) [] = Some (lines_of path)))"
proof (rule dfs_ok [OF assms, of goal fp])
  fix found maze' trail
  assume d: "dfs (fst p) (snd p) (fst goal) (snd goal) C (maze, fp) = Some (found, maze', fp @ lines_of trail)"
    "found \<longleftrightarrow> (p, goal) \<in> (open_steps R C maze)\<^sup>*"
    "walk R C maze trail" "trail \<noteq> []" "hd trail = p" "last trail = (if found then goal else p)"
    "found \<Longrightarrow> \<exists>path. open_path R C maze p goal path \<and>
      (\<forall>out. traverse maze' (Some (pos C p)) out = Some (out @ lines_of path))"
  have "found \<longrightarrow> (\<exists>path. open_path R C maze p goal path \<and>
      traverse maze' (Some (pos C p)) [] = Some (lines_of path))"
  proof
    assume found
    then obtain path where "open_path R C maze p goal path"
      "traverse maze' (Some (pos C p)) [] = Some ([] @ lines_of path)" using d(7) by blast
    then show "\<exists>path. open_path R C maze p goal path \<and>
      traverse maze' (Some (pos C p)) [] = Some (lines_of path)" by (intro exI [of _ path]) simp
  qed
  with d(1-6) show ?thesis by blast
qed

text \<open>Two rooms side by side, open to each other.\<close>

definition two_rooms :: maze where
  "two_rooms =
     [blank_room\<lparr>north := WALL, south := WALL, west := WALL, east := OPEN\<rparr>,
      blank_room\<lparr>col := 1, north := WALL, south := WALL, west := OPEN, east := WALL\<rparr>]"

lemma two_cells: "cells 1 2 = {(0, 0), (0, 1)}"
proof -
  have "{0..<1 :: int} = {0}" "{0..<2 :: int} = {0, 1}" by auto
  then show ?thesis by (auto simp: cells_def)
qed

lemma two_rooms_at:
  "room_at 2 two_rooms (0, 0) = blank_room\<lparr>north := WALL, south := WALL, west := WALL, east := OPEN\<rparr>"
  "room_at 2 two_rooms (0, 1) = blank_room\<lparr>col := 1, north := WALL, south := WALL, west := OPEN, east := WALL\<rparr>"
  by (simp_all add: room_at_def pos_def room_index_def two_rooms_def)

lemma two_rooms_located: "located 1 2 two_rooms"
proof -
  have "step p d \<in> {(0, 0), (0, 1)}" if "p \<in> {(0, 0), (0, 1)}" "conn 2 two_rooms p d = OPEN" for p d
    using that by (cases d) (auto simp: two_rooms_at blank_room_def)
  then show ?thesis unfolding located_def two_cells
    by (auto simp: grid_def two_rooms_at blank_room_def) (simp add: two_rooms_def)
qed

theorem dfs_decides_reachability_witness:
  "\<exists>found maze' trail.
    dfs 0 0 0 1 2 (two_rooms, []) = Some (found, maze', [] @ lines_of trail) \<and>
    (found \<longleftrightarrow> ((0, 0), (0, 1)) \<in> (open_steps 1 2 two_rooms)\<^sup>*) \<and>
    walk 1 2 two_rooms trail \<and> trail \<noteq> [] \<and> hd trail = (0, 0) \<and>
    last trail = (if found then (0, 1) else (0, 0)) \<and>
    (found \<longrightarrow> (\<exists>path. open_path 1 2 two_rooms (0, 0) (0, 1) path \<and>
       traverse maze' (Some (pos 2 (0, 0))) [] = Some (lines_of path)))"
proof -
  have "\<not> visited (room_at 2 two_rooms q) \<and> link (room_at 2 two_rooms q) = None"
    if "q \<in> cells 1 2" for q
    using that unfolding two_cells by (auto simp: two_rooms_at blank_room_def)
  from dfs_decides_reachability [OF two_rooms_located _ this, of "(0, 0)" "(0, 1)" "[]"]
  show ?thesis by (simp add: two_cells)
qed

text \<open>C31. Round trip of the file: for a maze whose connections are all decided, the hexadecimal content
the generator writes is read by the solver as a maze with the same connections, each room with
its position, no mark and no link.\<close>

theorem maze_file_round_trip:
  assumes "0 < R" "0 < C" "length maze = nat (R * C)" "length stack = nat (R * C)"
    and "length result = nat (R * C)"
    and "\<And>p d. p \<in> cells R C \<Longrightarrow> get_connection (room_at C maze p) d \<noteq> UNINITIALIZED"
  shows "\<exists>enc content maze0 maze' rest. encode_maze maze R C result = Some enc \<and>
    write_maze enc R C = Some content \<and> zero_maze stack R C = Some maze0 \<and>
    for_rooms R C (read_room C) (Inr (maze0, content)) = Some (Inr (maze', rest)) \<and>
    (\<forall>p\<in>cells R C. (\<forall>d. get_connection (room_at C maze' p) d = get_connection (room_at C maze p) d) \<and>
       row (room_at C maze' p) = fst p \<and> col (room_at C maze' p) = snd p \<and>
       \<not> visited (room_at C maze' p) \<and> link (room_at C maze' p) = None)"
proof -
  have g: "grid R C maze" "grid R C stack" using assms by (simp_all add: grid_def)
  obtain maze0 where z: "zero_maze stack R C = Some maze0" "grid R C maze0"
    "\<And>q. q \<in> cells R C \<Longrightarrow> room_at C maze0 q = zero_room (room_at C stack q)"
    using zero_maze_ok [OF g(2)] by metis
  have none: "link (room_at C maze0 q) = None" if "q \<in> cells R C" for q
    using z(3) [OF that] by (simp add: zero_room_def)
  have dec: "decided (room_at C maze p)" if "p \<in> cells R C" for p
    using assms(6) [OF that] by (simp add: decided_def)
  show ?thesis
    by (rule file_ok [OF g(1) dec z(2) assms(5)]) (use z(1) none in auto)
qed

theorem maze_file_round_trip_witness:
  "\<exists>enc content maze0 maze' rest. encode_maze two_rooms 1 2 [7, 7] = Some enc \<and>
    write_maze enc 1 2 = Some content \<and> zero_maze two_rooms 1 2 = Some maze0 \<and>
    for_rooms 1 2 (read_room 2) (Inr (maze0, content)) = Some (Inr (maze', rest)) \<and>
    (\<forall>p\<in>cells 1 2. (\<forall>d. get_connection (room_at 2 maze' p) d = get_connection (room_at 2 two_rooms p) d) \<and>
       row (room_at 2 maze' p) = fst p \<and> col (room_at 2 maze' p) = snd p \<and>
       \<not> visited (room_at 2 maze' p) \<and> link (room_at 2 maze' p) = None)"
proof -
  have "get_connection (room_at 2 two_rooms p) d \<noteq> UNINITIALIZED" if "p \<in> cells 1 2" for p d
    using that unfolding two_cells
    by (cases d) (auto simp: two_rooms_at blank_room_def)
  moreover have "length two_rooms = 2" by (simp add: two_rooms_def)
  ultimately show ?thesis
    using maze_file_round_trip [of 1 2 two_rooms two_rooms "[7, 7]"] by simp
qed



text \<open>The check of \<open>fscanf\<close> does not notice the end of the file: the room is then made from an
uninitialised variable.\<close>

lemma read_room_at_end: "dropWhile isspace content = [] \<Longrightarrow> read_room num_cols i k (Inr (maze, content)) = None"
  by (simp add: read_room_def scan_hex_def del: dropWhile_eq_Nil_conv)

end
