(* ===== verification/CStrings.thy ===== *)
theory CStrings
  imports CPrelude "HOL-Library.Sublist" "HOL-Library.List_Lexorder"
begin

text \<open>
  The string library \<open>systems/cs033/stringsperf/strings/strings.c\<close>. An object in memory is the list
  of its characters, a character a signed number and the terminator 0; a pointer that a function
  moves is an index into its object. Reading or writing outside the object is \<open>None\<close>.
\<close>

section \<open>The program\<close>

function strlen_loop :: "int list \<Rightarrow> int \<Rightarrow> int \<Rightarrow> int option" where
  "strlen_loop mem s i =
     (case aget mem (s + i) of
        None \<Rightarrow> None
      | Some c \<Rightarrow> if c \<noteq> 0 then strlen_loop mem s (i + 1) else Some i)"
  by pat_completeness auto

termination by (relation "measure (\<lambda>(mem, s, i). nat (int (length mem) - (s + i)))")
  (auto simp: aget_Some_iff)

definition strlen :: "int list \<Rightarrow> int \<Rightarrow> int option" where
  "strlen mem s = strlen_loop mem s 0"

text \<open>The inner loop of the span functions and of \<open>strtok\<close>: the index where it stops, at a
character equal to \<open>c\<close> or at the terminator.\<close>

function set_loop :: "int \<Rightarrow> int list \<Rightarrow> int \<Rightarrow> int option" where
  "set_loop c chars k =
     (case aget chars k of
        None \<Rightarrow> None
      | Some a \<Rightarrow> if a = 0 then Some k else if c = a then Some k else set_loop c chars (k + 1))"
  by pat_completeness auto

termination by (relation "measure (\<lambda>(c, chars, k). nat (int (length chars) - k))")
  (auto simp: aget_Some_iff)

text \<open>In \<open>strspn\<close> the counter grows at the match.\<close>

function strspn_loop :: "int list \<Rightarrow> int list \<Rightarrow> int \<Rightarrow> int \<Rightarrow> int option" where
  "strspn_loop s accept i counter =
     (case aget s i of
        None \<Rightarrow> None
      | Some c \<Rightarrow>
          if c = 0 then Some counter
          else do {
            k \<leftarrow> set_loop c accept 0;
            a \<leftarrow> aget accept k;
            let counter = (if a \<noteq> 0 then counter + 1 else counter);
            if a = 0 then Some counter else strspn_loop s accept (i + 1) counter
          })"
  by pat_completeness auto

termination by (relation "measure (\<lambda>(s, accept, i, n). nat (int (length s) - i))")
  (auto simp: aget_Some_iff)

definition strspn :: "int list \<Rightarrow> int list \<Rightarrow> int option" where
  "strspn s accept = strspn_loop s accept 0 0"

function strcspn_loop :: "int list \<Rightarrow> int list \<Rightarrow> int \<Rightarrow> int \<Rightarrow> int option" where
  "strcspn_loop s reject i counter =
     (case aget s i of
        None \<Rightarrow> None
      | Some c \<Rightarrow>
          if c = 0 then Some counter
          else do {
            k \<leftarrow> set_loop c reject 0;
            a \<leftarrow> aget reject k;
            if a = 0 then strcspn_loop s reject (i + 1) (counter + 1) else Some counter
          })"
  by pat_completeness auto

termination by (relation "measure (\<lambda>(s, reject, i, n). nat (int (length s) - i))")
  (auto simp: aget_Some_iff)

definition strcspn :: "int list \<Rightarrow> int list \<Rightarrow> int option" where
  "strcspn s reject = strcspn_loop s reject 0 0"

function strncmp_loop :: "int list \<Rightarrow> int list \<Rightarrow> nat \<Rightarrow> nat \<Rightarrow> int option" where
  "strncmp_loop s1 s2 n i =
     (if i < n then do {
        a \<leftarrow> aget s1 (int i);
        b \<leftarrow> aget s2 (int i);
        if a = b then strncmp_loop s1 s2 n (i + 1) else if a < b then Some (- 1) else Some 1
      }
      else Some 0)"
  by pat_completeness auto

termination by (relation "measure (\<lambda>(s1, s2, n, i). n - i)") auto

definition strncmp :: "int list \<Rightarrow> int list \<Rightarrow> nat \<Rightarrow> int option" where
  "strncmp s1 s2 n = strncmp_loop s1 s2 n 0"

text \<open>The copying loop of \<open>strncpy\<close> and the padding; the result is the destination object.\<close>

function copy_loop :: "int list \<Rightarrow> int list \<Rightarrow> nat \<Rightarrow> nat \<Rightarrow> (nat \<times> int list) option" where
  "copy_loop dest src n k =
     (if k < n then do {
        c \<leftarrow> aget src (int k);
        if c \<noteq> 0 then do {
          dest \<leftarrow> aset dest (int k) c;
          copy_loop dest src n (k + 1)
        }
        else Some (k, dest)
      }
      else Some (k, dest))"
  by pat_completeness auto

termination by (relation "measure (\<lambda>(dest, src, n, k). n - k)") auto

partial_function (option) pad_loop :: "int list \<Rightarrow> nat \<Rightarrow> nat \<Rightarrow> int list option" where
  "pad_loop dest n k =
     (if k \<noteq> n then do {
        dest \<leftarrow> aset dest (int k) 0;
        pad_loop dest n (k + 1)
      }
      else Some dest)"

definition strncpy :: "int list \<Rightarrow> int list \<Rightarrow> nat \<Rightarrow> int list option" where
  "strncpy dest src n = do {
     (k, dest) \<leftarrow> copy_loop dest src n 0;
     pad_loop dest n k
   }"

text \<open>The inner loop of \<open>strstr\<close>: the index of the needle where it stops.\<close>

function needle_loop :: "int list \<Rightarrow> int list \<Rightarrow> int \<Rightarrow> int \<Rightarrow> int option" where
  "needle_loop haystack needle i k =
     (case aget needle k of
        None \<Rightarrow> None
      | Some x \<Rightarrow>
          if x \<noteq> 0 then do {
            h \<leftarrow> aget haystack (i + k);
            if x \<noteq> h then Some k else needle_loop haystack needle i (k + 1)
          }
          else Some k)"
  by pat_completeness auto

termination by (relation "measure (\<lambda>(haystack, needle, i, k). nat (int (length needle) - k))")
  (auto simp: aget_Some_iff)

text \<open>The inner option of the result is the pointer returned.\<close>

function strstr_loop :: "int list \<Rightarrow> int list \<Rightarrow> int \<Rightarrow> int option option" where
  "strstr_loop haystack needle i =
     (case aget haystack i of
        None \<Rightarrow> None
      | Some h \<Rightarrow>
          if h \<noteq> 0 then do {
            x \<leftarrow> aget needle 0;
            if h = x then do {
              k \<leftarrow> needle_loop haystack needle i 0;
              x \<leftarrow> aget needle k;
              if x = 0 then Some (Some i) else strstr_loop haystack needle (i + 1)
            }
            else strstr_loop haystack needle (i + 1)
          }
          else Some None)"
  by pat_completeness auto

termination by (relation "measure (\<lambda>(haystack, needle, i). nat (int (length haystack) - i))")
  (auto simp: aget_Some_iff)

definition strstr :: "int list \<Rightarrow> int list \<Rightarrow> int option option" where
  "strstr haystack needle = strstr_loop haystack needle 0"

text \<open>\<open>strtok\<close>. The buffer it cuts up, and the saved state as an index into it. The first loop
returns the index \<open>i\<close> and the pointer after it; the second the buffer.\<close>

record tokens =
  buffer :: "int list"
  saved :: "int option"

function skip_loop :: "int list \<Rightarrow> int list \<Rightarrow> int \<Rightarrow> int \<Rightarrow> int \<Rightarrow> (int \<times> int) option" where
  "skip_loop mem delim dlen str i =
     (case aget mem (str + i) of
        None \<Rightarrow> None
      | Some c \<Rightarrow>
          if c \<noteq> 0 then do {
            k \<leftarrow> set_loop c delim 0;
            if k = dlen then Some (i, str + i) else skip_loop mem delim dlen str (i + 1)
          }
          else Some (i, str))"
  by pat_completeness auto

termination by (relation "measure (\<lambda>(mem, delim, dlen, str, i). nat (int (length mem) - (str + i)))")
  (auto simp: aget_Some_iff)

function cut_loop :: "int list \<Rightarrow> int list \<Rightarrow> int \<Rightarrow> int \<Rightarrow> int \<Rightarrow> int list option" where
  "cut_loop mem delim dlen str i =
     (case aget mem (str + i) of
        None \<Rightarrow> None
      | Some c \<Rightarrow>
          if c \<noteq> 0 then do {
            k \<leftarrow> set_loop c delim 0;
            if k \<noteq> dlen then aset mem (str + i) 0 else cut_loop mem delim dlen str (i + 1)
          }
          else Some mem)"
  by pat_completeness auto

termination by (relation "measure (\<lambda>(mem, delim, dlen, str, i). nat (int (length mem) - (str + i)))")
  (auto simp: aget_Some_iff)

declare strlen_loop.simps [simp del] set_loop.simps [simp del] strspn_loop.simps [simp del]
  strcspn_loop.simps [simp del] strncmp_loop.simps [simp del] copy_loop.simps [simp del]
  needle_loop.simps [simp del] strstr_loop.simps [simp del] skip_loop.simps [simp del]
  cut_loop.simps [simp del]

definition strtok :: "int option \<Rightarrow> int list \<Rightarrow> tokens \<Rightarrow> (int option \<times> tokens) option" where
  "strtok str delim s = do {
     dlen \<leftarrow> strlen delim 0;
     str \<leftarrow> (if str = None then saved s else str);
     (i, str) \<leftarrow> skip_loop (buffer s) delim dlen str 0;
     c \<leftarrow> aget (buffer s) (str + i);
     if c = 0 then Some (None, s)
     else do {
       mem \<leftarrow> cut_loop (buffer s) delim dlen str 0;
       slen \<leftarrow> strlen mem str;
       let s = s\<lparr>buffer := mem, saved := Some (str + slen + 1)\<rparr>;
       Some (if slen = 0 then None else Some str, s)
     }
   }"

section \<open>Strings in memory\<close>

text \<open>\<open>string_at mem p s\<close>: at index \<open>p\<close> of the object is the string \<open>s\<close> and its terminator.\<close>

definition string_at :: "int list \<Rightarrow> int \<Rightarrow> int list \<Rightarrow> bool" where
  "string_at mem p s \<longleftrightarrow> (\<exists>as bs. mem = as @ s @ 0 # bs \<and> p = int (length as)) \<and> 0 \<notin> set s"

lemma aget_append: "aget (as @ x # bs) (int (length as)) = Some x"
  using aget_nat [of "length as" "as @ x # bs"] by simp

lemma string_at_Nil: "string_at mem p [] \<Longrightarrow> aget mem p = Some 0"
  by (auto simp: string_at_def aget_append)

lemma string_at_Cons:
  assumes "string_at mem p (c # s)"
  shows "aget mem p = Some c" "c \<noteq> 0" "string_at mem (p + 1) s"
proof -
  obtain as bs where m: "mem = as @ (c # s) @ 0 # bs" "p = int (length as)" and z: "0 \<notin> set (c # s)"
    using assms by (auto simp: string_at_def)
  show "aget mem p = Some c" using m by (simp add: aget_append)
  show "c \<noteq> 0" using z by auto
  show "string_at mem (p + 1) s"
    unfolding string_at_def using z m by (intro conjI exI [of _ "as @ [c]"] exI [of _ bs]) auto
qed

lemma string_at_drop:
  "string_at mem p (s @ t) \<Longrightarrow> string_at mem (p + int (length s)) t"
proof (induction s arbitrary: p)
  case (Cons c s)
  then show ?case using string_at_Cons(3) [of mem p c "s @ t"] Cons.IH [of "p + 1"]
    by (simp add: algebra_simps)
qed simp

lemma string_at_start: "0 \<notin> set s \<Longrightarrow> string_at (s @ 0 # rest) 0 s"
  by (auto simp: string_at_def intro!: exI [of _ "[]"])

lemma strlen_loop_ok: "string_at mem (p + i) s \<Longrightarrow> strlen_loop mem p i = Some (i + int (length s))"
proof (induction s arbitrary: i)
  case Nil
  then show ?case using string_at_Nil by (subst strlen_loop.simps) simp
next
  case (Cons c s)
  from string_at_Cons [OF Cons.prems] Cons.IH [of "i + 1"] show ?case
    by (subst strlen_loop.simps) (simp add: algebra_simps)
qed

lemma strlen_ok: "string_at mem p s \<Longrightarrow> strlen mem p = Some (int (length s))"
  using strlen_loop_ok [of mem p 0 s] by (simp add: strlen_def)

text \<open>Where the search of a character in a set of characters stops.\<close>

lemma set_loop_ok:
  assumes "string_at chars p cs" "c \<noteq> 0"
  shows "set_loop c chars p = Some (p + int (length (takeWhile (\<lambda>a. a \<noteq> c) cs)))"
  using assms
proof (induction cs arbitrary: p)
  case Nil
  then show ?case using string_at_Nil by (subst set_loop.simps) simp
next
  case (Cons a cs)
  from string_at_Cons [OF Cons.prems(1)] Cons show ?case
    by (subst set_loop.simps) (auto simp: algebra_simps)
qed

lemma set_loop_hit:
  assumes "string_at chars 0 cs" "c \<noteq> 0"
  obtains k where "set_loop c chars 0 = Some k" "k = int (length cs) \<longleftrightarrow> c \<notin> set cs"
    "\<exists>a. aget chars k = Some a \<and> (a = 0 \<longleftrightarrow> c \<notin> set cs)"
proof -
  let ?pre = "takeWhile (\<lambda>a. a \<noteq> c) cs" and ?rest = "dropWhile (\<lambda>a. a \<noteq> c) cs"
  have split: "string_at chars 0 (?pre @ ?rest)" using assms by simp
  have rest: "string_at chars (int (length ?pre)) ?rest" using string_at_drop [OF split] by simp
  have k: "int (length ?pre) = int (length cs) \<longleftrightarrow> c \<notin> set cs"
    by (metis (mono_tags, lifting) takeWhile_eq_all_conv takeWhile_dropWhile_id append_eq_conv_conj of_nat_eq_iff take_all_iff order_refl)
  have a: "\<exists>a. aget chars (int (length ?pre)) = Some a \<and> (a = 0 \<longleftrightarrow> c \<notin> set cs)"
  proof (cases ?rest)
    case Nil
    then have "c \<notin> set cs" by (auto simp: dropWhile_eq_Nil_conv)
    then show ?thesis using rest Nil string_at_Nil by auto
  next
    case (Cons b bs)
    then have "b = c" using hd_dropWhile [of "\<lambda>a. a \<noteq> c" cs] by auto
    moreover have "b \<in> set cs" using Cons set_dropWhileD [of b _ cs] by (metis list.set_intros(1))
    ultimately show ?thesis using rest Cons string_at_Cons by auto
  qed
  show thesis by (rule that [OF _ k a]) (use set_loop_ok [OF assms] in simp)
qed

lemma strspn_loop_ok:
  assumes "string_at mem i s" "string_at accept 0 cs"
  shows "strspn_loop mem accept i n = Some (n + int (length (takeWhile (\<lambda>c. c \<in> set cs) s)))"
  using assms(1)
proof (induction s arbitrary: i n)
  case Nil
  then show ?case using string_at_Nil by (subst strspn_loop.simps) simp
next
  case (Cons c s)
  note c = string_at_Cons [OF Cons.prems]
  obtain k a where k: "set_loop c accept 0 = Some k" "aget accept k = Some a" "a = 0 \<longleftrightarrow> c \<notin> set cs"
    using set_loop_hit [OF assms(2) c(2)] by metis
  show ?case using c k Cons.IH [OF c(3)] by (subst strspn_loop.simps) simp
qed

lemma strcspn_loop_ok:
  assumes "string_at mem i s" "string_at reject 0 cs"
  shows "strcspn_loop mem reject i n = Some (n + int (length (takeWhile (\<lambda>c. c \<notin> set cs) s)))"
  using assms(1)
proof (induction s arbitrary: i n)
  case Nil
  then show ?case using string_at_Nil by (subst strcspn_loop.simps) simp
next
  case (Cons c s)
  note c = string_at_Cons [OF Cons.prems]
  obtain k a where k: "set_loop c reject 0 = Some k" "aget reject k = Some a" "a = 0 \<longleftrightarrow> c \<notin> set cs"
    using set_loop_hit [OF assms(2) c(2)] by metis
  show ?case using c k Cons.IH [OF c(3)] by (subst strcspn_loop.simps) simp
qed

section \<open>Comparing and copying\<close>

lemma strncmp_loop_ok:
  assumes "n \<le> length s1" "n \<le> length s2" "i \<le> n"
  shows "strncmp_loop s1 s2 n i =
    Some (if take (n - i) (drop i s1) = take (n - i) (drop i s2) then 0
          else if take (n - i) (drop i s1) < take (n - i) (drop i s2) then - 1 else 1)"
  using assms
proof (induction s1 s2 n i rule: strncmp_loop.induct)
  case (1 s1 s2 n i)
  show ?case
  proof (cases "i < n")
    case True
    have "take (n - i) (drop i s) = s ! i # take (n - (i + 1)) (drop (i + 1) s)" if "n \<le> length s" for s :: "int list"
      using True that by (simp add: Cons_nth_drop_Suc [symmetric] Suc_diff_Suc [symmetric])
    note split = this [OF 1(2)] this [OF 1(3)]
    show ?thesis using 1 True unfolding split by (subst strncmp_loop.simps) auto
  next
    case False
    then show ?thesis by (subst strncmp_loop.simps) simp
  qed
qed

lemma copy_loop_ok:
  assumes "string_at src (int k) s" "k \<le> n" "n \<le> length dest"
  shows "copy_loop dest src n k =
    Some (min n (k + length s), take k dest @ take (n - k) s @ drop (min n (k + length s)) dest)"
  using assms
proof (induction s arbitrary: k dest)
  case Nil
  then show ?case using string_at_Nil [OF Nil(1)] by (subst copy_loop.simps) (auto simp: min_def)
next
  case (Cons c s)
  note c = string_at_Cons [OF Cons.prems(1)]
  show ?case
  proof (cases "k < n")
    case True
    have "copy_loop dest src n k = copy_loop (dest[k := c]) src n (k + 1)"
      using c True Cons.prems by (subst copy_loop.simps) simp
    also have "\<dots> = Some (min n (k + 1 + length s), take (k + 1) (dest[k := c]) @ take (n - (k + 1)) s @
        drop (min n (k + 1 + length s)) (dest[k := c]))"
      by (rule Cons.IH) (use c True Cons.prems in \<open>auto simp: algebra_simps\<close>)
    also have "take (k + 1) (dest[k := c]) = take k dest @ [c]"
      using True Cons.prems by (simp add: take_Suc_conv_app_nth)
    also have "drop (min n (k + 1 + length s)) (dest[k := c]) = drop (min n (k + 1 + length s)) dest"
      using True by (simp add: drop_update_cancel)
    also have "take (n - k) (c # s) = c # take (n - (k + 1)) s"
      using True by (simp add: take_Cons')
    then have "(take k dest @ [c]) @ take (n - (k + 1)) s = take k dest @ take (n - k) (c # s)" by simp
    ultimately show ?thesis by simp
  next
    case False
    then show ?thesis using Cons.prems by (subst copy_loop.simps) auto
  qed
qed

lemma pad_loop_ok:
  assumes "k \<le> n" "n \<le> length dest"
  shows "pad_loop dest n k = Some (take k dest @ replicate (n - k) 0 @ drop n dest)"
  using assms
proof (induction "n - k" arbitrary: k dest)
  case 0
  then show ?case by (subst pad_loop.simps) simp
next
  case (Suc m)
  then have lt: "k < n" by simp
  have "pad_loop dest n k = pad_loop (dest[k := 0]) n (k + 1)"
    using lt Suc.prems by (subst pad_loop.simps) simp
  also have "\<dots> = Some (take (k + 1) (dest[k := 0]) @ replicate (n - (k + 1)) 0 @ drop n (dest[k := 0]))"
    by (rule Suc.hyps(1)) (use Suc lt in auto)
  also have "take (k + 1) (dest[k := 0]) = take k dest @ [0]"
    using lt Suc.prems by (simp add: take_Suc_conv_app_nth)
  also have "drop n (dest[k := 0]) = drop n dest" using lt by (simp add: drop_update_cancel)
  also have "(take k dest @ [0]) @ replicate (n - (k + 1)) 0 @ drop n dest =
      take k dest @ replicate (n - k) 0 @ drop n dest"
    using lt by (simp add: Suc_diff_Suc [symmetric])
  finally show ?case .
qed

lemma strncpy_ok:
  assumes "string_at src 0 s" "n \<le> length dest"
  shows "strncpy dest src n = Some (take n (s @ replicate n 0) @ drop n dest)"
proof -
  let ?d = "take n s @ drop (min n (length s)) dest"
  have c: "copy_loop dest src n 0 = Some (min n (length s), ?d)"
    using copy_loop_ok [of src 0 s n dest] assms by simp
  have "pad_loop ?d n (min n (length s)) =
      Some (take (min n (length s)) ?d @ replicate (n - min n (length s)) 0 @ drop n ?d)"
    by (rule pad_loop_ok) (use assms in auto)
  also have "take (min n (length s)) ?d = take n s" by (simp add: min_def)
  also have "drop n ?d = drop n dest" using assms by (auto simp: min_def)
  finally show ?thesis using c by (simp add: strncpy_def min_def)
qed

section \<open>Searching\<close>

lemma needle_loop_ok:
  assumes "string_at needle k xs" "string_at haystack (i + k) hs"
  shows "\<exists>k' x. needle_loop haystack needle i k = Some k' \<and> aget needle k' = Some x \<and>
    (x = 0 \<longleftrightarrow> prefix xs hs)"
  using assms
proof (induction xs arbitrary: k hs)
  case Nil
  then show ?case using string_at_Nil [OF Nil(1)] by (subst needle_loop.simps) simp
next
  case (Cons x xs)
  note x = string_at_Cons [OF Cons.prems(1)]
  show ?case
  proof (cases hs)
    case Nil
    then show ?thesis using x string_at_Nil [of haystack "i + k"] Cons.prems(2)
      by (subst needle_loop.simps) simp
  next
    case (Cons h hs')
    note h = string_at_Cons [OF Cons.prems(2) [unfolded Cons]]
    show ?thesis
    proof (cases "x = h")
      case True
      have "\<exists>k' x. needle_loop haystack needle i (k + 1) = Some k' \<and> aget needle k' = Some x \<and>
          (x = 0 \<longleftrightarrow> prefix xs hs')"
        by (rule Cons.IH [OF x(3)]) (use h in \<open>simp add: algebra_simps\<close>)
      then show ?thesis using True x h Cons by (subst needle_loop.simps) simp
    next
      case False
      then show ?thesis using x h Cons by (subst needle_loop.simps) simp
    qed
  qed
qed

text \<open>The first place where the needle occurs.\<close>

fun first_occurrence :: "int list \<Rightarrow> int list \<Rightarrow> nat option" where
  "first_occurrence xs [] = None"
| "first_occurrence xs (h # hs) =
     (if prefix xs (h # hs) then Some 0 else map_option Suc (first_occurrence xs hs))"

lemma first_occurrence_Some:
  "xs \<noteq> [] \<Longrightarrow> first_occurrence xs hs = Some i \<longleftrightarrow>
    prefix xs (drop i hs) \<and> (\<forall>j<i. \<not> prefix xs (drop j hs))"
proof (induction hs arbitrary: i)
  case (Cons h hs)
  then show ?case by (cases i) (auto simp: less_Suc_eq_0_disj)
qed simp

lemma first_occurrence_None:
  "xs \<noteq> [] \<Longrightarrow> first_occurrence xs hs = None \<longleftrightarrow> \<not> sublist xs hs"
  by (induction hs) (auto simp: sublist_Cons_right)

lemma strstr_loop_ok:
  assumes "string_at haystack i hs" "string_at needle 0 xs" "xs \<noteq> []"
  shows "strstr_loop haystack needle i = Some (map_option (\<lambda>j. i + int j) (first_occurrence xs hs))"
  using assms(1)
proof (induction hs arbitrary: i)
  case Nil
  then show ?case using string_at_Nil by (subst strstr_loop.simps) simp
next
  case (Cons h hs)
  note h = string_at_Cons [OF Cons.prems]
  obtain x xs' where xs: "xs = x # xs'" using assms(3) by (cases xs) auto
  note x = string_at_Cons [OF assms(2) [unfolded xs]]
  obtain k' y where k: "needle_loop haystack needle i 0 = Some k'" "aget needle k' = Some y"
    "y = 0 \<longleftrightarrow> prefix xs (h # hs)"
    using needle_loop_ok [OF assms(2), of haystack i "h # hs"] Cons.prems by auto
  have rest: "map_option (\<lambda>j. i + 1 + int j) r = map_option (\<lambda>j. i + int j) (map_option Suc r)" for r
    by (cases r) simp_all
  show ?case
  proof (cases "prefix xs (h # hs)")
    case True
    then have "h = x" by (simp add: xs)
    then show ?thesis using True h x k by (subst strstr_loop.simps) simp
  next
    case False
    then show ?thesis using h x k Cons.IH [OF h(3)] by (subst strstr_loop.simps) (simp add: rest)
  qed
qed

section \<open>Tokens\<close>

lemma skip_loop_ok:
  assumes "string_at mem (str + i) (pre @ rest)" "string_at delim 0 ds"
    "set pre \<subseteq> set ds" "rest = [] \<or> hd rest \<notin> set ds"
  shows "skip_loop mem delim (int (length ds)) str i =
    Some (i + int (length pre), if rest = [] then str else str + i + int (length pre))"
  using assms(1,3)
proof (induction pre arbitrary: i)
  case Nil
  show ?case
  proof (cases rest)
    case Nil
    then show ?thesis using string_at_Nil Nil.prems by (subst skip_loop.simps) simp
  next
    case (Cons c cs)
    note c = string_at_Cons [OF Nil.prems(1) [unfolded Cons append_Nil]]
    obtain k where "set_loop c delim 0 = Some k" "k = int (length ds) \<longleftrightarrow> c \<notin> set ds"
      using set_loop_hit [OF assms(2) c(2)] by metis
    then show ?thesis using c Cons assms(4) by (subst skip_loop.simps) simp
  qed
next
  case (Cons c pre)
  have at: "string_at mem (str + i) (c # pre @ rest)" using Cons.prems by simp
  note c = string_at_Cons [OF at]
  obtain k where k: "set_loop c delim 0 = Some k" "k = int (length ds) \<longleftrightarrow> c \<notin> set ds"
    using set_loop_hit [OF assms(2) c(2)] by metis
  have "skip_loop mem delim (int (length ds)) str i = skip_loop mem delim (int (length ds)) str (i + 1)"
    using c k Cons.prems by (subst skip_loop.simps) simp
  then show ?case using Cons.IH [of "i + 1"] c Cons.prems by (simp add: algebra_simps)
qed

lemma cut_loop_ok:
  assumes "string_at mem (str + i) (tok @ rest)" "string_at delim 0 ds"
    "set tok \<inter> set ds = {}" "rest = [] \<or> hd rest \<in> set ds"
  shows "cut_loop mem delim (int (length ds)) str i =
    Some (if rest = [] then mem else mem[nat (str + i + int (length tok)) := 0])"
  using assms(1,3)
proof (induction tok arbitrary: i)
  case Nil
  show ?case
  proof (cases rest)
    case Nil
    then show ?thesis using string_at_Nil Nil.prems by (subst cut_loop.simps) simp
  next
    case (Cons c cs)
    note c = string_at_Cons [OF Nil.prems(1) [unfolded Cons append_Nil]]
    obtain k where "set_loop c delim 0 = Some k" "k = int (length ds) \<longleftrightarrow> c \<notin> set ds"
      using set_loop_hit [OF assms(2) c(2)] by metis
    moreover have "aset mem (str + i) 0 = Some (mem[nat (str + i) := 0])"
      using c(1) by (simp add: aget_Some_iff aset_def)
    ultimately show ?thesis using c Cons assms(4) by (subst cut_loop.simps) simp
  qed
next
  case (Cons c tok)
  have at: "string_at mem (str + i) (c # tok @ rest)" using Cons.prems by simp
  note c = string_at_Cons [OF at]
  obtain k where k: "set_loop c delim 0 = Some k" "k = int (length ds) \<longleftrightarrow> c \<notin> set ds"
    using set_loop_hit [OF assms(2) c(2)] by metis
  have "cut_loop mem delim (int (length ds)) str i = cut_loop mem delim (int (length ds)) str (i + 1)"
    using c k Cons.prems by (subst cut_loop.simps) simp
  then show ?case using Cons.IH [of "i + 1"] c Cons.prems by (simp add: algebra_simps)
qed

text \<open>Cutting a string in two at a delimiter.\<close>

lemma string_at_cut:
  assumes "string_at mem p (tok @ d # rest)"
  shows "string_at (mem[nat (p + int (length tok)) := 0]) p tok"
    "string_at (mem[nat (p + int (length tok)) := 0]) (p + int (length tok) + 1) rest"
proof -
  obtain as bs where m: "mem = as @ (tok @ d # rest) @ 0 # bs" "p = int (length as)"
    and z: "0 \<notin> set (tok @ d # rest)"
    using assms by (auto simp: string_at_def)
  have "nat (p + int (length tok)) = length (as @ tok)" using m by simp
  then have new: "mem[nat (p + int (length tok)) := 0] = as @ tok @ 0 # rest @ 0 # bs"
    using list_update_length [of "as @ tok" d "rest @ 0 # bs" 0] m(1) by simp
  show "string_at (mem[nat (p + int (length tok)) := 0]) p tok"
    unfolding new string_at_def using m z by (intro conjI exI [of _ as] exI [of _ "rest @ 0 # bs"]) auto
  show "string_at (mem[nat (p + int (length tok)) := 0]) (p + int (length tok) + 1) rest"
    unfolding new string_at_def using m z
    by (intro conjI exI [of _ "as @ tok @ [0]"] exI [of _ bs]) auto
qed

lemma strtok_ok:
  assumes at: "string_at (buffer s) p (pre @ tok @ rest)" and d: "string_at delim 0 ds"
    and start: "(if str = None then saved s else str) = Some p"
    and pre: "set pre \<subseteq> set ds" and tok: "tok \<noteq> []" "set tok \<inter> set ds = {}"
    and rest: "rest = [] \<or> hd rest \<in> set ds"
    and short: "length pre < length (tok @ rest)"
  obtains s' where "strtok str delim s = Some (Some (p + int (length pre)), s')"
    "string_at (buffer s') (p + int (length pre)) tok"
    "saved s' = Some (p + int (length pre) + int (length tok) + 1)"
    "rest \<noteq> [] \<Longrightarrow> string_at (buffer s') (p + int (length pre) + int (length tok) + 1) (tl rest)"
    "rest = [] \<Longrightarrow> buffer s' = buffer s"
proof -
  define q where "q = p + int (length pre)"
  have tk: "string_at (buffer s) q (tok @ rest)"
    using string_at_drop [OF at] by (simp add: q_def)
  have "hd (tok @ rest) \<notin> set ds" using tok by (cases tok) auto
  then have sk: "skip_loop (buffer s) delim (int (length ds)) p 0 = Some (int (length pre), q)"
    using skip_loop_ok [of "buffer s" p 0 pre "tok @ rest" delim ds] at d pre tok by (simp add: q_def)
  have "\<exists>c. aget (buffer s) (q + int (length pre)) = Some c \<and> c \<noteq> 0"
  proof -
    let ?a = "take (length pre) (tok @ rest)" and ?b = "drop (length pre) (tok @ rest)"
    have "string_at (buffer s) (q + int (length ?a)) ?b"
      by (rule string_at_drop) (simp only: append_take_drop_id tk)
    moreover have len: "length ?a = length pre" using short by simp
    ultimately have b: "string_at (buffer s) (q + int (length pre)) ?b" by (simp only: len)
    obtain x xs where "?b = x # xs" using short by (cases ?b) auto
    with b show ?thesis using string_at_Cons by metis
  qed
  then obtain c where c: "aget (buffer s) (q + int (length pre)) = Some c" "c \<noteq> 0" by blast
  let ?mem = "if rest = [] then buffer s else (buffer s)[nat (q + int (length tok)) := 0]"
  have cut: "cut_loop (buffer s) delim (int (length ds)) q 0 = Some ?mem"
    using cut_loop_ok [of "buffer s" q 0 tok rest delim ds] tk d tok rest by simp
  have after: "string_at ?mem q tok" "rest \<noteq> [] \<Longrightarrow> string_at ?mem (q + int (length tok) + 1) (tl rest)"
    using tk string_at_cut [of "buffer s" q tok "hd rest" "tl rest"] by (cases rest; simp)+
  define s' where "s' = s\<lparr>buffer := ?mem, saved := Some (q + int (length tok) + 1)\<rparr>"
  have run: "strtok str delim s = Some (Some q, s')"
    using strlen_ok [OF d] start sk c cut strlen_ok [OF after(1)] tok by (simp add: strtok_def s'_def)
  show thesis
    by (rule that [of s']) (use run after in \<open>simp_all add: q_def s'_def\<close>)
qed

lemma strtok_nothing_left:
  assumes "string_at (buffer s) p pre" "string_at delim 0 ds"
    "(if str = None then saved s else str) = Some p" "set pre \<subseteq> set ds"
  shows "strtok str delim s = Some (None, s)"
proof -
  have "string_at (buffer s) (p + int (length pre)) []"
    by (rule string_at_drop) (use assms in simp)
  then show ?thesis
    using skip_loop_ok [of "buffer s" p 0 pre "[]" delim ds] assms strlen_ok [OF assms(2)]
      string_at_Nil by (simp add: strtok_def)
qed

lemma strtok_lost:
  assumes at: "string_at (buffer s) p (pre @ tok)" and d: "string_at delim 0 ds"
    and start: "(if str = None then saved s else str) = Some p"
    and pre: "set pre \<subseteq> set ds" and tok: "tok \<noteq> []" "hd tok \<notin> set ds"
    and len: "length pre = length tok"
  shows "strtok str delim s = Some (None, s)"
proof -
  have "skip_loop (buffer s) delim (int (length ds)) p 0 = Some (int (length pre), p + int (length pre))"
    using skip_loop_ok [of "buffer s" p 0 pre tok delim ds] at d pre tok by simp
  moreover have "string_at (buffer s) (p + int (length (pre @ tok))) []"
    by (rule string_at_drop) (use at in simp)
  ultimately show ?thesis
    using start strlen_ok [OF d] string_at_Nil len by (simp add: strtok_def add.assoc)
qed

section \<open>Properties\<close>

text \<open>On strings in memory, \<open>strlen\<close> returns the length, \<open>strspn\<close> the length of the longest prefix
of characters in the accepted set and \<open>strcspn\<close> that of characters outside the rejected set.\<close>

theorem string_spans:
  assumes "0 \<notin> set s" "0 \<notin> set cs"
  shows "strlen (s @ 0 # r) 0 = Some (int (length s)) \<and>
    strspn (s @ 0 # r) (cs @ 0 # r2) = Some (int (length (takeWhile (\<lambda>c. c \<in> set cs) s))) \<and>
    strcspn (s @ 0 # r) (cs @ 0 # r2) = Some (int (length (takeWhile (\<lambda>c. c \<notin> set cs) s)))"
  using strlen_ok [OF string_at_start [OF assms(1)]]
    strspn_loop_ok [OF string_at_start [OF assms(1)] string_at_start [OF assms(2)]]
    strcspn_loop_ok [OF string_at_start [OF assms(1)] string_at_start [OF assms(2)]]
  by (simp add: strspn_def strcspn_def)

theorem string_spans_witness:
  "strlen ([104, 101, 108, 108, 111] @ 0 # []) 0 = Some (int (length [104, 101, 108, 108, 111 :: int])) \<and>
   strspn ([104, 101, 108, 108, 111] @ 0 # []) ([104, 101, 108, 108] @ 0 # [7]) =
     Some (int (length (takeWhile (\<lambda>c. c \<in> set [104, 101, 108, 108]) [104, 101, 108, 108, 111 :: int]))) \<and>
   strcspn ([104, 101, 108, 108, 111] @ 0 # []) ([104, 101, 108, 108] @ 0 # [7]) =
     Some (int (length (takeWhile (\<lambda>c. c \<notin> set [104, 101, 108, 108]) [104, 101, 108, 108, 111 :: int])))"
  by (rule string_spans) simp_all

text \<open>\<open>strncmp\<close> compares the first \<open>n\<close> characters in the lexicographic order, terminators like any
other character, and \<open>strncpy\<close> writes the first \<open>n\<close> characters of the source, padded with
terminators, and nothing else of the destination.\<close>

theorem bounded_compare_and_copy:
  assumes "n \<le> length s1" "n \<le> length s2" "0 \<notin> set s" "n \<le> length dest"
  shows "strncmp s1 s2 n =
      Some (if take n s1 = take n s2 then 0 else if take n s1 < take n s2 then - 1 else 1) \<and>
    strncpy dest (s @ 0 # r) n = Some (take n (s @ replicate n 0) @ drop n dest)"
  using strncmp_loop_ok [OF assms(1,2), of 0] strncpy_ok [OF string_at_start [OF assms(3)] assms(4)]
  by (simp add: strncmp_def)

theorem bounded_compare_and_copy_witness:
  "strncmp [97, 0, 120] [97, 0, 121] 3 =
      Some (if take 3 [97, 0, 120] = take 3 [97, 0, 121 :: int] then 0
            else if take 3 [97, 0, 120] < take 3 [97, 0, 121 :: int] then - 1 else 1) \<and>
    strncpy [1, 2, 3, 4] ([97, 98] @ 0 # []) 3 = Some (take 3 ([97, 98] @ replicate 3 0) @ drop 3 [1, 2, 3, 4])"
  by (rule bounded_compare_and_copy) simp_all

text \<open>C33. For a needle that is not empty, \<open>strstr\<close> returns the first index at which it occurs in the
haystack, and \<open>NULL\<close> exactly when it occurs nowhere.\<close>

theorem strstr_finds_first:
  assumes "0 \<notin> set hs" "0 \<notin> set xs" "xs \<noteq> []"
  shows "\<exists>res. strstr (hs @ 0 # r) (xs @ 0 # r2) = Some res \<and>
    (res = None \<longleftrightarrow> \<not> sublist xs hs) \<and>
    (\<forall>p. res = Some p \<longrightarrow> 0 \<le> p \<and> prefix xs (drop (nat p) hs) \<and> (\<forall>j<nat p. \<not> prefix xs (drop j hs)))"
proof -
  have r: "strstr (hs @ 0 # r) (xs @ 0 # r2) = Some (map_option int (first_occurrence xs hs))"
    using strstr_loop_ok [OF string_at_start [OF assms(1)] string_at_start [OF assms(2)] assms(3)]
    by (simp add: strstr_def)
  show ?thesis
    unfolding r using first_occurrence_Some [OF assms(3), of hs] first_occurrence_None [OF assms(3), of hs]
    by (cases "first_occurrence xs hs") auto
qed

theorem strstr_finds_first_witness:
  "\<exists>res. strstr ([97, 98, 97, 99] @ 0 # []) ([97, 99] @ 0 # []) = Some res \<and>
    (res = None \<longleftrightarrow> \<not> sublist [97, 99] [97, 98, 97, 99 :: int]) \<and>
    (\<forall>p. res = Some p \<longrightarrow> 0 \<le> p \<and> prefix [97, 99] (drop (nat p) [97, 98, 97, 99 :: int]) \<and>
       (\<forall>j<nat p. \<not> prefix [97, 99] (drop j [97, 98, 97, 99 :: int])))"
  by (rule strstr_finds_first) simp_all

text \<open>C34. One call of \<open>strtok\<close>, on a string or on the saved rest. When \<open>pre\<close> are the leading delimiters and \<open>tok\<close>
is the first token, and there are fewer leading delimiters than characters after them, it returns the token, terminated
in place, and, if a delimiter follows, saves the place after it, where the rest of the string is. When
there are only delimiters it returns \<open>NULL\<close> and changes nothing. (With as many leading delimiters as
characters after them the token is lost, \<open>strtok_loses_token\<close>; after the last token the place saved is wrong,
\<open>strtok_overruns\<close>.)\<close>

theorem strtok_next_token:
  assumes "string_at (buffer s) p (pre @ tok @ rest)" "string_at delim 0 ds"
    and "(if str = None then saved s else str) = Some p" "set pre \<subseteq> set ds"
  shows "(tok \<noteq> [] \<and> set tok \<inter> set ds = {} \<and> (rest = [] \<or> hd rest \<in> set ds) \<and> length pre < length (tok @ rest) \<longrightarrow>
      (\<exists>s'. strtok str delim s = Some (Some (p + int (length pre)), s') \<and>
        string_at (buffer s') (p + int (length pre)) tok \<and>
        (rest \<noteq> [] \<longrightarrow> saved s' = Some (p + int (length pre) + int (length tok) + 1) \<and>
          string_at (buffer s') (p + int (length pre) + int (length tok) + 1) (tl rest)))) \<and>
    (tok = [] \<and> rest = [] \<longrightarrow> strtok str delim s = Some (None, s))"
proof (intro conjI impI)
  assume t: "tok \<noteq> [] \<and> set tok \<inter> set ds = {} \<and> (rest = [] \<or> hd rest \<in> set ds) \<and> length pre < length (tok @ rest)"
  obtain s' where "strtok str delim s = Some (Some (p + int (length pre)), s')" "string_at (buffer s') (p + int (length pre)) tok"
      "saved s' = Some (p + int (length pre) + int (length tok) + 1)"
      "rest \<noteq> [] \<Longrightarrow> string_at (buffer s') (p + int (length pre) + int (length tok) + 1) (tl rest)"
    by (rule strtok_ok [OF assms]) (use t in blast)+
  then show "\<exists>s'. strtok str delim s = Some (Some (p + int (length pre)), s') \<and>
      string_at (buffer s') (p + int (length pre)) tok \<and>
      (rest \<noteq> [] \<longrightarrow> saved s' = Some (p + int (length pre) + int (length tok) + 1) \<and>
        string_at (buffer s') (p + int (length pre) + int (length tok) + 1) (tl rest))" by blast
next
  assume "tok = [] \<and> rest = []"
  then show "strtok str delim s = Some (None, s)" using strtok_nothing_left [OF _ assms(2,3,4)] assms(1) by simp
qed

theorem strtok_next_token_witness:
  "(\<exists>s'. strtok (Some 0) [44, 0] \<lparr>buffer = [44, 97, 98, 44, 99, 0], saved = None\<rparr> = Some (Some 1, s') \<and>
      string_at (buffer s') 1 [97, 98] \<and> saved s' = Some 4 \<and> string_at (buffer s') 4 [99]) \<and>
    strtok (Some 0) [44, 0] \<lparr>buffer = [44, 44, 0], saved = None\<rparr> = Some (None, \<lparr>buffer = [44, 44, 0], saved = None\<rparr>)"
  using strtok_next_token [of "\<lparr>buffer = [44, 97, 98, 44, 99, 0], saved = None\<rparr>" 0 "[44]" "[97, 98]" "[44, 99]"
      "[44, 0]" "[44]" "Some 0"]
    strtok_next_token [of "\<lparr>buffer = [44, 44, 0], saved = None\<rparr>" 0 "[44, 44]" "[]" "[]" "[44, 0]" "[44]" "Some 0"]
    string_at_start [of "[44, 97, 98, 44, 99]" "[]"] string_at_start [of "[44]" "[]"] string_at_start [of "[44, 44]" "[]"]
  by simp

text \<open>The index of the skipping loop is used with the pointer it has already moved: with as many leading
delimiters as characters after them the call returns \<open>NULL\<close> although there is a token.\<close>

lemma strtok_loses_token:
  assumes "string_at (buffer s) p (pre @ tok)" "string_at delim 0 ds"
    and "(if str = None then saved s else str) = Some p"
    and "set pre \<subseteq> set ds" "tok \<noteq> []" "set tok \<inter> set ds = {}" "length pre = length tok"
  shows "strtok str delim s = Some (None, s)"
proof -
  have "hd tok \<notin> set ds" using assms(5,6) by (cases tok) auto
  then show ?thesis using strtok_lost [OF assms(1,2,3,4)] assms(5,7) by blast
qed

text \<open>After the last token the saved place is past the terminator, and when the buffer ends there the
next call reads outside it.\<close>

lemma strtok_overruns:
  "\<exists>s'. strtok (Some 0) [44, 0] \<lparr>buffer = [97, 0], saved = None\<rparr> = Some (Some 0, s') \<and>
    strtok None [44, 0] s' = None"
proof -
  have "string_at [97, 0] 0 ([] @ [97] @ [])" "string_at [44, 0] 0 [44]"
    using string_at_start [of "[97]" "[]"] string_at_start [of "[44]" "[]"] by simp_all
  then obtain s' where s: "strtok (Some 0) [44, 0] \<lparr>buffer = [97, 0], saved = None\<rparr> = Some (Some 0, s')"
    "saved s' = Some 2" "buffer s' = [97, 0]"
    using strtok_ok [of "\<lparr>buffer = [97, 0], saved = None\<rparr>" 0 "[]" "[97]" "[]" "[44, 0]" "[44]" "Some 0"]
    by auto
  moreover have "strlen [44, 0] 0 = Some 1" using strlen_ok [OF string_at_start [of "[44]" "[]"]] by simp
  ultimately show ?thesis by (auto simp: strtok_def skip_loop.simps [of _ _ _ 2 0] aget_def)
qed

text \<open>\<open>strncmp\<close> goes on after the terminators, and \<open>strstr\<close> finds no empty needle.\<close>

lemma strncmp_past_end: "strncmp [97, 0, 120] [97, 0, 121] 3 = Some (- 1)"
  using strncmp_loop_ok [of 3 "[97, 0, 120]" "[97, 0, 121]" 0] by (simp add: strncmp_def)

lemma strstr_empty_needle: "0 \<notin> set hs \<Longrightarrow> strstr (hs @ 0 # r) (0 # r2) = Some None"
proof -
  assume z: "0 \<notin> set hs"
  have "string_at mem i hs \<Longrightarrow> strstr_loop mem (0 # r2) i = Some None" for mem i
  proof (induction hs arbitrary: i)
    case Nil
    then show ?case using string_at_Nil by (subst strstr_loop.simps) simp
  next
    case (Cons h hs)
    from string_at_Cons [OF Cons.prems] Cons.IH show ?case
      by (subst strstr_loop.simps) (simp add: aget_def)
  qed
  then show ?thesis using string_at_start [OF z] by (simp add: strstr_def)
qed

end
