(* ===== verification/Jobs.thy ===== *)
theory Jobs
  imports PtrList
begin

text \<open>
  The job list of the shell, \<open>systems/cs033/shell_2/jobs.c\<close>, on the node heap of PtrList: the
  elements in the order they were added and the place of the circular iterator. The copies of the
  strings belong to their element and are values here; a job list that is \<open>NULL\<close> is \<open>None\<close>.
\<close>

section \<open>The program\<close>

record job =
  jid :: int
  pid :: int
  state :: string
  command :: string

record job_list = "job nodes" +
  first :: nat
  current :: nat
  killed :: "int list"

definition init_job_list :: "job nodes \<Rightarrow> job_list" where
  "init_job_list h = \<lparr>nxt = nxt h, dat = dat h, live = live h, fresh = fresh h,
     first = 0, current = 0, killed = []\<rparr>"

text \<open>The operations on a list that may be \<open>NULL\<close>, and then return -1.\<close>

definition on_list ::
  "job_list option \<Rightarrow> (job_list \<Rightarrow> (int \<times> job_list) option) \<Rightarrow> (int \<times> job_list option) option" where
  "on_list job_list f =
     (case job_list of
        None \<Rightarrow> Some (- 1, None)
      | Some s \<Rightarrow> do { (r, s) \<leftarrow> f s; Some (r, Some s) })"

text \<open>\<open>kill(-pid, SIGKILL)\<close> for each job; its failure is only reported.\<close>

partial_function (option) cleanup_loop :: "job_list \<Rightarrow> nat \<Rightarrow> job_list option" where
  "cleanup_loop s cur =
     (if cur \<noteq> 0 then do {
        next_element \<leftarrow> get_next s cur;
        j \<leftarrow> get_val s cur;
        let s = s\<lparr>killed := killed s @ [- pid j]\<rparr>;
        s \<leftarrow> free_node s cur;
        cleanup_loop s next_element
      }
      else Some s)"

definition cleanup_job_list :: "job_list option \<Rightarrow> job_list option option" where
  "cleanup_job_list job_list =
     (case job_list of
        None \<Rightarrow> Some None
      | Some s \<Rightarrow> do { s \<leftarrow> cleanup_loop s (first s); Some (Some (s\<lparr>first := 0, current := 0\<rparr>)) })"

partial_function (option) last_loop :: "job_list \<Rightarrow> nat \<Rightarrow> nat option" where
  "last_loop s cur = do {
     n \<leftarrow> get_next s cur;
     if n \<noteq> 0 then last_loop s n else Some cur
   }"

definition add_job ::
  "job_list option \<Rightarrow> int \<Rightarrow> int \<Rightarrow> string option \<Rightarrow> string option \<Rightarrow> (int \<times> job_list option) option" where
  "add_job job_list i p st cmd =
     (if job_list = None \<or> st = None \<or> cmd = None then Some (- 1, job_list)
      else on_list job_list (\<lambda>s. do {
        let (new, s) = malloc_node s;
        s \<leftarrow> set_val s new \<lparr>jid = i, pid = p, state = the st, command = the cmd\<rparr>;
        s \<leftarrow> set_next s new 0;
        if first s = 0 then Some (0, s\<lparr>first := new, current := new\<rparr>)
        else do {
          cur \<leftarrow> last_loop s (first s);
          s \<leftarrow> set_next s cur new;
          Some (0, s)
        }
      }))"

text \<open>The loop of the two removal functions; \<open>key\<close> reads the field they compare.\<close>

partial_function (option) remove_job_loop ::
  "(job \<Rightarrow> int) \<Rightarrow> int \<Rightarrow> job_list \<Rightarrow> nat \<Rightarrow> nat \<Rightarrow> (int \<times> job_list) option" where
  "remove_job_loop key k s prev cur =
     (if cur \<noteq> 0 then do {
        j \<leftarrow> get_val s cur;
        n \<leftarrow> get_next s cur;
        if key j = k then do {
          s \<leftarrow> (if prev \<noteq> 0 then set_next s prev n else Some s);
          let s = (if first s = cur then s\<lparr>first := n\<rparr> else s);
          let s = (if current s = cur then s\<lparr>current := n\<rparr> else s);
          s \<leftarrow> free_node s cur;
          Some (0, s)
        }
        else remove_job_loop key k s cur n
      }
      else Some (- 1, s))"

definition remove_job_jid :: "job_list option \<Rightarrow> int \<Rightarrow> (int \<times> job_list option) option" where
  "remove_job_jid job_list k = on_list job_list (\<lambda>s. remove_job_loop jid k s 0 (first s))"

definition remove_job_pid :: "job_list option \<Rightarrow> int \<Rightarrow> (int \<times> job_list option) option" where
  "remove_job_pid job_list k = on_list job_list (\<lambda>s. remove_job_loop pid k s 0 (first s))"

text \<open>A new state that is \<open>NULL\<close> crashes in \<open>strlen\<close> when the job is found.\<close>

partial_function (option) update_job_loop ::
  "(job \<Rightarrow> int) \<Rightarrow> int \<Rightarrow> string option \<Rightarrow> job_list \<Rightarrow> nat \<Rightarrow> (int \<times> job_list) option" where
  "update_job_loop key k st s cur =
     (if cur \<noteq> 0 then do {
        j \<leftarrow> get_val s cur;
        if key j = k then do {
          new \<leftarrow> st;
          s \<leftarrow> set_val s cur (j\<lparr>state := new\<rparr>);
          Some (0, s)
        }
        else do {
          n \<leftarrow> get_next s cur;
          update_job_loop key k st s n
        }
      }
      else Some (- 1, s))"

definition update_job_jid :: "job_list option \<Rightarrow> int \<Rightarrow> string option \<Rightarrow> (int \<times> job_list option) option" where
  "update_job_jid job_list k st = on_list job_list (\<lambda>s. update_job_loop jid k st s (first s))"

definition update_job_pid :: "job_list option \<Rightarrow> int \<Rightarrow> string option \<Rightarrow> (int \<times> job_list option) option" where
  "update_job_pid job_list k st = on_list job_list (\<lambda>s. update_job_loop pid k st s (first s))"

partial_function (option) find_job_loop ::
  "(job \<Rightarrow> int) \<Rightarrow> int \<Rightarrow> (job \<Rightarrow> int) \<Rightarrow> job_list \<Rightarrow> nat \<Rightarrow> (int \<times> job_list) option" where
  "find_job_loop key k field s cur =
     (if cur \<noteq> 0 then do {
        j \<leftarrow> get_val s cur;
        if key j = k then Some (field j, s)
        else do {
          n \<leftarrow> get_next s cur;
          find_job_loop key k field s n
        }
      }
      else Some (- 1, s))"

definition get_job_pid :: "job_list option \<Rightarrow> int \<Rightarrow> (int \<times> job_list option) option" where
  "get_job_pid job_list k = on_list job_list (\<lambda>s. find_job_loop jid k pid s (first s))"

definition get_job_jid :: "job_list option \<Rightarrow> int \<Rightarrow> (int \<times> job_list option) option" where
  "get_job_jid job_list k = on_list job_list (\<lambda>s. find_job_loop pid k jid s (first s))"

definition get_next_pid :: "job_list option \<Rightarrow> (int \<times> job_list option) option" where
  "get_next_pid job_list = on_list job_list (\<lambda>s.
     if current s = 0 then Some (- 1, s\<lparr>current := first s\<rparr>)
     else do {
       j \<leftarrow> get_val s (current s);
       n \<leftarrow> get_next s (current s);
       Some (pid j, s\<lparr>current := n\<rparr>)
     })"

text \<open>\<open>snprintf\<close> into a buffer of 1024 characters returns the length the line would have; \<open>write\<close> then
writes that many characters of the buffer.\<close>

definition job_line :: "job \<Rightarrow> string" where
  "job_line j = ''['' @ print_int (jid j) @ ''] ('' @ print_int (pid j) @ '') '' @ state j @ '' '' @
     command j @ [CHR 0x0A]"

partial_function (option) jobs_loop :: "job_list \<Rightarrow> nat \<Rightarrow> string \<Rightarrow> string option" where
  "jobs_loop s cur out =
     (if cur \<noteq> 0 then do {
        j \<leftarrow> get_val s cur;
        let wr = length (job_line j);
        let buffer = take 1023 (job_line j) @ replicate (1024 - min 1023 wr) (CHR 0x00);
        c_assert (wr \<le> length buffer);
        n \<leftarrow> get_next s cur;
        jobs_loop s n (out @ take wr buffer)
      }
      else Some out)"

definition jobs :: "job_list option \<Rightarrow> string option" where
  "jobs job_list = (case job_list of None \<Rightarrow> Some [] | Some s \<Rightarrow> jobs_loop s (first s) [])"

section \<open>The sequence of jobs\<close>

text \<open>The list stands for the jobs the iterator has passed and those before it.\<close>

definition stands_for :: "job_list \<Rightarrow> job list \<Rightarrow> job list \<Rightarrow> bool" where
  "stands_for s passed todo \<longleftrightarrow> nodes_ok s \<and> (\<exists>ps qs. llist s (first s) (ps @ qs) \<and>
     passed = map (dat s) ps \<and> todo = map (dat s) qs \<and> current s = (if qs = [] then 0 else hd qs))"

text \<open>The first job with a key, taken out or changed.\<close>

fun take_out :: "(job \<Rightarrow> bool) \<Rightarrow> job list \<Rightarrow> job list" where
  "take_out P [] = []"
| "take_out P (j # js) = (if P j then js else j # take_out P js)"

fun change :: "(job \<Rightarrow> bool) \<Rightarrow> (job \<Rightarrow> job) \<Rightarrow> job list \<Rightarrow> job list" where
  "change P f [] = []"
| "change P f (j # js) = (if P j then f j # js else j # change P f js)"

lemma take_out_append:
  "take_out P (xs @ ys) = (if \<exists>x\<in>set xs. P x then take_out P xs @ ys else xs @ take_out P ys)"
  by (induction xs) auto

lemma take_out_none: "\<forall>x\<in>set xs. \<not> P x \<Longrightarrow> take_out P xs = xs"
  by (induction xs) auto

lemma change_append:
  "change P f (xs @ ys) = (if \<exists>x\<in>set xs. P x then change P f xs @ ys else xs @ change P f ys)"
  by (induction xs) auto

lemma change_none: "\<forall>x\<in>set xs. \<not> P x \<Longrightarrow> change P f xs = xs"
  by (induction xs) auto

lemma stands_forI:
  "nodes_ok s \<Longrightarrow> llist s (first s) (ps @ qs) \<Longrightarrow> passed = map (dat s) ps \<Longrightarrow> todo = map (dat s) qs \<Longrightarrow>
    current s = (if qs = [] then 0 else hd qs) \<Longrightarrow> stands_for s passed todo"
  by (auto simp: stands_for_def)

lemma stands_for_init: "nodes_ok h \<Longrightarrow> stands_for (init_job_list h) [] []"
  by (auto simp: stands_for_def init_job_list_def nodes_ok_def)

lemma last_loop_ok: "llist s p (xs @ [x]) \<Longrightarrow> last_loop s p = Some x"
proof (induction xs arbitrary: p)
  case Nil
  then show ?case by (simp add: last_loop.simps)
next
  case (Cons a xs)
  then show ?case by (subst last_loop.simps) (cases xs; auto)
qed

text \<open>Splitting the nodes at the first that satisfies a predicate.\<close>

lemma split_first:
  "(\<forall>x\<in>set xs. \<not> P x) \<or> (\<exists>as x bs. xs = as @ x # bs \<and> P x \<and> (\<forall>a\<in>set as. \<not> P a))"
  using split_list_first_prop [of xs P] by blast

section \<open>The operations on the sequence\<close>

lemma add_job_ok:
  assumes "stands_for s passed todo"
  shows "\<exists>s'. add_job (Some s) i p (Some st) (Some cmd) = Some (0, Some s') \<and> killed s' = killed s \<and>
    (let new = \<lparr>jid = i, pid = p, state = st, command = cmd\<rparr> in
      if todo = [] \<and> passed \<noteq> [] then stands_for s' (passed @ [new]) [] else stands_for s' passed (todo @ [new]))"
proof -
  obtain ps qs where s: "nodes_ok s" "llist s (first s) (ps @ qs)" "passed = map (dat s) ps"
    "todo = map (dat s) qs" "current s = (if qs = [] then 0 else hd qs)"
    using assms by (auto simp: stands_for_def)
  let ?new = "\<lparr>jid = i, pid = p, state = st, command = cmd\<rparr>" and ?p = "fresh s"
  have f: "?p \<noteq> 0" "?p \<notin> set (ps @ qs)" using fresh_not_live [OF s(1)] fresh_not_in [OF s(1,2)] by auto
  show ?thesis
  proof (cases "ps @ qs" rule: rev_cases)
    case Nil
    then have "first s = 0" using s(2) by simp
    then show ?thesis using s f Nil
      by (auto simp: add_job_def on_list_def malloc_node_def stands_for_def nodes_ok_def less_Suc_eq
          intro!: exI [of _ "[]"] exI [of _ "[?p]"])
  next
    case (snoc ys y)
    have y: "live s y" "y \<noteq> ?p" "first s \<noteq> 0" using s(2) snoc f by (auto simp: llist_append) (cases ys; auto)
    let ?s1 = "s\<lparr>live := (live s)(?p := True), fresh := Suc ?p, dat := (dat s)(?p := ?new), nxt := (nxt s)(?p := 0)\<rparr>"
    let ?s = "s\<lparr>live := (live s)(?p := True), fresh := Suc ?p, dat := (dat s)(?p := ?new),
      nxt := (nxt s)(?p := 0, y := ?p)\<rparr>"
    have "llist ?s1 (first s) (ys @ [y])"
      by (rule llist_frame [of s]) (use s(2) snoc f in \<open>auto simp: llist_def\<close>)
    then have "last_loop ?s1 (first s) = Some y" by (rule last_loop_ok)
    then have run: "add_job (Some s) i p (Some st) (Some cmd) = Some (0, Some ?s)"
      using y by (simp add: add_job_def on_list_def malloc_node_def)
    have ok: "nodes_ok ?s" using s(1) by (auto simp: nodes_ok_def less_Suc_eq)
    have "llist ?s (first s) (ys @ [y, ?p])"
      by (rule llist_extend [OF s(1)]) (use s(2) snoc y in \<open>auto simp: fun_upd_twist\<close>)
    then have l: "llist ?s (first ?s) (ps @ qs @ [?p])" using snoc by (simp add: append.assoc [symmetric])
    have dat: "map (dat ?s) ps = passed" "map (dat ?s) qs = todo" "dat ?s ?p = ?new" using s f by auto
    show ?thesis
    proof (cases "qs = []")
      case True
      then have "ps \<noteq> []" using snoc by auto
      have "stands_for ?s (passed @ [?new]) []"
        unfolding stands_for_def using ok l dat s(5) True
        by (intro conjI exI [of _ "ps @ [?p]"] exI [of _ "[]"]) simp_all
      then show ?thesis using run True \<open>ps \<noteq> []\<close> s(3,4) by (intro exI [of _ ?s]) (simp add: Let_def)
    next
      case False
      have "stands_for ?s passed (todo @ [?new])"
        unfolding stands_for_def using ok l dat s(5) False
        by (intro conjI exI [of _ ps] exI [of _ "qs @ [?p]"]) simp_all
      then show ?thesis using run False s(3,4) by (intro exI [of _ ?s]) (simp add: Let_def)
    qed
  qed
qed

text \<open>Removing the node \<open>x\<close>.\<close>

definition without :: "job_list \<Rightarrow> nat list \<Rightarrow> nat \<Rightarrow> job_list" where
  "without s pre x = s\<lparr>nxt := (if pre = [] then nxt s else (nxt s)(last pre := nxt s x)),
     first := (if pre = [] then nxt s x else first s),
     current := (if current s = x then nxt s x else current s), live := (live s)(x := False)\<rparr>"

lemma remove_job_loop_found:
  assumes l: "llist s (first s) (pre @ x # post)" and k: "key (dat s x) = k"
  shows "remove_job_loop key k s (if pre = [] then 0 else last pre) x = Some (0, without s pre x)"
proof (cases pre rule: rev_cases)
  case Nil
  then show ?thesis using l k by (subst remove_job_loop.simps) (simp add: without_def)
next
  case (snoc as a)
  have d: "distinct (as @ [a] @ x # post)" using llist_distinct [OF l] snoc by simp
  have "first s = hd (pre @ x # post)" using l by (cases pre) auto
  then have "first s \<noteq> x" using d snoc by (cases as) auto
  moreover have "live s a" "a \<noteq> 0" "live s x" "x \<noteq> 0" using l snoc by (auto simp: llist_append)
  ultimately show ?thesis using k snoc by (subst remove_job_loop.simps) (simp add: without_def)
qed

lemma remove_job_loop_ok:
  "llist s (first s) (pre @ post) \<Longrightarrow>
    remove_job_loop key k s (if pre = [] then 0 else last pre) (if post = [] then 0 else hd post) =
      (if \<forall>x\<in>set post. key (dat s x) \<noteq> k then Some (- 1, s)
       else (let bad = takeWhile (\<lambda>x. key (dat s x) \<noteq> k) post;
                 x = hd (dropWhile (\<lambda>x. key (dat s x) \<noteq> k) post)
             in Some (0, without s (pre @ bad) x)))"
proof (induction post arbitrary: pre)
  case Nil
  then show ?case by (subst remove_job_loop.simps) simp
next
  case (Cons x post)
  show ?case
  proof (cases "key (dat s x) = k")
    case True
    then show ?thesis using remove_job_loop_found [OF Cons.prems, of key k] by auto
  next
    case False
    have lx: "live s x" "x \<noteq> 0" "llist s (nxt s x) post" using Cons.prems by (auto simp: llist_append)
    have nx: "nxt s x = (if post = [] then 0 else hd post)" using lx(3) by (cases post) auto
    have "remove_job_loop key k s (if pre = [] then 0 else last pre) x = remove_job_loop key k s x (nxt s x)"
      using False lx by (subst remove_job_loop.simps) simp
    also have "\<dots> = remove_job_loop key k s (if pre @ [x] = [] then 0 else last (pre @ [x]))
        (if post = [] then 0 else hd post)" by (simp add: nx)
    also note Cons.IH [of "pre @ [x]"]
    finally show ?thesis using False Cons.prems by simp
  qed
qed

lemma without_ok:
  assumes "nodes_ok s" "llist s (first s) (ps @ qs)" "current s = (if qs = [] then 0 else hd qs)"
    and "ps @ qs = pre @ x # post"
  shows "nodes_ok (without s pre x)" "killed (without s pre x) = killed s" "dat (without s pre x) = dat s"
    "llist (without s pre x) (first (without s pre x)) (pre @ post)"
    "x \<in> set ps \<Longrightarrow> current (without s pre x) = current s"
    "x \<notin> set ps \<Longrightarrow> current (without s pre x) =
      (let qs' = drop (length ps) pre @ post in if qs' = [] then 0 else hd qs')"
proof -
  let ?s = "without s pre x"
  have l: "llist s (first s) (pre @ x # post)" using assms(2,4) by simp
  have d: "distinct (pre @ x # post)" by (rule llist_distinct [OF l])
  show "nodes_ok ?s" using assms(1) by (auto simp: without_def nodes_ok_def)
  show "killed ?s = killed s" "dat ?s = dat s" by (simp_all add: without_def)
  show "llist ?s (first ?s) (pre @ post)"
    using llist_unlink [OF l, of ?s] by (simp add: without_def)
  have nx: "nxt s x = (if post = [] then 0 else hd post)" using l by (cases post) (auto simp: llist_append)
  have x0: "x \<noteq> 0" using l by (auto simp: llist_append)
  show "current ?s = current s" if "x \<in> set ps"
  proof -
    have "distinct (ps @ qs)" using d assms(4) by simp
    then have "current s \<noteq> x" using that x0 assms(3) by (cases qs) auto
    then show ?thesis by (simp add: without_def)
  qed
  show "current ?s = (let qs' = drop (length ps) pre @ post in if qs' = [] then 0 else hd qs')" if "x \<notin> set ps"
  proof -
    obtain us where us: "pre = ps @ us" "qs = us @ x # post"
    proof -
      from assms(4) consider us where "ps = pre @ us" "us @ qs = x # post" | us where "ps @ us = pre" "qs = us @ x # post"
        by (auto simp: append_eq_append_conv2)
      then show thesis
      proof cases
        case 1
        then show thesis using \<open>x \<notin> set ps\<close> that by (cases us) auto
      next
        case 2
        then show thesis using that by auto
      qed
    qed
    then show ?thesis using assms(3) nx d by (cases us) (auto simp: without_def)
  qed
qed

lemma take_out_split:
  assumes "P (f x)" "\<forall>a\<in>set pre. \<not> P (f a)"
  shows "take_out P (map f (pre @ x # post)) = map f (pre @ post)"
  using assms by (induction pre) auto

lemma takeWhile_split:
  assumes "\<not> (\<forall>x\<in>set xs. Q x)"
  shows "xs = takeWhile Q xs @ hd (dropWhile Q xs) # tl (dropWhile Q xs)" "\<not> Q (hd (dropWhile Q xs))"
proof -
  have ne: "dropWhile Q xs \<noteq> []" using assms by (simp add: dropWhile_eq_Nil_conv)
  then show "xs = takeWhile Q xs @ hd (dropWhile Q xs) # tl (dropWhile Q xs)" by simp
  show "\<not> Q (hd (dropWhile Q xs))" by (rule hd_dropWhile [OF ne])
qed

lemma remove_job_ok:
  assumes "stands_for s passed todo"
  shows "let P = (\<lambda>j. key j = k) in
    if \<exists>j\<in>set (passed @ todo). P j
    then \<exists>s'. remove_job_loop key k s 0 (first s) = Some (0, s') \<and> killed s' = killed s \<and>
      (if \<exists>j\<in>set passed. P j then stands_for s' (take_out P passed) todo
       else stands_for s' passed (take_out P todo))
    else remove_job_loop key k s 0 (first s) = Some (- 1, s)"
proof -
  obtain ps qs where s: "nodes_ok s" "llist s (first s) (ps @ qs)" "passed = map (dat s) ps"
    "todo = map (dat s) qs" "current s = (if qs = [] then 0 else hd qs)"
    using assms by (auto simp: stands_for_def)
  let ?Q = "\<lambda>x. key (dat s x) \<noteq> k" and ?P = "\<lambda>j. key j = k"
  have "first s = (if ps @ qs = [] then 0 else hd (ps @ qs))" using s(2) by (cases "ps @ qs") auto
  note loop = remove_job_loop_ok [of s "[]" "ps @ qs" key k, unfolded append_Nil, OF s(2), folded this]
  show ?thesis
  proof (cases "\<forall>x\<in>set (ps @ qs). ?Q x")
    case True
    then show ?thesis using loop s(3,4) by (auto simp: Let_def)
  next
    case False
    define pre where "pre = takeWhile ?Q (ps @ qs)"
    define x where "x = hd (dropWhile ?Q (ps @ qs))"
    define post where "post = tl (dropWhile ?Q (ps @ qs))"
    have split: "ps @ qs = pre @ x # post" "key (dat s x) = k"
      using takeWhile_split [OF False] by (auto simp: pre_def x_def post_def)
    have bad: "\<forall>a\<in>set pre. key (dat s a) \<noteq> k" by (auto simp: pre_def dest: set_takeWhileD)
    let ?s = "without s pre x"
    note w = without_ok [OF s(1,2,5) split(1)]
    have run: "remove_job_loop key k s 0 (first s) = Some (0, ?s)"
      using loop unfolding if_not_P [OF False] by (simp add: Let_def pre_def x_def)
    have found: "\<exists>j\<in>set (passed @ todo). ?P j"
      using split by (metis s(3,4) image_eqI in_set_conv_decomp map_append set_map)
    have "if \<exists>j\<in>set passed. ?P j then stands_for ?s (take_out ?P passed) todo
       else stands_for ?s passed (take_out ?P todo)"
    proof (cases "x \<in> set ps")
      case True
      have d: "distinct (pre @ x # post)" using llist_distinct [OF s(2)] split(1) by simp
      obtain us where us: "ps = pre @ x # us" "post = us @ qs"
        using split(1) True bad s(3) d by (auto simp: append_eq_append_conv2 append_eq_Cons_conv Cons_eq_append_conv)
      have "stands_for ?s (take_out ?P passed) todo"
        unfolding stands_for_def
        by (intro conjI w(1) exI [of _ "pre @ us"] exI [of _ qs])
          (use w us s split(2) bad True take_out_split [of ?P "dat s" x pre us] in auto)
      moreover have "\<exists>j\<in>set passed. ?P j" using True split(2) s(3) by auto
      ultimately show ?thesis by simp
    next
      case False
      obtain us where us: "pre = ps @ us" "qs = us @ x # post"
        using split(1) False by (auto simp: append_eq_append_conv2 Cons_eq_append_conv append_eq_Cons_conv)
      have "\<not> (\<exists>j\<in>set passed. ?P j)" using bad us s(3) by auto
      moreover have "stands_for ?s passed (take_out ?P todo)"
        unfolding stands_for_def
        by (intro conjI w(1) exI [of _ ps] exI [of _ "us @ post"])
          (use w us s split(2) bad False take_out_split [of ?P "dat s" x us post] in \<open>auto simp: Let_def\<close>)
      ultimately show ?thesis by simp
    qed
    then show ?thesis using run found w(2) by (auto simp: Let_def)
  qed
qed

lemma update_job_loop_ok:
  "llist s p xs \<Longrightarrow> update_job_loop key k (Some new) s p =
    (if \<forall>x\<in>set xs. key (dat s x) \<noteq> k then Some (- 1, s)
     else (let x = hd (dropWhile (\<lambda>x. key (dat s x) \<noteq> k) xs)
           in Some (0, s\<lparr>dat := (dat s)(x := (dat s x)\<lparr>state := new\<rparr>)\<rparr>)))"
proof (induction xs arbitrary: p)
  case Nil
  then show ?case by (subst update_job_loop.simps) simp
next
  case (Cons x xs)
  then have lx: "p = x" "live s x" "x \<noteq> 0" "llist s (nxt s x) xs" by auto
  show ?case using lx Cons.IH [OF lx(4)] by (subst update_job_loop.simps) simp
qed

lemma change_split:
  assumes "P (f x)" "\<forall>a\<in>set pre. \<not> P (f a)" "x \<notin> set pre" "x \<notin> set post"
  shows "map (f(x := g (f x))) (pre @ x # post) = change P g (map f (pre @ x # post))"
  using assms by (induction pre) auto

lemma update_job_ok:
  assumes "stands_for s passed todo"
  shows "let P = (\<lambda>j. key j = k); g = (\<lambda>j. j\<lparr>state := new\<rparr>) in
    if \<exists>j\<in>set (passed @ todo). P j
    then \<exists>s'. update_job_loop key k (Some new) s (first s) = Some (0, s') \<and> killed s' = killed s \<and>
      (if \<exists>j\<in>set passed. P j then stands_for s' (change P g passed) todo
       else stands_for s' passed (change P g todo))
    else update_job_loop key k (Some new) s (first s) = Some (- 1, s)"
proof -
  obtain ps qs where s: "nodes_ok s" "llist s (first s) (ps @ qs)" "passed = map (dat s) ps"
    "todo = map (dat s) qs" "current s = (if qs = [] then 0 else hd qs)"
    using assms by (auto simp: stands_for_def)
  let ?Q = "\<lambda>x. key (dat s x) \<noteq> k" and ?P = "\<lambda>j. key j = k" and ?g = "\<lambda>j. j\<lparr>state := new\<rparr>"
  note loop = update_job_loop_ok [OF s(2), of key k new]
  show ?thesis
  proof (cases "\<forall>x\<in>set (ps @ qs). ?Q x")
    case True
    then show ?thesis using loop s(3,4) by (auto simp: Let_def)
  next
    case False
    define pre where "pre = takeWhile ?Q (ps @ qs)"
    define x where "x = hd (dropWhile ?Q (ps @ qs))"
    define post where "post = tl (dropWhile ?Q (ps @ qs))"
    have split: "ps @ qs = pre @ x # post" "?P (dat s x)"
      using takeWhile_split [OF False] by (auto simp: pre_def x_def post_def)
    have bad: "\<forall>a\<in>set pre. \<not> ?P (dat s a)" by (auto simp: pre_def dest: set_takeWhileD)
    let ?s = "s\<lparr>dat := (dat s)(x := ?g (dat s x))\<rparr>"
    have run: "update_job_loop key k (Some new) s (first s) = Some (0, ?s)"
      using loop unfolding if_not_P [OF False] by (simp add: Let_def x_def)
    have d: "distinct (pre @ x # post)" using llist_distinct [OF s(2)] split(1) by simp
    have l: "llist ?s (first ?s) (ps @ qs)" using s(2) by (simp add: llist_def)
    have all: "map (dat ?s) (ps @ qs) = change ?P ?g (passed @ todo)"
      using change_split [of ?P "dat s" x pre post ?g, OF split(2) bad] d s(3,4) split(1)
      by (simp flip: map_append)
    have found: "\<exists>j\<in>set (passed @ todo). ?P j"
      using split by (metis s(3,4) image_eqI in_set_conv_decomp map_append set_map)
    have len: "length (change ?P ?g xs) = length xs" for xs by (induction xs) auto
    have parts: "map (dat ?s) ps @ map (dat ?s) qs = change ?P ?g (passed @ todo)" using all by simp
    have "if \<exists>j\<in>set passed. ?P j then stands_for ?s (change ?P ?g passed) todo
       else stands_for ?s passed (change ?P ?g todo)"
    proof (cases "\<exists>j\<in>set passed. ?P j")
      case True
      then have "change ?P ?g passed = map (dat ?s) ps" "todo = map (dat ?s) qs"
        using parts s(3) len [of passed] by (auto simp: change_append simp del: fun_upd_apply)
      then show ?thesis using True s(1,5) l by (auto intro: stands_forI [of ?s ps qs])
    next
      case False
      then have "passed = map (dat ?s) ps" "change ?P ?g todo = map (dat ?s) qs"
        using parts s(3) by (auto simp: change_append simp del: fun_upd_apply)
      then show ?thesis using False s(1,5) l by (auto intro: stands_forI [of ?s ps qs])
    qed
    then show ?thesis using run found by (auto simp: Let_def)
  qed
qed

lemma find_job_loop_ok:
  "llist s p xs \<Longrightarrow> find_job_loop key k field s p =
    Some (case find (\<lambda>j. key j = k) (map (dat s) xs) of None \<Rightarrow> - 1 | Some j \<Rightarrow> field j, s)"
proof (induction xs arbitrary: p)
  case Nil
  then show ?case by (subst find_job_loop.simps) simp
next
  case (Cons x xs)
  then have lx: "p = x" "live s x" "x \<noteq> 0" "llist s (nxt s x) xs" by auto
  show ?case using lx Cons.IH [OF lx(4)] by (subst find_job_loop.simps) simp
qed

lemma find_job_ok:
  assumes "stands_for s passed todo"
  shows "find_job_loop key k field s (first s) =
    Some (case find (\<lambda>j. key j = k) (passed @ todo) of None \<Rightarrow> - 1 | Some j \<Rightarrow> field j, s)"
  using assms find_job_loop_ok [of s "first s" _ key k field] by (auto simp: stands_for_def)

lemma get_next_pid_ok:
  assumes "stands_for s passed todo"
  shows "\<exists>s'. get_next_pid (Some s) = Some (if todo = [] then - 1 else pid (hd todo), Some s') \<and>
    killed s' = killed s \<and>
    (if todo = [] then stands_for s' [] passed else stands_for s' (passed @ [hd todo]) (tl todo))"
proof -
  obtain ps qs where s: "nodes_ok s" "llist s (first s) (ps @ qs)" "passed = map (dat s) ps"
    "todo = map (dat s) qs" "current s = (if qs = [] then 0 else hd qs)"
    using assms by (auto simp: stands_for_def)
  show ?thesis
  proof (cases qs)
    case Nil
    have "first s = (if ps = [] then 0 else hd ps)" using s(2) Nil by (cases ps) auto
    then show ?thesis using s Nil
      by (auto simp: get_next_pid_def on_list_def stands_for_def llist_def nodes_ok_def intro!: exI [of _ "[]"] exI [of _ ps])
  next
    case (Cons q qs')
    have q: "live s q" "q \<noteq> 0" "llist s (nxt s q) qs'" using s(2) Cons by (auto simp: llist_append)
    have nx: "nxt s q = (if qs' = [] then 0 else hd qs')" using q(3) by (cases qs') auto
    let ?s = "s\<lparr>current := nxt s q\<rparr>"
    have "stands_for ?s (passed @ [hd todo]) (tl todo)"
      unfolding stands_for_def
      by (intro conjI exI [of _ "ps @ [q]"] exI [of _ qs'])
        (use s Cons nx in \<open>auto simp: nodes_ok_def llist_def\<close>)
    moreover have "get_next_pid (Some s) = Some (pid (hd todo), Some ?s)"
      using s(4,5) Cons q by (simp add: get_next_pid_def on_list_def)
    ultimately show ?thesis using s(4) Cons by auto
  qed
qed

lemma cleanup_loop_ok:
  assumes "llist s p xs" "\<And>x. x \<in> set xs \<Longrightarrow> live s x"
  shows "\<exists>s'. cleanup_loop s p = Some s' \<and> killed s' = killed s @ map (\<lambda>x. - pid (dat s x)) xs \<and>
    live s' = (\<lambda>a. live s a \<and> a \<notin> set xs) \<and> fresh s' = fresh s"
  using assms
proof (induction xs arbitrary: s p)
  case Nil
  then show ?case by (subst cleanup_loop.simps) simp
next
  case (Cons x xs)
  then have lx: "p = x" "live s x" "x \<noteq> 0" "llist s (nxt s x) xs" by auto
  have d: "distinct (x # xs)" by (rule llist_distinct [OF Cons.prems(1)])
  let ?s = "s\<lparr>killed := killed s @ [- pid (dat s x)], live := (live s)(x := False)\<rparr>"
  have "llist ?s (nxt s x) xs" by (rule llist_frame [OF lx(4)]) (use lx d in \<open>auto simp: llist_def\<close>)
  moreover have "live ?s y" if "y \<in> set xs" for y using that Cons.prems(2) d by auto
  ultimately obtain s' where "cleanup_loop ?s (nxt s x) = Some s'"
    "killed s' = killed ?s @ map (\<lambda>x. - pid (dat ?s x)) xs" "live s' = (\<lambda>a. live ?s a \<and> a \<notin> set xs)"
    "fresh s' = fresh ?s"
    using Cons.IH by blast
  then show ?case using lx by (subst cleanup_loop.simps) auto
qed

lemma jobs_loop_ok:
  assumes "llist s p xs" "\<forall>x\<in>set xs. length (job_line (dat s x)) < 1024"
  shows "jobs_loop s p out = Some (out @ concat (map (\<lambda>x. job_line (dat s x)) xs))"
  using assms
proof (induction xs arbitrary: p out)
  case Nil
  then show ?case by (subst jobs_loop.simps) simp
next
  case (Cons x xs)
  then have lx: "p = x" "live s x" "x \<noteq> 0" "llist s (nxt s x) xs" by auto
  show ?case using lx Cons.IH [OF lx(4)] Cons.prems(2) by (subst jobs_loop.simps) (simp add: Let_def)
qed

section \<open>Properties\<close>

text \<open>C35. The job list acts as the sequence of its jobs with a position: adding appends (and at the end
of a round the new job waits for the next round), removing takes out the first job with the jid
or pid and returns -1 when there is none, updating changes the state of that job only, lookups
return the field of the first match or -1, and \<open>get_next_pid\<close> hands out the job at the position or,
at the end, returns -1 and starts over.\<close>

theorem job_list_refines_sequence:
  assumes "stands_for s passed todo"
  shows "(\<exists>s'. add_job (Some s) i p (Some st) (Some cmd) = Some (0, Some s') \<and>
      (let new = \<lparr>jid = i, pid = p, state = st, command = cmd\<rparr> in
        if todo = [] \<and> passed \<noteq> [] then stands_for s' (passed @ [new]) [] else stands_for s' passed (todo @ [new]))) \<and>
    (if \<exists>j\<in>set (passed @ todo). jid j = k
     then \<exists>s'. remove_job_jid (Some s) k = Some (0, Some s') \<and>
       (if \<exists>j\<in>set passed. jid j = k then stands_for s' (take_out (\<lambda>j. jid j = k) passed) todo
        else stands_for s' passed (take_out (\<lambda>j. jid j = k) todo))
     else remove_job_jid (Some s) k = Some (- 1, Some s)) \<and>
    (if \<exists>j\<in>set (passed @ todo). pid j = k
     then \<exists>s'. update_job_pid (Some s) k (Some st) = Some (0, Some s') \<and>
       (if \<exists>j\<in>set passed. pid j = k then stands_for s' (change (\<lambda>j. pid j = k) (\<lambda>j. j\<lparr>state := st\<rparr>) passed) todo
        else stands_for s' passed (change (\<lambda>j. pid j = k) (\<lambda>j. j\<lparr>state := st\<rparr>) todo))
     else update_job_pid (Some s) k (Some st) = Some (- 1, Some s)) \<and>
    get_job_pid (Some s) k =
      Some (case find (\<lambda>j. jid j = k) (passed @ todo) of None \<Rightarrow> - 1 | Some j \<Rightarrow> pid j, Some s) \<and>
    (\<exists>s'. get_next_pid (Some s) = Some (if todo = [] then - 1 else pid (hd todo), Some s') \<and>
      (if todo = [] then stands_for s' [] passed else stands_for s' (passed @ [hd todo]) (tl todo)))"
proof (intro conjI)
  show "\<exists>s'. add_job (Some s) i p (Some st) (Some cmd) = Some (0, Some s') \<and>
      (let new = \<lparr>jid = i, pid = p, state = st, command = cmd\<rparr> in
        if todo = [] \<and> passed \<noteq> [] then stands_for s' (passed @ [new]) [] else stands_for s' passed (todo @ [new]))"
    using add_job_ok [OF assms] by blast
  show "if \<exists>j\<in>set (passed @ todo). jid j = k
     then \<exists>s'. remove_job_jid (Some s) k = Some (0, Some s') \<and>
       (if \<exists>j\<in>set passed. jid j = k then stands_for s' (take_out (\<lambda>j. jid j = k) passed) todo
        else stands_for s' passed (take_out (\<lambda>j. jid j = k) todo))
     else remove_job_jid (Some s) k = Some (- 1, Some s)"
    using remove_job_ok [OF assms, of jid k] by (auto simp: Let_def remove_job_jid_def on_list_def split: if_splits)
  show "if \<exists>j\<in>set (passed @ todo). pid j = k
     then \<exists>s'. update_job_pid (Some s) k (Some st) = Some (0, Some s') \<and>
       (if \<exists>j\<in>set passed. pid j = k then stands_for s' (change (\<lambda>j. pid j = k) (\<lambda>j. j\<lparr>state := st\<rparr>) passed) todo
        else stands_for s' passed (change (\<lambda>j. pid j = k) (\<lambda>j. j\<lparr>state := st\<rparr>) todo))
     else update_job_pid (Some s) k (Some st) = Some (- 1, Some s)"
    using update_job_ok [OF assms, of pid k st] by (auto simp: Let_def update_job_pid_def on_list_def split: if_splits)
  show "get_job_pid (Some s) k =
      Some (case find (\<lambda>j. jid j = k) (passed @ todo) of None \<Rightarrow> - 1 | Some j \<Rightarrow> pid j, Some s)"
    using find_job_ok [OF assms] by (simp add: get_job_pid_def on_list_def)
  show "\<exists>s'. get_next_pid (Some s) = Some (if todo = [] then - 1 else pid (hd todo), Some s') \<and>
      (if todo = [] then stands_for s' [] passed else stands_for s' (passed @ [hd todo]) (tl todo))"
    using get_next_pid_ok [OF assms] by blast
qed

definition sample_jobs :: job_list where
  "sample_jobs = \<lparr>nxt = (\<lambda>_. 0)(1 := 2),
     dat = (\<lambda>_. \<lparr>jid = 2, pid = 20, state = ''Stopped'', command = ''vi''\<rparr>)
       (1 := \<lparr>jid = 1, pid = 10, state = ''Running'', command = ''make''\<rparr>),
     live = (\<lambda>a. a = 1 \<or> a = 2), fresh = 3, first = 1, current = 2, killed = []\<rparr>"

lemma sample_jobs_stand_for:
  "stands_for sample_jobs [\<lparr>jid = 1, pid = 10, state = ''Running'', command = ''make''\<rparr>]
     [\<lparr>jid = 2, pid = 20, state = ''Stopped'', command = ''vi''\<rparr>]"
  by (rule stands_forI [of _ "[1]" "[2]"]) (auto simp: sample_jobs_def nodes_ok_def)

theorem job_list_refines_sequence_witness:
  "\<exists>s'. remove_job_jid (Some sample_jobs) 2 = Some (0, Some s') \<and>
    stands_for s' [\<lparr>jid = 1, pid = 10, state = ''Running'', command = ''make''\<rparr>] []"
  using job_list_refines_sequence [OF sample_jobs_stand_for, of _ _ _ _ 2] by simp

text \<open>Cleaning up sends one kill to the process group of every job, in order, and frees every
element; \<open>jobs\<close> prints one line per job in order when no line reaches the length of the buffer.\<close>

theorem jobs_printed_and_cleaned_up:
  assumes "stands_for s passed todo" "\<forall>j\<in>set (passed @ todo). length (job_line j) < 1024"
  shows "jobs (Some s) = Some (concat (map job_line (passed @ todo))) \<and>
    (\<exists>s' xs. cleanup_job_list (Some s) = Some (Some s') \<and> stands_for s' [] [] \<and>
      killed s' = killed s @ map (\<lambda>j. - pid j) (passed @ todo) \<and>
      llist s (first s) xs \<and> (\<forall>a. live s' a \<longleftrightarrow> live s a \<and> a \<notin> set xs))"
proof -
  obtain ps qs where s: "nodes_ok s" "llist s (first s) (ps @ qs)" "passed = map (dat s) ps"
    "todo = map (dat s) qs" "current s = (if qs = [] then 0 else hd qs)"
    using assms by (auto simp: stands_for_def)
  obtain s' where c: "cleanup_loop s (first s) = Some s'"
    "killed s' = killed s @ map (\<lambda>x. - pid (dat s x)) (ps @ qs)" "live s' = (\<lambda>a. live s a \<and> a \<notin> set (ps @ qs))"
    "fresh s' = fresh s"
    using cleanup_loop_ok [OF s(2)] s(2) by (auto simp: llist_def)
  let ?s = "s'\<lparr>first := 0, current := 0\<rparr>"
  have "stands_for ?s [] []"
    using s(1) c by (intro stands_forI [of _ "[]" "[]"]) (auto simp: nodes_ok_def)
  moreover have "jobs (Some s) = Some (concat (map job_line (passed @ todo)))"
  proof -
    have "\<forall>x\<in>set (ps @ qs). length (job_line (dat s x)) < 1024" using assms(2) s(3,4) by auto
    from jobs_loop_ok [OF s(2) this, of "[]"] show ?thesis using s(3,4) by (simp add: jobs_def o_def)
  qed
  ultimately show ?thesis
    using c s(2-4) by (auto simp: cleanup_job_list_def o_def)
qed

theorem jobs_printed_and_cleaned_up_witness:
  "\<exists>s'. cleanup_job_list (Some sample_jobs) = Some (Some s') \<and> killed s' = [- 10, - 20]"
proof -
  have "length (print_int 1) = 1" "length (print_int 2) = 1" "length (print_int 10) = 2" "length (print_int 20) = 2"
    by (simp_all add: print_int_def print_nat.simps)
  from jobs_printed_and_cleaned_up [OF sample_jobs_stand_for] this show ?thesis
    by (auto simp: job_line_def sample_jobs_def)
qed

text \<open>A line longer than the buffer makes \<open>write\<close> read past it.\<close>

lemma jobs_overread:
  assumes "stands_for s [] [j]" "1024 < length (job_line j)"
  shows "jobs (Some s) = None"
proof -
  obtain x where "llist s (first s) [x]" "dat s x = j" using assms(1) by (auto simp: stands_for_def)
  then show ?thesis using assms(2) by (simp add: jobs_def jobs_loop.simps [of s x])
qed

end
