(* ===== verification/ShellDefs.thy ===== *)
theory ShellDefs
  imports Jobs "HOL-Library.Sublist"
begin

text \<open>
  The shell of \<open>systems/cs033/shell_2\<close>: splitting of the command line (\<open>helpers/shell_1_helpers.c\<close>
  and the start of the loop in \<open>sh.c\<close>), redirection in the child process, and job control
  (\<open>helpers/shell_2_helpers.c\<close> and the rest of the loop).

  The line buffer is a list of characters and an argument an index into it until the line is split;
  then arguments are strings. \<open>fork\<close> and \<open>waitpid\<close> are parameters; the child is a separate
  definition that ends in \<open>execv\<close> or with an error. The terminal, the prompt and process groups are
  left out. Only \<open>cd\<close> has no model: it uses the path after freeing it.
\<close>

section \<open>Splitting the line\<close>

abbreviation NUL :: char where "NUL \<equiv> CHR 0x00"
abbreviation newline :: char where "newline \<equiv> CHR 0x0A"

definition blank :: "char \<Rightarrow> bool" where
  "blank c \<longleftrightarrow> c = CHR 0x09 \<or> c = CHR '' ''"

definition SH_BLOCK :: int where "SH_BLOCK = 512"
definition ARG_SIZE :: nat where "ARG_SIZE = 32"

function find_cmd_loop :: "char list \<Rightarrow> int \<Rightarrow> int \<Rightarrow> int \<Rightarrow> int option \<Rightarrow> (int option \<times> char list) option" where
  "find_cmd_loop mem buffer i size0 word =
     (if i < size0 then do {
        c \<leftarrow> aget mem buffer;
        if c = NUL then Some (word, mem)
        else if blank c \<and> word = None then find_cmd_loop mem (buffer + 1) (i + 1) size0 word
        else if blank c \<and> word \<noteq> None then do {
          mem \<leftarrow> aset mem buffer NUL;
          Some (word, mem)
        }
        else if word \<noteq> None then find_cmd_loop mem (buffer + 1) (i + 1) size0 word
        else find_cmd_loop mem (buffer + 1) (i + 1) size0 (Some buffer)
      }
      else Some (word, mem))"
  by pat_completeness auto

termination by (relation "measure (\<lambda>(mem, b, i, n, w). nat (n - i))") auto

definition find_cmd :: "char list \<Rightarrow> int \<Rightarrow> int \<Rightarrow> (int option \<times> char list) option" where
  "find_cmd mem buffer size0 = find_cmd_loop mem buffer 0 size0 None"

function str_len :: "char list \<Rightarrow> int \<Rightarrow> int option" where
  "str_len mem p =
     (case aget mem p of
        None \<Rightarrow> None
      | Some c \<Rightarrow> if c \<noteq> NUL then map_option (\<lambda>n. n + 1) (str_len mem (p + 1)) else Some 0)"
  by pat_completeness auto

termination by (relation "measure (\<lambda>(mem, p). nat (int (length mem) - p))") (auto simp: aget_Some_iff)

declare find_cmd_loop.simps [simp del] str_len.simps [simp del]

partial_function (option) split_loop ::
  "int \<Rightarrow> int \<Rightarrow> int \<Rightarrow> int \<Rightarrow> int option list \<Rightarrow> char list \<Rightarrow> (int option list \<times> char list) option" where
  "split_loop sz offset update_len k arg_vec mem =
     (if update_len > 0 then do {
        (word, mem) \<leftarrow> find_cmd mem offset update_len;
        arg_vec \<leftarrow> aset arg_vec k word;
        (case word of
           None \<Rightarrow> Some (arg_vec, mem)
         | Some w \<Rightarrow> do {
             len \<leftarrow> str_len mem w;
             let offset = w + (len + 1);
             split_loop sz offset (sz - offset) (k + 1) arg_vec mem
           })
      }
      else Some (arg_vec, mem))"

definition split_line :: "int \<Rightarrow> char list \<Rightarrow> (int option list \<times> char list) option" where
  "split_line sz mem = split_loop sz 0 sz 0 (replicate ARG_SIZE None) mem"

function arg_num_loop :: "'a option list \<Rightarrow> int \<Rightarrow> int option" where
  "arg_num_loop arr n =
     (case aget arr n of
        None \<Rightarrow> None
      | Some a \<Rightarrow> if a \<noteq> None then arg_num_loop arr (n + 1) else Some n)"
  by pat_completeness auto

termination by (relation "measure (\<lambda>(arr, n). nat (int (length arr) - n))") (auto simp: aget_Some_iff)

declare arg_num_loop.simps [simp del]

definition arg_num :: "'a option list \<Rightarrow> int option" where
  "arg_num arr = arg_num_loop arr 0"

text \<open>The string at an index, and the arguments once the line is split.\<close>

definition string_from :: "char list \<Rightarrow> int \<Rightarrow> string option" where
  "string_from mem p = do { n \<leftarrow> str_len mem p; Some (take (nat n) (drop (nat p) mem)) }"

definition strings_from :: "char list \<Rightarrow> int option list \<Rightarrow> string option list" where
  "strings_from mem arg_vec = map (\<lambda>a. Option.bind a (string_from mem)) arg_vec"

text \<open>What a line is: nothing at all, only a newline, or arguments. The last argument loses its last
character, the newline.\<close>

datatype line = Nothing | Blank_line | Command "string option list" int

definition read_line :: "int \<Rightarrow> char list \<Rightarrow> (line \<times> char list) option" where
  "read_line sz mem = do {
     (arg_vec, mem) \<leftarrow> split_line sz mem;
     argc \<leftarrow> arg_num arg_vec;
     cmd \<leftarrow> aget arg_vec 0;
     (case cmd of
        None \<Rightarrow> Some (Nothing, mem)
      | Some p \<Rightarrow> do {
          word \<leftarrow> string_from mem p;
          if word = [newline] then Some (Blank_line, mem)
          else do {
            last_arg \<leftarrow> aget arg_vec (argc - 1);
            p \<leftarrow> last_arg;
            n \<leftarrow> str_len mem p;
            mem \<leftarrow> aset mem (p + n - 1) NUL;
            Some (Command (strings_from mem arg_vec) argc, mem)
          }
        })
   }"

section \<open>Redirection\<close>

text \<open>\<open>strncmp(a, r, n)\<close> is 0 for a prefix \<open>r\<close> of length \<open>n\<close>.\<close>

definition starts :: "string \<Rightarrow> string \<Rightarrow> bool" where
  "starts r a \<longleftrightarrow> take (length r) a = r"

function find_redirection_loop :: "string option list \<Rightarrow> int \<Rightarrow> int \<Rightarrow> int option" where
  "find_redirection_loop argv sz i =
     (if i < sz then do {
        a \<leftarrow> aget argv i;
        a \<leftarrow> a;
        if starts ''<'' a \<or> starts ''>'' a \<or> starts ''>'' a then Some i
        else find_redirection_loop argv sz (i + 1)
      }
      else Some (- 1))"
  by pat_completeness auto

termination by (relation "measure (\<lambda>(argv, sz, i). nat (sz - i))") auto

definition find_redirection :: "string option list \<Rightarrow> int \<Rightarrow> int option" where
  "find_redirection argv sz = find_redirection_loop argv sz 0"

definition count_redirection :: "string option list \<Rightarrow> int \<Rightarrow> string \<Rightarrow> int option" where
  "count_redirection argv sz r = c_for 0 sz (\<lambda>i n. do {
     a \<leftarrow> aget argv i;
     a \<leftarrow> a;
     Some (if starts r a then n + 1 else n)
   }) 0"

definition create_args :: "string option list \<Rightarrow> int \<Rightarrow> int \<Rightarrow> string option list option" where
  "create_args argv pos size0 = c_for pos size0 (\<lambda>i argv. do {
     a \<leftarrow> aget argv (i + 1);
     aset argv i a
   }) argv"

function first_slash_loop :: "string \<Rightarrow> int \<Rightarrow> int \<Rightarrow> int option option" where
  "first_slash_loop s ptr sz =
     (if sz \<ge> 0 then do {
        c \<leftarrow> aget s (ptr - 1);
        if c = CHR ''/'' then Some (Some (ptr - 1)) else first_slash_loop s (ptr - 1) (sz - 1)
      }
      else Some None)"
  by pat_completeness auto

termination by (relation "measure (\<lambda>(s, ptr, sz). nat (sz + 1))") auto

declare find_redirection_loop.simps [simp del] first_slash_loop.simps [simp del]

definition first_slash :: "string \<Rightarrow> int \<Rightarrow> int \<Rightarrow> int option option" where
  "first_slash s ptr sz = first_slash_loop s ptr sz"

text \<open>How a child ends: with an error message, or in \<open>execv\<close> with the file that is its standard input.
Both have the output files that were opened, and so created or emptied, in the order of opening; the last
of them is the standard output of the program.\<close>

datatype open_mode = Append | Truncate

type_synonym outputs = "(string \<times> open_mode) list"

datatype child =
  Error_exit string outputs
| Execv string "string option list" "string option" outputs

text \<open>Which names \<open>open\<close> accepts for reading and for writing, and for which of them \<open>dup2\<close> then succeeds;
all may depend on the outputs opened so far. Opening \<open>NULL\<close> fails.\<close>

record files =
  may_read :: "outputs \<Rightarrow> string \<Rightarrow> bool"
  may_write :: "outputs \<Rightarrow> string \<Rightarrow> bool"
  may_dup :: "outputs \<Rightarrow> string \<Rightarrow> bool"

text \<open>The loop over the redirections.\<close>

partial_function (option) redirect_loop ::
  "files \<Rightarrow>
   int \<Rightarrow> string option list \<Rightarrow> int \<Rightarrow> string option \<Rightarrow> outputs \<Rightarrow>
   (child + string option list \<times> int \<times> string option \<times> outputs) option" where
  "redirect_loop perms pos args argc inp outp =
     (if pos \<ge> 0 then do {
        r \<leftarrow> aget args pos;
        r \<leftarrow> r;
        n \<leftarrow> count_redirection args argc r;
        if n \<noteq> 1 then Some (Inl (Error_exit ''only one redirection allowed'' outp))
        else do {
          f \<leftarrow> aget args (pos + 1);
          if starts ''<'' r then
            (if f = None \<or> \<not> may_read perms outp (the f) then Some (Inl (Error_exit ''<: could not open file'' outp))
             else if \<not> may_dup perms outp (the f) then Some (Inl (Error_exit ''<: could not redirect'' outp))
             else do {
               args \<leftarrow> create_args args (pos + 1) argc;
               args \<leftarrow> create_args args pos (argc - 1);
               pos \<leftarrow> find_redirection args (argc - 2);
               redirect_loop perms pos args (argc - 2) f outp
             })
          else if starts ''>>'' r then
            (if f = None \<or> \<not> may_write perms outp (the f) then Some (Inl (Error_exit ''>>: error opening file'' outp))
             else if \<not> may_dup perms outp (the f)
             then Some (Inl (Error_exit ''>>: could not redirect'' (outp @ [(the f, Append)])))
             else do {
               args \<leftarrow> create_args args (pos + 1) argc;
               args \<leftarrow> create_args args pos (argc - 1);
               pos \<leftarrow> find_redirection args (argc - 2);
               redirect_loop perms pos args (argc - 2) inp (outp @ [(the f, Append)])
             })
          else if starts ''>'' r then
            (if f = None \<or> \<not> may_write perms outp (the f) then Some (Inl (Error_exit ''>: error opening file'' outp))
             else if \<not> may_dup perms outp (the f)
             then Some (Inl (Error_exit ''>: could not redirect'' (outp @ [(the f, Truncate)])))
             else do {
               args \<leftarrow> create_args args (pos + 1) argc;
               args \<leftarrow> create_args args pos (argc - 1);
               pos \<leftarrow> find_redirection args (argc - 2);
               redirect_loop perms pos args (argc - 2) inp (outp @ [(the f, Truncate)])
             })
          else do {
            pos \<leftarrow> find_redirection args argc;
            redirect_loop perms pos args argc inp outp
          }
        }
      }
      else Some (Inr (args, argc, inp, outp)))"

text \<open>\<open>execv\<close>: the program is the first argument, and its own first argument the name after the last
slash. Without a slash the search reads before the string.\<close>

definition exec_child ::
  "string option list \<Rightarrow> string option \<Rightarrow> outputs \<Rightarrow> child option" where
  "exec_child args inp outp = do {
     cmd \<leftarrow> aget args 0;
     cmd \<leftarrow> cmd;
     let len = int (length cmd);
     slash \<leftarrow> first_slash cmd len len;
     slash \<leftarrow> slash;
     args \<leftarrow> aset args 0 (Some (drop (nat (slash + 1)) cmd));
     Some (Execv cmd args inp outp)
   }"

definition redirected_child ::
  "files \<Rightarrow>
   int \<Rightarrow> string option list \<Rightarrow> int \<Rightarrow> child option" where
  "redirected_child perms pos args argc = do {
     r \<leftarrow> redirect_loop perms pos args argc None [];
     (case r of
        Inl c \<Rightarrow> Some c
      | Inr (args, argc, inp, outp) \<Rightarrow> exec_child args inp outp)
   }"

end
