(* ===== verification/ShellLine.thy ===== *)
theory ShellLine
  imports ShellDefs
begin

text \<open>What the splitting of a line computes: its words, as strings in the line buffer.\<close>

section \<open>Words\<close>

function words :: "string \<Rightarrow> string list" where
  "words s =
     (let s' = dropWhile blank s in
      if s' = [] then [] else takeWhile (\<lambda>c. \<not> blank c) s' # words (dropWhile (\<lambda>c. \<not> blank c) s'))"
  by pat_completeness auto

termination
proof (relation "measure length", goal_cases)
  case (2 s s')
  then obtain c cs where c: "s' = c # cs" by (meson neq_Nil_conv)
  then have "\<not> blank c" using 2(1) by (metis dropWhile_eq_Cons_conv)
  then have "length (dropWhile (\<lambda>c. \<not> blank c) s') < length s'"
    using c length_dropWhile_le [of "\<lambda>c. \<not> blank c" cs] by simp
  also have "\<dots> \<le> length s" unfolding 2(1) by (rule length_dropWhile_le)
  finally show ?case by simp
qed simp

declare words.simps [simp del]

lemma words_Nil [simp]: "words [] = []"
  by (simp add: words.simps)

lemma words_blank: "blank c \<Longrightarrow> words (c # s) = words s"
  by (simp add: words.simps)

lemma words_only_blank: "\<forall>c\<in>set s. blank c \<Longrightarrow> words s = []"
  by (simp add: words.simps)

lemma words_nonempty: "w \<in> set (words s) \<Longrightarrow> w \<noteq> []"
proof (induction s rule: words.induct)
  case (1 s)
  show ?case
  proof (cases "dropWhile blank s")
    case Nil
    then show ?thesis using "1.prems" by (simp add: words.simps [of s])
  next
    case (Cons c cs)
    then have "\<not> blank c" using hd_dropWhile [of blank s] by simp
    then show ?thesis using "1.prems" "1.IH" [OF refl] Cons by (auto simp: words.simps [of s])
  qed
qed

lemma words_word:
  assumes "\<forall>c\<in>set b. blank c" "w \<noteq> []" "\<forall>c\<in>set w. \<not> blank c" "r = [] \<or> blank (hd r)"
  shows "words (b @ w @ r) = w # words r"
proof -
  obtain c w' where w: "w = c # w'" using assms(2) by (cases w) auto
  have d: "dropWhile blank (b @ w @ r) = w @ r"
    using assms(1,3) w by (subst dropWhile_append2) auto
  have t: "takeWhile (\<lambda>c. \<not> blank c) (w @ r) = w" "dropWhile (\<lambda>c. \<not> blank c) (w @ r) = r"
    using assms(3,4) by (cases r; simp add: takeWhile_append dropWhile_append)+
  show ?thesis by (subst words.simps) (use d t w in simp)
qed

lemma next_word:
  obtains (blanks) "\<forall>c\<in>set s. blank c"
  | (last_one) b w where "s = b @ w" "\<forall>c\<in>set b. blank c" "w \<noteq> []" "\<forall>c\<in>set w. \<not> blank c"
  | (word) b w c r where "s = b @ w @ c # r" "\<forall>c\<in>set b. blank c" "w \<noteq> []" "\<forall>c\<in>set w. \<not> blank c" "blank c"
proof -
  have split: "\<exists>b r. s = b @ r \<and> (\<forall>c\<in>set b. P c) \<and> (r = [] \<or> \<not> P (hd r))" for P and s :: string
    by (intro exI [of _ "takeWhile P s"] exI [of _ "dropWhile P s"])
      (use hd_dropWhile [of P s] in \<open>auto dest: set_takeWhileD simp del: dropWhile_eq_Nil_conv\<close>)
  obtain b s' where s: "s = b @ s'" "\<forall>c\<in>set b. blank c" "s' = [] \<or> \<not> blank (hd s')"
    using split by blast
  obtain w r where r: "s' = w @ r" "\<forall>c\<in>set w. \<not> blank c" "r = [] \<or> blank (hd r)"
    using split [of s' "\<lambda>c. \<not> blank c"] by blast
  show thesis
  proof (cases "s' = []")
    case True
    then show thesis using blanks s by simp
  next
    case False
    then have w: "w \<noteq> []" using s(3) r by (cases w) auto
    show thesis
    proof (cases r)
      case Nil
      show thesis by (rule last_one [OF _ s(2) w r(2)]) (simp add: s r Nil)
    next
      case (Cons c r')
      show thesis by (rule word [OF _ s(2) w r(2)]) (use r Cons in \<open>simp_all add: s\<close>)
    qed
  qed
qed

lemma aget_mid: "aget (xs @ y # ys) (int (length xs)) = Some y"
  by (simp add: aget_def)

lemma aset_mid: "aset (xs @ y # ys) (int (length xs)) z = Some (xs @ z # ys)"
  by (simp add: aset_def list_update_append)

section \<open>The string at an index\<close>

lemma str_len_at: "\<forall>c\<in>set w. c \<noteq> NUL \<Longrightarrow> str_len (pre @ w @ NUL # post) (int (length pre)) = Some (int (length w))"
proof (induction w arbitrary: pre)
  case Nil
  then show ?case by (subst str_len.simps) (simp add: aget_def)
next
  case (Cons c w)
  have "str_len ((pre @ [c]) @ w @ NUL # post) (int (length (pre @ [c]))) = Some (int (length w))"
    using Cons.prems by (intro Cons.IH) simp
  then show ?case using Cons.prems by (subst str_len.simps) (simp add: aget_def nth_append ac_simps)
qed

lemma string_from_at: "\<forall>c\<in>set w. c \<noteq> NUL \<Longrightarrow> string_from (pre @ w @ NUL # post) (int (length pre)) = Some w"
  by (simp add: string_from_def str_len_at)

section \<open>Finding a word\<close>

lemma find_skip:
  "\<forall>c\<in>set b. blank c \<Longrightarrow> int (length b) \<le> size0 - i \<Longrightarrow>
    find_cmd_loop (pre @ b @ post) (int (length pre)) i size0 None =
    find_cmd_loop (pre @ b @ post) (int (length pre + length b)) (i + int (length b)) size0 None"
proof (induction b arbitrary: pre i)
  case (Cons c b)
  have "find_cmd_loop ((pre @ [c]) @ b @ post) (int (length (pre @ [c]))) (i + 1) size0 None =
    find_cmd_loop ((pre @ [c]) @ b @ post) (int (length (pre @ [c]) + length b)) (i + 1 + int (length b)) size0 None"
    using Cons.prems by (intro Cons.IH) auto
  moreover have "c \<noteq> NUL" using Cons.prems by (auto simp: blank_def)
  ultimately show ?case using Cons.prems
    by (subst find_cmd_loop.simps) (simp add: aget_def nth_append ac_simps)
qed simp

lemma find_word:
  "\<forall>c\<in>set w. \<not> blank c \<Longrightarrow> \<forall>c\<in>set w. c \<noteq> NUL \<Longrightarrow> int (length w) \<le> size0 - i \<Longrightarrow>
    find_cmd_loop (pre @ w @ post) (int (length pre)) i size0 (Some p) =
    find_cmd_loop (pre @ w @ post) (int (length pre + length w)) (i + int (length w)) size0 (Some p)"
proof (induction w arbitrary: pre i)
  case (Cons c w)
  have "find_cmd_loop ((pre @ [c]) @ w @ post) (int (length (pre @ [c]))) (i + 1) size0 (Some p) =
    find_cmd_loop ((pre @ [c]) @ w @ post) (int (length (pre @ [c]) + length w)) (i + 1 + int (length w)) size0 (Some p)"
    using Cons.prems by (intro Cons.IH) auto
  then show ?case using Cons.prems
    by (subst find_cmd_loop.simps) (simp add: aget_def nth_append ac_simps)
qed simp

lemma find_cmd_none:
  assumes "\<forall>c\<in>set b. blank c" "mem = pre @ b @ post"
  shows "find_cmd mem (int (length pre)) (int (length b)) = Some (None, mem)"
proof -
  have "find_cmd mem (int (length pre)) (int (length b)) =
      find_cmd_loop mem (int (length pre + length b)) (0 + int (length b)) (int (length b)) None"
    unfolding find_cmd_def assms(2) by (rule find_skip) (use assms in auto)
  then show ?thesis by (simp add: find_cmd_loop.simps)
qed

lemma find_cmd_start:
  assumes "\<forall>c\<in>set b. blank c" "w \<noteq> []" "\<forall>c\<in>set w. \<not> blank c" "\<forall>c\<in>set w. c \<noteq> NUL"
    and "n \<ge> int (length b + length w)"
  shows "find_cmd (pre @ b @ w @ post) (int (length pre)) n =
    find_cmd_loop (pre @ b @ w @ post) (int (length pre + length b + length w)) (int (length b + length w)) n
      (Some (int (length pre + length b)))"
proof -
  obtain c w' where w: "w = c # w'" using assms(2) by (cases w) auto
  let ?m = "pre @ b @ w @ post" and ?p = "int (length pre + length b)"
  have "find_cmd ?m (int (length pre)) n = find_cmd_loop ?m ?p (0 + int (length b)) n None"
    unfolding find_cmd_def by (rule find_skip) (use assms in auto)
  also have "\<dots> = find_cmd_loop ?m (?p + 1) (int (length b) + 1) n (Some ?p)"
  proof -
    have "aget ?m ?p = Some c" using aget_mid [of "pre @ b" c "w' @ post"] w by simp
    then show ?thesis using assms w by (subst find_cmd_loop.simps) simp
  qed
  also have "\<dots> = find_cmd_loop ((pre @ b @ [c]) @ w' @ post) (int (length (pre @ b @ [c])))
      (int (length b) + 1) n (Some ?p)"
    using w by (simp add: ac_simps)
  also have "\<dots> = find_cmd_loop ((pre @ b @ [c]) @ w' @ post) (int (length (pre @ b @ [c]) + length w'))
      (int (length b) + 1 + int (length w')) n (Some ?p)"
    by (rule find_word) (use assms w in auto)
  finally show ?thesis using w by (simp add: ac_simps)
qed

text \<open>A word is not empty and has no blank and no terminator.\<close>

definition is_word :: "string \<Rightarrow> bool" where
  "is_word w \<longleftrightarrow> w \<noteq> [] \<and> (\<forall>c\<in>set w. \<not> blank c \<and> c \<noteq> NUL)"

lemma is_wordD: "is_word w \<Longrightarrow> w \<noteq> []" "is_word w \<Longrightarrow> \<forall>c\<in>set w. \<not> blank c" "is_word w \<Longrightarrow> \<forall>c\<in>set w. c \<noteq> NUL"
  by (auto simp: is_word_def)

lemma find_cmd_last:
  assumes "\<forall>c\<in>set b. blank c" "is_word w"
  shows "find_cmd (pre @ b @ w @ post) (int (length pre)) (int (length b + length w)) =
    Some (Some (int (length pre + length b)), pre @ b @ w @ post)"
  by (subst find_cmd_start [OF assms(1) is_wordD(1,2,3) [OF assms(2)]]) (simp_all add: find_cmd_loop.simps)

lemma find_cmd_word:
  assumes "\<forall>c\<in>set b. blank c" "is_word w" "blank c"
  shows "find_cmd (pre @ b @ w @ c # post) (int (length pre)) (int (length b + length w + 1 + n)) =
    Some (Some (int (length pre + length b)), pre @ b @ w @ NUL # post)"
proof -
  let ?q = "int (length (pre @ b @ w))"
  have at: "aget (pre @ b @ w @ c # post) ?q = Some c"
    "aset (pre @ b @ w @ c # post) ?q NUL = Some (pre @ b @ w @ NUL # post)"
    using aget_mid [of "pre @ b @ w" c post] aset_mid [of "pre @ b @ w" c post NUL]
    by (simp_all only: append.assoc)
  have "find_cmd (pre @ b @ w @ c # post) (int (length pre)) (int (length b + length w + 1 + n)) =
      find_cmd_loop (pre @ b @ w @ c # post) ?q (int (length b + length w)) (int (length b + length w + 1 + n))
        (Some (int (length pre + length b)))"
    by (subst find_cmd_start [OF assms(1) is_wordD(1,2,3) [OF assms(2)]]) (simp_all add: ac_simps)
  also have "\<dots> = Some (Some (int (length pre + length b)), pre @ b @ w @ NUL # post)"
    using assms(3) by (subst find_cmd_loop.simps, unfold at) (auto simp: blank_def)
  finally show ?thesis .
qed

section \<open>Splitting\<close>

lemma split_loop_step:
  assumes "n > 0" "find_cmd mem p n = Some (Some w, mem')" "str_len mem' w = Some len"
  shows "split_loop sz p n (int (length vs)) (vs @ replicate (Suc m) None) mem =
    split_loop sz (w + (len + 1)) (sz - (w + (len + 1))) (int (length (vs @ [Some w])))
      ((vs @ [Some w]) @ replicate m None) mem'"
  using assms by (subst split_loop.simps) (simp add: aset_def list_update_append Let_def add.commute)

text \<open>The words lie one after the other.\<close>

definition apart :: "int \<Rightarrow> char list \<Rightarrow> int list \<Rightarrow> bool" where
  "apart a mem ps \<longleftrightarrow> (\<forall>p\<in>set ps. a \<le> p) \<and>
     (\<forall>p\<in>set (butlast ps). \<exists>n. str_len mem p = Some n \<and> p + n < last ps)"

lemma apart_Cons:
  assumes "str_len mem p = Some n" "apart b mem ps" "a \<le> p" "p + n < b" "0 \<le> n"
  shows "apart a mem (p # ps)"
proof -
  have later: "\<forall>q\<in>set ps. p + n < q \<and> a \<le> q" using assms by (auto simp: apart_def)
  have "\<exists>m. str_len mem q = Some m \<and> q + m < last (p # ps)" if "q \<in> set (butlast (p # ps))" for q
  proof (cases "ps = []")
    case False
    then have "q = p \<or> q \<in> set (butlast ps)" using that by simp
    then show ?thesis
    proof
      assume "q = p"
      then show ?thesis using assms(1) later False by simp
    next
      assume "q \<in> set (butlast ps)"
      then show ?thesis using assms(2) False by (simp add: apart_def)
    qed
  qed (use that in simp)
  then show ?thesis using later assms(3) by (auto simp: apart_def)
qed

lemma split_loop_ok:
  "\<forall>c\<in>set rest. c \<noteq> NUL \<Longrightarrow> length (words rest) < m \<Longrightarrow>
    \<exists>ps mem'. split_loop (int (length pre + length rest)) (int (length pre)) (int (length rest)) (int (length vs))
        (vs @ replicate m None) (pre @ rest @ NUL # post) =
      Some (vs @ map Some ps @ replicate (m - length ps) None, pre @ mem') \<and>
      length mem' = length rest + 1 + length post \<and>
      map (string_from (pre @ mem')) ps = map Some (words rest) \<and> apart (int (length pre)) (pre @ mem') ps \<and>
      drop (length rest) mem' = NUL # post \<and> (\<forall>p\<in>set ps. p \<le> int (length pre + length rest))"
proof (induction "length rest" arbitrary: rest pre vs m rule: less_induct)
  case less
  show ?case
  proof (cases rule: next_word [of rest])
    case blanks
    have w: "words rest = []" by (rule words_only_blank [OF blanks])
    have f: "find_cmd (pre @ rest @ NUL # post) (int (length pre)) (int (length rest)) =
      Some (None, pre @ rest @ NUL # post)" by (rule find_cmd_none [OF blanks]) simp
    obtain m' where m: "m = Suc m'" using less.prems(2) by (cases m) auto
    show ?thesis
      by (intro exI [of _ "[]"] exI [of _ "rest @ NUL # post"], subst split_loop.simps)
        (simp add: f w m aset_def list_update_append apart_def)
  next
    case (last_one b w)
    have iw: "is_word w" using last_one less.prems(1) by (auto simp: is_word_def)
    have ws: "words rest = [w]" using words_word [of b w "[]"] last_one by simp
    obtain m' where m: "m = Suc m'" using less.prems(2) by (cases m) auto
    let ?p = "int (length pre + length b)" and ?mem = "pre @ rest @ NUL # post"
    have f: "find_cmd ?mem (int (length pre)) (int (length rest)) = Some (Some ?p, ?mem)"
      using find_cmd_last [of b w pre "NUL # post"] last_one iw by simp
    have l: "str_len ?mem ?p = Some (int (length w))" "string_from ?mem ?p = Some w"
      using str_len_at [of w "pre @ b" post] string_from_at [of w "pre @ b" post] is_wordD [OF iw] last_one by simp_all
    have "0 < int (length rest)" using last_one by (cases w) auto
    then show ?thesis unfolding m
      by (subst split_loop_step [OF _ f l(1)])
        (use last_one l ws in \<open>auto simp: split_loop.simps apart_def intro!: exI [of _ "[?p]"] exI [of _ "rest @ NUL # post"]\<close>)
  next
    case (word b w c r)
    have iw: "is_word w" using word less.prems(1) by (auto simp: is_word_def)
    have ws: "words rest = w # words r"
      using words_word [of b w "c # r"] word by (simp add: words_blank)
    obtain m' where m: "m = Suc m'" using less.prems(2) by (cases m) auto
    let ?p = "int (length pre + length b)" and ?pre = "pre @ b @ w @ [NUL]"
    let ?mem = "pre @ rest @ NUL # post" and ?mem1 = "?pre @ r @ NUL # post"
    have f: "find_cmd ?mem (int (length pre)) (int (length rest)) = Some (Some ?p, ?mem1)"
      using find_cmd_word [of b w c pre "r @ NUL # post" "length r"] word iw by (simp add: ac_simps)
    have l: "str_len ?mem1 ?p = Some (int (length w))"
      using str_len_at [of w "pre @ b" "r @ NUL # post"] is_wordD [OF iw] by simp
    have "rest \<noteq> []" using word by auto
    have step: "split_loop (int (length pre + length rest)) (int (length pre)) (int (length rest)) (int (length vs))
        (vs @ replicate m None) ?mem =
      split_loop (int (length ?pre + length r)) (int (length ?pre)) (int (length r)) (int (length (vs @ [Some ?p])))
        ((vs @ [Some ?p]) @ replicate m' None) ?mem1"
      unfolding m by (subst split_loop_step [OF _ f l]) (use word \<open>rest \<noteq> []\<close> in \<open>simp_all add: ac_simps\<close>)
    have "length r < length rest" "\<forall>c\<in>set r. c \<noteq> NUL" "length (words r) < m'"
      using word less.prems ws m by auto
    from less.hyps [OF this, of ?pre "vs @ [Some ?p]"] obtain ps mem' where
      ih: "split_loop (int (length ?pre + length r)) (int (length ?pre)) (int (length r)) (int (length (vs @ [Some ?p])))
        ((vs @ [Some ?p]) @ replicate m' None) ?mem1 =
        Some ((vs @ [Some ?p]) @ map Some ps @ replicate (m' - length ps) None, ?pre @ mem')"
      "length mem' = length r + 1 + length post" "map (string_from (?pre @ mem')) ps = map Some (words r)"
        "apart (int (length ?pre)) (?pre @ mem') ps" "drop (length r) mem' = NUL # post"
        "\<forall>p\<in>set ps. p \<le> int (length ?pre + length r)" by blast
    have "string_from (?pre @ mem') ?p = Some w"
      using string_from_at [of w "pre @ b" mem'] is_wordD [OF iw] by simp
    moreover have "str_len (?pre @ mem') ?p = Some (int (length w))"
      using str_len_at [of w "pre @ b" mem'] is_wordD [OF iw] by simp
    then have "apart (int (length pre)) (?pre @ mem') (?p # ps)" using ih(4) by (rule apart_Cons) simp_all
    ultimately show ?thesis
      unfolding step ih(1) using ih(2,3,5,6) ws word m
      by (intro exI [of _ "?p # ps"] exI [of _ "b @ w @ [NUL] @ mem'"]) (simp add: ac_simps)
  qed
qed

lemma split_line_ok:
  assumes "\<forall>c\<in>set line. c \<noteq> NUL" "length (words line) < ARG_SIZE"
  shows "\<exists>ps mem'. split_line (int (length line)) (line @ NUL # post) =
      Some (map Some ps @ replicate (ARG_SIZE - length ps) None, mem') \<and>
    length mem' = length line + 1 + length post \<and> map (string_from mem') ps = map Some (words line) \<and>
    apart 0 mem' ps \<and> drop (length line) mem' = NUL # post \<and> (\<forall>p\<in>set ps. p \<le> int (length line))"
  using split_loop_ok [OF assms, of "[]" "[]" post] by (simp add: split_line_def)

section \<open>Reading a line\<close>

lemma str_len_Some: "str_len mem p = Some n \<Longrightarrow> 0 \<le> n"
proof (induction mem p arbitrary: n rule: str_len.induct)
  case (1 mem p)
  from "1.prems" show ?case
    by (subst (asm) str_len.simps) (auto split: option.splits if_splits dest: "1.IH")
qed

lemma str_len_le: "str_len mem p = Some n \<Longrightarrow> aget mem q = Some NUL \<Longrightarrow> p \<le> q \<Longrightarrow> p + n \<le> q"
proof (induction mem p arbitrary: n rule: str_len.induct)
  case (1 mem p)
  obtain d where d: "aget mem p = Some d" using "1.prems"(1) by (subst (asm) str_len.simps) (auto split: option.splits)
  show ?case
  proof (cases "d = NUL")
    case True
    then show ?thesis using "1.prems" d by (simp add: str_len.simps [of _ p])
  next
    case False
    then obtain m where m: "str_len mem (p + 1) = Some m" "n = m + 1"
      using "1.prems"(1) d by (subst (asm) str_len.simps) auto
    have "p \<noteq> q" using d False "1.prems"(2) by auto
    then show ?thesis using "1.IH" [OF d False m(1)] "1.prems"(2,3) m(2) by simp
  qed
qed

lemma str_len_aset:
  "str_len mem p = Some n \<Longrightarrow> p + n < i \<Longrightarrow> aset mem i c = Some mem' \<Longrightarrow> str_len mem' p = Some n"
proof (induction mem p arbitrary: n rule: str_len.induct)
  case (1 mem p)
  have n: "0 \<le> n" by (rule str_len_Some [OF "1.prems"(1)])
  obtain d where d: "aget mem p = Some d" using "1.prems"(1) by (subst (asm) str_len.simps) (auto split: option.splits)
  have same: "aget mem' p = Some d" using d "1.prems"(2,3) n by (auto simp: aget_Some_iff aset_Some_iff)
  show ?case
  proof (cases "d = NUL")
    case True
    then show ?thesis using "1.prems"(1) d same by (simp add: str_len.simps [of _ p])
  next
    case False
    then obtain m where m: "str_len mem (p + 1) = Some m" "n = m + 1"
      using "1.prems"(1) d by (subst (asm) str_len.simps) auto
    have "str_len mem' (p + 1) = Some m" using "1.IH" [OF d False m(1)] m "1.prems" by simp
    then show ?thesis using same False m(2) by (subst str_len.simps) simp
  qed
qed

lemma string_from_aset:
  assumes "string_from mem p = Some w" "str_len mem p = Some n" "0 \<le> p" "p + n < i" "aset mem i c = Some mem'"
  shows "string_from mem' p = Some w"
proof -
  have "take (nat n) (drop (nat p) mem') = take (nat n) (drop (nat p) mem)"
    using assms(3-5) str_len_Some [OF assms(2)]
    by (auto simp: aset_Some_iff drop_update_swap intro: take_update_cancel)
  then show ?thesis using assms(1,2) str_len_aset [OF assms(2,4,5)] by (simp add: string_from_def)
qed

lemma arg_num_loop_ok:
  "arg_num_loop (vs @ map Some ps @ replicate (Suc m) None) (int (length vs)) = Some (int (length vs + length ps))"
proof (induction ps arbitrary: vs)
  case Nil
  then show ?case by (simp add: arg_num_loop.simps aget_mid)
next
  case (Cons p ps)
  have "aget (vs @ Some p # map Some ps @ replicate (Suc m) None) (int (length vs)) = Some (Some p)"
    by (rule aget_mid)
  moreover have "arg_num_loop (vs @ Some p # map Some ps @ replicate (Suc m) None) (int (length vs) + 1) =
      Some (int (length vs + length (p # ps)))"
    using Cons [of "vs @ [Some p]"] by (simp add: ac_simps)
  ultimately show ?case by (subst arg_num_loop.simps) simp
qed

lemma arg_num_ok: "length ps < m \<Longrightarrow> arg_num (map Some ps @ replicate (m - length ps) None) = Some (int (length ps))"
  using arg_num_loop_ok [of "[]" ps "m - length ps - 1"] by (simp add: arg_num_def Suc_diff_Suc del: replicate_Suc)

text \<open>What is read from the words of a line.\<close>

definition parsed :: "string list \<Rightarrow> line" where
  "parsed ws =
     (if ws = [] then Nothing
      else if hd ws = [newline] then Blank_line
      else Command (map Some (butlast ws @ [butlast (last ws)]) @ replicate (ARG_SIZE - length ws) None)
        (int (length ws)))"

lemma strings_from_map: "strings_from mem (map Some ps @ replicate m None) = map (string_from mem) ps @ replicate m None"
  by (simp add: strings_from_def)

lemma str_len_split:
  "str_len mem p = Some n \<Longrightarrow> 0 \<le> p \<Longrightarrow>
    \<exists>pre w post. mem = pre @ w @ NUL # post \<and> int (length pre) = p \<and> int (length w) = n \<and> (\<forall>c\<in>set w. c \<noteq> NUL)"
proof (induction mem p arbitrary: n rule: str_len.induct)
  case (1 mem p)
  obtain d where d: "aget mem p = Some d" using "1.prems"(1) by (subst (asm) str_len.simps) (auto split: option.splits)
  then have p: "mem = take (nat p) mem @ d # drop (Suc (nat p)) mem" "int (length (take (nat p) mem)) = p"
    by (auto simp: aget_Some_iff id_take_nth_drop)
  show ?case
  proof (cases "d = NUL")
    case True
    then have "n = 0" using "1.prems"(1) d by (simp add: str_len.simps [of _ p])
    then show ?thesis using p True
      by (intro exI [of _ "take (nat p) mem"] exI [of _ "[]"] exI [of _ "drop (Suc (nat p)) mem"]) simp
  next
    case False
    then obtain m where m: "str_len mem (p + 1) = Some m" "n = m + 1"
      using "1.prems"(1) d by (subst (asm) str_len.simps) auto
    obtain pre w post where w: "mem = pre @ w @ NUL # post" "int (length pre) = p + 1" "int (length w) = m"
      "\<forall>c\<in>set w. c \<noteq> NUL"
      using "1.IH" [OF d False m(1)] "1.prems"(2) by auto
    then obtain pre' e where e: "pre = pre' @ [e]" using "1.prems"(2) by (cases pre rule: rev_cases) auto
    then have "int (length pre') = p" using w(2) by simp
    then have "e = d" using d w(1) e aget_mid [of pre' e "w @ NUL # post"] by simp
    then show ?thesis using w e m False \<open>int (length pre') = p\<close>
      by (intro exI [of _ pre'] exI [of _ "d # w"] exI [of _ post]) simp
  qed
qed

lemma string_from_split:
  assumes "string_from mem p = Some w" "0 \<le> p"
  obtains pre post where "mem = pre @ w @ NUL # post" "int (length pre) = p" "\<forall>c\<in>set w. c \<noteq> NUL"
proof -
  obtain n where n: "str_len mem p = Some n" "w = take (nat n) (drop (nat p) mem)"
    using assms(1) by (cases "str_len mem p") (auto simp: string_from_def)
  from str_len_split [OF n(1) assms(2)] obtain pre w' post where
    "mem = pre @ w' @ NUL # post" "int (length pre) = p" "int (length w') = n" "\<forall>c\<in>set w'. c \<noteq> NUL" by blast
  then show thesis using n(2) that [of pre post] by auto
qed

text \<open>Cutting the last character of the last word.\<close>

lemma cut_last:
  assumes "map (string_from mem) (ps @ [p]) = map Some (ws @ [w])" "apart 0 mem (ps @ [p])" "w \<noteq> []"
  shows "\<exists>mem'. str_len mem p = Some (int (length w)) \<and> aset mem (p + int (length w) - 1) NUL = Some mem' \<and>
    map (string_from mem') (ps @ [p]) = map Some (ws @ [butlast w])"
proof -
  have p: "string_from mem p = Some w" "0 \<le> p" using assms(1,2) by (simp_all add: apart_def)
  obtain pre post where m: "mem = pre @ w @ NUL # post" "int (length pre) = p" "\<forall>c\<in>set w. c \<noteq> NUL"
    by (rule string_from_split [OF p])
  obtain v c where w: "w = v @ [c]" using assms(3) by (cases w rule: rev_cases) auto
  let ?mem = "pre @ v @ NUL # NUL # post"
  have set: "aset mem (p + int (length w) - 1) NUL = Some ?mem"
    using aset_mid [of "pre @ v" c "NUL # post" NUL] m w by simp
  have "string_from ?mem q = string_from mem q" if q: "q \<in> set ps" for q
  proof -
    obtain n where n: "str_len mem q = Some n" "q + n < p" "0 \<le> q" using assms(2) q by (auto simp: apart_def)
    obtain u where u: "string_from mem q = Some u" using n(1) by (simp add: string_from_def)
    have "q + n < p + int (length w) - 1" using n(2) w by simp
    from string_from_aset [OF u n(1,3) this set] u show ?thesis by simp
  qed
  then have "map (string_from ?mem) ps = map Some ws" using assms(1) by (simp cong: map_cong)
  moreover have "string_from ?mem p = Some v" using string_from_at [of v pre "NUL # post"] m w by simp
  moreover have "str_len mem p = Some (int (length w))" using str_len_at [of w pre post] m by simp
  ultimately show ?thesis using set w by (intro exI [of _ ?mem]) simp
qed

lemma read_line_ok:
  assumes "\<forall>c\<in>set line. c \<noteq> NUL" "length (words line) < ARG_SIZE"
  shows "\<exists>mem'. read_line (int (length line)) (line @ NUL # post) = Some (parsed (words line), mem') \<and>
    length mem' = length line + 1 + length post \<and> drop (length line) mem' = NUL # post"
proof -
  obtain ps mem where s: "split_line (int (length line)) (line @ NUL # post) =
      Some (map Some ps @ replicate (ARG_SIZE - length ps) None, mem)"
    "length mem = length line + 1 + length post" "map (string_from mem) ps = map Some (words line)" "apart 0 mem ps"
    "drop (length line) mem = NUL # post" "\<forall>p\<in>set ps. p \<le> int (length line)"
    using split_line_ok [OF assms, of post] by blast
  have len: "length ps = length (words line)" using arg_cong [OF s(3), of length] by simp
  have n: "arg_num (map Some ps @ replicate (ARG_SIZE - length ps) None) = Some (int (length ps))"
    using assms(2) len by (intro arg_num_ok) simp
  show ?thesis
  proof (cases "words line" rule: rev_cases)
    case Nil
    then have ps: "ps = []" using len by simp
    then show ?thesis using s(1,2,5) n Nil
      by (simp add: read_line_def parsed_def) (simp add: aget_def ARG_SIZE_def)
  next
    case (snoc ws w)
    obtain ps' p where ps: "ps = ps' @ [p]" using len snoc by (cases ps rule: rev_cases) auto
    obtain q qs where q: "ps = q # qs" using ps by (meson append_is_Nil_conv neq_Nil_conv)
    have hd1: "aget (map Some ps @ replicate (ARG_SIZE - length ps) None) 0 = Some (Some q)"
      unfolding q using aget_mid [of "[]" "Some q"] by simp
    have "map Some (words line) \<noteq> []" using snoc by simp
    then have "hd (map (string_from mem) ps) = Some (hd (words line))" using s(3) by (simp add: hd_map)
    then have hd2: "string_from mem q = Some (hd (words line))" using q by simp
    note hd = hd1 hd2
    show ?thesis
    proof (cases "hd (words line) = [newline]")
      case True
      then show ?thesis using hd snoc s(1,2,5) n by (simp add: read_line_def parsed_def)
    next
      case False
      have "w \<in> set (words line)" using snoc by simp
      then have "w \<noteq> []" by (rule words_nonempty)
      from cut_last [of mem ps' p ws w] obtain mem' where m: "str_len mem p = Some (int (length w))"
        "aset mem (p + int (length w) - 1) NUL = Some mem'" "map (string_from mem') ps = map Some (ws @ [butlast w])"
        using s(3,4) snoc ps \<open>w \<noteq> []\<close> by auto
      have "aget (map Some ps @ replicate (ARG_SIZE - length ps) None) (int (length ps) - 1) = Some (Some p)"
        using aget_mid [of "map Some ps'" "Some p"] ps by simp
      moreover have "length mem' = length mem" using m(2) by (auto simp: aset_Some_iff)
      moreover have "drop (length line) mem' = NUL # post"
      proof -
        have "aget mem (int (length line)) = Some NUL"
          using s(2,5) by (metis aget_mid append_take_drop_id length_take min_absorb2 trans_le_add1 le_add1)
        then have "p + int (length w) \<le> int (length line)" using str_len_le [OF m(1)] s(6) ps by simp
        then show ?thesis using m(2) s(5) by (auto simp: aset_Some_iff)
      qed
      ultimately show ?thesis using False hd m s(1,2) n snoc len by (simp add: read_line_def parsed_def strings_from_map)
    qed
  qed
qed

text \<open>A line is cut at its blanks.\<close>

lemma words_append: "blank c \<Longrightarrow> words (s @ c # t) = words s @ words t"
proof (induction "length s" arbitrary: s rule: less_induct)
  case less
  show ?case
  proof (cases rule: next_word [of s])
    case blanks
    then have "words (s @ c # t) = words (c # t)"
      by (subst (1 2) words.simps) (simp add: dropWhile_append2)
    then show ?thesis using blanks less.prems by (simp add: words_only_blank words_blank)
  next
    case (last_one b w)
    then show ?thesis using words_word [of b w "c # t"] words_word [of b w "[]"] less.prems
      by (simp add: words_blank)
  next
    case (word b w d r)
    then have "words (r @ c # t) = words r @ words t" using less by simp
    then show ?thesis using words_word [of b w "d # r @ c # t"] words_word [of b w "d # r"] word
      by (simp add: words_blank)
  qed
qed

text \<open>A character that is not blank belongs to the word before it.\<close>

lemma words_snoc:
  "s \<noteq> [] \<Longrightarrow> \<not> blank (last s) \<Longrightarrow> \<not> blank c \<Longrightarrow>
    words s \<noteq> [] \<and> words (s @ [c]) = butlast (words s) @ [last (words s) @ [c]]"
proof (induction "length s" arbitrary: s rule: less_induct)
  case less
  show ?case
  proof (cases rule: next_word [of s])
    case blanks
    then show ?thesis using less.prems by auto
  next
    case (last_one b w)
    then show ?thesis using words_word [of b "w @ [c]" "[]"] words_word [of b w "[]"] less.prems by simp
  next
    case (word b w d r)
    then have "r \<noteq> []" "\<not> blank (last r)" using less.prems by (auto split: if_splits)
    then have "words r \<noteq> [] \<and> words (r @ [c]) = butlast (words r) @ [last (words r) @ [c]]"
      using less.hyps [of r] less.prems(3) word by simp
    then show ?thesis using words_word [of b w "d # r @ [c]"] words_word [of b w "d # r"] word
      by (simp add: words_blank)
  qed
qed

end
