(* ===== verification/ShellRedirect.thy ===== *)
theory ShellRedirect
  imports ShellDefs
begin

text \<open>What the child of a command with redirections runs: the specification takes the redirections out
of the list of arguments from left to right.\<close>

section \<open>The specification\<close>

definition redirection :: "string \<Rightarrow> bool" where
  "redirection a \<longleftrightarrow> starts ''<'' a \<or> starts ''>'' a"

fun split_redirection :: "string list \<Rightarrow> (string list \<times> string \<times> string list) option" where
  "split_redirection [] = None"
| "split_redirection (a # as) =
     (if redirection a then Some ([], a, as)
      else map_option (\<lambda>(before, r, after). (a # before, r, after)) (split_redirection as))"

lemma split_redirection_Some:
  "split_redirection as = Some (before, r, after) \<Longrightarrow>
    as = before @ r # after \<and> redirection r \<and> (\<forall>b\<in>set before. \<not> redirection b)"
  by (induction as arbitrary: before) (auto split: if_splits)

lemma split_redirection_None: "split_redirection as = None \<longleftrightarrow> (\<forall>a\<in>set as. \<not> redirection a)"
  by (induction as) auto

text \<open>The message for a file that cannot be opened, and for one that cannot be redirected to.\<close>

definition sign :: "string \<Rightarrow> string" where
  "sign r = (if starts ''<'' r then ''<'' else if starts ''>>'' r then ''>>'' else ''>'')"

definition open_error :: "string \<Rightarrow> outputs \<Rightarrow> child" where
  "open_error r = Error_exit (sign r @ (if starts ''<'' r then '': could not open file'' else '': error opening file''))"

text \<open>One redirection: the file is opened, and put in the place of the standard input or output.\<close>

definition redirect ::
  "files \<Rightarrow>
   string \<Rightarrow> string \<Rightarrow> string option \<Rightarrow> outputs \<Rightarrow> child + string option \<times> outputs" where
  "redirect perms r f inp outp =
     (if \<not> (if starts ''<'' r then may_read perms else may_write perms) outp f then Inl (open_error r outp)
      else let outp' = (if starts ''<'' r then outp
                        else outp @ [(f, if starts ''>>'' r then Append else Truncate)])
           in if \<not> may_dup perms outp f then Inl (Error_exit (sign r @ '': could not redirect'') outp')
              else Inr (if starts ''<'' r then Some f else inp, outp'))"

function redirs ::
  "files \<Rightarrow>
   string list \<Rightarrow> string option \<Rightarrow> outputs \<Rightarrow> child + string list \<times> string option \<times> outputs" where
  "redirs perms as inp outp =
     (case split_redirection as of
        None \<Rightarrow> Inr (as, inp, outp)
      | Some (before, r, after) \<Rightarrow>
          if length (filter (starts r) as) \<noteq> 1 then Inl (Error_exit ''only one redirection allowed'' outp)
          else (case after of
             [] \<Rightarrow> Inl (open_error r outp)
           | f # after' \<Rightarrow>
               (case redirect perms r f inp outp of
                  Inl c \<Rightarrow> Inl c
                | Inr (inp', outp') \<Rightarrow> redirs perms (before @ after') inp' outp')))"
  by pat_completeness auto

termination
  by (relation "measure (\<lambda>(fs, as, i, x). length as)") (auto dest!: split_redirection_Some)

declare redirs.simps [simp del]

definition after_last_slash :: "string \<Rightarrow> string" where
  "after_last_slash s = rev (takeWhile (\<lambda>c. c \<noteq> CHR ''/'') (rev s))"

section \<open>The loops\<close>

lemma aget_at: "aget (xs @ y # ys) (int (length xs)) = Some y"
  by (simp add: aget_def)

lemma create_args_step:
  "create_args (vs @ x # y # ys) (int (length vs)) n =
    (if int (length vs) < n then create_args ((vs @ [y]) @ y # ys) (int (length (vs @ [y]))) n
     else Some (vs @ x # y # ys))"
  using aget_at [of "vs @ [x]" y ys]
  by (simp add: create_args_def c_for_step c_for_done aset_def list_update_append add.commute)

lemma create_args_ok:
  "create_args (vs @ x # ys @ z # zs) (int (length vs)) (int (length vs + 1 + length ys)) =
    Some (vs @ ys @ z # z # zs)"
proof (induction ys arbitrary: vs x)
  case Nil
  show ?case using create_args_step [of vs x z zs] by (simp add: create_args_def c_for_done)
next
  case (Cons y ys)
  show ?case
    using create_args_step [of vs x y "ys @ z # zs" "int (length vs + 1 + length (y # ys))"] Cons [of "vs @ [y]" y]
    by (simp add: ac_simps)
qed

lemma find_redirection_loop_ok:
  "find_redirection_loop (map Some (bs @ as) @ rest) (int (length (bs @ as))) (int (length bs)) =
    Some (case split_redirection as of None \<Rightarrow> - 1 | Some (before, r, after) \<Rightarrow> int (length (bs @ before)))"
proof (induction as arbitrary: bs)
  case Nil
  show ?case by (simp add: find_redirection_loop.simps)
next
  case (Cons a as)
  have a: "aget (map Some (bs @ a # as) @ rest) (int (length bs)) = Some (Some a)"
    using aget_at [of "map Some bs" "Some a"] by simp
  show ?case
  proof (cases "redirection a")
    case True
    then show ?thesis using a by (subst find_redirection_loop.simps) (auto simp: redirection_def)
  next
    case False
    have "find_redirection_loop (map Some (bs @ a # as) @ rest) (int (length (bs @ a # as))) (int (length bs) + 1) =
        Some (case split_redirection as of None \<Rightarrow> - 1 | Some (before, r, after) \<Rightarrow> int (length (bs @ a # before)))"
      using Cons [of "bs @ [a]"] by (simp add: add.commute) (simp split: option.splits)
    then show ?thesis using a False
      by (subst find_redirection_loop.simps) (auto simp: redirection_def split: option.splits)
  qed
qed

lemma find_redirection_ok:
  "find_redirection (map Some as @ rest) (int (length as)) =
    Some (case split_redirection as of None \<Rightarrow> - 1 | Some (before, r, after) \<Rightarrow> int (length before))"
  using find_redirection_loop_ok [of "[]" as rest] by (simp add: find_redirection_def split: option.splits)

lemma count_redirection_ok:
  "count_redirection (map Some as @ rest) (int (length as)) r = Some (int (length (filter (starts r) as)))"
proof -
  let ?f = "\<lambda>i n. do { a \<leftarrow> aget (map Some as @ rest) i; a \<leftarrow> a; Some (if starts r a then n + 1 else n) }"
  have "c_for (int (length bs)) (int (length (bs @ cs))) ?f n = Some (n + int (length (filter (starts r) cs)))"
    if "as = bs @ cs" for bs cs n using that
  proof (induction cs arbitrary: bs n)
    case (Cons c cs)
    have "aget (map Some as @ rest) (int (length bs)) = Some (Some c)"
      using aget_at [of "map Some bs" "Some c"] Cons.prems by simp
    moreover have "c_for (int (length bs) + 1) (int (length (bs @ c # cs))) ?f k =
        Some (k + int (length (filter (starts r) cs)))" for k
      using Cons.IH [of "bs @ [c]" k] Cons.prems by (simp add: add.commute)
    ultimately show ?case by (subst c_for_step) simp_all
  qed (simp add: c_for_done)
  from this [of "[]" as 0] show ?thesis by (simp add: count_redirection_def)
qed

text \<open>Where the loop stands: the place of the first redirection, or -1.\<close>

definition place :: "string list \<Rightarrow> int" where
  "place as = (case split_redirection as of None \<Rightarrow> - 1 | Some (before, r, after) \<Rightarrow> int (length before))"

lemma find_redirection_place: "find_redirection (map Some as @ rest) (int (length as)) = Some (place as)"
  by (simp add: find_redirection_ok place_def)

lemma redirection_cases:
  assumes "redirection r"
  obtains (from_file) "starts ''<'' r" | (at_end) "\<not> starts ''<'' r" "starts ''>>'' r" "starts ''>'' r"
  | (to_file) "\<not> starts ''<'' r" "\<not> starts ''>>'' r" "starts ''>'' r"
proof -
  have "starts ''>>'' r \<Longrightarrow> starts ''>'' r" by (cases r) (auto simp: starts_def)
  then show thesis using assms from_file at_end to_file by (auto simp: redirection_def)
qed

lemma remove_redirection:
  assumes "as = before @ r # f # after"
  shows "create_args (map Some as @ None # tail) (int (length before) + 1) (int (length as)) =
      Some (map Some before @ Some r # map Some after @ None # None # tail)"
    "create_args (map Some before @ Some r # map Some after @ None # None # tail) (int (length before)) (int (length as) - 1) =
      Some (map Some (before @ after) @ None # None # None # tail)"
  using create_args_ok [of "map Some before @ [Some r]" "Some f" "map Some after" None tail]
    create_args_ok [of "map Some before" "Some r" "map Some after" None "None # tail"] assms
  by (simp_all add: ac_simps)

lemma redirs_length:
  "redirs perms as inp outp = Inr (as', rest) \<Longrightarrow> length as' \<le> length as"
proof (induction perms as inp outp rule: redirs.induct)
  case (1 perms as inp outp)
  show ?case
  proof (cases "split_redirection as")
    case None
    then show ?thesis using "1.prems" by (simp add: redirs.simps)
  next
    case (Some x)
    obtain before r after where x: "x = (before, r, after)" by (cases x) auto
    have len: "length as = length before + 1 + length after" using split_redirection_Some Some x by fastforce
    from "1.prems" Some x obtain f fs y where f: "after = f # fs" "length (filter (starts r) as) = 1"
        "redirect perms r f inp outp = Inr y"
      by (subst (asm) redirs.simps) (auto split: if_splits list.splits sum.splits)
    have "redirs perms (before @ fs) (fst y) (snd y) = Inr (as', rest)"
      using "1.prems" Some x f by (simp add: redirs.simps [of perms as] case_prod_unfold)
    then have "length as' \<le> length (before @ fs)"
      using "1.IH" [OF Some x [symmetric] refl _ f(1,3)] f(2) by (cases y) auto
    then show ?thesis using len f(1) by simp
  qed
qed

lemma tail_longer:
  "n \<le> m \<Longrightarrow> replicate (m - n) None @ None # None # None # tail = replicate (Suc (Suc m) - n) None @ None # tail"
  by (simp add: Suc_diff_le replicate_app_Cons_same)

lemma redirect_loop_ok:
  "redirect_loop perms (place as) (map Some as @ None # tail) (int (length as)) inp outp =
    Some (case redirs perms as inp outp of
        Inl c \<Rightarrow> Inl c
      | Inr (as', inp', outp') \<Rightarrow>
          Inr (map Some as' @ replicate (length as - length as') None @ None # tail, int (length as'), inp', outp'))"
proof (induction "length as" arbitrary: as tail inp outp rule: less_induct)
  case less
  show ?case
  proof (cases "split_redirection as")
    case None
    then show ?thesis by (simp add: redirect_loop.simps place_def redirs.simps)
  next
    case (Some x)
    obtain before r after where x: "x = (before, r, after)" by (cases x) auto
    have as: "as = before @ r # after" "redirection r" using split_redirection_Some Some x by auto
    have pos: "place as = int (length before)" using Some x by (simp add: place_def)
    let ?v = "map Some as @ None # tail"
    have r: "aget ?v (place as) = Some (Some r)"
      using aget_at [of "map Some before" "Some r"] as(1) pos by simp
    have f: "aget ?v (place as + 1) = Some (case after of [] \<Rightarrow> None | f # _ \<Rightarrow> Some f)"
    proof (cases after)
      case Nil
      then show ?thesis using aget_at [of "map Some (before @ [r])" None tail] as(1) pos by (simp add: add.commute)
    next
      case (Cons f fs)
      then show ?thesis using aget_at [of "map Some (before @ [r])" "Some f"] as(1) pos by (simp add: add.commute)
    qed
    note count = count_redirection_ok [of as "None # tail" r]
    note run = redirect_loop.simps [of perms "place as" ?v "int (length as)" inp outp]
    have "place as \<ge> 0" using pos by simp
    note spec = redirs.simps [of perms as inp outp]
    show ?thesis
    proof (cases "length (filter (starts r) as) \<noteq> 1 \<or> after = []")
      case True
      then show ?thesis unfolding run spec using \<open>place as \<ge> 0\<close> r f count Some x as(2)
        by (auto simp: open_error_def sign_def redirection_def elim!: redirection_cases)
    next
      case False
      then obtain f fs where after: "after = f # fs" by (meson neq_Nil_conv)
      have shorter: "length (before @ fs) < length as" using as after by simp
      note ih = less.hyps [OF shorter, where tail = "None # None # tail"]
      have eq: "as = before @ r # f # fs" using as after by simp
      note remove = remove_redirection [OF eq, of tail]
      have n: "int (length as) - 2 = int (length (before @ fs))" using as after by simp
      have find: "find_redirection (map Some (before @ fs) @ None # None # None # tail) (int (length as) - 2) =
          Some (place (before @ fs))" unfolding n by (rule find_redirection_place)
      have spec': "redirs perms as inp outp =
          (case redirect perms r f inp outp of
             Inl c \<Rightarrow> Inl c
           | Inr (i, out) \<Rightarrow> redirs perms (before @ fs) i out)"
        using False Some x after by (simp add: spec)
      have run': "redirect_loop perms (place as) ?v (int (length as)) inp outp =
          (case redirect perms r f inp outp of
             Inl c \<Rightarrow> Some (Inl c)
           | Inr (i, out) \<Rightarrow> redirect_loop perms (place (before @ fs))
               (map Some (before @ fs) @ None # None # None # tail) (int (length (before @ fs))) i out)"
        unfolding run using as(2)
        by (cases rule: redirection_cases)
          (use \<open>place as \<ge> 0\<close> r f count False after remove find n pos
            in \<open>simp_all add: redirect_def open_error_def sign_def Let_def\<close>)
      show ?thesis
        unfolding run' spec' ih using as after redirs_length [of perms "before @ fs"]
        by (auto simp: tail_longer split: sum.splits)
    qed
  qed
qed

section \<open>The program and its name\<close>

lemma first_slash_loop_ok:
  "\<forall>c\<in>set v. c \<noteq> CHR ''/'' \<Longrightarrow> int (length v) \<le> n \<Longrightarrow>
    first_slash_loop (u @ CHR ''/'' # v @ w) (int (length u + 1 + length v)) n = Some (Some (int (length u)))"
proof (induction v arbitrary: w n rule: rev_induct)
  case Nil
  then show ?case using aget_at [of u "CHR ''/''" w] by (subst first_slash_loop.simps) simp
next
  case (snoc c v)
  have "aget (u @ CHR ''/'' # (v @ [c]) @ w) (int (length u + 1 + length v)) = Some c"
    using aget_at [of "u @ CHR ''/'' # v" c w] by simp
  moreover have "first_slash_loop (u @ CHR ''/'' # v @ c # w) (int (length u + 1 + length v)) (n - 1) =
      Some (Some (int (length u)))" using snoc.prems snoc.IH [of "n - 1" "c # w"] by simp
  ultimately show ?case using snoc.prems by (subst first_slash_loop.simps) (simp add: ac_simps)
qed

lemma first_slash_loop_none:
  "\<forall>c\<in>set v. c \<noteq> CHR ''/'' \<Longrightarrow> int (length v) \<le> n \<Longrightarrow> first_slash_loop (v @ w) (int (length v)) n = None"
proof (induction v arbitrary: w n rule: rev_induct)
  case Nil
  then show ?case by (subst first_slash_loop.simps) (simp add: aget_def)
next
  case (snoc c v)
  have "first_slash_loop (v @ c # w) (int (length v)) (n - 1) = None"
    using snoc.prems snoc.IH [of "n - 1" "c # w"] by simp
  moreover have "aget ((v @ [c]) @ w) (int (length v)) = Some c" using aget_at [of v c w] by simp
  ultimately show ?case using snoc.prems by (subst first_slash_loop.simps) simp
qed

lemma last_slash:
  assumes "CHR ''/'' \<in> set cmd"
  obtains u where "cmd = u @ CHR ''/'' # after_last_slash cmd" "\<forall>c\<in>set (after_last_slash cmd). c \<noteq> CHR ''/''"
proof -
  obtain u v where s: "cmd = u @ CHR ''/'' # v" "CHR ''/'' \<notin> set v"
    using split_list_last [of "CHR ''/''" cmd] assms by blast
  then have v: "\<forall>c\<in>set v. c \<noteq> CHR ''/''" by auto
  then have "takeWhile (\<lambda>c. c \<noteq> CHR ''/'') (rev v @ CHR ''/'' # rev u) = rev v"
    by (subst takeWhile_append2) auto
  then have "after_last_slash cmd = v" using s by (simp add: after_last_slash_def)
  then show thesis using that [of u] s v by simp
qed

lemma first_slash_ok:
  "first_slash cmd (int (length cmd)) (int (length cmd)) =
    (if CHR ''/'' \<in> set cmd then Some (Some (int (length cmd) - int (length (after_last_slash cmd)) - 1)) else None)"
proof (cases "CHR ''/'' \<in> set cmd")
  case True
  then obtain u where s: "cmd = u @ CHR ''/'' # after_last_slash cmd" "\<forall>c\<in>set (after_last_slash cmd). c \<noteq> CHR ''/''"
    by (rule last_slash)
  have "length cmd = length u + 1 + length (after_last_slash cmd)" by (subst s(1)) simp
  then show ?thesis using True s(1) first_slash_loop_ok [OF s(2), of "int (length cmd)" u "[]"]
    by (simp add: first_slash_def ac_simps)
next
  case False
  then have "\<forall>c\<in>set cmd. c \<noteq> CHR ''/''" by auto
  then show ?thesis using False first_slash_loop_none [of cmd "int (length cmd)" "[]"] by (simp add: first_slash_def)
qed

lemma after_last_slash_drop:
  assumes "CHR ''/'' \<in> set cmd"
  shows "drop (length cmd - length (after_last_slash cmd)) cmd = after_last_slash cmd"
proof -
  obtain u where s: "cmd = u @ CHR ''/'' # after_last_slash cmd" by (rule last_slash [OF assms])
  have "length cmd - length (after_last_slash cmd) = length (u @ [CHR ''/''])" by (subst (1) s) simp
  then show ?thesis by (subst (3) s) simp
qed

text \<open>What \<open>execv\<close> is called with.\<close>

definition executes ::
  "string list \<Rightarrow> string option list \<Rightarrow> string option \<Rightarrow> outputs \<Rightarrow> child option" where
  "executes as tail inp outp =
     (if as \<noteq> [] \<and> CHR ''/'' \<in> set (hd as)
      then Some (Execv (hd as) (map Some (after_last_slash (hd as) # tl as) @ tail) inp outp)
      else None)"

lemma exec_child_ok: "exec_child (map Some as @ None # tail) inp outp = executes as (None # tail) inp outp"
proof (cases as)
  case Nil
  then show ?thesis by (simp add: exec_child_def executes_def aget_def)
next
  case (Cons cmd as')
  have at: "aget (map Some as @ None # tail) 0 = Some (Some cmd)"
    using aget_at [of "[]" "Some cmd"] Cons by simp
  show ?thesis
  proof (cases "CHR ''/'' \<in> set cmd")
    case True
    have "nat (int (length cmd) - int (length (after_last_slash cmd))) = length cmd - length (after_last_slash cmd)"
      by simp
    then show ?thesis using at Cons True after_last_slash_drop [OF True]
      by (simp add: exec_child_def executes_def Let_def first_slash_ok aset_def)
  qed (use at Cons in \<open>simp add: exec_child_def executes_def Let_def first_slash_ok\<close>)
qed

end
