(* ===== verification/ShellControl.thy ===== *)
theory ShellControl
  imports ShellDefs
begin

text \<open>
  Job control and the command loop of \<open>systems/cs033/shell_2\<close>: \<open>helpers/shell_2_helpers.c\<close> and
  \<open>sh.c\<close>. The parameters are the system calls on a state \<open>'k\<close> of the kernel: \<open>fork\<close>, which is told
  what the child does, \<open>waitpid\<close>, which returns a pid and the status it stores, \<open>link\<close> and \<open>unlink\<close>.
  Reading and writing the terminal succeeds.
\<close>

unbundle bit_operations_syntax

section \<open>The state of a child\<close>

text \<open>The macros of \<open>sys/wait.h\<close>.\<close>

definition WTERMSIG :: "int \<Rightarrow> int" where "WTERMSIG status = status AND 0x7F"
definition WEXITSTATUS :: "int \<Rightarrow> int" where "WEXITSTATUS status = drop_bit 8 (status AND 0xFF00)"
definition WSTOPSIG :: "int \<Rightarrow> int" where "WSTOPSIG status = WEXITSTATUS status"
definition WIFEXITED :: "int \<Rightarrow> bool" where "WIFEXITED status \<longleftrightarrow> WTERMSIG status = 0"
definition WIFSTOPPED :: "int \<Rightarrow> bool" where "WIFSTOPPED status \<longleftrightarrow> status AND 0xFF = 0x7F"
definition WIFCONTINUED :: "int \<Rightarrow> bool" where "WIFCONTINUED status \<longleftrightarrow> status = 0xFFFF"
definition WIFSIGNALED :: "int \<Rightarrow> bool" where
  "WIFSIGNALED status \<longleftrightarrow> drop_bit 1 (sint (word_of_int ((status AND 0x7F) + 1) :: 8 word)) > 0"

definition WNOHANG :: int where "WNOHANG = 1"
definition WUNTRACED :: int where "WUNTRACED = 2"
definition WCONTINUED :: int where "WCONTINUED = 8"
definition SIGCONT :: int where "SIGCONT = 18"
definition SIGTSTP :: int where "SIGTSTP = 20"

abbreviation Running :: string where "Running \<equiv> ''Running''"
abbreviation Stopped :: string where "Stopped \<equiv> ''Stopped''"

definition FAILURE :: int where "FAILURE = 256"
definition BASE :: nat where "BASE = 128"

record 'k shell =
  joblist :: "job_list option"
  kernel :: 'k
  number :: int
  errors :: "string list"
  printed :: "string list"
  sent :: "(int \<times> int) list"
  buff :: "char list"

definition report :: "string \<Rightarrow> 'k shell \<Rightarrow> 'k shell" where
  "report m s = s\<lparr>errors := errors s @ [m @ [newline]]\<rparr>"

text \<open>\<open>[jid] (pid) what\<close>\<close>

definition report_job :: "int \<Rightarrow> string \<Rightarrow> 'k shell \<Rightarrow> 'k shell option" where
  "report_job p what s = do {
     (j, l) \<leftarrow> get_job_jid (joblist s) p;
     Some (report (''['' @ print_int j @ ''] ('' @ print_int p @ '') '' @ what) s)
   }"

section \<open>\<open>shell_2_helpers.c\<close>\<close>

definition handle_status :: "int \<Rightarrow> int \<Rightarrow> int \<Rightarrow> 'k shell \<Rightarrow> 'k shell option" where
  "handle_status status p w_pid s =
     (if w_pid = 0 then Some s
      else do {
        s \<leftarrow> (if WIFEXITED status
              then report_job p (''terminated with exit status '' @ print_int (WEXITSTATUS status)) s
              else Some s);
        s \<leftarrow> (if WIFSTOPPED status then do {
                s \<leftarrow> report_job p (''suspended by signal '' @ print_int (WSTOPSIG status)) s;
                (r, l) \<leftarrow> update_job_pid (joblist s) p (Some Stopped);
                Some (s\<lparr>joblist := l, sent := sent s @ [(p, SIGTSTP)]\<rparr>)
              }
              else Some s);
        s \<leftarrow> (if WIFSIGNALED status
              then report_job p (''terminated by signal '' @ print_int (WTERMSIG status)) s
              else Some s);
        s \<leftarrow> (if WIFCONTINUED status then do {
                s \<leftarrow> report_job p ''resumed'' s;
                (r, l) \<leftarrow> update_job_pid (joblist s) p (Some Running);
                Some (s\<lparr>joblist := l\<rparr>)
              }
              else Some s);
        if WIFEXITED status \<or> WIFSIGNALED status then do {
          (r, l) \<leftarrow> remove_job_pid (joblist s) p;
          let s = s\<lparr>joblist := l\<rparr>;
          Some (if r = - 1 then report ''problem removing job from list'' s else s)
        }
        else Some s
      })"

definition update_and_handle :: "int \<Rightarrow> string \<Rightarrow> int \<Rightarrow> int \<Rightarrow> 'k shell \<Rightarrow> 'k shell option" where
  "update_and_handle status cmd p w_pid s =
     (if status \<noteq> FAILURE then do {
        let st = (if status = SIGTSTP then Stopped else Running);
        (r, l) \<leftarrow> add_job (joblist s) (number s) p (Some st) (Some cmd);
        let s = s\<lparr>joblist := l\<rparr>;
        let s = (if r = - 1 then report ''process: problem adding to table'' s else s);
        s \<leftarrow> (if w_pid = 0 then report_job p '''' s else Some s);
        s \<leftarrow> handle_status status p w_pid s;
        Some (s\<lparr>number := number s + 1\<rparr>)
      }
      else Some s)"

text \<open>The message of \<open>fg_bg\<close> with the command in it is written to a buffer of 128 characters.\<close>

definition fg_bg :: "string \<Rightarrow> string \<Rightarrow> 'k shell \<Rightarrow> (int \<times> 'k shell) option" where
  "fg_bg cmd arg s =
     (if take 1 arg \<noteq> ''%'' then do {
        c_assert (length (cmd @ '': malformed job cmd'') + 1 < BASE);
        Some (- 1, report (cmd @ '': malformed job cmd'') s)
      }
      else do {
        (p, l) \<leftarrow> get_job_pid (joblist s) (atoi (tl arg));
        if p = - 1 then Some (- 1, report ''unable to find job'' s)
        else do {
          (r, l) \<leftarrow> update_job_pid (joblist s) p (Some Running);
          let s = s\<lparr>joblist := l\<rparr>;
          if r = - 1 then Some (- 1, report ''unable to update job'' s)
          else Some (p, s\<lparr>sent := sent s @ [(- p, SIGCONT)]\<rparr>)
        }
      })"

definition check_first_two :: "string \<Rightarrow> bool" where
  "check_first_two s \<longleftrightarrow> \<not> (take 1 s \<noteq> ''.'' \<and> take 1 s \<noteq> ''/'')"

section \<open>Waiting\<close>

type_synonym 'k wait_call = "'k \<Rightarrow> int \<Rightarrow> int \<Rightarrow> 'k \<times> int \<times> int"

text \<open>\<open>waitpid\<close> stores a status only when it returns the pid of a child.\<close>

definition wait_for :: "'k wait_call \<Rightarrow> int \<Rightarrow> int \<Rightarrow> int \<Rightarrow> 'k shell \<Rightarrow> int \<times> int \<times> 'k shell" where
  "wait_for waitpid p options status s =
     (let (k, w, st) = waitpid (kernel s) p options in
      (w, if w > 0 then st else status, s\<lparr>kernel := k\<rparr>))"

text \<open>The loop over the pids of the job list; \<open>c\<close> are the variables its body keeps.\<close>

partial_function (option) pids_loop ::
  "(int \<Rightarrow> 'c \<Rightarrow> 'k shell \<Rightarrow> ('c \<times> 'k shell) option) \<Rightarrow> 'c \<Rightarrow> 'k shell \<Rightarrow> ('c \<times> 'k shell) option" where
  "pids_loop body c s = do {
     (p, l) \<leftarrow> get_next_pid (joblist s);
     let s = s\<lparr>joblist := l\<rparr>;
     if p \<noteq> - 1 then do {
       (c, s) \<leftarrow> body p c s;
       pids_loop body c s
     }
     else Some (c, s)
   }"

definition poll_body :: "'k wait_call \<Rightarrow> int \<Rightarrow> unit \<Rightarrow> 'k shell \<Rightarrow> (unit \<times> 'k shell) option" where
  "poll_body waitpid p u s = do {
     let (w_pid, status, s) = wait_for waitpid p (WUNTRACED OR WNOHANG OR WCONTINUED) 0 s;
     s \<leftarrow> handle_status status p w_pid s;
     Some ((), s)
   }"

definition reap_body ::
  "'k wait_call \<Rightarrow> int \<Rightarrow> int \<Rightarrow> int \<times> int \<Rightarrow> 'k shell \<Rightarrow> ((int \<times> int) \<times> 'k shell) option" where
  "reap_body waitpid old p c s =
     (if old = p then Some (c, s)
      else do {
        let options = fst c OR WNOHANG;
        let (w_pid, status, s) = wait_for waitpid p options (snd c) s;
        s \<leftarrow> handle_status status p w_pid s;
        Some ((options, status), s)
      })"

text \<open>After the \<open>fork\<close>: wait for the command, note what became of it and look at the other jobs.\<close>

definition await_command :: "'k wait_call \<Rightarrow> int \<Rightarrow> string \<Rightarrow> int \<Rightarrow> 'k shell \<Rightarrow> 'k shell option" where
  "await_command waitpid options cmd p s = do {
     let (w_pid, status, s) = wait_for waitpid p options 0 s;
     let s = (if status = 0 \<and> w_pid \<noteq> 0 then s\<lparr>number := number s + 1\<rparr> else s);
     s \<leftarrow> (if status \<noteq> 0 \<or> status = 0 \<and> w_pid = 0 then update_and_handle status cmd p w_pid s else Some s);
     (c, s) \<leftarrow> pids_loop (reap_body waitpid p) (options, status) s;
     Some s
   }"

section \<open>Commands\<close>

text \<open>How the body of the loop ends: at the end or where it clears the line and continues, with a
\<open>continue\<close> that does not clear it, or with \<open>break\<close>.\<close>

datatype flow = Cleared | Kept | Leave

type_synonym 'k fork_call = "'k \<Rightarrow> child option \<Rightarrow> 'k \<times> int"
datatype errno = EEXIST | ENOENT | EISDIR | Other_errno
type_synonym 'k link_call = "'k \<Rightarrow> string option \<Rightarrow> string option \<Rightarrow> 'k \<times> errno option"
type_synonym 'k unlink_call = "'k \<Rightarrow> string option \<Rightarrow> 'k \<times> errno option"

definition create_ln :: "'k link_call \<Rightarrow> string option list \<Rightarrow> 'k shell \<Rightarrow> 'k shell option" where
  "create_ln link argv s = do {
     exist \<leftarrow> aget argv 1;
     lnk \<leftarrow> aget argv 2;
     let (k, r) = link (kernel s) exist lnk;
     let s = s\<lparr>kernel := k\<rparr>;
     Some (case r of
         None \<Rightarrow> s
       | Some EEXIST \<Rightarrow> report ''ln: file exists'' s
       | Some ENOENT \<Rightarrow> report ''ln: no such file or directory'' s
       | Some _ \<Rightarrow> report ''ln: error creating link'' s)
   }"

definition rm_file :: "'k unlink_call \<Rightarrow> string option list \<Rightarrow> 'k shell \<Rightarrow> 'k shell option" where
  "rm_file unlink argv s = do {
     f \<leftarrow> aget argv 1;
     let (k, r) = unlink (kernel s) f;
     let s = s\<lparr>kernel := k\<rparr>;
     Some (case r of
         None \<Rightarrow> s
       | Some EISDIR \<Rightarrow> report ''rm: is a directory'' s
       | Some ENOENT \<Rightarrow> report ''rm: no such file or directory'' s
       | Some _ \<Rightarrow> report ''rm: error removing file'' s)
   }"

definition fg_bg_command :: "'k wait_call \<Rightarrow> string \<Rightarrow> string option list \<Rightarrow> int \<Rightarrow> 'k shell \<Rightarrow> (flow \<times> 'k shell) option" where
  "fg_bg_command waitpid cmd args argc s =
     (if argc \<noteq> 2 then Some (Cleared, report ''fg: syntax error'' s)
      else do {
        arg \<leftarrow> aget args 1;
        arg \<leftarrow> arg;
        (p, s) \<leftarrow> fg_bg cmd arg s;
        if p = - 1 then Some (Kept, s)
        else do {
          let options = (if starts ''fg'' cmd then WUNTRACED else WUNTRACED OR WCONTINUED);
          let (w_pid, status, s) = wait_for waitpid p options 0 s;
          if status = 0 then do {
            (r, l) \<leftarrow> remove_job_pid (joblist s) p;
            let s = s\<lparr>joblist := l\<rparr>;
            if r = - 1 then Some (Kept, report ''cound not remove from job list'' s) else Some (Cleared, s)
          }
          else do {
            s \<leftarrow> handle_status status p w_pid s;
            Some (Cleared, s)
          }
        }
      })"

text \<open>A command with a final \<open>&\<close>, when its name starts like a path, runs in the background.\<close>

definition background ::
  "string \<Rightarrow> string option list \<Rightarrow> int \<Rightarrow> (int \<times> string option list \<times> int) option" where
  "background cmd args argc = do {
     last_arg \<leftarrow> aget args (argc - 1);
     last_arg \<leftarrow> last_arg;
     let options = WUNTRACED OR WCONTINUED;
     if last_arg = ''&'' \<and> check_first_two cmd then do {
       args \<leftarrow> aset args (argc - 1) None;
       Some (options OR WNOHANG, args, argc - 1)
     }
     else Some (options, args, argc)
   }"

definition redirect_command ::
  "files \<Rightarrow> 'k fork_call \<Rightarrow> 'k wait_call \<Rightarrow> string \<Rightarrow> int \<Rightarrow> string option list \<Rightarrow> int \<Rightarrow>
   'k shell \<Rightarrow> 'k shell option" where
  "redirect_command perms fork waitpid cmd pos args argc s =
     (if argc < 3 then Some (report ''not enough args to redirection'' s)
      else do {
        (options, args, argc) \<leftarrow> background cmd args argc;
        let (k, p) = fork (kernel s) (redirected_child perms pos args argc);
        await_command waitpid options cmd p (s\<lparr>kernel := k\<rparr>)
      })"

definition plain_command ::
  "'k fork_call \<Rightarrow> 'k wait_call \<Rightarrow> string \<Rightarrow> string option list \<Rightarrow> int \<Rightarrow> 'k shell \<Rightarrow> 'k shell option" where
  "plain_command fork waitpid cmd args argc s = do {
     (options, args, argc) \<leftarrow> background cmd args argc;
     let (k, p) = fork (kernel s) (exec_child args None []);
     await_command waitpid options cmd p (s\<lparr>kernel := k\<rparr>)
   }"

record 'k system =
  open_files :: files
  do_fork :: "'k fork_call"
  do_wait :: "'k wait_call"
  do_link :: "'k link_call"
  do_unlink :: "'k unlink_call"

text \<open>\<open>cd\<close> with an argument passes a freed path to \<open>chdir\<close>.\<close>

definition run_command ::
  "'k system \<Rightarrow> string \<Rightarrow> string option list \<Rightarrow> int \<Rightarrow> 'k shell \<Rightarrow> (flow \<times> 'k shell) option" where
  "run_command sys cmd args argc s =
     (if starts ''exit'' cmd then
        (if argc = 1 then Some (Leave, s) else Some (Cleared, report ''exit: syntax error'' s))
      else if starts ''cd'' cmd then
        (if argc = 1 then Some (Cleared, report ''cd: syntax error'' s) else None)
      else if starts ''ln'' cmd then
        (do { n \<leftarrow> arg_num args;
              if n \<noteq> 3 then Some (Cleared, report ''ln: syntax error'' s)
              else do { s \<leftarrow> create_ln (do_link sys) args s; Some (Cleared, s) } })
      else if starts ''rm'' cmd then
        (if argc \<noteq> 2 then Some (Cleared, report ''rm: syntax error'' s)
         else do { s \<leftarrow> rm_file (do_unlink sys) args s; Some (Cleared, s) })
      else if starts ''jobs'' cmd then
        (do { out \<leftarrow> jobs (joblist s); Some (Cleared, s\<lparr>printed := printed s @ [out]\<rparr>) })
      else if starts ''fg'' cmd \<or> starts ''bg'' cmd then fg_bg_command (do_wait sys) cmd args argc s
      else do {
        pos \<leftarrow> find_redirection args argc;
        s \<leftarrow> (if pos \<ge> 0
              then redirect_command (open_files sys) (do_fork sys) (do_wait sys) cmd pos args argc s
              else plain_command (do_fork sys) (do_wait sys) cmd args argc s);
        Some (Cleared, s)
      })"

definition clear :: "int \<Rightarrow> 'k shell \<Rightarrow> 'k shell" where
  "clear sz s = s\<lparr>buff := replicate (nat sz) NUL @ drop (nat sz) (buff s)\<rparr>"

text \<open>One round of the loop on the characters that were read.\<close>

definition shell_round :: "'k system \<Rightarrow> char list \<Rightarrow> 'k shell \<Rightarrow> (flow \<times> 'k shell) option" where
  "shell_round sys input_chars s = do {
     let sz = int (length input_chars);
     (l, mem) \<leftarrow> read_line sz (input_chars @ drop (length input_chars) (buff s));
     let s = s\<lparr>buff := mem\<rparr>;
     (case l of
        Nothing \<Rightarrow> Some (Kept, s)
      | Blank_line \<Rightarrow> do {
          (u, s) \<leftarrow> pids_loop (poll_body (do_wait sys)) () s;
          Some (Cleared, clear sz s)
        }
      | Command args argc \<Rightarrow> do {
          cmd \<leftarrow> aget args 0;
          cmd \<leftarrow> cmd;
          (f, s) \<leftarrow> run_command sys cmd args argc s;
          Some (f, if f = Kept then s else clear sz s)
        })
   }"

text \<open>The loop over what is read: it ends at the end of the input or with \<open>exit\<close>.\<close>

fun shell_loop :: "'k system \<Rightarrow> char list list \<Rightarrow> 'k shell \<Rightarrow> 'k shell option" where
  "shell_loop sys [] s = Some s"
| "shell_loop sys (i # is) s = do {
     (f, s) \<leftarrow> shell_round sys i s;
     if f = Leave then Some s else shell_loop sys is s
   }"

definition shell_main :: "'k system \<Rightarrow> 'k \<Rightarrow> job nodes \<Rightarrow> char list list \<Rightarrow> 'k shell option" where
  "shell_main sys k h inputs = do {
     s \<leftarrow> shell_loop sys inputs \<lparr>joblist = Some (init_job_list h), kernel = k, number = 1, errors = [],
            printed = [], sent = [], buff = replicate (nat SH_BLOCK) NUL\<rparr>;
     l \<leftarrow> cleanup_job_list (joblist s);
     Some (s\<lparr>joblist := l\<rparr>)
   }"

end
