(* ===== verification/ShellJobs.thy ===== *)
theory ShellJobs
  imports ShellControl
begin

text \<open>
  Job control on the sequence of jobs. The specification works on a shell without its job list and
  line buffer, and on the sequence; the pids of the jobs are distinct and none is -1.
\<close>

section \<open>The specification\<close>

definition rest :: "'k shell \<Rightarrow> 'k shell" where
  "rest s = s\<lparr>joblist := None, buff := []\<rparr>"

lemma rest_simps [simp]:
  "joblist (rest s) = None" "kernel (rest s) = kernel s" "number (rest s) = number s" "errors (rest s) = errors s"
  "printed (rest s) = printed s" "sent (rest s) = sent s" "buff (rest s) = []"
  "rest (s\<lparr>joblist := l\<rparr>) = rest s" "rest (s\<lparr>kernel := k\<rparr>) = (rest s)\<lparr>kernel := k\<rparr>"
  "rest (s\<lparr>number := n\<rparr>) = (rest s)\<lparr>number := n\<rparr>" "rest (s\<lparr>errors := e\<rparr>) = (rest s)\<lparr>errors := e\<rparr>"
  "rest (s\<lparr>sent := x\<rparr>) = (rest s)\<lparr>sent := x\<rparr>" "rest (s\<lparr>buff := b\<rparr>) = rest s"
  "rest (s\<lparr>printed := o'\<rparr>) = (rest s)\<lparr>printed := o'\<rparr>" "rest (rest s) = rest s"
  by (simp_all add: rest_def)

lemma rest_report [simp]: "rest (report m s) = report m (rest s)" "joblist (report m s) = joblist s"
  "buff (report m s) = buff s"
  by (simp_all add: report_def)

text \<open>The jid of the job with a pid, and a message about it.\<close>

definition jid_of :: "int \<Rightarrow> job list \<Rightarrow> int" where
  "jid_of p js = (case find (\<lambda>j. pid j = p) js of None \<Rightarrow> - 1 | Some j \<Rightarrow> jid j)"

definition tell :: "int \<Rightarrow> job list \<Rightarrow> string \<Rightarrow> 'k shell \<Rightarrow> 'k shell" where
  "tell p js what = report (''['' @ print_int (jid_of p js) @ ''] ('' @ print_int p @ '') '' @ what)"

text \<open>What a status does to the shell and to the jobs.\<close>

definition notify :: "int \<Rightarrow> int \<Rightarrow> job list \<Rightarrow> 'k shell \<Rightarrow> 'k shell" where
  "notify status p js s =
     (let s = (if WIFEXITED status
               then tell p js (''terminated with exit status '' @ print_int (WEXITSTATUS status)) s else s);
          s = (if WIFSTOPPED status
               then (tell p js (''suspended by signal '' @ print_int (WSTOPSIG status)) s)\<lparr>sent := sent s @ [(p, 20)]\<rparr>
               else s);
          s = (if WIFSIGNALED status then tell p js (''terminated by signal '' @ print_int (WTERMSIG status)) s else s);
          s = (if WIFCONTINUED status then tell p js ''resumed'' s else s)
      in if (WIFEXITED status \<or> WIFSIGNALED status) \<and> p \<notin> pid ` set js
         then report ''problem removing job from list'' s else s)"

definition gone :: "int \<Rightarrow> bool" where
  "gone status \<longleftrightarrow> WIFEXITED status \<or> WIFSIGNALED status"

definition after_status :: "int \<Rightarrow> job \<Rightarrow> job" where
  "after_status status j =
     (if WIFCONTINUED status then j\<lparr>state := Running\<rparr> else if WIFSTOPPED status then j\<lparr>state := Stopped\<rparr> else j)"

definition settle :: "int \<Rightarrow> int \<Rightarrow> job list \<Rightarrow> job list" where
  "settle status p js =
     (if gone status then filter (\<lambda>j. pid j \<noteq> p) js
      else map (\<lambda>j. if pid j = p then after_status status j else j) js)"

text \<open>Going through the jobs; a visit gives the new state and what is left of the job.\<close>

fun visit :: "(job \<Rightarrow> 'x \<Rightarrow> 'x \<times> job list) \<Rightarrow> job list \<Rightarrow> 'x \<Rightarrow> 'x \<times> job list" where
  "visit f [] x = (x, [])"
| "visit f (j # js) x = (let (x, a) = f j x; (x, b) = visit f js x in (x, a @ b))"

definition polled :: "int \<Rightarrow> int \<Rightarrow> job \<Rightarrow> 'k shell \<Rightarrow> 'k shell \<times> job list" where
  "polled w_pid status j s =
     (if w_pid = 0 then (s, [j]) else (notify status (pid j) [j] s, settle status (pid j) [j]))"

definition poll :: "'k wait_call \<Rightarrow> job \<Rightarrow> unit \<times> 'k shell \<Rightarrow> (unit \<times> 'k shell) \<times> job list" where
  "poll waitpid j x =
     (let (w_pid, status, s) = wait_for waitpid (pid j) (WUNTRACED OR WNOHANG OR WCONTINUED) 0 (snd x);
          (s, js) = polled w_pid status j s
      in (((), s), js))"

definition reap :: "'k wait_call \<Rightarrow> int \<Rightarrow> job \<Rightarrow> (int \<times> int) \<times> 'k shell \<Rightarrow> ((int \<times> int) \<times> 'k shell) \<times> job list" where
  "reap waitpid old j x =
     (if old = pid j then (x, [j])
      else let options = fst (fst x) OR WNOHANG;
               (w_pid, status, s) = wait_for waitpid (pid j) options (snd (fst x)) (snd x);
               (s, js) = polled w_pid status j s
           in (((options, status), s), js))"

text \<open>A command that was started as process \<open>p\<close>: unless it ended with status 0 it becomes a job.\<close>

definition entered ::
  "int \<Rightarrow> string \<Rightarrow> int \<Rightarrow> int \<Rightarrow> 'k shell \<Rightarrow> job list \<Rightarrow> 'k shell \<times> job list" where
  "entered status cmd p w_pid s js =
     (if status = 256 then (s, js)
      else let js = js @ [\<lparr>jid = number s, pid = p,
                   state = (if status = 20 then Stopped else Running), command = cmd\<rparr>];
               s = (if w_pid = 0 then tell p js '''' s else notify status p js s)
           in (s\<lparr>number := number s + 1\<rparr>, if w_pid = 0 then js else settle status p js))"

definition awaited :: "'k wait_call \<Rightarrow> int \<Rightarrow> string \<Rightarrow> int \<Rightarrow> 'k shell \<Rightarrow> job list \<Rightarrow> 'k shell \<times> job list" where
  "awaited waitpid options cmd p s js =
     (let (w_pid, status, s) = wait_for waitpid p options 0 s;
          (s, js) = (if status = 0 \<and> w_pid \<noteq> 0 then (s\<lparr>number := number s + 1\<rparr>, js)
                     else entered status cmd p w_pid s js);
          (x, js) = visit (reap waitpid p) js ((options, status), s)
      in (snd x, js))"

section \<open>One operation on distinct pids\<close>

lemma take_out_pid: "distinct (map pid js) \<Longrightarrow> take_out (\<lambda>j. pid j = p) js = filter (\<lambda>j. pid j \<noteq> p) js"
proof (induction js)
  case (Cons j js)
  then have "\<forall>i\<in>set js. pid i \<noteq> pid j" by (auto simp: image_iff)
  then show ?case using Cons by (auto simp: filter_id_conv)
qed simp

lemma change_pid:
  "distinct (map pid js) \<Longrightarrow> change (\<lambda>j. pid j = p) g js = map (\<lambda>j. if pid j = p then g j else j) js"
proof (induction js)
  case (Cons j js)
  then have "\<forall>i\<in>set js. pid i \<noteq> pid j" by (auto simp: image_iff)
  then have "pid j = p \<Longrightarrow> map (\<lambda>j. if pid j = p then g j else j) js = js" by (auto intro: map_idI)
  then show ?case using Cons by auto
qed simp

lemma filter_absent: "\<not> (\<exists>j\<in>set js. pid j = p) \<Longrightarrow> filter (\<lambda>j. pid j \<noteq> p) js = js"
  by (auto simp: filter_id_conv)

lemma map_absent: "\<not> (\<exists>j\<in>set js. pid j = p) \<Longrightarrow> map (\<lambda>j. if pid j = p then g j else j) js = js"
  by (auto intro: map_idI)

lemma update_pid_ok:
  assumes "stands_for l passed todo" "distinct (map pid (passed @ todo))"
  shows "\<exists>r l'. update_job_pid (Some l) p (Some st) = Some (r, Some l') \<and>
    (let g = (\<lambda>j. if pid j = p then j\<lparr>state := st\<rparr> else j) in stands_for l' (map g passed) (map g todo))"
proof -
  note u = update_job_ok [OF assms(1), of pid p st, unfolded Let_def]
  have d: "distinct (map pid passed)" "distinct (map pid todo)"
    "\<exists>j\<in>set passed. pid j = p \<Longrightarrow> \<not> (\<exists>j\<in>set todo. pid j = p)"
    using assms(2) by (auto simp: image_iff)
  consider (passed) "\<exists>j\<in>set passed. pid j = p" | (todo) "\<not> (\<exists>j\<in>set passed. pid j = p)" "\<exists>j\<in>set todo. pid j = p"
    | (no) "\<not> (\<exists>j\<in>set (passed @ todo). pid j = p)" by auto
  then show ?thesis
  proof cases
    case passed
    then obtain l' where "update_job_loop pid p (Some st) l (first l) = Some (0, l')"
        "stands_for l' (change (\<lambda>j. pid j = p) (\<lambda>j. j\<lparr>state := st\<rparr>) passed) todo"
      using u by (auto split: if_splits)
    then show ?thesis using d passed
      by (simp add: update_job_pid_def on_list_def Let_def change_pid map_absent)
  next
    case todo
    then obtain l' where "update_job_loop pid p (Some st) l (first l) = Some (0, l')"
        "stands_for l' passed (change (\<lambda>j. pid j = p) (\<lambda>j. j\<lparr>state := st\<rparr>) todo)"
      using u by (auto split: if_splits)
    then show ?thesis using d todo
      by (simp add: update_job_pid_def on_list_def Let_def change_pid map_absent)
  next
    case no
    then have "update_job_loop pid p (Some st) l (first l) = Some (- 1, l)" using u by simp
    then show ?thesis using no assms(1) by (simp add: update_job_pid_def on_list_def Let_def map_absent)
  qed
qed

lemma remove_pid_ok:
  assumes "stands_for l passed todo" "distinct (map pid (passed @ todo))"
  shows "\<exists>l'. remove_job_pid (Some l) p = Some (if p \<in> pid ` set (passed @ todo) then 0 else - 1, Some l') \<and>
    stands_for l' (filter (\<lambda>j. pid j \<noteq> p) passed) (filter (\<lambda>j. pid j \<noteq> p) todo)"
proof -
  note u = remove_job_ok [OF assms(1), of pid p, unfolded Let_def]
  have d: "distinct (map pid passed)" "distinct (map pid todo)"
    "\<exists>j\<in>set passed. pid j = p \<Longrightarrow> \<not> (\<exists>j\<in>set todo. pid j = p)"
    using assms(2) by (auto simp: image_iff)
  consider (passed) "\<exists>j\<in>set passed. pid j = p" | (todo) "\<not> (\<exists>j\<in>set passed. pid j = p)" "\<exists>j\<in>set todo. pid j = p"
    | (no) "\<not> (\<exists>j\<in>set (passed @ todo). pid j = p)" by auto
  then show ?thesis
  proof cases
    case passed
    then have "p \<in> pid ` set (passed @ todo)" by auto
    moreover obtain l' where "remove_job_loop pid p l 0 (first l) = Some (0, l')"
        "stands_for l' (take_out (\<lambda>j. pid j = p) passed) todo"
      using u passed by (auto split: if_splits)
    ultimately show ?thesis using d passed
      by (simp add: remove_job_pid_def on_list_def take_out_pid filter_absent)
  next
    case todo
    then have "p \<in> pid ` set (passed @ todo)" by auto
    moreover obtain l' where "remove_job_loop pid p l 0 (first l) = Some (0, l')"
        "stands_for l' passed (take_out (\<lambda>j. pid j = p) todo)"
      using u todo by (auto split: if_splits)
    ultimately show ?thesis using d todo
      by (simp add: remove_job_pid_def on_list_def take_out_pid filter_absent)
  next
    case no
    then have "p \<notin> pid ` set (passed @ todo)" by auto
    moreover have "remove_job_loop pid p l 0 (first l) = Some (- 1, l)" using u no by simp
    ultimately show ?thesis using no assms(1) by (simp add: remove_job_pid_def on_list_def filter_absent)
  qed
qed

lemma report_job_ok:
  assumes "joblist s = Some l" "stands_for l passed todo"
  shows "report_job p what s = Some (tell p (passed @ todo) what s)"
  using find_job_ok [OF assms(2), of pid p jid]
  by (simp add: report_job_def get_job_jid_def on_list_def assms(1) tell_def jid_of_def)

section \<open>A status\<close>

lemma tell_simps [simp]:
  "rest (tell p js what s) = tell p js what (rest s)" "joblist (tell p js what s) = joblist s"
  "kernel (tell p js what s) = kernel s" "number (tell p js what s) = number s" "sent (tell p js what s) = sent s"
  "buff (tell p js what s) = buff s"
  "(tell p js what s)\<lparr>joblist := l\<rparr> = tell p js what (s\<lparr>joblist := l\<rparr>)"
  by (simp_all add: tell_def report_def)

lemma jid_of_same: "map pid js' = map pid js \<Longrightarrow> map jid js' = map jid js \<Longrightarrow> jid_of p js' = jid_of p js"
proof (induction js' arbitrary: js)
  case (Cons j' js')
  then obtain j js0 where "js = j # js0" "pid j' = pid j" "jid j' = jid j" "map pid js' = map pid js0"
      "map jid js' = map jid js0" by auto
  then show ?case using Cons.IH [of js0] by (auto simp: jid_of_def)
qed (simp add: jid_of_def)

lemma jid_of_map:
  assumes "\<And>j. jid (g j) = jid j" "\<And>j. pid (g j) = pid j"
  shows "jid_of p (map g js) = jid_of p js"
  by (rule jid_of_same) (simp_all add: assms)

text \<open>Stopping or continuing, and removing, each as one step on a shell with its jobs.\<close>

definition has_jobs :: "'k shell \<Rightarrow> job list \<Rightarrow> job list \<Rightarrow> bool" where
  "has_jobs s passed todo \<longleftrightarrow> (\<exists>l. joblist s = Some l \<and> stands_for l passed todo) \<and> distinct (map pid (passed @ todo))"

lemma has_jobs_keep: "has_jobs s passed todo \<Longrightarrow> joblist s' = joblist s \<Longrightarrow> has_jobs s' passed todo"
  by (simp add: has_jobs_def)

lemma has_jobs_report_job: "has_jobs s passed todo \<Longrightarrow> report_job p what s = Some (tell p (passed @ todo) what s)"
  using report_job_ok by (auto simp: has_jobs_def)

lemma has_jobs_update:
  assumes "has_jobs s passed todo"
  obtains r l where "update_job_pid (joblist s) p (Some st) = Some (r, l)"
    "has_jobs (s\<lparr>joblist := l\<rparr>) (map (\<lambda>j. if pid j = p then j\<lparr>state := st\<rparr> else j) passed)
      (map (\<lambda>j. if pid j = p then j\<lparr>state := st\<rparr> else j) todo)"
proof -
  obtain l where l: "joblist s = Some l" "stands_for l passed todo" "distinct (map pid (passed @ todo))"
    using assms by (auto simp: has_jobs_def)
  let ?g = "\<lambda>j. if pid j = p then j\<lparr>state := st\<rparr> else j"
  obtain r l' where u: "update_job_pid (joblist s) p (Some st) = Some (r, Some l')" "stands_for l' (map ?g passed) (map ?g todo)"
    using update_pid_ok [OF l(2,3), of p st] l(1) by (auto simp: Let_def)
  have "map pid (map ?g js) = map pid js" for js by (induction js) simp_all
  then have "map pid (map ?g passed @ map ?g todo) = map pid (passed @ todo)" unfolding map_append by simp
  then have "distinct (map pid (map ?g passed @ map ?g todo))" using l(3) by (simp only:)
  then have "has_jobs (s\<lparr>joblist := Some l'\<rparr>) (map ?g passed) (map ?g todo)"
    unfolding has_jobs_def using u(2) by simp
  then show thesis using that u(1) by blast
qed

lemma has_jobs_remove:
  assumes "has_jobs s passed todo"
  obtains l where "remove_job_pid (joblist s) p = Some (if p \<in> pid ` set (passed @ todo) then 0 else - 1, l)"
    "has_jobs (s\<lparr>joblist := l\<rparr>) (filter (\<lambda>j. pid j \<noteq> p) passed) (filter (\<lambda>j. pid j \<noteq> p) todo)"
proof -
  obtain l where l: "joblist s = Some l" "stands_for l passed todo" "distinct (map pid (passed @ todo))"
    using assms by (auto simp: has_jobs_def)
  obtain l' where r: "remove_job_pid (joblist s) p = Some (if p \<in> pid ` set (passed @ todo) then 0 else - 1, Some l')"
    "stands_for l' (filter (\<lambda>j. pid j \<noteq> p) passed) (filter (\<lambda>j. pid j \<noteq> p) todo)"
    using remove_pid_ok [OF l(2,3), of p] l(1) by auto
  have "distinct (map pid (filter (\<lambda>j. pid j \<noteq> p) (passed @ todo)))" using l(3) by (rule distinct_map_filter)
  then have "has_jobs (s\<lparr>joblist := Some l'\<rparr>) (filter (\<lambda>j. pid j \<noteq> p) passed) (filter (\<lambda>j. pid j \<noteq> p) todo)"
    using r(2) by (simp add: has_jobs_def)
  then show thesis using that r(1) by blast
qed

lemma WIFSTOPPED_only: "WIFSTOPPED status \<Longrightarrow> \<not> WIFEXITED status \<and> \<not> WIFSIGNALED status \<and> \<not> WIFCONTINUED status"
proof -
  assume "WIFSTOPPED status"
  then have s: "status AND 0xFF = 0x7F" by (simp add: WIFSTOPPED_def)
  have "status AND 0x7F = (status AND 0xFF) AND 0x7F" by (simp add: and.assoc)
  then have t: "status AND 0x7F = 0x7F" by (simp add: s)
  then show ?thesis using s by (auto simp: WIFEXITED_def WTERMSIG_def WIFSIGNALED_def WIFCONTINUED_def)
qed

lemma WIFCONTINUED_only: "WIFCONTINUED status \<Longrightarrow> \<not> WIFEXITED status \<and> \<not> WIFSIGNALED status \<and> \<not> WIFSTOPPED status"
  by (auto simp: WIFEXITED_def WTERMSIG_def WIFSIGNALED_def WIFCONTINUED_def WIFSTOPPED_def)

lemma handle_status_ok:
  assumes "has_jobs s passed todo" "w_pid \<noteq> 0"
  shows "\<exists>s'. handle_status status p w_pid s = Some s' \<and> rest s' = notify status p (passed @ todo) (rest s) \<and>
    has_jobs s' (settle status p passed) (settle status p todo) \<and> buff s' = buff s"
proof -
  let ?js = "passed @ todo"
  consider (stopped) "WIFSTOPPED status" | (continued) "WIFCONTINUED status" | (gone) "\<not> WIFSTOPPED status" "\<not> WIFCONTINUED status" "gone status"
    | (other) "\<not> WIFSTOPPED status" "\<not> WIFCONTINUED status" "\<not> gone status" by blast
  then show ?thesis
  proof cases
    case stopped
    note only = WIFSTOPPED_only [OF stopped]
    let ?s = "tell p ?js (''suspended by signal '' @ print_int (WSTOPSIG status)) s"
    have "has_jobs ?s passed todo" using assms(1) by (rule has_jobs_keep) simp
    then obtain r l where u: "update_job_pid (joblist ?s) p (Some Stopped) = Some (r, l)"
      "has_jobs (?s\<lparr>joblist := l\<rparr>) (map (\<lambda>j. if pid j = p then j\<lparr>state := Stopped\<rparr> else j) passed)
        (map (\<lambda>j. if pid j = p then j\<lparr>state := Stopped\<rparr> else j) todo)" by (rule has_jobs_update)
    have "has_jobs (?s\<lparr>joblist := l, sent := sent s @ [(p, SIGTSTP)]\<rparr>) (settle status p passed) (settle status p todo)"
      using u(2) stopped only by (simp add: settle_def gone_def after_status_def has_jobs_def cong: if_cong)
    then show ?thesis using u(1) stopped only assms(2) has_jobs_report_job [OF assms(1), of p]
      by (simp add: handle_status_def notify_def SIGTSTP_def Let_def)
  next
    case continued
    note only = WIFCONTINUED_only [OF continued]
    let ?s = "tell p ?js ''resumed'' s"
    have "has_jobs ?s passed todo" using assms(1) by (rule has_jobs_keep) simp
    then obtain r l where u: "update_job_pid (joblist ?s) p (Some Running) = Some (r, l)"
      "has_jobs (?s\<lparr>joblist := l\<rparr>) (map (\<lambda>j. if pid j = p then j\<lparr>state := Running\<rparr> else j) passed)
        (map (\<lambda>j. if pid j = p then j\<lparr>state := Running\<rparr> else j) todo)" by (rule has_jobs_update)
    have "has_jobs (?s\<lparr>joblist := l\<rparr>) (settle status p passed) (settle status p todo)"
      using u(2) continued only by (simp add: settle_def gone_def after_status_def cong: if_cong)
    then show ?thesis using u(1) continued only assms(2) has_jobs_report_job [OF assms(1), of p]
      by (simp add: handle_status_def notify_def Let_def)
  next
    case gone
    let ?s1 = "if WIFEXITED status then tell p ?js (''terminated with exit status '' @ print_int (WEXITSTATUS status)) s else s"
    let ?s = "if WIFSIGNALED status then tell p ?js (''terminated by signal '' @ print_int (WTERMSIG status)) ?s1 else ?s1"
    have h1: "has_jobs ?s1 passed todo" by (rule has_jobs_keep [OF assms(1)]) simp
    have "has_jobs ?s passed todo" using h1 by (rule has_jobs_keep) simp
    then obtain l where u: "remove_job_pid (joblist ?s) p = Some (if p \<in> pid ` set ?js then 0 else - 1, l)"
      "has_jobs (?s\<lparr>joblist := l\<rparr>) (filter (\<lambda>j. pid j \<noteq> p) passed) (filter (\<lambda>j. pid j \<noteq> p) todo)"
      by (rule has_jobs_remove)
    let ?s' = "if p \<in> pid ` set ?js then ?s\<lparr>joblist := l\<rparr> else report ''problem removing job from list'' (?s\<lparr>joblist := l\<rparr>)"
    have "has_jobs ?s' (settle status p passed) (settle status p todo)"
      using u(2) gone(3) by (simp add: settle_def has_jobs_def)
    moreover have "handle_status status p w_pid s = Some ?s'"
    proof -
      have "handle_status status p w_pid s = do {
          s \<leftarrow> Some ?s;
          (r, l) \<leftarrow> remove_job_pid (joblist s) p;
          let s = s\<lparr>joblist := l\<rparr>;
          Some (if r = - 1 then report ''problem removing job from list'' s else s)
        }"
        using gone assms(2) has_jobs_report_job [OF assms(1), of p] has_jobs_report_job [OF h1, of p]
        by (auto simp: handle_status_def gone_def)
      then show ?thesis using u(1) by simp
    qed
    moreover have "rest ?s' = notify status p ?js (rest s)"
      using gone by (simp add: notify_def Let_def gone_def)
    moreover have "buff ?s' = buff s" by simp
    ultimately show ?thesis by blast
  next
    case other
    then have "settle status p js = js" for js by (simp add: settle_def after_status_def cong: if_cong)
    then show ?thesis using other assms by (simp add: handle_status_def notify_def gone_def Let_def)
  qed
qed

section \<open>The loop over the jobs\<close>

lemma wait_for_simps:
  assumes "wait_for waitpid p options status s = (w_pid, st, s')"
  shows "rest s' = snd (snd (wait_for waitpid p options status (rest s)))"
    "fst (wait_for waitpid p options status (rest s)) = w_pid"
    "fst (snd (wait_for waitpid p options status (rest s))) = st" "joblist s' = joblist s"
    "buff s' = buff s"
  using assms by (auto simp: wait_for_def split: prod.splits)

lemma settle_absent: "p \<notin> pid ` set js \<Longrightarrow> settle status p js = js"
  by (auto simp: settle_def filter_id_conv image_iff intro!: map_idI)

lemma settle_append: "settle status p (xs @ ys) = settle status p xs @ settle status p ys"
  by (simp add: settle_def)

lemma settle_pids: "set (map pid (settle status p js)) \<subseteq> set (map pid js)"
  by (auto simp: settle_def after_status_def)

lemma notify_this:
  assumes "distinct (map pid (passed @ j # todo))"
  shows "notify status (pid j) (passed @ j # todo) s = notify status (pid j) [j] s"
proof -
  have "find (\<lambda>i. pid i = pid j) (passed @ j # todo) = Some j"
    using assms by (induction passed) auto
  then have "jid_of (pid j) (passed @ j # todo) = jid_of (pid j) [j]" by (simp add: jid_of_def)
  then show ?thesis by (simp add: notify_def tell_def)
qed

text \<open>One visit: the job the loop has just passed.\<close>

lemma polled_ok:
  assumes "has_jobs s (passed @ [j]) todo"
  shows "\<exists>s'. handle_status status (pid j) w_pid s = Some s' \<and> rest s' = fst (polled w_pid status j (rest s)) \<and>
    has_jobs s' (passed @ snd (polled w_pid status j (rest s))) todo \<and> buff s' = buff s"
proof (cases "w_pid = 0")
  case True
  then show ?thesis using assms by (simp add: handle_status_def polled_def)
next
  case False
  have d: "distinct (map pid (passed @ j # todo))" using assms by (simp add: has_jobs_def)
  then have "pid j \<notin> pid ` set passed" "pid j \<notin> pid ` set todo" by auto
  then show ?thesis
    using handle_status_ok [OF assms False, of status "pid j"] False notify_this [OF d, of status "rest s"]
    by (simp add: polled_def settle_append settle_absent)
qed

text \<open>A loop body that implements a visit.\<close>

definition visits ::
  "(int \<Rightarrow> 'c \<Rightarrow> 'k shell \<Rightarrow> ('c \<times> 'k shell) option) \<Rightarrow>
   (job \<Rightarrow> 'c \<times> 'k shell \<Rightarrow> ('c \<times> 'k shell) \<times> job list) \<Rightarrow> bool" where
  "visits body f \<longleftrightarrow> (\<forall>s passed j todo c. has_jobs s (passed @ [j]) todo \<longrightarrow>
     (\<exists>s'. body (pid j) c s = Some (fst (fst (f j (c, rest s))), s') \<and> rest s' = snd (fst (f j (c, rest s))) \<and>
        has_jobs s' (passed @ snd (f j (c, rest s))) todo \<and> buff s' = buff s))"

lemma pids_loop_ok:
  assumes "visits body f"
  shows "has_jobs s passed todo \<Longrightarrow> - 1 \<notin> pid ` set todo \<Longrightarrow>
    \<exists>s'. pids_loop body c s = Some (fst (fst (visit f todo (c, rest s))), s') \<and>
      rest s' = snd (fst (visit f todo (c, rest s))) \<and> has_jobs s' [] (passed @ snd (visit f todo (c, rest s))) \<and>
      buff s' = buff s"
proof (induction todo arbitrary: s passed c)
  case Nil
  then obtain l where l: "joblist s = Some l" "stands_for l passed []" "distinct (map pid passed)"
    by (auto simp: has_jobs_def)
  then show ?case using get_next_pid_ok [OF l(2)]
    by (subst pids_loop.simps) (auto simp: has_jobs_def)
next
  case (Cons j todo)
  then obtain l where l: "joblist s = Some l" "stands_for l passed (j # todo)" "distinct (map pid (passed @ j # todo))"
    by (auto simp: has_jobs_def)
  obtain l' where l': "get_next_pid (Some l) = Some (pid j, Some l')" "stands_for l' (passed @ [j]) todo"
    using get_next_pid_ok [OF l(2)] by auto
  let ?s = "s\<lparr>joblist := Some l'\<rparr>"
  have "has_jobs ?s (passed @ [j]) todo" using l' l(3) by (simp add: has_jobs_def)
  then obtain s1 where s1: "body (pid j) c ?s = Some (fst (fst (f j (c, rest s))), s1)"
    "rest s1 = snd (fst (f j (c, rest s)))" "has_jobs s1 (passed @ snd (f j (c, rest s))) todo" "buff s1 = buff s"
    using assms unfolding visits_def by fastforce
  have "- 1 \<notin> pid ` set todo" "pid j \<noteq> - 1" using Cons.prems(2) by auto
  then show ?case
    using Cons.IH [OF s1(3), of "fst (fst (f j (c, rest s)))"] l(1) l'(1) s1(1,2,4)
    by (subst pids_loop.simps) (auto simp: Let_def case_prod_unfold)
qed

lemma poll_visits: "visits (poll_body waitpid) (poll waitpid)"
  unfolding visits_def
proof (intro allI impI)
  fix s :: "'a shell" and passed j todo and c :: unit
  assume h: "has_jobs s (passed @ [j]) todo"
  obtain w st s1 where w: "wait_for waitpid (pid j) (WUNTRACED OR WNOHANG OR WCONTINUED) 0 s = (w, st, s1)"
    by (metis prod_cases3)
  note ws = wait_for_simps [OF w]
  have "has_jobs s1 (passed @ [j]) todo" using h by (rule has_jobs_keep) (rule ws(4))
  from polled_ok [OF this, of st w] ws show "\<exists>s'. poll_body waitpid (pid j) c s = Some (fst (fst (poll waitpid j (c, rest s))), s') \<and>
      rest s' = snd (fst (poll waitpid j (c, rest s))) \<and> has_jobs s' (passed @ snd (poll waitpid j (c, rest s))) todo \<and>
      buff s' = buff s"
    by (auto simp: poll_body_def poll_def w Let_def case_prod_unfold)
qed

lemma reap_visits: "visits (reap_body waitpid old) (reap waitpid old)"
  unfolding visits_def
proof (intro allI impI)
  fix s :: "'a shell" and passed j todo and c :: "int \<times> int"
  assume h: "has_jobs s (passed @ [j]) todo"
  show "\<exists>s'. reap_body waitpid old (pid j) c s = Some (fst (fst (reap waitpid old j (c, rest s))), s') \<and>
      rest s' = snd (fst (reap waitpid old j (c, rest s))) \<and> has_jobs s' (passed @ snd (reap waitpid old j (c, rest s))) todo \<and>
      buff s' = buff s"
  proof (cases "old = pid j")
    case True
    then show ?thesis using h by (simp add: reap_body_def reap_def)
  next
    case False
    obtain w st s1 where w: "wait_for waitpid (pid j) (fst c OR WNOHANG) (snd c) s = (w, st, s1)" by (metis prod_cases3)
    note ws = wait_for_simps [OF w]
    have "has_jobs s1 (passed @ [j]) todo" using h by (rule has_jobs_keep) (rule ws(4))
    from polled_ok [OF this, of st w] ws False show ?thesis
      by (auto simp: reap_body_def reap_def w Let_def case_prod_unfold)
  qed
qed

section \<open>After a command\<close>

lemma settle_Nil [simp]: "settle status p [] = []"
  by (simp add: settle_def)

lemma notify_simps [simp]: "number (notify status p js s) = number s"
  by (simp add: notify_def Let_def tell_def report_def)

lemma update_and_handle_ok:
  assumes "has_jobs s [] js" "p \<notin> pid ` set js"
  shows "\<exists>s'. update_and_handle status cmd p w_pid s = Some s' \<and>
    rest s' = fst (entered status cmd p w_pid (rest s) js) \<and>
    has_jobs s' [] (snd (entered status cmd p w_pid (rest s) js)) \<and> buff s' = buff s"
proof (cases "status = 256")
  case True
  then show ?thesis using assms(1) by (simp add: update_and_handle_def FAILURE_def SIGTSTP_def entered_def)
next
  case False
  obtain l where l: "joblist s = Some l" "stands_for l [] js" "distinct (map pid js)"
    using assms(1) by (auto simp: has_jobs_def)
  let ?st = "if status = 20 then Stopped else Running"
  let ?j = "\<lparr>jid = number s, pid = p, state = ?st, command = cmd\<rparr>"
  obtain l' where a: "add_job (Some l) (number s) p (Some ?st) (Some cmd) = Some (0, Some l')" "stands_for l' [] (js @ [?j])"
    using add_job_ok [OF l(2), of "number s" p ?st cmd] by (auto simp: Let_def)
  let ?s = "s\<lparr>joblist := Some l'\<rparr>"
  have h: "has_jobs ?s [] (js @ [?j])" using a(2) l(3) assms(2) by (simp add: has_jobs_def)
  show ?thesis
  proof (cases "w_pid = 0")
    case True
    have "has_jobs ((tell p (js @ [?j]) '''' ?s)\<lparr>number := number s + 1\<rparr>) [] (js @ [?j])"
      using h by (rule has_jobs_keep) simp
    then show ?thesis using False True a(1) l(1) has_jobs_report_job [OF h, of p "''''"]
      by (simp add: update_and_handle_def FAILURE_def SIGTSTP_def entered_def Let_def handle_status_def)
  next
    case w: False
    obtain s' where s': "handle_status status p w_pid ?s = Some s'" "rest s' = notify status p (js @ [?j]) (rest s)"
      "has_jobs s' [] (settle status p (js @ [?j]))" "buff s' = buff s"
      using handle_status_ok [OF h w, of status p] by auto
    have "number s' = number s" using arg_cong [OF s'(2), of number] by simp
    moreover have "has_jobs (s'\<lparr>number := number s' + 1\<rparr>) [] (settle status p (js @ [?j]))"
      using s'(3) by (rule has_jobs_keep) simp
    ultimately show ?thesis using False w a(1) l(1) s'
      by (simp add: update_and_handle_def FAILURE_def SIGTSTP_def entered_def Let_def)
  qed
qed

lemma entered_pids: "set (map pid (snd (entered status cmd p w_pid s js))) \<subseteq> insert p (set (map pid js))"
proof -
  have "set (map pid (settle status p xs)) \<subseteq> set (map pid xs)" for xs by (rule settle_pids)
  from this [of "js @ [\<lparr>jid = number s, pid = p, state = (if status = 20 then Stopped else Running), command = cmd\<rparr>]"]
  show ?thesis by (auto simp: entered_def Let_def)
qed

lemma await_command_ok:
  assumes "has_jobs s [] js" "p \<notin> pid ` set js" "- 1 \<notin> pid ` set js" "p \<noteq> - 1"
  shows "\<exists>s'. await_command waitpid options cmd p s = Some s' \<and>
    rest s' = fst (awaited waitpid options cmd p (rest s) js) \<and>
    has_jobs s' [] (snd (awaited waitpid options cmd p (rest s) js)) \<and> buff s' = buff s"
proof -
  obtain w st s1 where w: "wait_for waitpid p options 0 s = (w, st, s1)" by (metis prod_cases3)
  note ws = wait_for_simps [OF w]
  have w': "wait_for waitpid p options 0 (rest s) = (w, st, rest s1)"
    using ws by (metis prod.collapse)
  have h1: "has_jobs s1 [] js" using assms(1) by (rule has_jobs_keep) (rule ws(4))
  let ?e = "if st = 0 \<and> w \<noteq> 0 then ((rest s1)\<lparr>number := number (rest s1) + 1\<rparr>, js)
    else entered st cmd p w (rest s1) js"
  obtain s2 where s2: "(do { let s = (if st = 0 \<and> w \<noteq> 0 then s1\<lparr>number := number s1 + 1\<rparr> else s1);
        if st \<noteq> 0 \<or> st = 0 \<and> w = 0 then update_and_handle st cmd p w s else Some s }) = Some s2"
    "rest s2 = fst ?e" "has_jobs s2 [] (snd ?e)" "buff s2 = buff s"
  proof (cases "st = 0 \<and> w \<noteq> 0")
    case True
    have "has_jobs (s1\<lparr>number := number s1 + 1\<rparr>) [] js" using h1 by (rule has_jobs_keep) simp
    then show thesis using that [of "s1\<lparr>number := number s1 + 1\<rparr>"] True ws(5) by simp
  next
    case False
    obtain s2 where "update_and_handle st cmd p w s1 = Some s2" "rest s2 = fst (entered st cmd p w (rest s1) js)"
      "has_jobs s2 [] (snd (entered st cmd p w (rest s1) js))" "buff s2 = buff s1"
      using update_and_handle_ok [OF h1 assms(2)] by blast
    then show thesis using that [of s2] False ws(5) by (auto simp: Let_def)
  qed
  have "- 1 \<notin> pid ` set (snd ?e)"
    using assms(3,4) entered_pids [of st cmd p w "rest s1" js] by (auto split: if_splits)
  from pids_loop_ok [OF reap_visits s2(3) this, of waitpid p "(options, st)"]
  show ?thesis using s2 w w'
    by (auto simp: await_command_def awaited_def Let_def case_prod_unfold)
qed

end
