(* ===== verification/Shell.thy ===== *)
theory Shell
  imports ShellLine ShellRedirect ShellJobs
begin

text \<open>The properties of the shell: reading a line, redirections, and rounds of its loop on an empty
line and on a command.\<close>

section \<open>A round\<close>

definition empty_line :: "char list" where
  "empty_line = replicate (nat SH_BLOCK) NUL"

lemma read_round:
  assumes "buff s = empty_line" "length line < nat SH_BLOCK" "\<forall>c\<in>set line. c \<noteq> NUL" "length (words line) < ARG_SIZE"
  shows "\<exists>mem. read_line (int (length line)) (line @ drop (length line) (buff s)) = Some (parsed (words line), mem) \<and>
    replicate (length line) NUL @ drop (length line) mem = empty_line"
proof -
  let ?post = "replicate (nat SH_BLOCK - length line - 1) NUL"
  have len: "nat SH_BLOCK - length line = Suc (nat SH_BLOCK - length line - 1)" using assms(2) by simp
  have d: "drop (length line) (buff s) = NUL # ?post"
    unfolding assms(1) empty_line_def drop_replicate by (subst len) simp
  obtain mem where m: "read_line (int (length line)) (line @ NUL # ?post) = Some (parsed (words line), mem)"
    "drop (length line) mem = NUL # ?post"
    using read_line_ok [OF assms(3,4), of ?post] by blast
  have "empty_line = replicate (length line) NUL @ NUL # ?post"
    unfolding empty_line_def using assms(2) by (simp flip: replicate_Suc replicate_add)
  then show ?thesis using m d by simp
qed

lemma clear_round:
  "replicate n NUL @ drop n mem = empty_line \<Longrightarrow> buff s = mem \<Longrightarrow> buff (clear (int n) s) = empty_line"
  by (simp add: clear_def)

lemma clear_rest [simp]: "rest (clear n s) = rest s" "joblist (clear n s) = joblist s"
  by (simp_all add: clear_def)

text \<open>The child of a command: the redirections are taken out, the rest is executed.\<close>

definition child_of ::
  "files \<Rightarrow>
   string list \<Rightarrow> string option list \<Rightarrow> child option" where
  "child_of perms as tail =
     (case redirs perms as None [] of
        Inl c \<Rightarrow> Some c
      | Inr (as', inp, outp) \<Rightarrow> executes as' (replicate (length as - length as') None @ None # tail) inp outp)"

lemma redirected_child_ok:
  "redirected_child perms (place as) (map Some as @ None # tail) (int (length as)) =
    child_of perms as tail"
proof -
  have "exec_child (map Some as' @ replicate n None @ None # tail) inp outp =
      executes as' (replicate n None @ None # tail) inp outp" for as' n inp outp
    using exec_child_ok [of as' "replicate n None @ tail"] by (simp add: replicate_app_Cons_same)
  then show ?thesis
    by (auto simp: redirected_child_def redirect_loop_ok child_of_def split: sum.splits)
qed

lemma child_of_plain: "place as = - 1 \<Longrightarrow> child_of perms as tail = executes as (None # tail) None []"
  by (auto simp: place_def child_of_def redirs.simps split: option.splits)

lemma place_butlast:
  assumes "\<not> redirection (last as)"
  shows "place (butlast as) = place as"
proof (cases "as = []")
  case False
  have "split_redirection (xs @ [y]) = map_option (\<lambda>(b, r, a). (b, r, a @ [y])) (split_redirection xs)"
    if "\<not> redirection y" for xs y
    using that by (induction xs) (auto simp: option.map_comp intro: map_option_cong split: option.splits)
  from this [OF assms, of "butlast as"] False show ?thesis by (auto simp: place_def split: option.splits)
qed simp

text \<open>What \<open>parsed\<close> makes of the words: the arguments.\<close>

definition arguments :: "string \<Rightarrow> string list" where
  "arguments line = butlast (words line) @ [butlast (last (words line))]"

definition builtin :: "string \<Rightarrow> bool" where
  "builtin cmd \<longleftrightarrow> (\<exists>b\<in>{''exit'', ''cd'', ''ln'', ''rm'', ''jobs'', ''fg'', ''bg''}. starts b cmd)"

definition in_background :: "string list \<Rightarrow> bool" where
  "in_background as \<longleftrightarrow> last as = ''&'' \<and> hd as \<noteq> [] \<and> hd (hd as) \<in> {CHR ''.'', CHR ''/''}"

lemma check_first_two_path: "check_first_two w \<longleftrightarrow> w \<noteq> [] \<and> hd w \<in> {CHR ''.'', CHR ''/''}"
  by (cases w) (auto simp: check_first_two_def)

definition started :: "string list \<Rightarrow> string list" where
  "started as = (if in_background as then butlast as else as)"

definition wait_options :: "string list \<Rightarrow> int" where
  "wait_options as = (if in_background as then WUNTRACED OR WCONTINUED OR WNOHANG else WUNTRACED OR WCONTINUED)"

lemma background_ok:
  assumes "as \<noteq> []"
  shows "background (hd as) (map Some as @ None # tail) (int (length as)) =
    Some (wait_options as, map Some (started as) @ None # (if in_background as then None # tail else tail),
      int (length (started as)))"
proof -
  obtain bs b where as: "as = bs @ [b]" using assms by (cases as rule: rev_cases) auto
  have "aget (map Some as @ None # tail) (int (length as) - 1) = Some (Some b)"
    "aset (map Some as @ None # tail) (int (length as) - 1) None = Some (map Some bs @ None # None # tail)"
    using aget_mid [of "map Some bs" "Some b" "None # tail"] aset_mid [of "map Some bs" "Some b" "None # tail" None]
    by (simp_all add: as)
  then show ?thesis using as
    by (auto simp: background_def wait_options_def started_def in_background_def check_first_two_path or.assoc Let_def)
qed

lemma run_command_ok:
  assumes "as \<noteq> []" "\<not> builtin (hd as)" "place as \<noteq> - 1 \<longrightarrow> 3 \<le> length as"
    and "has_jobs s [] js" "- 1 \<notin> pid ` set js"
    and "do_fork sys (kernel s)
      (child_of (open_files sys) (started as) (if in_background as then None # tail else tail)) = (k, p)"
    and "p \<notin> pid ` set js" "p \<noteq> - 1"
  shows "\<exists>s'. run_command sys (hd as) (map Some as @ None # tail) (int (length as)) s = Some (Cleared, s') \<and>
    rest s' = fst (awaited (do_wait sys) (wait_options as) (hd as) p ((rest s)\<lparr>kernel := k\<rparr>) js) \<and>
    has_jobs s' [] (snd (awaited (do_wait sys) (wait_options as) (hd as) p ((rest s)\<lparr>kernel := k\<rparr>) js)) \<and>
    buff s' = buff s"
proof -
  have no_amp: "in_background as \<Longrightarrow> \<not> redirection (last as)"
    by (auto simp: in_background_def redirection_def starts_def)
  then have place: "place (started as) = place as" by (auto simp: started_def place_butlast)
  have pos: "find_redirection (map Some as @ None # tail) (int (length as)) = Some (place as)"
    by (rule find_redirection_place)
  have place_cases: "place as = - 1 \<or> place as \<ge> 0" by (auto simp: place_def split: option.splits)
  have h: "has_jobs (s\<lparr>kernel := k\<rparr>) [] js" using assms(4) by (rule has_jobs_keep) simp
  obtain s' where s': "await_command (do_wait sys) (wait_options as) (hd as) p (s\<lparr>kernel := k\<rparr>) = Some s'"
    "rest s' = fst (awaited (do_wait sys) (wait_options as) (hd as) p ((rest s)\<lparr>kernel := k\<rparr>) js)"
    "has_jobs s' [] (snd (awaited (do_wait sys) (wait_options as) (hd as) p ((rest s)\<lparr>kernel := k\<rparr>) js))"
    "buff s' = buff s"
    using await_command_ok [OF h assms(7,5,8), of "do_wait sys" "wait_options as" "hd as"] by auto
  have run: "run_command sys (hd as) (map Some as @ None # tail) (int (length as)) s =
      do {
        s \<leftarrow> (if place as \<ge> 0
              then redirect_command (open_files sys) (do_fork sys) (do_wait sys) (hd as) (place as)
                (map Some as @ None # tail) (int (length as)) s
              else plain_command (do_fork sys) (do_wait sys) (hd as) (map Some as @ None # tail) (int (length as)) s);
        Some (Cleared, s)
      }"
    using assms(2) pos by (simp add: run_command_def builtin_def)
  let ?tail = "if in_background as then None # tail else tail"
  have "(if place as \<ge> 0
      then redirect_command (open_files sys) (do_fork sys) (do_wait sys) (hd as) (place as)
        (map Some as @ None # tail) (int (length as)) s
      else plain_command (do_fork sys) (do_wait sys) (hd as) (map Some as @ None # tail) (int (length as)) s) = Some s'"
  proof (cases "place as \<ge> 0")
    case True
    have "redirected_child (open_files sys) (place as) (map Some (started as) @ None # ?tail)
        (int (length (started as))) = child_of (open_files sys) (started as) ?tail"
      unfolding place [symmetric] by (rule redirected_child_ok)
    then show ?thesis using True assms(1,3,6) s'(1)
      by (simp add: redirect_command_def background_ok)
  next
    case False
    then have "exec_child (map Some (started as) @ None # ?tail) None [] =
        child_of (open_files sys) (started as) ?tail"
      using place place_cases by (simp add: exec_child_ok child_of_plain)
    then show ?thesis using False assms(1,6) s'(1) by (simp add: plain_command_def background_ok)
  qed
  then show ?thesis using run s' by simp
qed

section \<open>Properties\<close>

text \<open>Blanks at the end of a line: the newline is a word of its own and becomes an empty argument.\<close>

lemma trailing_blank:
  assumes "blank c" "words line \<noteq> []"
  shows "arguments (line @ [c, newline]) = words line @ [[]]"
proof -
  have "words [newline] = [[newline]]" using words_word [of "[]" "[newline]" "[]"] by (simp add: blank_def)
  then have "words (line @ [c, newline]) = words line @ [[newline]]" using words_append [OF assms(1), of line "[newline]"] by simp
  then show ?thesis by (simp add: arguments_def)
qed

lemma arguments_of_line:
  assumes "words body \<noteq> []"
  shows "arguments (body @ [newline]) = words body @ (if blank (last body) then [[]] else [])"
proof (cases body rule: rev_cases)
  case (snoc s c)
  show ?thesis
  proof (cases "blank c")
    case True
    then have "words body = words s" using words_append [of c s "[]"] snoc by simp
    then show ?thesis using trailing_blank [OF True, of s] snoc True assms by simp
  next
    case False
    then show ?thesis using words_snoc [of body newline] snoc by (simp add: arguments_def blank_def)
  qed
qed (use assms in simp)

text \<open>C37. A line without a NUL and with fewer than 32 words, read into a buffer that ends it, is split at
its blanks and tabs. A newline is no separator: it is part of the word before it, or a word of its own.
A line of blanks only is nothing; when the first word is the newline alone, the line is empty; else the
arguments are the words, of which the last loses its last character, whatever it is. So the arguments of
some words and a newline are exactly these words when the newline follows the last one directly, and
have one empty argument more when there are blanks between. The buffer behind the line does not
change.\<close>

theorem shell_reads_words:
  assumes "\<forall>c\<in>set line. c \<noteq> NUL" "length (words line) < ARG_SIZE"
  shows "(\<exists>mem. read_line (int (length line)) (line @ NUL # post) =
      Some (if words line = [] then Nothing
            else if hd (words line) = [newline] then Blank_line
            else Command (map Some (arguments line) @ replicate (ARG_SIZE - length (words line)) None)
              (int (length (words line))), mem) \<and>
    length mem = length (line @ NUL # post) \<and> drop (length line) mem = NUL # post) \<and>
    (\<forall>body. line = body @ [newline] \<and> words body \<noteq> [] \<longrightarrow>
      arguments line = words body @ (if blank (last body) then [[]] else []))"
proof -
  obtain mem where "read_line (int (length line)) (line @ NUL # post) = Some (parsed (words line), mem)"
    "length mem = length line + 1 + length post" "drop (length line) mem = NUL # post"
    using read_line_ok [OF assms, of post] by blast
  then show ?thesis using arguments_of_line by (auto simp: parsed_def arguments_def)
qed

theorem shell_reads_words_witness:
  "\<exists>mem. read_line 6 (''ls -l'' @ [newline] @ [NUL]) =
    Some (Command ([Some ''ls'', Some ''-l''] @ replicate 30 None) 2, mem)"
proof -
  have w: "words (''ls -l'' @ [newline]) = [''ls'', ''-l'' @ [newline]]"
    by (simp add: words.simps blank_def)
  then show ?thesis
    using shell_reads_words [of "''ls -l'' @ [newline]" "[]"] by (auto simp: arguments_def ARG_SIZE_def)
qed


text \<open>C39. On an empty line the shell asks once after every job, in order, and brings the list up to date:
jobs that have ended or were killed go, jobs that stopped or were continued change their state,
the others stay; the line buffer is empty again.\<close>

theorem shell_polls_jobs:
  assumes "buff s = empty_line" "has_jobs s [] js" "- 1 \<notin> pid ` set js"
    and "\<forall>c\<in>set blanks. blank c" "length blanks < nat SH_BLOCK - 1"
  shows "\<exists>s'. shell_round sys (blanks @ [newline]) s = Some (Cleared, s') \<and>
    rest s' = snd (fst (visit (poll (do_wait sys)) js ((), rest s))) \<and>
    has_jobs s' [] (snd (visit (poll (do_wait sys)) js ((), rest s))) \<and> buff s' = empty_line"
proof -
  let ?line = "blanks @ [newline]"
  have w: "words ?line = [[newline]]"
    using words_word [OF assms(4), of "[newline]" "[]"] by (simp add: blank_def)
  have c: "length ?line < nat SH_BLOCK" "\<forall>c\<in>set ?line. c \<noteq> NUL" "length (words ?line) < ARG_SIZE"
    using assms(4,5) by (auto simp: w blank_def ARG_SIZE_def)
  have "parsed (words ?line) = Blank_line" by (simp add: w parsed_def)
  then obtain mem where m:
    "read_line (int (length ?line)) (?line @ drop (length ?line) (buff s)) = Some (Blank_line, mem)"
    "replicate (length ?line) NUL @ drop (length ?line) mem = empty_line"
    using read_round [OF assms(1) c] by metis
  have "has_jobs (s\<lparr>buff := mem\<rparr>) [] js" using assms(2) by (rule has_jobs_keep) simp
  from pids_loop_ok [OF poll_visits this assms(3), of "do_wait sys" "()"]
  obtain s' where s': "pids_loop (poll_body (do_wait sys)) () (s\<lparr>buff := mem\<rparr>) = Some ((), s')"
    "rest s' = snd (fst (visit (poll (do_wait sys)) js ((), rest s)))"
    "has_jobs s' [] (snd (visit (poll (do_wait sys)) js ((), rest s)))" "buff s' = mem" by auto
  have "has_jobs (clear (int (length ?line)) s') [] (snd (visit (poll (do_wait sys)) js ((), rest s)))"
    using s'(3) by (rule has_jobs_keep) simp
  then show ?thesis using m s' clear_round [OF m(2) s'(4)]
    by (intro exI [of _ "clear (int (length ?line)) s'"]) (simp add: shell_round_def)
qed

definition sample_system :: "int \<Rightarrow> int \<Rightarrow> unit system" where
  "sample_system w status = \<lparr>open_files = \<lparr>may_read = (\<lambda>_ _. True), may_write = (\<lambda>_ _. True), may_dup = (\<lambda>_ _. True)\<rparr>,
     do_fork = (\<lambda>k c. (k, 7)),
     do_wait = (\<lambda>k p options. (k, w, status)), do_link = (\<lambda>k a b. (k, None)), do_unlink = (\<lambda>k a. (k, None))\<rparr>"

definition sample_shell :: "unit shell" where
  "sample_shell = \<lparr>joblist = Some (sample_jobs\<lparr>current := 1\<rparr>), kernel = (), number = 3, errors = [], printed = [],
     sent = [], buff = empty_line\<rparr>"

lemma sample_shell_jobs:
  "has_jobs sample_shell [] [\<lparr>jid = 1, pid = 10, state = Running, command = ''make''\<rparr>,
     \<lparr>jid = 2, pid = 20, state = Stopped, command = ''vi''\<rparr>]"
proof -
  have "stands_for (sample_jobs\<lparr>current := 1\<rparr>) [] [\<lparr>jid = 1, pid = 10, state = Running, command = ''make''\<rparr>,
     \<lparr>jid = 2, pid = 20, state = Stopped, command = ''vi''\<rparr>]"
    by (rule stands_forI [of _ "[]" "[1, 2]"]) (auto simp: sample_jobs_def nodes_ok_def)
  then show ?thesis by (simp add: has_jobs_def sample_shell_def)
qed

text \<open>Status 9 is that of a process killed by signal 9.\<close>

theorem shell_polls_jobs_witness:
  "\<exists>s'. shell_round (sample_system 20 9) ('' '' @ [newline]) sample_shell = Some (Cleared, s') \<and> has_jobs s' [] []"
proof -
  have s: "buff sample_shell = empty_line" by (simp add: sample_shell_def)
  have g: "gone 9" by (simp add: gone_def WIFSIGNALED_def)
  have "snd (visit (poll (do_wait (sample_system 20 9)))
      [\<lparr>jid = 1, pid = 10, state = Running, command = ''make''\<rparr>, \<lparr>jid = 2, pid = 20, state = Stopped, command = ''vi''\<rparr>]
      ((), rest sample_shell)) = []"
    using g by (simp add: poll_def sample_system_def wait_for_def polled_def settle_def Let_def case_prod_unfold)
  then show ?thesis
    using shell_polls_jobs [OF s sample_shell_jobs, of "'' ''" "sample_system 20 9"]
    by (auto simp: blank_def SH_BLOCK_def)
qed

text \<open>C36. A line with fewer than 32 words and fewer than 512 characters, whose first word is not and does not
start with the name of a built-in command, and which has at least three words if one of them is a
redirection, starts one child. The child does what the arguments say, without a final \<open>&\<close> when the command
starts like a path; the shell waits for it, or only asks when it runs in the background, and then asks
after the other jobs; the job list and the messages are those of the specification. The pid that \<open>fork\<close>
returns is not the pid of a job in the list.\<close>

theorem shell_runs_command:
  assumes "buff s = empty_line" "has_jobs s [] js" "- 1 \<notin> pid ` set js"
    and "length line < nat SH_BLOCK" "\<forall>c\<in>set line. c \<noteq> NUL" "length (words line) < ARG_SIZE"
    and "words line \<noteq> []" "hd (words line) \<noteq> [newline]" "as = arguments line"
    and "\<not> builtin (hd as)" "(\<exists>a\<in>set as. redirection a) \<longrightarrow> 3 \<le> length as"
    and "do_fork sys (kernel s) (child_of (open_files sys) (started as)
      (replicate (ARG_SIZE - 1 - length (started as)) None)) = (k, p)"
    and "p \<notin> pid ` set js" "p \<noteq> - 1"
  shows "\<exists>s'. shell_round sys line s = Some (Cleared, s') \<and>
    rest s' = fst (awaited (do_wait sys) (wait_options as) (hd as) p ((rest s)\<lparr>kernel := k\<rparr>) js) \<and>
    has_jobs s' [] (snd (awaited (do_wait sys) (wait_options as) (hd as) p ((rest s)\<lparr>kernel := k\<rparr>) js)) \<and>
    buff s' = empty_line"
proof -
  have len: "length as = length (words line)" "as \<noteq> []" using assms(7,9) by (auto simp: arguments_def)
  let ?tail = "replicate (ARG_SIZE - 1 - length as) None"
  have tail: "replicate (ARG_SIZE - length (words line)) None = None # ?tail"
    using assms(6) len(1) by (simp flip: replicate_Suc add: Suc_diff_Suc)
  obtain mem where m: "read_line (int (length line)) (line @ drop (length line) (buff s)) =
      Some (Command (map Some as @ None # ?tail) (int (length as)), mem)"
    "replicate (length line) NUL @ drop (length line) mem = empty_line"
    using read_round [OF assms(1,4,5,6)] assms(7-9) len by (auto simp: parsed_def arguments_def tail)
  let ?s = "s\<lparr>buff := mem\<rparr>"
  have h: "has_jobs ?s [] js" using assms(2) by (rule has_jobs_keep) simp
  have place: "place as \<noteq> - 1 \<longrightarrow> 3 \<le> length as"
    using assms(11) split_redirection_None [of as] by (auto simp: place_def split: option.splits)
  have bg: "in_background as \<Longrightarrow> length (started as) = length as - 1 \<and> 1 \<le> length as"
    using len(2) by (cases as) (simp_all add: started_def)
  have tail': "(if in_background as then None # ?tail else ?tail) = replicate (ARG_SIZE - 1 - length (started as)) None"
  proof (cases "in_background as")
    case True
    then have "ARG_SIZE - 1 - length (started as) = Suc (ARG_SIZE - 1 - length as)"
      using bg assms(6) len(1) by simp
    then show ?thesis using True by simp
  qed (simp add: started_def)
  then have fork: "do_fork sys (kernel ?s) (child_of (open_files sys) (started as)
      (if in_background as then None # ?tail else ?tail)) = (k, p)" unfolding tail' using assms(12) by simp
  obtain s' where s': "run_command sys (hd as) (map Some as @ None # ?tail) (int (length as)) ?s = Some (Cleared, s')"
    "rest s' = fst (awaited (do_wait sys) (wait_options as) (hd as) p ((rest s)\<lparr>kernel := k\<rparr>) js)"
    "has_jobs s' [] (snd (awaited (do_wait sys) (wait_options as) (hd as) p ((rest s)\<lparr>kernel := k\<rparr>) js))" "buff s' = mem"
    using run_command_ok [OF len(2) assms(10) place h assms(3) fork assms(13,14)] by auto
  have cmd: "aget (map Some as @ None # ?tail) 0 = Some (Some (hd as))"
    using aget_mid [of "[]" "Some (hd as)" "map Some (tl as) @ None # ?tail"] len(2) by (cases as) simp_all
  have "has_jobs (clear (int (length line)) s') []
      (snd (awaited (do_wait sys) (wait_options as) (hd as) p ((rest s)\<lparr>kernel := k\<rparr>) js))"
    using s'(3) by (rule has_jobs_keep) simp
  then show ?thesis using m s'(1,2) cmd clear_round [OF m(2) s'(4)]
    by (intro exI [of _ "clear (int (length line)) s'"]) (simp add: shell_round_def)
qed

theorem shell_runs_command_witness:
  "\<exists>s'. shell_round (sample_system 0 0) (''/bin/sleep 5 &'' @ [newline]) sample_shell = Some (Cleared, s') \<and>
    buff s' = empty_line"
proof -
  have s: "buff sample_shell = empty_line" by (simp add: sample_shell_def)
  define line where "line = ''/bin/sleep 5 &'' @ [newline]"
  have w: "words line = [''/bin/sleep'', ''5'', ''&'' @ [newline]]" by (simp add: line_def words.simps blank_def)
  have as: "arguments line = [''/bin/sleep'', ''5'', ''&'']" unfolding arguments_def w by simp
  have b: "\<not> builtin (hd (arguments line))" "\<not> (\<exists>a\<in>set (arguments line). redirection a)"
    by (simp_all add: as builtin_def starts_def redirection_def)
  have l: "length line < nat SH_BLOCK" "\<forall>c\<in>set line. c \<noteq> NUL" "length (words line) < ARG_SIZE" "words line \<noteq> []"
      "hd (words line) \<noteq> [newline]"
    unfolding w by (simp_all add: line_def SH_BLOCK_def ARG_SIZE_def)
  have fork: "do_fork (sample_system 0 0) (kernel sample_shell) c = ((), 7)" for c by (simp add: sample_system_def)
  have "\<exists>s'. shell_round (sample_system 0 0) line sample_shell = Some (Cleared, s') \<and> buff s' = empty_line"
    using shell_runs_command [OF s sample_shell_jobs _ l refl b(1) _ fork] b(2) by auto
  then show ?thesis by (simp add: line_def)
qed

text \<open>A visit of jobs of which there is nothing new.\<close>

lemma reap_quiet:
  assumes "\<forall>k n. \<forall>j\<in>set js. pid j = old \<or> fst (snd (waitpid k (pid j) n)) = 0"
  shows "snd (visit (reap waitpid old) js x) = js \<and> number (snd (fst (visit (reap waitpid old) js x))) = number (snd x)"
  using assms
proof (induction js arbitrary: x)
  case (Cons j js)
  have "snd (reap waitpid old j x) = [j] \<and> number (snd (fst (reap waitpid old j x))) = number (snd x)"
    using Cons.prems by (auto simp: reap_def wait_for_def polled_def Let_def case_prod_unfold)
  then show ?case using Cons by (simp add: Let_def case_prod_unfold)
qed simp

lemma gone_numerals: "gone 0" "gone 256" "gone 20"
  by (simp_all add: gone_def WIFEXITED_def WTERMSIG_def WIFSIGNALED_def)

text \<open>When there is no news of the other jobs, a command that has ended or was killed leaves the job
list as it was, one that still runs in the background is a new running job at its end, and one that
was stopped a new stopped job; the number of the next job is one more, except after exit status 1.\<close>

theorem command_outcomes:
  assumes "\<forall>k n. \<forall>j\<in>set js. fst (snd (waitpid k (pid j) n)) = 0" "p \<notin> pid ` set js"
    and "waitpid (kernel s) p options = (k, w, status)" "w = 0 \<or> w = p" "p > 0"
  shows "snd (awaited waitpid options cmd p s js) =
      (if w = p \<and> gone status then js
       else js @ [\<lparr>jid = number s, pid = p,
         state = (if w = p \<and> WIFSTOPPED status then Stopped else Running), command = cmd\<rparr>]) \<and>
    number (fst (awaited waitpid options cmd p s js)) = (if w = p \<and> status = 256 then number s else number s + 1)"
proof -
  let ?s = "s\<lparr>kernel := k\<rparr>" and ?st = "if w > 0 then status else 0"
  let ?j = "\<lambda>st. \<lparr>jid = number s, pid = p, state = st, command = cmd\<rparr>"
  have wait: "wait_for waitpid p options 0 s = (w, ?st, ?s)" by (simp add: wait_for_def assms(3))
  have quiet: "snd (visit (reap waitpid p) (js @ js') x) = js @ js' \<and>
      number (snd (fst (visit (reap waitpid p) (js @ js') x))) = number (snd x)"
    if "\<forall>j\<in>set js'. pid j = p" for js' x
    using reap_quiet [of "js @ js'" p waitpid x] assms(1) that by auto
  have run: "awaited waitpid options cmd p s js =
      (let (s', js') = (if ?st = 0 \<and> w \<noteq> 0 then (?s\<lparr>number := number s + 1\<rparr>, js) else entered ?st cmd p w ?s js);
           (x, js'') = visit (reap waitpid p) js' ((options, ?st), s')
       in (snd x, js''))" by (simp add: awaited_def wait)
  note q0 = quiet [of "[]", simplified]
  consider (bg) "w = 0" | (fine) "w = p" "status = 0" | (failed) "w = p" "status = 256"
    | (gone) "w = p" "status \<noteq> 0" "status \<noteq> 256" "gone status"
    | (lives) "w = p" "status \<noteq> 0" "status \<noteq> 256" "\<not> gone status"
    using assms(4) by blast
  then show ?thesis
  proof cases
    case bg
    have "entered 0 cmd p 0 ?s js = ((tell p (js @ [?j Running]) '''' ?s)\<lparr>number := number s + 1\<rparr>, js @ [?j Running])"
      by (simp add: entered_def Let_def)
    then show ?thesis using bg assms(5) quiet [of "[?j Running]"] by (simp add: run Let_def case_prod_unfold)
  next
    case fine
    then show ?thesis using assms(5) q0 gone_numerals by (simp add: run Let_def case_prod_unfold)
  next
    case failed
    then have "entered status cmd p w ?s js = (?s, js)" by (simp add: entered_def)
    then show ?thesis using failed assms(5) q0 gone_numerals by (simp add: run Let_def case_prod_unfold)
  next
    case gone
    have "settle status p (js @ [?j st]) = js" for st
      using gone assms(2) settle_absent [OF assms(2), of status] by (simp add: settle_append) (simp add: settle_def)
    then have e: "snd (entered status cmd p w ?s js) = js" "number (fst (entered status cmd p w ?s js)) = number s + 1"
      using gone assms(5) by (simp_all add: entered_def Let_def)
    then show ?thesis using gone assms(5) q0 by (simp add: run Let_def case_prod_unfold)
  next
    case lives
    then have "status \<noteq> 20" using gone_numerals by auto
    then have "settle status p (js @ [?j Running]) = js @ [?j (if WIFSTOPPED status then Stopped else Running)]"
      using lives settle_absent [OF assms(2), of status] WIFSTOPPED_only [of status]
      by (simp add: settle_append) (auto simp add: settle_def after_status_def)
    then have e: "snd (entered status cmd p w ?s js) = js @ [?j (if WIFSTOPPED status then Stopped else Running)]"
      "number (fst (entered status cmd p w ?s js)) = number s + 1"
      using lives assms(5) \<open>status \<noteq> 20\<close> by (simp_all add: entered_def Let_def)
    then show ?thesis using lives assms(5) quiet [of "[?j (if WIFSTOPPED status then Stopped else Running)]"]
      by (simp add: run Let_def case_prod_unfold)
  qed
qed

text \<open>0x147F is the status of a process stopped by signal 20.\<close>

theorem command_outcomes_witness:
  "snd (awaited (\<lambda>k p options. (k, p, 0x147F)) 10 ''./a'' 7 sample_shell []) =
    [\<lparr>jid = 3, pid = 7, state = Stopped, command = ''./a''\<rparr>]"
  using command_outcomes [where js = "[]" and waitpid = "\<lambda>k p options. (k, p, 0x147F)" and p = 7 and s = sample_shell
    and options = 10 and k = "()" and w = 7 and status = "0x147F" and cmd = "''./a''"]
  by (simp add: sample_shell_def gone_def WIFEXITED_def WTERMSIG_def WIFSIGNALED_def WIFSTOPPED_def)

section \<open>Lines that are read wrongly\<close>

text \<open>A failing \<open>fg\<close> continues without clearing the line: the next shorter line is read with what was
left of it.\<close>

lemma stale_line:
  "read_line 6 (''fg %1'' @ [newline, NUL] @ post) =
     Some (Command (Some ''fg'' # Some ''%1'' # replicate 30 None) 2, ''fg'' @ [NUL] @ ''%1'' @ [NUL, NUL] @ post)"
  "\<exists>mem. read_line 3 (''ls'' @ [newline] @ ''%1'' @ [NUL, NUL] @ post) =
     Some (Command (Some (''ls'' @ [newline, CHR ''%'']) # replicate 31 None) 1, mem)"
  by (simp_all add: read_line_def split_line_def split_loop.simps find_cmd_def find_cmd_loop.simps str_len.simps
      aget_def aset_def blank_def ARG_SIZE_def Let_def arg_num_def arg_num_loop.simps string_from_def strings_from_def
      numeral_eq_Suc)

end
