(* ===== verification/Spec2Isabelle.thy ===== *)
theory Spec2Isabelle
  imports MmUtil Bits Life LinkedList NodeAlgos Arrays Io61 Db UthreadSpec MtSpec MazeSpec CStrings Shell
begin

text \<open>
  A verification library for the C programs of this repository, which collects the solutions of
  several systems and algorithms courses. The programs are independent of each other; each has its
  own theories here. Paths below are relative to \<open>src/\<close>.

  \<^bold>\<open>Conventions\<close> (\<^theory_text>\<open>CPrelude\<close>). An expression that aborts the program or has no defined
  behaviour (a failed \<open>assert\<close>, \<open>abort()\<close>, an access outside an object, through \<open>NULL\<close> or to freed
  memory, a use of an uninitialised variable) is \<open>None\<close>, and so is a loop that does not end: the
  loops without an evident bound are \<open>partial_function (option)\<close>, so that a theorem saying the result
  is \<open>Some\<close> says that the code returns. No definition uses fuel. Bounded loops are \<open>c_for\<close> or
  functions with a measure. An \<open>int\<close> whose bits matter is a \<open>32 word\<close>; sizes that may wrap are
  written with their wrap-around (\<open>u64\<close>, \<open>size_sub\<close>, \<open>to_int32\<close>); an \<open>int\<close> used as a count or an
  index is an \<open>int\<close>, and array accesses check its range. Results of the operating system, random
  numbers and the contents of fresh memory are parameters.

  \<^bold>\<open>Shared representations.\<close> \<^theory_text>\<open>DList\<close>: circular doubly linked lists, as a locale \<open>link_store\<close>
  over the four accesses of a heap of links, with the laws of reading after writing; the free list
  of the allocator and the queues of the thread library are interpretations. \<^theory_text>\<open>PtrList\<close>: singly linked
  lists in a heap of nodes, used by the linked list library, the list exercises and the job list.

  \<^bold>\<open>Storage allocator\<close> (\<open>systems/cs033/malloc\<close>). \<^theory_text>\<open>MmDefs\<close> models the simulated \<open>sbrk\<close> of
  \<open>memlib.c\<close>, the block accessors of \<open>mminline.h\<close> and all of \<open>mm.c\<close>, on a memory of 8-byte words.
  \<^theory_text>\<open>MmInv\<close> has the heap invariant \<open>heap_ok\<close> (the region is tiled by blocks with matching tags, no two
  free blocks touch, the free list is a ring of exactly the free blocks); \<^theory_text>\<open>MmList\<close>, \<^theory_text>\<open>MmAlloc\<close>,
  \<^theory_text>\<open>MmMalloc\<close>, \<^theory_text>\<open>MmFree\<close>, \<^theory_text>\<open>MmCheck\<close> and \<^theory_text>\<open>MmRealloc\<close> prove each operation against it,
  and \<^theory_text>\<open>MmSpec\<close> states the contract of the interface. \<^theory_text>\<open>MmDriver\<close> models the part of the trace driver
  \<open>mdriver.c\<close> that checks the allocator and measures its utilisation, on single bytes of the same
  memory (\<^theory_text>\<open>MmBytes\<close>); \<^theory_text>\<open>MmValid\<close> proves from the contract that the driver accepts every well-formed
  trace that fits the heap and avoids the sizes and indices for which allocator or driver are wrong
  (\<open>good_trace\<close>), \<^theory_text>\<open>MmUtil\<close> that the utilisation on these traces is that of the peak demand. A trace is a
  list of requests; the range list is its contents, and messages are recorded by their kind. The room of the
  stack for the buffer in which \<open>mm_realloc\<close> keeps the old payload is a parameter.

  \<^bold>\<open>Bit puzzles\<close> (\<open>systems/cs033/data/data\<close>): \<^theory_text>\<open>Bits\<close>, the puzzles of \<open>bits.c\<close> on 32-bit words
  against the references of \<open>tests.c\<close>. \<^bold>\<open>Game of life\<close> (\<open>systems/cs033/lab01/life.c\<close>): \<^theory_text>\<open>Life\<close>,
  the board as an array against the set of live cells.

  \<^bold>\<open>Lists and arrays.\<close> \<^theory_text>\<open>LinkedList\<close>: \<open>systems/cs033/lab08/linkedlist.c\<close> as a list of values, the
  callbacks being parameters. \<^theory_text>\<open>NodeAlgos\<close> and \<^theory_text>\<open>Arrays\<close>: the exercises under \<open>algos\<close> (list
  reversal, merging, addition of digit lists; insertion sorts, pair sums, subsequences, \<open>atoi\<close>).
  \<^theory_text>\<open>CStrings\<close>: the string library \<open>systems/cs033/stringsperf/strings/strings.c\<close>.

  \<^bold>\<open>Buffered files\<close> (\<open>systems/cs033/cache61\<close>). \<^theory_text>\<open>OsFile\<close> is a regular file as the system calls see it.
  \<^theory_text>\<open>Io61Defs\<close> models \<open>io61.c\<close> and its unbuffered reference \<open>slow-io61.c\<close>; \<^theory_text>\<open>Io61Read\<close> relates
  their reading, \<^theory_text>\<open>Io61Write\<close> proves that the buffer and its list of extents represent one file;
  \<^theory_text>\<open>Io61\<close> proves the copying programs once, over locales for a source and a sink of bytes, which
  both implementations interpret. The contents of the object that \<open>io61_fdopen\<close> allocates are a parameter; it
  gives a usable file only if they are zero.

  \<^bold>\<open>Database\<close> (\<open>systems/cs033/database/db.c\<close>). \<^theory_text>\<open>DbDefs\<close> models the search tree with the lock of each node,
  as one thread runs it, and the command interpreter; \<^theory_text>\<open>DbTree\<close> relates heaps to trees;
  \<^theory_text>\<open>Db\<close> proves that the operations act as on a finite map and release all locks.

  \<^bold>\<open>User-level threads\<close> (\<open>systems/cs167/uthreads_stencil\<close>). \<^theory_text>\<open>UthreadDefs\<close> models the queues, the
  scheduler, mutexes, condition variables, creation, exit, joining, detaching and the reaper; a
  thread's context is a stack of frames, each the rest of a function after a call that may switch
  threads. The clock may interrupt between two frames of a thread that has not disabled
  preemption; an interrupt inside a function that has not disabled it is modelled where it matters
  (\<open>double_enqueue_aborts\<close>). \<^theory_text>\<open>UthreadQueue\<close>, \<^theory_text>\<open>UthreadSched\<close> and \<^theory_text>\<open>UthreadSync\<close> prove the operations,
  \<^theory_text>\<open>Uthreads\<close> has the step relation and the invariant of all reachable states, \<^theory_text>\<open>UthreadSpec\<close> the
  properties.

  \<^bold>\<open>Threads on several processors\<close> (\<open>systems/cs167/mthreads_stencil\<close>). \<^theory_text>\<open>MtDefs\<close> models the scheduler, the
  mutexes and the condition variables of the second thread library, whose threads are run by any number of kernel
  threads (LWPs) at the same time. A function is a list of frames, each the code between two operations on POSIX
  mutexes or one such operation; each LWP has a stack of frames, and a step is a frame of one LWP, a call in the
  program of its thread, or a clock interrupt. \<^theory_text>\<open>MtInv\<close> states the invariant: what each stack requires and
  promises (preemption, POSIX mutexes and their order, wake-ups, mutexes claimed), where each thread is, and what the
  owner of a mutex means. \<^theory_text>\<open>MtSteps\<close> proves the ways in which a thread moves from place to place,
  \<^theory_text>\<open>MtReach\<close> that every frame keeps the invariant, and \<^theory_text>\<open>MtSpec\<close> has the properties of all reachable
  states. A frame is atomic because the data it touches belong to its own thread or LWP or are protected by a
  POSIX mutex it holds; the exception is the state of a thread that \<open>uthread_wake\<close> reads before it locks
  \<open>runq_mtx\<close>, which nobody else changes meanwhile. POSIX mutexes and the condition variable of the parked
  LWPs follow their documentation: a signal unblocks one LWP that waits, and a wait may return without one. A queue
  is the sequence of its threads with its size, which \<open>utqueue_empty\<close> compares.
  All threads are created before the start with a priority of at most \<open>UTH_MAXPRIO\<close> (\<open>MT_MAXPRIO\<close>), and their programs
  unlock, and wait with, only mutexes they hold.

  \<^bold>\<open>Mazes\<close> (\<open>systems/cs033/maze\<close>). \<^theory_text>\<open>MazeDefs\<close> models \<open>common.c\<close>, \<open>generator.c\<close> and \<open>solver.c\<close>;
  \<^theory_text>\<open>MazeGrid\<close> reads the array as a grid; \<^theory_text>\<open>MazeGen\<close> proves that the random walk leaves a perfect
  maze, \<^theory_text>\<open>MazeSolve\<close> the depth-first search, \<^theory_text>\<open>MazeFile\<close> the file between the programs, and
  \<^theory_text>\<open>MazeSpec\<close> the two programs together. A size or a number of
  rooms that is not an \<open>int\<close>, and rooms for which the stack has no space (a parameter), have no defined behaviour.

  \<^bold>\<open>Shell\<close> (\<open>systems/cs033/shell_2\<close>). \<^theory_text>\<open>Jobs\<close>: the job list of \<open>jobs.c\<close> as a sequence with a position.
  \<^theory_text>\<open>ShellDefs\<close> models the splitting of a line and the redirections of a child (\<open>sh.c\<close>,
  \<open>helpers/shell_1_helpers.c\<close>), \<^theory_text>\<open>ShellControl\<close> job control and the command loop
  (\<open>helpers/shell_2_helpers.c\<close>, \<open>sh.c\<close>); system calls act on an abstract kernel, the terminal and
  process groups are left out. A child is what it executes, or its error, with the files it has opened for
  output; whether \<open>open\<close> and \<open>dup2\<close> succeed is a parameter. \<^theory_text>\<open>ShellLine\<close> and \<^theory_text>\<open>ShellRedirect\<close> prove the first two against
  functions on lists of words, \<^theory_text>\<open>ShellJobs\<close> the loops over the jobs against functions on sequences of
  jobs, and \<^theory_text>\<open>Shell\<close> puts them together in rounds of the loop. \<open>cd\<close> has no meaning: it passes a
  freed path to the system.

  \<^bold>\<open>Not modelled.\<close> Test drivers and profiling (the reading of traces and the timing in
  \<open>malloc/mdriver.c\<close>, \<open>data/data/btest.c\<close>, the timers, the
  tests of each lab), programs that only call the system (the networking, signal and image labs,
  the socket code of the database), assembly and its drivers, the debugging allocator \<open>m61\<close>. Of
  the multiprocessor version of the thread library the creation, exit, joining and detaching of threads, the reaper and
  changes of priority are left out: they change threads outside the locks that protect them. The floating-point
  puzzles need IEEE arithmetic. Failures of \<open>malloc\<close> are modelled in the allocator, the linked list
  library, the database and the first thread library only. Programs in other languages are out of scope.
\<close>

end
